(* ===== verification/Prelude.thy ===== *)
theory Prelude
  imports Complex_Main "HOL-Library.Word"
begin

text \<open>
  Shared vocabulary of the development: the C integer types as words, the pools of VPP's
  vppinfra, the compare-and-swap retry loop, and the generic lemmas the components use.

  A vppinfra pool is a vector of slots, each live or free, addressed by a 32-bit index; it is a
  list of options here.  Which free slot \<^verbatim>\<open>pool_get\<close> hands out is vppinfra's own choice
  (its free list), so an operation that allocates takes that index as an input, and
  \<open>pool_fresh\<close> states what vppinfra promises about it.  The C code marks "no index" by
  \<^verbatim>\<open>~0\<close>, written \<open>nil32\<close>.
\<close>

unbundle bit_operations_syntax

section \<open>C integer types\<close>

type_synonym u8 = "8 word"
type_synonym u16 = "16 word"
type_synonym u32 = "32 word"
type_synonym u64 = "64 word"
type_synonym u128 = "128 word"

abbreviation nil32 :: u32 where
  "nil32 \<equiv> - 1"

text \<open>The C idiom \<^verbatim>\<open>(i32) (a - b)\<close>: the wrapped difference read as two's complement.\<close>

definition sdiff32 :: "u32 \<Rightarrow> u32 \<Rightarrow> int" where
  "sdiff32 a b = sint (a - b)"

section \<open>Lemma collections\<close>

named_theorems pool_simps \<open>how the pool operations act on a lookup\<close>
named_theorems word_nat \<open>word operations read as natural numbers\<close>

section \<open>Words\<close>

lemma unat_u32_less [simp]: "unat (x :: u32) < 4294967296"
  using unsigned_less [of x] by simp

lemma unat_u64_less [simp]: "unat (x :: u64) < 18446744073709551616"
  using unsigned_less [of x] by simp

lemma unat_u16_less [simp]: "unat (x :: u16) < 65536"
  using unsigned_less [of x] by simp

lemma uint_nil32: "uint nil32 = 4294967295"
  by (simp add: unsigned_minus_1_eq_mask mask_eq_exp_minus_1)

lemma unat_nil32 [simp]: "unat nil32 = 4294967295"
  by (simp add: unsigned_minus_1_eq_mask mask_eq_exp_minus_1)

lemma len64: "2 ^ LENGTH(64) = (2 ^ 64 :: int)"
  by simp

lemma len32: "2 ^ LENGTH(32) = (2 ^ 32 :: int)"
  by simp

lemma unat_add_exact [word_nat]:
  "unat a + unat b < 2 ^ LENGTH('a) \<Longrightarrow> unat (a + b) = unat a + unat (b :: 'a::len word)"
  by (simp add: unat_word_ariths)

lemma unat_sub_exact [word_nat]:
  "b \<le> a \<Longrightarrow> unat (a - b) = unat a - unat (b :: 'a::len word)"
  by (rule unat_sub)

lemma unat_mult_exact [word_nat]:
  "unat a * unat b < 2 ^ LENGTH('a) \<Longrightarrow> unat (a * b) = unat a * unat (b :: 'a::len word)"
  by (simp add: unat_word_ariths)

lemma uint_u32_less [simp]: "uint (x :: u32) < 4294967296"
  using uint_lt2p [of x] by simp

lemma uint_u64_less [simp]: "uint (x :: u64) < 18446744073709551616"
  using uint_lt2p [of x] by simp

lemma uint_pos:
  assumes "x \<noteq> 0"
  shows "1 \<le> uint x"
proof -
  have "uint x \<noteq> 0" using assms by (simp add: uint_0_iff)
  with uint_ge_0 [of x] show ?thesis by linarith
qed

lemma uint_add_exact [word_nat]:
  "uint a + uint b < 2 ^ LENGTH('a) \<Longrightarrow> uint (a + b) = uint a + uint (b :: 'a::len word)"
  by (simp add: uint_word_ariths)

lemma uint_sub_exact [word_nat]:
  "uint b \<le> uint a \<Longrightarrow> uint (a - b) = uint a - uint (b :: 'a::len word)"
  by (rule uint_sub_lem [THEN iffD1])

lemma uint_ucast_up:
  "LENGTH('a) \<le> LENGTH('b) \<Longrightarrow> uint (ucast (x :: 'a::len word) :: 'b::len word) = uint x"
  by (simp add: unsigned_ucast_eq take_bit_int_eq_self_iff
      less_le_trans [OF uint_lt2p power_increasing])

lemma uint_ucast_mod:
  "uint (ucast (x :: 'a::len word) :: 'b::len word) = uint x mod 2 ^ LENGTH('b)"
  by (simp add: unsigned_ucast_eq take_bit_eq_mod)

lemma unat_plus_less: "unat a + unat b < n \<longleftrightarrow> uint a + uint b < int n"
proof -
  have "unat a + unat b < n \<longleftrightarrow> int (unat a + unat b) < int n" by (simp only: of_nat_less_iff)
  also have "\<dots> \<longleftrightarrow> uint a + uint b < int n" by (simp only: of_nat_add of_nat_unat)
  finally show ?thesis .
qed

lemma sint_small:
  fixes w :: "'a::len word"
  assumes "uint w < 2 ^ (LENGTH('a) - 1)"
  shows "sint w = uint w"
proof -
  from assms have "signed_take_bit (LENGTH('a) - Suc 0) (uint w) = uint w"
    by (intro signed_take_bit_int_eq_self) (simp_all add: order.trans [of _ 0])
  then show ?thesis by (simp add: sint_uint)
qed

lemma unat_ucast_up:
  "LENGTH('a) \<le> LENGTH('b) \<Longrightarrow> unat (ucast (x :: 'a::len word) :: 'b::len word) = unat x"
  by (simp add: unsigned_ucast_eq take_bit_nat_eq_self_iff
      less_le_trans [OF unsigned_less power_increasing])

lemma unat_ucast_mod:
  "unat (ucast (x :: 'a::len word) :: 'b::len word) = unat x mod 2 ^ LENGTH('b)"
  by (simp add: unsigned_ucast_eq take_bit_eq_mod)

section \<open>Pools\<close>

type_synonym 'a pool = "'a option list"

definition pool_at :: "'a pool \<Rightarrow> u32 \<Rightarrow> 'a option" where
  "pool_at p i = (if unat i < length p then p ! unat i else None)"

definition pool_is_free_index :: "'a pool \<Rightarrow> u32 \<Rightarrow> bool" where
  "pool_is_free_index p i \<longleftrightarrow> pool_at p i = None"

definition pool_elts :: "'a pool \<Rightarrow> nat" where
  "pool_elts p = length (filter (\<lambda>e. e \<noteq> None) p)"

text \<open>What vppinfra promises of the index a \<^verbatim>\<open>pool_get\<close> returns.\<close>

definition pool_fresh :: "'a pool \<Rightarrow> u32 \<Rightarrow> bool" where
  "pool_fresh p i \<longleftrightarrow> unat i \<le> length p \<and> pool_at p i = None \<and> i \<noteq> nil32"

text \<open>The element a \<^verbatim>\<open>pool_get\<close> at \<open>i\<close> returned, once written.\<close>

definition pool_get_put :: "u32 \<Rightarrow> 'a \<Rightarrow> 'a pool \<Rightarrow> 'a pool" where
  "pool_get_put i x p = (if unat i < length p then p[unat i := Some x] else p @ [Some x])"

definition pool_upd :: "u32 \<Rightarrow> ('a \<Rightarrow> 'a) \<Rightarrow> 'a pool \<Rightarrow> 'a pool" where
  "pool_upd i f p = (if unat i < length p then p[unat i := map_option f (p ! unat i)] else p)"

definition pool_put :: "u32 \<Rightarrow> 'a pool \<Rightarrow> 'a pool" where
  "pool_put i p = p[unat i := None]"

text \<open>The indices \<^verbatim>\<open>pool_foreach\<close> visits, in its ascending order.\<close>

definition pool_indices :: "'a pool \<Rightarrow> u32 list" where
  "pool_indices p = map (\<lambda>n. word_of_nat n) (filter (\<lambda>n. p ! n \<noteq> None) [0..<length p])"

lemma pool_at_get_put [pool_simps]:
  "pool_fresh p i \<Longrightarrow> pool_at (pool_get_put i x p) j = (if j = i then Some x else pool_at p j)"
  by (auto simp: pool_at_def pool_get_put_def pool_fresh_def nth_append
      nth_list_update less_Suc_eq word_unat_eq_iff)

lemma pool_at_upd [pool_simps]:
  "pool_at (pool_upd i f p) j = (if j = i then map_option f (pool_at p i) else pool_at p j)"
  by (auto simp: pool_at_def pool_upd_def nth_list_update word_unat_eq_iff)

lemma pool_at_put [pool_simps]:
  "pool_at (pool_put i p) j = (if j = i then None else pool_at p j)"
  by (auto simp: pool_at_def pool_put_def nth_list_update word_unat_eq_iff)

lemma pool_fresh_at: "pool_fresh p i \<Longrightarrow> pool_at p i = None"
  by (simp add: pool_fresh_def)

lemma pool_fresh_nil [simp]: "\<not> pool_fresh p nil32"
  by (simp add: pool_fresh_def)

lemma length_pool_upd [simp]: "length (pool_upd i f p) = length p"
  by (simp add: pool_upd_def)

lemma length_pool_put [simp]: "length (pool_put i p) = length p"
  by (simp add: pool_put_def)

lemma length_pool_get_put:
  "length (pool_get_put i x p) = (if unat i < length p then length p else Suc (length p))"
  by (simp add: pool_get_put_def)

text \<open>The slots of a pool all have an index: its length is at most \<open>2 ^ 32\<close>.\<close>

definition pool_small :: "'a pool \<Rightarrow> bool" where
  "pool_small p \<longleftrightarrow> length p \<le> 2 ^ LENGTH(32)"

lemma unat_slot:
  assumes "pool_small p" and "n < length p"
  shows "unat (word_of_nat n :: u32) = n"
proof -
  from assms have "n < 2 ^ LENGTH(32)" by (simp only: pool_small_def less_le_trans)
  then have "take_bit LENGTH(32) n = n" by (rule take_bit_nat_eq_self)
  then show ?thesis by (simp only: unsigned_of_nat of_nat_id)
qed

lemma set_pool_indices:
  assumes "pool_small p"
  shows "set (pool_indices p) = {i. pool_at p i \<noteq> None}"
proof (intro set_eqI iffI)
  fix i
  assume "i \<in> set (pool_indices p)"
  then obtain n where n: "n < length p" "p ! n \<noteq> None" "i = word_of_nat n"
    by (auto simp: pool_indices_def)
  with unat_slot [OF assms n(1)] show "i \<in> {i. pool_at p i \<noteq> None}"
    by (simp add: pool_at_def)
next
  fix i
  assume "i \<in> {i. pool_at p i \<noteq> None}"
  then have "unat i < length p" "p ! unat i \<noteq> None"
    by (auto simp: pool_at_def split: if_splits)
  then have "unat i \<in> set (filter (\<lambda>n. p ! n \<noteq> None) [0..<length p])" by simp
  then have "word_of_nat (unat i) \<in> set (pool_indices p)"
    unfolding pool_indices_def set_map by (rule imageI)
  then show "i \<in> set (pool_indices p)" by simp
qed

lemma distinct_pool_indices:
  assumes "pool_small p"
  shows "distinct (pool_indices p)"
proof -
  have "inj_on (\<lambda>n. word_of_nat n :: u32) (set (filter (\<lambda>n. p ! n \<noteq> None) [0..<length p]))"
    by (rule inj_on_inverseI [where g = unat]) (simp add: unat_slot [OF assms])
  then show ?thesis
    by (simp add: pool_indices_def distinct_map)
qed

section \<open>Compare-and-swap retry loops\<close>

text \<open>
  The C loops over \<^verbatim>\<open>__atomic_compare_exchange_n\<close> load a word, compute its successor from
  it and from a snapshot of other shared values, and try to install it; they start over when
  another thread got in between or the weak exchange failed spuriously.  \<open>body s w\<close> is one
  iteration on the loaded word \<open>w\<close> with snapshot \<open>s\<close>: \<open>None\<close> leaves the loop with
  nothing written.  The environment lists what each further iteration will load, one entry per
  failed exchange; with no entry left the exchange succeeds.
\<close>

fun cas_loop ::
  "('s \<Rightarrow> 'w \<Rightarrow> 'w option \<times> 'r) \<Rightarrow> 's \<Rightarrow> 'w \<Rightarrow> ('s \<times> 'w) list \<Rightarrow> 'w \<times> 'r"
where
  "cas_loop body s w [] = (case body s w of (None, r) \<Rightarrow> (w, r) | (Some w', r) \<Rightarrow> (w', r))"
| "cas_loop body s w ((s', w') # env) =
     (case body s w of (None, r) \<Rightarrow> (w, r) | (Some _, _) \<Rightarrow> cas_loop body s' w' env)"

text \<open>Whatever the interference, the loop acts as one iteration on one value it loaded.\<close>

lemma cas_loop_linear:
  "\<exists>(s', w') \<in> set ((s, w) # env). cas_loop body s w env = cas_loop body s' w' []"
proof (induction env arbitrary: s w)
  case Nil
  then show ?case by simp
next
  case (Cons e env)
  obtain s' w' where e: "e = (s', w')" by (cases e)
  show ?case
  proof (cases "body s w")
    case (Pair o' r)
    then show ?thesis
      using Cons.IH [of s' w'] by (cases o') (auto simp: e)
  qed
qed

section \<open>Sums over pools\<close>

text \<open>The sum of a quantity over the live elements of a pool.\<close>

definition pool_sum :: "('a \<Rightarrow> 'b::comm_monoid_add) \<Rightarrow> 'a pool \<Rightarrow> 'b" where
  "pool_sum f p = (\<Sum>e\<leftarrow>p. case e of None \<Rightarrow> 0 | Some x \<Rightarrow> f x)"

lemma sum_list_update_add:
  "k < length xs \<Longrightarrow> sum_list (xs[k := x]) + xs ! k = sum_list xs + (x :: 'b::comm_monoid_add)"
  by (induction xs arbitrary: k) (auto simp: ac_simps split: nat.split)

lemma pool_sum_upd:
  "pool_at p i = Some x \<Longrightarrow> pool_sum f (pool_upd i g p) + f x = pool_sum f p + f (g x)"
  using sum_list_update_add [of "unat i" "map (case_option 0 f) p" "f (g x)"]
  by (auto simp: pool_sum_def pool_upd_def pool_at_def map_update split: if_splits)

lemma pool_sum_put:
  "pool_at p i = Some x \<Longrightarrow> pool_sum f (pool_put i p) + f x = pool_sum f p"
  using sum_list_update_add [of "unat i" "map (case_option 0 f) p" 0]
  by (auto simp: pool_sum_def pool_put_def pool_at_def map_update split: if_splits)

lemma pool_sum_get_put:
  "pool_fresh p i \<Longrightarrow> pool_sum f (pool_get_put i x p) = pool_sum f p + f x"
  using sum_list_update_add [of "unat i" "map (case_option 0 f) p" "f x"]
  by (auto simp: pool_sum_def pool_get_put_def pool_fresh_def pool_at_def map_update split: if_splits)

lemma pool_at_nth:
  "pool_small p \<Longrightarrow> n < length p \<Longrightarrow> pool_at p (word_of_nat n) = p ! n"
  by (simp add: pool_at_def unat_slot)

lemma pool_sum_cong:
  assumes "pool_small p" and "\<And>i x. pool_at p i = Some x \<Longrightarrow> f x = g x"
  shows "pool_sum f p = pool_sum g p"
proof -
  have "f x = g x" if x: "Some x \<in> set p" for x
  proof -
    from x obtain n where "n < length p" "p ! n = Some x" by (auto simp: in_set_conv_nth)
    with pool_at_nth [OF assms(1), of n] assms(2) show ?thesis by metis
  qed
  then show ?thesis
    unfolding pool_sum_def by (intro arg_cong [where f = sum_list] map_cong) (auto split: option.split)
qed

lemma pool_sum_upd_same:
  "(\<And>x. pool_at p i = Some x \<Longrightarrow> f (g x) = f x) \<Longrightarrow> pool_sum f (pool_upd i g p) = pool_sum f p"
proof (cases "pool_at p i")
  case None
  then show ?thesis
    by (auto simp: pool_sum_def pool_upd_def pool_at_def split: if_splits
        intro!: arg_cong [where f = sum_list] nth_equalityI)
      (auto simp: nth_list_update)
next
  case (Some x)
  moreover assume "\<And>x. pool_at p i = Some x \<Longrightarrow> f (g x) = f x"
  ultimately have "unat i < length p" "p ! unat i = Some x" "f (g x) = f x"
    by (auto simp: pool_at_def split: if_splits)
  then have "map (case_option 0 f) (pool_upd i g p) = map (case_option 0 f) p"
    by (auto simp: pool_upd_def nth_list_update intro!: nth_equalityI)
  then show ?thesis by (simp add: pool_sum_def)
qed

lemma pool_sum_remove:
  fixes f :: "'a \<Rightarrow> 'b::ab_group_add"
  shows "pool_at p i = Some x \<Longrightarrow> pool_sum f (pool_put i p) = pool_sum f p - f x"
  using pool_sum_put [of p i x f] by (simp add: eq_diff_eq)

lemma pool_sum_change:
  fixes f :: "'a \<Rightarrow> 'b::ab_group_add"
  shows "pool_at p i = Some x \<Longrightarrow> pool_sum f (pool_upd i g p) = pool_sum f p - f x + f (g x)"
  using pool_sum_upd [of p i x f g] by (simp add: eq_diff_eq algebra_simps)

lemma pool_sum_const_zero [simp]: "pool_sum (\<lambda>_. 0) p = 0"
  by (induction p) (auto simp: pool_sum_def split: option.split)

lemma pool_sum_zero:
  "pool_small p \<Longrightarrow> (\<And>i x. pool_at p i = Some x \<Longrightarrow> f x = 0) \<Longrightarrow> pool_sum f p = 0"
  using pool_sum_cong [of p f "\<lambda>_. 0"] by simp

lemma pool_sum_le_length:
  assumes "\<And>x. f x \<le> (1 :: nat)"
  shows "pool_sum f p \<le> length p"
proof (induction p)
  case Nil
  then show ?case by (simp add: pool_sum_def)
next
  case (Cons e p)
  have "(case e of None \<Rightarrow> 0 | Some x \<Rightarrow> f x) \<le> 1" using assms by (cases e) simp_all
  with Cons show ?case by (simp add: pool_sum_def)
qed

end
