(* ===== verification/Cake_Drr.thy ===== *)
theory Cake_Drr
  imports Prelude
begin

text \<open>
  The deficit-round-robin core of the QoS scheduler
  (\<^verbatim>\<open>plugins/osvbng_qos_sched/cake_drr.h\<close>): the owner-local child, whose deficit only its owner
  thread touches, and the shared child, whose round tag and biased deficit are packed in one
  64-bit word moved by compare-and-swap.  The signed 64-bit deficit of the local child is an
  \<open>int\<close>: signed overflow is undefined in C, and does not happen, for a refill leaves at most the cap
  (\<open>refill_deficit\<close>, \<open>drr_cap_bounds\<close>), a service at least minus two packets (\<open>floor_run\<close>), and the
  bytes of a round are small (\<open>round_bytes_small\<close>).  Then the abstract account both children implement, as a locale, and its
  bounds on debt and on bytes sent.
\<close>

section \<open>Rounds\<close>

definition CAKE_DRR_ROUND_PERIOD_NS :: u64 where
  "CAKE_DRR_ROUND_PERIOD_NS = 1000000"

definition CAKE_MAX_PKT_BYTES :: int where
  "CAKE_MAX_PKT_BYTES = 2048"

definition CAKE_DRR_DEFICIT_BIAS :: u64 where
  "CAKE_DRR_DEFICIT_BIAS = 2147483648"

definition CAKE_DRR_ROUND_STALE_LEAD :: int where
  "CAKE_DRR_ROUND_STALE_LEAD = 1048576"

record cake_drr_child =
  drr_weight :: u64
  drr_deficit :: int
  drr_round :: u32
  drr_active :: bool

record cake_drr_shared_child =
  sc_weight :: u64
  sc_round_deficit :: u64

datatype cake_drr_admit_t = DRR_BLOCKED | DRR_ADMIT | DRR_UNARBITRATED

definition cake_drr_round :: "u64 \<Rightarrow> u32" where
  "cake_drr_round now_ns = ucast (now_ns div CAKE_DRR_ROUND_PERIOD_NS)"

definition cake_drr_round_advanced :: "u32 \<Rightarrow> u32 \<Rightarrow> bool" where
  "cake_drr_round_advanced rnd current \<longleftrightarrow> sdiff32 rnd current > 0"

definition cake_drr_round_stale :: "u32 \<Rightarrow> u32 \<Rightarrow> bool" where
  "cake_drr_round_stale rnd current \<longleftrightarrow> sdiff32 rnd current < - CAKE_DRR_ROUND_STALE_LEAD"

definition cake_drr_round_refill_due :: "u32 \<Rightarrow> u32 \<Rightarrow> bool" where
  "cake_drr_round_refill_due rnd current \<longleftrightarrow>
     cake_drr_round_advanced rnd current \<or> cake_drr_round_stale rnd current"

section \<open>Quanta\<close>

definition cake_drr_round_bytes :: "u64 \<Rightarrow> u64" where
  "cake_drr_round_bytes rate = (rate * CAKE_DRR_ROUND_PERIOD_NS) div 1000000000"

text \<open>
  The product is 128 bits wide, the operands are widened first.  An effective weight is at least 1
  (\<open>Cake_Agg\<close> shows it of every configured child), so the divisor is not zero; with two zero weights
  the division would trap, where \<open>div\<close> gives 0.
\<close>

definition cake_drr_quantum :: "u64 \<Rightarrow> u64 \<Rightarrow> u64 \<Rightarrow> u64" where
  "cake_drr_quantum round_bytes effective_weight active_weight =
     (let active_weight = (if active_weight < effective_weight then effective_weight
                           else active_weight)
      in ucast ((ucast round_bytes * ucast effective_weight :: u128) div ucast active_weight))"

section \<open>The owner-local child\<close>

definition cake_drr_refill ::
  "cake_drr_child \<Rightarrow> u64 \<Rightarrow> u64 \<Rightarrow> u32 \<Rightarrow> cake_drr_child" where
  "cake_drr_refill child round_bytes active_weight rnd =
     (let quantum = sint (cake_drr_quantum round_bytes (drr_weight child) active_weight);
          cap = 2 * quantum;
          cap = (if cap < CAKE_MAX_PKT_BYTES then CAKE_MAX_PKT_BYTES else cap);
          refilled = drr_deficit child + quantum
      in child\<lparr>drr_deficit := (if refilled < cap then refilled else cap), drr_round := rnd\<rparr>)"

definition cake_drr_escape_open :: "int \<Rightarrow> u64 \<Rightarrow> u64 \<Rightarrow> bool" where
  "cake_drr_escape_open deficit parent_shaper_time_ns now_ns \<longleftrightarrow>
     deficit > - CAKE_MAX_PKT_BYTES \<and>
     parent_shaper_time_ns + CAKE_DRR_ROUND_PERIOD_NS \<le> now_ns"

definition cake_drr_local_admit ::
  "cake_drr_child \<Rightarrow> u64 \<Rightarrow> u64 \<Rightarrow> u64 \<Rightarrow> u64 \<Rightarrow> cake_drr_admit_t \<times> cake_drr_child" where
  "cake_drr_local_admit child round_bytes active_weight parent_shaper_time_ns now_ns =
     (let rnd = cake_drr_round now_ns;
          child = (if cake_drr_round_refill_due rnd (drr_round child)
                   then cake_drr_refill child round_bytes active_weight rnd else child)
      in if drr_deficit child > 0 then (DRR_ADMIT, child)
         else if cake_drr_escape_open (drr_deficit child) parent_shaper_time_ns now_ns
         then (DRR_ADMIT, child)
         else (DRR_BLOCKED, child))"

definition cake_drr_local_charge :: "cake_drr_child \<Rightarrow> u32 \<Rightarrow> cake_drr_child" where
  "cake_drr_local_charge child adj_len =
     child\<lparr>drr_deficit := drr_deficit child - uint adj_len\<rparr>"

definition cake_drr_child_activate :: "cake_drr_child \<Rightarrow> bool \<times> cake_drr_child" where
  "cake_drr_child_activate child =
     (if drr_active child then (False, child)
      else (True, child\<lparr>drr_deficit := (if drr_deficit child > 0 then 0 else drr_deficit child),
                        drr_active := True\<rparr>))"

definition cake_drr_child_deactivate :: "cake_drr_child \<Rightarrow> bool \<times> cake_drr_child" where
  "cake_drr_child_deactivate child =
     (if \<not> drr_active child then (False, child) else (True, child\<lparr>drr_active := False\<rparr>))"

text \<open>The parent's two counters; both return the previous child count.\<close>

definition cake_drr_parent_join :: "u64 \<Rightarrow> u32 \<Rightarrow> u64 \<Rightarrow> u32 \<times> u64 \<times> u32" where
  "cake_drr_parent_join active_weight n_active_children effective_weight =
     (n_active_children, active_weight + effective_weight, n_active_children + 1)"

definition cake_drr_parent_leave :: "u64 \<Rightarrow> u32 \<Rightarrow> u64 \<Rightarrow> u32 \<times> u64 \<times> u32" where
  "cake_drr_parent_leave active_weight n_active_children effective_weight =
     (n_active_children, active_weight - effective_weight, n_active_children - 1)"

section \<open>The shared child\<close>

definition cake_drr_shared_init :: "u64 \<Rightarrow> u64 \<Rightarrow> cake_drr_shared_child" where
  "cake_drr_shared_init effective_weight now_ns =
     \<lparr>sc_weight = effective_weight,
      sc_round_deficit =
        push_bit 32 (ucast (cake_drr_round now_ns)) OR CAKE_DRR_DEFICIT_BIAS\<rparr>"

text \<open>
  One iteration of the compare-and-swap loop on the loaded word \<open>old\<close>; the snapshot holds the
  parent's active weight and virtual time as this iteration reads them.
\<close>

definition cake_drr_shared_body ::
  "u64 \<Rightarrow> u64 \<Rightarrow> u32 \<Rightarrow> u64 \<Rightarrow> u64 \<times> u64 \<Rightarrow> u64 \<Rightarrow> u64 option \<times> cake_drr_admit_t" where
  "cake_drr_shared_body effective_weight round_bytes adj_len now_ns snap old =
     (let rnd = cake_drr_round now_ns;
          active_weight = fst snap;
          parent_shaper_time_ns = snd snap;
          cur_round = ucast (drop_bit 32 old) :: u32;
          biased = ucast old :: u32;
          refilled = cake_drr_round_refill_due rnd cur_round;
          biased = (if refilled
            then (let quantum = cake_drr_quantum round_bytes effective_weight active_weight;
                      cap = 2 * sint quantum;
                      cap = (if cap < CAKE_MAX_PKT_BYTES then CAKE_MAX_PKT_BYTES else cap);
                      topped_up = ucast biased + quantum;
                      ceiling = CAKE_DRR_DEFICIT_BIAS + word_of_int cap
                  in ucast (if topped_up < ceiling then topped_up else ceiling))
            else biased);
          admitted = (ucast biased > CAKE_DRR_DEFICIT_BIAS \<or>
            cake_drr_escape_open (uint biased - uint CAKE_DRR_DEFICIT_BIAS)
              parent_shaper_time_ns now_ns)
      in if \<not> admitted \<and> \<not> refilled then (None, DRR_BLOCKED)
         else (Some (push_bit 32 (ucast (if refilled then rnd else cur_round)) OR
                     ucast (if admitted then biased - adj_len else biased)),
               if admitted then DRR_ADMIT else DRR_BLOCKED))"

definition cake_drr_shared_reserve ::
  "cake_drr_shared_child \<Rightarrow> u64 \<Rightarrow> u64 \<Rightarrow> u64 \<Rightarrow> u32 \<Rightarrow> u64 \<Rightarrow> ((u64 \<times> u64) \<times> u64) list \<Rightarrow>
   cake_drr_admit_t \<times> cake_drr_shared_child" where
  "cake_drr_shared_reserve child round_bytes active_weight parent_shaper_time_ns adj_len now_ns env =
     (let (w, r) = cas_loop (cake_drr_shared_body (sc_weight child) round_bytes adj_len now_ns)
                     (active_weight, parent_shaper_time_ns) (sc_round_deficit child) env
      in (r, child\<lparr>sc_round_deficit := w\<rparr>))"

definition cake_drr_shared_refund :: "cake_drr_shared_child \<Rightarrow> u32 \<Rightarrow> cake_drr_shared_child" where
  "cake_drr_shared_refund child adj_len =
     child\<lparr>sc_round_deficit := sc_round_deficit child + ucast adj_len\<rparr>"

section \<open>Facts about the quantum\<close>

lemma unat_quantum:
  "unat (cake_drr_quantum rb ew aw) = unat rb * unat ew div max (unat aw) (unat ew)"
proof -
  define m where "m = (if aw < ew then ew else aw)"
  have m: "unat m = max (unat aw) (unat ew)"
    by (simp add: m_def word_less_nat_alt max_def)
  have rb: "unat (ucast rb :: u128) = unat rb" and ew: "unat (ucast ew :: u128) = unat ew"
    and mm: "unat (ucast m :: u128) = unat m"
    by (simp_all add: unat_ucast_up)
  have "unat rb * unat ew < 18446744073709551616 * 18446744073709551616"
    by (rule mult_strict_mono') simp_all
  then have "unat (ucast rb * ucast ew :: u128) = unat rb * unat ew"
    by (simp add: unat_mult_exact rb ew)
  then have d: "unat ((ucast rb * ucast ew :: u128) div ucast m) = unat rb * unat ew div unat m"
    by (simp add: unat_div mm)
  have "unat rb * unat ew div unat m \<le> unat rb"
  proof (cases "unat m = 0")
    case False
    have "unat rb * unat ew div unat m \<le> unat rb * unat m div unat m"
      by (intro div_le_mono mult_le_mono) (simp_all add: m)
    with False show ?thesis by simp
  qed simp
  then have "unat rb * unat ew div unat m < 18446744073709551616"
    by (rule le_less_trans) simp
  then show ?thesis
    by (simp add: cake_drr_quantum_def Let_def flip: m_def) (simp add: unat_ucast_mod d m)
qed

lemma quantum_le_round: "unat (cake_drr_quantum rb ew aw) \<le> unat rb"
proof (cases "unat ew = 0")
  case False
  have "unat rb * unat ew div max (unat aw) (unat ew) \<le> unat rb * unat ew div unat ew"
    using False by (intro div_le_mono2) simp_all
  with False show ?thesis by (simp add: unat_quantum)
qed (simp add: unat_quantum)

lemma uint_quantum_le: "uint (cake_drr_quantum rb ew aw) \<le> uint rb"
  using quantum_le_round [of rb ew aw] by (simp add: word_le_def flip: word_le_nat_alt)

lemma round_bytes_small: "unat (cake_drr_round_bytes rate) \<le> 18446744073"
proof -
  have "unat (cake_drr_round_bytes rate)
    = unat (rate * CAKE_DRR_ROUND_PERIOD_NS) div 1000000000"
    by (simp add: cake_drr_round_bytes_def unat_div)
  also have "\<dots> \<le> 18446744073709551616 div 1000000000"
    by (intro div_le_mono less_imp_le) simp
  finally show ?thesis by simp
qed

lemma round_bytes_exact:
  "unat rate \<le> 18446744073709 \<Longrightarrow> unat (cake_drr_round_bytes rate) = unat rate div 1000"
  by (simp add: cake_drr_round_bytes_def CAKE_DRR_ROUND_PERIOD_NS_def unat_div unat_mult_exact
      div_mult2_eq [of _ 1000000 1000, simplified])

lemma sint_quantum:
  "uint rb < 2 ^ 63 \<Longrightarrow> sint (cake_drr_quantum rb ew aw) = uint (cake_drr_quantum rb ew aw)"
  by (rule sint_small) (simp add: le_less_trans [OF uint_quantum_le])

lemma sum_div_le:
  fixes a W :: nat
  shows "(\<Sum>w\<leftarrow>ws. a * w div W) * W \<le> a * sum_list ws"
proof (induction ws)
  case (Cons w ws)
  have "a * w div W * W \<le> a * w" by simp
  from this Cons have "a * w div W * W + (\<Sum>w\<leftarrow>ws. a * w div W) * W \<le> a * w + a * sum_list ws"
    by (rule add_mono)
  then show ?case by (simp add: add_mult_distrib add_mult_distrib2)
qed simp

lemma quanta_sum_le:
  fixes ws :: "u64 list"
  assumes W: "unat W = sum_list (map unat ws)" and pos: "0 < unat W"
  shows "(\<Sum>w\<leftarrow>ws. unat (cake_drr_quantum rb w W)) \<le> unat rb"
proof -
  have "unat (cake_drr_quantum rb w W) = unat rb * unat w div unat W" if "w \<in> set ws" for w
  proof -
    have "unat w \<le> unat W"
      unfolding W using that by (intro member_le_sum_list) simp_all
    then show ?thesis by (simp add: unat_quantum max_absorb1)
  qed
  then have eq: "map (\<lambda>w. unat (cake_drr_quantum rb w W)) ws
      = map (\<lambda>w. unat rb * w div unat W) (map unat ws)"
    unfolding map_map comp_def by (rule map_cong [OF refl])
  have "(\<Sum>w\<leftarrow>map unat ws. unat rb * w div unat W) * unat W \<le> unat rb * unat W"
    using sum_div_le [of "unat rb" "unat W" "map unat ws"] by (simp only: W)
  with pos show ?thesis by (simp only: eq mult_le_cancel2)
qed

section \<open>Facts about rounds\<close>

lemma sdiff32_self [simp]: "sdiff32 a a = 0"
  by (simp add: sdiff32_def)

lemma refill_due_iff:
  "cake_drr_round_refill_due r c \<longleftrightarrow> \<not> (- 1048576 \<le> sdiff32 r c \<and> sdiff32 r c \<le> 0)"
  by (auto simp: cake_drr_round_refill_due_def cake_drr_round_advanced_def
      cake_drr_round_stale_def CAKE_DRR_ROUND_STALE_LEAD_def)

lemma refill_due_irrefl [simp]: "\<not> cake_drr_round_refill_due r r"
  by (simp add: refill_due_iff)

lemma sdiff32_back:
  assumes "k \<le> 2147483648"
  shows "sdiff32 (c - word_of_nat k) c = - int k"
proof -
  have "sdiff32 (c - word_of_nat k) c = sint (- (word_of_nat k :: u32))"
    by (simp add: sdiff32_def)
  also have "\<dots> = sint (word_of_int (- int k) :: u32)" by simp
  also have "\<dots> = - int k"
    using assms by (subst signed_of_int) (simp add: signed_take_bit_int_eq_self)
  finally show ?thesis .
qed

lemma sdiff32_fwd:
  assumes "k < 2147483648"
  shows "sdiff32 (c + word_of_nat k) c = int k"
proof -
  have "sdiff32 (c + word_of_nat k) c = sint (word_of_int (int k) :: u32)"
    by (simp add: sdiff32_def)
  also have "\<dots> = int k"
    using assms by (subst signed_of_int) (simp add: signed_take_bit_int_eq_self)
  finally show ?thesis .
qed

section \<open>Packing\<close>

definition drr_pack :: "u32 \<Rightarrow> u32 \<Rightarrow> u64" where
  "drr_pack r b = push_bit 32 (ucast r) OR ucast b"

lemma pack_lo [simp]: "(ucast (drr_pack r b) :: u32) = b"
  by (rule bit_word_eqI) (simp add: drr_pack_def bit_simps)

lemma pack_hi [simp]: "(ucast (drop_bit 32 (drr_pack r b)) :: u32) = r"
  by (rule bit_word_eqI) (auto simp: drr_pack_def bit_simps dest: bit_imp_le_length)

lemma unat_hi32: "unat (ucast (drop_bit 32 (w :: u64)) :: u32) = unat w div 4294967296"
proof -
  have "unat w div 4294967296 < 4294967296"
    by (rule div_less_iff_less_mult [THEN iffD2]) simp_all
  then show ?thesis by (simp add: unat_ucast_mod drop_bit_eq_div unat_div)
qed

lemma unat_lo32: "unat (ucast (w :: u64) :: u32) = unat w mod 4294967296"
  by (simp add: unat_ucast_mod)

lemma pack_add:
  assumes "unat (ucast (w :: u64) :: u32) + unat (l :: u32) < 2 ^ 32"
  shows "(ucast (w + ucast l) :: u32) = ucast w + l"
    and "(ucast (drop_bit 32 (w + ucast l)) :: u32) = ucast (drop_bit 32 w)"
proof -
  let ?m = "4294967296 :: nat"
  have lt: "unat w mod ?m + unat l < ?m"
    using assms by (simp add: unat_lo32)
  have w: "unat w = unat w div ?m * ?m + unat w mod ?m" by simp
  have "unat w div ?m < ?m"
    by (rule div_less_iff_less_mult [THEN iffD2]) simp_all
  with lt w have "unat w + unat l < ?m * ?m" by linarith
  then have sum: "unat (w + ucast l) = unat w + unat l"
    by (simp add: unat_add_exact unat_ucast_up)
  define q r where "q = unat w div ?m" and "r = unat w mod ?m + unat l"
  have e: "unat w + unat l = r + q * ?m" and r: "r < ?m"
    using w lt unfolding q_def r_def by linarith+
  have md: "(unat w + unat l) mod ?m = unat w mod ?m + unat l"
    using r by (simp add: e) (simp add: r_def)
  have dv: "(unat w + unat l) div ?m = unat w div ?m"
    using r by (simp add: e) (simp add: q_def)
  show "(ucast (w + ucast l) :: u32) = ucast w + l"
    using lt by (simp add: word_unat_eq_iff unat_lo32 sum md unat_add_exact)
  show "(ucast (drop_bit 32 (w + ucast l)) :: u32) = ucast (drop_bit 32 w)"
    by (simp add: word_unat_eq_iff unat_hi32 sum dv)
qed

lemmas drr_consts = CAKE_MAX_PKT_BYTES_def CAKE_DRR_DEFICIT_BIAS_def CAKE_DRR_ROUND_PERIOD_NS_def

definition drr_cap :: "u64 \<Rightarrow> u64 \<Rightarrow> u64 \<Rightarrow> int" where
  "drr_cap rb ew aw = max (2 * uint (cake_drr_quantum rb ew aw)) 2048"

lemma drr_cap_bounds: "2048 \<le> drr_cap rb ew aw" "drr_cap rb ew aw \<le> max (2 * uint rb) 2048"
  using uint_quantum_le [of rb ew aw] by (auto simp: drr_cap_def)

lemma refill_deficit:
  assumes "uint rb < 2 ^ 63"
  shows "cake_drr_refill c rb aw r = c\<lparr>drr_deficit :=
     min (drr_deficit c + uint (cake_drr_quantum rb (drr_weight c) aw))
         (drr_cap rb (drr_weight c) aw), drr_round := r\<rparr>"
  using sint_quantum [OF assms, of "drr_weight c" aw]
  by (auto simp: cake_drr_refill_def Let_def drr_cap_def CAKE_MAX_PKT_BYTES_def max_def min_def)

text \<open>What a shared child's word stands for: the same record an owner-local child holds.\<close>

definition shared_view :: "cake_drr_shared_child \<Rightarrow> cake_drr_child" where
  "shared_view c = \<lparr>drr_weight = sc_weight c,
     drr_deficit = uint (ucast (sc_round_deficit c) :: u32) - 2147483648,
     drr_round = ucast (drop_bit 32 (sc_round_deficit c)), drr_active = True\<rparr>"

text \<open>The biased refill of the shared word is the local refill of its view.\<close>

lemma biased_refill:
  fixes ew aw q :: u64 and b :: u32
  assumes rb: "uint rb < 2 ^ 30" and q_def: "q = cake_drr_quantum rb ew aw"
    and cap: "cap = (if 2 * sint q < CAKE_MAX_PKT_BYTES then CAKE_MAX_PKT_BYTES else 2 * sint q)"
  shows "uint (ucast (if ucast b + q < CAKE_DRR_DEFICIT_BIAS + word_of_int cap
       then ucast b + q else CAKE_DRR_DEFICIT_BIAS + word_of_int cap) :: u32)
    = min (uint b + uint q) (2147483648 + drr_cap rb ew aw)"
proof -
  have q: "uint q < 2 ^ 30" unfolding q_def by (rule le_less_trans [OF uint_quantum_le rb])
  then have "sint q = uint q" by (intro sint_small) simp
  then have dc: "drr_cap rb ew aw = cap"
    by (simp add: drr_cap_def cap CAKE_MAX_PKT_BYTES_def q_def)
  have capb: "0 \<le> cap" "cap < 2147483648"
    using q drr_cap_bounds(1) [of rb ew aw] by (auto simp: drr_cap_def simp flip: dc q_def)
  have b: "uint (ucast b :: u64) = uint b" by (simp add: uint_ucast_up)
  have top: "uint (ucast b + q) = uint b + uint q"
  proof -
    have "uint b + uint q < 4294967296 + 2 ^ 30" by (rule add_strict_mono [OF uint_u32_less q])
    then show ?thesis by (subst uint_add_exact) (simp_all add: b)
  qed
  have wc: "uint (word_of_int cap :: u64) = cap"
    using capb by (simp add: uint_word_of_int)
  have cei: "uint (CAKE_DRR_DEFICIT_BIAS + word_of_int cap) = 2147483648 + cap"
    using capb wc by (subst uint_add_exact) (simp_all add: CAKE_DRR_DEFICIT_BIAS_def)
  show ?thesis
    unfolding dc using capb
    by (simp add: word_less_def top cei uint_ucast_mod min_def)
qed

lemma shared_body_view:
  assumes rb: "uint rb < 2 ^ 30" and len: "uint len < 2147481600"
    and body: "cake_drr_shared_body ew rb len now (aw, vt) w = (w', r)"
    and c: "sc_weight c = ew" "sc_round_deficit c = w"
    and adm: "cake_drr_local_admit (shared_view c) rb aw vt now = (r', l')"
  shows "r = r' \<and>
    (case w' of None \<Rightarrow> l' = shared_view c \<and> r' = DRR_BLOCKED
     | Some w'' \<Rightarrow> shared_view (c\<lparr>sc_round_deficit := w''\<rparr>) =
          (if r' = DRR_ADMIT then cake_drr_local_charge l' len else l'))"
proof -
  let ?r = "cake_drr_round now" and ?l = "shared_view c"
  let ?due = "cake_drr_round_refill_due ?r (ucast (drop_bit 32 w))"
  define q where "q = cake_drr_quantum rb ew aw"
  define b0 :: u32 where "b0 = ucast w"
  define cap where
    "cap = (if 2 * sint q < CAKE_MAX_PKT_BYTES then CAKE_MAX_PKT_BYTES else 2 * sint q)"
  define b :: u32 where "b = (if ?due
    then ucast (if ucast b0 + q < CAKE_DRR_DEFICIT_BIAS + word_of_int cap then ucast b0 + q
                else CAKE_DRR_DEFICIT_BIAS + word_of_int cap) else b0)"
  have l: "?l = \<lparr>drr_weight = ew, drr_deficit = uint b0 - 2147483648,
      drr_round = ucast (drop_bit 32 w), drr_active = True\<rparr>"
    using c by (simp add: shared_view_def b0_def)
  have rb63: "uint rb < 2 ^ 63" using rb by simp
  define d where "d = uint b - 2147483648"
  have refill: "(if ?due then cake_drr_refill ?l rb aw ?r else ?l)
     = ?l\<lparr>drr_deficit := d, drr_round := (if ?due then ?r else ucast (drop_bit 32 w))\<rparr>"
    using biased_refill [OF rb q_def cap_def, of b0]
    by (auto simp: refill_deficit [OF rb63] l q_def d_def b_def)
  define a where "a \<longleftrightarrow> d > 0 \<or> cake_drr_escape_open d vt now"
  have admw: "(CAKE_DRR_DEFICIT_BIAS < ucast b \<or>
      cake_drr_escape_open (uint b - uint CAKE_DRR_DEFICIT_BIAS) vt now) \<longleftrightarrow> a"
    by (simp add: a_def d_def word_less_def uint_ucast_up CAKE_DRR_DEFICIT_BIAS_def)
  have local: "r' = (if a then DRR_ADMIT else DRR_BLOCKED)"
    "l' = ?l\<lparr>drr_deficit := d, drr_round := (if ?due then ?r else ucast (drop_bit 32 w))\<rparr>"
    using adm refill unfolding cake_drr_local_admit_def Let_def
    by (auto simp: l a_def split: if_splits)
  have sub: "uint (b - len) - 2147483648 = d - uint len" if a
  proof -
    from that have "- 2048 < d"
      by (auto simp: a_def cake_drr_escape_open_def CAKE_MAX_PKT_BYTES_def)
    with len have "uint len \<le> uint b" by (simp add: d_def)
    then show ?thesis by (simp add: uint_sub_exact d_def)
  qed
  have body': "(w', r) = (if \<not> a \<and> \<not> ?due then (None, DRR_BLOCKED)
     else (Some (drr_pack (if ?due then ?r else ucast (drop_bit 32 w))
                          (if a then b - len else b)), if a then DRR_ADMIT else DRR_BLOCKED))"
    using body unfolding cake_drr_shared_body_def Let_def fst_conv snd_conv
    by (simp only: b0_def [symmetric] q_def [symmetric] cap_def [symmetric] b_def [symmetric]
        admw drr_pack_def)
  show ?thesis
  proof (cases "\<not> a \<and> \<not> ?due")
    case True
    with body' show ?thesis
      by (simp add: local l d_def b_def)
  next
    case False
    with body' have "w' = Some (drr_pack (if ?due then ?r else ucast (drop_bit 32 w))
        (if a then b - len else b))" "r = (if a then DRR_ADMIT else DRR_BLOCKED)" by auto
    with sub show ?thesis
      by (simp add: local l shared_view_def c cake_drr_local_charge_def d_def)
  qed
qed

section \<open>The account both children implement\<close>

fun acct_sent :: "('a \<Rightarrow> 's \<Rightarrow> bool \<times> 's) \<Rightarrow> ('a \<Rightarrow> int) \<Rightarrow> 's \<Rightarrow> 'a list \<Rightarrow> int" where
  "acct_sent serve len s [] = 0"
| "acct_sent serve len s (a # as) =
     (if fst (serve a s) then len a else 0) + acct_sent serve len (snd (serve a s)) as"

fun acct_issued ::
  "('a \<Rightarrow> 's \<Rightarrow> bool \<times> 's) \<Rightarrow> ('a \<Rightarrow> 's \<Rightarrow> int) \<Rightarrow> 's \<Rightarrow> 'a list \<Rightarrow> int" where
  "acct_issued serve credit s [] = 0"
| "acct_issued serve credit s (a # as) =
     credit a s + acct_issued serve credit (snd (serve a s)) as"

fun acct_end :: "('a \<Rightarrow> 's \<Rightarrow> bool \<times> 's) \<Rightarrow> 's \<Rightarrow> 'a list \<Rightarrow> 's" where
  "acct_end serve s [] = s"
| "acct_end serve s (a # as) = acct_end serve (snd (serve a s)) as"

locale drr_account =
  fixes bal :: "'s \<Rightarrow> int" and pre :: "'a \<Rightarrow> bool" and len :: "'a \<Rightarrow> int"
    and credit :: "'a \<Rightarrow> 's \<Rightarrow> int" and serve :: "'a \<Rightarrow> 's \<Rightarrow> bool \<times> 's"
  assumes spend: "pre a \<Longrightarrow> bal (snd (serve a s))
      \<le> bal s + credit a s - (if fst (serve a s) then len a else 0)"
    and debt: "pre a \<Longrightarrow> fst (serve a s) \<Longrightarrow> - 2048 - len a < bal (snd (serve a s))"
    and kept: "pre a \<Longrightarrow> \<not> fst (serve a s) \<Longrightarrow> min 0 (bal s) \<le> bal (snd (serve a s))"
begin

lemma floor_kept:
  assumes "pre a" and "len a \<le> L" and "0 \<le> L" and "- 2048 - L \<le> bal s"
  shows "- 2048 - L \<le> bal (snd (serve a s))"
  using assms debt [of a s] kept [of a s] by (cases "fst (serve a s)") auto

lemma floor_run:
  assumes "\<forall>a \<in> set as. pre a \<and> len a \<le> L" and "0 \<le> L" and "- 2048 - L \<le> bal s"
  shows "- 2048 - L \<le> bal (acct_end serve s as)"
  using assms(1,3)
  by (induction as arbitrary: s) (auto intro: floor_kept [OF _ _ assms(2)])

lemma sent_issued:
  assumes "\<forall>a \<in> set as. pre a"
  shows "acct_sent serve len s as + bal (acct_end serve s as)
    \<le> bal s + acct_issued serve credit s as"
  using assms
proof (induction as arbitrary: s)
  case (Cons a as)
  from Cons.IH [of "snd (serve a s)"] Cons.prems spend [of a s] show ?case by simp
qed simp

lemma sent_bound:
  assumes "\<forall>a \<in> set as. pre a \<and> len a \<le> L" and "0 \<le> L" and "- 2048 - L \<le> bal s"
  shows "acct_sent serve len s as \<le> bal s + acct_issued serve credit s as + 2048 + L"
  using sent_issued [of as s] floor_run [OF assms] assms(1) by simp

end

text \<open>
  One attempt to send a packet: what the dequeue path does with a child, from the admission to
  the charge or, where a later gate refuses, to giving the admission back.
\<close>

record drr_try =
  try_now :: u64
  try_round_bytes :: u64
  try_active_weight :: u64
  try_parent_time :: u64
  try_len :: u32
  try_gates :: bool

definition local_serve :: "drr_try \<Rightarrow> cake_drr_child \<Rightarrow> bool \<times> cake_drr_child" where
  "local_serve a c =
     (case cake_drr_local_admit c (try_round_bytes a) (try_active_weight a) (try_parent_time a)
             (try_now a) of
        (r, c') \<Rightarrow> if r = DRR_ADMIT \<and> try_gates a
                   then (True, cake_drr_local_charge c' (try_len a)) else (False, c'))"

definition shared_serve ::
  "drr_try \<Rightarrow> cake_drr_shared_child \<Rightarrow> bool \<times> cake_drr_shared_child" where
  "shared_serve a c =
     (case cake_drr_shared_reserve c (try_round_bytes a) (try_active_weight a)
             (try_parent_time a) (try_len a) (try_now a) [] of
        (r, c') \<Rightarrow> if r = DRR_ADMIT
                   then (if try_gates a then (True, c')
                         else (False, cake_drr_shared_refund c' (try_len a)))
                   else (False, c'))"

definition try_ok :: "drr_try \<Rightarrow> bool" where
  "try_ok a \<longleftrightarrow> uint (try_round_bytes a) < 2 ^ 30 \<and> uint (try_len a) < 2147481600"

definition try_due :: "drr_try \<Rightarrow> u32 \<Rightarrow> bool" where
  "try_due a tag \<longleftrightarrow> cake_drr_round_refill_due (cake_drr_round (try_now a)) tag"

definition try_credit :: "drr_try \<Rightarrow> cake_drr_child \<Rightarrow> int" where
  "try_credit a c = (if try_due a (drr_round c)
     then uint (cake_drr_quantum (try_round_bytes a) (drr_weight c) (try_active_weight a)) else 0)"

lemma try_credit_nonneg: "0 \<le> try_credit a c"
  by (simp add: try_credit_def)

lemma local_admit_cases:
  assumes "uint rb < 2 ^ 63" and "cake_drr_local_admit c rb aw vt now = (r, c')"
  defines "due \<equiv> cake_drr_round_refill_due (cake_drr_round now) (drr_round c)"
  defines "d \<equiv> (if due then min (drr_deficit c + uint (cake_drr_quantum rb (drr_weight c) aw))
                              (drr_cap rb (drr_weight c) aw) else drr_deficit c)"
  shows "r = (if d > 0 \<or> cake_drr_escape_open d vt now then DRR_ADMIT else DRR_BLOCKED)"
    and "c' = c\<lparr>drr_deficit := d,
                drr_round := (if due then cake_drr_round now else drr_round c)\<rparr>"
  using assms(2) unfolding cake_drr_local_admit_def Let_def
  by (auto simp: refill_deficit [OF assms(1)] d_def due_def split: if_splits)

lemma escape_deficit: "cake_drr_escape_open d vt now \<Longrightarrow> - 2048 < d"
  by (simp add: cake_drr_escape_open_def CAKE_MAX_PKT_BYTES_def)

lemma local_serve_cases:
  fixes c :: cake_drr_child
  assumes "try_ok a"
  defines "rb \<equiv> try_round_bytes a" and "aw \<equiv> try_active_weight a"
  defines "d \<equiv> (if try_due a (drr_round c)
                then min (drr_deficit c + uint (cake_drr_quantum rb (drr_weight c) aw))
                         (drr_cap rb (drr_weight c) aw) else drr_deficit c)"
  defines "sent \<equiv> (d > 0 \<or> cake_drr_escape_open d (try_parent_time a) (try_now a)) \<and> try_gates a"
  shows "local_serve a c = (sent, c\<lparr>drr_deficit := (if sent then d - uint (try_len a) else d),
     drr_round := (if try_due a (drr_round c) then cake_drr_round (try_now a) else drr_round c)\<rparr>)"
proof -
  have rb: "uint rb < 2 ^ 63" using assms(1) by (simp add: try_ok_def rb_def)
  obtain r c' where p:
    "cake_drr_local_admit c rb aw (try_parent_time a) (try_now a) = (r, c')"
    by (cases "cake_drr_local_admit c rb aw (try_parent_time a) (try_now a)")
  from local_admit_cases [OF rb p] show ?thesis
    by (simp add: local_serve_def p [unfolded rb_def aw_def] cake_drr_local_charge_def
        sent_def d_def try_due_def rb_def aw_def)
qed

interpretation drr_local: drr_account "drr_deficit :: cake_drr_child \<Rightarrow> int" try_ok "\<lambda>a. uint (try_len a)" try_credit local_serve
proof
  fix a :: drr_try and s :: cake_drr_child
  assume ok: "try_ok a"
  have cap: "2048 \<le> drr_cap (try_round_bytes a) (drr_weight s) (try_active_weight a)"
    by (rule drr_cap_bounds)
  note c = local_serve_cases [OF ok, of s]
  show "drr_deficit (snd (local_serve a s)) \<le> drr_deficit s + try_credit a s
      - (if fst (local_serve a s) then uint (try_len a) else 0)"
    unfolding c by (auto simp: try_credit_def min_def)
  show "- 2048 - uint (try_len a) < drr_deficit (snd (local_serve a s))"
    if "fst (local_serve a s)"
    using that unfolding c by (auto dest: escape_deficit)
  show "min 0 (drr_deficit s) \<le> drr_deficit (snd (local_serve a s))"
    if "\<not> fst (local_serve a s)"
    using that cap unfolding c by (auto simp: min_def)
qed


lemma shared_reserve_view:
  assumes "uint rb < 2 ^ 30" and "uint len < 2147481600"
    and "cake_drr_shared_reserve c rb aw vt len now [] = (r, c')"
    and "cake_drr_local_admit (shared_view c) rb aw vt now = (r', l')"
  shows "r = r'" and "sc_weight c' = sc_weight c"
    and "shared_view c' = (if r' = DRR_ADMIT then cake_drr_local_charge l' len else l')"
proof -
  obtain o' q where b:
    "cake_drr_shared_body (sc_weight c) rb len now (aw, vt) (sc_round_deficit c) = (o', q)"
    by (cases "cake_drr_shared_body (sc_weight c) rb len now (aw, vt) (sc_round_deficit c)")
  note v = shared_body_view [OF assms(1,2) b refl refl assms(4)]
  have c': "r = q" "c' = c\<lparr>sc_round_deficit := (case o' of None \<Rightarrow> sc_round_deficit c | Some w \<Rightarrow> w)\<rparr>"
    using assms(3) by (auto simp: cake_drr_shared_reserve_def b split: option.splits)
  from v c' show "r = r'" "sc_weight c' = sc_weight c" by simp_all
  from v c' show "shared_view c' = (if r' = DRR_ADMIT then cake_drr_local_charge l' len else l')"
    by (cases o') auto
qed

lemma shared_refund_view:
  assumes "drr_deficit (shared_view c) + uint len < 2147483648"
  shows "shared_view (cake_drr_shared_refund c len) =
    (shared_view c)\<lparr>drr_deficit := drr_deficit (shared_view c) + uint len\<rparr>"
proof -
  let ?w = "sc_round_deficit c"
  have lt: "uint (ucast ?w :: u32) + uint len < 4294967296"
    using assms by (simp add: shared_view_def)
  then have "unat (ucast ?w :: u32) + unat len < 2 ^ 32"
    by (subst unat_plus_less) simp
  note p = pack_add [OF this]
  from lt have "uint (ucast ?w + len :: u32) = uint (ucast ?w :: u32) + uint len"
    by (simp add: uint_add_exact)
  then show ?thesis
    by (simp add: cake_drr_shared_refund_def shared_view_def p)
qed

lemma shared_serve_view:
  assumes ok: "try_ok a"
  shows "fst (shared_serve a c) = fst (local_serve a (shared_view c))"
    and "shared_view (snd (shared_serve a c)) = snd (local_serve a (shared_view c))"
proof -
  let ?rb = "try_round_bytes a" and ?aw = "try_active_weight a" and ?vt = "try_parent_time a"
    and ?now = "try_now a" and ?len = "try_len a"
  obtain r c' where s: "cake_drr_shared_reserve c ?rb ?aw ?vt ?len ?now [] = (r, c')"
    by (cases "cake_drr_shared_reserve c ?rb ?aw ?vt ?len ?now []")
  obtain r' l' where l: "cake_drr_local_admit (shared_view c) ?rb ?aw ?vt ?now = (r', l')"
    by (cases "cake_drr_local_admit (shared_view c) ?rb ?aw ?vt ?now")
  have rb: "uint ?rb < 2 ^ 30" and len: "uint ?len < 2147481600"
    using ok by (auto simp: try_ok_def)
  note v = shared_reserve_view [OF rb len s l]
  have refund: "shared_view (cake_drr_shared_refund c' ?len) = l'" if "r' = DRR_ADMIT"
  proof -
    have d: "drr_deficit l' < 2147483648"
    proof -
      have "drr_deficit (shared_view c) < 2147483648" by (simp add: shared_view_def)
      moreover have "drr_cap ?rb (sc_weight c) ?aw < 2147483648"
        using drr_cap_bounds(2) [of ?rb "sc_weight c" ?aw] rb by simp
      ultimately show ?thesis
        using local_admit_cases(2) [OF _ l] rb
        by (auto simp: shared_view_def min_def split: if_splits)
    qed
    then show ?thesis
      using v(3) that by (subst shared_refund_view) (simp_all add: cake_drr_local_charge_def)
  qed
  show "fst (shared_serve a c) = fst (local_serve a (shared_view c))"
    by (simp add: shared_serve_def local_serve_def s l v(1))
  show "shared_view (snd (shared_serve a c)) = snd (local_serve a (shared_view c))"
    using v refund by (simp add: shared_serve_def local_serve_def s l)
qed

interpretation drr_shared: drr_account "\<lambda>c. drr_deficit (shared_view c)" try_ok
  "\<lambda>a. uint (try_len a)" "\<lambda>a c. try_credit a (shared_view c)" shared_serve
  by unfold_locales
    (simp_all add: shared_serve_view drr_local.spend drr_local.debt drr_local.kept)

text \<open>An account whose credit comes from round boundaries only.\<close>

locale drr_rounds = drr_account bal pre len credit serve
  for bal :: "'s \<Rightarrow> int" and pre :: "'a \<Rightarrow> bool" and len :: "'a \<Rightarrow> int"
    and credit :: "'a \<Rightarrow> 's \<Rightarrow> int" and serve :: "'a \<Rightarrow> 's \<Rightarrow> bool \<times> 's" +
  fixes tag :: "'s \<Rightarrow> u32" and wt :: "'s \<Rightarrow> u64" and rnd :: "'a \<Rightarrow> u32"
  assumes wt_serve: "pre a \<Longrightarrow> wt (snd (serve a s)) = wt s"
    and tag_serve: "pre a \<Longrightarrow> tag (snd (serve a s)) =
      (if cake_drr_round_refill_due (rnd a) (tag s) then rnd a else tag s)"
    and credit_due: "pre a \<Longrightarrow> \<not> cake_drr_round_refill_due (rnd a) (tag s) \<Longrightarrow> credit a s = 0"
begin

lemma issued_window:
  assumes k: "k \<le> 1048576"
    and as: "\<forall>a \<in> set as. pre a \<and> (\<exists>j \<le> k. rnd a = r0 + word_of_nat j) \<and> (\<forall>s. wt s = w \<longrightarrow> credit a s \<le> Q)"
    and Q: "0 \<le> Q" and tag: "tag s = r0 + word_of_nat i" and i: "i \<le> k" and wt: "wt s = w"
  shows "acct_issued serve credit s as \<le> int (k - i) * Q"
  using as tag i wt
proof (induction as arbitrary: s i)
  case Nil
  with Q show ?case by simp
next
  case (Cons a as)
  from Cons.prems obtain j where j: "j \<le> k" "rnd a = r0 + word_of_nat j"
    and a: "pre a" "credit a s \<le> Q" by auto
  have wt': "wt (snd (serve a s)) = w" using wt_serve [OF a(1)] Cons.prems(4) by simp
  have due: "cake_drr_round_refill_due (rnd a) (tag s) \<longleftrightarrow> i < j"
  proof (cases "i < j")
    case True
    have "sdiff32 (rnd a) (tag s) = sdiff32 (tag s + word_of_nat (j - i)) (tag s)"
      using True by (simp add: j Cons.prems(2) of_nat_diff)
    also have "\<dots> = int (j - i)" using j k by (intro sdiff32_fwd) linarith
    finally show ?thesis using True by (simp add: refill_due_iff)
  next
    case False
    have "sdiff32 (rnd a) (tag s) = sdiff32 (tag s - word_of_nat (i - j)) (tag s)"
      using False by (simp add: j Cons.prems(2) of_nat_diff)
    also have "\<dots> = - int (i - j)" using Cons.prems(3) k by (intro sdiff32_back) linarith
    finally show ?thesis using False Cons.prems(3) k by (simp add: refill_due_iff)
  qed
  show ?case
  proof (cases "i < j")
    case True
    with due tag_serve [OF a(1), of s] j have t: "tag (snd (serve a s)) = r0 + word_of_nat j" by simp
    have "acct_issued serve credit (snd (serve a s)) as \<le> int (k - j) * Q"
      using Cons.prems(1) by (intro Cons.IH t j wt') auto
    with a(2) have "acct_issued serve credit s (a # as) \<le> (1 + int (k - j)) * Q"
      by (simp add: algebra_simps)
    also have "\<dots> \<le> int (k - i) * Q"
      using True j(1) Q by (intro mult_right_mono) linarith+
    finally show ?thesis .
  next
    case False
    with due tag_serve [OF a(1), of s] have t: "tag (snd (serve a s)) = r0 + word_of_nat i"
      by (simp add: Cons.prems(2))
    have "acct_issued serve credit (snd (serve a s)) as \<le> int (k - i) * Q"
      using Cons.prems by (intro Cons.IH t wt') auto
    with False due credit_due [OF a(1), of s] show ?thesis by simp
  qed
qed

lemma sent_window:
  assumes "k \<le> 1048576"
    and as: "\<forall>a \<in> set as. pre a \<and> (\<exists>j \<le> k. rnd a = r0 + word_of_nat j) \<and> (\<forall>s. wt s = w \<longrightarrow> credit a s \<le> Q) \<and> len a \<le> L"
    and "0 \<le> Q" and "tag s = r0 + word_of_nat i" and "i \<le> k" and "wt s = w"
    and L: "0 \<le> L" "- 2048 - L \<le> bal s"
  shows "acct_sent serve len s as \<le> bal s + int (k - i) * Q + 2048 + L"
proof -
  have "acct_issued serve credit s as \<le> int (k - i) * Q"
    by (rule issued_window [OF assms(1) _ assms(3-6)]) (use as in auto)
  moreover have "acct_sent serve len s as \<le> bal s + acct_issued serve credit s as + 2048 + L"
    by (rule sent_bound [OF _ L]) (use as in auto)
  ultimately show ?thesis by linarith
qed

end

interpretation drr_local: drr_rounds "drr_deficit :: cake_drr_child \<Rightarrow> int" try_ok
  "\<lambda>a. uint (try_len a)" try_credit local_serve drr_round drr_weight "\<lambda>a. cake_drr_round (try_now a)"
  by unfold_locales (auto simp: local_serve_cases try_due_def try_credit_def)

lemma shared_serve_weight: "sc_weight (snd (shared_serve a c)) = sc_weight c"
  by (auto simp: shared_serve_def cake_drr_shared_reserve_def cake_drr_shared_refund_def
      split: prod.splits)

interpretation drr_shared: drr_rounds "\<lambda>c. drr_deficit (shared_view c)" try_ok
  "\<lambda>a. uint (try_len a)" "\<lambda>a c. try_credit a (shared_view c)" shared_serve
  "\<lambda>c. drr_round (shared_view c)" sc_weight "\<lambda>a. cake_drr_round (try_now a)"
  by unfold_locales
    (auto simp: shared_serve_view shared_serve_weight drr_local.tag_serve drr_local.credit_due)

text \<open>The number of attempts a run serves.\<close>

fun acct_served :: "('a \<Rightarrow> 's \<Rightarrow> bool \<times> 's) \<Rightarrow> 's \<Rightarrow> 'a list \<Rightarrow> nat" where
  "acct_served serve s [] = 0"
| "acct_served serve s (a # as) =
     (if fst (serve a s) then 1 else 0) + acct_served serve (snd (serve a s)) as"

text \<open>Attempts one round apart, with the gates beyond this child open.\<close>

fun each_round :: "u32 \<Rightarrow> u64 \<Rightarrow> drr_try list \<Rightarrow> bool" where
  "each_round r w [] = True"
| "each_round r w (a # as) \<longleftrightarrow> try_ok a \<and> try_gates a \<and> cake_drr_round (try_now a) = r + 1 \<and>
     0 < cake_drr_quantum (try_round_bytes a) w (try_active_weight a) \<and> each_round (r + 1) w as"

lemma local_progress:
  assumes "each_round (drr_round c) (drr_weight c) as" and "- drr_deficit c < int (length as)"
  shows "0 < acct_served local_serve c as \<or> (0 < drr_deficit c \<and> as = [])"
  using assms
proof (induction as arbitrary: c)
  case Nil
  then show ?case by simp
next
  case (Cons a as)
  let ?c = "snd (local_serve a c)"
  let ?q = "uint (cake_drr_quantum (try_round_bytes a) (drr_weight c) (try_active_weight a))"
  have ok: "try_ok a" "try_gates a" and due: "try_due a (drr_round c)"
    using Cons.prems(1) sdiff32_fwd [of 1 "drr_round c"]
    by (auto simp: try_due_def refill_due_iff)
  have q: "1 \<le> ?q" using Cons.prems(1) by (auto simp: word_less_def)
  show ?case
  proof (cases "fst (local_serve a c)")
    case True
    then show ?thesis by simp
  next
    case False
    note s = local_serve_cases [OF ok(1), of c]
    have cap: "2048 \<le> drr_cap (try_round_bytes a) (drr_weight c) (try_active_weight a)"
      by (rule drr_cap_bounds)
    from False due ok(2) cap have d: "drr_deficit c + ?q \<le> 0"
      and c': "?c = c\<lparr>drr_deficit := drr_deficit c + ?q, drr_round := cake_drr_round (try_now a)\<rparr>"
      unfolding s by (auto simp: min_def split: if_splits)
    have "each_round (drr_round ?c) (drr_weight ?c) as"
      using Cons.prems(1) by (simp add: c')
    moreover have "- drr_deficit ?c < int (length as)"
      using Cons.prems(2) q by (simp add: c')
    ultimately have "0 < acct_served local_serve ?c as \<or> (0 < drr_deficit ?c \<and> as = [])"
      by (rule Cons.IH)
    with d have "0 < acct_served local_serve ?c as" by (simp add: c')
    then show ?thesis by simp
  qed
qed

text \<open>A quantum of zero, and a parent whose virtual time is not a round behind.\<close>

definition try_starved :: "u64 \<Rightarrow> drr_try \<Rightarrow> bool" where
  "try_starved w a \<longleftrightarrow> try_ok a \<and>
     cake_drr_quantum (try_round_bytes a) w (try_active_weight a) = 0 \<and>
     \<not> (try_parent_time a + CAKE_DRR_ROUND_PERIOD_NS \<le> try_now a)"

lemma local_starves:
  assumes "\<forall>a \<in> set as. try_starved (drr_weight c) a" and "drr_deficit c \<le> 0"
  shows "acct_served local_serve c as = 0"
  using assms
proof (induction as arbitrary: c)
  case (Cons a as)
  let ?c = "snd (local_serve a c)"
  have ok: "try_ok a" and q: "cake_drr_quantum (try_round_bytes a) (drr_weight c) (try_active_weight a) = 0"
    and vt: "\<not> cake_drr_escape_open d (try_parent_time a) (try_now a)" for d
    using Cons.prems(1) by (auto simp: try_starved_def cake_drr_escape_open_def)
  have cap: "2048 \<le> drr_cap (try_round_bytes a) (drr_weight c) (try_active_weight a)"
    by (rule drr_cap_bounds)
  note s = local_serve_cases [OF ok, of c]
  have "\<not> fst (local_serve a c)" and "drr_deficit ?c \<le> 0" and "drr_weight ?c = drr_weight c"
    using Cons.prems(2) vt cap unfolding s by (auto simp: q min_def)
  with Cons show ?case by simp
qed simp

section \<open>Properties\<close>


definition ex_child :: cake_drr_shared_child where
  "ex_child = cake_drr_shared_init 1000 5000000"

definition ex_try :: "u64 \<Rightarrow> drr_try" where
  "ex_try now = \<lparr>try_now = now, try_round_bytes = 125000, try_active_weight = 100000,
     try_parent_time = now, try_len = 1500, try_gates = True\<rparr>"

lemma ex_child_eqs:
  "drr_round (shared_view ex_child) = 5" "drr_deficit (shared_view ex_child) = 0"
  "sc_weight ex_child = 1000"
  by (simp_all add: ex_child_def cake_drr_shared_init_def cake_drr_round_def
      CAKE_DRR_ROUND_PERIOD_NS_def CAKE_DRR_DEFICIT_BIAS_def shared_view_def)

lemma ex_try_eqs:
  "try_ok (ex_try n)" "uint (try_len (ex_try n)) = 1500" "try_now (ex_try n) = n"
  "uint (cake_drr_quantum (try_round_bytes (ex_try n)) 1000 (try_active_weight (ex_try n))) = 1250"
  by (simp_all add: ex_try_def try_ok_def cake_drr_quantum_def)


text \<open>
  C19: The lock-free shared child follows the owner-local rule.  Whatever the interference met by
  its compare-and-swap loop, a reservation acts on one word it loaded, with one snapshot of the
  parent, exactly as the local admission acts on the record that word stands for, charge included.
\<close>

theorem shared_reserve_refines_local:
  assumes "uint round_bytes < 2 ^ 30" and "uint adj_len < 2147481600"
  shows "\<exists>((aw, vt), w) \<in> set (((active_weight, parent_time), sc_round_deficit child) # env).
    (case cake_drr_shared_reserve child round_bytes active_weight parent_time adj_len now env of
      (r, child') \<Rightarrow>
       (case cake_drr_local_admit (shared_view (child\<lparr>sc_round_deficit := w\<rparr>)) round_bytes aw vt now of
         (r', l) \<Rightarrow> r = r' \<and> shared_view child' =
            (if r' = DRR_ADMIT then cake_drr_local_charge l adj_len else l)))"
proof -
  let ?body = "cake_drr_shared_body (sc_weight child) round_bytes adj_len now"
  obtain s w where sw: "(s, w) \<in> set (((active_weight, parent_time), sc_round_deficit child) # env)"
    and lin: "cas_loop ?body (active_weight, parent_time) (sc_round_deficit child) env
      = cas_loop ?body s w []"
    using cas_loop_linear [of "(active_weight, parent_time)" "sc_round_deficit child" env ?body]
    by blast
  let ?c = "child\<lparr>sc_round_deficit := w\<rparr>"
  obtain aw vt where s: "s = (aw, vt)" by (cases s)
  obtain r child' where res: "cake_drr_shared_reserve ?c round_bytes aw vt adj_len now [] = (r, child')"
    by (cases "cake_drr_shared_reserve ?c round_bytes aw vt adj_len now []")
  obtain r' l where loc: "cake_drr_local_admit (shared_view ?c) round_bytes aw vt now = (r', l)"
    by (cases "cake_drr_local_admit (shared_view ?c) round_bytes aw vt now")
  have "cake_drr_shared_reserve child round_bytes active_weight parent_time adj_len now env = (r, child')"
    using res by (simp add: cake_drr_shared_reserve_def lin s split: prod.splits)
  with shared_reserve_view [OF assms res loc] show ?thesis
    by (intro bexI [OF _ sw]) (simp add: s loc)
qed

theorem shared_reserve_refines_local_witness:
  "\<exists>((aw, vt), w) \<in> set (((100000, 0), sc_round_deficit ex_child) # [((200000, 7), drr_pack 6 2147484000)]).
    (case cake_drr_shared_reserve ex_child 125000 100000 0 1500 6000000
            [((200000, 7), drr_pack 6 2147484000)] of
      (r, child') \<Rightarrow>
       (case cake_drr_local_admit (shared_view (ex_child\<lparr>sc_round_deficit := w\<rparr>)) 125000 aw vt 6000000 of
         (r', l) \<Rightarrow> r = r' \<and> shared_view child' =
            (if r' = DRR_ADMIT then cake_drr_local_charge l 1500 else l)))"
  by (rule shared_reserve_refines_local) simp_all

text \<open>
  C35: The quantum is the exact weighted share, in spite of the 64-bit types: no intermediate
  wraps, and a stale or zeroed active weight never yields more than the parent's whole round.
\<close>

theorem quantum_exact:
  "unat (cake_drr_quantum rb ew aw) = unat rb * unat ew div max (unat aw) (unat ew) \<and>
   unat (cake_drr_quantum rb ew aw) \<le> unat rb"
  by (simp only: unat_quantum quantum_le_round [unfolded unat_quantum] simp_thms)

text \<open>
  C40: Refill and re-activation forgive no debt: a child in debt gains at most one quantum from a
  refill and nothing from going idle and active again, and it ends within the cap.
\<close>

theorem debt_not_forgiven:
  assumes "uint rb < 2 ^ 63"
  shows "drr_deficit (cake_drr_refill c rb aw rnd)
      \<le> drr_deficit c + uint (cake_drr_quantum rb (drr_weight c) aw) \<and>
    drr_deficit (cake_drr_refill c rb aw rnd) \<le> drr_cap rb (drr_weight c) aw \<and>
    drr_deficit (snd (cake_drr_child_activate (snd (cake_drr_child_deactivate c))))
      \<le> drr_deficit c \<and>
    (drr_active c \<longrightarrow>
      drr_deficit (snd (cake_drr_child_activate (snd (cake_drr_child_deactivate c)))) \<le> 0)"
  by (auto simp: refill_deficit [OF assms] cake_drr_child_activate_def cake_drr_child_deactivate_def)

theorem debt_not_forgiven_witness:
  "drr_deficit (cake_drr_refill \<lparr>drr_weight = 10, drr_deficit = -1400, drr_round = 3, drr_active = True\<rparr> 125000 100 4)
      \<le> - 1400 + uint (cake_drr_quantum 125000 10 100)"
  using debt_not_forgiven [of 125000 "\<lparr>drr_weight = 10, drr_deficit = -1400, drr_round = 3, drr_active = True\<rparr>" 100 4]
  by simp

text \<open>
  C32: A child whose quantum is positive is not starved: with the gates beyond it open, one more
  attempt than it owes bytes, one per round, sends at least one packet, however long that packet.
\<close>

theorem local_child_progress:
  assumes "each_round (drr_round c) (drr_weight c) as"
    and "drr_deficit c \<le> 0" and "- drr_deficit c < int (length as)"
  shows "0 < acct_served local_serve c as"
  using local_progress [OF assms(1,3)] assms(2) by auto

theorem local_child_progress_witness:
  "0 < acct_served local_serve \<lparr>drr_weight = 10, drr_deficit = -1, drr_round = 3, drr_active = True\<rparr>
     [ex_try 4000000, ex_try 5000000]"
  by (rule local_child_progress)
    (simp_all add: ex_try_eqs ex_try_def try_ok_def cake_drr_round_def CAKE_DRR_ROUND_PERIOD_NS_def
      cake_drr_quantum_def)

text \<open>
  The converse: a child whose weight is so small a share that its quantum truncates to zero
  never accumulates credit, so while its parent has no idle capacity it sends nothing at all.
\<close>

theorem zero_quantum_starves:
  assumes "\<forall>a \<in> set as. try_starved (drr_weight c) a" and "drr_deficit c \<le> 0"
  shows "acct_served local_serve c as = 0"
  by (rule local_starves [OF assms])

theorem zero_quantum_starves_witness:
  "acct_served local_serve \<lparr>drr_weight = 8000, drr_deficit = 0, drr_round = 3, drr_active = True\<rparr>
     [(ex_try 4000000)\<lparr>try_active_weight := 1000008000\<rparr>,
      (ex_try 5000000)\<lparr>try_active_weight := 1000008000\<rparr>] = 0"
  by (rule zero_quantum_starves)
    (simp_all add: try_starved_def ex_try_def try_ok_def cake_drr_quantum_def
      CAKE_DRR_ROUND_PERIOD_NS_def)

end
