(* ===== verification/Cake_Shaper.thy ===== *)
theory Cake_Shaper
  imports Prelude "HOL-Library.Multiset"
begin

text \<open>
  The rate gate and the buffer admission of an aggregate, from
  \<^verbatim>\<open>osvbng_qos_sched/cake_shaper.h\<close>.  A shaper is one 64-bit virtual time in nanoseconds;
  a packet passes when the virtual time is not ahead of the wall clock, and advances it by the
  packet's cost.  The buffer admission reserves occupancy by adding first and verifying after, so
  its two atomic steps are kept apart, for the interleavings of several workers.
\<close>

section \<open>Rates and costs\<close>

definition CAKE_RATE_FRAC_BITS :: nat where
  "CAKE_RATE_FRAC_BITS = 16"

definition cake_rate_scaled :: "u64 \<Rightarrow> u64" where
  "cake_rate_scaled rate_bytes_per_sec =
     (if rate_bytes_per_sec > 0
      then push_bit CAKE_RATE_FRAC_BITS 1000000000 div rate_bytes_per_sec else 0)"

definition cake_cost_ns :: "u32 \<Rightarrow> u64 \<Rightarrow> u64" where
  "cake_cost_ns adj_len rate_ns_per_byte_scaled =
     drop_bit CAKE_RATE_FRAC_BITS (ucast adj_len * rate_ns_per_byte_scaled)"

section \<open>The gate\<close>

text \<open>One iteration of the gate's retry loop on the loaded virtual time.\<close>

definition cake_shaper_gate_body :: "u64 \<Rightarrow> u64 \<Rightarrow> u64 \<Rightarrow> unit \<Rightarrow> u64 \<Rightarrow> u64 option \<times> bool" where
  "cake_shaper_gate_body cost_ns now_ns burst_ns snap old_time =
     (if old_time > now_ns then (None, False)
      else (let base = old_time;
                base = (if now_ns - base > burst_ns then now_ns - burst_ns else base)
            in (Some (base + cost_ns), True)))"

definition cake_shaper_gate_take ::
  "u64 \<Rightarrow> u64 \<Rightarrow> u64 \<Rightarrow> u64 \<Rightarrow> (unit \<times> u64) list \<Rightarrow> u64 \<times> bool" where
  "cake_shaper_gate_take virtual_time_ns cost_ns now_ns burst_ns env =
     cas_loop (cake_shaper_gate_body cost_ns now_ns burst_ns) () virtual_time_ns env"

section \<open>Buffer admission\<close>

text \<open>
  The atomic add, returning the previous occupancy, and the test that decides whether the second
  atomic step, the subtraction, follows.
\<close>

definition cake_agg_admit_add :: "u32 \<Rightarrow> u32 \<Rightarrow> u32 \<times> u32" where
  "cake_agg_admit_add usage len = (usage, usage + len)"

definition cake_agg_admit_over :: "u32 \<Rightarrow> u32 \<Rightarrow> u32 \<Rightarrow> bool" where
  "cake_agg_admit_over prev limit len \<longleftrightarrow> prev + len > limit"

definition cake_agg_release :: "u32 \<Rightarrow> u32 \<Rightarrow> u32" where
  "cake_agg_release usage len = usage - len"

definition cake_agg_admit :: "u32 \<Rightarrow> u32 \<Rightarrow> u32 \<Rightarrow> bool \<times> u32" where
  "cake_agg_admit usage limit len =
     (let (prev, usage) = cake_agg_admit_add usage len
      in if cake_agg_admit_over prev limit len then (False, usage - len) else (True, usage))"

section \<open>Facts about rates and costs\<close>

lemma unat_rate_scaled:
  "0 < r \<Longrightarrow> unat (cake_rate_scaled r) = 65536000000000 div unat r"
  by (simp add: cake_rate_scaled_def CAKE_RATE_FRAC_BITS_def unat_div push_bit_eq_mult)

text \<open>With packets below 256 KiB the product of a cost does not wrap, at any rate.\<close>

lemma unat_cost_ns:
  assumes "0 < r" and "unat l < 262144"
  shows "unat (cake_cost_ns l (cake_rate_scaled r))
    = unat l * (65536000000000 div unat r) div 65536"
proof -
  have "unat l * (65536000000000 div unat r) \<le> 262144 * 65536000000000"
    using assms(2) by (intro mult_mono) (simp_all add: div_le_dividend)
  then have "unat l * unat (cake_rate_scaled r) < 2 ^ LENGTH(64)"
    by (simp add: unat_rate_scaled [OF assms(1)])
  then show ?thesis
    by (simp add: cake_cost_ns_def CAKE_RATE_FRAC_BITS_def drop_bit_eq_div unat_div
        unat_mult_exact unat_ucast_up unat_rate_scaled [OF assms(1)])
qed

lemma div_real_bounds:
  fixes a b :: nat
  assumes "0 < b"
  shows "real a / real b - 1 < real (a div b)" and "real (a div b) \<le> real a / real b"
proof -
  have "a < (a div b + 1) * b"
    using assms by (metis add.commute dividend_less_div_times mult.commute plus_1_eq_Suc mult_Suc)
  then have "real a < real ((a div b + 1) * b)" by (simp only: of_nat_less_iff)
  then show "real a / real b - 1 < real (a div b)"
    using assms by (simp add: field_simps)
  show "real (a div b) \<le> real a / real b" by (rule of_nat_div_le_of_nat)
qed

section \<open>The gate over a window\<close>

text \<open>
  What the workers do to one shaper, in the order of their atomic operations: taking the gate, and
  giving a cost back when a later gate refused the packet.  \<open>gate_run\<close> yields the final
  virtual time and the net cost let through; a failed exchange of the retry loop has no effect, so
  the runs use loops without one.
\<close>

datatype gate_event = Take u64 u64 | Refund u64

fun gate_run :: "u64 \<Rightarrow> u64 \<Rightarrow> gate_event list \<Rightarrow> u64 \<times> int" where
  "gate_run burst v [] = (v, 0)"
| "gate_run burst v (Take cost now # es) =
     (case cake_shaper_gate_take v cost now burst [] of (v', ok) \<Rightarrow>
        (case gate_run burst v' es of (w, net) \<Rightarrow> (w, (if ok then uint cost else 0) + net)))"
| "gate_run burst v (Refund cost # es) =
     (case gate_run burst (v - cost) es of (w, net) \<Rightarrow> (w, net - uint cost))"

text \<open>
  A well-formed run in the window from \<open>t0\<close> to \<open>t1\<close>: clocks inside the window, costs at most
  \<open>m\<close>, and refunds only of cost that is outstanding (\<open>out\<close>).
\<close>

fun gate_ok :: "int \<Rightarrow> int \<Rightarrow> int \<Rightarrow> u64 \<Rightarrow> u64 \<Rightarrow> int \<Rightarrow> gate_event list \<Rightarrow> bool" where
  "gate_ok t0 t1 m burst v out [] \<longleftrightarrow> True"
| "gate_ok t0 t1 m burst v out (Take cost now # es) \<longleftrightarrow>
     t0 \<le> uint now \<and> uint now \<le> t1 \<and> uint cost \<le> m \<and>
     (case cake_shaper_gate_take v cost now burst [] of (v', ok) \<Rightarrow>
        gate_ok t0 t1 m burst v' (out + (if ok then uint cost else 0)) es)"
| "gate_ok t0 t1 m burst v out (Refund cost # es) \<longleftrightarrow>
     uint cost \<le> out \<and> gate_ok t0 t1 m burst (v - cost) (out - uint cost) es"

text \<open>One successful take, over the integers.\<close>

lemma gate_take_view:
  assumes "uint now + uint cost < 2 ^ 64"
  shows "cake_shaper_gate_take v cost now burst [] =
    (if uint now < uint v then (v, False)
     else (word_of_int (max (uint v) (uint now - uint burst) + uint cost), True))" (is "_ = ?rhs")
    and "uint v \<le> uint now \<Longrightarrow>
      uint (fst (cake_shaper_gate_take v cost now burst []))
        = max (uint v) (uint now - uint burst) + uint cost"
proof -
  have eq: "v = now - burst" if "uint v = uint now - uint burst"
    using arg_cong [OF that, of "word_of_int :: int \<Rightarrow> u64"]
    by (simp only: of_int_diff word_of_int_uint)
  show *: "cake_shaper_gate_take v cost now burst [] = ?rhs"
    by (auto intro!: eq simp: cake_shaper_gate_take_def cake_shaper_gate_body_def Let_def word_less_def
        uint_sub_exact max_def)
  assume le: "uint v \<le> uint now"
  have "0 \<le> max (uint v) (uint now - uint burst) + uint cost"
    and "max (uint v) (uint now - uint burst) + uint cost < 2 ^ LENGTH(64)"
    using assms le uint_ge_0 [of v] uint_ge_0 [of cost] uint_ge_0 [of burst]
    by (simp_all only: max_def len64 split: if_splits) linarith+
  then have "uint (word_of_int (max (uint v) (uint now - uint burst) + uint cost) :: u64)
      = max (uint v) (uint now - uint burst) + uint cost"
    by (simp only: unsigned_of_int take_bit_int_eq_self of_int_eq_id id_apply)
  then show "uint (fst (cake_shaper_gate_take v cost now burst []))
      = max (uint v) (uint now - uint burst) + uint cost"
    using le by (simp only: * if_False fst_conv linorder_not_less [symmetric])
qed


text \<open>
  The invariant of a run: whatever cost is outstanding lies between the start of the window, less
  the burst, and the virtual time, and the virtual time is at most one packet past the window.
\<close>

definition gate_inv :: "int \<Rightarrow> int \<Rightarrow> int \<Rightarrow> int \<Rightarrow> u64 \<Rightarrow> int \<Rightarrow> bool" where
  "gate_inv t0 t1 m b v out \<longleftrightarrow> 0 \<le> out \<and> out \<le> uint v \<and>
     (out = 0 \<or> uint v \<le> t1 + m \<and> t0 - b \<le> uint v - out)"

lemma gate_inv_take:
  assumes "gate_inv t0 t1 m (uint burst) v out" and "t1 + m < 2 ^ 64"
    and "t0 \<le> uint now" "uint now \<le> t1" "uint cost \<le> m"
    and take: "cake_shaper_gate_take v cost now burst [] = (v', ok)"
  shows "gate_inv t0 t1 m (uint burst) v' (out + (if ok then uint cost else 0))"
proof (cases "uint now < uint v")
  case True
  with assms show ?thesis by (simp add: gate_take_view)
next
  case False
  have "uint now + uint cost < 2 ^ 64" using assms by simp
  then have ok: "ok" and v': "uint v' = max (uint v) (uint now - uint burst) + uint cost"
    using gate_take_view [of now cost v burst] False take by auto
  have "uint v' \<le> uint now + uint cost" using False by (simp add: v' max_def)
  then show ?thesis
    using assms(1,3-5) False ok by (auto simp: gate_inv_def v' max_def)
qed

lemma gate_inv_refund:
  assumes "gate_inv t0 t1 m b v out" and "uint cost \<le> out"
  shows "gate_inv t0 t1 m b (v - cost) (out - uint cost)"
proof -
  have "uint (v - cost) = uint v - uint cost"
    using assms by (intro uint_sub_exact) (simp add: gate_inv_def)
  with assms uint_ge_0 [of cost] show ?thesis unfolding gate_inv_def by linarith
qed

lemma gate_inv_run:
  assumes "gate_ok t0 t1 m burst v out es" and "t1 + m < 2 ^ 64"
    and "gate_inv t0 t1 m (uint burst) v out"
  shows "gate_inv t0 t1 m (uint burst) (fst (gate_run burst v es)) (out + snd (gate_run burst v es))"
  using assms
proof (induction es arbitrary: v out)
  case Nil
  then show ?case by simp
next
  case (Cons e es)
  show ?case
  proof (cases e)
    case (Take cost now)
    obtain v' ok where t: "cake_shaper_gate_take v cost now burst [] = (v', ok)" by fastforce
    have "gate_inv t0 t1 m (uint burst) v' (out + (if ok then uint cost else 0))"
      using Cons.prems by (intro gate_inv_take [OF _ _ _ _ _ t]) (auto simp: Take)
    note i = this
    have g: "gate_ok t0 t1 m burst v' (out + (if ok then uint cost else 0)) es"
      using Cons.prems by (simp add: Take t)
    show ?thesis
      using Cons.IH [OF g Cons.prems(2) i] by (simp add: Take t add.assoc case_prod_beta)
  next
    case (Refund cost)
    then have "gate_inv t0 t1 m (uint burst) (v - cost) (out - uint cost)"
      using Cons.prems by (intro gate_inv_refund) auto
    with Cons.IH [OF _ Cons.prems(2) this] Cons.prems(1) show ?thesis
      by (simp add: Refund case_prod_beta algebra_simps)
  qed
qed

section \<open>Workers admitting concurrently\<close>

text \<open>
  The state of one occupancy counter shared by several workers: its word, the lengths of the
  packets admitted and not yet released, and the lengths a worker has added and is about to take
  back.  A worker's refused admission is two steps, with any step of another worker in between.
\<close>

record agg_counter =
  ac_usage :: u32
  ac_admitted :: "u32 multiset"
  ac_unwinding :: "u32 multiset"

inductive agg_step :: "u32 \<Rightarrow> agg_counter \<Rightarrow> agg_counter \<Rightarrow> bool" for limit where
  admit: "cake_agg_admit_add (ac_usage s) len = (prev, u) \<Longrightarrow> \<not> cake_agg_admit_over prev limit len \<Longrightarrow>
    agg_step limit s (s\<lparr>ac_usage := u, ac_admitted := add_mset len (ac_admitted s)\<rparr>)"
| refuse: "cake_agg_admit_add (ac_usage s) len = (prev, u) \<Longrightarrow> cake_agg_admit_over prev limit len \<Longrightarrow>
    agg_step limit s (s\<lparr>ac_usage := u, ac_unwinding := add_mset len (ac_unwinding s)\<rparr>)"
| unwind: "len \<in># ac_unwinding s \<Longrightarrow>
    agg_step limit s (s\<lparr>ac_usage := ac_usage s - len, ac_unwinding := ac_unwinding s - {#len#}\<rparr>)"
| release: "len \<in># ac_admitted s \<Longrightarrow>
    agg_step limit s (s\<lparr>ac_usage := cake_agg_release (ac_usage s) len,
      ac_admitted := ac_admitted s - {#len#}\<rparr>)"

text \<open>Packets of at most \<open>m\<close> bytes, and at most \<open>n\<close> workers inside a refused admission.\<close>

inductive agg_reach :: "u32 \<Rightarrow> int \<Rightarrow> nat \<Rightarrow> agg_counter \<Rightarrow> bool" for limit m n where
  init: "agg_reach limit m n \<lparr>ac_usage = 0, ac_admitted = {#}, ac_unwinding = {#}\<rparr>"
| step: "agg_reach limit m n s \<Longrightarrow> agg_step limit s s' \<Longrightarrow>
    \<forall>l \<in># ac_admitted s' + ac_unwinding s'. uint l \<le> m \<Longrightarrow> size (ac_unwinding s') \<le> n \<Longrightarrow>
    agg_reach limit m n s'"

abbreviation bytes_of :: "u32 multiset \<Rightarrow> int" where
  "bytes_of ls \<equiv> \<Sum>l\<in>#ls. uint l"

lemma bytes_of_nonneg: "0 \<le> bytes_of ls"
  by (induction ls) simp_all

lemma bytes_of_bound: "\<forall>l \<in># ls. uint l \<le> m \<Longrightarrow> size ls \<le> n \<Longrightarrow> 0 \<le> m \<Longrightarrow> bytes_of ls \<le> int n * m"
proof (induction ls arbitrary: n)
  case empty
  then show ?case by simp
next
  case (add l ls)
  then obtain n' where "n = Suc n'" by (cases n) auto
  with add.IH [of n'] add.prems show ?case by (auto simp: distrib_right)
qed

lemma bytes_of_remove: "l \<in># ls \<Longrightarrow> bytes_of (ls - {#l#}) = bytes_of ls - uint l"
  by (metis add_diff_cancel_left' image_mset_add_mset insert_DiffM sum_mset.insert)

lemma bytes_of_ge: "l \<in># ls \<Longrightarrow> uint l \<le> bytes_of ls"
  using bytes_of_remove [of l ls] bytes_of_nonneg [of "ls - {#l#}"] by linarith

definition agg_inv :: "u32 \<Rightarrow> int \<Rightarrow> nat \<Rightarrow> agg_counter \<Rightarrow> bool" where
  "agg_inv limit m n s \<longleftrightarrow>
     uint (ac_usage s) = bytes_of (ac_admitted s) + bytes_of (ac_unwinding s) \<and>
     bytes_of (ac_admitted s) \<le> uint limit \<and> bytes_of (ac_unwinding s) \<le> int n * m"

lemma agg_inv_step:
  assumes "agg_step limit s s'" and "agg_inv limit m n s"
    and "0 \<le> m" and lim: "uint limit + int (n + 1) * m < 2 ^ 32"
    and ls: "\<forall>l \<in># ac_admitted s' + ac_unwinding s'. uint l \<le> m" "size (ac_unwinding s') \<le> n"
  shows "agg_inv limit m n s'"
proof -
  have add: "uint (ac_usage s + len) = uint (ac_usage s) + uint len" if "uint len \<le> m" for len
    using that assms(2) lim by (intro uint_add_exact) (simp add: agg_inv_def distrib_right)
  have sub: "uint (ac_usage s - len) = uint (ac_usage s) - uint len"
    if "len \<in># ac_admitted s \<or> len \<in># ac_unwinding s" for len
  proof (rule uint_sub_exact)
    have "uint len \<le> bytes_of (ac_admitted s) \<or> uint len \<le> bytes_of (ac_unwinding s)"
      using that bytes_of_ge by auto
    then show "uint len \<le> uint (ac_usage s)"
      using assms(2) bytes_of_nonneg [of "ac_admitted s"] bytes_of_nonneg [of "ac_unwinding s"]
      unfolding agg_inv_def by linarith
  qed
  have U: "bytes_of (ac_unwinding s') \<le> int n * m"
    using ls assms(3) by (intro bytes_of_bound) auto
  from assms(1) show ?thesis
  proof cases
    case (admit len prev u)
    then have "uint len \<le> m" using ls by simp
    with admit U assms(2) bytes_of_nonneg [of "ac_unwinding s"] show ?thesis
      by (auto simp: agg_inv_def cake_agg_admit_add_def cake_agg_admit_over_def add word_le_def not_less)
  next
    case (refuse len prev u)
    then have "uint len \<le> m" using ls by simp
    with refuse U assms(2) show ?thesis
      by (auto simp: agg_inv_def cake_agg_admit_add_def add)
  next
    case (unwind len)
    with U assms(2) show ?thesis
      by (auto simp: agg_inv_def sub bytes_of_remove)
  next
    case (release len)
    with U assms(2) have "agg_inv limit m n s' \<longleftrightarrow> bytes_of (ac_admitted s) - uint len \<le> uint limit"
      by (simp add: agg_inv_def cake_agg_release_def sub bytes_of_remove)
    with assms(2) uint_ge_0 [of len] show ?thesis unfolding agg_inv_def by linarith
  qed
qed

lemma agg_reach_inv:
  assumes "agg_reach limit m n s" and "0 \<le> m" and "uint limit + int (n + 1) * m < 2 ^ 32"
  shows "agg_inv limit m n s"
  using assms(1)
proof induction
  case init
  with assms(2) show ?case by (simp add: agg_inv_def)
next
  case (step s s')
  from agg_inv_step [OF step.hyps(2) step.IH assms(2,3) step.hyps(3,4)] show ?case .
qed

section \<open>Properties\<close>

text \<open>
  C12: A shaper conforms to its rate.  However the workers interleave, and with every cost that a
  later gate refused given back, the cost let through by packets stamped within a window is at
  most the length of the window, plus the burst, plus one packet.
\<close>

theorem shaper_conformance:
  assumes "gate_ok t0 t1 m burst v 0 es" and "t1 + m < 2 ^ 64" and "t0 \<le> t1" and "0 \<le> m"
  shows "snd (gate_run burst v es) \<le> (t1 - t0) + uint burst + m"
proof -
  have "gate_inv t0 t1 m (uint burst) v 0" by (simp add: gate_inv_def)
  from gate_inv_run [OF assms(1,2) this] assms(3,4) uint_ge_0 [of burst] show ?thesis
    unfolding gate_inv_def by linarith
qed

theorem shaper_conformance_witness:
  "snd (gate_run 100 50 [Take 30 1000, Take 200 1010, Refund 30, Take 10 1020]) \<le> 20 + 100 + 200"
proof -
  have "snd (gate_run 100 50 [Take 30 1000, Take 200 1010, Refund 30, Take 10 1020])
      \<le> (1020 - 1000) + uint (100 :: u64) + 200"
    by (rule shaper_conformance)
      (simp_all add: cake_shaper_gate_take_def cake_shaper_gate_body_def)
  then show ?thesis by simp
qed

text \<open>
  The gate is one linearizable step: whatever values its exchange loop met, a refusal leaves
  the time it last loaded, at which the shaper is ahead of the clock, and a success advances a
  loaded time that was not ahead, to at least that time plus the cost.
\<close>

theorem gate_take_linear:
  assumes "cake_shaper_gate_take v cost now burst env = (v', ok)"
    and "uint now + uint cost < 2 ^ 64"
  shows "\<exists>w \<in> insert v (snd ` set env).
    if ok then w \<le> now \<and> uint v' = max (uint w) (uint now - uint burst) + uint cost
    else now < w \<and> v' = w"
proof -
  obtain u w where "(u, w) \<in> set (((), v) # env)"
    and "cas_loop (cake_shaper_gate_body cost now burst) () v env
      = cas_loop (cake_shaper_gate_body cost now burst) u w []"
    using cas_loop_linear [of "()" v env "cake_shaper_gate_body cost now burst"] by auto
  then have w: "w \<in> insert v (snd ` set env)"
    and eq: "cake_shaper_gate_take w cost now burst [] = (v', ok)"
    using assms(1) by (force simp: cake_shaper_gate_take_def)+
  have "if ok then w \<le> now \<and> uint v' = max (uint w) (uint now - uint burst) + uint cost
    else now < w \<and> v' = w"
    using gate_take_view [OF assms(2), of w burst] eq
    by (auto simp: word_less_def word_le_def split: if_splits)
  with w show ?thesis by blast
qed

theorem gate_take_linear_witness:
  "\<exists>w \<in> insert 500 (snd ` set [((), 1200 :: u64)]).
    if False then w \<le> 1000 \<and> uint (1200 :: u64) = max (uint w) (uint (1000 :: u64) - uint (100 :: u64)) + uint (30 :: u64)
    else 1000 < w \<and> 1200 = w"
  by (rule gate_take_linear)
    (simp_all add: cake_shaper_gate_take_def cake_shaper_gate_body_def)

text \<open>
  C13: Add first and verify after admits no more than the limit: in every interleaving of at most
  \<open>n\<close> workers inside a refused admission, the packets admitted and not yet released hold at
  most the limit, and the counter is exactly what is admitted plus what is being taken back.
\<close>

theorem agg_admit_concurrent:
  assumes "agg_reach limit m n s" and "0 \<le> m" and "uint limit + int (n + 1) * m < 2 ^ 32"
  shows "bytes_of (ac_admitted s) \<le> uint limit \<and>
    uint (ac_usage s) = bytes_of (ac_admitted s) + bytes_of (ac_unwinding s) \<and>
    uint (ac_usage s) \<le> uint limit + int n * m"
  using agg_reach_inv [OF assms] by (simp add: agg_inv_def)

theorem agg_admit_concurrent_witness:
  "bytes_of {# 600 #} \<le> uint (1000 :: u32) \<and>
   uint (1100 :: u32) = bytes_of {# 600 #} + bytes_of {# 500 #} \<and>
   uint (1100 :: u32) \<le> uint (1000 :: u32) + int 1 * 600"
proof -
  let ?s0 = "\<lparr>ac_usage = 0, ac_admitted = {#}, ac_unwinding = {#}\<rparr>"
  let ?s1 = "\<lparr>ac_usage = 600, ac_admitted = {# 600 #}, ac_unwinding = {#}\<rparr>"
  let ?s2 = "\<lparr>ac_usage = 1100, ac_admitted = {# 600 #}, ac_unwinding = {# 500 #}\<rparr>"
  note [simp] = cake_agg_admit_add_def cake_agg_admit_over_def
  have "agg_step 1000 ?s0 ?s1" using agg_step.admit [of ?s0 600 0 600 1000] by simp
  then have "agg_reach 1000 600 1 ?s1" by (rule agg_reach.step [OF agg_reach.init]) simp_all
  moreover have "agg_step 1000 ?s1 ?s2" using agg_step.refuse [of ?s1 500 600 1100 1000] by simp
  ultimately have "agg_reach 1000 600 1 ?s2" by (rule agg_reach.step) simp_all
  then show ?thesis using agg_admit_concurrent [of 1000 600 1 ?s2] by simp
qed

text \<open>
  C33: The error of a shaper's rate: at rates up to 100 Gbit/s (12.5e9 bytes per second) the cost of a
  packet below 256 KiB is never above the exact time it takes, and below it by less than one part in 5242 plus
  one nanosecond.
\<close>

theorem cost_ns_error:
  assumes "0 < r" and "unat r \<le> 12500000000" and "unat l < 262144"
  shows "real (unat (cake_cost_ns l (cake_rate_scaled r))) \<le> real (unat l) * 1000000000 / real (unat r) \<and>
    real (unat l) * 1000000000 / real (unat r) * (1 - 1 / 5242) - 1
      < real (unat (cake_cost_ns l (cake_rate_scaled r)))"
proof -
  define x where "x = 65536000000000 / real (unat r)"
  define k where "k = 65536000000000 div unat r"
  define c where "c = unat (cake_cost_ns l (cake_rate_scaled r))"
  have r: "0 < unat r" using assms(1) by (simp add: word_less_nat_alt)
  have k: "x - 1 < real k" "real k \<le> x"
    using div_real_bounds [OF r, of 65536000000000] by (simp_all add: k_def x_def)
  have "65536000000000 div 12500000000 \<le> k" unfolding k_def by (rule div_le_mono2 [OF r assms(2)])
  then have "real 5242 \<le> real k" by simp
  with k have "x - real k < x / 5242" by simp
  then have k': "x * (1 - 1 / 5242) \<le> real k" by (simp add: field_simps)
  have c: "c = unat l * k div 65536"
    by (simp add: c_def k_def unat_cost_ns [OF assms(1,3)])
  have c2: "real (unat l) * real k / 65536 - 1 < real c" "real c \<le> real (unat l) * real k / 65536"
    using div_real_bounds [of 65536 "unat l * k"] by (simp_all add: c)
  define a where "a = real (unat l) * (x * (1 - 1 / 5242))"
  have "a \<le> real (unat l) * real k"
    unfolding a_def by (rule mult_left_mono [OF k' of_nat_0_le_iff])
  moreover have "real (unat l) * real k \<le> real (unat l) * x"
    by (rule mult_left_mono [OF k(2) of_nat_0_le_iff])
  moreover have "real (unat l) * 1000000000 / real (unat r) = real (unat l) * x / 65536"
    and "real (unat l) * x / 65536 * (1 - 1 / 5242) = a / 65536"
    by (simp_all add: x_def a_def)
  ultimately show ?thesis unfolding c_def [symmetric] using c2 by (intro conjI) (simp only:; linarith)+
qed

theorem cost_ns_error_witness:
  "real (unat (cake_cost_ns 1500 (cake_rate_scaled 125000000))) \<le> 12000 \<and>
   12000 * (1 - 1 / 5242) - 1 < real (unat (cake_cost_ns 1500 (cake_rate_scaled 125000000)))"
  using cost_ns_error [of 125000000 1500] by simp

text \<open>
  The error is not below 0.01 percent at 100 Gbit/s: the scaled cost of a byte is 5242 units
  where the exact value is 5242.88.
\<close>

theorem rate_scaled_error_at_100g:
  "unat (cake_rate_scaled 12500000000) = 5242 \<and>
   1 / 10000 < 1 - real (unat (cake_rate_scaled 12500000000)) * 12500000000 / (1000000000 * 65536)"
  by (simp add: unat_rate_scaled)

end
