(* ===== verification/Cake_Types.thy ===== *)
theory Cake_Types
  imports Cake_Drr Cake_Shaper
begin

text \<open>
  The data of the scheduler plugin, from \<^verbatim>\<open>osvbng_qos_sched/osvbng_qos_sched.h\<close>: flows, hosts,
  tins, aggregates, schedulers and the plugin's global state, with the constants that size them.
  Cache-line marks and padding are dropped; a vector or array is a list (empty for a null
  pointer), a pointer into a table is the table.  Deficits are integers: they stay within a few
  packets of the quantum.
\<close>

section \<open>Constants\<close>

definition CAKE_QUEUES :: nat where "CAKE_QUEUES = 1024"
definition CAKE_SET_WAYS :: nat where "CAKE_SET_WAYS = 8"
definition CAKE_SET_COUNT :: nat where "CAKE_SET_COUNT = CAKE_QUEUES div CAKE_SET_WAYS"
definition CAKE_QUANTUM_DEFAULT :: u32 where "CAKE_QUANTUM_DEFAULT = 1514"
definition CAKE_FLOW_RING_SIZE :: nat where "CAKE_FLOW_RING_SIZE = 128"
definition CAKE_FLOW_RING_MASK :: u32 where "CAKE_FLOW_RING_MASK = 127"
definition CAKE_OWNER_UNSET :: u32 where "CAKE_OWNER_UNSET = nil32"
definition CAKE_TARGET_US_DEFAULT :: u32 where "CAKE_TARGET_US_DEFAULT = 5000"
definition CAKE_INTERVAL_US_DEFAULT :: u32 where "CAKE_INTERVAL_US_DEFAULT = 100000"
definition CAKE_REC_INV_SQRT_CACHE :: nat where "CAKE_REC_INV_SQRT_CACHE = 16"
definition CAKE_AGG_BURST_NS :: u32 where "CAKE_AGG_BURST_NS = 10000000"
definition CAKE_AGG_BURST_NS_MIN :: u32 where "CAKE_AGG_BURST_NS_MIN = 10000000"
definition CAKE_AGG_BURST_NS_MAX :: u32 where "CAKE_AGG_BURST_NS_MAX = 150000000"
definition CAKE_WEIGHT_MIN :: u32 where "CAKE_WEIGHT_MIN = 1"
definition CAKE_WEIGHT_MAX :: u32 where "CAKE_WEIGHT_MAX = 256"
definition CAKE_HOSTS :: nat where "CAKE_HOSTS = 256"
definition CAKE_HOSTS_MASK :: nat where "CAKE_HOSTS_MASK = 255"
definition CAKE_TIN_MODE_BESTEFFORT :: u8 where "CAKE_TIN_MODE_BESTEFFORT = 0"
definition CAKE_TIN_MODE_DIFFSERV3 :: u8 where "CAKE_TIN_MODE_DIFFSERV3 = 1"
definition CAKE_TIN_MODE_DIFFSERV4 :: u8 where "CAKE_TIN_MODE_DIFFSERV4 = 2"
definition CAKE_TIN_MODE_DIFFSERV8 :: u8 where "CAKE_TIN_MODE_DIFFSERV8 = 3"
definition CAKE_AGG_LEVEL_PORT :: u8 where "CAKE_AGG_LEVEL_PORT = 0"
definition CAKE_AGG_LEVEL_SVLAN :: u8 where "CAKE_AGG_LEVEL_SVLAN = 1"
definition CAKE_SVLAN_MAX :: nat where "CAKE_SVLAN_MAX = 4096"

definition cake_effective_weight :: "u64 \<Rightarrow> u32 \<Rightarrow> u64" where
  "cake_effective_weight rate_bytes_per_sec weight =
     (let w = (if weight \<noteq> 0 then ucast weight else 1);
          rate = (if rate_bytes_per_sec \<noteq> 0 then rate_bytes_per_sec else 1)
      in rate * w)"

section \<open>Flows and tins\<close>

datatype cake_flow_state = FLOW_NONE | FLOW_SPARSE | FLOW_BULK | FLOW_DECAYING

text \<open>A flow's ring holds buffer indices; it is empty while no ring is allocated.\<close>

record cake_flow =
  f_ring :: "u32 list"
  f_head :: u32
  f_tail :: u32
  f_deficit :: int
  f_next :: u32
  f_prev :: u32
  f_backlog :: u32
  f_state :: cake_flow_state
  f_set_index :: u8
  f_dropping :: bool
  f_codel_count :: u32
  f_rec_inv_sqrt :: u32
  f_drop_next_us :: u32
  f_p_drop :: u32
  f_blue_timer_us :: u32
  f_dst_host :: u16

record cake_host =
  h_ip_hash :: u32
  h_bulk :: u16

record cake_tin =
  t_flows :: "cake_flow list"
  t_flow_tags :: "u32 list"
  t_flow_count :: u32
  t_new_head :: u32
  t_new_tail :: u32
  t_old_head :: u32
  t_old_tail :: u32
  t_decaying_head :: u32
  t_decaying_tail :: u32
  t_quantum :: u32
  t_tin_deficit :: int
  t_tin_quantum :: u32
  t_packets :: u64
  t_bytes :: u64
  t_drops :: u64
  t_ecn_marks :: u64
  t_sparse_count :: u32
  t_bulk_count :: u32
  t_hosts :: "cake_host list"

section \<open>Aggregates and schedulers\<close>

record cake_agg_stats =
  st_shaped_pkts :: u64
  st_shaped_bytes :: u64
  st_backpressure :: u64
  st_drr_blocked :: u64
  st_parent_blocked :: u64

record cake_aggregate =
  ag_rate :: u64
  ag_rate_scaled :: u64
  ag_round_bytes :: u64
  ag_sw_if_index :: u32
  ag_index :: u32
  ag_buffer_limit :: u32
  ag_parent :: u32
  ag_burst_ns :: u32
  ag_svlan_id :: u16
  ag_svlan_id_end :: u16
  ag_weight :: u16
  ag_level :: u8
  ag_stats :: "cake_agg_stats list"
  ag_shaper_time :: u64
  ag_buffer_usage :: u32
  ag_drr :: cake_drr_shared_child
  ag_active_weight :: u64
  ag_n_active :: u32
  ag_svlan_map :: "u32 list"

record cake_sched =
  cs_rate :: u64
  cs_rate_scaled :: u64
  cs_shaper_time :: u64
  cs_sw_if_index :: u32
  cs_sched_index :: u32
  cs_owner :: u32
  cs_overhead :: int
  cs_atm_mode :: u8
  cs_mpu :: u8
  cs_n_tins :: u8
  cs_tin_mode :: u8
  cs_buffer_limit :: u32
  cs_buffer_usage :: u32
  cs_queued :: u32
  cs_target_us :: u32
  cs_interval_us :: u32
  cs_mtu_time_us :: u32
  cs_p_inc :: u32
  cs_p_dec :: u32
  cs_dscp_to_tin :: "u8 list"
  cs_tins :: "cake_tin list"
  cs_enqueued_pkts :: u64
  cs_enqueued_bytes :: u64
  cs_dequeued_pkts :: u64
  cs_dequeued_bytes :: u64
  cs_dropped_pkts :: u64
  cs_agg :: u32
  cs_weight :: u32
  cs_drr :: cake_drr_child
  cs_drr_blocked :: u64
  cs_parent_blocked :: u64

text \<open>The activity bitmap of a worker is the set of scheduler indices whose bit is set.\<close>

record cake_per_thread =
  pt_active :: "u32 set"
  pt_random_seed :: u32

record cake_main =
  cm_scheds :: "cake_sched pool"
  cm_per_thread :: "cake_per_thread list"
  cm_sched_by_if :: "u32 list"
  cm_n_scheds :: u32
  cm_aggs :: "cake_aggregate pool"
  cm_agg_by_if :: "u32 list"

text \<open>Zeroed memory, as the pools' zeroing allocation and \<^verbatim>\<open>clib_memset\<close> leave it.\<close>

definition cake_flow_zero :: cake_flow where
  "cake_flow_zero = \<lparr>f_ring = [], f_head = 0, f_tail = 0, f_deficit = 0, f_next = 0, f_prev = 0,
     f_backlog = 0, f_state = FLOW_NONE, f_set_index = 0, f_dropping = False, f_codel_count = 0,
     f_rec_inv_sqrt = 0, f_drop_next_us = 0, f_p_drop = 0, f_blue_timer_us = 0, f_dst_host = 0\<rparr>"

definition cake_tin_zero :: cake_tin where
  "cake_tin_zero = \<lparr>t_flows = [], t_flow_tags = [], t_flow_count = 0, t_new_head = 0, t_new_tail = 0,
     t_old_head = 0, t_old_tail = 0, t_decaying_head = 0, t_decaying_tail = 0, t_quantum = 0,
     t_tin_deficit = 0, t_tin_quantum = 0, t_packets = 0, t_bytes = 0, t_drops = 0, t_ecn_marks = 0,
     t_sparse_count = 0, t_bulk_count = 0,
     t_hosts = replicate CAKE_HOSTS \<lparr>h_ip_hash = 0, h_bulk = 0\<rparr>\<rparr>"

definition cake_agg_stats_zero :: cake_agg_stats where
  "cake_agg_stats_zero = \<lparr>st_shaped_pkts = 0, st_shaped_bytes = 0, st_backpressure = 0,
     st_drr_blocked = 0, st_parent_blocked = 0\<rparr>"

definition cake_aggregate_zero :: cake_aggregate where
  "cake_aggregate_zero = \<lparr>ag_rate = 0, ag_rate_scaled = 0, ag_round_bytes = 0, ag_sw_if_index = 0,
     ag_index = 0, ag_buffer_limit = 0, ag_parent = 0, ag_burst_ns = 0, ag_svlan_id = 0,
     ag_svlan_id_end = 0, ag_weight = 0, ag_level = 0, ag_stats = [], ag_shaper_time = 0,
     ag_buffer_usage = 0, ag_drr = \<lparr>sc_weight = 0, sc_round_deficit = 0\<rparr>, ag_active_weight = 0,
     ag_n_active = 0, ag_svlan_map = []\<rparr>"

definition cake_drr_child_zero :: cake_drr_child where
  "cake_drr_child_zero = \<lparr>drr_weight = 0, drr_deficit = 0, drr_round = 0, drr_active = False\<rparr>"

definition cake_sched_zero :: cake_sched where
  "cake_sched_zero = \<lparr>cs_rate = 0, cs_rate_scaled = 0, cs_shaper_time = 0, cs_sw_if_index = 0,
     cs_sched_index = 0, cs_owner = 0, cs_overhead = 0, cs_atm_mode = 0, cs_mpu = 0, cs_n_tins = 0,
     cs_tin_mode = 0, cs_buffer_limit = 0, cs_buffer_usage = 0, cs_queued = 0, cs_target_us = 0,
     cs_interval_us = 0, cs_mtu_time_us = 0, cs_p_inc = 0, cs_p_dec = 0, cs_dscp_to_tin = [],
     cs_tins = [], cs_enqueued_pkts = 0, cs_enqueued_bytes = 0, cs_dequeued_pkts = 0,
     cs_dequeued_bytes = 0, cs_dropped_pkts = 0, cs_agg = 0, cs_weight = 0,
     cs_drr = cake_drr_child_zero, cs_drr_blocked = 0, cs_parent_blocked = 0\<rparr>"

section \<open>The effective weight\<close>

text \<open>With rates below \<open>2 ^ 56\<close> the product does not wrap, and a weight is at least 1.\<close>

lemma uint_effective_weight:
  assumes "uint rate < 2 ^ 56" and "uint w \<le> 256"
  shows "uint (cake_effective_weight rate w) = max 1 (uint rate) * max 1 (uint w)"
proof -
  define r where "r = (if rate \<noteq> 0 then rate else 1)"
  define v where "v = (if w \<noteq> 0 then ucast w else 1 :: u64)"
  have r: "uint r = max 1 (uint rate)" and v: "uint v = max 1 (uint w)"
    using uint_pos [of rate] uint_pos [of w]
    by (auto simp: r_def v_def uint_ucast_up max_def)
  have "uint r * uint v \<le> 2 ^ 56 * 256 - 256"
  proof -
    have "uint r * uint v \<le> (2 ^ 56 - 1) * 256"
      using assms by (intro mult_mono) (simp_all add: r v)
    then show ?thesis by simp
  qed
  then have "uint (r * v) = uint r * uint v"
    by (simp add: uint_word_ariths r v)
  then show ?thesis
    by (simp add: cake_effective_weight_def r_def [symmetric] v_def [symmetric] r v)
qed

end
