(* ===== verification/Cake_Cobalt.thy ===== *)
theory Cake_Cobalt
  imports Cake_Types
begin

text \<open>
  The COBALT queue management of a flow, CoDel and BLUE, from
  \<^verbatim>\<open>osvbng_qos_sched/osvbng_qos_sched.h\<close> and \<^verbatim>\<open>cake_cobalt.c\<close>.  Times are 32-bit
  microseconds that wrap, compared by signed difference; reciprocal square roots are 32-bit
  fractions.  The pseudo-random generator is vppinfra's: a function from a seed to a draw and the
  next seed.
\<close>

section \<open>Reciprocal square roots\<close>

definition cobalt_newton_step :: "cake_flow \<Rightarrow> cake_flow" where
  "cobalt_newton_step f =
     (let invsqrt = f_rec_inv_sqrt f;
          invsqrt2 = ucast (drop_bit 32 (ucast invsqrt * ucast invsqrt :: u64)) :: u32;
          val = push_bit 32 3 - ucast (f_codel_count f) * ucast invsqrt2 :: u64;
          val = drop_bit 2 val;
          val = drop_bit (32 - 2 + 1) (val * ucast invsqrt)
      in f\<lparr>f_rec_inv_sqrt := ucast val\<rparr>)"

text \<open>The table filled at start-up: four steps per entry, each entry starting at the last.\<close>

fun cake_cobalt_cache_fill :: "nat \<Rightarrow> cake_flow \<Rightarrow> u32 list" where
  "cake_cobalt_cache_fill 0 v = []"
| "cake_cobalt_cache_fill (Suc n) v =
     (let v = (cobalt_newton_step ^^ 4) v
      in f_rec_inv_sqrt v # cake_cobalt_cache_fill n (v\<lparr>f_codel_count := f_codel_count v + 1\<rparr>))"

definition cake_cobalt_cache_init :: "u32 list" where
  "cake_cobalt_cache_init =
     (let v = cake_flow_zero\<lparr>f_rec_inv_sqrt := nil32\<rparr>
      in f_rec_inv_sqrt v #
         cake_cobalt_cache_fill (CAKE_REC_INV_SQRT_CACHE - 1) (v\<lparr>f_codel_count := 1\<rparr>))"

definition cobalt_rec_inv_sqrt_cache :: "u32 list" where
  "cobalt_rec_inv_sqrt_cache = cake_cobalt_cache_init"

definition cobalt_invsqrt :: "cake_flow \<Rightarrow> cake_flow" where
  "cobalt_invsqrt f =
     (if unat (f_codel_count f) < CAKE_REC_INV_SQRT_CACHE
      then f\<lparr>f_rec_inv_sqrt := cobalt_rec_inv_sqrt_cache ! unat (f_codel_count f)\<rparr>
      else cobalt_newton_step f)"

definition cobalt_control :: "u32 \<Rightarrow> u32 \<Rightarrow> u32 \<Rightarrow> u32" where
  "cobalt_control t_us interval_us rec_inv_sqrt =
     t_us + ucast (drop_bit 32 (ucast interval_us * ucast rec_inv_sqrt :: u64))"

section \<open>A full and an empty queue\<close>

definition cobalt_queue_full :: "cake_flow \<Rightarrow> u32 \<Rightarrow> u32 \<Rightarrow> u32 \<Rightarrow> cake_flow" where
  "cobalt_queue_full f target_us p_inc now_us =
     (let f = (if sdiff32 now_us (f_blue_timer_us f) > sint target_us
               then f\<lparr>f_p_drop := (if f_p_drop f + p_inc < p_inc then nil32 else f_p_drop f + p_inc),
                      f_blue_timer_us := now_us\<rparr>
               else f)
      in f\<lparr>f_dropping := True, f_drop_next_us := now_us,
           f_codel_count := (if f_codel_count f = 0 then 1 else f_codel_count f)\<rparr>)"

text \<open>One step back down the control law, shared by the empty queue and the catch-up loop.\<close>

definition cobalt_step_back :: "u32 \<Rightarrow> cake_flow \<Rightarrow> cake_flow" where
  "cobalt_step_back interval_us f =
     (let f = cobalt_invsqrt (f\<lparr>f_codel_count := f_codel_count f - 1\<rparr>)
      in f\<lparr>f_drop_next_us := cobalt_control (f_drop_next_us f) interval_us (f_rec_inv_sqrt f)\<rparr>)"

definition cobalt_queue_empty :: "cake_flow \<Rightarrow> u32 \<Rightarrow> u32 \<Rightarrow> u32 \<Rightarrow> u32 \<Rightarrow> cake_flow" where
  "cobalt_queue_empty f target_us p_dec interval_us now_us =
     (let f = (if f_p_drop f \<noteq> 0 \<and> sdiff32 now_us (f_blue_timer_us f) > sint target_us
               then f\<lparr>f_p_drop := (if f_p_drop f < p_dec then 0 else f_p_drop f - p_dec),
                      f_blue_timer_us := now_us\<rparr>
               else f);
          f = f\<lparr>f_dropping := False\<rparr>
      in if f_codel_count f \<noteq> 0 \<and> sdiff32 now_us (f_drop_next_us f) \<ge> 0
         then cobalt_step_back interval_us f else f)"

section \<open>The drop decision\<close>

text \<open>The \<^verbatim>\<open>while (next_due)\<close> loop, with the schedule it leaves behind.\<close>

lemma codel_count_step_back [simp]:
  "f_codel_count (cobalt_step_back interval f) = f_codel_count f - 1"
  by (simp add: cobalt_step_back_def cobalt_invsqrt_def cobalt_newton_step_def Let_def)

function cobalt_catch_up :: "u32 \<Rightarrow> u32 \<Rightarrow> bool \<Rightarrow> cake_flow \<Rightarrow> int \<Rightarrow> cake_flow \<times> int" where
  "cobalt_catch_up interval_us now_us next_due f schedule =
     (if next_due
      then (let f = cobalt_step_back interval_us f;
                schedule = sdiff32 now_us (f_drop_next_us f)
            in cobalt_catch_up interval_us now_us (f_codel_count f \<noteq> 0 \<and> schedule \<ge> 0) f schedule)
      else (f, schedule))"
  by pat_completeness auto

lemma unat_pred_less: "(y :: 'a::len word) \<noteq> 0 \<Longrightarrow> unat (y - 1) < unat y"
  by (simp add: unat_minus_one unat_gt_0)

lemma unat_pred2_less: "(x :: u32) \<noteq> 1 \<Longrightarrow> unat (x - 2) < unat (x - 1)"
  using unat_pred_less [of "x - 1"] by simp

termination cobalt_catch_up
  by (relation "measure (\<lambda>(_, _, due, f, _). if due then Suc (unat (f_codel_count f - 1)) else 0)")
    (auto simp: Let_def unat_pred2_less)

declare cobalt_catch_up.simps [simp del]

definition cobalt_over_target :: "cake_sched \<Rightarrow> u32 \<Rightarrow> u32 \<Rightarrow> bool" where
  "cobalt_over_target cs sojourn_us bulk_flows \<longleftrightarrow>
     sojourn_us > cs_target_us cs \<and>
     sojourn_us > cs_mtu_time_us cs * bulk_flows * 2 \<and>
     sojourn_us > cs_mtu_time_us cs * 4"

text \<open>
  The CoDel part: enter or leave the dropping state, then drop or mark if the next drop is due, or
  catch up.  The schedule is the one of the entry after a drop, and the last one of the loop
  otherwise.
\<close>

definition cobalt_codel ::
  "cake_flow \<Rightarrow> cake_sched \<Rightarrow> u32 \<Rightarrow> u32 \<Rightarrow> u32 \<Rightarrow> bool \<Rightarrow> bool \<times> bool \<times> cake_flow \<times> int" where
  "cobalt_codel f cs sojourn_us now_us bulk_flows ecn_capable =
     (let over_target = cobalt_over_target cs sojourn_us bulk_flows;
          schedule = sdiff32 now_us (f_drop_next_us f);
          next_due = (f_codel_count f \<noteq> 0 \<and> schedule \<ge> 0);
          f = (if over_target
               then (let f = (if \<not> f_dropping f
                              then f\<lparr>f_dropping := True,
                                     f_drop_next_us := cobalt_control now_us (cs_interval_us cs)
                                       (f_rec_inv_sqrt f)\<rparr>
                              else f)
                     in f\<lparr>f_codel_count := (if f_codel_count f = 0 then 1 else f_codel_count f)\<rparr>)
               else f\<lparr>f_dropping := False\<rparr>)
      in if next_due \<and> f_dropping f
         then (let f = f\<lparr>f_codel_count := f_codel_count f + 1\<rparr>;
                   f = f\<lparr>f_codel_count := (if f_codel_count f = 0 then f_codel_count f - 1
                                           else f_codel_count f)\<rparr>;
                   f = cobalt_invsqrt f;
                   f = f\<lparr>f_drop_next_us := cobalt_control (f_drop_next_us f) (cs_interval_us cs)
                         (f_rec_inv_sqrt f)\<rparr>
               in (\<not> ecn_capable, ecn_capable, f, schedule))
         else (case cobalt_catch_up (cs_interval_us cs) now_us next_due f schedule of
                 (f, schedule) \<Rightarrow> (False, False, f, schedule)))"

text \<open>The result is the drop flag, the ECN mark flag, the flow and the random seed.\<close>

definition cobalt_should_drop ::
  "(u32 \<Rightarrow> u32 \<times> u32) \<Rightarrow> cake_flow \<Rightarrow> cake_sched \<Rightarrow> u32 \<Rightarrow> u32 \<Rightarrow> u32 \<Rightarrow> bool \<Rightarrow> u32 \<Rightarrow>
   bool \<times> bool \<times> cake_flow \<times> u32" where
  "cobalt_should_drop random_u32 f cs sojourn_us now_us bulk_flows ecn_capable seed =
     (let (dr, ecn_marked, f, schedule) =
            cobalt_codel f cs sojourn_us now_us bulk_flows ecn_capable;
          (dr, seed) =
            (if f_p_drop f \<noteq> 0
             then (case random_u32 seed of (r, seed) \<Rightarrow> (dr \<or> r < f_p_drop f, seed))
             else (dr, seed));
          f = (if f_codel_count f = 0 then f\<lparr>f_drop_next_us := now_us + cs_interval_us cs\<rparr>
               else if schedule > 0 \<and> \<not> dr then f\<lparr>f_drop_next_us := now_us\<rparr> else f)
      in (dr, ecn_marked, f, seed))"

section \<open>Newton's step over the integers\<close>

definition newton_int :: "int \<Rightarrow> int \<Rightarrow> int" where
  "newton_int c y = (3 * 4294967296 - c * (y * y div 4294967296)) div 4 * y div 2147483648"

definition newton_ok :: "int \<Rightarrow> int \<Rightarrow> bool" where
  "newton_ok c y \<longleftrightarrow> c * (y * y div 4294967296) \<le> 3 * 4294967296 \<and> newton_int c y < 4294967296"

lemma uint_drop_bit: "uint (drop_bit n (x :: 'a::len word)) = uint x div 2 ^ n"
proof -
  have "uint (drop_bit n x) = drop_bit n (take_bit LENGTH('a) (uint x))" by (rule unsigned_drop_bit_eq)
  then show ?thesis
    by (simp only: drop_bit_eq_div [where 'a = int] take_bit_int_eq_self [OF uint_ge_0 uint_lt2p])
qed

text \<open>Without wrap-around, and that is whenever the two conditions hold, the step is the integer one.\<close>

lemma newton_step_int:
  assumes "newton_ok (uint (f_codel_count f)) (uint (f_rec_inv_sqrt f))"
  shows "cobalt_newton_step f = f\<lparr>f_rec_inv_sqrt :=
    word_of_int (newton_int (uint (f_codel_count f)) (uint (f_rec_inv_sqrt f)))\<rparr>"
proof -
  define y where "y = uint (f_rec_inv_sqrt f)"
  define c where "c = uint (f_codel_count f)"
  define w where "w = (ucast (f_rec_inv_sqrt f) :: u64)"
  define sq where "sq = (ucast (drop_bit 32 (w * w)) :: u32)"
  define v where "v = drop_bit 2 (push_bit 32 3 - ucast (f_codel_count f) * ucast sq :: u64)"
  have y: "0 \<le> y" "y < 4294967296" and c: "0 \<le> c" "c < 4294967296"
    by (simp_all add: y_def c_def)
  have ok: "c * (y * y div 4294967296) \<le> 3 * 4294967296" "newton_int c y < 4294967296"
    using assms by (simp_all add: newton_ok_def y_def c_def)
  have w: "uint w = y" by (simp add: w_def y_def uint_ucast_up)
  have yy: "y * y \<le> 4294967295 * 4294967295" using y by (intro mult_mono) simp_all
  then have "uint (w * w) = y * y" by (simp add: uint_word_ariths w)
  moreover have "y * y div 4294967296 < 4294967296" using yy by simp
  moreover have "0 \<le> y * y div 4294967296" using y(1) by (simp add: pos_imp_zdiv_nonneg_iff)
  ultimately have sq: "uint sq = y * y div 4294967296"
    by (simp add: sq_def uint_ucast_mod uint_drop_bit)
  have nn: "0 \<le> c * (y * y div 4294967296)"
    using c(1) y(1) by (simp add: pos_imp_zdiv_nonneg_iff)
  have m: "uint (ucast (f_codel_count f) * ucast sq :: u64) = c * (y * y div 4294967296)"
    using ok(1) nn by (simp add: uint_word_ariths uint_ucast_up sq c_def [symmetric])
  have "uint (push_bit 32 3 - ucast (f_codel_count f) * ucast sq :: u64)
      = 3 * 4294967296 - c * (y * y div 4294967296)"
    using ok(1) nn by (subst uint_sub_exact) (simp_all add: m)
  then have v: "uint v = (3 * 4294967296 - c * (y * y div 4294967296)) div 4"
    by (simp add: v_def uint_drop_bit)
  then have "0 \<le> uint v" "uint v \<le> 3221225472" using nn ok(1) by (simp_all add: pos_imp_zdiv_nonneg_iff)
  then have "0 \<le> uint v * y" "uint v * y \<le> 3221225472 * 4294967295"
    using y mult_mono [of "uint v" 3221225472 y 4294967295] by simp_all
  then have "uint (v * w) = uint v * y" by (simp add: uint_word_ariths w)
  then have n: "uint (drop_bit (32 - 2 + 1) (v * w)) = newton_int c y"
    by (simp add: uint_drop_bit newton_int_def v)
  then have "ucast (drop_bit (32 - 2 + 1) (v * w)) = (word_of_int (newton_int c y) :: u32)"
    by (metis of_int_uint ucast_eq)
  then show ?thesis
    by (simp add: cobalt_newton_step_def Let_def v_def sq_def w_def c_def y_def)
qed

fun newton_iter :: "nat \<Rightarrow> int \<Rightarrow> int \<Rightarrow> int option" where
  "newton_iter 0 c y = Some y"
| "newton_iter (Suc k) c y =
     (if newton_ok c y \<and> 0 \<le> newton_int c y then newton_iter k c (newton_int c y) else None)"

fun cache_int :: "nat \<Rightarrow> int \<Rightarrow> int \<Rightarrow> int list option" where
  "cache_int 0 c y = Some []"
| "cache_int (Suc n) c y =
     (case newton_iter 4 c y of None \<Rightarrow> None
      | Some y' \<Rightarrow> map_option ((#) y') (cache_int n (c + 1) y'))"

lemma uint_newton_step:
  assumes "newton_ok (uint (f_codel_count f)) (uint (f_rec_inv_sqrt f))"
    and "0 \<le> newton_int (uint (f_codel_count f)) (uint (f_rec_inv_sqrt f))"
  shows "uint (f_rec_inv_sqrt (cobalt_newton_step f))
      = newton_int (uint (f_codel_count f)) (uint (f_rec_inv_sqrt f)) \<and>
    f_codel_count (cobalt_newton_step f) = f_codel_count f"
  using assms by (simp add: newton_step_int newton_ok_def unsigned_of_int take_bit_int_eq_self)

lemma uint_newton_iter:
  assumes "newton_iter k (uint (f_codel_count f)) (uint (f_rec_inv_sqrt f)) = Some y"
  shows "uint (f_rec_inv_sqrt ((cobalt_newton_step ^^ k) f)) = y \<and>
    f_codel_count ((cobalt_newton_step ^^ k) f) = f_codel_count f"
  using assms
proof (induction k arbitrary: f)
  case 0
  then show ?case by simp
next
  case (Suc k)
  from Suc.prems have ok: "newton_ok (uint (f_codel_count f)) (uint (f_rec_inv_sqrt f))"
    "0 \<le> newton_int (uint (f_codel_count f)) (uint (f_rec_inv_sqrt f))"
    and it: "newton_iter k (uint (f_codel_count f))
      (newton_int (uint (f_codel_count f)) (uint (f_rec_inv_sqrt f))) = Some y"
    by (simp_all split: if_splits)
  from Suc.IH [of "cobalt_newton_step f"] uint_newton_step [OF ok] it show ?case
    by (simp only: funpow_Suc_right o_apply)
qed

lemma cache_fill_int:
  assumes "cache_int n (uint (f_codel_count v)) (uint (f_rec_inv_sqrt v)) = Some ys"
    and "uint (f_codel_count v) + int n < 2 ^ 32"
  shows "map uint (cake_cobalt_cache_fill n v) = ys"
  using assms
proof (induction n arbitrary: v ys)
  case 0
  then show ?case by simp
next
  case (Suc n)
  define w where "w = (cobalt_newton_step ^^ 4) v"
  obtain y ys' where y: "newton_iter 4 (uint (f_codel_count v)) (uint (f_rec_inv_sqrt v)) = Some y"
    and ys': "cache_int n (uint (f_codel_count v) + 1) y = Some ys'" and ys: "ys = y # ys'"
    using Suc.prems(1) by (auto split: option.splits)
  have w: "uint (f_rec_inv_sqrt w) = y" "f_codel_count w = f_codel_count v"
    using uint_newton_iter [OF y] by (simp_all add: w_def)
  have c: "uint (f_codel_count v + 1) = uint (f_codel_count v) + 1"
    using Suc.prems(2) by (subst uint_add_exact) simp_all
  have "map uint (cake_cobalt_cache_fill n (w\<lparr>f_codel_count := f_codel_count w + 1\<rparr>)) = ys'"
    using Suc.prems(2) ys' by (intro Suc.IH) (simp_all add: w c)
  then show ?case
    by (simp only: cake_cobalt_cache_fill.simps Let_def w_def [symmetric] list.map w(1) ys)
qed

text \<open>The table.\<close>

lemma cache_values: "map uint cobalt_rec_inv_sqrt_cache =
  [4294967295, 4294967295, 3035289760, 2479700455, 2147483647, 1920767767, 1753413055, 1623345051,
   1518500250, 1431655765, 1358187914, 1294981364, 1239850263, 1191209601, 1147878294, 1108955788]"
  (is "_ = ?t")
proof -
  have "cache_int 15 1 4294967295 = Some (tl ?t)" by code_simp
  then have "map uint (cake_cobalt_cache_fill 15
      (cake_flow_zero\<lparr>f_rec_inv_sqrt := nil32, f_codel_count := 1\<rparr>)) = tl ?t"
    by (intro cache_fill_int) (simp_all add: uint_nil32)
  then show ?thesis
    by (simp add: cobalt_rec_inv_sqrt_cache_def cake_cobalt_cache_init_def CAKE_REC_INV_SQRT_CACHE_def
        Let_def uint_nil32)
qed

lemma cache_accurate:
  "list_all (\<lambda>n. 998 * 2 ^ 64 \<le> 1000 * (int n * (map uint cobalt_rec_inv_sqrt_cache ! n)\<^sup>2) \<and>
     1000000000 * (int n * (map uint cobalt_rec_inv_sqrt_cache ! n)\<^sup>2) \<le> 1000000002 * 2 ^ 64) [1..<16]"
  unfolding cache_values by (simp add: upt_conv_Cons nth_Cons')


section \<open>Facts about the drop decision\<close>

lemma step_back_simps [simp]:
  "f_p_drop (cobalt_step_back interval f) = f_p_drop f"
  "f_dropping (cobalt_step_back interval f) = f_dropping f"
  "f_p_drop (cobalt_invsqrt f) = f_p_drop f"
  "f_dropping (cobalt_invsqrt f) = f_dropping f"
  "f_codel_count (cobalt_invsqrt f) = f_codel_count f"
  "f_drop_next_us (cobalt_invsqrt f) = f_drop_next_us f"
  by (simp_all add: cobalt_step_back_def cobalt_invsqrt_def cobalt_newton_step_def Let_def)

lemma catch_up_simps [simp]:
  "cobalt_catch_up interval now False f schedule = (f, schedule)"
  by (subst cobalt_catch_up.simps) simp

text \<open>The catch-up loop ends with the count used up or the schedule in the future.\<close>

lemma catch_up_result:
  assumes "cobalt_catch_up interval now due f schedule = (f', s')"
    and "due \<longrightarrow> f_codel_count f \<noteq> 0" and "\<not> due \<longrightarrow> f_codel_count f = 0 \<or> schedule < 0"
  shows "(f_codel_count f' = 0 \<or> s' < 0) \<and> unat (f_codel_count f') \<le> unat (f_codel_count f) \<and>
    f_p_drop f' = f_p_drop f \<and> f_dropping f' = f_dropping f"
  using assms
proof (induction interval now due f schedule rule: cobalt_catch_up.induct)
  case (1 interval now due f schedule)
  show ?case
  proof (cases due)
    case False
    with "1.prems" show ?thesis by simp
  next
    case True
    let ?g = "cobalt_step_back interval f"
    have "unat (f_codel_count ?g) < unat (f_codel_count f)"
      using "1.prems" True unat_pred_less [of "f_codel_count f"] by simp
    moreover have "cobalt_catch_up interval now (f_codel_count ?g \<noteq> 0 \<and> 0 \<le> sdiff32 now (f_drop_next_us ?g))
        ?g (sdiff32 now (f_drop_next_us ?g)) = (f', s')"
      using "1.prems"(1) True by (subst (asm) cobalt_catch_up.simps) (simp add: Let_def)
    ultimately show ?thesis
      using "1.IH" [OF True refl refl] by (auto simp: not_le)
  qed
qed

text \<open>What decides a drop or a mark.\<close>

definition codel_due :: "cake_flow \<Rightarrow> u32 \<Rightarrow> bool" where
  "codel_due f now \<longleftrightarrow> f_codel_count f \<noteq> 0 \<and> sdiff32 now (f_drop_next_us f) \<ge> 0"

lemma codel_flags:
  assumes "cobalt_codel f cs sojourn now bulk ecn = (dr, mark, f', s')"
  shows "(mark \<longleftrightarrow> cobalt_over_target cs sojourn bulk \<and> codel_due f now \<and> ecn) \<and>
    (dr \<longleftrightarrow> cobalt_over_target cs sojourn bulk \<and> codel_due f now \<and> \<not> ecn) \<and>
    f_p_drop f' = f_p_drop f \<and> (f_dropping f' \<longleftrightarrow> cobalt_over_target cs sojourn bulk)"
proof (cases "codel_due f now")
  case False
  then have "\<not> (f_codel_count f \<noteq> 0 \<and> sdiff32 now (f_drop_next_us f) \<ge> 0)" by (simp add: codel_due_def)
  with assms False show ?thesis
    by (auto simp: cobalt_codel_def Let_def simp del: de_Morgan_conj split: if_splits)
next
  case True
  then have due: "f_codel_count f \<noteq> 0" "sdiff32 now (f_drop_next_us f) \<ge> 0" by (simp_all add: codel_due_def)
  show ?thesis
  proof (cases "cobalt_over_target cs sojourn bulk")
    case over: True
    with assms True due show ?thesis by (cases "f_dropping f") (auto simp: cobalt_codel_def Let_def)
  next
    case over: False
    then obtain g where "cobalt_catch_up (cs_interval_us cs) now True (f\<lparr>f_dropping := False\<rparr>)
        (sdiff32 now (f_drop_next_us f)) = (g, s') \<and> f' = g \<and> \<not> dr \<and> \<not> mark"
      using assms due by (auto simp: cobalt_codel_def Let_def split: prod.splits)
    with catch_up_result [of "cs_interval_us cs" now True] due over show ?thesis by fastforce
  qed
qed

lemma should_drop_flags:
  assumes "cobalt_should_drop rnd f cs sojourn now bulk ecn seed = (dr, mark, f', seed')"
  shows "(mark \<longleftrightarrow> cobalt_over_target cs sojourn bulk \<and> codel_due f now \<and> ecn) \<and>
    (dr \<longleftrightarrow> cobalt_over_target cs sojourn bulk \<and> codel_due f now \<and> \<not> ecn \<or>
      f_p_drop f \<noteq> 0 \<and> fst (rnd seed) < f_p_drop f) \<and>
    seed' = (if f_p_drop f \<noteq> 0 then snd (rnd seed) else seed) \<and>
    f_p_drop f' = f_p_drop f \<and> (f_dropping f' \<longleftrightarrow> cobalt_over_target cs sojourn bulk)"
proof -
  obtain d m g s where c: "cobalt_codel f cs sojourn now bulk ecn = (d, m, g, s)"
    by (rule prod_cases4)
  define h where "h = (if f_codel_count g = 0 then g\<lparr>f_drop_next_us := now + cs_interval_us cs\<rparr>
    else if s > 0 \<and> \<not> dr then g\<lparr>f_drop_next_us := now\<rparr> else g)"
  have h: "f_p_drop h = f_p_drop g" "f_dropping h = f_dropping g" by (simp_all add: h_def)
  obtain r sd where r: "rnd seed = (r, sd)" by fastforce
  have eq: "cobalt_should_drop rnd f cs sojourn now bulk ecn seed
    = (let dr = (d \<or> f_p_drop g \<noteq> 0 \<and> r < f_p_drop g)
       in (dr, m, if f_codel_count g = 0 then g\<lparr>f_drop_next_us := now + cs_interval_us cs\<rparr>
             else if s > 0 \<and> \<not> dr then g\<lparr>f_drop_next_us := now\<rparr> else g,
           if f_p_drop g \<noteq> 0 then sd else seed))"
    by (simp add: cobalt_should_drop_def c r)
  have parts: "(d \<or> f_p_drop g \<noteq> 0 \<and> r < f_p_drop g) = dr" "m = mark"
    "(if f_codel_count g = 0 then g\<lparr>f_drop_next_us := now + cs_interval_us cs\<rparr>
      else if s > 0 \<and> \<not> (d \<or> f_p_drop g \<noteq> 0 \<and> r < f_p_drop g) then g\<lparr>f_drop_next_us := now\<rparr>
      else g) = f'"
    "(if f_p_drop g \<noteq> 0 then sd else seed) = seed'"
    using assms unfolding eq Let_def prod.inject by blast+
  have "f' = h" unfolding h_def parts(1) [symmetric] by (rule parts(3) [symmetric])
  note parts(1,2,4) [symmetric] this
  with codel_flags [OF c] h r show ?thesis by simp
qed

lemma ecn_mark_step:
  assumes "cobalt_over_target cs sojourn bulk" and "f_codel_count f \<noteq> 0" and "f_p_drop f = 0"
    and "sdiff32 now (f_drop_next_us f) > 0"
  shows "\<exists>f'. cobalt_should_drop rnd f cs sojourn now bulk True seed = (False, True, f', seed) \<and>
    f_drop_next_us f' = now \<and> f_codel_count f' \<noteq> 0 \<and> f_p_drop f' = 0"
proof -
  obtain g where g: "cobalt_codel f cs sojourn now bulk True = (False, True, g, sdiff32 now (f_drop_next_us f))"
    and "f_codel_count g \<noteq> 0" "f_p_drop g = 0"
  proof (cases "f_dropping f"; cases "f_codel_count f + 1 = 0")
  qed (use assms in \<open>auto simp: cobalt_codel_def Let_def\<close>)
  then show ?thesis using assms(4) by (simp add: cobalt_should_drop_def g)
qed

text \<open>The marks of a run of packets, given by their sojourn and dequeue times.\<close>

fun ecn_run ::
  "(u32 \<Rightarrow> u32 \<times> u32) \<Rightarrow> cake_flow \<Rightarrow> cake_sched \<Rightarrow> u32 \<Rightarrow> u32 \<Rightarrow> (u32 \<times> u32) list \<Rightarrow> bool list" where
  "ecn_run rnd f cs bulk seed [] = []"
| "ecn_run rnd f cs bulk seed ((sojourn, now) # ps) =
     (case cobalt_should_drop rnd f cs sojourn now bulk True seed of
        (_, mark, f, seed) \<Rightarrow> mark # ecn_run rnd f cs bulk seed ps)"

fun later_than :: "u32 \<Rightarrow> (u32 \<times> u32) list \<Rightarrow> bool" where
  "later_than t [] \<longleftrightarrow> True"
| "later_than t ((_, now) # ps) \<longleftrightarrow> sdiff32 now t > 0 \<and> later_than now ps"

lemma ecn_run_all:
  assumes "later_than (f_drop_next_us f) ps" and "f_codel_count f \<noteq> 0" and "f_p_drop f = 0"
    and "\<forall>(s, now) \<in> set ps. cobalt_over_target cs s bulk"
  shows "ecn_run rnd f cs bulk seed ps = replicate (length ps) True"
  using assms
proof (induction ps arbitrary: f seed)
  case Nil
  then show ?case by simp
next
  case (Cons p ps)
  obtain s now where p: "p = (s, now)" by fastforce
  with Cons.prems obtain f' where
    f': "cobalt_should_drop rnd f cs s now bulk True seed = (False, True, f', seed)"
    "f_drop_next_us f' = now" "f_codel_count f' \<noteq> 0" "f_p_drop f' = 0"
    using ecn_mark_step [of cs s bulk f now rnd seed] by auto
  with Cons show ?case by (auto simp: p)
qed

lemma codel_drop_next:
  assumes "cobalt_over_target cs sojourn bulk" and "codel_due f now" and "f_dropping f" and "f_p_drop f = 0"
    and "cobalt_should_drop rnd f cs sojourn now bulk False seed = (dr, mark, f', seed')"
  shows "dr \<and> f_codel_count f' \<noteq> 0 \<and> f_p_drop f' = 0 \<and>
    f_drop_next_us f' = cobalt_control (f_drop_next_us f) (cs_interval_us cs) (f_rec_inv_sqrt f')"
proof -
  have due: "f_codel_count f \<noteq> 0" "sdiff32 now (f_drop_next_us f) \<ge> 0"
    using assms(2) by (simp_all add: codel_due_def)
  obtain g where g: "cobalt_codel f cs sojourn now bulk False = (True, False, g, sdiff32 now (f_drop_next_us f))"
    and "f_codel_count g \<noteq> 0" "f_p_drop g = 0"
      "f_drop_next_us g = cobalt_control (f_drop_next_us f) (cs_interval_us cs) (f_rec_inv_sqrt g)"
  proof (cases "f_codel_count f + 1 = 0")
  qed (use assms(1,3,4) due in \<open>auto simp: cobalt_codel_def Let_def\<close>)
  then show ?thesis using assms(5) by (auto simp: cobalt_should_drop_def g)
qed

section \<open>Properties\<close>

text \<open>
  C36: The start-up table holds the reciprocal square roots: for every count below 16, the count
  times the square of its entry is 1, in the entry's fixed point, within two parts in a thousand
  below and two in a thousand million above.
\<close>

theorem cobalt_cache_accurate:
  "list_all (\<lambda>n. 998 * 2 ^ 64 \<le> 1000 * (int n * (map uint cobalt_rec_inv_sqrt_cache ! n)\<^sup>2) \<and>
     1000000000 * (int n * (map uint cobalt_rec_inv_sqrt_cache ! n)\<^sup>2) \<le> 1000000002 * 2 ^ 64) [1..<16]"
  by (rule cache_accurate)

text \<open>
  C28: What COBALT does to a packet: it is marked when the sojourn is over target, the next drop is
  due and the packet can carry a mark; it is dropped in the same case when it cannot, or when the
  random draw is below the BLUE probability, whatever CoDel said; the draw is made, and the seed
  moves, only while that probability is positive; the dropping state is that of the sojourn.
\<close>

theorem cobalt_decision:
  assumes "cobalt_should_drop rnd f cs sojourn now bulk ecn seed = (dr, mark, f', seed')"
  shows "(mark \<longleftrightarrow> cobalt_over_target cs sojourn bulk \<and> codel_due f now \<and> ecn) \<and>
    (dr \<longleftrightarrow> cobalt_over_target cs sojourn bulk \<and> codel_due f now \<and> \<not> ecn \<or>
      f_p_drop f \<noteq> 0 \<and> fst (rnd seed) < f_p_drop f) \<and>
    seed' = (if f_p_drop f \<noteq> 0 then snd (rnd seed) else seed) \<and>
    f_p_drop f' = f_p_drop f \<and> (f_dropping f' \<longleftrightarrow> cobalt_over_target cs sojourn bulk)"
  by (rule should_drop_flags [OF assms])

definition ex_cobalt_flow :: cake_flow where
  "ex_cobalt_flow = cake_flow_zero\<lparr>f_codel_count := 3, f_drop_next_us := 100, f_dropping := True\<rparr>"

definition ex_cobalt_sched :: cake_sched where
  "ex_cobalt_sched = cake_sched_zero\<lparr>cs_target_us := 5000, cs_interval_us := 100000\<rparr>"

lemma ex_cobalt:
  "cobalt_over_target ex_cobalt_sched 6000 1" "f_codel_count ex_cobalt_flow = 3"
  "f_drop_next_us ex_cobalt_flow = 100" "f_p_drop ex_cobalt_flow = 0" "f_dropping ex_cobalt_flow"
  "codel_due ex_cobalt_flow 1000"
  by (simp_all add: cobalt_over_target_def ex_cobalt_sched_def cake_sched_zero_def
      ex_cobalt_flow_def cake_flow_zero_def codel_due_def sdiff32_def)

theorem cobalt_decision_witness:
  "case cobalt_should_drop (\<lambda>s. (s, s + 1)) ex_cobalt_flow ex_cobalt_sched 6000 1000 1 False 7 of
     (dr, mark, f', seed') \<Rightarrow> dr \<and> \<not> mark \<and> seed' = 7 \<and> f_p_drop f' = 0 \<and> f_dropping f'"
proof -
  obtain d m g s where c:
    "cobalt_should_drop (\<lambda>s. (s, s + 1)) ex_cobalt_flow ex_cobalt_sched 6000 1000 1 False 7 = (d, m, g, s)"
    by (rule prod_cases4)
  from cobalt_decision [OF c] show ?thesis by (simp add: c ex_cobalt)
qed

text \<open>
  BLUE's probability saturates at both ends instead of wrapping, and moves only when the
  target time has passed since it last moved.
\<close>

theorem blue_saturates:
  "uint (f_p_drop (cobalt_queue_full f target p now)) =
     (if sdiff32 now (f_blue_timer_us f) > sint target
      then min (uint (f_p_drop f) + uint p) (2 ^ 32 - 1) else uint (f_p_drop f)) \<and>
   uint (f_p_drop (cobalt_queue_empty f target p interval now)) =
     (if sdiff32 now (f_blue_timer_us f) > sint target
      then max (uint (f_p_drop f) - uint p) 0 else uint (f_p_drop f))"
proof (intro conjI)
  show "uint (f_p_drop (cobalt_queue_full f target p now)) =
     (if sdiff32 now (f_blue_timer_us f) > sint target
      then min (uint (f_p_drop f) + uint p) (2 ^ 32 - 1) else uint (f_p_drop f))"
  proof (cases "uint (f_p_drop f) + uint p < 2 ^ 32")
    case True
    then have "uint (f_p_drop f + p) = uint (f_p_drop f) + uint p" by (intro uint_add_exact) simp
    with True show ?thesis by (simp add: cobalt_queue_full_def Let_def word_less_def)
  next
    case False
    then have "uint (f_p_drop f + p) = uint (f_p_drop f) + uint p - 2 ^ 32"
      using uint_u32_less [of "f_p_drop f"] uint_u32_less [of p] by (simp add: uint_plus_if')
    with False uint_u32_less [of "f_p_drop f"] show ?thesis
      by (simp add: cobalt_queue_full_def Let_def word_less_def uint_nil32)
  qed
  show "uint (f_p_drop (cobalt_queue_empty f target p interval now)) =
     (if sdiff32 now (f_blue_timer_us f) > sint target
      then max (uint (f_p_drop f) - uint p) 0 else uint (f_p_drop f))"
    by (cases "f_p_drop f = 0"; cases "f_p_drop f < p")
      (auto simp: cobalt_queue_empty_def Let_def word_less_def uint_sub_exact not_less)
qed

text \<open>
  After a drop of a packet that cannot be marked, the next drop is due one control-law interval
  after the last one, and CoDel drops nothing before that time.
\<close>

theorem codel_spacing:
  assumes "cobalt_over_target cs sojourn bulk" and "codel_due f now" and "f_dropping f" and "f_p_drop f = 0"
    and "cobalt_should_drop rnd f cs sojourn now bulk False seed = (dr, mark, f', seed')"
    and "sdiff32 now' (f_drop_next_us f') < 0"
  shows "dr \<and> f_drop_next_us f' = cobalt_control (f_drop_next_us f) (cs_interval_us cs) (f_rec_inv_sqrt f') \<and>
    \<not> fst (cobalt_should_drop rnd f' cs sojourn' now' bulk' ecn' seed')"
proof -
  have *: "dr \<and> f_codel_count f' \<noteq> 0 \<and> f_p_drop f' = 0 \<and>
    f_drop_next_us f' = cobalt_control (f_drop_next_us f) (cs_interval_us cs) (f_rec_inv_sqrt f')"
    by (rule codel_drop_next [OF assms(1-5)])
  obtain d m g s where c: "cobalt_should_drop rnd f' cs sojourn' now' bulk' ecn' seed' = (d, m, g, s)"
    by (rule prod_cases4)
  from should_drop_flags [OF c] * assms(6) show ?thesis by (simp add: c codel_due_def)
qed

theorem codel_spacing_witness:
  "case cobalt_should_drop (\<lambda>s. (s, s + 1)) ex_cobalt_flow ex_cobalt_sched 6000 1000 1 False 7 of
     (dr, mark, f', seed') \<Rightarrow> dr \<and>
       \<not> fst (cobalt_should_drop (\<lambda>s. (s, s + 1)) f' ex_cobalt_sched 6000 (f_drop_next_us f' - 1) 1 False seed')"
proof -
  obtain d m g s where c:
    "cobalt_should_drop (\<lambda>s. (s, s + 1)) ex_cobalt_flow ex_cobalt_sched 6000 1000 1 False 7 = (d, m, g, s)"
    by (rule prod_cases4)
  have "sdiff32 (f_drop_next_us g - 1) (f_drop_next_us g) < 0" by (simp add: sdiff32_def)
  from codel_spacing [OF ex_cobalt(1,6,5,4) c this, of 6000 1 False] show ?thesis
    unfolding c prod.case by blast
qed

text \<open>
  Packets that can be marked have no such spacing: once the next drop is overdue, every packet
  over target at a later time is marked, however close together they are.  The control law's new
  due time is overwritten by the current time, because the schedule tested at the end is still the
  one from before the mark.
\<close>

theorem ecn_marks_every_packet:
  assumes "later_than (f_drop_next_us f) ps" and "f_codel_count f \<noteq> 0" and "f_p_drop f = 0"
    and "list_all (\<lambda>p. cobalt_over_target cs (fst p) bulk) ps"
  shows "ecn_run rnd f cs bulk seed ps = replicate (length ps) True"
  by (rule ecn_run_all [OF assms(1-3)]) (use assms(4) in \<open>auto simp: list_all_iff\<close>)

theorem ecn_marks_every_packet_witness:
  "ecn_run (\<lambda>s. (s, s + 1)) ex_cobalt_flow ex_cobalt_sched 1 7 [(6000, 1000), (6000, 1001), (6000, 1002)]
    = [True, True, True]"
proof -
  have "ecn_run (\<lambda>s. (s, s + 1)) ex_cobalt_flow ex_cobalt_sched 1 7
      [(6000, 1000), (6000, 1001), (6000, 1002)]
    = replicate (length [(6000, 1000), (6000, 1001), (6000 :: u32, 1002 :: u32)]) True"
    by (rule ecn_marks_every_packet) (simp_all add: ex_cobalt sdiff32_def)
  then show ?thesis by (simp add: numeral_eq_Suc)
qed

end
