(* ===== verification/Cake_Agg.thy ===== *)
theory Cake_Agg
  imports Cake_Types
begin

text \<open>
  The aggregates above a scheduler, its S-VLAN and its port: buffer admission and release along the
  chain, the weights of active children, and the gates a packet passes on its way out, from
  \<^verbatim>\<open>osvbng_qos_sched/osvbng_qos_sched.h\<close>.  The scheduler and the aggregate pool are passed
  and returned explicitly.  An access through a free pool index, undefined in C, leaves the state
  as it is here; the well-formedness of the pool rules it out.
\<close>

section \<open>Buffer admission along the chain\<close>

text \<open>The index of the counters of the worker that runs the operation is \<open>thread\<close>.\<close>

definition agg_stats_upd :: "nat \<Rightarrow> (cake_agg_stats \<Rightarrow> cake_agg_stats) \<Rightarrow> cake_aggregate \<Rightarrow> cake_aggregate" where
  "agg_stats_upd thread f a =
     (if thread < length (ag_stats a) then a\<lparr>ag_stats := (ag_stats a)[thread := f (ag_stats a ! thread)]\<rparr>
      else a)"

text \<open>
  The walk up the parents.  Its fuel counts the pool's slots, so it runs out only on a cycle; a
  well-formed chain has at most two aggregates.
\<close>

fun cake_agg_discharge_loop :: "nat \<Rightarrow> cake_aggregate pool \<Rightarrow> u32 \<Rightarrow> u32 \<Rightarrow> cake_aggregate pool" where
  "cake_agg_discharge_loop 0 aggs idx pkt_len = aggs"
| "cake_agg_discharge_loop (Suc fuel) aggs idx pkt_len =
     (if idx = nil32 then aggs
      else (case pool_at aggs idx of
         None \<Rightarrow> aggs
       | Some agg \<Rightarrow>
           cake_agg_discharge_loop fuel
             (pool_upd idx (\<lambda>a. a\<lparr>ag_buffer_usage := cake_agg_release (ag_buffer_usage a) pkt_len\<rparr>) aggs)
             (ag_parent agg) pkt_len))"

definition cake_agg_discharge :: "cake_aggregate pool \<Rightarrow> cake_sched \<Rightarrow> u32 \<Rightarrow> cake_aggregate pool" where
  "cake_agg_discharge aggs cs pkt_len = cake_agg_discharge_loop (Suc (length aggs)) aggs (cs_agg cs) pkt_len"

text \<open>One level of the admission: the read-only filter, then the exact reservation.\<close>

definition agg_admit_level :: "cake_aggregate \<Rightarrow> u32 \<Rightarrow> bool \<times> cake_aggregate" where
  "agg_admit_level agg pkt_len =
     (if ag_buffer_usage agg > ag_buffer_limit agg then (False, agg)
      else (case cake_agg_admit (ag_buffer_usage agg) (ag_buffer_limit agg) pkt_len of
              (ok, usage) \<Rightarrow> (ok, agg\<lparr>ag_buffer_usage := usage\<rparr>)))"

definition st_backpressure_inc :: "cake_agg_stats \<Rightarrow> cake_agg_stats" where
  "st_backpressure_inc st = st\<lparr>st_backpressure := st_backpressure st + 1\<rparr>"

definition cake_agg_admit_chain ::
  "cake_aggregate pool \<Rightarrow> cake_sched \<Rightarrow> u32 \<Rightarrow> nat \<Rightarrow> bool \<times> cake_aggregate pool" where
  "cake_agg_admit_chain aggs cs pkt_len thread =
     (if cs_agg cs = nil32 then (True, aggs)
      else (case pool_at aggs (cs_agg cs) of
         None \<Rightarrow> (False, aggs)
       | Some agg \<Rightarrow>
           (case agg_admit_level agg pkt_len of
              (False, agg) \<Rightarrow>
                (False, pool_upd (cs_agg cs) (\<lambda>_. agg_stats_upd thread st_backpressure_inc agg) aggs)
            | (True, agg) \<Rightarrow>
                (let aggs = pool_upd (cs_agg cs) (\<lambda>_. agg) aggs
                 in if ag_parent agg = nil32 then (True, aggs)
                    else (case pool_at aggs (ag_parent agg) of
                       None \<Rightarrow> (False, aggs)
                     | Some parent \<Rightarrow>
                         (case agg_admit_level parent pkt_len of
                            (False, parent) \<Rightarrow>
                              (False,
                               pool_upd (ag_parent agg) (\<lambda>_. agg_stats_upd thread st_backpressure_inc parent)
                                 (pool_upd (cs_agg cs)
                                    (\<lambda>a. a\<lparr>ag_buffer_usage := cake_agg_release (ag_buffer_usage a) pkt_len\<rparr>)
                                    aggs))
                          | (True, parent) \<Rightarrow>
                              (True, pool_upd (ag_parent agg) (\<lambda>_. parent) aggs)))))))"

section \<open>A tier's share, and the scheduler's admission\<close>

definition cake_agg_effective_round_bytes :: "cake_aggregate pool \<Rightarrow> cake_aggregate \<Rightarrow> u64" where
  "cake_agg_effective_round_bytes aggs agg =
     (let round_bytes = ag_round_bytes agg
      in if ag_parent agg = nil32 then round_bytes
         else (case pool_at aggs (ag_parent agg) of
            None \<Rightarrow> round_bytes
          | Some parent \<Rightarrow>
              (let share = cake_drr_quantum (ag_round_bytes parent) (sc_weight (ag_drr agg))
                             (ag_active_weight parent)
               in if share < round_bytes then share else round_bytes)))"

definition cake_sched_drr_admit ::
  "cake_aggregate pool \<Rightarrow> cake_sched \<Rightarrow> u64 \<Rightarrow> cake_drr_admit_t \<times> cake_sched" where
  "cake_sched_drr_admit aggs cs now_ns =
     (if cs_agg cs = nil32 then (DRR_UNARBITRATED, cs)
      else (case pool_at aggs (cs_agg cs) of
         None \<Rightarrow> (DRR_UNARBITRATED, cs)
       | Some agg \<Rightarrow>
           (let round_bytes = (if drr_round (cs_drr cs) \<noteq> cake_drr_round now_ns
                               then cake_agg_effective_round_bytes aggs agg else 0);
                idle_vt = ag_shaper_time agg;
                idle_vt = (if ag_parent agg \<noteq> nil32
                           then (case pool_at aggs (ag_parent agg) of
                                   None \<Rightarrow> idle_vt
                                 | Some parent \<Rightarrow>
                                     if ag_shaper_time parent > idle_vt then ag_shaper_time parent
                                     else idle_vt)
                           else idle_vt);
                (r, child) = cake_drr_local_admit (cs_drr cs) round_bytes (ag_active_weight agg)
                               idle_vt now_ns
            in (r, cs\<lparr>cs_drr := child\<rparr>))))"

section \<open>Weights of active children\<close>

definition agg_join :: "u64 \<Rightarrow> cake_aggregate \<Rightarrow> cake_aggregate" where
  "agg_join weight a =
     (case cake_drr_parent_join (ag_active_weight a) (ag_n_active a) weight of
        (_, w, n) \<Rightarrow> a\<lparr>ag_active_weight := w, ag_n_active := n\<rparr>)"

definition agg_leave :: "u64 \<Rightarrow> cake_aggregate \<Rightarrow> cake_aggregate" where
  "agg_leave weight a =
     (case cake_drr_parent_leave (ag_active_weight a) (ag_n_active a) weight of
        (_, w, n) \<Rightarrow> a\<lparr>ag_active_weight := w, ag_n_active := n\<rparr>)"

definition cake_agg_weight_add :: "cake_aggregate pool \<Rightarrow> u32 \<Rightarrow> u64 \<Rightarrow> cake_aggregate pool" where
  "cake_agg_weight_add aggs agg_index weight =
     (if agg_index = nil32 then aggs
      else (case pool_at aggs agg_index of
         None \<Rightarrow> aggs
       | Some agg \<Rightarrow>
           (let aggs = pool_upd agg_index (agg_join weight) aggs
            in if fst (cake_drr_parent_join (ag_active_weight agg) (ag_n_active agg) weight) = 0 \<and>
                  ag_parent agg \<noteq> nil32
               then pool_upd (ag_parent agg) (agg_join (sc_weight (ag_drr agg))) aggs
               else aggs)))"

definition cake_agg_weight_sub :: "cake_aggregate pool \<Rightarrow> u32 \<Rightarrow> u64 \<Rightarrow> cake_aggregate pool" where
  "cake_agg_weight_sub aggs agg_index weight =
     (if agg_index = nil32 then aggs
      else (case pool_at aggs agg_index of
         None \<Rightarrow> aggs
       | Some agg \<Rightarrow>
           (let aggs = pool_upd agg_index (agg_leave weight) aggs
            in if fst (cake_drr_parent_leave (ag_active_weight agg) (ag_n_active agg) weight) = 1 \<and>
                  ag_parent agg \<noteq> nil32
               then pool_upd (ag_parent agg) (agg_leave (sc_weight (ag_drr agg))) aggs
               else aggs)))"

definition cake_sched_drr_activate ::
  "cake_aggregate pool \<Rightarrow> cake_sched \<Rightarrow> cake_aggregate pool \<times> cake_sched" where
  "cake_sched_drr_activate aggs cs =
     (if drr_active (cs_drr cs) then (aggs, cs)
      else (case cake_drr_child_activate (cs_drr cs) of
         (moved, child) \<Rightarrow>
           if \<not> moved then (aggs, cs\<lparr>cs_drr := child\<rparr>)
           else (cake_agg_weight_add aggs (cs_agg cs) (drr_weight child), cs\<lparr>cs_drr := child\<rparr>)))"

definition cake_sched_drr_deactivate ::
  "cake_aggregate pool \<Rightarrow> cake_sched \<Rightarrow> cake_aggregate pool \<times> cake_sched" where
  "cake_sched_drr_deactivate aggs cs =
     (case cake_drr_child_deactivate (cs_drr cs) of
        (moved, child) \<Rightarrow>
          if \<not> moved then (aggs, cs\<lparr>cs_drr := child\<rparr>)
          else (cake_agg_weight_sub aggs (cs_agg cs) (drr_weight child), cs\<lparr>cs_drr := child\<rparr>))"

section \<open>The gates on the way out\<close>

datatype cake_parent_result_t = PARENT_OK | PARENT_GATE_CLOSED | PARENT_DRR_BLOCKED

definition st_shaped :: "u32 \<Rightarrow> cake_agg_stats \<Rightarrow> cake_agg_stats" where
  "st_shaped adj_len st = st\<lparr>st_shaped_pkts := st_shaped_pkts st + 1,
     st_shaped_bytes := st_shaped_bytes st + ucast adj_len\<rparr>"

definition st_unshaped :: "u32 \<Rightarrow> cake_agg_stats \<Rightarrow> cake_agg_stats" where
  "st_unshaped adj_len st = st\<lparr>st_shaped_pkts := st_shaped_pkts st - 1,
     st_shaped_bytes := st_shaped_bytes st - ucast adj_len\<rparr>"

definition st_parent_blocked_inc :: "cake_agg_stats \<Rightarrow> cake_agg_stats" where
  "st_parent_blocked_inc st = st\<lparr>st_parent_blocked := st_parent_blocked st + 1\<rparr>"

definition st_drr_blocked_inc :: "cake_agg_stats \<Rightarrow> cake_agg_stats" where
  "st_drr_blocked_inc st = st\<lparr>st_drr_blocked := st_drr_blocked st + 1\<rparr>"

definition cake_agg_dequeue_gate ::
  "cake_aggregate pool \<Rightarrow> cake_sched \<Rightarrow> u32 \<Rightarrow> u64 \<Rightarrow> nat \<Rightarrow> cake_parent_result_t \<times> cake_aggregate pool"
where
  "cake_agg_dequeue_gate aggs cs adj_len now_ns thread =
     (if cs_agg cs = nil32 then (PARENT_OK, aggs)
      else (case pool_at aggs (cs_agg cs) of
         None \<Rightarrow> (PARENT_GATE_CLOSED, aggs)
       | Some agg \<Rightarrow>
           (let ai = cs_agg cs;
                cost_ns = cake_cost_ns adj_len (ag_rate_scaled agg);
                (vt, ok) = cake_shaper_gate_take (ag_shaper_time agg) cost_ns now_ns
                             (ucast (ag_burst_ns agg)) []
            in if \<not> ok
               then (PARENT_GATE_CLOSED, pool_upd ai (agg_stats_upd thread st_parent_blocked_inc) aggs)
               else (let agg = agg_stats_upd thread (st_shaped adj_len) (agg\<lparr>ag_shaper_time := vt\<rparr>)
                     in if ag_parent agg = nil32 then (PARENT_OK, pool_upd ai (\<lambda>_. agg) aggs)
                        else (case pool_at aggs (ag_parent agg) of
                           None \<Rightarrow> (PARENT_GATE_CLOSED, aggs)
                         | Some parent \<Rightarrow>
                             (let (reserved, drr) = cake_drr_shared_reserve (ag_drr agg)
                                    (ag_round_bytes parent) (ag_active_weight parent)
                                    (ag_shaper_time parent) adj_len now_ns [];
                                  agg = agg\<lparr>ag_drr := drr\<rparr>
                              in if reserved = DRR_BLOCKED
                                 then (PARENT_DRR_BLOCKED,
                                   pool_upd ai (\<lambda>_. agg_stats_upd thread (st_drr_blocked_inc \<circ> st_unshaped adj_len)
                                     (agg\<lparr>ag_shaper_time := ag_shaper_time agg - cost_ns\<rparr>)) aggs)
                                 else (let (pvt, pok) = cake_shaper_gate_take (ag_shaper_time parent)
                                             (cake_cost_ns adj_len (ag_rate_scaled parent)) now_ns
                                             (ucast (ag_burst_ns parent)) []
                                       in if \<not> pok
                                          then (let agg = (if reserved = DRR_ADMIT
                                                      then agg\<lparr>ag_drr := cake_drr_shared_refund (ag_drr agg) adj_len\<rparr>
                                                      else agg);
                                                    agg = agg_stats_upd thread (st_unshaped adj_len)
                                                      (agg\<lparr>ag_shaper_time := ag_shaper_time agg - cost_ns\<rparr>)
                                                in (PARENT_GATE_CLOSED,
                                                    pool_upd (ag_parent agg) (agg_stats_upd thread st_parent_blocked_inc)
                                                      (pool_upd ai (\<lambda>_. agg) aggs)))
                                          else (PARENT_OK,
                                                pool_upd (ag_parent agg)
                                                  (\<lambda>_. agg_stats_upd thread (st_shaped adj_len)
                                                         (parent\<lparr>ag_shaper_time := pvt\<rparr>))
                                                  (pool_upd ai (\<lambda>_. agg) aggs)))))))))"

definition cake_agg_stats_sum :: "cake_aggregate \<Rightarrow> cake_agg_stats" where
  "cake_agg_stats_sum agg =
     fold (\<lambda>st s. \<lparr>st_shaped_pkts = st_shaped_pkts s + st_shaped_pkts st,
                    st_shaped_bytes = st_shaped_bytes s + st_shaped_bytes st,
                    st_backpressure = st_backpressure s + st_backpressure st,
                    st_drr_blocked = st_drr_blocked s + st_drr_blocked st,
                    st_parent_blocked = st_parent_blocked s + st_parent_blocked st\<rparr>)
       (ag_stats agg) cake_agg_stats_zero"

section \<open>Well-formed aggregate pools\<close>

text \<open>
  Two tiers: an aggregate's parent, if it has one, is live and has none.  The index ~0 is no slot.
\<close>

definition agg_par :: "cake_aggregate pool \<Rightarrow> u32 \<Rightarrow> u32 option" where
  "agg_par aggs i = map_option ag_parent (pool_at aggs i)"

definition aggs_wf :: "cake_aggregate pool \<Rightarrow> bool" where
  "aggs_wf aggs \<longleftrightarrow> pool_small aggs \<and> agg_par aggs nil32 = None \<and>
     (\<forall>i q. agg_par aggs i = Some q \<longrightarrow> q \<noteq> nil32 \<longrightarrow> agg_par aggs q = Some nil32)"

definition agg_ref :: "cake_aggregate pool \<Rightarrow> u32 \<Rightarrow> bool" where
  "agg_ref aggs i \<longleftrightarrow> i = nil32 \<or> agg_par aggs i \<noteq> None"

text \<open>The aggregates a packet of a scheduler attached at \<open>i\<close> is charged to.\<close>

definition agg_above :: "cake_aggregate pool \<Rightarrow> u32 \<Rightarrow> u32 set" where
  "agg_above aggs i = (case agg_par aggs i of None \<Rightarrow> {}
     | Some q \<Rightarrow> if q = nil32 then {i} else {i, q})"

lemma agg_par_Some: "pool_at aggs i = Some a \<Longrightarrow> agg_par aggs i = Some (ag_parent a)"
  by (simp add: agg_par_def)

lemma agg_ref_cases:
  assumes "agg_ref aggs i" and "i \<noteq> nil32"
  obtains a where "pool_at aggs i = Some a"
  using assms by (auto simp: agg_ref_def agg_par_def)

lemma aggs_wf_parent:
  assumes "aggs_wf aggs" and "pool_at aggs i = Some a" and "ag_parent a \<noteq> nil32"
  obtains p where "pool_at aggs (ag_parent a) = Some p" and "ag_parent p = nil32" and "ag_parent a \<noteq> i"
proof -
  have "agg_par aggs (ag_parent a) = Some nil32"
    using assms agg_par_Some [OF assms(2)] unfolding aggs_wf_def by blast
  then obtain p where "pool_at aggs (ag_parent a) = Some p" "ag_parent p = nil32"
    by (auto simp: agg_par_def)
  moreover from this have "ag_parent a \<noteq> i" using assms by auto
  ultimately show thesis using that by blast
qed

lemma aggs_wf_nil [simp]: "aggs_wf aggs \<Longrightarrow> pool_at aggs nil32 = None"
  by (simp add: aggs_wf_def agg_par_def)

lemma aggs_wf_small: "aggs_wf aggs \<Longrightarrow> pool_small aggs"
  by (simp add: aggs_wf_def)

lemma agg_above_nil [simp]: "aggs_wf aggs \<Longrightarrow> agg_above aggs nil32 = {}"
  by (simp add: agg_above_def agg_par_def)

lemma agg_above_live: "aggs_wf aggs \<Longrightarrow> j \<in> agg_above aggs i \<Longrightarrow> agg_par aggs j \<noteq> None"
  by (auto simp: agg_above_def aggs_wf_def split: option.splits if_splits)

text \<open>Operations that keep the shape of the tree.\<close>

definition same_shape :: "cake_aggregate pool \<Rightarrow> cake_aggregate pool \<Rightarrow> bool" where
  "same_shape aggs aggs' \<longleftrightarrow> length aggs' = length aggs \<and> agg_par aggs' = agg_par aggs"

lemma same_shape_refl [simp, intro]: "same_shape aggs aggs"
  by (simp add: same_shape_def)

lemma same_shape_trans: "same_shape a b \<Longrightarrow> same_shape b c \<Longrightarrow> same_shape a c"
  by (simp add: same_shape_def)

lemma agg_par_upd:
  "(\<And>a. pool_at aggs i = Some a \<Longrightarrow> ag_parent (f a) = ag_parent a) \<Longrightarrow> agg_par (pool_upd i f aggs) = agg_par aggs"
  by (rule ext) (auto simp: agg_par_def pool_at_upd option.map_comp intro!: option.map_cong)

lemma same_shape_upd:
  "(\<And>a. pool_at aggs i = Some a \<Longrightarrow> ag_parent (f a) = ag_parent a) \<Longrightarrow> same_shape aggs (pool_upd i f aggs)"
  by (simp add: same_shape_def agg_par_upd)

lemma same_shape_facts:
  assumes "same_shape aggs aggs'"
  shows "agg_above aggs' = agg_above aggs" "agg_ref aggs' = agg_ref aggs" "aggs_wf aggs' = aggs_wf aggs"
  using assms
  by (auto simp: same_shape_def agg_above_def agg_ref_def aggs_wf_def pool_small_def fun_eq_iff)

section \<open>Buffer charges along the chain\<close>

definition charge :: "u32 \<Rightarrow> cake_aggregate \<Rightarrow> cake_aggregate" where
  "charge n a = a\<lparr>ag_buffer_usage := ag_buffer_usage a + n\<rparr>"

lemma discharge_upd:
  "(\<lambda>a. a\<lparr>ag_buffer_usage := cake_agg_release (ag_buffer_usage a) n\<rparr>) = charge (- n)"
  by (rule ext) (simp add: charge_def cake_agg_release_def)

lemma charge_simps [simp]: "ag_parent (charge n a) = ag_parent a"
  "ag_buffer_usage (charge n a) = ag_buffer_usage a + n"
  by (simp_all add: charge_def)

text \<open>A discharge releases at every tier of the chain and nowhere else.\<close>

lemma discharge_at:
  assumes "aggs_wf aggs" and "agg_ref aggs (cs_agg cs)"
  shows "pool_at (cake_agg_discharge aggs cs n) i =
    (if i \<in> agg_above aggs (cs_agg cs) then map_option (charge (- n)) (pool_at aggs i) else pool_at aggs i)"
proof (cases "cs_agg cs = nil32")
  case True
  then show ?thesis using assms by (simp add: cake_agg_discharge_def)
next
  case False
  then obtain a where a: "pool_at aggs (cs_agg cs) = Some a" using assms(2) agg_ref_cases by blast
  then have len: "0 < length aggs" by (auto simp: pool_at_def split: if_splits)
  show ?thesis
  proof (cases "ag_parent a = nil32")
    case True
    then show ?thesis
      using a False len by (cases "length aggs")
        (simp_all add: cake_agg_discharge_def agg_above_def agg_par_def discharge_upd pool_at_upd)
  next
    case sub: False
    then obtain p where p: "pool_at aggs (ag_parent a) = Some p" "ag_parent p = nil32"
      "ag_parent a \<noteq> cs_agg cs"
      using aggs_wf_parent [OF assms(1) a] by blast
    then have "unat (ag_parent a) < length aggs" "unat (cs_agg cs) < length aggs"
      "unat (ag_parent a) \<noteq> unat (cs_agg cs)"
      using a by (auto simp: pool_at_def word_unat_eq_iff split: if_splits)
    then obtain m where "length aggs = Suc (Suc m)"
      by (metis less_Suc0 less_imp_Suc_add add_Suc_right not_less_eq Suc_less_eq old.nat.exhaust not_less0)
    with a p False sub show ?thesis
      by (simp add: cake_agg_discharge_def agg_above_def agg_par_def discharge_upd pool_at_upd)
  qed
qed

lemma pool_upd_const: "pool_at p i = Some x \<Longrightarrow> pool_upd i (\<lambda>_. f x) p = pool_upd i f p"
  by (auto simp: pool_upd_def pool_at_def split: if_splits)

lemma pool_upd_comp: "pool_upd i g (pool_upd i f p) = pool_upd i (g \<circ> f) p"
  by (auto simp: pool_upd_def option.map_comp)

lemma pool_upd_id: "(\<And>x. pool_at p i = Some x \<Longrightarrow> f x = x) \<Longrightarrow> pool_upd i f p = p"
  by (cases "pool_at p i")
    (auto simp: pool_upd_def pool_at_def list_update_id split: if_splits intro!: list_update_same_conv [THEN iffD2])

lemma admit_level:
  assumes "agg_admit_level a n = (ok, a')"
  shows "if ok then a' = charge n a \<and> ag_buffer_usage a' \<le> ag_buffer_limit a else a' = a"
  using assms
  by (auto simp: agg_admit_level_def cake_agg_admit_def cake_agg_admit_add_def cake_agg_admit_over_def
      charge_def not_less Let_def split: if_splits)

text \<open>Equal up to the counters.\<close>

definition no_stats :: "cake_aggregate \<Rightarrow> cake_aggregate" where
  "no_stats a = a\<lparr>ag_stats := []\<rparr>"

lemma no_stats_upd [simp]: "no_stats (agg_stats_upd thread f a) = no_stats a"
  by (simp add: no_stats_def agg_stats_upd_def)

lemma agg_stats_upd_simps [simp]:
  "ag_parent (agg_stats_upd thread f a) = ag_parent a"
  "ag_buffer_usage (agg_stats_upd thread f a) = ag_buffer_usage a"
  "ag_buffer_limit (agg_stats_upd thread f a) = ag_buffer_limit a"
  "ag_shaper_time (agg_stats_upd thread f a) = ag_shaper_time a"
  "ag_drr (agg_stats_upd thread f a) = ag_drr a"
  "ag_active_weight (agg_stats_upd thread f a) = ag_active_weight a"
  "ag_n_active (agg_stats_upd thread f a) = ag_n_active a"
  by (simp_all add: agg_stats_upd_def)

definition same_but_stats :: "cake_aggregate pool \<Rightarrow> cake_aggregate pool \<Rightarrow> bool" where
  "same_but_stats aggs aggs' \<longleftrightarrow> length aggs' = length aggs \<and>
     (\<forall>i. map_option no_stats (pool_at aggs' i) = map_option no_stats (pool_at aggs i))"

lemma same_but_stats_upd:
  "(\<And>a. pool_at aggs i = Some a \<Longrightarrow> no_stats (f a) = no_stats a) \<Longrightarrow> same_but_stats aggs (pool_upd i f aggs)"
  by (auto simp: same_but_stats_def pool_at_upd option.map_comp intro!: option.map_cong)

lemma same_but_stats_refl [simp]: "same_but_stats aggs aggs"
  by (simp add: same_but_stats_def)

lemma same_but_stats_shape: "same_but_stats aggs aggs' \<Longrightarrow> same_shape aggs aggs'"
proof -
  assume *: "same_but_stats aggs aggs'"
  have "map_option ag_parent x = map_option ag_parent (map_option no_stats x)" for x
    by (cases x) (simp_all add: no_stats_def)
  with * show ?thesis by (simp add: same_but_stats_def same_shape_def agg_par_def fun_eq_iff) metis
qed

text \<open>All tiers of a chain charged by \<open>n\<close>.\<close>

definition charged :: "u32 set \<Rightarrow> u32 \<Rightarrow> cake_aggregate pool \<Rightarrow> cake_aggregate pool \<Rightarrow> bool" where
  "charged A n aggs aggs' \<longleftrightarrow> length aggs' = length aggs \<and>
     (\<forall>i. pool_at aggs' i = (if i \<in> A then map_option (charge n) (pool_at aggs i) else pool_at aggs i))"

lemma charged_shape: "charged A n aggs aggs' \<Longrightarrow> same_shape aggs aggs'"
  by (auto simp: charged_def same_shape_def agg_par_def fun_eq_iff option.map_comp intro!: option.map_cong)

lemma length_discharge_loop: "length (cake_agg_discharge_loop k aggs i n) = length aggs"
  by (induction k aggs i n rule: cake_agg_discharge_loop.induct) (auto split: option.split)

lemma length_discharge [simp]: "length (cake_agg_discharge aggs cs n) = length aggs"
  by (simp only: cake_agg_discharge_def length_discharge_loop)

lemma discharge_charged:
  assumes "aggs_wf aggs" and "agg_ref aggs (cs_agg cs)"
  shows "charged (agg_above aggs (cs_agg cs)) (- n) aggs (cake_agg_discharge aggs cs n)"
  using discharge_at [OF assms] by (simp add: charged_def)

text \<open>
  Admission charges every tier, none of them past its limit, or changes nothing but a counter.
\<close>

lemma admit_chain:
  assumes wf: "aggs_wf aggs" and "agg_ref aggs (cs_agg cs)"
    and adm: "cake_agg_admit_chain aggs cs n thread = (ok, aggs')"
  shows "if ok then charged (agg_above aggs (cs_agg cs)) n aggs aggs' \<and>
      (\<forall>i a. i \<in> agg_above aggs (cs_agg cs) \<longrightarrow> pool_at aggs' i = Some a \<longrightarrow>
         ag_buffer_usage a \<le> ag_buffer_limit a)
    else same_but_stats aggs aggs'"
proof (cases "cs_agg cs = nil32")
  case True
  then show ?thesis using wf adm by (auto simp: cake_agg_admit_chain_def charged_def)
next
  case False
  then obtain a where a: "pool_at aggs (cs_agg cs) = Some a" using assms(2) agg_ref_cases by blast
  obtain ok1 a1 where l1: "agg_admit_level a n = (ok1, a1)" by fastforce
  note l1' = admit_level [OF l1]
  show ?thesis
  proof (cases ok1)
    case no: False
    with l1' a False adm l1 show ?thesis
      by (auto simp: cake_agg_admit_chain_def intro!: same_but_stats_upd)
  next
    case ok1: True
    with l1' have a1: "a1 = charge n a" "ag_buffer_usage a1 \<le> ag_buffer_limit a" by auto
    show ?thesis
    proof (cases "ag_parent a = nil32")
      case True
      with a1 a False adm l1 ok1 show ?thesis
        by (auto simp: cake_agg_admit_chain_def charged_def agg_above_def agg_par_def pool_at_upd charge_def)
    next
      case sub: False
      then obtain p where p: "pool_at aggs (ag_parent a) = Some p" "ag_parent p = nil32"
        "ag_parent a \<noteq> cs_agg cs"
        using aggs_wf_parent [OF wf a] by blast
      obtain ok2 p1 where l2: "agg_admit_level p n = (ok2, p1)" by fastforce
      note l2' = admit_level [OF l2]
      have above: "agg_above aggs (cs_agg cs) = {cs_agg cs, ag_parent a}"
        using a sub by (simp add: agg_above_def agg_par_def)
      show ?thesis
      proof (cases ok2)
        case True
        with l2' have p1: "p1 = charge n p" "ag_buffer_usage p1 \<le> ag_buffer_limit p" by auto
        have l1a: "agg_admit_level a n = (True, charge n a)" and l2a: "agg_admit_level p n = (True, charge n p)"
          using l1 l2 ok1 True a1 p1 by simp_all
        have "cake_agg_admit_chain aggs cs n thread = (True, pool_upd (ag_parent a) (\<lambda>_. charge n p)
            (pool_upd (cs_agg cs) (\<lambda>_. charge n a) aggs))"
          by (simp add: cake_agg_admit_chain_def a False l1a sub pool_at_upd p(1,3) l2a Let_def)
        then have "ok = True" and eq: "aggs' = pool_upd (ag_parent a) (\<lambda>_. charge n p)
            (pool_upd (cs_agg cs) (\<lambda>_. charge n a) aggs)"
          using adm by simp_all
        moreover have "charged {cs_agg cs, ag_parent a} n aggs aggs'"
          using p a by (simp add: charged_def eq pool_at_upd)
        moreover have "ag_buffer_usage b \<le> ag_buffer_limit b"
          if "i \<in> {cs_agg cs, ag_parent a}" "pool_at aggs' i = Some b" for i b
          using that p a a1(2) p1(2) by (auto simp: eq pool_at_upd a1(1) p1(1) charge_def split: if_splits)
        ultimately show ?thesis unfolding above by simp
      next
        case no: False
        have un: "a1\<lparr>ag_buffer_usage := cake_agg_release (ag_buffer_usage a1) n\<rparr> = a"
          by (simp add: a1 charge_def cake_agg_release_def)
        have l1a: "agg_admit_level a n = (True, a1)" and l2a: "agg_admit_level p n = (False, p)"
          using l1 l2 ok1 no l2' by simp_all
        have par: "ag_parent a1 = ag_parent a" by (simp add: a1)
        have "cake_agg_admit_chain aggs cs n thread = (False, pool_upd (ag_parent a)
          (\<lambda>_. agg_stats_upd thread st_backpressure_inc p)
          (pool_upd (cs_agg cs) (\<lambda>a. a\<lparr>ag_buffer_usage := cake_agg_release (ag_buffer_usage a) n\<rparr>)
            (pool_upd (cs_agg cs) (\<lambda>_. a1) aggs)))"
          by (simp add: cake_agg_admit_chain_def a False l1a par sub pool_at_upd p(1,3) l2a Let_def)
        then have "ok = False" and eq: "aggs' = pool_upd (ag_parent a)
          (\<lambda>_. agg_stats_upd thread st_backpressure_inc p)
          (pool_upd (cs_agg cs) (\<lambda>a. a\<lparr>ag_buffer_usage := cake_agg_release (ag_buffer_usage a) n\<rparr>)
            (pool_upd (cs_agg cs) (\<lambda>_. a1) aggs))"
          using adm by simp_all
        moreover have "same_but_stats aggs aggs'"
          unfolding same_but_stats_def eq pool_at_upd using a p un by auto
        ultimately show ?thesis by simp
      qed
    qed
  qed
qed

section \<open>The gates of the chain\<close>

text \<open>A reservation given back leaves the refill it made, and no charge.\<close>

lemma refund_view:
  assumes "uint rb < 2 ^ 30" and "uint len < 2147481600"
    and "cake_drr_shared_reserve c rb aw vt len now [] = (r, c')"
  shows "shared_view (if r = DRR_ADMIT then cake_drr_shared_refund c' len else c')
    = snd (cake_drr_local_admit (shared_view c) rb aw vt now)"
proof -
  define a where "a = \<lparr>try_now = now, try_round_bytes = rb, try_active_weight = aw,
    try_parent_time = vt, try_len = len, try_gates = False\<rparr>"
  have "try_ok a" using assms(1,2) by (simp add: try_ok_def a_def)
  from shared_serve_view(2) [OF this, of c] assms(3) show ?thesis
    by (simp add: a_def shared_serve_def local_serve_def case_prod_beta split: if_splits)
qed

text \<open>A cost given back leaves at most the cap on idle credit that the gate applied.\<close>

lemma gate_refund:
  assumes "uint now + uint cost < 2 ^ 64" and "cake_shaper_gate_take v cost now burst [] = (v', True)"
  shows "uint (v' - cost) = max (uint v) (uint now - uint burst)"
proof -
  have le: "uint v \<le> uint now" and v': "uint v' = max (uint v) (uint now - uint burst) + uint cost"
    using gate_take_view [OF assms(1), of v burst] assms(2) by (auto split: if_splits)
  have "uint cost \<le> uint v'" using uint_ge_0 [of v] unfolding v' by linarith
  then show ?thesis by (simp only: uint_sub_exact v')
qed

lemma agg_stats_upd_nth:
  "map g (ag_stats (agg_stats_upd thread f a)) =
    (if thread < length (ag_stats a) then (map g (ag_stats a))[thread := g (f (ag_stats a ! thread))]
     else map g (ag_stats a))"
  by (simp add: agg_stats_upd_def map_update)

text \<open>
  What a packet refused by its gates may leave behind in an aggregate: a virtual time brought up to
  the cap on idle credit, and the refill of its share.
\<close>

definition gate_residue :: "cake_aggregate pool \<Rightarrow> u64 \<Rightarrow> cake_aggregate \<Rightarrow> cake_aggregate \<Rightarrow> bool" where
  "gate_residue aggs now a a' \<longleftrightarrow>
     ag_buffer_usage a' = ag_buffer_usage a \<and> ag_active_weight a' = ag_active_weight a \<and>
     ag_n_active a' = ag_n_active a \<and> ag_parent a' = ag_parent a \<and>
     map st_shaped_pkts (ag_stats a') = map st_shaped_pkts (ag_stats a) \<and>
     map st_shaped_bytes (ag_stats a') = map st_shaped_bytes (ag_stats a) \<and>
     (uint (ag_shaper_time a') = uint (ag_shaper_time a) \<or>
      uint (ag_shaper_time a') = max (uint (ag_shaper_time a)) (uint now - uint (ag_burst_ns a))) \<and>
     (shared_view (ag_drr a') = shared_view (ag_drr a) \<or>
      (\<exists>p. pool_at aggs (ag_parent a) = Some p \<and>
        shared_view (ag_drr a') = snd (cake_drr_local_admit (shared_view (ag_drr a)) (ag_round_bytes p)
          (ag_active_weight p) (ag_shaper_time p) now)))"

lemma gate_residue_refl: "gate_residue aggs now a a"
  by (simp add: gate_residue_def)

lemma gate_residue_blocked:
  "gate_residue aggs now a (agg_stats_upd thread st_parent_blocked_inc a)"
  by (auto simp: gate_residue_def agg_stats_upd_def st_parent_blocked_inc_def map_update
      intro!: list_update_same_conv [THEN iffD2] list_update_id)

lemma gate_residue_upd:
  assumes "\<And>a. pool_at aggs i = Some a \<Longrightarrow> gate_residue aggs now a (f a)"
  shows "rel_option (gate_residue aggs now) (pool_at aggs j) (pool_at (pool_upd i f aggs) j)"
  using assms by (cases "pool_at aggs j") (auto simp: pool_at_upd gate_residue_refl)

lemma unshaped_stats:
  fixes a :: cake_aggregate
  assumes "\<And>st. st_shaped_pkts (g st) = st_shaped_pkts st - 1 \<and> st_shaped_bytes (g st) = st_shaped_bytes st - ucast len"
    and "ag_stats b = ag_stats (agg_stats_upd thread (st_shaped len) a)"
  shows "map st_shaped_pkts (ag_stats (agg_stats_upd thread g b)) = map st_shaped_pkts (ag_stats a) \<and>
    map st_shaped_bytes (ag_stats (agg_stats_upd thread g b)) = map st_shaped_bytes (ag_stats a)"
  using assms by (cases "thread < length (ag_stats a)")
    (auto simp: agg_stats_upd_def st_shaped_def map_update nth_list_update intro!: nth_equalityI)

lemma gate_unwound:
  assumes take: "cake_shaper_gate_take (ag_shaper_time a) cost now (ucast (ag_burst_ns a)) [] = (vt, True)"
    and now: "uint now + uint cost < 2 ^ 64"
    and p: "pool_at aggs (ag_parent a) = Some p"
    and rb: "uint (ag_round_bytes p) < 2 ^ 30" and len: "uint len < 2147481600"
    and res: "cake_drr_shared_reserve (ag_drr a) (ag_round_bytes p) (ag_active_weight p)
      (ag_shaper_time p) len now [] = (r, d)"
    and drr: "ag_drr b = (if r = DRR_ADMIT then cake_drr_shared_refund d len else d)"
    and b: "no_stats b = (no_stats a)\<lparr>ag_shaper_time := vt - cost, ag_drr := ag_drr b\<rparr>"
    and st: "ag_stats b = ag_stats (agg_stats_upd thread (st_shaped len) a)"
    and g: "\<And>st. st_shaped_pkts (g st) = st_shaped_pkts st - 1 \<and> st_shaped_bytes (g st) = st_shaped_bytes st - ucast len"
  shows "gate_residue aggs now a (agg_stats_upd thread g b)"
proof -
  have f: "ag_buffer_usage b = ag_buffer_usage a" "ag_active_weight b = ag_active_weight a"
    "ag_n_active b = ag_n_active a" "ag_parent b = ag_parent a" "ag_shaper_time b = vt - cost"
    using arg_cong [OF b, of ag_buffer_usage] arg_cong [OF b, of ag_active_weight]
      arg_cong [OF b, of ag_n_active] arg_cong [OF b, of ag_parent] arg_cong [OF b, of ag_shaper_time]
    by (simp_all add: no_stats_def)
  have "uint (ag_shaper_time b) = max (uint (ag_shaper_time a)) (uint now - uint (ag_burst_ns a))"
    using gate_refund [OF now take] by (simp add: f uint_ucast_up)
  moreover have "shared_view (ag_drr b) = snd (cake_drr_local_admit (shared_view (ag_drr a))
      (ag_round_bytes p) (ag_active_weight p) (ag_shaper_time p) now)"
    unfolding drr by (rule refund_view [OF rb len res])
  ultimately show ?thesis
    using f p unshaped_stats [OF g st] by (auto simp: gate_residue_def)
qed

lemma gate_refused:
  assumes wf: "aggs_wf aggs" and ref: "agg_ref aggs (cs_agg cs)"
    and gate: "cake_agg_dequeue_gate aggs cs len now thread = (r, aggs')" and r: "r \<noteq> PARENT_OK"
    and now: "\<And>a. pool_at aggs (cs_agg cs) = Some a \<Longrightarrow>
      uint now + uint (cake_cost_ns len (ag_rate_scaled a)) < 2 ^ 64"
    and rb: "\<And>i p. pool_at aggs i = Some p \<Longrightarrow> uint (ag_round_bytes p) < 2 ^ 30"
    and len: "uint len < 2147481600"
  shows "rel_option (gate_residue aggs now) (pool_at aggs i) (pool_at aggs' i)"
proof -
  let ?i = "cs_agg cs"
  have i: "?i \<noteq> nil32" using gate r by (auto simp: cake_agg_dequeue_gate_def)
  then obtain a where a: "pool_at aggs ?i = Some a" using ref agg_ref_cases by blast
  define cost where "cost = cake_cost_ns len (ag_rate_scaled a)"
  obtain vt ok where take: "cake_shaper_gate_take (ag_shaper_time a) cost now (ucast (ag_burst_ns a)) [] = (vt, ok)"
    by fastforce
  note take' = take [unfolded cost_def]
  show ?thesis
  proof (cases ok)
    case False
    then have "aggs' = pool_upd ?i (agg_stats_upd thread st_parent_blocked_inc) aggs"
      using gate i a take' by (simp add: cake_agg_dequeue_gate_def Let_def)
    then show ?thesis by (simp add: gate_residue_upd gate_residue_blocked)
  next
    case ok: True
    define a1 where "a1 = agg_stats_upd thread (st_shaped len) (a\<lparr>ag_shaper_time := vt\<rparr>)"
    have sub: "ag_parent a \<noteq> nil32"
      using gate i a take' ok r by (auto simp: cake_agg_dequeue_gate_def Let_def)
    then obtain p where p: "pool_at aggs (ag_parent a) = Some p" "ag_parent a \<noteq> ?i"
      using aggs_wf_parent [OF wf a] by blast
    obtain rv d where res: "cake_drr_shared_reserve (ag_drr a) (ag_round_bytes p) (ag_active_weight p)
        (ag_shaper_time p) len now [] = (rv, d)" by fastforce
    have shape: "ag_parent a1 = ag_parent a" "ag_drr a1 = ag_drr a" "ag_shaper_time a1 = vt"
      by (simp_all add: a1_def)
    have takeT: "cake_shaper_gate_take (ag_shaper_time a) cost now (ucast (ag_burst_ns a)) [] = (vt, True)"
      using take ok by simp
    note unwound = gate_unwound [OF takeT now [OF a, folded cost_def] p(1) rb [OF p(1)] len res]
    show ?thesis
    proof (cases "rv = DRR_BLOCKED")
      case True
      define b where "b = a1\<lparr>ag_drr := d, ag_shaper_time := vt - cost\<rparr>"
      have "aggs' = pool_upd ?i (\<lambda>_. agg_stats_upd thread (st_drr_blocked_inc \<circ> st_unshaped len) b) aggs"
        using gate i a take' ok p res sub True
        by (simp add: cake_agg_dequeue_gate_def Let_def a1_def [symmetric] shape b_def cost_def)
      moreover have "gate_residue aggs now a (agg_stats_upd thread (st_drr_blocked_inc \<circ> st_unshaped len) b)"
        by (rule unwound) (simp_all add: True b_def a1_def no_stats_def agg_stats_upd_def
            st_drr_blocked_inc_def st_unshaped_def)
      ultimately show ?thesis
        using a by (cases "pool_at aggs i") (auto simp: pool_at_upd gate_residue_refl)
    next
      case False
      define b where "b = (if rv = DRR_ADMIT then (a1\<lparr>ag_drr := d\<rparr>)\<lparr>ag_drr := cake_drr_shared_refund d len\<rparr>
        else a1\<lparr>ag_drr := d\<rparr>)\<lparr>ag_shaper_time := vt - cost\<rparr>"
      have bp: "ag_parent b = ag_parent a" by (simp add: b_def shape)
      have "aggs' = pool_upd (ag_parent a) (agg_stats_upd thread st_parent_blocked_inc)
          (pool_upd ?i (\<lambda>_. agg_stats_upd thread (st_unshaped len) b) aggs)"
        using gate i a take' ok p res sub False r
        by (auto simp: cake_agg_dequeue_gate_def Let_def a1_def [symmetric] shape b_def cost_def
            split: prod.splits if_splits)
      moreover have "gate_residue aggs now a (agg_stats_upd thread (st_unshaped len) b)"
        by (rule unwound) (simp_all add: b_def a1_def no_stats_def agg_stats_upd_def st_unshaped_def)
      ultimately show ?thesis
        using a p by (cases "pool_at aggs i") (auto simp: pool_at_upd gate_residue_refl gate_residue_blocked)
    qed
  qed
qed

section \<open>The weights of active children\<close>

text \<open>
  What a child aggregate contributes to its parent while it has an active child of its own, and
  the two counters of every aggregate in terms of the schedulers' direct contributions \<open>W\<close> and
  \<open>N\<close>.
\<close>

definition sub_weight :: "u32 \<Rightarrow> cake_aggregate \<Rightarrow> u64" where
  "sub_weight i k = (if ag_parent k = i \<and> ag_n_active k \<noteq> 0 then sc_weight (ag_drr k) else 0)"

definition sub_count :: "u32 \<Rightarrow> cake_aggregate \<Rightarrow> nat" where
  "sub_count i k = (if ag_parent k = i \<and> ag_n_active k \<noteq> 0 then 1 else 0)"

definition weights_ok :: "cake_aggregate pool \<Rightarrow> (u32 \<Rightarrow> u64) \<Rightarrow> (u32 \<Rightarrow> nat) \<Rightarrow> bool" where
  "weights_ok aggs W N \<longleftrightarrow> (\<forall>i a. pool_at aggs i = Some a \<longrightarrow>
     ag_active_weight a = W i + pool_sum (sub_weight i) aggs \<and>
     unat (ag_n_active a) = N i + pool_sum (sub_count i) aggs)"

lemma sub_count_le: "sub_count i k \<le> 1"
  by (simp add: sub_count_def)

lemma join_simps [simp]:
  "ag_parent (agg_join w a) = ag_parent a" "ag_drr (agg_join w a) = ag_drr a"
  "ag_active_weight (agg_join w a) = ag_active_weight a + w"
  "ag_n_active (agg_join w a) = ag_n_active a + 1"
  "ag_buffer_usage (agg_join w a) = ag_buffer_usage a"
  "ag_buffer_limit (agg_join w a) = ag_buffer_limit a"
  by (simp_all add: agg_join_def cake_drr_parent_join_def)

lemma leave_simps [simp]:
  "ag_parent (agg_leave w a) = ag_parent a" "ag_drr (agg_leave w a) = ag_drr a"
  "ag_active_weight (agg_leave w a) = ag_active_weight a - w"
  "ag_n_active (agg_leave w a) = ag_n_active a - 1"
  "ag_buffer_usage (agg_leave w a) = ag_buffer_usage a"
  "ag_buffer_limit (agg_leave w a) = ag_buffer_limit a"
  by (simp_all add: agg_leave_def cake_drr_parent_leave_def)

text \<open>An aggregate with no parent contributes to none.\<close>

lemma sub_root:
  assumes "aggs_wf aggs" and "pool_at aggs i \<noteq> None" and "ag_parent k = nil32"
  shows "sub_weight i k = 0" "sub_count i k = 0"
  using assms by (auto simp: sub_weight_def sub_count_def)

lemma unat_inc: "Suc (unat (n :: u32)) < 2 ^ 32 \<Longrightarrow> unat (n + 1) = Suc (unat n) \<and> n + 1 \<noteq> 0"
proof -
  assume "Suc (unat n) < 2 ^ 32"
  then have "unat (n + 1) = unat n + unat (1 :: u32)" by (intro unat_add_exact) simp
  then have "unat (n + 1) = Suc (unat n)" by simp
  moreover from this have "n + 1 \<noteq> 0" by (metis nat.distinct(1) unat_0)
  ultimately show ?thesis by blast
qed

lemma unat_dec: "0 < unat (n :: u32) \<Longrightarrow> unat (n - 1) = unat n - 1"
  by (simp add: unat_minus_one unat_gt_0)

lemma weights_join:
  assumes ok: "weights_ok aggs W N" and wf: "aggs_wf aggs" and a: "pool_at aggs i = Some a"
    and bound: "\<And>j. N j + length aggs < 2 ^ 32 - 1"
  shows "weights_ok (cake_agg_weight_add aggs i w) (W(i := W i + w)) (N(i := Suc (N i)))"
proof -
  have i: "i \<noteq> nil32" using wf a by auto
  have cnt: "Suc (unat (ag_n_active b)) < 2 ^ 32" if "pool_at aggs j = Some b" for j b
  proof -
    have "unat (ag_n_active b) = N j + pool_sum (sub_count j) aggs"
      using ok that by (simp add: weights_ok_def)
    also have "\<dots> \<le> N j + length aggs" using pool_sum_le_length [OF sub_count_le] by simp
    finally show ?thesis using bound [of j] by simp
  qed
  note inc = unat_inc [OF cnt]
  let ?aggs1 = "pool_upd i (agg_join w) aggs"
  show ?thesis
  proof (cases "ag_n_active a = 0 \<and> ag_parent a \<noteq> nil32")
    case False
    then have res: "cake_agg_weight_add aggs i w = ?aggs1"
      using i a by (auto simp: cake_agg_weight_add_def cake_drr_parent_join_def)
    have same: "sub_weight j (agg_join w a) = sub_weight j a" "sub_count j (agg_join w a) = sub_count j a"
      if "pool_at aggs j \<noteq> None" for j
      using False inc [OF a] that aggs_wf_nil [OF wf] by (auto simp: sub_weight_def sub_count_def)
    have "pool_sum (sub_weight j) ?aggs1 = pool_sum (sub_weight j) aggs"
      "pool_sum (sub_count j) ?aggs1 = pool_sum (sub_count j) aggs" if "pool_at aggs j \<noteq> None" for j
      using same [OF that] a by (auto intro!: pool_sum_upd_same)
    then show ?thesis
      using ok inc [OF a] a unfolding res weights_ok_def by (auto simp: pool_at_upd)
  next
    case True
    then obtain p where p: "pool_at aggs (ag_parent a) = Some p" "ag_parent p = nil32" "ag_parent a \<noteq> i"
      using aggs_wf_parent [OF wf a] by blast
    let ?q = "ag_parent a" and ?s = "sc_weight (ag_drr a)"
    let ?aggs2 = "pool_upd ?q (agg_join ?s) ?aggs1"
    have res: "cake_agg_weight_add aggs i w = ?aggs2"
      using i a True by (simp add: cake_agg_weight_add_def cake_drr_parent_join_def)
    have p1: "pool_at ?aggs1 ?q = Some p" using p by (simp add: pool_at_upd)
    have "pool_sum (sub_weight j) ?aggs2 = pool_sum (sub_weight j) aggs + (if j = ?q then ?s else 0)"
      "pool_sum (sub_count j) ?aggs2 = pool_sum (sub_count j) aggs + (if j = ?q then 1 else 0)"
      if "pool_at aggs j \<noteq> None" for j
    proof -
      note root = sub_root [OF wf that]
      have "pool_sum (sub_weight j) ?aggs2 = pool_sum (sub_weight j) ?aggs1"
        "pool_sum (sub_count j) ?aggs2 = pool_sum (sub_count j) ?aggs1"
        using p(2) root p1 by (auto intro!: pool_sum_upd_same)
      then show "pool_sum (sub_weight j) ?aggs2 = pool_sum (sub_weight j) aggs + (if j = ?q then ?s else 0)"
        "pool_sum (sub_count j) ?aggs2 = pool_sum (sub_count j) aggs + (if j = ?q then 1 else 0)"
        using pool_sum_upd [OF a, of "sub_weight j" "agg_join w"] pool_sum_upd [OF a, of "sub_count j" "agg_join w"]
          True inc [OF a] by (auto simp: sub_weight_def sub_count_def)
    qed
    then show ?thesis
      using ok inc [OF a] inc [OF p(1)] a p unfolding res weights_ok_def by (auto simp: pool_at_upd)
  qed
qed

lemma weights_leave:
  assumes ok: "weights_ok aggs W N" and wf: "aggs_wf aggs" and a: "pool_at aggs i = Some a"
    and pos: "0 < N i"
  shows "weights_ok (cake_agg_weight_sub aggs i w) (W(i := W i - w)) (N(i := N i - 1))"
proof -
  have i: "i \<noteq> nil32" using wf a by auto
  have na: "unat (ag_n_active a) = N i + pool_sum (sub_count i) aggs" using ok a by (simp add: weights_ok_def)
  with pos have "0 < unat (ag_n_active a)" by simp
  note dec = unat_dec [OF this]
  have zero: "ag_n_active a - 1 = 0 \<longleftrightarrow> ag_n_active a = 1" by simp
  let ?aggs1 = "pool_upd i (agg_leave w) aggs"
  show ?thesis
  proof (cases "ag_n_active a = 1 \<and> ag_parent a \<noteq> nil32")
    case False
    then have res: "cake_agg_weight_sub aggs i w = ?aggs1"
      using i a by (auto simp: cake_agg_weight_sub_def cake_drr_parent_leave_def)
    have nz: "ag_n_active a \<noteq> 0" using \<open>0 < unat (ag_n_active a)\<close> by auto
    have same: "sub_weight j (agg_leave w a) = sub_weight j a" "sub_count j (agg_leave w a) = sub_count j a"
      if "pool_at aggs j \<noteq> None" for j
      using False nz that aggs_wf_nil [OF wf] by (auto simp: sub_weight_def sub_count_def)
    have "pool_sum (sub_weight j) ?aggs1 = pool_sum (sub_weight j) aggs"
      "pool_sum (sub_count j) ?aggs1 = pool_sum (sub_count j) aggs" if "pool_at aggs j \<noteq> None" for j
      using same [OF that] a by (auto intro!: pool_sum_upd_same)
    then show ?thesis
      using ok dec pos a unfolding res weights_ok_def by (auto simp: pool_at_upd)
  next
    case True
    then obtain p where p: "pool_at aggs (ag_parent a) = Some p" "ag_parent p = nil32" "ag_parent a \<noteq> i"
      using aggs_wf_parent [OF wf a] by blast
    let ?q = "ag_parent a" and ?s = "sc_weight (ag_drr a)"
    let ?aggs2 = "pool_upd ?q (agg_leave ?s) ?aggs1"
    have res: "cake_agg_weight_sub aggs i w = ?aggs2"
      using i a True by (simp add: cake_agg_weight_sub_def cake_drr_parent_leave_def)
    have p1: "pool_at ?aggs1 ?q = Some p" using p by (simp add: pool_at_upd)
    have sums: "pool_sum (sub_weight j) ?aggs2 + (if j = ?q then ?s else 0) = pool_sum (sub_weight j) aggs"
      "pool_sum (sub_count j) ?aggs2 + (if j = ?q then 1 else 0) = pool_sum (sub_count j) aggs"
      if "pool_at aggs j \<noteq> None" for j
    proof -
      note root = sub_root [OF wf that]
      have "pool_sum (sub_weight j) ?aggs2 = pool_sum (sub_weight j) ?aggs1"
        "pool_sum (sub_count j) ?aggs2 = pool_sum (sub_count j) ?aggs1"
        using p(2) root p1 by (auto intro!: pool_sum_upd_same)
      then show "pool_sum (sub_weight j) ?aggs2 + (if j = ?q then ?s else 0) = pool_sum (sub_weight j) aggs"
        "pool_sum (sub_count j) ?aggs2 + (if j = ?q then 1 else 0) = pool_sum (sub_count j) aggs"
        using pool_sum_upd [OF a, of "sub_weight j" "agg_leave w"] pool_sum_upd [OF a, of "sub_count j" "agg_leave w"]
          True by (auto simp: sub_weight_def sub_count_def)
    qed
    have np: "unat (ag_n_active p) = N ?q + pool_sum (sub_count ?q) aggs"
      and wp: "ag_active_weight p = W ?q + pool_sum (sub_weight ?q) aggs"
      using ok p(1) by (simp_all add: weights_ok_def)
    have pos': "0 < pool_sum (sub_count ?q) aggs"
      using sums(2) [of ?q] p(1) by simp
    then have decp: "unat (ag_n_active p - 1) = unat (ag_n_active p) - 1" by (intro unat_dec) (simp add: np)
    have "ag_active_weight b = (W(i := W i - w)) j + pool_sum (sub_weight j) ?aggs2 \<and>
        unat (ag_n_active b) = (N(i := N i - 1)) j + pool_sum (sub_count j) ?aggs2"
      if b: "pool_at ?aggs2 j = Some b" for j b
    proof -
      have live: "pool_at aggs j \<noteq> None" using b by (auto simp: pool_at_upd split: if_splits)
      note s = sums [OF live]
      consider "j = ?q" | "j = i" | "j \<noteq> ?q" "j \<noteq> i" by blast
      then show ?thesis
      proof cases
        case 1
        then show ?thesis using b p s decp np wp pos' by (auto simp: pool_at_upd algebra_simps)
      next
        case 2
        then show ?thesis using b p a s dec na pos ok by (auto simp: pool_at_upd weights_ok_def)
      next
        case 3
        then show ?thesis using b s ok by (auto simp: pool_at_upd weights_ok_def)
      qed
    qed
    then show ?thesis unfolding res weights_ok_def by blast
  qed
qed

section \<open>What a chain guarantees\<close>

text \<open>A test of well-formedness that evaluates.\<close>

lemma aggs_wfI:
  assumes "length aggs < 2 ^ 32"
    and "list_all (\<lambda>e. case e of None \<Rightarrow> True
      | Some a \<Rightarrow> ag_parent a = nil32 \<or> agg_par aggs (ag_parent a) = Some nil32) aggs"
  shows "aggs_wf aggs"
proof -
  have "agg_par aggs q = Some nil32" if p: "agg_par aggs i = Some q" "q \<noteq> nil32" for i q
  proof -
    from p obtain a where a: "pool_at aggs i = Some a" "ag_parent a = q" by (auto simp: agg_par_def)
    then have "Some a \<in> set aggs" by (auto simp: pool_at_def split: if_splits) (metis nth_mem)
    with assms(2) a p(2) show ?thesis by (fastforce simp: list_all_iff)
  qed
  with assms(1) show ?thesis by (auto simp: aggs_wf_def pool_small_def agg_par_def pool_at_def)
qed

text \<open>Charging and then releasing the same bytes restores the pool.\<close>

lemma pool_eqI:
  assumes "pool_small p" and "length q = length p" and "\<And>i. pool_at q i = pool_at p i"
  shows "q = p"
proof (rule nth_equalityI [OF assms(2)])
  fix n
  assume "n < length q"
  then have n: "n < length p" by (simp add: assms(2))
  have "pool_small q" using assms(1,2) by (simp add: pool_small_def)
  with pool_at_nth [OF assms(1) n] pool_at_nth [of q n] assms(2,3) n show "q ! n = p ! n" by simp
qed

lemma charge_cancel: "charge (- n) (charge n a) = a"
  by (simp add: charge_def)

lemma charged_cancel:
  assumes "pool_small aggs" and "charged A n aggs aggs'" and "charged A (- n) aggs' aggs''"
  shows "aggs'' = aggs"
  by (rule pool_eqI [OF assms(1)])
    (use assms(2,3) in \<open>auto simp: charged_def option.map_comp o_def charge_cancel option.map_ident\<close>)

text \<open>
  C20: An admission charges the packet to every tier above the scheduler and to nothing else, and no
  charged tier is left past its limit; when any tier refuses, all charges are taken back and only the
  counter of refusals has moved.
\<close>

theorem chain_admission_exact:
  assumes "aggs_wf aggs" and "agg_ref aggs (cs_agg cs)"
    and "cake_agg_admit_chain aggs cs n thread = (ok, aggs')"
  shows "if ok then charged (agg_above aggs (cs_agg cs)) n aggs aggs' \<and>
      (\<forall>i a. i \<in> agg_above aggs (cs_agg cs) \<longrightarrow> pool_at aggs' i = Some a \<longrightarrow>
         ag_buffer_usage a \<le> ag_buffer_limit a)
    else same_but_stats aggs aggs'"
  by (rule admit_chain [OF assms])

definition two_tiers :: "cake_aggregate pool" where
  "two_tiers =
    [Some (cake_aggregate_zero\<lparr>ag_buffer_limit := 3000, ag_rate_scaled := 42949672960, ag_burst_ns := 1000000, 
             ag_round_bytes := 500000, ag_active_weight := 1000000, ag_parent := nil32\<rparr>),
     Some (cake_aggregate_zero\<lparr>ag_index := 1, ag_buffer_limit := 2000, ag_rate_scaled := 42949672960,
             ag_burst_ns := 1000000, ag_parent := 0\<rparr>)]"

lemma two_tiers_wf: "aggs_wf two_tiers" "agg_ref two_tiers 1"
  by (auto intro!: aggs_wfI simp: two_tiers_def agg_par_def pool_at_def agg_ref_def)

theorem chain_admission_exact_witness:
  "fst (cake_agg_admit_chain two_tiers (cake_sched_zero\<lparr>cs_agg := 1\<rparr>) 1500 0) \<and>
   charged (agg_above two_tiers 1) 1500 two_tiers
     (snd (cake_agg_admit_chain two_tiers (cake_sched_zero\<lparr>cs_agg := 1\<rparr>) 1500 0))"
proof -
  let ?cs = "cake_sched_zero\<lparr>cs_agg := 1\<rparr>"
  have ok: "fst (cake_agg_admit_chain two_tiers ?cs 1500 0)"
    by (simp add: cake_agg_admit_chain_def two_tiers_def pool_at_def agg_admit_level_def cake_agg_admit_def
        cake_agg_admit_add_def cake_agg_admit_over_def pool_upd_def cake_aggregate_zero_def)
  then have adm: "cake_agg_admit_chain two_tiers ?cs 1500 0 = (True, snd (cake_agg_admit_chain two_tiers ?cs 1500 0))"
    by (metis prod.collapse)
  from chain_admission_exact [OF two_tiers_wf(1) _ adm] two_tiers_wf(2) ok show ?thesis by auto
qed

lemma admit_discharge:
  assumes wf: "aggs_wf aggs" and ref: "agg_ref aggs (cs_agg cs)"
    and adm: "cake_agg_admit_chain aggs cs n thread = (True, aggs')"
  shows "cake_agg_discharge aggs' cs n = aggs"
proof -
  have c: "charged (agg_above aggs (cs_agg cs)) n aggs aggs'" using admit_chain [OF wf ref adm] by simp
  note shape = same_shape_facts [OF charged_shape [OF c]]
  have "charged (agg_above aggs' (cs_agg cs)) (- n) aggs' (cake_agg_discharge aggs' cs n)"
    by (rule discharge_charged) (use wf ref shape in auto)
  then show ?thesis using charged_cancel [OF aggs_wf_small [OF wf] c] shape by simp
qed

text \<open>
  The release of a packet undoes its admission: after an admission that succeeded, discharging the
  same bytes gives the pool of aggregates back exactly.
\<close>

theorem discharge_undoes_admission:
  assumes "aggs_wf aggs" and "agg_ref aggs (cs_agg cs)"
    and "cake_agg_admit_chain aggs cs n thread = (True, aggs')"
  shows "cake_agg_discharge aggs' cs n = aggs"
  by (rule admit_discharge [OF assms])

theorem discharge_undoes_admission_witness:
  "cake_agg_discharge (snd (cake_agg_admit_chain two_tiers (cake_sched_zero\<lparr>cs_agg := 1\<rparr>) 1500 0))
     (cake_sched_zero\<lparr>cs_agg := 1\<rparr>) 1500 = two_tiers"
proof (rule discharge_undoes_admission [of _ _ _ 0])
  show "cake_agg_admit_chain two_tiers (cake_sched_zero\<lparr>cs_agg := 1\<rparr>) 1500 0 =
    (True, snd (cake_agg_admit_chain two_tiers (cake_sched_zero\<lparr>cs_agg := 1\<rparr>) 1500 0))"
    by (simp add: cake_agg_admit_chain_def two_tiers_def pool_at_def agg_admit_level_def cake_agg_admit_def
        cake_agg_admit_add_def cake_agg_admit_over_def pool_upd_def cake_aggregate_zero_def)
qed (use two_tiers_wf in simp_all)

text \<open>
  C39: The admission of a scheduler reads the round's bytes only when the round of its account differs
  from the current one; skipping that walk in the common case never changes the answer or the account.
\<close>

theorem lazy_round_bytes:
  "cake_sched_drr_admit aggs cs now =
    (if cs_agg cs = nil32 then (DRR_UNARBITRATED, cs)
     else (case pool_at aggs (cs_agg cs) of
        None \<Rightarrow> (DRR_UNARBITRATED, cs)
      | Some agg \<Rightarrow>
          (let (r, child) = cake_drr_local_admit (cs_drr cs) (cake_agg_effective_round_bytes aggs agg)
             (ag_active_weight agg)
             (case pool_at aggs (ag_parent agg) of
                None \<Rightarrow> ag_shaper_time agg
              | Some p \<Rightarrow> if ag_parent agg = nil32 then ag_shaper_time agg
                          else max (ag_shaper_time agg) (ag_shaper_time p)) now
           in (r, cs\<lparr>cs_drr := child\<rparr>))))"
proof -
  have lazy: "cake_drr_local_admit c (if drr_round c \<noteq> cake_drr_round now then rb else 0) w vt now =
      cake_drr_local_admit c rb w vt now" for c rb w vt
    by (auto simp: cake_drr_local_admit_def cake_drr_round_refill_due_def cake_drr_round_advanced_def
       cake_drr_round_stale_def sdiff32_def CAKE_DRR_ROUND_STALE_LEAD_def Let_def)
  show ?thesis
    unfolding cake_sched_drr_admit_def Let_def lazy
    by (auto split: option.splits simp: max_def)
qed

text \<open>
  C30: A packet refused by a gate or by its share leaves nothing behind: at every aggregate the bytes
  shaped, the occupancy and the active children are as before, the virtual time has at most been brought
  up to the cap on idle credit, and the share has at most made the refill of its round.
\<close>

theorem refused_packet_unwound:
  assumes "aggs_wf aggs" and "agg_ref aggs (cs_agg cs)"
    and "cake_agg_dequeue_gate aggs cs len now thread = (r, aggs')" and "r \<noteq> PARENT_OK"
    and "\<And>a. pool_at aggs (cs_agg cs) = Some a \<Longrightarrow>
      uint now + uint (cake_cost_ns len (ag_rate_scaled a)) < 2 ^ 64"
    and "\<And>i p. pool_at aggs i = Some p \<Longrightarrow> uint (ag_round_bytes p) < 2 ^ 30"
    and "uint len < 2147481600"
  shows "rel_option (gate_residue aggs now) (pool_at aggs i) (pool_at aggs' i)"
  by (rule gate_refused [OF assms])

theorem refused_packet_unwound_witness:
  "cake_agg_dequeue_gate two_tiers (cake_sched_zero\<lparr>cs_agg := 1\<rparr>) 1500 1000000 0 =
     (PARENT_DRR_BLOCKED, snd (cake_agg_dequeue_gate two_tiers (cake_sched_zero\<lparr>cs_agg := 1\<rparr>) 1500 1000000 0)) \<and>
   rel_option (gate_residue two_tiers 1000000) (pool_at two_tiers 1)
     (pool_at (snd (cake_agg_dequeue_gate two_tiers (cake_sched_zero\<lparr>cs_agg := 1\<rparr>) 1500 1000000 0)) 1)"
proof -
  let ?cs = "cake_sched_zero\<lparr>cs_agg := 1\<rparr>"
  have blocked: "cake_agg_dequeue_gate two_tiers ?cs 1500 1000000 0 =
     (PARENT_DRR_BLOCKED, snd (cake_agg_dequeue_gate two_tiers ?cs 1500 1000000 0))"
    by code_simp
  have cost: "uint (1000000 :: u64) + uint (cake_cost_ns 1500 (ag_rate_scaled a)) < 2 ^ 64"
    if "pool_at two_tiers 1 = Some a" for a
    using that by (auto simp: two_tiers_def pool_at_def cake_cost_ns_def CAKE_RATE_FRAC_BITS_def)
  have bytes: "uint (ag_round_bytes p) < 2 ^ 30" if "pool_at two_tiers i = Some p" for i p
    using that by (auto simp: two_tiers_def pool_at_def less_Suc_eq nth_Cons cake_aggregate_zero_def split: if_splits nat.splits)
  have "rel_option (gate_residue two_tiers 1000000) (pool_at two_tiers 1)
     (pool_at (snd (cake_agg_dequeue_gate two_tiers ?cs 1500 1000000 0)) 1)"
    by (rule refused_packet_unwound [OF two_tiers_wf(1) _ blocked])
      (use cost bytes in \<open>simp_all add: two_tiers_wf\<close>)
  with blocked show ?thesis by blast
qed

end
