(* ===== verification/Cake_Config.thy ===== *)
theory Cake_Config
  imports Cake_Agg "HOL-Library.Monad_Syntax"
begin

text \<open>
  The configuration of aggregates, from \<^verbatim>\<open>osvbng_qos_sched/osvbng_qos_sched.c\<close>: how a scheduler
  finds its immediate parent, how its weight and its outstanding buffer charge move when the
  topology changes, and the creation, deletion and update of port and S-VLAN aggregates.

  The interface table of vnet, the clock in nanoseconds, the number of worker threads and the pool
  index a new aggregate gets are inputs.  Worker barriers, which make each operation atomic with
  respect to the data path, and logging are dropped.
\<close>

section \<open>Results and inputs\<close>

datatype vnet_api_rv = RV_OK | RV_INVALID_VALUE | RV_NO_SUCH_ENTRY | RV_ENTRY_ALREADY_EXISTS
  | RV_INVALID_SW_IF_INDEX | RV_INSTANCE_IN_USE

text \<open>What the walk reads of a vnet interface: a single 802.1Q tag, and the super interface.\<close>

record sw_if =
  si_one_tag :: bool
  si_outer_vlan :: u16
  si_sup :: u32

definition vec_validate_init_empty :: "'a list \<Rightarrow> nat \<Rightarrow> 'a \<Rightarrow> 'a list" where
  "vec_validate_init_empty v i x = v @ replicate (Suc i - length v) x"

section \<open>Attachment\<close>

text \<open>The walk toward the physical port: the outermost tag met and the port's aggregate.\<close>

partial_function (option) cake_attach_walk ::
  "(u32 \<Rightarrow> sw_if) \<Rightarrow> u32 list \<Rightarrow> u32 \<Rightarrow> u32 \<Rightarrow> (u32 \<times> u32) option" where
  "cake_attach_walk ifs by_if walk svlan_tag =
     (let wi = ifs walk;
          svlan_tag = (if si_one_tag wi then ucast (si_outer_vlan wi) else svlan_tag);
          parent = si_sup wi
      in if parent = walk then Some (svlan_tag, nil32)
         else if unat parent < length by_if \<and> by_if ! unat parent \<noteq> nil32
         then Some (svlan_tag, by_if ! unat parent)
         else cake_attach_walk ifs by_if parent svlan_tag)"

declare cake_attach_walk.simps [code]

definition cake_sched_resolve_attachment ::
  "(u32 \<Rightarrow> sw_if) \<Rightarrow> cake_main \<Rightarrow> cake_sched \<Rightarrow> cake_sched option" where
  "cake_sched_resolve_attachment ifs cm cs = do {
     (svlan_tag, port_index) \<leftarrow> cake_attach_walk ifs (cm_agg_by_if cm) (cs_sw_if_index cs) nil32;
     Some (cs\<lparr>cs_agg :=
       (if port_index = nil32 then nil32
        else (case pool_at (cm_aggs cm) port_index of
           None \<Rightarrow> port_index
         | Some port \<Rightarrow>
             if ag_svlan_map port = [] \<or> unat svlan_tag \<ge> CAKE_SVLAN_MAX then port_index
             else if ag_svlan_map port ! unat svlan_tag \<noteq> nil32
             then ag_svlan_map port ! unat svlan_tag
             else port_index))\<rparr>)
   }"

definition CAKE_AGG_MAX_DEPTH :: nat where "CAKE_AGG_MAX_DEPTH = 4"

fun cake_agg_chain_loop :: "nat \<Rightarrow> cake_aggregate pool \<Rightarrow> u32 \<Rightarrow> u32 list" where
  "cake_agg_chain_loop 0 aggs idx = []"
| "cake_agg_chain_loop (Suc n) aggs idx =
     (if idx = nil32 then []
      else idx # (case pool_at aggs idx of None \<Rightarrow> []
                  | Some a \<Rightarrow> cake_agg_chain_loop n aggs (ag_parent a)))"

definition cake_agg_chain :: "cake_aggregate pool \<Rightarrow> u32 \<Rightarrow> u32 list" where
  "cake_agg_chain aggs idx = cake_agg_chain_loop CAKE_AGG_MAX_DEPTH aggs idx"

definition cake_agg_chain_has :: "u32 list \<Rightarrow> u32 \<Rightarrow> bool" where
  "cake_agg_chain_has chain idx \<longleftrightarrow> list_ex (\<lambda>c. c = idx) chain"

text \<open>The charge moved to the tiers of one chain that are not in the other.\<close>

definition agg_move_charge ::
  "u32 list \<Rightarrow> u32 list \<Rightarrow> u32 \<Rightarrow> cake_aggregate pool \<Rightarrow> cake_aggregate pool" where
  "agg_move_charge chain other n aggs =
     fold (\<lambda>i aggs. if cake_agg_chain_has other i then aggs
                    else pool_upd i (\<lambda>a. a\<lparr>ag_buffer_usage := ag_buffer_usage a + n\<rparr>) aggs) chain aggs"

definition cake_agg_reparent_one :: "(u32 \<Rightarrow> sw_if) \<Rightarrow> u32 \<Rightarrow> cake_main \<Rightarrow> cake_main option" where
  "cake_agg_reparent_one ifs si cm =
     (case pool_at (cm_scheds cm) si of
        None \<Rightarrow> Some cm
      | Some old \<Rightarrow> do {
          cs \<leftarrow> cake_sched_resolve_attachment ifs cm old;
          let old_parent = cs_agg old;
          let old_chain = cake_agg_chain (cm_aggs cm) old_parent;
          let new_chain = cake_agg_chain (cm_aggs cm) (cs_agg cs);
          let cm = cm\<lparr>cm_scheds := pool_upd si (\<lambda>_. cs) (cm_scheds cm)\<rparr>;
          let aggs = cm_aggs cm;
          let aggs = (if drr_active (cs_drr cs)
                      then cake_agg_weight_add
                             (cake_agg_weight_sub aggs old_parent (drr_weight (cs_drr cs)))
                             (cs_agg cs) (drr_weight (cs_drr cs))
                      else aggs);
          let aggs = (if cs_buffer_usage cs = 0 then aggs
                      else agg_move_charge old_chain new_chain (- cs_buffer_usage cs)
                             (agg_move_charge new_chain old_chain (cs_buffer_usage cs) aggs));
          Some (if cs_agg cs = old_parent then cm else cm\<lparr>cm_aggs := aggs\<rparr>)
        })"

fun cake_agg_reparent_list :: "(u32 \<Rightarrow> sw_if) \<Rightarrow> u32 list \<Rightarrow> cake_main \<Rightarrow> cake_main option" where
  "cake_agg_reparent_list ifs [] cm = Some cm"
| "cake_agg_reparent_list ifs (si # sis) cm = do {
     cm \<leftarrow> cake_agg_reparent_one ifs si cm;
     cake_agg_reparent_list ifs sis cm
   }"

definition cake_agg_reparent_all :: "(u32 \<Rightarrow> sw_if) \<Rightarrow> cake_main \<Rightarrow> cake_main option" where
  "cake_agg_reparent_all ifs cm = cake_agg_reparent_list ifs (pool_indices (cm_scheds cm)) cm"

section \<open>S-VLAN aggregates\<close>

definition agg_derived_limit :: "u64 \<Rightarrow> u32" where
  "agg_derived_limit rate_bytes_per_sec =
     (let derived = (rate_bytes_per_sec * 100000 * 3) div (1000000 * 2);
          derived = (if derived < 1048576 then 1048576 else derived)
      in if derived > 4294967295 then nil32 else ucast derived)"

definition weight_invalid :: "u32 \<Rightarrow> bool" where
  "weight_invalid weight \<longleftrightarrow> weight \<noteq> 0 \<and> (weight < CAKE_WEIGHT_MIN \<or> weight > CAKE_WEIGHT_MAX)"

definition burst_or_default :: "u32 \<Rightarrow> u32" where
  "burst_or_default burst_ns = (if burst_ns = 0 then CAKE_AGG_BURST_NS else burst_ns)"

definition burst_invalid :: "u32 \<Rightarrow> bool" where
  "burst_invalid burst_ns \<longleftrightarrow> burst_ns < CAKE_AGG_BURST_NS_MIN \<or> burst_ns > CAKE_AGG_BURST_NS_MAX"

text \<open>The fields both kinds of aggregate are created with.\<close>

definition agg_new :: "u64 \<Rightarrow> nat \<Rightarrow> u32 \<Rightarrow> u32 \<Rightarrow> u64 \<Rightarrow> u32 \<Rightarrow> u32 \<Rightarrow> u32 \<Rightarrow> cake_aggregate" where
  "agg_new now_ns n_threads sw_if_index agg_idx rate_bytes_per_sec weight burst_ns buffer_limit =
     (let w = (if weight \<noteq> 0 then ucast weight else 1 :: u16)
      in cake_aggregate_zero\<lparr>
           ag_stats := replicate n_threads cake_agg_stats_zero,
           ag_sw_if_index := sw_if_index,
           ag_index := agg_idx,
           ag_weight := w,
           ag_burst_ns := burst_ns,
           ag_rate := rate_bytes_per_sec,
           ag_rate_scaled := cake_rate_scaled rate_bytes_per_sec,
           ag_round_bytes := cake_drr_round_bytes rate_bytes_per_sec,
           ag_shaper_time := now_ns,
           ag_drr := cake_drr_shared_init (cake_effective_weight rate_bytes_per_sec (ucast w)) now_ns,
           ag_buffer_limit := (if buffer_limit = 0 then agg_derived_limit rate_bytes_per_sec
                               else buffer_limit)\<rparr>)"

text \<open>The tags of a set, and the map with every tag of a set that points at \<open>from\<close> redirected.\<close>

definition svlan_tags :: "u16 \<Rightarrow> u16 \<Rightarrow> nat list" where
  "svlan_tags svlan_id svlan_id_end = [unat svlan_id..<Suc (unat svlan_id_end)]"

definition svlan_map_set :: "nat list \<Rightarrow> u32 \<Rightarrow> u32 list \<Rightarrow> u32 list" where
  "svlan_map_set tags idx m = fold (\<lambda>t m. m[t := idx]) tags m"

definition svlan_map_clear :: "nat list \<Rightarrow> u32 \<Rightarrow> u32 list \<Rightarrow> u32 list" where
  "svlan_map_clear tags idx m = fold (\<lambda>t m. if m ! t = idx then m[t := nil32] else m) tags m"

definition cake_svlan_aggregate_create ::
  "(u32 \<Rightarrow> sw_if) \<Rightarrow> u64 \<Rightarrow> nat \<Rightarrow> u32 \<Rightarrow> cake_main \<Rightarrow> u32 \<Rightarrow> u16 \<Rightarrow> u16 \<Rightarrow> u64 \<Rightarrow> u32 \<Rightarrow> u32 \<Rightarrow> u32 \<Rightarrow>
   (vnet_api_rv \<times> cake_main) option" where
  "cake_svlan_aggregate_create ifs now_ns n_threads agg_idx cm sw_if_index svlan_id svlan_id_end
     rate_bytes_per_sec weight burst_ns buffer_limit =
     (if svlan_id_end < svlan_id \<or> unat svlan_id_end \<ge> CAKE_SVLAN_MAX then Some (RV_INVALID_VALUE, cm)
      else if weight_invalid weight then Some (RV_INVALID_VALUE, cm)
      else if burst_invalid (burst_or_default burst_ns) then Some (RV_INVALID_VALUE, cm)
      else let cm = cm\<lparr>cm_agg_by_if :=
                       vec_validate_init_empty (cm_agg_by_if cm) (unat sw_if_index) nil32\<rparr>;
               port_idx = cm_agg_by_if cm ! unat sw_if_index
           in if port_idx = nil32 then Some (RV_NO_SUCH_ENTRY, cm)
              else (case pool_at (cm_aggs cm) port_idx of
                None \<Rightarrow> Some (RV_NO_SUCH_ENTRY, cm)
              | Some port \<Rightarrow>
                  if rate_bytes_per_sec > ag_rate port then Some (RV_INVALID_VALUE, cm)
                  else if list_ex (\<lambda>t. ag_svlan_map port ! t \<noteq> nil32) (svlan_tags svlan_id svlan_id_end)
                  then Some (RV_ENTRY_ALREADY_EXISTS, cm)
                  else let agg = (agg_new now_ns n_threads sw_if_index agg_idx rate_bytes_per_sec weight
                                   (burst_or_default burst_ns) buffer_limit)
                                 \<lparr>ag_level := CAKE_AGG_LEVEL_SVLAN, ag_parent := port_idx,
                                  ag_svlan_id := svlan_id, ag_svlan_id_end := svlan_id_end,
                                  ag_svlan_map := []\<rparr>;
                           aggs = pool_get_put agg_idx agg (cm_aggs cm);
                           aggs = pool_upd port_idx
                             (\<lambda>p. p\<lparr>ag_svlan_map := svlan_map_set (svlan_tags svlan_id svlan_id_end)
                                                    agg_idx (ag_svlan_map p)\<rparr>) aggs
                       in do {
                         cm \<leftarrow> cake_agg_reparent_all ifs (cm\<lparr>cm_aggs := aggs\<rparr>);
                         Some (RV_OK, cm)
                       }))"

definition cake_svlan_aggregate_delete ::
  "(u32 \<Rightarrow> sw_if) \<Rightarrow> cake_main \<Rightarrow> u32 \<Rightarrow> u16 \<Rightarrow> (vnet_api_rv \<times> cake_main) option" where
  "cake_svlan_aggregate_delete ifs cm sw_if_index svlan_id =
     (if unat svlan_id \<ge> CAKE_SVLAN_MAX then Some (RV_INVALID_VALUE, cm)
      else let cm = cm\<lparr>cm_agg_by_if :=
                       vec_validate_init_empty (cm_agg_by_if cm) (unat sw_if_index) nil32\<rparr>;
               port_idx = cm_agg_by_if cm ! unat sw_if_index
           in if port_idx = nil32 then Some (RV_NO_SUCH_ENTRY, cm)
              else (case pool_at (cm_aggs cm) port_idx of
                None \<Rightarrow> Some (RV_NO_SUCH_ENTRY, cm)
              | Some port \<Rightarrow>
                  let agg_idx = ag_svlan_map port ! unat svlan_id
                  in if agg_idx = nil32 then Some (RV_NO_SUCH_ENTRY, cm)
                     else (case pool_at (cm_aggs cm) agg_idx of
                       None \<Rightarrow> Some (RV_NO_SUCH_ENTRY, cm)
                     | Some agg \<Rightarrow>
                         let aggs = pool_upd port_idx
                               (\<lambda>p. p\<lparr>ag_svlan_map := svlan_map_clear
                                   (svlan_tags (ag_svlan_id agg) (ag_svlan_id_end agg)) agg_idx
                                   (ag_svlan_map p)\<rparr>) (cm_aggs cm)
                         in do {
                           cm \<leftarrow> cake_agg_reparent_all ifs (cm\<lparr>cm_aggs := aggs\<rparr>);
                           Some (RV_OK, cm\<lparr>cm_aggs := pool_put agg_idx (cm_aggs cm)\<rparr>)
                         })))"

section \<open>Port aggregates\<close>

definition cake_aggregate_create ::
  "(u32 \<Rightarrow> sw_if) \<Rightarrow> (u32 \<Rightarrow> bool) \<Rightarrow> u64 \<Rightarrow> nat \<Rightarrow> u32 \<Rightarrow> cake_main \<Rightarrow> u32 \<Rightarrow> u64 \<Rightarrow> u32 \<Rightarrow> u32 \<Rightarrow> u32 \<Rightarrow>
   (vnet_api_rv \<times> cake_main) option" where
  "cake_aggregate_create ifs api_valid now_ns n_threads agg_idx cm sw_if_index rate_bytes_per_sec
     weight burst_ns buffer_limit =
     (if \<not> api_valid sw_if_index then Some (RV_INVALID_SW_IF_INDEX, cm)
      else if weight_invalid weight then Some (RV_INVALID_VALUE, cm)
      else if burst_invalid (burst_or_default burst_ns) then Some (RV_INVALID_VALUE, cm)
      else let cm = cm\<lparr>cm_agg_by_if :=
                       vec_validate_init_empty (cm_agg_by_if cm) (unat sw_if_index) nil32\<rparr>
           in if cm_agg_by_if cm ! unat sw_if_index \<noteq> nil32 then Some (RV_ENTRY_ALREADY_EXISTS, cm)
              else let agg = (agg_new now_ns n_threads sw_if_index agg_idx rate_bytes_per_sec weight
                               (burst_or_default burst_ns) buffer_limit)
                             \<lparr>ag_level := CAKE_AGG_LEVEL_PORT, ag_parent := nil32,
                              ag_svlan_map := replicate CAKE_SVLAN_MAX nil32, ag_buffer_usage := 0\<rparr>
                   in do {
                     cm \<leftarrow> cake_agg_reparent_all ifs
                            (cm\<lparr>cm_aggs := pool_get_put agg_idx agg (cm_aggs cm),
                                cm_agg_by_if := (cm_agg_by_if cm)[unat sw_if_index := agg_idx]\<rparr>);
                     Some (RV_OK, cm)
                   })"

definition agg_has_child :: "u32 \<Rightarrow> cake_aggregate pool \<Rightarrow> bool" where
  "agg_has_child idx aggs \<longleftrightarrow> list_ex (\<lambda>e. case e of None \<Rightarrow> False | Some c \<Rightarrow> ag_parent c = idx) aggs"

definition cake_aggregate_delete ::
  "(u32 \<Rightarrow> sw_if) \<Rightarrow> cake_main \<Rightarrow> u32 \<Rightarrow> (vnet_api_rv \<times> cake_main) option" where
  "cake_aggregate_delete ifs cm sw_if_index =
     (let cm = cm\<lparr>cm_agg_by_if :=
                 vec_validate_init_empty (cm_agg_by_if cm) (unat sw_if_index) nil32\<rparr>;
          agg_idx = cm_agg_by_if cm ! unat sw_if_index
      in if agg_idx = nil32 then Some (RV_NO_SUCH_ENTRY, cm)
         else if agg_has_child agg_idx (cm_aggs cm) then Some (RV_INSTANCE_IN_USE, cm)
         else do {
           cm \<leftarrow> cake_agg_reparent_all ifs
                  (cm\<lparr>cm_agg_by_if := (cm_agg_by_if cm)[unat sw_if_index := nil32]\<rparr>);
           Some (RV_OK, cm\<lparr>cm_aggs := pool_put agg_idx (cm_aggs cm)\<rparr>)
         })"

section \<open>Update in place\<close>

definition agg_updated :: "u64 \<Rightarrow> u32 \<Rightarrow> u32 \<Rightarrow> u32 \<Rightarrow> cake_aggregate \<Rightarrow> cake_aggregate" where
  "agg_updated rate_bytes_per_sec weight burst_ns buffer_limit agg =
     (let agg = (if rate_bytes_per_sec \<noteq> 0
                 then agg\<lparr>ag_rate := rate_bytes_per_sec,
                          ag_rate_scaled := cake_rate_scaled rate_bytes_per_sec,
                          ag_round_bytes := cake_drr_round_bytes rate_bytes_per_sec\<rparr>
                 else agg);
          agg = (if weight \<noteq> 0 then agg\<lparr>ag_weight := ucast weight\<rparr> else agg);
          agg = (if burst_ns \<noteq> 0 then agg\<lparr>ag_burst_ns := burst_ns\<rparr> else agg);
          agg = (if buffer_limit \<noteq> 0 then agg\<lparr>ag_buffer_limit := buffer_limit\<rparr> else agg)
      in agg\<lparr>ag_drr := (ag_drr agg)\<lparr>sc_weight := cake_effective_weight (ag_rate agg) (ucast (ag_weight agg))\<rparr>\<rparr>)"

definition cake_aggregate_update ::
  "cake_main \<Rightarrow> u32 \<Rightarrow> u8 \<Rightarrow> u16 \<Rightarrow> u64 \<Rightarrow> u32 \<Rightarrow> u32 \<Rightarrow> u32 \<Rightarrow> vnet_api_rv \<times> cake_main" where
  "cake_aggregate_update cm sw_if_index level svlan_id rate_bytes_per_sec weight burst_ns buffer_limit =
     (if weight_invalid weight then (RV_INVALID_VALUE, cm)
      else if burst_ns \<noteq> 0 \<and> burst_invalid burst_ns then (RV_INVALID_VALUE, cm)
      else if level = CAKE_AGG_LEVEL_SVLAN \<and> unat svlan_id \<ge> CAKE_SVLAN_MAX then (RV_INVALID_VALUE, cm)
      else let cm = cm\<lparr>cm_agg_by_if :=
                       vec_validate_init_empty (cm_agg_by_if cm) (unat sw_if_index) nil32\<rparr>;
               port_idx = cm_agg_by_if cm ! unat sw_if_index
           in if port_idx = nil32 then (RV_NO_SUCH_ENTRY, cm)
              else let agg_idx = (if level = CAKE_AGG_LEVEL_SVLAN
                         then (case pool_at (cm_aggs cm) port_idx of None \<Rightarrow> nil32
                               | Some port \<Rightarrow> ag_svlan_map port ! unat svlan_id)
                         else port_idx)
                   in if agg_idx = nil32 then (RV_NO_SUCH_ENTRY, cm)
                      else (case pool_at (cm_aggs cm) agg_idx of
                        None \<Rightarrow> (RV_NO_SUCH_ENTRY, cm)
                      | Some agg \<Rightarrow>
                          if rate_bytes_per_sec \<noteq> 0 \<and> ag_parent agg \<noteq> nil32 \<and>
                             (case pool_at (cm_aggs cm) (ag_parent agg) of None \<Rightarrow> False
                              | Some p \<Rightarrow> rate_bytes_per_sec > ag_rate p)
                          then (RV_INVALID_VALUE, cm)
                          else if rate_bytes_per_sec \<noteq> 0 \<and> ag_parent agg = nil32 \<and>
                             list_ex (\<lambda>e. case e of None \<Rightarrow> False
                                | Some c \<Rightarrow> ag_parent c = agg_idx \<and> ag_rate c > rate_bytes_per_sec)
                               (cm_aggs cm)
                          then (RV_INVALID_VALUE, cm)
                          else let old_weight = sc_weight (ag_drr agg);
                                   agg = agg_updated rate_bytes_per_sec weight burst_ns buffer_limit agg;
                                   new_weight = sc_weight (ag_drr agg);
                                   aggs = pool_upd agg_idx (\<lambda>_. agg) (cm_aggs cm);
                                   aggs = (if ag_parent agg \<noteq> nil32 \<and> ag_n_active agg > 0 \<and>
                                              new_weight \<noteq> old_weight
                                           then pool_upd (ag_parent agg)
                                             (\<lambda>p. p\<lparr>ag_active_weight :=
                                                (if new_weight > old_weight
                                                 then ag_active_weight p + (new_weight - old_weight)
                                                 else ag_active_weight p - (old_weight - new_weight))\<rparr>) aggs
                                           else aggs)
                               in (RV_OK, cm\<lparr>cm_aggs := aggs\<rparr>)))"

section \<open>The accounts\<close>

text \<open>
  What a scheduler is charged for at an aggregate, and what it contributes to its weight and to its
  count of active children.  The accounts are in order when every aggregate's occupancy is the sum
  of the charges, and its weight and count are the sums over its active children.
\<close>

definition sched_charge :: "cake_aggregate pool \<Rightarrow> u32 \<Rightarrow> cake_sched \<Rightarrow> u32" where
  "sched_charge aggs i s = (if i \<in> agg_above aggs (cs_agg s) then cs_buffer_usage s else 0)"

definition sched_weight :: "u32 \<Rightarrow> cake_sched \<Rightarrow> u64" where
  "sched_weight i s = (if cs_agg s = i \<and> drr_active (cs_drr s) then drr_weight (cs_drr s) else 0)"

definition sched_count :: "u32 \<Rightarrow> cake_sched \<Rightarrow> nat" where
  "sched_count i s = (if cs_agg s = i \<and> drr_active (cs_drr s) then 1 else 0)"

definition usage_ok :: "cake_aggregate pool \<Rightarrow> (u32 \<Rightarrow> u32) \<Rightarrow> bool" where
  "usage_ok aggs U \<longleftrightarrow> (\<forall>i a. pool_at aggs i = Some a \<longrightarrow> ag_buffer_usage a = U i)"

definition accounts_ok :: "cake_aggregate pool \<Rightarrow> cake_sched pool \<Rightarrow> bool" where
  "accounts_ok aggs scheds \<longleftrightarrow>
     usage_ok aggs (\<lambda>i. pool_sum (sched_charge aggs i) scheds) \<and>
     weights_ok aggs (\<lambda>i. pool_sum (sched_weight i) scheds) (\<lambda>i. pool_sum (sched_count i) scheds)"

definition tree_ok :: "cake_aggregate pool \<Rightarrow> cake_sched pool \<Rightarrow> bool" where
  "tree_ok aggs scheds \<longleftrightarrow> aggs_wf aggs \<and> pool_small scheds \<and>
     (\<forall>j s. pool_at scheds j = Some s \<longrightarrow> agg_ref aggs (cs_agg s)) \<and>
     length aggs + length scheds < 2 ^ 32 - 1"

lemma sched_count_le: "sched_count i s \<le> 1"
  by (simp add: sched_count_def)

text \<open>The fields the accounts depend on.\<close>

definition acct_view :: "cake_aggregate \<Rightarrow> u32 \<times> u32 \<times> u64 \<times> u32 \<times> u64" where
  "acct_view a = (ag_parent a, ag_buffer_usage a, ag_active_weight a, ag_n_active a, sc_weight (ag_drr a))"

definition same_accounts :: "cake_aggregate pool \<Rightarrow> cake_aggregate pool \<Rightarrow> bool" where
  "same_accounts aggs aggs' \<longleftrightarrow> length aggs' = length aggs \<and>
     (\<forall>i. map_option acct_view (pool_at aggs' i) = map_option acct_view (pool_at aggs i))"

lemma pool_sum_rel:
  assumes "pool_small p" and "length q = length p"
    and "\<And>i. (case pool_at q i of None \<Rightarrow> 0 | Some x \<Rightarrow> g x) = (case pool_at p i of None \<Rightarrow> 0 | Some x \<Rightarrow> f x)"
  shows "pool_sum g q = pool_sum f p"
proof -
  have "map (case_option 0 g) q = map (case_option 0 f) p"
  proof (rule nth_equalityI)
    fix n
    assume "n < length (map (case_option 0 g) q)"
    with assms(2) have n: "n < length q" "n < length p" by simp_all
    from assms(1,2) have "pool_small q" by (simp add: pool_small_def)
    with assms(3) [of "word_of_nat n"] pool_at_nth [OF this n(1)] pool_at_nth [OF assms(1) n(2)] n
    show "map (case_option 0 g) q ! n = map (case_option 0 f) p ! n" by simp
  qed (simp add: assms(2))
  then show ?thesis by (simp add: pool_sum_def)
qed

lemma same_accountsE:
  assumes "same_accounts aggs aggs'"
  obtains "pool_at aggs i = None" "pool_at aggs' i = None"
  | a a' where "pool_at aggs i = Some a" "pool_at aggs' i = Some a'" "acct_view a' = acct_view a"
proof (cases "pool_at aggs i")
  case None
  then have "pool_at aggs' i = None" using assms by (auto simp: same_accounts_def) (metis map_option_is_None)
  with None that(1) show thesis by blast
next
  case (Some a)
  then have "map_option acct_view (pool_at aggs' i) = Some (acct_view a)" using assms by (simp add: same_accounts_def)
  with Some that(2) show thesis by auto
qed

lemma same_accounts_shape: "same_accounts aggs aggs' \<Longrightarrow> same_shape aggs aggs'"
  unfolding same_shape_def
proof (intro conjI ext)
  assume *: "same_accounts aggs aggs'"
  then show "length aggs' = length aggs" by (simp add: same_accounts_def)
  show "agg_par aggs' i = agg_par aggs i" for i
    by (rule same_accountsE [OF *, of i]) (auto simp: agg_par_def acct_view_def)
qed

lemma weights_ok_same:
  assumes "pool_small aggs" and "same_accounts aggs aggs'" and "weights_ok aggs W N"
  shows "weights_ok aggs' W N"
proof -
  have "pool_sum (sub_weight i) aggs' = pool_sum (sub_weight i) aggs"
    "pool_sum (sub_count i) aggs' = pool_sum (sub_count i) aggs" for i
  proof -
    have len: "length aggs' = length aggs" using assms(2) by (simp add: same_accounts_def)
    show "pool_sum (sub_weight i) aggs' = pool_sum (sub_weight i) aggs"
    proof (rule pool_sum_rel [OF assms(1) len])
      show "(case pool_at aggs' j of None \<Rightarrow> 0 | Some x \<Rightarrow> sub_weight i x)
          = (case pool_at aggs j of None \<Rightarrow> 0 | Some x \<Rightarrow> sub_weight i x)" for j
        by (rule same_accountsE [OF assms(2), of j]) (auto simp: acct_view_def sub_weight_def)
    qed
    show "pool_sum (sub_count i) aggs' = pool_sum (sub_count i) aggs"
    proof (rule pool_sum_rel [OF assms(1) len])
      show "(case pool_at aggs' j of None \<Rightarrow> 0 | Some x \<Rightarrow> sub_count i x)
          = (case pool_at aggs j of None \<Rightarrow> 0 | Some x \<Rightarrow> sub_count i x)" for j
        by (rule same_accountsE [OF assms(2), of j]) (auto simp: acct_view_def sub_count_def)
    qed
  qed
  moreover have "\<exists>a. pool_at aggs i = Some a \<and> acct_view a' = acct_view a" if "pool_at aggs' i = Some a'" for i a'
    by (rule same_accountsE [OF assms(2), of i]) (use that in auto)
  ultimately show ?thesis
    using assms(3) by (fastforce simp: weights_ok_def acct_view_def)
qed

lemma accounts_ok_same:
  assumes "pool_small aggs" and same: "same_accounts aggs aggs'" and "accounts_ok aggs scheds"
  shows "accounts_ok aggs' scheds"
proof -
  have "\<exists>a. pool_at aggs i = Some a \<and> acct_view a' = acct_view a" if "pool_at aggs' i = Some a'" for i a'
    by (rule same_accountsE [OF same, of i]) (use that in auto)
  moreover have "sched_charge aggs' = sched_charge aggs"
    using same_shape_facts(1) [OF same_accounts_shape [OF same]] by (simp add: sched_charge_def fun_eq_iff)
  ultimately have "usage_ok aggs' (\<lambda>i. pool_sum (sched_charge aggs' i) scheds)"
    using assms(3) by (fastforce simp: accounts_ok_def usage_ok_def acct_view_def)
  with weights_ok_same [OF assms(1) same] assms(3) show ?thesis by (simp add: accounts_ok_def)
qed

lemma weights_ok_cong:
  assumes "\<And>i. pool_at aggs i \<noteq> None \<Longrightarrow> W i = W' i \<and> N i = N' i"
  shows "weights_ok aggs W N \<longleftrightarrow> weights_ok aggs W' N'"
  using assms by (auto simp: weights_ok_def)

lemma usage_ok_cong:
  assumes "\<And>i. pool_at aggs i \<noteq> None \<Longrightarrow> U i = U' i"
  shows "usage_ok aggs U \<longleftrightarrow> usage_ok aggs U'"
  using assms by (auto simp: usage_ok_def)

text \<open>The effect of the weight moves on the other fields.\<close>

lemma same_usage_weight_add:
  "map_option ag_buffer_usage (pool_at (cake_agg_weight_add aggs i w) j) = map_option ag_buffer_usage (pool_at aggs j)"
  "agg_par (cake_agg_weight_add aggs i w) = agg_par aggs"
  "length (cake_agg_weight_add aggs i w) = length aggs"
  by (auto simp: cake_agg_weight_add_def agg_par_upd pool_at_upd option.map_comp Let_def
      split: option.splits intro!: option.map_cong)

lemma same_usage_weight_sub:
  "map_option ag_buffer_usage (pool_at (cake_agg_weight_sub aggs i w) j) = map_option ag_buffer_usage (pool_at aggs j)"
  "agg_par (cake_agg_weight_sub aggs i w) = agg_par aggs"
  "length (cake_agg_weight_sub aggs i w) = length aggs"
  by (auto simp: cake_agg_weight_sub_def agg_par_upd pool_at_upd option.map_comp Let_def
      split: option.splits intro!: option.map_cong)

section \<open>Moving a scheduler\<close>

lemma chain_above:
  assumes wf: "aggs_wf aggs" and ref: "agg_ref aggs i"
  shows "set (cake_agg_chain aggs i) = agg_above aggs i \<and> distinct (cake_agg_chain aggs i)"
proof (cases "i = nil32")
  case True
  then show ?thesis using wf by (simp add: cake_agg_chain_def CAKE_AGG_MAX_DEPTH_def numeral_eq_Suc)
next
  case False
  then obtain a where a: "pool_at aggs i = Some a" using ref agg_ref_cases by blast
  show ?thesis
  proof (cases "ag_parent a = nil32")
    case True
    with a False show ?thesis
      by (simp add: cake_agg_chain_def CAKE_AGG_MAX_DEPTH_def numeral_eq_Suc agg_above_def agg_par_def)
  next
    case sub: False
    then obtain p where "pool_at aggs (ag_parent a) = Some p" "ag_parent p = nil32" "ag_parent a \<noteq> i"
      using aggs_wf_parent [OF wf a] by blast
    with a False sub show ?thesis
      by (simp add: cake_agg_chain_def CAKE_AGG_MAX_DEPTH_def numeral_eq_Suc agg_above_def agg_par_def)
  qed
qed

lemma length_move_charge [simp]: "length (agg_move_charge chain other n aggs) = length aggs"
  unfolding agg_move_charge_def by (induction chain arbitrary: aggs) auto

lemma move_charge_at:
  assumes "distinct chain"
  shows "pool_at (agg_move_charge chain other n aggs) i =
    (if i \<in> set chain - set other then map_option (charge n) (pool_at aggs i) else pool_at aggs i)"
  using assms
proof (induction chain arbitrary: aggs)
  case Nil
  then show ?case by (simp add: agg_move_charge_def)
next
  case (Cons c chain)
  have has: "cake_agg_chain_has other c \<longleftrightarrow> c \<in> set other"
    by (auto simp: cake_agg_chain_has_def list_ex_iff)
  have "agg_move_charge (c # chain) other n aggs = agg_move_charge chain other n
      (if c \<in> set other then aggs else pool_upd c (charge n) aggs)"
    by (simp add: agg_move_charge_def has charge_def [abs_def])
  with Cons show ?case by (auto simp: pool_at_upd)
qed

lemma move_charge_usage:
  assumes "distinct chain" and "usage_ok aggs U"
  shows "usage_ok (agg_move_charge chain other n aggs) (\<lambda>i. if i \<in> set chain - set other then U i + n else U i)"
  using assms(2) by (auto simp: usage_ok_def move_charge_at [OF assms(1)])

lemma move_charge_weights:
  assumes "distinct chain" and "pool_small aggs"
  shows "weights_ok (agg_move_charge chain other n aggs) W N \<longleftrightarrow> weights_ok aggs W N"
proof -
  let ?q = "agg_move_charge chain other n aggs"
  have *: "(case pool_at ?q j of None \<Rightarrow> 0 | Some x \<Rightarrow> f x) = (case pool_at aggs j of None \<Rightarrow> 0 | Some x \<Rightarrow> f x)"
    if "\<And>x. f (charge n x) = f x" for f :: "cake_aggregate \<Rightarrow> 'b::comm_monoid_add" and j
    using that by (auto simp: move_charge_at [OF assms(1)] split: option.split)
  have 1: "pool_sum (sub_weight i) ?q = pool_sum (sub_weight i) aggs" for i
    by (rule pool_sum_rel [OF assms(2) length_move_charge *]) (simp add: sub_weight_def charge_def)
  have 2: "pool_sum (sub_count i) ?q = pool_sum (sub_count i) aggs" for i
    by (rule pool_sum_rel [OF assms(2) length_move_charge *]) (simp add: sub_count_def charge_def)
  show ?thesis
    unfolding weights_ok_def 1 2 by (auto simp: move_charge_at [OF assms(1)] charge_def)
qed

lemma usage_ok_moved:
  assumes "\<And>j. map_option ag_buffer_usage (pool_at aggs' j) = map_option ag_buffer_usage (pool_at aggs j)"
  shows "usage_ok aggs' U \<longleftrightarrow> usage_ok aggs U"
proof -
  have "(\<exists>a. pool_at aggs' i = Some a \<and> ag_buffer_usage a = u) \<longleftrightarrow> (\<exists>a. pool_at aggs i = Some a \<and> ag_buffer_usage a = u)" for i u
    using assms [of i] by (cases "pool_at aggs' i"; cases "pool_at aggs i") auto
  then show ?thesis unfolding usage_ok_def by (metis option.inject)
qed

text \<open>The attachment is all that resolving changes.\<close>

lemma resolve_fields:
  assumes "cake_sched_resolve_attachment ifs cm s = Some s'"
  shows "s' = s\<lparr>cs_agg := cs_agg s'\<rparr>"
  using assms by (auto simp: cake_sched_resolve_attachment_def split: Option.bind_splits prod.splits)

lemma reparent_weights:
  assumes wf: "aggs_wf aggs" and ok: "weights_ok aggs W N" and refs: "agg_ref aggs i" "agg_ref aggs j"
    and bound: "\<And>k. N k + length aggs < 2 ^ 32 - 1" and pos: "i \<noteq> nil32 \<Longrightarrow> 0 < N i" and ij: "i \<noteq> j"
    and Wi: "\<And>k. k \<noteq> nil32 \<Longrightarrow> W' k = (if k = i then W k - w else if k = j then W k + w else W k)"
    and Ni: "\<And>k. k \<noteq> nil32 \<Longrightarrow> N' k = (if k = i then N k - 1 else if k = j then N k + 1 else N k)"
  shows "weights_ok (cake_agg_weight_add (cake_agg_weight_sub aggs i w) j w) W' N'"
proof -
  let ?aggs1 = "cake_agg_weight_sub aggs i w"
  define W1 where "W1 = (if i = nil32 then W else W(i := W i - w))"
  define N1 where "N1 = (if i = nil32 then N else N(i := N i - 1))"
  have shape: "same_shape aggs ?aggs1" by (simp add: same_shape_def same_usage_weight_sub)
  have ok1: "weights_ok ?aggs1 W1 N1"
  proof (cases "i = nil32")
    case True
    with ok show ?thesis by (simp add: W1_def N1_def cake_agg_weight_sub_def)
  next
    case False
    then obtain a where "pool_at aggs i = Some a" using refs agg_ref_cases by blast
    from weights_leave [OF ok wf this pos [OF False]] False show ?thesis by (simp add: W1_def N1_def)
  qed
  have b1: "N1 k + length ?aggs1 < 2 ^ 32 - 1" for k
    using bound [of k] by (auto simp: N1_def same_usage_weight_sub)
  have wf1: "aggs_wf ?aggs1" using wf same_shape_facts(3) [OF shape] by simp
  define W2 where "W2 = (if j = nil32 then W1 else W1(j := W1 j + w))"
  define N2 where "N2 = (if j = nil32 then N1 else N1(j := Suc (N1 j)))"
  have "weights_ok (cake_agg_weight_add ?aggs1 j w) W2 N2"
  proof (cases "j = nil32")
    case True
    with ok1 show ?thesis by (simp add: W2_def N2_def cake_agg_weight_add_def)
  next
    case False
    have "agg_ref ?aggs1 j" using refs(2) same_shape_facts(2) [OF shape] by simp
    with False obtain a where "pool_at ?aggs1 j = Some a" using agg_ref_cases by blast
    from weights_join [OF ok1 wf1 this b1] False show ?thesis by (simp add: W2_def N2_def)
  qed
  moreover have "weights_ok (cake_agg_weight_add ?aggs1 j w) W2 N2
      \<longleftrightarrow> weights_ok (cake_agg_weight_add ?aggs1 j w) W' N'"
  proof (rule weights_ok_cong)
    fix k
    assume "pool_at (cake_agg_weight_add ?aggs1 j w) k \<noteq> None"
    moreover have "aggs_wf (cake_agg_weight_add ?aggs1 j w)"
      using wf1 same_shape_facts(3) [of ?aggs1 "cake_agg_weight_add ?aggs1 j w"]
      by (simp add: same_shape_def same_usage_weight_add)
    ultimately have "k \<noteq> nil32" using aggs_wf_nil by metis
    with Wi [OF this] Ni [OF this] ij show "W2 k = W' k \<and> N2 k = N' k"
      by (auto simp: W1_def W2_def N1_def N2_def)
  qed
  ultimately show ?thesis by simp
qed

section \<open>Reparenting\<close>

text \<open>The configuration of an aggregate, which the accounting never touches.\<close>

definition agg_cfg :: "cake_aggregate \<Rightarrow> u32 \<times> u32 list \<times> u16 \<times> u16 \<times> u32 \<times> u64" where
  "agg_cfg a = (ag_parent a, ag_svlan_map a, ag_svlan_id a, ag_svlan_id_end a, ag_sw_if_index a, ag_rate a)"

definition same_cfg :: "cake_aggregate pool \<Rightarrow> cake_aggregate pool \<Rightarrow> bool" where
  "same_cfg aggs aggs' \<longleftrightarrow> length aggs' = length aggs \<and>
     (\<forall>i. map_option agg_cfg (pool_at aggs' i) = map_option agg_cfg (pool_at aggs i))"

lemma same_cfg_refl [simp]: "same_cfg aggs aggs"
  by (simp add: same_cfg_def)

lemma same_cfg_trans: "same_cfg a b \<Longrightarrow> same_cfg b c \<Longrightarrow> same_cfg a c"
  by (simp add: same_cfg_def)

lemma same_cfg_upd:
  "(\<And>a. pool_at aggs i = Some a \<Longrightarrow> agg_cfg (f a) = agg_cfg a) \<Longrightarrow> same_cfg aggs (pool_upd i f aggs)"
  by (auto simp: same_cfg_def pool_at_upd option.map_comp intro!: option.map_cong)

lemma same_cfg_shape: "same_cfg aggs aggs' \<Longrightarrow> same_shape aggs aggs'"
proof -
  assume *: "same_cfg aggs aggs'"
  have "map_option ag_parent x = map_option fst (map_option agg_cfg x)" for x
    by (cases x) (simp_all add: agg_cfg_def)
  with * show ?thesis by (simp add: same_cfg_def same_shape_def agg_par_def fun_eq_iff)
qed

lemma cfg_join [simp]: "agg_cfg (agg_join w a) = agg_cfg a" "agg_cfg (agg_leave w a) = agg_cfg a"
  "agg_cfg (charge n a) = agg_cfg a"
  by (simp_all add: agg_cfg_def agg_join_def agg_leave_def charge_def cake_drr_parent_join_def
      cake_drr_parent_leave_def)

lemma same_cfg_weight_add: "same_cfg aggs (cake_agg_weight_add aggs i w)"
  by (auto simp: cake_agg_weight_add_def Let_def split: option.split intro!: same_cfg_upd
      same_cfg_trans [OF same_cfg_upd same_cfg_upd])

lemma same_cfg_weight_sub: "same_cfg aggs (cake_agg_weight_sub aggs i w)"
  by (auto simp: cake_agg_weight_sub_def Let_def split: option.split intro!: same_cfg_upd
      same_cfg_trans [OF same_cfg_upd same_cfg_upd])

lemma same_cfg_move: "distinct chain \<Longrightarrow> same_cfg aggs (agg_move_charge chain other n aggs)"
  by (auto simp: same_cfg_def move_charge_at option.map_comp intro!: option.map_cong)

text \<open>One scheduler moved: the accounts stay in order.\<close>

lemma reparent_one:
  assumes tree: "tree_ok (cm_aggs cm) (cm_scheds cm)" and acc: "accounts_ok (cm_aggs cm) (cm_scheds cm)"
    and step: "cake_agg_reparent_one ifs si cm = Some cm'"
    and s: "pool_at (cm_scheds cm) si = Some s"
    and res: "cake_sched_resolve_attachment ifs cm s = Some s'"
    and ref: "agg_ref (cm_aggs cm) (cs_agg s')"
  shows "accounts_ok (cm_aggs cm') (cm_scheds cm') \<and> same_cfg (cm_aggs cm) (cm_aggs cm') \<and>
    cm_scheds cm' = pool_upd si (\<lambda>_. s') (cm_scheds cm) \<and> cm_agg_by_if cm' = cm_agg_by_if cm"
proof -
  let ?aggs = "cm_aggs cm" and ?scheds = "cm_scheds cm" and ?old = "cs_agg s" and ?new = "cs_agg s'"
  have wf: "aggs_wf ?aggs" and oldref: "agg_ref ?aggs ?old" and len: "length ?aggs + length ?scheds < 2 ^ 32 - 1"
    using tree s by (auto simp: tree_ok_def)
  have f: "s' = s\<lparr>cs_agg := ?new\<rparr>" by (rule resolve_fields [OF res])
  have same: "cs_drr s' = cs_drr s" "cs_buffer_usage s' = cs_buffer_usage s" by (subst f, simp)+
  show ?thesis
  proof (cases "?new = ?old")
    case True
    then have "s' = s" using f by simp
    then have "pool_upd si (\<lambda>_. s') ?scheds = ?scheds" using s by (intro pool_upd_id) simp
    moreover have "cm' = cm\<lparr>cm_scheds := pool_upd si (\<lambda>_. s') ?scheds\<rparr>"
      using step s res True by (auto simp: cake_agg_reparent_one_def Let_def)
    ultimately show ?thesis using acc by simp
  next
    case moved: False
    define oc where "oc = cake_agg_chain ?aggs ?old"
    define nc where "nc = cake_agg_chain ?aggs ?new"
    have oc: "set oc = agg_above ?aggs ?old" "distinct oc" and nc: "set nc = agg_above ?aggs ?new" "distinct nc"
      using chain_above [OF wf oldref] chain_above [OF wf ref] by (simp_all add: oc_def nc_def)
    define w where "w = drr_weight (cs_drr s)"
    define u where "u = cs_buffer_usage s"
    define a1 where "a1 = (if drr_active (cs_drr s)
      then cake_agg_weight_add (cake_agg_weight_sub ?aggs ?old w) ?new w else ?aggs)"
    define a2 where "a2 = (if u = 0 then a1
      else agg_move_charge oc nc (- u) (agg_move_charge nc oc u a1))"
    let ?scheds' = "pool_upd si (\<lambda>_. s') ?scheds"
    have cm': "cm' = cm\<lparr>cm_scheds := ?scheds', cm_aggs := a2\<rparr>"
      using step s res moved
      by (auto simp: cake_agg_reparent_one_def Let_def oc_def nc_def a1_def a2_def w_def u_def same)
    have cfg1: "same_cfg ?aggs a1"
      using same_cfg_trans [OF same_cfg_weight_sub same_cfg_weight_add] by (simp add: a1_def)
    have cfg2: "same_cfg a1 a2"
      using same_cfg_trans [OF same_cfg_move [OF nc(2)] same_cfg_move [OF oc(2)]] by (simp add: a2_def)
    have cfg: "same_cfg ?aggs a2" by (rule same_cfg_trans [OF cfg1 cfg2])
    have small: "pool_small ?aggs" "pool_small a1" "pool_small (agg_move_charge nc oc u a1)"
      using aggs_wf_small [OF wf] cfg1 by (simp_all add: pool_small_def same_cfg_def)
    let ?W = "\<lambda>i. pool_sum (sched_weight i) ?scheds" and ?N = "\<lambda>i. pool_sum (sched_count i) ?scheds"
    let ?W' = "\<lambda>i. pool_sum (sched_weight i) ?scheds'" and ?N' = "\<lambda>i. pool_sum (sched_count i) ?scheds'"
    have W': "?W' i = ?W i - sched_weight i s + sched_weight i s'" for i
      by (rule pool_sum_change [OF s])
    have N': "?N' i + sched_count i s = ?N i + sched_count i s'" for i
      by (rule pool_sum_upd [OF s])
    have wok: "weights_ok ?aggs ?W ?N" using acc by (simp add: accounts_ok_def)
    have w1: "weights_ok a1 ?W' ?N'"
    proof (cases "drr_active (cs_drr s)")
      case False
      then have "?W' i = ?W i \<and> ?N' i = ?N i" for i
        using W' [of i] N' [of i] by (simp add: sched_weight_def sched_count_def same)
      then show ?thesis using wok False by (simp add: a1_def)
    next
      case True
      have pos: "0 < ?N ?old" using N' [of ?old] True moved by (simp add: sched_count_def same)
      have bound: "?N k + length ?aggs < 2 ^ 32 - 1" for k
        using pool_sum_le_length [of "sched_count k" ?scheds, OF sched_count_le] len by linarith
      have W1: "?W' k = (if k = ?old then ?W k - w else if k = ?new then ?W k + w else ?W k)" for k
        using W' [of k] True moved by (auto simp: sched_weight_def same w_def)
      have N1: "?N' k = (if k = ?old then ?N k - 1 else if k = ?new then ?N k + 1 else ?N k)" for k
        using N' [of k] True moved by (auto simp: sched_count_def same)
      have "weights_ok (cake_agg_weight_add (cake_agg_weight_sub ?aggs ?old w) ?new w) ?W' ?N'"
        by (rule reparent_weights [OF wf wok oldref ref bound pos moved [symmetric] W1 N1])
      then show ?thesis using True by (simp add: a1_def)
    qed
    have w2: "weights_ok a2 ?W' ?N'"
      using w1 by (simp add: a2_def move_charge_weights [OF oc(2) small(3)] move_charge_weights [OF nc(2) small(2)])
    let ?U = "\<lambda>i. pool_sum (sched_charge ?aggs i) ?scheds" and ?U' = "\<lambda>i. pool_sum (sched_charge ?aggs i) ?scheds'"
    have U': "?U' i = ?U i - sched_charge ?aggs i s + sched_charge ?aggs i s'" for i
      by (rule pool_sum_change [OF s])
    have "usage_ok ?aggs ?U" using acc by (simp add: accounts_ok_def)
    moreover have "map_option ag_buffer_usage (pool_at a1 j) = map_option ag_buffer_usage (pool_at ?aggs j)" for j
      by (simp add: a1_def same_usage_weight_add same_usage_weight_sub)
    ultimately have "usage_ok a1 ?U" using usage_ok_moved by blast
    then have "usage_ok a2 (\<lambda>i. if u = 0 then ?U i else
        (if i \<in> set oc - set nc then (if i \<in> set nc - set oc then ?U i + u else ?U i) + - u
         else (if i \<in> set nc - set oc then ?U i + u else ?U i)))"
    proof (cases "u = 0")
      case False
      from move_charge_usage [OF oc(2) move_charge_usage [OF nc(2) \<open>usage_ok a1 ?U\<close>]] False
      show ?thesis by (simp only: a2_def if_False)
    qed (simp add: a2_def)
    moreover have "(if u = 0 then ?U i else
        (if i \<in> set oc - set nc then (if i \<in> set nc - set oc then ?U i + u else ?U i) + - u
         else (if i \<in> set nc - set oc then ?U i + u else ?U i))) = ?U' i" for i
      using U' [of i] by (auto simp: sched_charge_def same oc(1) nc(1) u_def)
    ultimately have "usage_ok a2 ?U'" by simp
    moreover have "sched_charge a2 = sched_charge ?aggs"
      using same_shape_facts(1) [OF same_cfg_shape [OF cfg]] by (simp add: sched_charge_def fun_eq_iff)
    ultimately show ?thesis using w2 cfg by (simp add: cm' accounts_ok_def)
  qed
qed

section \<open>The maps from interfaces and tags to aggregates\<close>

text \<open>
  An interface's entry is a live port aggregate of that interface, with a full S-VLAN map; a map's
  entry is a live child of the port whose tag set holds the tag; a child has no map of its own.
\<close>

definition port_ok :: "nat \<Rightarrow> cake_aggregate \<Rightarrow> bool" where
  "port_ok k a \<longleftrightarrow> ag_parent a = nil32 \<and> unat (ag_sw_if_index a) = k \<and> length (ag_svlan_map a) = CAKE_SVLAN_MAX"

definition child_ok :: "u32 \<Rightarrow> nat \<Rightarrow> cake_aggregate \<Rightarrow> bool" where
  "child_ok i t b \<longleftrightarrow> ag_parent b = i \<and> unat (ag_svlan_id b) \<le> t \<and> t \<le> unat (ag_svlan_id_end b)"

definition maps_ok :: "u32 list \<Rightarrow> cake_aggregate pool \<Rightarrow> bool" where
  "maps_ok by_if aggs \<longleftrightarrow>
     (\<forall>k < length by_if. by_if ! k \<noteq> nil32 \<longrightarrow>
        (\<exists>a. pool_at aggs (by_if ! k) = Some a \<and> port_ok k a)) \<and>
     (\<forall>i a t. pool_at aggs i = Some a \<longrightarrow> t < length (ag_svlan_map a) \<longrightarrow> ag_svlan_map a ! t \<noteq> nil32 \<longrightarrow>
        (\<exists>b. pool_at aggs (ag_svlan_map a ! t) = Some b \<and> child_ok i t b)) \<and>
     (\<forall>i a. pool_at aggs i = Some a \<longrightarrow> ag_parent a \<noteq> nil32 \<longrightarrow> ag_svlan_map a = [])"

text \<open>Where a scheduler can be attached.\<close>

definition agg_targets :: "u32 list \<Rightarrow> cake_aggregate pool \<Rightarrow> u32 set" where
  "agg_targets by_if aggs = {nil32} \<union> set by_if \<union>
     {m. \<exists>i a. i \<in> set by_if \<and> pool_at aggs i = Some a \<and> m \<in> set (ag_svlan_map a)}"

lemma walk_target:
  assumes "cake_attach_walk ifs by_if w tag = Some r"
  shows "snd r = nil32 \<or> snd r \<in> set by_if \<and> snd r \<noteq> nil32"
proof (rule cake_attach_walk.raw_induct
    [where P = "\<lambda>ifs by_if w tag r. snd r = nil32 \<or> snd r \<in> set by_if \<and> snd r \<noteq> nil32", OF _ assms])
  fix f ifs by_if w tag r
  assume IH: "\<And>ifs by_if w tag r. f ifs by_if w tag = Some r \<Longrightarrow> snd r = nil32 \<or> snd r \<in> set by_if \<and> snd r \<noteq> nil32"
    and "(let wi = ifs w; svlan_tag = if si_one_tag wi then ucast (si_outer_vlan wi) else tag; parent = si_sup wi
      in if parent = w then Some (svlan_tag, nil32)
         else if unat parent < length by_if \<and> by_if ! unat parent \<noteq> nil32
           then Some (svlan_tag, by_if ! unat parent) else f ifs by_if parent svlan_tag) = Some r"
  then show "snd r = nil32 \<or> snd r \<in> set by_if \<and> snd r \<noteq> nil32"
    by (auto simp: Let_def split: if_splits dest: IH)
qed

lemma maps_okD:
  assumes "maps_ok by_if aggs"
  shows "k < length by_if \<Longrightarrow> by_if ! k \<noteq> nil32 \<Longrightarrow> \<exists>a. pool_at aggs (by_if ! k) = Some a \<and> port_ok k a"
    and "pool_at aggs i = Some a \<Longrightarrow> t < length (ag_svlan_map a) \<Longrightarrow> ag_svlan_map a ! t \<noteq> nil32 \<Longrightarrow>
      \<exists>b. pool_at aggs (ag_svlan_map a ! t) = Some b \<and> child_ok i t b"
    and "pool_at aggs i = Some a \<Longrightarrow> ag_parent a \<noteq> nil32 \<Longrightarrow> ag_svlan_map a = []"
  using assms unfolding maps_ok_def by blast+

lemma resolve_target:
  assumes maps: "maps_ok (cm_agg_by_if cm) (cm_aggs cm)"
    and res: "cake_sched_resolve_attachment ifs cm s = Some s'"
  shows "cs_agg s' \<in> agg_targets (cm_agg_by_if cm) (cm_aggs cm)"
proof -
  obtain tag p where w: "cake_attach_walk ifs (cm_agg_by_if cm) (cs_sw_if_index s) nil32 = Some (tag, p)"
    using res by (auto simp: cake_sched_resolve_attachment_def split: Option.bind_splits)
  from walk_target [OF w] have "p = nil32 \<or> p \<in> set (cm_agg_by_if cm) \<and> p \<noteq> nil32" by simp
  then show ?thesis
  proof
    assume "p = nil32"
    with res w show ?thesis by (auto simp: cake_sched_resolve_attachment_def agg_targets_def)
  next
    assume p: "p \<in> set (cm_agg_by_if cm) \<and> p \<noteq> nil32"
    then obtain k where "k < length (cm_agg_by_if cm)" "cm_agg_by_if cm ! k = p" by (auto simp: in_set_conv_nth)
    with maps p obtain a where a: "pool_at (cm_aggs cm) p = Some a" "length (ag_svlan_map a) = CAKE_SVLAN_MAX"
      by (auto simp: maps_ok_def port_ok_def)
    show ?thesis
    proof (cases "unat tag < CAKE_SVLAN_MAX \<and> ag_svlan_map a ! unat tag \<noteq> nil32")
      case True
      then have "ag_svlan_map a ! unat tag \<in> set (ag_svlan_map a)" using a(2) by simp
      moreover have "cs_agg s' = ag_svlan_map a ! unat tag"
        using res w p a True by (auto simp: cake_sched_resolve_attachment_def)
      ultimately show ?thesis using p a(1) by (auto simp: agg_targets_def)
    next
      case False
      then have "cs_agg s' = p"
        using res w p a by (auto simp: cake_sched_resolve_attachment_def split: if_splits)
      with p show ?thesis by (auto simp: agg_targets_def)
    qed
  qed
qed

lemma target_ref:
  assumes "maps_ok by_if aggs" and "m \<in> agg_targets by_if aggs"
  shows "agg_ref aggs m"
proof (cases "m = nil32")
  case True
  then show ?thesis by (simp add: agg_ref_def)
next
  case False
  with assms consider k where "k < length by_if" "by_if ! k = m"
    | i a t where "pool_at aggs i = Some a" "t < length (ag_svlan_map a)" "ag_svlan_map a ! t = m"
    by (auto simp: agg_targets_def in_set_conv_nth)
  then have "pool_at aggs m \<noteq> None"
    using assms(1) False by cases (fastforce simp: maps_ok_def)+
  then show ?thesis by (auto simp: agg_ref_def agg_par_def)
qed

lemma same_cfgE:
  assumes "same_cfg aggs aggs'"
  obtains "pool_at aggs i = None" "pool_at aggs' i = None"
  | a a' where "pool_at aggs i = Some a" "pool_at aggs' i = Some a'" "agg_cfg a' = agg_cfg a"
proof (cases "pool_at aggs i")
  case None
  then have "pool_at aggs' i = None" using assms by (auto simp: same_cfg_def) (metis map_option_is_None)
  with None that(1) show thesis by blast
next
  case (Some a)
  then have "map_option agg_cfg (pool_at aggs' i) = Some (agg_cfg a)" using assms by (simp add: same_cfg_def)
  with Some that(2) show thesis by auto
qed

lemma same_cfg_fwd:
  assumes "same_cfg aggs aggs'" and "pool_at aggs i = Some a"
  shows "\<exists>a'. pool_at aggs' i = Some a' \<and> agg_cfg a' = agg_cfg a"
  using assms by (auto elim: same_cfgE [of aggs aggs' i])

lemma same_cfg_back:
  assumes "same_cfg aggs aggs'" and "pool_at aggs' i = Some a'"
  shows "\<exists>a. pool_at aggs i = Some a \<and> agg_cfg a' = agg_cfg a"
  using assms by (auto elim: same_cfgE [of aggs aggs' i])

lemma same_cfg_targets:
  assumes "same_cfg aggs aggs'"
  shows "agg_targets by_if aggs' = agg_targets by_if aggs"
proof -
  have "(\<exists>a. pool_at aggs' i = Some a \<and> m \<in> set (ag_svlan_map a)) \<longleftrightarrow>
      (\<exists>a. pool_at aggs i = Some a \<and> m \<in> set (ag_svlan_map a))" for i m
    by (rule same_cfgE [OF assms, of i]) (auto simp: agg_cfg_def)
  then show ?thesis by (auto simp: agg_targets_def)
qed

lemma same_cfg_maps:
  assumes "same_cfg aggs aggs'" and "maps_ok by_if aggs"
  shows "maps_ok by_if aggs'"
proof -
  have 1: "\<exists>a. pool_at aggs' (by_if ! k) = Some a \<and> port_ok k a"
    if "k < length by_if" "by_if ! k \<noteq> nil32" for k
  proof -
    from assms(2) that obtain a where a: "pool_at aggs (by_if ! k) = Some a" "port_ok k a"
      by (auto simp: maps_ok_def)
    from same_cfg_fwd [OF assms(1) a(1)] a(2) show ?thesis by (auto simp: port_ok_def agg_cfg_def)
  qed
  have 2: "\<exists>b. pool_at aggs' (ag_svlan_map a' ! t) = Some b \<and> child_ok i t b"
    if "pool_at aggs' i = Some a'" "t < length (ag_svlan_map a')" "ag_svlan_map a' ! t \<noteq> nil32" for i a' t
  proof -
    note prems = that
    from same_cfg_back [OF assms(1) that(1)] obtain a where a: "pool_at aggs i = Some a" "agg_cfg a' = agg_cfg a" by blast
    then have m: "ag_svlan_map a' = ag_svlan_map a" by (simp add: agg_cfg_def)
    obtain b where b: "pool_at aggs (ag_svlan_map a ! t) = Some b" "child_ok i t b"
      using maps_okD(2) [OF assms(2) a(1), of t] prems(2,3) unfolding m by blast
    from same_cfg_fwd [OF assms(1) b(1)] b(2) m show ?thesis by (auto simp: child_ok_def agg_cfg_def)
  qed
  have 3: "ag_svlan_map a' = []" if "pool_at aggs' i = Some a'" "ag_parent a' \<noteq> nil32" for i a'
    using same_cfg_back [OF assms(1) that(1)] that(2) assms(2) by (auto simp: maps_ok_def agg_cfg_def)
  show ?thesis using 1 2 3 by (simp add: maps_ok_def)
qed

section \<open>Reparenting every scheduler\<close>

lemma same_cfg_len: "same_cfg aggs aggs' \<Longrightarrow> length aggs' = length aggs"
  by (simp add: same_cfg_def)

lemma reparent_one_inv:
  assumes tree: "tree_ok (cm_aggs cm) (cm_scheds cm)" and acc: "accounts_ok (cm_aggs cm) (cm_scheds cm)"
    and maps: "maps_ok (cm_agg_by_if cm) (cm_aggs cm)"
    and step: "cake_agg_reparent_one ifs si cm = Some cm'"
  shows "tree_ok (cm_aggs cm') (cm_scheds cm') \<and> accounts_ok (cm_aggs cm') (cm_scheds cm') \<and>
    same_cfg (cm_aggs cm) (cm_aggs cm') \<and> cm_agg_by_if cm' = cm_agg_by_if cm \<and>
    (\<exists>f. (\<forall>s. f s = s\<lparr>cs_agg := cs_agg (f s)\<rparr>) \<and> cm_scheds cm' = pool_upd si f (cm_scheds cm)) \<and>
    (\<forall>s. pool_at (cm_scheds cm') si = Some s \<longrightarrow> cs_agg s \<in> agg_targets (cm_agg_by_if cm) (cm_aggs cm))"
proof (cases "pool_at (cm_scheds cm) si")
  case None
  then have "cm' = cm" using step by (simp add: cake_agg_reparent_one_def)
  moreover have "pool_upd si id (cm_scheds cm) = cm_scheds cm" by (rule pool_upd_id) simp
  ultimately show ?thesis using None tree acc by (auto intro!: exI [of _ id])
next
  case (Some s)
  then obtain s' where res: "cake_sched_resolve_attachment ifs cm s = Some s'"
    using step by (auto simp: cake_agg_reparent_one_def split: Option.bind_splits)
  note tgt = resolve_target [OF maps res]
  note ref = target_ref [OF maps tgt]
  note one = reparent_one [OF tree acc step Some res ref]
  define f where "f = (\<lambda>s :: cake_sched. s\<lparr>cs_agg := cs_agg s'\<rparr>)"
  have "f s = s'" using resolve_fields [OF res] by (simp add: f_def)
  then have scheds: "cm_scheds cm' = pool_upd si f (cm_scheds cm)"
    using one Some pool_upd_const [of "cm_scheds cm" si s f] by simp
  have cfg: "same_cfg (cm_aggs cm) (cm_aggs cm')" using one by simp
  note shape = same_shape_facts [OF same_cfg_shape [OF cfg]]
  have "tree_ok (cm_aggs cm') (cm_scheds cm')"
    using tree ref \<open>f s = s'\<close> Some same_cfg_len [OF cfg]
    by (auto simp: tree_ok_def shape scheds pool_small_def pool_at_upd)
  moreover have "\<forall>s. f s = s\<lparr>cs_agg := cs_agg (f s)\<rparr>" by (simp add: f_def)
  ultimately show ?thesis using one scheds tgt Some \<open>f s = s'\<close> by (auto simp: pool_at_upd)
qed

lemma reparent_list_inv:
  assumes "tree_ok (cm_aggs cm) (cm_scheds cm)" and "accounts_ok (cm_aggs cm) (cm_scheds cm)"
    and "maps_ok (cm_agg_by_if cm) (cm_aggs cm)"
    and "cake_agg_reparent_list ifs sis cm = Some cm'" and "distinct sis"
  shows "tree_ok (cm_aggs cm') (cm_scheds cm') \<and> accounts_ok (cm_aggs cm') (cm_scheds cm') \<and>
    same_cfg (cm_aggs cm) (cm_aggs cm') \<and> cm_agg_by_if cm' = cm_agg_by_if cm \<and>
    (\<forall>j. (j \<notin> set sis \<longrightarrow> pool_at (cm_scheds cm') j = pool_at (cm_scheds cm) j) \<and>
      (pool_at (cm_scheds cm') j = None \<longleftrightarrow> pool_at (cm_scheds cm) j = None) \<and>
      (\<forall>s. j \<in> set sis \<longrightarrow> pool_at (cm_scheds cm') j = Some s \<longrightarrow>
         cs_agg s \<in> agg_targets (cm_agg_by_if cm) (cm_aggs cm)))"
  using assms
proof (induction sis arbitrary: cm)
  case Nil
  then show ?case by simp
next
  case (Cons si sis)
  then obtain cm1 where one: "cake_agg_reparent_one ifs si cm = Some cm1"
    and rest: "cake_agg_reparent_list ifs sis cm1 = Some cm'"
    by (auto split: Option.bind_splits)
  note inv = reparent_one_inv [OF Cons.prems(1-3) one]
  then have cfg1: "same_cfg (cm_aggs cm) (cm_aggs cm1)" and by1: "cm_agg_by_if cm1 = cm_agg_by_if cm" by simp_all
  obtain f where scheds: "cm_scheds cm1 = pool_upd si f (cm_scheds cm)" using inv by blast
  have maps1: "maps_ok (cm_agg_by_if cm1) (cm_aggs cm1)" using same_cfg_maps [OF cfg1 Cons.prems(3)] by (simp add: by1)
  have IH: "tree_ok (cm_aggs cm') (cm_scheds cm') \<and> accounts_ok (cm_aggs cm') (cm_scheds cm') \<and>
    same_cfg (cm_aggs cm1) (cm_aggs cm') \<and> cm_agg_by_if cm' = cm_agg_by_if cm1 \<and>
    (\<forall>j. (j \<notin> set sis \<longrightarrow> pool_at (cm_scheds cm') j = pool_at (cm_scheds cm1) j) \<and>
      (pool_at (cm_scheds cm') j = None \<longleftrightarrow> pool_at (cm_scheds cm1) j = None) \<and>
      (\<forall>s. j \<in> set sis \<longrightarrow> pool_at (cm_scheds cm') j = Some s \<longrightarrow>
         cs_agg s \<in> agg_targets (cm_agg_by_if cm1) (cm_aggs cm1)))"
    using Cons.IH [OF _ _ maps1 rest] inv Cons.prems(5) by simp
  have "(j \<notin> set (si # sis) \<longrightarrow> pool_at (cm_scheds cm') j = pool_at (cm_scheds cm) j) \<and>
      (pool_at (cm_scheds cm') j = None \<longleftrightarrow> pool_at (cm_scheds cm) j = None) \<and>
      (\<forall>s. j \<in> set (si # sis) \<longrightarrow> pool_at (cm_scheds cm') j = Some s \<longrightarrow>
         cs_agg s \<in> agg_targets (cm_agg_by_if cm) (cm_aggs cm))" for j
  proof (cases "j = si")
    case True
    then have "pool_at (cm_scheds cm') si = pool_at (cm_scheds cm1) si" using IH Cons.prems(5) by auto
    with True inv show ?thesis by (auto simp: scheds pool_at_upd)
  next
    case False
    with IH show ?thesis by (auto simp: scheds pool_at_upd by1 same_cfg_targets [OF cfg1])
  qed
  then show ?case using IH by1 same_cfg_trans [OF cfg1] by auto
qed

lemma reparent_all_inv:
  assumes "tree_ok (cm_aggs cm) (cm_scheds cm)" and "accounts_ok (cm_aggs cm) (cm_scheds cm)"
    and "maps_ok (cm_agg_by_if cm) (cm_aggs cm)"
    and "cake_agg_reparent_all ifs cm = Some cm'"
  shows "tree_ok (cm_aggs cm') (cm_scheds cm') \<and> accounts_ok (cm_aggs cm') (cm_scheds cm') \<and>
    same_cfg (cm_aggs cm) (cm_aggs cm') \<and> cm_agg_by_if cm' = cm_agg_by_if cm \<and>
    (\<forall>j s. pool_at (cm_scheds cm') j = Some s \<longrightarrow> cs_agg s \<in> agg_targets (cm_agg_by_if cm) (cm_aggs cm))"
proof -
  have small: "pool_small (cm_scheds cm)" using assms(1) by (simp add: tree_ok_def)
  have "\<forall>j s. pool_at (cm_scheds cm') j = Some s \<longrightarrow> j \<in> set (pool_indices (cm_scheds cm))"
    using reparent_list_inv [OF assms(1-3) assms(4) [unfolded cake_agg_reparent_all_def] distinct_pool_indices [OF small]]
    by (auto simp: set_pool_indices [OF small])
  then show ?thesis
    using reparent_list_inv [OF assms(1-3) assms(4) [unfolded cake_agg_reparent_all_def] distinct_pool_indices [OF small]]
    by blast
qed

text \<open>With no cycle among the interfaces, the walks end and the operation returns.\<close>

definition ifs_wf :: "(u32 \<Rightarrow> sw_if) \<Rightarrow> bool" where
  "ifs_wf ifs \<longleftrightarrow> (\<exists>rank :: u32 \<Rightarrow> nat. \<forall>w. si_sup (ifs w) \<noteq> w \<longrightarrow> rank (si_sup (ifs w)) < rank w)"

lemma walk_returns:
  assumes "ifs_wf ifs"
  shows "cake_attach_walk ifs by_if w tag \<noteq> None"
proof -
  obtain rank :: "u32 \<Rightarrow> nat" where r: "\<And>w. si_sup (ifs w) \<noteq> w \<Longrightarrow> rank (si_sup (ifs w)) < rank w"
    using assms by (auto simp: ifs_wf_def)
  show ?thesis
  proof (induction "rank w" arbitrary: w tag rule: less_induct)
    case less
    show ?case
      using less r [of w] by (subst cake_attach_walk.simps) (auto simp: Let_def)
  qed
qed

lemma resolve_returns: "ifs_wf ifs \<Longrightarrow> cake_sched_resolve_attachment ifs cm s \<noteq> None"
  using walk_returns [of ifs "cm_agg_by_if cm" "cs_sw_if_index s" nil32]
  by (auto simp: cake_sched_resolve_attachment_def)

lemma reparent_one_returns:
  assumes "ifs_wf ifs"
  shows "cake_agg_reparent_one ifs si cm \<noteq> None"
proof (cases "pool_at (cm_scheds cm) si")
  case (Some s)
  from resolve_returns [OF assms] obtain s' where "cake_sched_resolve_attachment ifs cm s = Some s'" by blast
  with Some show ?thesis by (simp add: cake_agg_reparent_one_def Let_def)
qed (simp add: cake_agg_reparent_one_def)

lemma reparent_all_returns: "ifs_wf ifs \<Longrightarrow> \<exists>cm'. cake_agg_reparent_all ifs cm = Some cm'"
proof -
  assume wf: "ifs_wf ifs"
  have "cake_agg_reparent_list ifs sis cm \<noteq> None" for sis cm
  proof (induction sis arbitrary: cm)
    case (Cons si sis)
    from reparent_one_returns [OF wf, of si cm] Cons show ?case by auto
  qed simp
  then show ?thesis by (auto simp: cake_agg_reparent_all_def)
qed

section \<open>Adding and removing an aggregate\<close>

lemma pool_fresh_ne: "pool_fresh p i \<Longrightarrow> pool_at p j \<noteq> None \<Longrightarrow> j \<noteq> i"
  by (auto dest: pool_fresh_at)

lemma pool_fresh_ne_nil: "pool_fresh p i \<Longrightarrow> i \<noteq> nil32"
  by auto

lemma agg_above_cases:
  "m \<in> agg_above aggs k \<Longrightarrow> m = k \<or> (\<exists>a. pool_at aggs k = Some a \<and> ag_parent a = m \<and> m \<noteq> nil32)"
  by (auto simp: agg_above_def agg_par_def split: option.splits if_splits)

text \<open>Nothing is attached at or below an index that is neither referenced nor a parent.\<close>

definition agg_unused :: "cake_aggregate pool \<Rightarrow> cake_sched pool \<Rightarrow> u32 \<Rightarrow> bool" where
  "agg_unused aggs scheds i \<longleftrightarrow> (\<forall>j s. pool_at scheds j = Some s \<longrightarrow> cs_agg s \<noteq> i) \<and>
     (\<forall>k a. pool_at aggs k = Some a \<longrightarrow> ag_parent a \<noteq> i)"

lemma unused_sums:
  assumes tree: "tree_ok aggs scheds" and un: "agg_unused aggs scheds i"
  shows "pool_sum (sched_charge aggs i) scheds = 0" "pool_sum (sched_weight i) scheds = 0"
    "pool_sum (sched_count i) scheds = 0" "pool_sum (sub_weight i) aggs = 0" "pool_sum (sub_count i) aggs = 0"
proof -
  have small: "pool_small scheds" "pool_small aggs" using tree by (auto simp: tree_ok_def aggs_wf_def)
  have "i \<notin> agg_above aggs (cs_agg s)" if "pool_at scheds j = Some s" for j s
    using un that agg_above_cases [of i aggs "cs_agg s"] unfolding agg_unused_def by blast
  then show "pool_sum (sched_charge aggs i) scheds = 0"
    by (intro pool_sum_zero small) (simp add: sched_charge_def)
  show "pool_sum (sched_weight i) scheds = 0" "pool_sum (sched_count i) scheds = 0"
    using un by (auto intro!: pool_sum_zero small simp: sched_weight_def sched_count_def agg_unused_def)
  show "pool_sum (sub_weight i) aggs = 0" "pool_sum (sub_count i) aggs = 0"
    using un by (auto intro!: pool_sum_zero small simp: sub_weight_def sub_count_def agg_unused_def)
qed

lemma fresh_unused:
  assumes tree: "tree_ok aggs scheds" and fresh: "pool_fresh aggs i"
  shows "agg_unused aggs scheds i"
proof -
  have wf: "aggs_wf aggs" using tree by (simp add: tree_ok_def)
  have "cs_agg s \<noteq> i" if "pool_at scheds j = Some s" for j s
  proof -
    have "agg_ref aggs (cs_agg s)" using tree that by (auto simp: tree_ok_def)
    then show ?thesis using fresh pool_fresh_at [OF fresh] by (auto simp: agg_ref_def agg_par_def)
  qed
  moreover have "ag_parent a \<noteq> i" if a: "pool_at aggs k = Some a" for k a
  proof (cases "ag_parent a = nil32")
    case False
    with aggs_wf_parent [OF wf a] show ?thesis using pool_fresh_at [OF fresh] by fastforce
  qed (use fresh in auto)
  ultimately show ?thesis by (simp add: agg_unused_def)
qed

lemma accounts_add_agg:
  assumes tree: "tree_ok aggs scheds" and acc: "accounts_ok aggs scheds" and fresh: "pool_fresh aggs i"
    and room: "Suc (length aggs + length scheds) < 2 ^ 32 - 1"
    and a: "ag_buffer_usage a = 0" "ag_active_weight a = 0" "ag_n_active a = 0"
    and parent: "ag_parent a = nil32 \<or> (\<exists>p. pool_at aggs (ag_parent a) = Some p \<and> ag_parent p = nil32)"
  defines "aggs' \<equiv> pool_get_put i a aggs"
  shows "tree_ok aggs' scheds \<and> accounts_ok aggs' scheds"
proof -
  have wf: "aggs_wf aggs" using tree by (simp add: tree_ok_def)
  have at: "pool_at aggs' j = (if j = i then Some a else pool_at aggs j)" for j
    unfolding aggs'_def by (rule pool_at_get_put [OF fresh])
  have par: "agg_par aggs' j = (if j = i then Some (ag_parent a) else agg_par aggs j)" for j
    by (simp add: agg_par_def at)
  have free: "agg_par aggs i = None" "i \<noteq> nil32" using fresh pool_fresh_at [OF fresh] by (auto simp: agg_par_def)
  have len: "length aggs' \<le> Suc (length aggs)" by (simp add: aggs'_def length_pool_get_put)
  have wf': "aggs_wf aggs'"
  proof -
    have "agg_par aggs (ag_parent a) = Some nil32" if "ag_parent a \<noteq> nil32"
      using parent that by (auto simp: agg_par_def)
    then show ?thesis using wf free len room
      unfolding aggs_wf_def par by (auto simp: pool_small_def)
  qed
  have above: "agg_above aggs' k = agg_above aggs k" if "agg_ref aggs k" for k
    using that free wf' by (auto simp: agg_above_def agg_ref_def par aggs_wf_def)
  have refs: "agg_ref aggs (cs_agg s)" if "pool_at scheds j = Some s" for j s
    using tree that by (auto simp: tree_ok_def)
  have tree': "tree_ok aggs' scheds"
    using tree wf' len room refs by (auto simp: tree_ok_def agg_ref_def par)
  note un = unused_sums [OF tree fresh_unused [OF tree fresh]]
  have small: "pool_small scheds" using tree by (simp add: tree_ok_def)
  have U: "pool_sum (sched_charge aggs' k) scheds = pool_sum (sched_charge aggs k) scheds" for k
    by (rule pool_sum_cong [OF small]) (simp add: sched_charge_def above [OF refs])
  have S: "pool_sum (sub_weight k) aggs' = pool_sum (sub_weight k) aggs"
    "pool_sum (sub_count k) aggs' = pool_sum (sub_count k) aggs" for k
    by (simp_all add: aggs'_def pool_sum_get_put [OF fresh] sub_weight_def sub_count_def a)
  show ?thesis
    using tree' acc un a by (auto simp: accounts_ok_def usage_ok_def weights_ok_def at U S)
qed

lemma accounts_remove_agg:
  assumes tree: "tree_ok aggs scheds" and acc: "accounts_ok aggs scheds" and un: "agg_unused aggs scheds i"
    and a: "pool_at aggs i = Some a"
  shows "tree_ok (pool_put i aggs) scheds \<and> accounts_ok (pool_put i aggs) scheds"
proof -
  let ?aggs' = "pool_put i aggs"
  have wf: "aggs_wf aggs" using tree by (simp add: tree_ok_def)
  have par: "agg_par ?aggs' j = (if j = i then None else agg_par aggs j)" for j
    by (simp add: agg_par_def pool_at_put)
  have ne: "q \<noteq> i" if "agg_par aggs k = Some q" for k q
    using un that by (auto simp: agg_unused_def agg_par_def)
  have par_wf: "pool_small aggs" "agg_par aggs nil32 = None"
    "\<And>k q. agg_par aggs k = Some q \<Longrightarrow> q \<noteq> nil32 \<Longrightarrow> agg_par aggs q = Some nil32"
    using wf by (auto simp: aggs_wf_def)
  have wf': "aggs_wf ?aggs'"
    unfolding aggs_wf_def
  proof (intro conjI allI impI)
    fix k q
    assume "agg_par ?aggs' k = Some q" "q \<noteq> nil32"
    then show "agg_par ?aggs' q = Some nil32" using ne par_wf(3) by (auto simp: par split: if_splits)
  qed (use par_wf in \<open>simp_all add: par pool_small_def\<close>)
  have above: "agg_above ?aggs' k = agg_above aggs k" if "k \<noteq> i" for k
    using that by (simp add: agg_above_def par)
  have refs: "agg_ref aggs (cs_agg s)" "cs_agg s \<noteq> i" if "pool_at scheds j = Some s" for j s
    using tree un that by (auto simp: tree_ok_def agg_unused_def)
  have tree': "tree_ok ?aggs' scheds"
    using tree wf' refs by (auto simp: tree_ok_def agg_ref_def par)
  have small: "pool_small scheds" using tree by (simp add: tree_ok_def)
  have U: "pool_sum (sched_charge ?aggs' k) scheds = pool_sum (sched_charge aggs k) scheds" for k
    by (rule pool_sum_cong [OF small]) (simp add: sched_charge_def above [OF refs(2)])
  have "unat (ag_n_active a) = 0"
    using acc a unused_sums [OF tree un] by (simp add: accounts_ok_def weights_ok_def)
  then have na: "ag_n_active a = 0" by (simp add: unat_eq_0)
  have S: "pool_sum (sub_weight k) ?aggs' = pool_sum (sub_weight k) aggs"
    "pool_sum (sub_count k) ?aggs' = pool_sum (sub_count k) aggs" for k
    using pool_sum_put [OF a, of "sub_weight k"] pool_sum_put [OF a, of "sub_count k"]
    by (simp_all add: sub_weight_def sub_count_def na)
  show ?thesis
    using tree' acc by (auto simp: accounts_ok_def usage_ok_def weights_ok_def pool_at_put U S)
qed

section \<open>The invariant of the configuration\<close>

definition rates_ok :: "cake_aggregate pool \<Rightarrow> bool" where
  "rates_ok aggs \<longleftrightarrow> (\<forall>i a p. pool_at aggs i = Some a \<longrightarrow> pool_at aggs (ag_parent a) = Some p \<longrightarrow>
     ag_rate a \<le> ag_rate p)"

definition cake_inv :: "cake_main \<Rightarrow> bool" where
  "cake_inv cm \<longleftrightarrow> tree_ok (cm_aggs cm) (cm_scheds cm) \<and> accounts_ok (cm_aggs cm) (cm_scheds cm) \<and>
     maps_ok (cm_agg_by_if cm) (cm_aggs cm) \<and> rates_ok (cm_aggs cm)"

text \<open>Room for one more aggregate or scheduler.\<close>

definition cake_room :: "cake_main \<Rightarrow> bool" where
  "cake_room cm \<longleftrightarrow> Suc (length (cm_aggs cm) + length (cm_scheds cm)) < 2 ^ 32 - 1"

lemma rates_okD:
  "rates_ok aggs \<Longrightarrow> pool_at aggs i = Some a \<Longrightarrow> pool_at aggs (ag_parent a) = Some p \<Longrightarrow> ag_rate a \<le> ag_rate p"
  by (simp add: rates_ok_def)

lemma same_cfg_rates:
  assumes "same_cfg aggs aggs'" and "rates_ok aggs"
  shows "rates_ok aggs'"
  unfolding rates_ok_def
proof (intro allI impI)
  fix i a' p'
  assume a': "pool_at aggs' i = Some a'" and p': "pool_at aggs' (ag_parent a') = Some p'"
  obtain a where a: "pool_at aggs i = Some a" "agg_cfg a' = agg_cfg a" using same_cfg_back [OF assms(1) a'] by blast
  obtain p where p: "pool_at aggs (ag_parent a') = Some p" "agg_cfg p' = agg_cfg p"
    using same_cfg_back [OF assms(1) p'] by blast
  have "ag_rate a \<le> ag_rate p" using rates_okD [OF assms(2) a(1), of p] a(2) p(1) by (simp add: agg_cfg_def)
  then show "ag_rate a' \<le> ag_rate p'" using a(2) p(2) by (simp add: agg_cfg_def)
qed

lemma reparent_inv:
  assumes "cake_inv cm" and "cake_agg_reparent_all ifs cm = Some cm'"
  shows "cake_inv cm' \<and> same_cfg (cm_aggs cm) (cm_aggs cm') \<and> cm_agg_by_if cm' = cm_agg_by_if cm \<and>
    (\<forall>j s. pool_at (cm_scheds cm') j = Some s \<longrightarrow> cs_agg s \<in> agg_targets (cm_agg_by_if cm) (cm_aggs cm))"
proof -
  have inv: "tree_ok (cm_aggs cm) (cm_scheds cm)" "accounts_ok (cm_aggs cm) (cm_scheds cm)"
    "maps_ok (cm_agg_by_if cm) (cm_aggs cm)" "rates_ok (cm_aggs cm)"
    using assms(1) by (simp_all add: cake_inv_def)
  note r = reparent_all_inv [OF inv(1-3) assms(2)]
  then have cfg: "same_cfg (cm_aggs cm) (cm_aggs cm')" by blast
  from r same_cfg_maps [OF cfg inv(3)] same_cfg_rates [OF cfg inv(4)] show ?thesis
    by (simp add: cake_inv_def)
qed

lemma nth_validate: "k < length (vec_validate_init_empty v n x) \<Longrightarrow>
    vec_validate_init_empty v n x ! k = (if k < length v then v ! k else x)"
  by (simp add: vec_validate_init_empty_def nth_append)

lemma length_validate: "n < length (vec_validate_init_empty v n x)"
  by (simp add: vec_validate_init_empty_def)

lemma maps_okI:
  assumes "\<And>k. k < length by_if \<Longrightarrow> by_if ! k \<noteq> nil32 \<Longrightarrow> \<exists>a. pool_at aggs (by_if ! k) = Some a \<and> port_ok k a"
    and "\<And>i a t. pool_at aggs i = Some a \<Longrightarrow> t < length (ag_svlan_map a) \<Longrightarrow> ag_svlan_map a ! t \<noteq> nil32 \<Longrightarrow>
      \<exists>b. pool_at aggs (ag_svlan_map a ! t) = Some b \<and> child_ok i t b"
    and "\<And>i a. pool_at aggs i = Some a \<Longrightarrow> ag_parent a \<noteq> nil32 \<Longrightarrow> ag_svlan_map a = []"
  shows "maps_ok by_if aggs"
  using assms unfolding maps_ok_def by blast

lemma maps_ok_by_if:
  assumes maps: "maps_ok by_if aggs"
    and sub: "\<And>k. k < length by_if' \<Longrightarrow> by_if' ! k \<noteq> nil32 \<Longrightarrow>
      \<exists>a. pool_at aggs (by_if' ! k) = Some a \<and> port_ok k a"
  shows "maps_ok by_if' aggs"
  by (rule maps_okI [OF sub maps_okD(2,3) [OF maps]])

lemma cake_inv_validate:
  assumes "cake_inv cm"
  shows "cake_inv (cm\<lparr>cm_agg_by_if := vec_validate_init_empty (cm_agg_by_if cm) n nil32\<rparr>)"
proof -
  let ?by = "cm_agg_by_if cm" and ?by' = "vec_validate_init_empty (cm_agg_by_if cm) n nil32"
  have maps: "maps_ok ?by (cm_aggs cm)" using assms by (simp add: cake_inv_def)
  have "maps_ok ?by' (cm_aggs cm)"
  proof (rule maps_ok_by_if [OF maps])
    fix k
    assume "k < length ?by'" "?by' ! k \<noteq> nil32"
    then have "k < length ?by" "?by' ! k = ?by ! k" by (simp_all add: nth_validate split: if_splits)
    with maps_okD(1) [OF maps, of k] \<open>?by' ! k \<noteq> nil32\<close>
    show "\<exists>a. pool_at (cm_aggs cm) (?by' ! k) = Some a \<and> port_ok k a" by simp
  qed
  with assms show ?thesis by (simp add: cake_inv_def)
qed

text \<open>Creation of a port aggregate.\<close>

lemma agg_new_fields [simp]:
  "ag_buffer_usage (agg_new now n sw i r w b l) = 0" "ag_active_weight (agg_new now n sw i r w b l) = 0"
  "ag_n_active (agg_new now n sw i r w b l) = 0" "ag_sw_if_index (agg_new now n sw i r w b l) = sw"
  "ag_rate (agg_new now n sw i r w b l) = r"
  by (simp_all add: agg_new_def cake_aggregate_zero_def Let_def)

lemma maps_ok_add:
  assumes maps: "maps_ok by_if aggs" and fresh: "pool_fresh aggs i"
    and a: "ag_svlan_map a = [] \<or> (ag_parent a = nil32 \<and> set (ag_svlan_map a) \<subseteq> {nil32})"
  shows "maps_ok by_if (pool_get_put i a aggs)"
proof -
  note at = pool_at_get_put [OF fresh]
  have keep: "pool_at (pool_get_put i a aggs) j = Some b" if "pool_at aggs j = Some b" for j b
    using that pool_fresh_at [OF fresh] by (auto simp: at)
  show ?thesis
  proof (rule maps_okI)
    show "\<exists>b. pool_at (pool_get_put i a aggs) (by_if ! k) = Some b \<and> port_ok k b"
      if "k < length by_if" "by_if ! k \<noteq> nil32" for k
      using maps_okD(1) [OF maps that] keep by blast
    fix j b
    assume jb: "pool_at (pool_get_put i a aggs) j = Some b"
    show "\<exists>c. pool_at (pool_get_put i a aggs) (ag_svlan_map b ! t) = Some c \<and> child_ok j t c"
      if t: "t < length (ag_svlan_map b)" "ag_svlan_map b ! t \<noteq> nil32" for t
    proof (cases "j = i")
      case True
      then have "b = a" using jb by (simp add: at)
      with a t have "set (ag_svlan_map a) \<subseteq> {nil32}" by auto
      moreover have "ag_svlan_map a ! t \<in> set (ag_svlan_map a)" using t(1) \<open>b = a\<close> by simp
      ultimately show ?thesis using t(2) \<open>b = a\<close> by blast
    next
      case False
      then have "pool_at aggs j = Some b" using jb by (simp add: at)
      from maps_okD(2) [OF maps this t] keep show ?thesis by blast
    qed
    show "ag_svlan_map b = []" if "ag_parent b \<noteq> nil32"
      using jb that a maps_okD(3) [OF maps, of j b] by (auto simp: at split: if_splits)
  qed
qed

lemma svlan_clean: "set (replicate n nil32) \<subseteq> {nil32 :: u32}"
  by (auto dest: in_set_replicate [THEN iffD1])

lemma create_inv:
  assumes inv: "cake_inv cm" and fresh: "pool_fresh (cm_aggs cm) i" and room: "cake_room cm"
    and k: "k < length (cm_agg_by_if cm)" "cm_agg_by_if cm ! k = nil32"
    and a: "ag_buffer_usage a = 0" "ag_active_weight a = 0" "ag_n_active a = 0" "ag_parent a = nil32"
      "ag_svlan_map a = replicate CAKE_SVLAN_MAX nil32" "unat (ag_sw_if_index a) = k"
  shows "cake_inv (cm\<lparr>cm_aggs := pool_get_put i a (cm_aggs cm), cm_agg_by_if := (cm_agg_by_if cm)[k := i]\<rparr>)"
proof -
  let ?aggs = "cm_aggs cm" and ?by = "cm_agg_by_if cm"
  have tree: "tree_ok ?aggs (cm_scheds cm)" and acc: "accounts_ok ?aggs (cm_scheds cm)"
    and maps: "maps_ok ?by ?aggs" and rates: "rates_ok ?aggs" using inv by (simp_all add: cake_inv_def)
  note at = pool_at_get_put [OF fresh]
  have 1: "tree_ok (pool_get_put i a ?aggs) (cm_scheds cm) \<and> accounts_ok (pool_get_put i a ?aggs) (cm_scheds cm)"
    using room a by (intro accounts_add_agg [OF tree acc fresh]) (simp_all add: cake_room_def)
  have m: "maps_ok ?by (pool_get_put i a ?aggs)"
    using a svlan_clean by (intro maps_ok_add [OF maps fresh]) simp
  have "maps_ok (?by[k := i]) (pool_get_put i a ?aggs)"
  proof (rule maps_ok_by_if [OF m])
    show "\<exists>b. pool_at (pool_get_put i a ?aggs) (?by[k := i] ! j) = Some b \<and> port_ok j b"
      if j: "j < length (?by[k := i])" "?by[k := i] ! j \<noteq> nil32" for j
      using j a k maps_okD(1) [OF m, of j] by (cases "j = k") (simp_all add: at port_ok_def)
  qed
  moreover have "rates_ok (pool_get_put i a ?aggs)"
  proof -
    have "ag_parent b \<noteq> i" if "pool_at ?aggs j = Some b" for j b
      using fresh_unused [OF tree fresh] that by (simp add: agg_unused_def)
    moreover have "pool_at ?aggs nil32 = None" using tree by (simp add: tree_ok_def)
    moreover have "i \<noteq> nil32" using fresh by auto
    ultimately show ?thesis using rates a by (auto simp: rates_ok_def at)
  qed
  ultimately show ?thesis using 1 by (simp add: cake_inv_def)
qed

lemma aggregate_create_inv:
  assumes inv: "cake_inv cm" and fresh: "pool_fresh (cm_aggs cm) agg_idx" and room: "cake_room cm"
    and op: "cake_aggregate_create ifs valid now n agg_idx cm sw rate weight burst limit = Some (rv, cm')"
  shows "cake_inv cm'"
proof -
  let ?cm1 = "cm\<lparr>cm_agg_by_if := vec_validate_init_empty (cm_agg_by_if cm) (unat sw) nil32\<rparr>"
  have inv1: "cake_inv ?cm1" by (rule cake_inv_validate [OF inv])
  consider "cm' = cm" | "cm' = ?cm1"
    | a where "cm_agg_by_if ?cm1 ! unat sw = nil32" and
      "ag_buffer_usage a = 0" "ag_active_weight a = 0" "ag_n_active a = 0" "ag_parent a = nil32"
      "ag_svlan_map a = replicate CAKE_SVLAN_MAX nil32" "unat (ag_sw_if_index a) = unat sw"
      "cake_agg_reparent_all ifs (?cm1\<lparr>cm_aggs := pool_get_put agg_idx a (cm_aggs ?cm1),
        cm_agg_by_if := (cm_agg_by_if ?cm1)[unat sw := agg_idx]\<rparr>) = Some cm'"
  proof -
    let ?a = "(agg_new now n sw agg_idx rate weight (burst_or_default burst) limit)
      \<lparr>ag_level := CAKE_AGG_LEVEL_PORT, ag_parent := nil32,
       ag_svlan_map := replicate CAKE_SVLAN_MAX nil32, ag_buffer_usage := 0\<rparr>"
    from op that(1,2) that(3) [of ?a] show thesis
      by (auto simp: cake_aggregate_create_def Let_def split: if_splits Option.bind_splits)
  qed
  then show ?thesis
  proof cases
    case 3
    have "cake_inv (?cm1\<lparr>cm_aggs := pool_get_put agg_idx a (cm_aggs ?cm1),
        cm_agg_by_if := (cm_agg_by_if ?cm1)[unat sw := agg_idx]\<rparr>)"
      using 3 fresh room by (intro create_inv [OF inv1]) (simp_all add: length_validate cake_room_def)
    from reparent_inv [OF this 3(8)] show ?thesis by blast
  qed (use inv inv1 in simp_all)
qed

text \<open>Removal of an aggregate nothing refers to.\<close>

lemma remove_inv:
  assumes inv: "cake_inv cm" and a: "pool_at (cm_aggs cm) i = Some a"
    and scheds: "\<And>j s. pool_at (cm_scheds cm) j = Some s \<Longrightarrow> cs_agg s \<in> agg_targets (cm_agg_by_if cm) (cm_aggs cm)"
    and tgt: "i \<notin> agg_targets (cm_agg_by_if cm) (cm_aggs cm)"
    and maps: "\<And>j b t. pool_at (cm_aggs cm) j = Some b \<Longrightarrow> t < length (ag_svlan_map b) \<Longrightarrow> ag_svlan_map b ! t \<noteq> i"
    and child: "\<And>j b. pool_at (cm_aggs cm) j = Some b \<Longrightarrow> ag_parent b \<noteq> i"
  shows "cake_inv (cm\<lparr>cm_aggs := pool_put i (cm_aggs cm)\<rparr>)"
proof -
  let ?aggs = "cm_aggs cm"
  have tree: "tree_ok ?aggs (cm_scheds cm)" and acc: "accounts_ok ?aggs (cm_scheds cm)"
    and mok: "maps_ok (cm_agg_by_if cm) ?aggs" and rates: "rates_ok ?aggs"
    using inv by (simp_all add: cake_inv_def)
  have un: "agg_unused ?aggs (cm_scheds cm) i"
    using scheds tgt child by (fastforce simp: agg_unused_def)
  have keep: "pool_at (pool_put i ?aggs) j = pool_at ?aggs j" if "j \<noteq> i" for j
    using that by (simp add: pool_at_put)
  have "maps_ok (cm_agg_by_if cm) (pool_put i ?aggs)"
  proof (rule maps_okI)
    show "\<exists>a. pool_at (pool_put i ?aggs) (cm_agg_by_if cm ! k) = Some a \<and> port_ok k a"
      if "k < length (cm_agg_by_if cm)" "cm_agg_by_if cm ! k \<noteq> nil32" for k
    proof -
      have "cm_agg_by_if cm ! k \<noteq> i" using tgt that nth_mem by (force simp: agg_targets_def)
      with maps_okD(1) [OF mok that] keep show ?thesis by simp
    qed
    fix j b
    assume "pool_at (pool_put i ?aggs) j = Some b"
    then have b: "pool_at ?aggs j = Some b" by (simp add: pool_at_put split: if_splits)
    show "\<exists>c. pool_at (pool_put i ?aggs) (ag_svlan_map b ! t) = Some c \<and> child_ok j t c"
      if t: "t < length (ag_svlan_map b)" "ag_svlan_map b ! t \<noteq> nil32" for t
      using maps_okD(2) [OF mok b t] keep [OF maps [OF b t(1)]] by simp
    show "ag_svlan_map b = []" if "ag_parent b \<noteq> nil32" by (rule maps_okD(3) [OF mok b that])
  qed
  moreover have "rates_ok (pool_put i ?aggs)"
    using rates unfolding rates_ok_def by (simp add: pool_at_put)
  ultimately show ?thesis
    using accounts_remove_agg [OF tree acc un a] by (simp add: cake_inv_def)
qed

lemma same_cfg_par:
  assumes "same_cfg aggs aggs'" and "pool_at aggs' j = Some b'"
  obtains b where "pool_at aggs j = Some b" "ag_parent b' = ag_parent b" "ag_svlan_map b' = ag_svlan_map b"
  using same_cfg_back [OF assms] by (auto simp: agg_cfg_def)

lemma in_targetsE:
  assumes "m \<in> agg_targets by_if aggs" and "m \<noteq> nil32"
  obtains k where "k < length by_if" "by_if ! k = m"
  | i a t where "pool_at aggs i = Some a" "t < length (ag_svlan_map a)" "ag_svlan_map a ! t = m"
  using assms by (auto simp: agg_targets_def in_set_conv_nth)

lemma has_child:
  assumes "\<not> agg_has_child i aggs" and "pool_at aggs j = Some b"
  shows "ag_parent b \<noteq> i"
proof -
  have "unat j < length aggs" "aggs ! unat j = Some b" using assms(2) by (auto simp: pool_at_def split: if_splits)
  then have "Some b \<in> set aggs" by (metis nth_mem)
  with assms(1) show ?thesis by (force simp: agg_has_child_def list_ex_iff)
qed

lemma aggregate_delete_inv:
  assumes inv: "cake_inv cm" and op: "cake_aggregate_delete ifs cm sw = Some (rv, cm')"
  shows "cake_inv cm'"
proof -
  let ?cm1 = "cm\<lparr>cm_agg_by_if := vec_validate_init_empty (cm_agg_by_if cm) (unat sw) nil32\<rparr>"
  let ?by = "cm_agg_by_if ?cm1" and ?aggs = "cm_aggs cm"
  let ?i = "?by ! unat sw"
  let ?cm2 = "?cm1\<lparr>cm_agg_by_if := ?by[unat sw := nil32]\<rparr>"
  have inv1: "cake_inv ?cm1" by (rule cake_inv_validate [OF inv])
  have maps1: "maps_ok ?by ?aggs" and tree: "tree_ok ?aggs (cm_scheds cm)"
    using inv1 by (simp_all add: cake_inv_def)
  consider "cm' = ?cm1"
    | cm3 where "?i \<noteq> nil32" "\<not> agg_has_child ?i ?aggs" "cake_agg_reparent_all ifs ?cm2 = Some cm3"
        "cm' = cm3\<lparr>cm_aggs := pool_put ?i (cm_aggs cm3)\<rparr>"
    using op by (auto simp: cake_aggregate_delete_def Let_def split: if_splits Option.bind_splits)
  then show ?thesis
  proof cases
    case 2
    have len: "unat sw < length ?by" by (simp add: length_validate)
    obtain a where a: "pool_at ?aggs ?i = Some a" "port_ok (unat sw) a"
      using maps_okD(1) [OF maps1 len 2(1)] by blast
    have maps2: "maps_ok (?by[unat sw := nil32]) ?aggs"
    proof (rule maps_ok_by_if [OF maps1])
      show "\<exists>a. pool_at ?aggs (?by[unat sw := nil32] ! k) = Some a \<and> port_ok k a"
        if k: "k < length (?by[unat sw := nil32])" "?by[unat sw := nil32] ! k \<noteq> nil32" for k
        using k maps_okD(1) [OF maps1, of k] by (cases "k = unat sw") simp_all
    qed
    have inv2: "cake_inv ?cm2" using inv1 maps2 by (simp add: cake_inv_def)
    note r = reparent_inv [OF inv2 2(3)]
    then have cfg: "same_cfg ?aggs (cm_aggs cm3)" and by3: "cm_agg_by_if cm3 = ?by[unat sw := nil32]" by simp_all
    have nomap: "ag_svlan_map b ! t \<noteq> ?i" if "pool_at ?aggs j = Some b" "t < length (ag_svlan_map b)" for j b t
    proof
      assume m: "ag_svlan_map b ! t = ?i"
      with maps_okD(2) [OF maps1 that] 2(1) a have "ag_parent a = j" by (auto simp: child_ok_def)
      moreover have "ag_parent a = nil32" using a(2) by (simp add: port_ok_def)
      ultimately have "j = nil32" by simp
      with that(1) tree show False by (simp add: tree_ok_def)
    qed
    have "?i \<notin> agg_targets (?by[unat sw := nil32]) ?aggs"
    proof
      assume "?i \<in> agg_targets (?by[unat sw := nil32]) ?aggs"
      then show False using 2(1)
      proof (rule in_targetsE)
        fix k
        assume k: "k < length (?by[unat sw := nil32])" "?by[unat sw := nil32] ! k = ?i"
        with 2(1) have "k \<noteq> unat sw" by auto
        with k have "k < length ?by" "?by ! k = ?i" by simp_all
        with maps_okD(1) [OF maps1, of k] 2(1) a have "port_ok k a" by auto
        with a(2) \<open>k \<noteq> unat sw\<close> show False by (simp add: port_ok_def)
      qed (use nomap in blast)
    qed
    then have tgt: "?i \<notin> agg_targets (cm_agg_by_if cm3) (cm_aggs cm3)"
      by (simp add: by3 same_cfg_targets [OF cfg])
    obtain a3 where a3: "pool_at (cm_aggs cm3) ?i = Some a3" using same_cfg_fwd [OF cfg a(1)] by blast
    have "cake_inv (cm3\<lparr>cm_aggs := pool_put ?i (cm_aggs cm3)\<rparr>)"
    proof (rule remove_inv [OF _ a3 _ tgt])
      show "cake_inv cm3" using r by blast
      show "cs_agg s \<in> agg_targets (cm_agg_by_if cm3) (cm_aggs cm3)" if "pool_at (cm_scheds cm3) j = Some s" for j s
        using r that by (simp add: by3 same_cfg_targets [OF cfg])
      fix j b
      assume "pool_at (cm_aggs cm3) j = Some b"
      then obtain b0 where "pool_at ?aggs j = Some b0" "ag_parent b = ag_parent b0" "ag_svlan_map b = ag_svlan_map b0"
        by (rule same_cfg_par [OF cfg])
      then show "ag_svlan_map b ! t \<noteq> ?i" if "t < length (ag_svlan_map b)" for t
        using nomap that by simp
      show "ag_parent b \<noteq> ?i" using has_child [OF 2(2)] \<open>pool_at ?aggs j = Some b0\<close> \<open>ag_parent b = ag_parent b0\<close> by simp
    qed
    then show ?thesis by (simp only: 2(4))
  qed (use inv1 in simp)
qed

text \<open>S-VLAN sets.\<close>

lemma length_map_set [simp]: "length (svlan_map_set tags idx m) = length m"
  unfolding svlan_map_set_def by (induction tags arbitrary: m) auto

lemma nth_map_set:
  "t < length m \<Longrightarrow> svlan_map_set tags idx m ! t = (if t \<in> set tags then idx else m ! t)"
proof (induction tags arbitrary: m)
  case (Cons u tags)
  have "svlan_map_set (u # tags) idx m = svlan_map_set tags idx (m[u := idx])" by (simp add: svlan_map_set_def)
  with Cons show ?case by (auto simp: nth_list_update)
qed (simp add: svlan_map_set_def)

lemma length_map_clear [simp]: "length (svlan_map_clear tags idx m) = length m"
  unfolding svlan_map_clear_def by (induction tags arbitrary: m) auto

lemma nth_map_clear:
  "t < length m \<Longrightarrow> svlan_map_clear tags idx m ! t = (if t \<in> set tags \<and> m ! t = idx then nil32 else m ! t)"
proof (induction tags arbitrary: m)
  case (Cons u tags)
  have "svlan_map_clear (u # tags) idx m = svlan_map_clear tags idx (if m ! u = idx then m[u := nil32] else m)"
    by (simp add: svlan_map_clear_def)
  with Cons show ?case by (cases "u = t") (auto simp: nth_list_update)
qed (simp add: svlan_map_clear_def)

lemma set_svlan_tags: "t \<in> set (svlan_tags a b) \<longleftrightarrow> unat a \<le> t \<and> t \<le> unat b"
  by (auto simp: svlan_tags_def)

lemma same_accounts_map:
  assumes "\<And>a. acct_view (f a) = acct_view a"
  shows "same_accounts aggs (pool_upd i f aggs)"
  using assms by (auto simp: same_accounts_def pool_at_upd option.map_comp intro!: option.map_cong)

lemma tree_ok_shape: "same_shape aggs aggs' \<Longrightarrow> tree_ok aggs scheds \<Longrightarrow> tree_ok aggs' scheds"
  using same_shape_facts [of aggs aggs'] by (auto simp: tree_ok_def same_shape_def)

lemma rates_ok_back:
  assumes "rates_ok aggs"
    and bk: "\<And>j a. pool_at aggs' j = Some a \<Longrightarrow>
      \<exists>a0. pool_at aggs j = Some a0 \<and> ag_parent a = ag_parent a0 \<and> ag_rate a = ag_rate a0"
  shows "rates_ok aggs'"
  unfolding rates_ok_def
proof (intro allI impI)
  fix j a q
  assume a: "pool_at aggs' j = Some a" and q: "pool_at aggs' (ag_parent a) = Some q"
  from bk [OF a] obtain a0 where a0: "pool_at aggs j = Some a0" "ag_parent a = ag_parent a0" "ag_rate a = ag_rate a0" by blast
  from bk [OF q] obtain q0 where "pool_at aggs (ag_parent a) = Some q0" "ag_rate q = ag_rate q0" by blast
  with a0 rates_okD [OF assms(1) a0(1), of q0] show "ag_rate a \<le> ag_rate q" by simp
qed

text \<open>A change of one port's map only.\<close>

lemma map_change_inv:
  assumes inv: "cake_inv cm" and port: "pool_at (cm_aggs cm) i = Some p" and root: "ag_parent p = nil32"
    and len: "length m = length (ag_svlan_map p)"
    and m: "\<And>t. t < length m \<Longrightarrow> m ! t \<noteq> nil32 \<Longrightarrow> \<exists>b. pool_at (cm_aggs cm) (m ! t) = Some b \<and> child_ok i t b"
  shows "cake_inv (cm\<lparr>cm_aggs := pool_upd i (\<lambda>p. p\<lparr>ag_svlan_map := m\<rparr>) (cm_aggs cm)\<rparr>)"
proof -
  let ?aggs = "cm_aggs cm" and ?aggs' = "pool_upd i (\<lambda>p. p\<lparr>ag_svlan_map := m\<rparr>) (cm_aggs cm)"
  have tree: "tree_ok ?aggs (cm_scheds cm)" and acc: "accounts_ok ?aggs (cm_scheds cm)"
    and mok: "maps_ok (cm_agg_by_if cm) ?aggs" and rates: "rates_ok ?aggs"
    using inv by (simp_all add: cake_inv_def)
  have same: "same_accounts ?aggs ?aggs'" by (rule same_accounts_map) (simp add: acct_view_def)
  have small: "pool_small ?aggs" using tree by (simp add: tree_ok_def aggs_wf_def)
  have keep: "\<exists>b'. pool_at ?aggs' j = Some b' \<and> port_ok k b' = port_ok k b \<and> child_ok q t b' = child_ok q t b"
    if "pool_at ?aggs j = Some b" for j b k q t
    using that port len by (auto simp: pool_at_upd port_ok_def child_ok_def)
  have "maps_ok (cm_agg_by_if cm) ?aggs'"
  proof (rule maps_okI)
    show "\<exists>a. pool_at ?aggs' (cm_agg_by_if cm ! k) = Some a \<and> port_ok k a"
      if "k < length (cm_agg_by_if cm)" "cm_agg_by_if cm ! k \<noteq> nil32" for k
      using maps_okD(1) [OF mok that] keep by blast
    fix j b
    assume b: "pool_at ?aggs' j = Some b"
    show "\<exists>c. pool_at ?aggs' (ag_svlan_map b ! t) = Some c \<and> child_ok j t c"
      if t: "t < length (ag_svlan_map b)" "ag_svlan_map b ! t \<noteq> nil32" for t
    proof (cases "j = i")
      case True
      then have "ag_svlan_map b = m" using b port by (auto simp: pool_at_upd)
      with t m [of t] keep True show ?thesis by metis
    next
      case False
      then have "pool_at ?aggs j = Some b" using b by (simp add: pool_at_upd)
      from maps_okD(2) [OF mok this t] keep show ?thesis by blast
    qed
    show "ag_svlan_map b = []" if "ag_parent b \<noteq> nil32"
      using b that root port maps_okD(3) [OF mok, of j b] by (auto simp: pool_at_upd split: if_splits)
  qed
  moreover have "rates_ok ?aggs'"
  proof (rule rates_ok_back [OF rates])
    fix j a
    assume "pool_at ?aggs' j = Some a"
    then show "\<exists>a0. pool_at ?aggs j = Some a0 \<and> ag_parent a = ag_parent a0 \<and> ag_rate a = ag_rate a0"
      by (cases "j = i") (auto simp: pool_at_upd port)
  qed
  ultimately show ?thesis
    using accounts_ok_same [OF small same acc] tree_ok_shape [OF same_accounts_shape [OF same] tree]
    by (simp add: cake_inv_def)
qed

lemma svlan_create_inv:
  assumes inv: "cake_inv cm" and fresh: "pool_fresh (cm_aggs cm) agg_idx" and room: "cake_room cm"
    and op: "cake_svlan_aggregate_create ifs now n agg_idx cm sw a b rate weight burst limit = Some (rv, cm')"
  shows "cake_inv cm'"
proof -
  let ?cm1 = "cm\<lparr>cm_agg_by_if := vec_validate_init_empty (cm_agg_by_if cm) (unat sw) nil32\<rparr>"
  let ?by = "cm_agg_by_if ?cm1" and ?aggs = "cm_aggs cm"
  let ?i = "?by ! unat sw"
  let ?agg = "(agg_new now n sw agg_idx rate weight (burst_or_default burst) limit)
    \<lparr>ag_level := CAKE_AGG_LEVEL_SVLAN, ag_parent := ?i, ag_svlan_id := a, ag_svlan_id_end := b, ag_svlan_map := []\<rparr>"
  let ?aggs1 = "pool_get_put agg_idx ?agg ?aggs"
  let ?aggs2 = "pool_upd ?i (\<lambda>p. p\<lparr>ag_svlan_map := svlan_map_set (svlan_tags a b) agg_idx (ag_svlan_map p)\<rparr>) ?aggs1"
  have inv1: "cake_inv ?cm1" by (rule cake_inv_validate [OF inv])
  have maps1: "maps_ok ?by ?aggs" and tree: "tree_ok ?aggs (cm_scheds cm)"
    and acc: "accounts_ok ?aggs (cm_scheds cm)" and rates: "rates_ok ?aggs"
    using inv1 by (simp_all add: cake_inv_def)
  consider "cm' = cm" | "cm' = ?cm1"
    | p where "?i \<noteq> nil32" "pool_at ?aggs ?i = Some p" "\<not> rate > ag_rate p"
        "cake_agg_reparent_all ifs (?cm1\<lparr>cm_aggs := ?aggs2\<rparr>) = Some cm'"
    using op by (auto simp: cake_svlan_aggregate_create_def Let_def split: if_splits Option.bind_splits option.splits)
  then show ?thesis
  proof cases
    case 3
    note at = pool_at_get_put [OF fresh]
    have len: "unat sw < length ?by" by (simp add: length_validate)
    have p: "port_ok (unat sw) p" using maps_okD(1) [OF maps1 len 3(1)] 3(2) by auto
    then have root: "ag_parent p = nil32" by (simp add: port_ok_def)
    have ne: "?i \<noteq> agg_idx" using 3(2) pool_fresh_at [OF fresh] by auto
    have add: "tree_ok ?aggs1 (cm_scheds cm) \<and> accounts_ok ?aggs1 (cm_scheds cm)"
      using room 3(2) root by (intro accounts_add_agg [OF tree acc fresh]) (simp_all add: cake_room_def)
    have madd: "maps_ok ?by ?aggs1" by (rule maps_ok_add [OF maps1 fresh]) simp
    have radd: "rates_ok ?aggs1"
    proof -
      have "ag_parent b \<noteq> agg_idx" if "pool_at ?aggs j = Some b" for j b
        using fresh_unused [OF tree fresh] that by (simp add: agg_unused_def)
      then show ?thesis using rates 3(2,3) ne by (auto simp: rates_ok_def at)
    qed
    have inva: "cake_inv (?cm1\<lparr>cm_aggs := ?aggs1\<rparr>)" using add madd radd by (simp add: cake_inv_def)
    have p1: "pool_at ?aggs1 ?i = Some p" using 3(2) ne by (simp add: at)
    have "cake_inv (?cm1\<lparr>cm_aggs := pool_upd ?i (\<lambda>q. q\<lparr>ag_svlan_map :=
        svlan_map_set (svlan_tags a b) agg_idx (ag_svlan_map p)\<rparr>) ?aggs1\<rparr>)"
    proof -
      have "cake_inv ((?cm1\<lparr>cm_aggs := ?aggs1\<rparr>)\<lparr>cm_aggs := pool_upd ?i (\<lambda>q. q\<lparr>ag_svlan_map :=
          svlan_map_set (svlan_tags a b) agg_idx (ag_svlan_map p)\<rparr>) (cm_aggs (?cm1\<lparr>cm_aggs := ?aggs1\<rparr>))\<rparr>)"
      proof (rule map_change_inv [OF inva])
        show "pool_at (cm_aggs (?cm1\<lparr>cm_aggs := ?aggs1\<rparr>)) ?i = Some p" using p1 by simp
        fix t
        assume t: "t < length (svlan_map_set (svlan_tags a b) agg_idx (ag_svlan_map p))"
          and nn: "svlan_map_set (svlan_tags a b) agg_idx (ag_svlan_map p) ! t \<noteq> nil32"
        show "\<exists>c. pool_at (cm_aggs (?cm1\<lparr>cm_aggs := ?aggs1\<rparr>))
            (svlan_map_set (svlan_tags a b) agg_idx (ag_svlan_map p) ! t) = Some c \<and> child_ok ?i t c"
        proof (cases "t \<in> set (svlan_tags a b)")
          case True
          with t show ?thesis by (simp add: nth_map_set at child_ok_def set_svlan_tags)
        next
          case False
          with t nn maps_okD(2) [OF madd p1, of t] show ?thesis by (simp add: nth_map_set)
        qed
      qed (simp_all add: root)
      then show ?thesis by simp
    qed
    moreover have "pool_upd ?i (\<lambda>q. q\<lparr>ag_svlan_map := svlan_map_set (svlan_tags a b) agg_idx (ag_svlan_map p)\<rparr>) ?aggs1
        = ?aggs2"
      using p1 by (auto simp: pool_upd_def pool_at_def split: if_splits)
    ultimately have "cake_inv (?cm1\<lparr>cm_aggs := ?aggs2\<rparr>)" by simp
    from reparent_inv [OF this 3(4)] show ?thesis by blast
  qed (use inv inv1 in simp_all)
qed

lemma svlan_delete_inv:
  assumes inv: "cake_inv cm" and op: "cake_svlan_aggregate_delete ifs cm sw tag = Some (rv, cm')"
  shows "cake_inv cm'"
proof -
  let ?cm1 = "cm\<lparr>cm_agg_by_if := vec_validate_init_empty (cm_agg_by_if cm) (unat sw) nil32\<rparr>"
  let ?by = "cm_agg_by_if ?cm1" and ?aggs = "cm_aggs cm"
  let ?i = "?by ! unat sw"
  have inv1: "cake_inv ?cm1" by (rule cake_inv_validate [OF inv])
  have maps1: "maps_ok ?by ?aggs" and tree: "tree_ok ?aggs (cm_scheds cm)"
    using inv1 by (simp_all add: cake_inv_def)
  have wf: "aggs_wf ?aggs" using tree by (simp add: tree_ok_def)
  consider "cm' = cm" | "cm' = ?cm1"
    | p a cm3 where "?i \<noteq> nil32" "unat tag < CAKE_SVLAN_MAX" "pool_at ?aggs ?i = Some p"
        "ag_svlan_map p ! unat tag \<noteq> nil32" "pool_at ?aggs (ag_svlan_map p ! unat tag) = Some a"
        "cake_agg_reparent_all ifs (?cm1\<lparr>cm_aggs := pool_upd ?i
          (\<lambda>q. q\<lparr>ag_svlan_map := svlan_map_clear (svlan_tags (ag_svlan_id a) (ag_svlan_id_end a))
             (ag_svlan_map p ! unat tag) (ag_svlan_map q)\<rparr>) ?aggs\<rparr>) = Some cm3"
        "cm' = cm3\<lparr>cm_aggs := pool_put (ag_svlan_map p ! unat tag) (cm_aggs cm3)\<rparr>"
    using op by (auto simp: cake_svlan_aggregate_delete_def Let_def not_le split: if_splits Option.bind_splits option.splits)
  then show ?thesis
  proof cases
    case 3
    define k where "k = ag_svlan_map p ! unat tag"
    define m where "m = svlan_map_clear (svlan_tags (ag_svlan_id a) (ag_svlan_id_end a)) k (ag_svlan_map p)"
    note p = 3(3) and a = 3(5) [folded k_def] and kn = 3(4) [folded k_def]
    have len: "unat sw < length ?by" by (simp add: length_validate)
    have pok: "port_ok (unat sw) p" using maps_okD(1) [OF maps1 len 3(1)] p by auto
    then have root: "ag_parent p = nil32" and plen: "length (ag_svlan_map p) = CAKE_SVLAN_MAX"
      by (simp_all add: port_ok_def)
    have ca: "ag_parent a = ?i"
      using maps_okD(2) [OF maps1 p, of "unat tag"] 3(2) plen a kn by (auto simp: child_ok_def k_def)
    have in_tags: "t \<in> set (svlan_tags (ag_svlan_id a) (ag_svlan_id_end a))"
      if "t < length (ag_svlan_map p)" "ag_svlan_map p ! t = k" for t
      using maps_okD(2) [OF maps1 p that(1)] that(2) a kn by (auto simp: child_ok_def set_svlan_tags)
    have mk: "m ! t \<noteq> k" if "t < length m" for t
      using that in_tags [of t] kn by (auto simp: m_def nth_map_clear)
    let ?aggs2 = "pool_upd ?i (\<lambda>q. q\<lparr>ag_svlan_map := m\<rparr>) ?aggs"
    have upd: "pool_upd ?i (\<lambda>q. q\<lparr>ag_svlan_map := svlan_map_clear (svlan_tags (ag_svlan_id a) (ag_svlan_id_end a))
             k (ag_svlan_map q)\<rparr>) ?aggs = ?aggs2"
      using p by (auto simp: pool_upd_def pool_at_def m_def split: if_splits)
    have inv2: "cake_inv (?cm1\<lparr>cm_aggs := ?aggs2\<rparr>)"
    proof -
      have "cake_inv (?cm1\<lparr>cm_aggs := pool_upd ?i (\<lambda>q. q\<lparr>ag_svlan_map := m\<rparr>) (cm_aggs ?cm1)\<rparr>)"
      proof (rule map_change_inv [OF inv1])
        show "pool_at (cm_aggs ?cm1) ?i = Some p" using p by simp
        show "\<exists>b. pool_at (cm_aggs ?cm1) (m ! t) = Some b \<and> child_ok ?i t b"
          if "t < length m" "m ! t \<noteq> nil32" for t
          using that maps_okD(2) [OF maps1 p, of t] by (auto simp: m_def nth_map_clear split: if_splits)
      qed (simp_all add: root m_def)
      then show ?thesis by simp
    qed
    have rep: "cake_agg_reparent_all ifs (?cm1\<lparr>cm_aggs := ?aggs2\<rparr>) = Some cm3"
      using 3(6) upd by (simp add: k_def)
    note r = reparent_inv [OF inv2 rep]
    then have cfg: "same_cfg ?aggs2 (cm_aggs cm3)" and by3: "cm_agg_by_if cm3 = ?by" by simp_all
    have kne: "k \<noteq> ?i" using a p ca root 3(1) by auto
    have nomap: "ag_svlan_map b ! t \<noteq> k" if b: "pool_at ?aggs2 j = Some b" and t: "t < length (ag_svlan_map b)" for j b t
    proof (cases "j = ?i")
      case True
      then have "ag_svlan_map b = m" using b p by (simp add: pool_at_upd) auto
      with mk t show ?thesis by simp
    next
      case False
      then have "pool_at ?aggs j = Some b" using b by (simp add: pool_at_upd)
      from maps_okD(2) [OF maps1 this t] kn a ca False show ?thesis by (auto simp: child_ok_def)
    qed
    have nochild: "ag_parent b \<noteq> k" if b: "pool_at ?aggs2 j = Some b" for j b
    proof
      assume bk: "ag_parent b = k"
      obtain b0 where b0: "pool_at ?aggs j = Some b0" "ag_parent b0 = k"
        using b bk p by (cases "j = ?i") (auto simp: pool_at_upd)
      with kn obtain q where "pool_at ?aggs k = Some q" "ag_parent q = nil32"
        using aggs_wf_parent [OF wf b0(1)] by auto
      with a ca 3(1) show False by simp
    qed
    have "k \<notin> agg_targets ?by ?aggs2"
    proof
      assume "k \<in> agg_targets ?by ?aggs2"
      then show False using kn
      proof (rule in_targetsE)
        fix l
        assume l: "l < length ?by" "?by ! l = k"
        with maps_okD(1) [OF maps1, of l] kn a have "port_ok l a" by auto
        with ca 3(1) show False by (simp add: port_ok_def)
      qed (use nomap in blast)
    qed
    then have tgt: "k \<notin> agg_targets (cm_agg_by_if cm3) (cm_aggs cm3)"
      by (simp add: by3 same_cfg_targets [OF cfg])
    have "pool_at ?aggs2 k = Some a" using a kne by (simp add: pool_at_upd)
    then obtain a3 where a3: "pool_at (cm_aggs cm3) k = Some a3" using same_cfg_fwd [OF cfg] by blast
    have "cake_inv (cm3\<lparr>cm_aggs := pool_put k (cm_aggs cm3)\<rparr>)"
    proof (rule remove_inv [OF _ a3 _ tgt])
      show "cake_inv cm3" using r by blast
      show "cs_agg s \<in> agg_targets (cm_agg_by_if cm3) (cm_aggs cm3)" if "pool_at (cm_scheds cm3) j = Some s" for j s
        using r that by (simp add: by3 same_cfg_targets [OF cfg])
      fix j b
      assume "pool_at (cm_aggs cm3) j = Some b"
      then obtain b0 where "pool_at ?aggs2 j = Some b0" "ag_parent b = ag_parent b0" "ag_svlan_map b = ag_svlan_map b0"
        by (rule same_cfg_par [OF cfg])
      then show "ag_parent b \<noteq> k" and "\<And>t. t < length (ag_svlan_map b) \<Longrightarrow> ag_svlan_map b ! t \<noteq> k"
        using nomap nochild by simp_all
    qed
    then show ?thesis by (simp only: 3(7) k_def)
  qed (use inv inv1 in simp_all)
qed

text \<open>Update in place.\<close>

lemma agg_updated_fields [simp]:
  "ag_parent (agg_updated r w b l a) = ag_parent a" "ag_buffer_usage (agg_updated r w b l a) = ag_buffer_usage a"
  "ag_active_weight (agg_updated r w b l a) = ag_active_weight a" "ag_n_active (agg_updated r w b l a) = ag_n_active a"
  "ag_svlan_map (agg_updated r w b l a) = ag_svlan_map a" "ag_svlan_id (agg_updated r w b l a) = ag_svlan_id a"
  "ag_svlan_id_end (agg_updated r w b l a) = ag_svlan_id_end a" "ag_sw_if_index (agg_updated r w b l a) = ag_sw_if_index a"
  "ag_rate (agg_updated r w b l a) = (if r \<noteq> 0 then r else ag_rate a)"
  by (simp_all add: agg_updated_def Let_def)

lemma update_accounts:
  assumes tree: "tree_ok aggs scheds" and acc: "accounts_ok aggs scheds" and a: "pool_at aggs i = Some a"
    and b: "ag_parent b = ag_parent a" "ag_buffer_usage b = ag_buffer_usage a"
      "ag_active_weight b = ag_active_weight a" "ag_n_active b = ag_n_active a"
    and d: "d = sc_weight (ag_drr b) - sc_weight (ag_drr a)"
    and aggs': "aggs' = (if ag_parent a \<noteq> nil32 \<and> ag_n_active a \<noteq> 0
      then pool_upd (ag_parent a) (\<lambda>p. p\<lparr>ag_active_weight := ag_active_weight p + d\<rparr>) (pool_upd i (\<lambda>_. b) aggs)
      else pool_upd i (\<lambda>_. b) aggs)"
  shows "tree_ok aggs' scheds \<and> accounts_ok aggs' scheds"
proof -
  let ?aggs1 = "pool_upd i (\<lambda>_. b) aggs" and ?q = "ag_parent a"
  have wf: "aggs_wf aggs" using tree by (simp add: tree_ok_def)
  have shape: "same_shape aggs aggs'"
    using a b by (auto simp: aggs' intro!: same_shape_upd same_shape_trans [OF same_shape_upd same_shape_upd])
  have above: "sched_charge aggs' = sched_charge aggs"
    using same_shape_facts(1) [OF shape] by (simp add: sched_charge_def fun_eq_iff)
  have ne: "?q \<noteq> i" if "?q \<noteq> nil32" using aggs_wf_parent [OF wf a that] by blast
  have at: "\<exists>c. pool_at aggs j = Some c \<and> ag_buffer_usage c' = ag_buffer_usage c \<and> ag_n_active c' = ag_n_active c \<and>
      ag_active_weight c' = ag_active_weight c + (if j = ?q \<and> ?q \<noteq> nil32 \<and> ag_n_active a \<noteq> 0 then d else 0)"
    if "pool_at aggs' j = Some c'" for j c'
    using that a b ne by (auto simp: aggs' pool_at_upd split: if_splits)
  have W1: "pool_sum (sub_weight j) ?aggs1 = pool_sum (sub_weight j) aggs - sub_weight j a + sub_weight j b"
    and N1: "pool_sum (sub_count j) ?aggs1 = pool_sum (sub_count j) aggs" for j
    using pool_sum_change [OF a, of "sub_weight j"] b a
    by (auto intro!: pool_sum_upd_same simp: sub_count_def)
  have "pool_sum (sub_weight j) aggs' = pool_sum (sub_weight j) ?aggs1"
    "pool_sum (sub_count j) aggs' = pool_sum (sub_count j) ?aggs1" for j
    by (auto simp: aggs' sub_weight_def sub_count_def intro!: pool_sum_upd_same)
  then have W: "pool_sum (sub_weight j) aggs' = pool_sum (sub_weight j) aggs
      + (if j = ?q \<and> ag_n_active a \<noteq> 0 then d else 0)"
    and N: "pool_sum (sub_count j) aggs' = pool_sum (sub_count j) aggs" for j
    using b by (auto simp: W1 N1 sub_weight_def d)
  have "usage_ok aggs' (\<lambda>i. pool_sum (sched_charge aggs' i) scheds)"
    using acc at unfolding accounts_ok_def usage_ok_def above by fastforce
  moreover have "weights_ok aggs' (\<lambda>i. pool_sum (sched_weight i) scheds) (\<lambda>i. pool_sum (sched_count i) scheds)"
    unfolding weights_ok_def
  proof (intro allI impI)
    fix j c'
    assume c': "pool_at aggs' j = Some c'"
    then have jn: "j \<noteq> nil32"
      using same_shape_facts(3) [OF shape] wf aggs_wf_nil [of aggs'] by auto
    obtain c where c: "pool_at aggs j = Some c" "ag_n_active c' = ag_n_active c"
      "ag_active_weight c' = ag_active_weight c + (if j = ?q \<and> ?q \<noteq> nil32 \<and> ag_n_active a \<noteq> 0 then d else 0)"
      using at [OF c'] by blast
    have "ag_active_weight c = pool_sum (sched_weight j) scheds + pool_sum (sub_weight j) aggs"
      "unat (ag_n_active c) = pool_sum (sched_count j) scheds + pool_sum (sub_count j) aggs"
      using acc c(1) by (simp_all add: accounts_ok_def weights_ok_def)
    with c jn show "ag_active_weight c' = pool_sum (sched_weight j) scheds + pool_sum (sub_weight j) aggs' \<and>
        unat (ag_n_active c') = pool_sum (sched_count j) scheds + pool_sum (sub_count j) aggs'"
      by (auto simp: W N)
  qed
  ultimately show ?thesis using tree_ok_shape [OF shape tree] by (simp add: accounts_ok_def)
qed

lemma update_weight_pool:
  fixes n m :: u64
  shows "(if q \<noteq> nil32 \<and> k > 0 \<and> n \<noteq> m
      then pool_upd q (\<lambda>p. p\<lparr>ag_active_weight := (if n > m then ag_active_weight p + (n - m)
             else ag_active_weight p - (m - n))\<rparr>) aggs
      else aggs) =
    (if q \<noteq> nil32 \<and> (k :: u32) \<noteq> 0
      then pool_upd q (\<lambda>p. p\<lparr>ag_active_weight := ag_active_weight p + (n - m)\<rparr>) aggs else aggs)"
proof -
  have w: "(if m < n then x + (n - m) else x - (m - n)) = x + (n - m)" for x by simp
  show ?thesis unfolding w by (cases "n = m") (simp_all add: word_gt_0 pool_upd_id)
qed

lemma update_cfg_inv:
  assumes maps: "maps_ok by_if aggs" and rates: "rates_ok aggs" and wf: "aggs_wf aggs" and a: "pool_at aggs i = Some a"
    and up: "rate \<noteq> 0 \<Longrightarrow> ag_parent a \<noteq> nil32 \<Longrightarrow> \<forall>p. pool_at aggs (ag_parent a) = Some p \<longrightarrow> rate \<le> ag_rate p"
    and down: "rate \<noteq> 0 \<Longrightarrow> ag_parent a = nil32 \<Longrightarrow> \<forall>j c. pool_at aggs j = Some c \<longrightarrow> ag_parent c = i \<longrightarrow> ag_rate c \<le> rate"
    and cfg: "same_cfg (pool_upd i (\<lambda>_. agg_updated rate w b l a) aggs) aggs'"
  shows "maps_ok by_if aggs' \<and> rates_ok aggs'"
proof -
  let ?b = "agg_updated rate w b l a"
  let ?aggs1 = "pool_upd i (\<lambda>_. ?b) aggs"
  have at: "pool_at ?aggs1 j = (if j = i then Some ?b else pool_at aggs j)" for j
    using a by (simp add: pool_at_upd)
  have keep: "\<exists>c'. pool_at ?aggs1 j = Some c' \<and> ag_parent c' = ag_parent c \<and> ag_svlan_map c' = ag_svlan_map c \<and>
      ag_sw_if_index c' = ag_sw_if_index c \<and> ag_svlan_id c' = ag_svlan_id c \<and> ag_svlan_id_end c' = ag_svlan_id_end c"
    if "pool_at aggs j = Some c" for j c
    using that a at [of j] by (cases "j = i") simp_all
  have bk: "\<exists>c. pool_at aggs j = Some c \<and> ag_parent c' = ag_parent c \<and> ag_svlan_map c' = ag_svlan_map c \<and>
      ag_rate c' = (if j = i \<and> rate \<noteq> 0 then rate else ag_rate c)"
    if "pool_at ?aggs1 j = Some c'" for j c'
    using that a at [of j] by (cases "j = i") auto
  have "maps_ok by_if ?aggs1"
  proof (rule maps_okI)
    fix k
    assume "k < length by_if" "by_if ! k \<noteq> nil32"
    from maps_okD(1) [OF maps this] keep show "\<exists>a. pool_at ?aggs1 (by_if ! k) = Some a \<and> port_ok k a"
      by (fastforce simp: port_ok_def)
  next
    fix j c' t
    assume c': "pool_at ?aggs1 j = Some c'" "t < length (ag_svlan_map c')" "ag_svlan_map c' ! t \<noteq> nil32"
    obtain c where c: "pool_at aggs j = Some c" "ag_svlan_map c' = ag_svlan_map c" using bk [OF c'(1)] by blast
    obtain d where d: "pool_at aggs (ag_svlan_map c ! t) = Some d" "child_ok j t d"
      using maps_okD(2) [OF maps c(1), of t] c'(2,3) unfolding c(2) by blast
    from keep [OF d(1)] d(2) show "\<exists>b. pool_at ?aggs1 (ag_svlan_map c' ! t) = Some b \<and> child_ok j t b"
      by (auto simp: child_ok_def c(2))
  next
    fix j c'
    assume c': "pool_at ?aggs1 j = Some c'" "ag_parent c' \<noteq> nil32"
    from bk [OF c'(1)] c'(2) maps_okD(3) [OF maps] show "ag_svlan_map c' = []" by auto
  qed
  moreover have "rates_ok ?aggs1"
    unfolding rates_ok_def
  proof (intro allI impI)
    fix j c' p'
    assume c': "pool_at ?aggs1 j = Some c'" and p': "pool_at ?aggs1 (ag_parent c') = Some p'"
    obtain c where c: "pool_at aggs j = Some c" "ag_parent c' = ag_parent c"
      "ag_rate c' = (if j = i \<and> rate \<noteq> 0 then rate else ag_rate c)" using bk [OF c'] by blast
    obtain p where p: "pool_at aggs (ag_parent c) = Some p" "ag_parent p' = ag_parent p"
      "ag_rate p' = (if ag_parent c = i \<and> rate \<noteq> 0 then rate else ag_rate p)" using bk [OF p'] c(2) by auto
    have nil: "ag_parent c \<noteq> nil32" using p(1) wf by auto
    from aggs_wf_parent [OF wf c(1) nil] p(1) have ne: "ag_parent c \<noteq> j" "ag_parent p = nil32" by auto
    have old: "ag_rate c \<le> ag_rate p" by (rule rates_okD [OF rates c(1) p(1)])
    show "ag_rate c' \<le> ag_rate p'"
      using old up down ne c p a nil by (auto split: if_splits)
  qed
  ultimately show ?thesis using same_cfg_maps [OF cfg] same_cfg_rates [OF cfg] by blast
qed

lemma aggregate_update_inv:
  assumes inv: "cake_inv cm" and op: "cake_aggregate_update cm sw level tag rate weight burst limit = (rv, cm')"
  shows "cake_inv cm'"
proof -
  let ?cm1 = "cm\<lparr>cm_agg_by_if := vec_validate_init_empty (cm_agg_by_if cm) (unat sw) nil32\<rparr>"
  let ?aggs = "cm_aggs cm" and ?scheds = "cm_scheds cm"
  have inv1: "cake_inv ?cm1" by (rule cake_inv_validate [OF inv])
  consider "cm' = cm" | "cm' = ?cm1"
    | i a b aggs' where "pool_at ?aggs i = Some a" "b = agg_updated rate weight burst limit a"
        "rate \<noteq> 0 \<Longrightarrow> ag_parent a \<noteq> nil32 \<Longrightarrow> \<forall>p. pool_at ?aggs (ag_parent a) = Some p \<longrightarrow> rate \<le> ag_rate p"
        "rate \<noteq> 0 \<Longrightarrow> ag_parent a = nil32 \<Longrightarrow> \<not> list_ex (\<lambda>e. case e of None \<Rightarrow> False
            | Some c \<Rightarrow> ag_parent c = i \<and> ag_rate c > rate) ?aggs"
        "aggs' = (if ag_parent a \<noteq> nil32 \<and> ag_n_active a \<noteq> 0
          then pool_upd (ag_parent a) (\<lambda>p. p\<lparr>ag_active_weight := ag_active_weight p
            + (sc_weight (ag_drr b) - sc_weight (ag_drr a))\<rparr>) (pool_upd i (\<lambda>_. b) ?aggs)
          else pool_upd i (\<lambda>_. b) ?aggs)"
        "cm' = ?cm1\<lparr>cm_aggs := aggs'\<rparr>"
  proof -
    let ?by = "cm_agg_by_if ?cm1"
    define k where "k = (if level = CAKE_AGG_LEVEL_SVLAN
      then (case pool_at ?aggs (?by ! unat sw) of None \<Rightarrow> nil32 | Some port \<Rightarrow> ag_svlan_map port ! unat tag)
      else ?by ! unat sw)"
    show thesis
    proof (cases "cm' = cm \<or> cm' = ?cm1")
      case True
      with that(1,2) show thesis by blast
    next
      case False
      with op obtain a where a: "pool_at ?aggs k = Some a"
        and up: "\<not> (rate \<noteq> 0 \<and> ag_parent a \<noteq> nil32 \<and>
          (case pool_at ?aggs (ag_parent a) of None \<Rightarrow> False | Some p \<Rightarrow> rate > ag_rate p))"
        and dn: "\<not> (rate \<noteq> 0 \<and> ag_parent a = nil32 \<and> list_ex (\<lambda>e. case e of None \<Rightarrow> False
          | Some c \<Rightarrow> ag_parent c = k \<and> ag_rate c > rate) ?aggs)"
        and cm': "cm' = ?cm1\<lparr>cm_aggs := (let b = agg_updated rate weight burst limit a;
            o' = sc_weight (ag_drr a); n = sc_weight (ag_drr b); aggs = pool_upd k (\<lambda>_. b) ?aggs
          in if ag_parent b \<noteq> nil32 \<and> ag_n_active b > 0 \<and> n \<noteq> o'
             then pool_upd (ag_parent b) (\<lambda>p. p\<lparr>ag_active_weight :=
               (if n > o' then ag_active_weight p + (n - o') else ag_active_weight p - (o' - n))\<rparr>) aggs
             else aggs)\<rparr>"
        unfolding cake_aggregate_update_def k_def Let_def
        by (auto split: if_split_asm option.split_asm)
      show thesis
        by (rule that(3) [OF a refl _ _ refl cm' [unfolded Let_def update_weight_pool agg_updated_fields]])
          (use up dn in \<open>auto split: option.splits\<close>)
    qed
  qed
  then show ?thesis
  proof cases
    case (3 i a b aggs')
    have tree: "tree_ok ?aggs ?scheds" "accounts_ok ?aggs ?scheds" "maps_ok (cm_agg_by_if ?cm1) ?aggs" "rates_ok ?aggs"
      using inv1 by (simp_all add: cake_inv_def)
    have "\<forall>j c. pool_at ?aggs j = Some c \<longrightarrow> ag_parent c = i \<longrightarrow> ag_rate c \<le> rate" if r: "rate \<noteq> 0" "ag_parent a = nil32"
    proof (intro allI impI)
      fix j c
      assume c: "pool_at ?aggs j = Some c" "ag_parent c = i"
      then have "Some c \<in> set ?aggs" by (auto simp: pool_at_def split: if_splits) (metis nth_mem)
      with 3(4) [OF r] c(2) show "ag_rate c \<le> rate" by (force simp: list_ex_iff not_less)
    qed
    note cfg = update_cfg_inv [OF tree(3,4) _ 3(1,3) this]
    have "same_cfg (pool_upd i (\<lambda>_. b) ?aggs) aggs'"
      by (auto simp: 3(5) agg_cfg_def intro!: same_cfg_upd)
    moreover have "aggs_wf ?aggs" using tree(1) by (simp add: tree_ok_def)
    ultimately have "maps_ok (cm_agg_by_if ?cm1) aggs' \<and> rates_ok aggs'"
      using cfg unfolding 3(2) by blast
    moreover have "tree_ok aggs' ?scheds \<and> accounts_ok aggs' ?scheds"
      by (rule update_accounts [OF tree(1,2) 3(1) _ _ _ _ refl 3(5)]) (simp_all add: 3(2))
    ultimately show ?thesis by (simp add: 3(6) cake_inv_def)
  qed (use inv inv1 in simp_all)
qed

section \<open>Attachment, refusals and termination\<close>

text \<open>The walk as a specification: the \<open>k\<close>-th super interface, and the last tag met on the way.\<close>

definition sup_nth :: "(u32 \<Rightarrow> sw_if) \<Rightarrow> u32 \<Rightarrow> nat \<Rightarrow> u32" where
  "sup_nth ifs w k = ((\<lambda>i. si_sup (ifs i)) ^^ k) w"

definition last_tag :: "(u32 \<Rightarrow> sw_if) \<Rightarrow> u32 list \<Rightarrow> u32 \<Rightarrow> u32" where
  "last_tag ifs path tag = foldl (\<lambda>t i. if si_one_tag (ifs i) then ucast (si_outer_vlan (ifs i)) else t) tag path"

definition if_agg :: "u32 list \<Rightarrow> u32 \<Rightarrow> u32" where
  "if_agg by_if i = (if unat i < length by_if then by_if ! unat i else nil32)"

definition attached_at :: "(u32 \<Rightarrow> sw_if) \<Rightarrow> u32 list \<Rightarrow> u32 \<Rightarrow> u32 \<Rightarrow> u32 \<times> u32 \<Rightarrow> nat \<Rightarrow> bool" where
  "attached_at ifs by_if w tag r n \<longleftrightarrow>
     (\<forall>k < n. sup_nth ifs w (Suc k) \<noteq> sup_nth ifs w k \<and> if_agg by_if (sup_nth ifs w (Suc k)) = nil32) \<and>
     fst r = last_tag ifs (map (sup_nth ifs w) [0..<Suc n]) tag \<and>
     (if sup_nth ifs w (Suc n) = sup_nth ifs w n then snd r = nil32
      else snd r = if_agg by_if (sup_nth ifs w (Suc n)) \<and> snd r \<noteq> nil32)"

lemma sup_nth_Suc: "sup_nth ifs w (Suc k) = sup_nth ifs (si_sup (ifs w)) k"
  by (simp only: sup_nth_def funpow_Suc_right o_apply)

lemma sup_nth_0 [simp]: "sup_nth ifs w 0 = w"
  by (simp add: sup_nth_def)

lemma path_Suc: "map (sup_nth ifs w) [0..<Suc (Suc n)] = w # map (sup_nth ifs (si_sup (ifs w))) [0..<Suc n]"
  by (simp only: upt_conv_Cons [of 0 "Suc (Suc n)"] map_Suc_upt [symmetric] list.map map_map)
    (simp add: o_def sup_nth_Suc)

lemma attached_here:
  "si_sup (ifs w) = w \<or> if_agg by_if (si_sup (ifs w)) \<noteq> nil32 \<Longrightarrow>
   attached_at ifs by_if w tag (last_tag ifs [w] tag,
     if si_sup (ifs w) = w then nil32 else if_agg by_if (si_sup (ifs w))) 0"
  by (auto simp: attached_at_def sup_nth_Suc)

lemma attached_above:
  assumes "attached_at ifs by_if (si_sup (ifs w)) (last_tag ifs [w] tag) r n"
    and "si_sup (ifs w) \<noteq> w" and "if_agg by_if (si_sup (ifs w)) = nil32"
  shows "attached_at ifs by_if w tag r (Suc n)"
proof -
  have "sup_nth ifs w (Suc k) \<noteq> sup_nth ifs w k \<and> if_agg by_if (sup_nth ifs w (Suc k)) = nil32" if "k < Suc n" for k
    using that assms by (cases k) (auto simp: attached_at_def sup_nth_Suc)
  moreover have "fst r = last_tag ifs (map (sup_nth ifs w) [0..<Suc (Suc n)]) tag"
    using assms(1) unfolding path_Suc by (simp add: attached_at_def last_tag_def)
  ultimately show ?thesis
    using assms(1) unfolding attached_at_def sup_nth_Suc [of ifs w n] sup_nth_Suc [of ifs w "Suc n"] by blast
qed

lemma walk_attached:
  assumes "cake_attach_walk ifs by_if w tag = Some r"
  shows "\<exists>n. attached_at ifs by_if w tag r n"
proof (rule cake_attach_walk.raw_induct
    [where P = "\<lambda>ifs by_if w tag r. \<exists>n. attached_at ifs by_if w tag r n", OF _ assms])
  fix f ifs by_if w tag r
  assume IH: "\<And>ifs by_if w tag r. f ifs by_if w tag = Some r \<Longrightarrow> \<exists>n. attached_at ifs by_if w tag r n"
    and step: "(let wi = ifs w; svlan_tag = if si_one_tag wi then ucast (si_outer_vlan wi) else tag; parent = si_sup wi
      in if parent = w then Some (svlan_tag, nil32)
         else if unat parent < length by_if \<and> by_if ! unat parent \<noteq> nil32
           then Some (svlan_tag, by_if ! unat parent) else f ifs by_if parent svlan_tag) = Some r"
  show "\<exists>n. attached_at ifs by_if w tag r n"
  proof (cases "si_sup (ifs w) = w \<or> if_agg by_if (si_sup (ifs w)) \<noteq> nil32")
    case True
    with step have "r = (last_tag ifs [w] tag, if si_sup (ifs w) = w then nil32 else if_agg by_if (si_sup (ifs w)))"
      by (auto simp: Let_def last_tag_def if_agg_def split: if_splits)
    with attached_here [of ifs w by_if tag] True show ?thesis by blast
  next
    case False
    with step have "f ifs by_if (si_sup (ifs w)) (last_tag ifs [w] tag) = Some r"
      by (auto simp: Let_def last_tag_def if_agg_def split: if_splits)
    from IH [OF this] False show ?thesis using attached_above by blast
  qed
qed

text \<open>
  C37: A scheduler is attached to the nearest interface above its own that has an aggregate: every
  interface in between has none, the tag is the outermost one met before it, and the scheduler's parent
  is the S-VLAN aggregate mapped to that tag or else the port aggregate itself.
\<close>

theorem attachment_nearest:
  assumes "cake_sched_resolve_attachment ifs cm cs = Some cs'"
  shows "\<exists>n tag p. attached_at ifs (cm_agg_by_if cm) (cs_sw_if_index cs) nil32 (tag, p) n \<and>
    cs' = cs\<lparr>cs_agg := cs_agg cs'\<rparr> \<and>
    cs_agg cs' = (case pool_at (cm_aggs cm) p of
       None \<Rightarrow> p
     | Some port \<Rightarrow> if p \<noteq> nil32 \<and> ag_svlan_map port \<noteq> [] \<and> unat tag < CAKE_SVLAN_MAX \<and>
                       ag_svlan_map port ! unat tag \<noteq> nil32
                    then ag_svlan_map port ! unat tag else p)"
proof -
  obtain tag p where w: "cake_attach_walk ifs (cm_agg_by_if cm) (cs_sw_if_index cs) nil32 = Some (tag, p)"
    using assms by (auto simp: cake_sched_resolve_attachment_def split: Option.bind_splits)
  from walk_attached [OF w] obtain n where
    "attached_at ifs (cm_agg_by_if cm) (cs_sw_if_index cs) nil32 (tag, p) n" by blast
  moreover have "cs' = cs\<lparr>cs_agg := cs_agg cs'\<rparr> \<and>
    cs_agg cs' = (case pool_at (cm_aggs cm) p of
       None \<Rightarrow> p
     | Some port \<Rightarrow> if p \<noteq> nil32 \<and> ag_svlan_map port \<noteq> [] \<and> unat tag < CAKE_SVLAN_MAX \<and>
                       ag_svlan_map port ! unat tag \<noteq> nil32
                    then ag_svlan_map port ! unat tag else p)"
    using assms w by (auto simp: cake_sched_resolve_attachment_def split: option.splits)
  ultimately show ?thesis by blast
qed

text \<open>Interface 0 is a port, 1 its sub-interface with tag 100, and 2 a session on top of it.\<close>

definition demo_ifs :: "u32 \<Rightarrow> sw_if" where
  "demo_ifs w = (if w = 1 then \<lparr>si_one_tag = True, si_outer_vlan = 100, si_sup = 0\<rparr>
     else if w = 2 then \<lparr>si_one_tag = False, si_outer_vlan = 0, si_sup = 1\<rparr>
     else \<lparr>si_one_tag = False, si_outer_vlan = 0, si_sup = w\<rparr>)"

definition cake_main_init :: cake_main where
  "cake_main_init = \<lparr>cm_scheds = [], cm_per_thread = [], cm_sched_by_if = [], cm_n_scheds = 0,
     cm_aggs = [], cm_agg_by_if = []\<rparr>"

definition demo_main :: cake_main where
  "demo_main = cake_main_init\<lparr>cm_agg_by_if := [0],
     cm_aggs := [Some (cake_aggregate_zero\<lparr>ag_parent := nil32, ag_rate := 1000000000,
        ag_svlan_map := (replicate CAKE_SVLAN_MAX nil32)[100 := 1]\<rparr>)]\<rparr>"

lemma demo_resolves:
  "cake_sched_resolve_attachment demo_ifs demo_main (cake_sched_zero\<lparr>cs_sw_if_index := 2\<rparr>)
     = Some (cake_sched_zero\<lparr>cs_sw_if_index := 2, cs_agg := 1\<rparr>)"
proof -
  have "cake_attach_walk demo_ifs [0] 2 nil32 = Some (100, 0)"
    by (subst cake_attach_walk.simps, simp add: demo_ifs_def Let_def,
        subst cake_attach_walk.simps, simp add: demo_ifs_def Let_def)
  then show ?thesis
    by (simp add: cake_sched_resolve_attachment_def demo_main_def pool_at_def CAKE_SVLAN_MAX_def cake_sched_zero_def)
qed

theorem attachment_nearest_witness:
  "\<exists>n tag p. attached_at demo_ifs [0] 2 nil32 (tag, p) n"
  using attachment_nearest [OF demo_resolves] by (auto simp: demo_main_def)

text \<open>
  C38: With no cycle among the interfaces every configuration operation returns, whatever its arguments.
\<close>

theorem config_returns:
  assumes "ifs_wf ifs"
  shows "(\<exists>r. cake_aggregate_create ifs api_valid now n idx cm sw rate weight burst limit = Some r) \<and>
    (\<exists>r. cake_aggregate_delete ifs cm sw = Some r) \<and>
    (\<exists>r. cake_svlan_aggregate_create ifs now n idx cm sw a b rate weight burst limit = Some r) \<and>
    (\<exists>r. cake_svlan_aggregate_delete ifs cm sw a = Some r)"
proof -
  obtain f where re: "\<And>x. cake_agg_reparent_all ifs x = Some (f x)"
    using reparent_all_returns [OF assms] by metis
  have create: "cake_aggregate_create ifs api_valid now n idx cm sw rate weight burst limit \<noteq> None"
    by (auto simp: cake_aggregate_create_def Let_def re)
  have delete: "cake_aggregate_delete ifs cm sw \<noteq> None"
    by (auto simp: cake_aggregate_delete_def Let_def re)
  have screate: "cake_svlan_aggregate_create ifs now n idx cm sw a b rate weight burst limit \<noteq> None"
    by (auto simp: cake_svlan_aggregate_create_def Let_def re split: option.splits)
  have sdelete: "cake_svlan_aggregate_delete ifs cm sw a \<noteq> None"
    by (auto simp: cake_svlan_aggregate_delete_def Let_def re split: option.splits)
  from create delete screate sdelete show ?thesis by auto
qed

lemma demo_ifs_wf: "ifs_wf demo_ifs"
  unfolding ifs_wf_def by (rule exI [of _ "\<lambda>w. if w = 2 then 2 else if w = 1 then 1 else 0"]) (simp add: demo_ifs_def)

theorem config_returns_witness: "\<exists>r. cake_aggregate_delete demo_ifs demo_main 0 = Some r"
  using config_returns [OF demo_ifs_wf] by blast

text \<open>Only the length of the table from interfaces to aggregates may grow.\<close>

definition refused_view :: "cake_main \<Rightarrow> cake_main \<Rightarrow> bool" where
  "refused_view cm cm' \<longleftrightarrow> (\<exists>m. cm' = cm\<lparr>cm_agg_by_if := cm_agg_by_if cm @ replicate m nil32\<rparr>)"

lemma refused_view_refl: "refused_view cm cm"
  unfolding refused_view_def by (rule exI [of _ 0]) simp

lemma refused_view_validate:
  "refused_view cm (cm\<lparr>cm_agg_by_if := vec_validate_init_empty (cm_agg_by_if cm) n nil32\<rparr>)"
  by (auto simp: refused_view_def vec_validate_init_empty_def)

text \<open>
  C29: A refused configuration request changes nothing: every operation that answers with an error leaves
  the schedulers, the aggregates and every entry of the tables as they were; only the table from
  interfaces to aggregates may have been lengthened by empty entries.
\<close>

theorem refused_config_unchanged:
  "(cake_aggregate_create ifs api_valid now n idx cm sw rate weight burst limit = Some (rv, cm') \<or>
    cake_aggregate_delete ifs cm sw = Some (rv, cm') \<or>
    cake_svlan_aggregate_create ifs now n idx cm sw a b rate weight burst limit = Some (rv, cm') \<or>
    cake_svlan_aggregate_delete ifs cm sw a = Some (rv, cm') \<or>
    cake_aggregate_update cm sw level a rate weight burst limit = (rv, cm')) \<and> rv \<noteq> RV_OK \<Longrightarrow>
   refused_view cm cm'"
proof (elim conjE disjE)
  assume "cake_aggregate_create ifs api_valid now n idx cm sw rate weight burst limit = Some (rv, cm')" "rv \<noteq> RV_OK"
  then show ?thesis using refused_view_refl refused_view_validate
    by (auto simp: cake_aggregate_create_def Let_def split: if_splits Option.bind_splits)
next
  assume "cake_aggregate_delete ifs cm sw = Some (rv, cm')" "rv \<noteq> RV_OK"
  then show ?thesis using refused_view_refl refused_view_validate
    by (auto simp: cake_aggregate_delete_def Let_def split: if_splits Option.bind_splits)
next
  assume "cake_svlan_aggregate_create ifs now n idx cm sw a b rate weight burst limit = Some (rv, cm')" "rv \<noteq> RV_OK"
  then show ?thesis using refused_view_refl refused_view_validate
    by (auto simp: cake_svlan_aggregate_create_def Let_def split: if_splits Option.bind_splits option.splits)
next
  assume "cake_svlan_aggregate_delete ifs cm sw a = Some (rv, cm')" "rv \<noteq> RV_OK"
  then show ?thesis using refused_view_refl refused_view_validate
    by (auto simp: cake_svlan_aggregate_delete_def Let_def split: if_splits Option.bind_splits option.splits)
next
  assume "cake_aggregate_update cm sw level a rate weight burst limit = (rv, cm')" "rv \<noteq> RV_OK"
  then show ?thesis using refused_view_refl refused_view_validate
    by (simp add: cake_aggregate_update_def Let_def split: if_split_asm option.split_asm; blast)
qed

theorem refused_config_unchanged_witness:
  "refused_view demo_main (snd (cake_aggregate_update demo_main 7 0 0 1000000 0 0 0)) \<and>
   fst (cake_aggregate_update demo_main 7 0 0 1000000 0 0 0) = RV_NO_SUCH_ENTRY"
proof -
  have e: "fst (cake_aggregate_update demo_main 7 0 0 1000000 0 0 0) = RV_NO_SUCH_ENTRY"
    by (simp add: cake_aggregate_update_def weight_invalid_def demo_main_def CAKE_AGG_LEVEL_SVLAN_def
        vec_validate_init_empty_def Let_def)
  then have "cake_aggregate_update demo_main 7 0 0 1000000 0 0 0
      = (RV_NO_SUCH_ENTRY, snd (cake_aggregate_update demo_main 7 0 0 1000000 0 0 0))" by (metis prod.collapse)
  then have "refused_view demo_main (snd (cake_aggregate_update demo_main 7 0 0 1000000 0 0 0))"
    by (intro refused_config_unchanged [where rv = RV_NO_SUCH_ENTRY and cm = demo_main]) blast
  with e show ?thesis by blast
qed

end
