(* ===== verification/Intrusive_List.thy ===== *)
theory Intrusive_List
  imports Prelude
begin

text \<open>
  Doubly linked lists threaded through the elements of a table by 32-bit indices, with ~0 for "none"
  (the flow lists of a tin).  \<open>dll\<close> relates the link fields and the two end
  pointers to the list of indices; the locale proves once, for any table whose operations move the
  links as specified, that they are the list operations and leave the other lists alone.
\<close>

section \<open>Linked segments\<close>

fun seg :: "(u32 \<Rightarrow> u32) \<Rightarrow> (u32 \<Rightarrow> u32) \<Rightarrow> u32 \<Rightarrow> u32 list \<Rightarrow> u32 \<Rightarrow> bool" where
  "seg n p b [] a \<longleftrightarrow> True"
| "seg n p b (x # xs) a \<longleftrightarrow> p x = b \<and> n x = hd (xs @ [a]) \<and> seg n p x xs a"

definition dll :: "(u32 \<Rightarrow> u32) \<Rightarrow> (u32 \<Rightarrow> u32) \<Rightarrow> u32 \<Rightarrow> u32 \<Rightarrow> u32 list \<Rightarrow> bool" where
  "dll n p h t xs \<longleftrightarrow> distinct xs \<and> nil32 \<notin> set xs \<and> h = hd (xs @ [nil32]) \<and> t = last (nil32 # xs) \<and>
     seg n p nil32 xs nil32"

lemma seg_append:
  "seg n p b (xs @ ys) a \<longleftrightarrow> seg n p b xs (hd (ys @ [a])) \<and> seg n p (last (b # xs)) ys a"
  by (induction xs arbitrary: b) (auto simp: hd_append)

lemma seg_cong:
  "seg n p b xs a \<Longrightarrow> (\<And>x. x \<in> set xs \<Longrightarrow> n' x = n x \<and> p' x = p x) \<Longrightarrow> seg n' p' b xs a"
  by (induction xs arbitrary: b) auto

lemma dll_cong:
  "dll n p h t xs \<Longrightarrow> (\<And>x. x \<in> set xs \<Longrightarrow> n' x = n x \<and> p' x = p x) \<Longrightarrow> dll n' p' h t xs"
  unfolding dll_def using seg_cong by blast

lemma dll_Nil [simp]: "dll n p h t [] \<longleftrightarrow> h = nil32 \<and> t = nil32"
  by (auto simp: dll_def)

lemma dll_empty: "dll n p h t xs \<Longrightarrow> h = nil32 \<longleftrightarrow> xs = []"
  by (cases xs) (auto simp: dll_def)

lemma dll_tail_empty: "dll n p h t xs \<Longrightarrow> t = nil32 \<longleftrightarrow> xs = []"
  unfolding dll_def by (metis append_Nil last_ConsL last_ConsR last_in_set list.sel(1))

lemma dll_head: "dll n p h t xs \<Longrightarrow> h \<noteq> nil32 \<Longrightarrow> h \<in> set xs \<and> xs = h # tl xs"
  by (cases xs) (auto simp: dll_def)

lemma dll_tail_in: "dll n p h t xs \<Longrightarrow> t \<noteq> nil32 \<Longrightarrow> t \<in> set xs"
  using dll_tail_empty [of n p h t xs] by (auto simp: dll_def split: if_splits)

lemma seg_upd [simp]:
  "x \<notin> set xs \<Longrightarrow> seg (n(x := v)) p b xs a = seg n p b xs a"
  "x \<notin> set xs \<Longrightarrow> seg n (p(x := v)) b xs a = seg n p b xs a"
  by (induction xs arbitrary: b) auto

lemma dll_Cons:
  assumes "dll n p h t xs" and "x \<notin> set xs" and "x \<noteq> nil32"
    and "n' = n(x := h)" and "p' = (if h = nil32 then p(x := nil32) else p(x := nil32, h := x))"
  shows "dll n' p' x (if h = nil32 then x else t) (x # xs)"
proof (cases xs)
  case Nil
  with assms show ?thesis by (simp add: dll_def)
next
  case (Cons y ys)
  with assms(1) have y: "h = y" "y \<noteq> nil32" "y \<notin> set ys" "x \<noteq> y" using assms(2) by (auto simp: dll_def)
  with Cons assms show ?thesis by (simp add: dll_def)
qed

lemma dll_snoc:
  assumes "dll n p h t xs" and "x \<notin> set xs" and "x \<noteq> nil32"
    and "n' = (if t = nil32 then n(x := nil32) else n(x := nil32, t := x))" and "p' = p(x := t)"
  shows "dll n' p' (if t = nil32 then x else h) x (xs @ [x])"
proof (cases xs rule: rev_cases)
  case Nil
  with assms show ?thesis by (simp add: dll_def)
next
  case (snoc ys y)
  with assms(1) have y: "t = y" "y \<noteq> nil32" "y \<notin> set ys" "x \<noteq> y" "x \<notin> set ys"
    using assms(2) by (auto simp: dll_def)
  with snoc assms show ?thesis by (simp add: dll_def seg_append hd_append)
qed

lemma dll_at:
  assumes "dll n p h t (us @ x # vs)"
  shows "p x = last (nil32 # us)" and "n x = hd (vs @ [nil32])"
  using assms by (auto simp: dll_def seg_append)

lemma dll_remove:
  assumes d: "dll n p h t (us @ x # vs)"
    and n': "n' = (if p x = nil32 then n else n(p x := n x))(x := nil32)"
    and p': "p' = (if n x = nil32 then p else p(n x := p x))(x := nil32)"
  shows "dll n' p' (if p x = nil32 then n x else h) (if n x = nil32 then p x else t) (us @ vs)"
proof -
  note at = dll_at [OF d]
  have nil: "nil32 \<notin> set us" "nil32 \<notin> set vs" and dist: "distinct (us @ x # vs)"
    and su: "seg n p nil32 us x" and sv: "seg n p x vs nil32" and ends: "h = hd (us @ [x])" "t = last (x # vs)"
    using d by (auto simp: dll_def seg_append hd_append)
  have px: "p x = nil32 \<longleftrightarrow> us = []" using nil(1) unfolding at(1) by (auto dest: last_in_set)
  have nx: "n x = nil32 \<longleftrightarrow> vs = []" using nil(2) unfolding at(2) by (cases vs) auto
  have x: "x \<notin> set us" "x \<notin> set vs" using dist by auto
  have 1: "seg n' p' nil32 us (hd (vs @ [nil32]))"
  proof (cases us rule: rev_cases)
    case (snoc ws w)
    have w: "w \<notin> set ws" "w \<noteq> x" "w \<noteq> nil32" "p x = w" using snoc dist nil at(1) by auto
    have v: "n x \<notin> set us" using dist nil(1) unfolding at(2) by (cases vs) auto
    have "seg n' p' nil32 ws w"
      using su x v w snoc by (simp add: n' p' seg_append)
    moreover have "p' w = p w" "n' w = hd (vs @ [nil32])" using w v snoc at(2) by (auto simp: n' p')
    ultimately show ?thesis using su snoc by (simp add: seg_append)
  qed simp
  have 2: "seg n' p' (last (nil32 # us)) vs nil32"
  proof (cases vs)
    case (Cons v ws)
    have v: "v \<notin> set ws" "v \<noteq> x" "v \<noteq> nil32" "n x = v" using Cons dist nil at(2) by auto
    have w: "p x \<notin> set vs" using dist nil(2) unfolding at(1) by (cases us rule: rev_cases) auto
    have "seg n' p' v ws nil32"
      using sv x v w Cons by (simp add: n' p')
    moreover have "p' v = last (nil32 # us)" "n' v = n v" using w v Cons at(1) by (auto simp: n' p')
    ultimately show ?thesis using sv Cons by simp
  qed simp
  from 1 2 have "seg n' p' nil32 (us @ vs) nil32" by (simp only: seg_append)
  moreover have "(if p x = nil32 then n x else h) = hd ((us @ vs) @ [nil32])"
    using px ends(1) at(2) by (cases us) auto
  moreover have "(if n x = nil32 then p x else t) = last (nil32 # us @ vs)"
    using nx ends(2) at(1) by (cases vs rule: rev_cases) auto
  ultimately show ?thesis using dist nil by (simp add: dll_def)
qed

lemma dll_remove1:
  assumes d: "dll n p h t xs" and x: "x \<in> set xs"
    and n': "n' = (if p x = nil32 then n else n(p x := n x))(x := nil32)"
    and p': "p' = (if n x = nil32 then p else p(n x := p x))(x := nil32)"
  shows "dll n' p' (if p x = nil32 then n x else h) (if n x = nil32 then p x else t) (remove1 x xs)"
proof -
  obtain us vs where xs: "xs = us @ x # vs" using split_list [OF x] by blast
  with d have "x \<notin> set us" by (auto simp: dll_def)
  with xs have "remove1 x xs = us @ vs" by (simp add: remove1_append)
  with dll_remove [OF d [unfolded xs] n' p'] show ?thesis by simp
qed

text \<open>The neighbours of an element are elements.\<close>

lemma dll_neighbours:
  assumes d: "dll n p h t xs" and x: "x \<in> set xs"
  shows "p x = nil32 \<or> p x \<in> set xs" and "n x = nil32 \<or> n x \<in> set xs"
proof -
  obtain us vs where xs: "xs = us @ x # vs" using split_list [OF x] by blast
  note at = dll_at [OF d [unfolded xs]]
  show "p x = nil32 \<or> p x \<in> set xs" unfolding at xs by (auto dest: last_in_set)
  show "n x = nil32 \<or> n x \<in> set xs" unfolding at xs by (cases vs) auto
qed

section \<open>The interface of a linked table\<close>

locale linked_table =
  fixes nx pv :: "'h \<Rightarrow> u32 \<Rightarrow> u32"
    and valid :: "'h \<Rightarrow> u32 \<Rightarrow> bool"
    and prepend append_tail remove :: "u32 \<Rightarrow> u32 \<Rightarrow> 'h \<Rightarrow> u32 \<Rightarrow> u32 \<times> u32 \<times> 'h"
  assumes prepend_links: "valid h i \<Longrightarrow> a = nil32 \<or> valid h a \<Longrightarrow> prepend a b h i = (a', b', h') \<Longrightarrow>
      a' = i \<and> b' = (if a = nil32 then i else b) \<and> nx h' = (nx h)(i := a) \<and>
      pv h' = (if a = nil32 then (pv h)(i := nil32) else (pv h)(i := nil32, a := i)) \<and> valid h' = valid h"
    and append_links: "valid h i \<Longrightarrow> b = nil32 \<or> valid h b \<Longrightarrow> append_tail a b h i = (a', b', h') \<Longrightarrow>
      a' = (if b = nil32 then i else a) \<and> b' = i \<and> pv h' = (pv h)(i := b) \<and>
      nx h' = (if b = nil32 then (nx h)(i := nil32) else (nx h)(i := nil32, b := i)) \<and> valid h' = valid h"
    and remove_links: "valid h i \<Longrightarrow> pv h i = nil32 \<or> valid h (pv h i) \<Longrightarrow> nx h i = nil32 \<or> valid h (nx h i) \<Longrightarrow>
      remove a b h i = (a', b', h') \<Longrightarrow>
      a' = (if pv h i = nil32 then nx h i else a) \<and> b' = (if nx h i = nil32 then pv h i else b) \<and>
      nx h' = (if pv h i = nil32 then nx h else (nx h)(pv h i := nx h i))(i := nil32) \<and>
      pv h' = (if nx h i = nil32 then pv h else (pv h)(nx h i := pv h i))(i := nil32) \<and> valid h' = valid h"
begin

definition is_list :: "'h \<Rightarrow> u32 \<Rightarrow> u32 \<Rightarrow> u32 list \<Rightarrow> bool" where
  "is_list h a b xs \<longleftrightarrow> dll (nx h) (pv h) a b xs \<and> (\<forall>x \<in> set xs. valid h x)"

lemma is_list_head: "is_list h a b xs \<Longrightarrow> a = nil32 \<or> valid h a"
  unfolding is_list_def using dll_head by blast

lemma is_list_tail: "is_list h a b xs \<Longrightarrow> b = nil32 \<or> valid h b"
  unfolding is_list_def using dll_tail_in by blast

lemma prepend_list:
  assumes "is_list h a b xs" and "valid h i" and "i \<notin> set xs" and "i \<noteq> nil32"
    and "prepend a b h i = (a', b', h')"
  shows "is_list h' a' b' (i # xs)"
  using prepend_links [OF assms(2) is_list_head [OF assms(1)] assms(5)] assms
    dll_Cons [of "nx h" "pv h" a b xs i "nx h'" "pv h'"] by (simp add: is_list_def)

lemma append_list:
  assumes "is_list h a b xs" and "valid h i" and "i \<notin> set xs" and "i \<noteq> nil32"
    and "append_tail a b h i = (a', b', h')"
  shows "is_list h' a' b' (xs @ [i])"
  using append_links [OF assms(2) is_list_tail [OF assms(1)] assms(5)] assms
    dll_snoc [of "nx h" "pv h" a b xs i "nx h'" "pv h'"] by (simp add: is_list_def)

lemma remove_side:
  assumes "is_list h a b xs" and "i \<in> set xs"
  shows "valid h i" "pv h i = nil32 \<or> valid h (pv h i)" "nx h i = nil32 \<or> valid h (nx h i)"
  using assms dll_neighbours [of "nx h" "pv h" a b xs i] by (auto simp: is_list_def)

lemma remove_list:
  assumes "is_list h a b xs" and "i \<in> set xs" and "remove a b h i = (a', b', h')"
  shows "is_list h' a' b' (remove1 i xs)"
proof -
  note r = remove_links [OF remove_side [OF assms(1,2)] assms(3)]
  have "dll (nx h') (pv h') a' b' (remove1 i xs)"
    using r dll_remove1 [of "nx h" "pv h" a b xs i "nx h'" "pv h'"] assms(1,2) by (simp add: is_list_def)
  with r assms(1) show ?thesis using set_remove1_subset [of i xs] by (auto simp: is_list_def)
qed

text \<open>The other lists of the table are left alone.\<close>

lemma prepend_frame:
  assumes "is_list h a b xs" and "valid h i" and "prepend a b h i = (a', b', h')"
    and "is_list h c d ys" and "set ys \<inter> set (i # xs) = {}"
  shows "is_list h' c d ys"
proof -
  note l = prepend_links [OF assms(2) is_list_head [OF assms(1)] assms(3)]
  have "a \<in> set xs" if "a \<noteq> nil32" using dll_head [OF _ that] assms(1) by (auto simp: is_list_def)
  with l assms(4,5) show ?thesis unfolding is_list_def by (auto intro!: dll_cong [where n = "nx h" and p = "pv h"])
qed

lemma append_frame:
  assumes "is_list h a b xs" and "valid h i" and "append_tail a b h i = (a', b', h')"
    and "is_list h c d ys" and "set ys \<inter> set (i # xs) = {}"
  shows "is_list h' c d ys"
proof -
  note l = append_links [OF assms(2) is_list_tail [OF assms(1)] assms(3)]
  have "b \<in> set xs" if "b \<noteq> nil32" using dll_tail_in [OF _ that] assms(1) by (auto simp: is_list_def)
  with l assms(4,5) show ?thesis unfolding is_list_def by (auto intro!: dll_cong [where n = "nx h" and p = "pv h"])
qed

lemma remove_frame:
  assumes "is_list h a b xs" and "i \<in> set xs" and "remove a b h i = (a', b', h')"
    and "is_list h c d ys" and "set ys \<inter> set xs = {}"
  shows "is_list h' c d ys"
proof -
  note l = remove_links [OF remove_side [OF assms(1,2)] assms(3)]
  have "pv h i = nil32 \<or> pv h i \<in> set xs" "nx h i = nil32 \<or> nx h i \<in> set xs"
    using dll_neighbours [OF assms(1) [unfolded is_list_def, THEN conjunct1] assms(2)] by auto
  with l assms(2,4,5) show ?thesis unfolding is_list_def by (auto intro!: dll_cong [where n = "nx h" and p = "pv h"])
qed

end

end
