(* ===== verification/Cake_Flow.thy ===== *)
theory Cake_Flow
  imports Cake_Agg Cake_Cobalt Intrusive_List
begin

text \<open>
  Flows of a tin: classification and hashing, link-layer overhead, host isolation, the three lists of
  flows, the ring of queued buffers and the set-associative lookup, from
  \<^verbatim>\<open>osvbng_qos_sched/osvbng_qos_sched.h\<close>, with the tables and the tin set-up of
  \<^verbatim>\<open>osvbng_qos_sched.c\<close> and the presets of \<^verbatim>\<open>cake_overhead.c\<close>.

  A buffer is what the plugin reads and writes of one: its IP header, the ports behind it, its length
  in the chain, its enqueue time, the flag that marks it as scheduled and its output interface.
  Words of an address are the words as loaded.  Hashing, the flow label accessor, the IPv4 ECN setter
  and the random generator belong to vppinfra and vnet; they are fields of \<open>cake_ext\<close>.
\<close>

section \<open>Buffers\<close>

datatype ip_hdr =
    Ip4 (ip4_tos: u8) (ip4_protocol: u8) (ip4_src: u32) (ip4_dst: u32) (ip4_sum: u16)
  | Ip6 (ip6_vtcfl: u32) (ip6_protocol: u8) (ip6_src: "u32 list") (ip6_dst: "u32 list")

record vbuf =
  b_hdr :: ip_hdr
  b_sport :: u16
  b_dport :: u16
  b_len :: u32
  b_enqueue_us :: u32
  b_scheduled :: bool
  b_tx_if :: u32

record cake_ext =
  ex_xxhash :: "u64 \<Rightarrow> u64"
  ex_flow_label :: "ip_hdr \<Rightarrow> u32"
  ex_ip4_set_ecn_ce :: "ip_hdr \<Rightarrow> ip_hdr"
  ex_random_u32 :: "u32 \<Rightarrow> u32 \<times> u32"

section \<open>Overhead, classification and hashing\<close>

definition cake_overhead_adjust :: "cake_sched \<Rightarrow> u32 \<Rightarrow> u32" where
  "cake_overhead_adjust cs pkt_len =
     (let adjusted = sint pkt_len + cs_overhead cs;
          adjusted = (if adjusted < uint (cs_mpu cs) then uint (cs_mpu cs) else adjusted);
          adjusted = (if cs_atm_mode cs = 1 then ((adjusted + 47) div 48) * 53 else adjusted)
      in word_of_int adjusted)"

definition cake_flow_queue_len :: "cake_flow \<Rightarrow> u32" where
  "cake_flow_queue_len f = f_tail f - f_head f"

definition cake_dscp_from_buffer :: "vbuf \<Rightarrow> u8" where
  "cake_dscp_from_buffer b = (case b_hdr b of
     Ip4 tos _ _ _ _ \<Rightarrow> drop_bit 2 tos AND 0x3f
   | Ip6 vtcfl _ _ _ \<Rightarrow> ucast (drop_bit 22 vtcfl AND 0x3f))"

definition cake_dst_host_hash :: "vbuf \<Rightarrow> u32" where
  "cake_dst_host_hash b = (case b_hdr b of
     Ip4 _ _ _ dst _ \<Rightarrow> dst
   | Ip6 _ _ _ dst \<Rightarrow> dst ! 0 XOR dst ! 3)"

definition IP_PROTOCOL_TCP :: u8 where "IP_PROTOCOL_TCP = 6"
definition IP_PROTOCOL_UDP :: u8 where "IP_PROTOCOL_UDP = 17"

text \<open>The two 64-bit words of an IPv6 address, on a little-endian host.\<close>

definition as_u64 :: "u32 list \<Rightarrow> nat \<Rightarrow> u64" where
  "as_u64 ws k = ucast (ws ! (2 * k)) OR push_bit 32 (ucast (ws ! (2 * k + 1)))"

definition l4_ports :: "u8 \<Rightarrow> vbuf \<Rightarrow> u16 \<times> u16" where
  "l4_ports protocol b =
     (if protocol = IP_PROTOCOL_TCP \<or> protocol = IP_PROTOCOL_UDP then (b_sport b, b_dport b) else (0, 0))"

definition cake_hash_flow :: "cake_ext \<Rightarrow> vbuf \<Rightarrow> u32" where
  "cake_hash_flow ex b =
     (let (k0, k1) = (case b_hdr b of
            Ip4 tos protocol src dst _ \<Rightarrow>
              (let (sport, dport) = l4_ports protocol b
               in (push_bit 32 (ucast src) OR ucast dst,
                   push_bit 16 (ucast sport) OR ucast dport OR push_bit 32 (ucast protocol)))
          | Ip6 vtcfl protocol src dst \<Rightarrow>
              (let (sport, dport) = l4_ports protocol b;
                   flow_label = ex_flow_label ex (b_hdr b)
               in (as_u64 src 0 XOR as_u64 src 1,
                   (as_u64 dst 0 XOR as_u64 dst 1) XOR
                   (push_bit 16 (ucast sport) OR ucast dport OR push_bit 32 (ucast flow_label)))));
          hash = ucast (ex_xxhash ex (k0 XOR k1)) :: u32
      in hash OR 1)"

definition cake_ecn_capable :: "vbuf \<Rightarrow> bool" where
  "cake_ecn_capable b = (case b_hdr b of
     Ip4 tos _ _ _ _ \<Rightarrow> tos AND 3 \<noteq> 0
   | Ip6 vtcfl _ _ _ \<Rightarrow> drop_bit 20 vtcfl AND 3 \<noteq> 0)"

definition cake_ecn_mark :: "cake_ext \<Rightarrow> vbuf \<Rightarrow> bool \<times> vbuf" where
  "cake_ecn_mark ex b = (case b_hdr b of
     Ip4 tos _ _ _ _ \<Rightarrow>
       if tos AND 3 = 0 then (False, b) else (True, b\<lparr>b_hdr := ex_ip4_set_ecn_ce ex (b_hdr b)\<rparr>)
   | Ip6 vtcfl protocol src dst \<Rightarrow>
       (let tc = ucast (drop_bit 20 vtcfl) :: u8
        in if tc AND 3 = 0 then (False, b)
           else (let tc = (tc AND NOT 3) OR 3;
                     vtcfl = (vtcfl AND NOT (push_bit 20 0xff)) OR push_bit 20 (ucast tc)
                 in (True, b\<lparr>b_hdr := Ip6 vtcfl protocol src dst\<rparr>))))"

section \<open>Host isolation\<close>

fun cake_host_probe :: "cake_host list \<Rightarrow> u32 \<Rightarrow> nat \<Rightarrow> nat list \<Rightarrow> u16 \<times> cake_host list" where
  "cake_host_probe hosts ip_hash idx [] =
     (word_of_nat idx, hosts[idx := \<lparr>h_ip_hash = ip_hash, h_bulk = 0\<rparr>])"
| "cake_host_probe hosts ip_hash idx (i # is) =
     (let slot = (idx + i) mod CAKE_HOSTS
      in if h_ip_hash (hosts ! slot) = ip_hash then (word_of_nat slot, hosts)
         else if h_ip_hash (hosts ! slot) = 0
         then (word_of_nat slot, hosts[slot := (hosts ! slot)\<lparr>h_ip_hash := ip_hash\<rparr>])
         else cake_host_probe hosts ip_hash idx is)"

definition cake_host_lookup :: "cake_tin \<Rightarrow> u32 \<Rightarrow> u16 \<times> cake_tin" where
  "cake_host_lookup tin ip_hash =
     (case cake_host_probe (t_hosts tin) ip_hash (unat ip_hash mod CAKE_HOSTS) [0, 1, 2, 3] of
        (slot, hosts) \<Rightarrow> (slot, tin\<lparr>t_hosts := hosts\<rparr>))"

definition cake_quantum_div :: "nat \<Rightarrow> u16" where
  "cake_quantum_div i = (if i = 0 then - 1 else word_of_nat (65535 div i))"

definition cake_quantum_for_flow :: "cake_tin \<Rightarrow> cake_flow \<Rightarrow> u32" where
  "cake_quantum_for_flow tin f =
     (let host_load =
            (if unat (f_dst_host f) < CAKE_HOSTS
             then (let hl = unat (h_bulk (t_hosts tin ! unat (f_dst_host f)));
                       hl = (if hl > CAKE_QUEUES then CAKE_QUEUES else hl)
                   in if hl > 1 then hl else 1)
             else 1);
          quantum = drop_bit 16 (t_quantum tin * ucast (cake_quantum_div host_load))
      in if quantum \<noteq> 0 then quantum else 1)"

text \<open>The bulk count of a flow's host, one up or one down.\<close>

definition host_bulk_inc :: "u16 \<Rightarrow> cake_host list \<Rightarrow> cake_host list" where
  "host_bulk_inc h hosts =
     (if unat h < CAKE_HOSTS
      then hosts[unat h := (hosts ! unat h)\<lparr>h_bulk := h_bulk (hosts ! unat h) + 1\<rparr>] else hosts)"

definition host_bulk_dec :: "u16 \<Rightarrow> cake_host list \<Rightarrow> cake_host list" where
  "host_bulk_dec h hosts =
     (if unat h < CAKE_HOSTS \<and> h_bulk (hosts ! unat h) > 0
      then hosts[unat h := (hosts ! unat h)\<lparr>h_bulk := h_bulk (hosts ! unat h) - 1\<rparr>] else hosts)"

section \<open>The lists of flows\<close>

definition flow_upd :: "u32 \<Rightarrow> (cake_flow \<Rightarrow> cake_flow) \<Rightarrow> cake_flow list \<Rightarrow> cake_flow list" where
  "flow_upd i g flows = flows[unat i := g (flows ! unat i)]"

definition cake_flow_list_prepend ::
  "u32 \<Rightarrow> u32 \<Rightarrow> cake_flow list \<Rightarrow> u32 \<Rightarrow> u32 \<times> u32 \<times> cake_flow list" where
  "cake_flow_list_prepend list_head list_tail flows idx =
     (let flows = flow_upd idx (\<lambda>f. f\<lparr>f_next := list_head, f_prev := nil32\<rparr>) flows
      in if list_head \<noteq> nil32
         then (idx, list_tail, flow_upd list_head (\<lambda>f. f\<lparr>f_prev := idx\<rparr>) flows)
         else (idx, idx, flows))"

definition cake_flow_list_append_tail ::
  "u32 \<Rightarrow> u32 \<Rightarrow> cake_flow list \<Rightarrow> u32 \<Rightarrow> u32 \<times> u32 \<times> cake_flow list" where
  "cake_flow_list_append_tail list_head list_tail flows idx =
     (let flows = flow_upd idx (\<lambda>f. f\<lparr>f_next := nil32, f_prev := list_tail\<rparr>) flows
      in if list_tail \<noteq> nil32
         then (list_head, idx, flow_upd list_tail (\<lambda>f. f\<lparr>f_next := idx\<rparr>) flows)
         else (idx, idx, flows))"

definition cake_flow_list_remove ::
  "u32 \<Rightarrow> u32 \<Rightarrow> cake_flow list \<Rightarrow> u32 \<Rightarrow> u32 \<times> u32 \<times> cake_flow list" where
  "cake_flow_list_remove list_head list_tail flows idx =
     (let prev = f_prev (flows ! unat idx);
          (list_head, flows) =
            (if prev \<noteq> nil32
             then (list_head, flow_upd prev (\<lambda>f. f\<lparr>f_next := f_next (flows ! unat idx)\<rparr>) flows)
             else (f_next (flows ! unat idx), flows));
          next' = f_next (flows ! unat idx);
          (list_tail, flows) =
            (if next' \<noteq> nil32
             then (list_tail, flow_upd next' (\<lambda>f. f\<lparr>f_prev := f_prev (flows ! unat idx)\<rparr>) flows)
             else (f_prev (flows ! unat idx), flows))
      in (list_head, list_tail, flow_upd idx (\<lambda>f. f\<lparr>f_next := nil32, f_prev := nil32\<rparr>) flows))"

text \<open>The list operations on the three lists of a tin.\<close>

definition new_prepend :: "u32 \<Rightarrow> cake_tin \<Rightarrow> cake_tin" where
  "new_prepend i t = (case cake_flow_list_prepend (t_new_head t) (t_new_tail t) (t_flows t) i of
     (h, e, flows) \<Rightarrow> t\<lparr>t_new_head := h, t_new_tail := e, t_flows := flows\<rparr>)"

definition new_remove :: "u32 \<Rightarrow> cake_tin \<Rightarrow> cake_tin" where
  "new_remove i t = (case cake_flow_list_remove (t_new_head t) (t_new_tail t) (t_flows t) i of
     (h, e, flows) \<Rightarrow> t\<lparr>t_new_head := h, t_new_tail := e, t_flows := flows\<rparr>)"

definition old_append :: "u32 \<Rightarrow> cake_tin \<Rightarrow> cake_tin" where
  "old_append i t = (case cake_flow_list_append_tail (t_old_head t) (t_old_tail t) (t_flows t) i of
     (h, e, flows) \<Rightarrow> t\<lparr>t_old_head := h, t_old_tail := e, t_flows := flows\<rparr>)"

definition old_remove :: "u32 \<Rightarrow> cake_tin \<Rightarrow> cake_tin" where
  "old_remove i t = (case cake_flow_list_remove (t_old_head t) (t_old_tail t) (t_flows t) i of
     (h, e, flows) \<Rightarrow> t\<lparr>t_old_head := h, t_old_tail := e, t_flows := flows\<rparr>)"

definition decaying_append :: "u32 \<Rightarrow> cake_tin \<Rightarrow> cake_tin" where
  "decaying_append i t = (case cake_flow_list_append_tail (t_decaying_head t) (t_decaying_tail t) (t_flows t) i of
     (h, e, flows) \<Rightarrow> t\<lparr>t_decaying_head := h, t_decaying_tail := e, t_flows := flows\<rparr>)"

definition decaying_remove :: "u32 \<Rightarrow> cake_tin \<Rightarrow> cake_tin" where
  "decaying_remove i t = (case cake_flow_list_remove (t_decaying_head t) (t_decaying_tail t) (t_flows t) i of
     (h, e, flows) \<Rightarrow> t\<lparr>t_decaying_head := h, t_decaying_tail := e, t_flows := flows\<rparr>)"

section \<open>The ring of a flow\<close>

text \<open>The ring is allocated without being cleared; the fresh memory is an input.\<close>

definition cake_flow_ring_alloc :: "u32 list \<Rightarrow> cake_flow \<Rightarrow> cake_flow" where
  "cake_flow_ring_alloc mem f = f\<lparr>f_ring := mem, f_head := 0, f_tail := 0\<rparr>"

definition ring_slot :: "u32 \<Rightarrow> nat" where
  "ring_slot k = unat (k AND CAKE_FLOW_RING_MASK)"

function cake_flow_ring_drain :: "cake_flow \<Rightarrow> cake_flow \<times> u32 list" where
  "cake_flow_ring_drain f =
     (if f_head f \<noteq> f_tail f
      then (let bi = f_ring f ! ring_slot (f_head f);
                (f, freed) = cake_flow_ring_drain (f\<lparr>f_head := f_head f + 1\<rparr>)
            in (f, bi # freed))
      else (f, []))"
  by pat_completeness auto
termination
proof (relation "measure (\<lambda>f. unat (f_tail f - f_head f))")
  fix f :: cake_flow
  assume "f_head f \<noteq> f_tail f"
  then have "f_tail f - f_head f \<noteq> 0" by simp
  from unat_pred_less [OF this] show "(f\<lparr>f_head := f_head f + 1\<rparr>, f) \<in> measure (\<lambda>f. unat (f_tail f - f_head f))"
    by (simp add: diff_diff_eq)
qed simp

declare cake_flow_ring_drain.simps [simp del]

text \<open>The buffers given back to the buffer pool come with the flow.\<close>

definition cake_flow_ring_free :: "cake_flow \<Rightarrow> cake_flow \<times> u32 list" where
  "cake_flow_ring_free f =
     (if f_ring f = [] then (f, [])
      else (case cake_flow_ring_drain f of
         (f, freed) \<Rightarrow> (f\<lparr>f_ring := [], f_head := 0, f_tail := 0\<rparr>, freed)))"

section \<open>Set-associative lookup\<close>

text \<open>
  The scan of one set: the slot of the tag, or the first empty slot and the slot to evict, which is
  the least loaded of the occupied slots before it.
\<close>

fun cake_flow_scan :: "cake_tin \<Rightarrow> u32 \<Rightarrow> u32 list \<Rightarrow> u32 \<Rightarrow> u32 \<Rightarrow> u32 \<Rightarrow> u32 option \<times> u32 \<times> u32" where
  "cake_flow_scan tin tag [] empty_slot evict_slot evict_backlog = (None, empty_slot, evict_slot)"
| "cake_flow_scan tin tag (slot # slots) empty_slot evict_slot evict_backlog =
     (let slot_tag = t_flow_tags tin ! unat slot
      in if slot_tag = tag then (Some slot, empty_slot, evict_slot)
         else (let empty_slot = (if slot_tag = 0 \<and> empty_slot = nil32 then slot else empty_slot);
                   bl = f_backlog (t_flows tin ! unat slot);
                   better = (slot_tag \<noteq> 0 \<and> empty_slot = nil32 \<and> bl < evict_backlog)
               in cake_flow_scan tin tag slots empty_slot
                    (if better then slot else evict_slot) (if better then bl else evict_backlog)))"

definition set_slots :: "u32 \<Rightarrow> u32 list" where
  "set_slots set_base = map (\<lambda>i. set_base + word_of_nat i) [0..<CAKE_SET_WAYS]"

text \<open>The result is the slot, the slot to evict and the tin.\<close>

definition cake_flow_lookup :: "cake_tin \<Rightarrow> u32 \<Rightarrow> u32 \<Rightarrow> u32 \<times> u32 \<times> cake_tin" where
  "cake_flow_lookup tin tag set_base =
     (case cake_flow_scan tin tag (set_slots set_base) nil32 nil32 nil32 of
        (Some slot, _, evict_slot) \<Rightarrow> (slot, evict_slot, tin)
      | (None, empty_slot, evict_slot) \<Rightarrow>
          if empty_slot \<noteq> nil32
          then (empty_slot, nil32, tin\<lparr>t_flow_tags := (t_flow_tags tin)[unat empty_slot := tag]\<rparr>)
          else (nil32, evict_slot, tin))"

definition cake_flow_set_base :: "u32 \<Rightarrow> u32" where
  "cake_flow_set_base tag = word_of_nat ((unat tag mod CAKE_SET_COUNT) * CAKE_SET_WAYS)"

section \<open>Discarding, evicting and reclaiming a flow\<close>

definition cake_flow_discard ::
  "cake_aggregate pool \<Rightarrow> cake_sched \<Rightarrow> cake_tin \<Rightarrow> cake_flow \<Rightarrow>
   cake_aggregate pool \<times> cake_sched \<times> cake_tin \<times> cake_flow \<times> u32 list" where
  "cake_flow_discard aggs cs tin f =
     (let queued = cake_flow_queue_len f;
          (aggs, cs, tin, f) =
            (if queued \<noteq> 0
             then (cake_agg_discharge aggs cs (f_backlog f),
                   cs\<lparr>cs_buffer_usage := cs_buffer_usage cs - f_backlog f,
                      cs_queued := cs_queued cs - queued,
                      cs_dropped_pkts := cs_dropped_pkts cs + ucast queued\<rparr>,
                   tin\<lparr>t_drops := t_drops tin + ucast queued\<rparr>,
                   f\<lparr>f_backlog := 0\<rparr>)
             else (aggs, cs, tin, f));
          (f, freed) = cake_flow_ring_free f
      in (aggs, cs, tin, f, freed))"

text \<open>A zeroed flow, unlinked.\<close>

definition flow_clean :: cake_flow where
  "flow_clean = cake_flow_zero\<lparr>f_next := nil32, f_prev := nil32\<rparr>"

definition cake_flow_evict ::
  "cake_aggregate pool \<Rightarrow> cake_sched \<Rightarrow> cake_tin \<Rightarrow> u32 \<Rightarrow>
   cake_aggregate pool \<times> cake_sched \<times> cake_tin \<times> u32 list" where
  "cake_flow_evict aggs cs tin slot =
     (let (aggs, cs, tin, ef, freed) = cake_flow_discard aggs cs tin (t_flows tin ! unat slot);
          tin = tin\<lparr>t_flows := (t_flows tin)[unat slot := ef]\<rparr>;
          state = f_state ef;
          tin = (case state of
              FLOW_SPARSE \<Rightarrow> (new_remove slot tin)\<lparr>t_sparse_count := t_sparse_count tin - 1\<rparr>
            | FLOW_BULK \<Rightarrow> (old_remove slot tin)\<lparr>t_bulk_count := t_bulk_count tin - 1,
                             t_hosts := host_bulk_dec (f_dst_host ef) (t_hosts tin)\<rparr>
            | FLOW_DECAYING \<Rightarrow> decaying_remove slot tin
            | FLOW_NONE \<Rightarrow> tin);
          tin = (if state \<noteq> FLOW_NONE then tin\<lparr>t_flow_count := t_flow_count tin - 1\<rparr> else tin)
      in (aggs, cs, tin\<lparr>t_flows := (t_flows tin)[unat slot := flow_clean]\<rparr>, freed))"

text \<open>The list a flow is reclaimed from is an argument in C; here it is its removal.\<close>

definition cake_flow_reclaim ::
  "cake_tin \<Rightarrow> cake_sched \<Rightarrow> u32 \<Rightarrow> (u32 \<Rightarrow> cake_tin \<Rightarrow> cake_tin) \<Rightarrow> u32 \<Rightarrow> cake_tin \<times> u32 list" where
  "cake_flow_reclaim tin cs flow_idx list_remove now_us =
     (let tin = tin\<lparr>t_flows := flow_upd flow_idx
            (\<lambda>f. cobalt_queue_empty f (cs_target_us cs) (cs_p_dec cs) (cs_interval_us cs) now_us) (t_flows tin)\<rparr>;
          tin = list_remove flow_idx tin;
          (f, freed) = cake_flow_ring_free (t_flows tin ! unat flow_idx);
          tin = (case f_state f of
              FLOW_SPARSE \<Rightarrow> tin\<lparr>t_sparse_count := t_sparse_count tin - 1\<rparr>
            | FLOW_BULK \<Rightarrow> tin\<lparr>t_bulk_count := t_bulk_count tin - 1,
                             t_hosts := host_bulk_dec (f_dst_host f) (t_hosts tin)\<rparr>
            | _ \<Rightarrow> tin)
      in (tin\<lparr>t_flow_tags := (t_flow_tags tin)[unat flow_idx := 0],
              t_flows := (t_flows tin)[unat flow_idx := flow_clean],
              t_flow_count := t_flow_count tin - 1\<rparr>, freed))"

section \<open>Tins\<close>

definition cake_dscp_besteffort :: "u8 list" where
  "cake_dscp_besteffort = replicate 64 0"

definition cake_dscp_diffserv3 :: "u8 list" where
  "cake_dscp_diffserv3 =
    [1, 1, 1, 1, 2, 1, 1, 1, 0, 1, 1, 1, 1, 1, 1, 1,
     1, 1, 1, 1, 1, 1, 1, 1, 1, 1, 1, 1, 1, 1, 1, 1,
     1, 1, 1, 1, 1, 1, 1, 1, 1, 1, 1, 1, 2, 1, 2, 1,
     2, 1, 1, 1, 1, 1, 1, 1, 2, 1, 1, 1, 1, 1, 1, 1]"

definition cake_dscp_diffserv4 :: "u8 list" where
  "cake_dscp_diffserv4 =
    [1, 2, 1, 1, 2, 1, 1, 1, 0, 1, 1, 1, 1, 1, 1, 1,
     2, 1, 2, 1, 2, 1, 2, 1, 2, 1, 2, 1, 2, 1, 2, 1,
     3, 1, 2, 1, 2, 1, 2, 1, 3, 1, 1, 1, 3, 1, 3, 1,
     3, 1, 1, 1, 1, 1, 1, 1, 3, 1, 1, 1, 1, 1, 1, 1]"

definition cake_dscp_diffserv8 :: "u8 list" where
  "cake_dscp_diffserv8 =
    [2, 5, 1, 2, 4, 2, 2, 2, 0, 2, 1, 2, 1, 2, 1, 2,
     5, 2, 4, 2, 4, 2, 4, 2, 3, 2, 3, 2, 3, 2, 3, 2,
     6, 2, 3, 2, 3, 2, 3, 2, 6, 2, 2, 2, 6, 2, 6, 2,
     7, 2, 2, 2, 2, 2, 2, 2, 7, 2, 2, 2, 2, 2, 2, 2]"

definition cake_dscp_tables :: "u8 \<Rightarrow> u8 list" where
  "cake_dscp_tables m =
     [cake_dscp_besteffort, cake_dscp_diffserv3, cake_dscp_diffserv4, cake_dscp_diffserv8] ! unat m"

definition cake_tin_counts :: "u8 \<Rightarrow> u8" where
  "cake_tin_counts m = [1, 3, 4, 8] ! unat m"

definition cake_tin_init :: "u32 \<Rightarrow> cake_tin" where
  "cake_tin_init quantum =
     cake_tin_zero\<lparr>
       t_flows := replicate CAKE_QUEUES flow_clean,
       t_flow_tags := replicate CAKE_QUEUES 0,
       t_new_head := nil32, t_new_tail := nil32,
       t_old_head := nil32, t_old_tail := nil32,
       t_decaying_head := nil32, t_decaying_tail := nil32,
       t_quantum := quantum, t_tin_deficit := 0, t_tin_quantum := 0\<rparr>"

fun cake_tin_drain_loop ::
  "nat list \<Rightarrow> cake_aggregate pool \<Rightarrow> cake_sched \<Rightarrow> cake_tin \<Rightarrow>
   cake_aggregate pool \<times> cake_sched \<times> cake_tin \<times> u32 list" where
  "cake_tin_drain_loop [] aggs cs tin = (aggs, cs, tin, [])"
| "cake_tin_drain_loop (i # is) aggs cs tin =
     (let (aggs, cs, tin, f, freed) = cake_flow_discard aggs cs tin (t_flows tin ! i);
          tin = tin\<lparr>t_flows := (t_flows tin)[i := f]\<rparr>;
          (aggs, cs, tin, freed') = cake_tin_drain_loop is aggs cs tin
      in (aggs, cs, tin, freed @ freed'))"

definition cake_tin_drain ::
  "cake_aggregate pool \<Rightarrow> cake_sched \<Rightarrow> cake_tin \<Rightarrow>
   cake_aggregate pool \<times> cake_sched \<times> cake_tin \<times> u32 list" where
  "cake_tin_drain aggs cs tin =
     (let (aggs, cs, tin, freed) =
            (if t_flows tin \<noteq> [] then cake_tin_drain_loop [0..<CAKE_QUEUES] aggs cs tin
             else (aggs, cs, tin, []))
      in (aggs, cs, tin\<lparr>t_flows := [], t_flow_tags := []\<rparr>, freed))"

section \<open>Overhead presets\<close>

record cake_overhead_preset =
  op_name :: string
  op_overhead :: int
  op_atm_mode :: u8
  op_mpu :: u8

definition cake_overhead_presets :: "cake_overhead_preset list" where
  "cake_overhead_presets =
    [\<lparr>op_name = ''none'', op_overhead = 0, op_atm_mode = 0, op_mpu = 0\<rparr>,
     \<lparr>op_name = ''ethernet'', op_overhead = 14, op_atm_mode = 0, op_mpu = 64\<rparr>,
     \<lparr>op_name = ''docsis'', op_overhead = 18, op_atm_mode = 0, op_mpu = 64\<rparr>,
     \<lparr>op_name = ''dsl-pppoe-ptm'', op_overhead = 27, op_atm_mode = 2, op_mpu = 64\<rparr>,
     \<lparr>op_name = ''dsl-pppoe-atm'', op_overhead = 32, op_atm_mode = 1, op_mpu = 64\<rparr>,
     \<lparr>op_name = ''gpon'', op_overhead = 4, op_atm_mode = 0, op_mpu = 64\<rparr>]"

section \<open>The ring as a queue\<close>

text \<open>The buffers a ring holds, oldest first.\<close>

definition flow_queue :: "cake_flow \<Rightarrow> u32 list" where
  "flow_queue f = map (\<lambda>k. f_ring f ! ring_slot (f_head f + word_of_nat k)) [0..<unat (f_tail f - f_head f)]"

lemma ring_slot_mod: "ring_slot k = unat k mod 128"
proof -
  have "(127 :: u32) = mask 7" by (simp add: mask_eq_exp_minus_1)
  then have "unat (k AND 127) = take_bit 7 (unat k)"
    by (simp only: take_bit_eq_mask [symmetric] unsigned_take_bit_eq)
  then show ?thesis by (simp add: ring_slot_def CAKE_FLOW_RING_MASK_def take_bit_eq_mod)
qed

lemma ring_slot_add: "ring_slot (a + word_of_nat k) = (unat a + k) mod 128"
proof -
  have "unat (a + word_of_nat k) mod 128 = (unat a + k) mod 128"
    by (simp add: unat_word_ariths unat_of_nat mod_mod_cancel mod_add_right_eq)
  then show ?thesis by (simp only: ring_slot_mod)
qed

lemma length_flow_queue [simp]: "length (flow_queue f) = unat (cake_flow_queue_len f)"
  by (simp add: flow_queue_def cake_flow_queue_len_def)

lemma flow_queue_empty: "cake_flow_queue_len f = 0 \<Longrightarrow> flow_queue f = []"
  by (simp add: flow_queue_def cake_flow_queue_len_def)

lemma flow_queue_pop:
  assumes "cake_flow_queue_len f \<noteq> 0"
  shows "flow_queue f = f_ring f ! ring_slot (f_head f) # flow_queue (f\<lparr>f_head := f_head f + 1\<rparr>)"
    and "unat (cake_flow_queue_len (f\<lparr>f_head := f_head f + 1\<rparr>)) < unat (cake_flow_queue_len f)"
proof -
  let ?n = "unat (f_tail f - f_head f)"
  have nz: "f_tail f - f_head f \<noteq> 0" using assms by (simp add: cake_flow_queue_len_def)
  have n: "unat (f_tail f - (f_head f + 1)) = ?n - 1" "0 < ?n"
    using unat_minus_one [OF nz] nz by (simp_all add: diff_diff_eq unat_gt_0)
  have "[0..<?n] = 0 # map Suc [0..<?n - 1]"
    using n(2) by (metis Suc_diff_1 map_Suc_upt upt_conv_Cons)
  then show "flow_queue f = f_ring f ! ring_slot (f_head f) # flow_queue (f\<lparr>f_head := f_head f + 1\<rparr>)"
    by (simp add: flow_queue_def n(1) o_def add.assoc)
  show "unat (cake_flow_queue_len (f\<lparr>f_head := f_head f + 1\<rparr>)) < unat (cake_flow_queue_len f)"
    using n by (simp add: cake_flow_queue_len_def)
qed

lemma flow_queue_push:
  assumes "length (f_ring f) = 128" and "unat (cake_flow_queue_len f) < 128"
    and "f_ring g = (f_ring f)[ring_slot (f_tail f) := bi]" "f_head g = f_head f" "f_tail g = f_tail f + 1"
  shows "flow_queue g = flow_queue f @ [bi]"
    and "unat (cake_flow_queue_len g) = Suc (unat (cake_flow_queue_len f))"
proof -
  let ?n = "unat (f_tail f - f_head f)"
  have len: "unat (f_tail f + 1 - f_head f) = Suc ?n"
  proof -
    have eq: "f_tail f + 1 - f_head f = (f_tail f - f_head f) + 1" by simp
    have "unat ((f_tail f - f_head f) + 1) = Suc ?n"
      using assms(2) by (subst unat_add_exact) (simp_all add: cake_flow_queue_len_def)
    then show ?thesis unfolding eq .
  qed
  have slot: "ring_slot (f_tail f) = (unat (f_head f) + ?n) mod 128"
    using ring_slot_add [of "f_head f" ?n] by simp
  have ne: "ring_slot (f_head f + word_of_nat k) \<noteq> ring_slot (f_tail f)" if "k < ?n" for k
  proof -
    have "?n < 128" using assms(2) by (simp add: cake_flow_queue_len_def)
    show ?thesis
    proof
      assume "ring_slot (f_head f + word_of_nat k) = ring_slot (f_tail f)"
      then have "(unat (f_head f) + ?n) mod 128 = (unat (f_head f) + k) mod 128" by (simp only: slot ring_slot_add)
      then have "128 dvd (unat (f_head f) + ?n) - (unat (f_head f) + k)"
        using that by (subst mod_eq_dvd_iff_nat [symmetric]) simp_all
      with \<open>?n < 128\<close> that show False by (simp add: nat_dvd_not_less)
    qed
  qed
  have "f_ring g ! ring_slot (f_head f + word_of_nat k) = f_ring f ! ring_slot (f_head f + word_of_nat k)" if "k < ?n" for k
    using ne [OF that] by (simp add: assms(3))
  moreover have "f_ring g ! ring_slot (f_head f + word_of_nat ?n) = bi"
    using assms(1,3) by (simp add: ring_slot_mod)
  ultimately show "flow_queue g = flow_queue f @ [bi]"
    by (simp add: flow_queue_def assms(4,5) len)
  show "unat (cake_flow_queue_len g) = Suc (unat (cake_flow_queue_len f))"
    by (simp add: cake_flow_queue_len_def assms(4,5) len)
qed

lemma ring_drain: "cake_flow_ring_drain f = (f\<lparr>f_head := f_tail f\<rparr>, flow_queue f)"
proof (induction f rule: cake_flow_ring_drain.induct)
  case (1 f)
  show ?case
  proof (cases "f_head f = f_tail f")
    case True
    then have "f\<lparr>f_head := f_tail f\<rparr> = f" by simp
    with True show ?thesis by (simp add: cake_flow_ring_drain.simps [of f] flow_queue_empty cake_flow_queue_len_def)
  next
    case False
    then have "cake_flow_queue_len f \<noteq> 0" by (simp add: cake_flow_queue_len_def)
    note pop = flow_queue_pop(1) [OF this]
    from 1 [OF False refl] False show ?thesis
      by (subst cake_flow_ring_drain.simps) (simp add: pop)
  qed
qed

lemma ring_free:
  "cake_flow_ring_free f = (if f_ring f = [] then (f, [])
     else (f\<lparr>f_ring := [], f_head := 0, f_tail := 0\<rparr>, flow_queue f))"
  by (simp add: cake_flow_ring_free_def ring_drain)

section \<open>The lists of flows refine lists\<close>

definition flow_valid :: "cake_flow list \<Rightarrow> u32 \<Rightarrow> bool" where
  "flow_valid flows i \<longleftrightarrow> unat i < length flows"

lemma flow_upd_at:
  "flow_valid flows i \<Longrightarrow> flow_upd i g flows ! unat j = (if j = i then g (flows ! unat i) else flows ! unat j)"
  by (auto simp: flow_valid_def flow_upd_def word_unat_eq_iff)

lemma flow_upd_valid [simp]: "flow_valid (flow_upd i g flows) = flow_valid flows"
  by (simp add: flow_valid_def flow_upd_def fun_eq_iff)

lemma flow_remove_links:
  assumes v: "flow_valid h i" "f_prev (h ! unat i) = nil32 \<or> flow_valid h (f_prev (h ! unat i))"
    "f_next (h ! unat i) = nil32 \<or> flow_valid h (f_next (h ! unat i))"
    and r: "cake_flow_list_remove a b h i = (a', b', h')"
  shows "a' = (if f_prev (h ! unat i) = nil32 then f_next (h ! unat i) else a) \<and>
      b' = (if f_next (h ! unat i) = nil32 then f_prev (h ! unat i) else b) \<and>
      (\<lambda>k. f_next (h' ! unat k)) = (if f_prev (h ! unat i) = nil32 then (\<lambda>k. f_next (h ! unat k))
        else (\<lambda>k. f_next (h ! unat k))(f_prev (h ! unat i) := f_next (h ! unat i)))(i := nil32) \<and>
      (\<lambda>k. f_prev (h' ! unat k)) = (if f_next (h ! unat i) = nil32 then (\<lambda>k. f_prev (h ! unat k))
        else (\<lambda>k. f_prev (h ! unat k))(f_next (h ! unat i) := f_prev (h ! unat i)))(i := nil32) \<and>
      flow_valid h' = flow_valid h"
proof -
  define p n where "p = f_prev (h ! unat i)" and "n = f_next (h ! unat i)"
  define h1 where "h1 = (if p \<noteq> nil32 then flow_upd p (\<lambda>f. f\<lparr>f_next := n\<rparr>) h else h)"
  define h2 where "h2 = (if n \<noteq> nil32 then flow_upd n (\<lambda>f. f\<lparr>f_prev := p\<rparr>) h1 else h1)"
  have h1: "flow_valid h1 = flow_valid h" "f_next (h1 ! unat k) = (if p \<noteq> nil32 \<and> k = p then n else f_next (h ! unat k))"
    "f_prev (h1 ! unat k) = f_prev (h ! unat k)" for k
    using v by (auto simp: h1_def p_def flow_upd_at)
  have at1: "f_next (h1 ! unat i) = n" "f_prev (h1 ! unat i) = p" by (simp_all add: h1 n_def p_def)
  have h2: "flow_valid h2 = flow_valid h" "f_next (h2 ! unat k) = f_next (h1 ! unat k)"
    "f_prev (h2 ! unat k) = (if n \<noteq> nil32 \<and> k = n then p else f_prev (h ! unat k))" for k
    using v(3) h1 by (auto simp: h2_def n_def flow_upd_at)
  have r': "a' = (if p \<noteq> nil32 then a else n) \<and> b' = (if n \<noteq> nil32 then b else p) \<and>
      h' = flow_upd i (\<lambda>f. f\<lparr>f_next := nil32, f_prev := nil32\<rparr>) h2"
    using r at1 by (auto simp: cake_flow_list_remove_def Let_def h1_def h2_def p_def n_def split: if_splits)
  have h': "f_next (h' ! unat k) = (if k = i then nil32 else f_next (h2 ! unat k))"
    "f_prev (h' ! unat k) = (if k = i then nil32 else f_prev (h2 ! unat k))" "flow_valid h' = flow_valid h" for k
    using r' h2(1) v(1) by (simp_all add: flow_upd_at)
  have "(\<lambda>k. f_next (h' ! unat k)) = (if p = nil32 then (\<lambda>k. f_next (h ! unat k))
        else (\<lambda>k. f_next (h ! unat k))(p := n))(i := nil32)"
    "(\<lambda>k. f_prev (h' ! unat k)) = (if n = nil32 then (\<lambda>k. f_prev (h ! unat k))
        else (\<lambda>k. f_prev (h ! unat k))(n := p))(i := nil32)"
    by (auto simp: h' h2 h1)
  then show ?thesis
    unfolding p_def [symmetric] n_def [symmetric] using r' h'(3) by auto
qed

interpretation fl: linked_table "\<lambda>flows i. f_next (flows ! unat i)" "\<lambda>flows i. f_prev (flows ! unat i)" flow_valid
  cake_flow_list_prepend cake_flow_list_append_tail cake_flow_list_remove
proof unfold_locales
  fix h i a b a' b' h'
  assume "flow_valid h i" "a = nil32 \<or> flow_valid h a" "cake_flow_list_prepend a b h i = (a', b', h')"
  then show "a' = i \<and> b' = (if a = nil32 then i else b) \<and>
      (\<lambda>k. f_next (h' ! unat k)) = (\<lambda>k. f_next (h ! unat k))(i := a) \<and>
      (\<lambda>k. f_prev (h' ! unat k)) = (if a = nil32 then (\<lambda>k. f_prev (h ! unat k))(i := nil32)
        else (\<lambda>k. f_prev (h ! unat k))(i := nil32, a := i)) \<and> flow_valid h' = flow_valid h"
    by (auto simp: cake_flow_list_prepend_def Let_def flow_upd_at fun_eq_iff split: if_splits)
next
  fix h i a b a' b' h'
  assume "flow_valid h i" "b = nil32 \<or> flow_valid h b" "cake_flow_list_append_tail a b h i = (a', b', h')"
  then show "a' = (if b = nil32 then i else a) \<and> b' = i \<and>
      (\<lambda>k. f_prev (h' ! unat k)) = (\<lambda>k. f_prev (h ! unat k))(i := b) \<and>
      (\<lambda>k. f_next (h' ! unat k)) = (if b = nil32 then (\<lambda>k. f_next (h ! unat k))(i := nil32)
        else (\<lambda>k. f_next (h ! unat k))(i := nil32, b := i)) \<and> flow_valid h' = flow_valid h"
    by (auto simp: cake_flow_list_append_tail_def Let_def flow_upd_at fun_eq_iff split: if_splits)
next
  fix h i a b a' b' h'
  assume "flow_valid h i" "f_prev (h ! unat i) = nil32 \<or> flow_valid h (f_prev (h ! unat i))"
    "f_next (h ! unat i) = nil32 \<or> flow_valid h (f_next (h ! unat i))"
    "cake_flow_list_remove a b h i = (a', b', h')"
  then show "a' = (if f_prev (h ! unat i) = nil32 then f_next (h ! unat i) else a) \<and>
      b' = (if f_next (h ! unat i) = nil32 then f_prev (h ! unat i) else b) \<and>
      (\<lambda>k. f_next (h' ! unat k)) = (if f_prev (h ! unat i) = nil32 then (\<lambda>k. f_next (h ! unat k))
        else (\<lambda>k. f_next (h ! unat k))(f_prev (h ! unat i) := f_next (h ! unat i)))(i := nil32) \<and>
      (\<lambda>k. f_prev (h' ! unat k)) = (if f_next (h ! unat i) = nil32 then (\<lambda>k. f_prev (h ! unat k))
        else (\<lambda>k. f_prev (h ! unat k))(f_next (h ! unat i) := f_prev (h ! unat i)))(i := nil32) \<and>
      flow_valid h' = flow_valid h"
    by (rule flow_remove_links)
qed

end
