(* ===== verification/Cake_Sched.thy ===== *)
theory Cake_Sched
  imports Cake_Flow Cake_Config
begin

text \<open>
  The data path of a scheduler, from \<^verbatim>\<open>cake_enqueue.c\<close> and \<^verbatim>\<open>cake_dequeue.c\<close>, and its
  life cycle, \<^verbatim>\<open>cake_sched_enable_disable\<close>, \<^verbatim>\<open>cake_sched_reset_stats\<close> and the interface
  callback of \<^verbatim>\<open>osvbng_qos_sched.c\<close>.  The state is the plugin's global state, the contents of
  the buffers, the buffers given back to the buffer pool and the workers whose dequeue node polls.
  Prefetches, traces, node error counters and the feature arc a sent buffer is put on are dropped.
\<close>

section \<open>State\<close>

record cake_dp =
  dp_main :: cake_main
  dp_bufs :: "u32 \<Rightarrow> vbuf"
  dp_freed :: "u32 list"
  dp_polling :: "u32 set"

definition VLIB_FRAME_SIZE :: nat where "VLIB_FRAME_SIZE = 256"

section \<open>Enqueue\<close>

datatype cake_enq_result = ENQ_PASS | ENQ_HANDOFF | ENQ_OVERFLOW | ENQ_BACKPRESSURE | ENQ_RING_FULL | ENQ_QUEUED

text \<open>A new flow becomes sparse; its ring is allocated and its host found.\<close>

definition enqueue_new_flow :: "u32 list \<Rightarrow> vbuf \<Rightarrow> u32 \<Rightarrow> u32 \<Rightarrow> cake_tin \<Rightarrow> cake_tin" where
  "enqueue_new_flow mem b set_base flow_idx tin =
     (let (slot, tin) = cake_host_lookup tin (cake_dst_host_hash b);
          flow = (cake_flow_ring_alloc mem (t_flows tin ! unat flow_idx))
                 \<lparr>f_state := FLOW_SPARSE,
                  f_set_index := ucast (set_base div word_of_nat CAKE_SET_WAYS),
                  f_dst_host := slot\<rparr>;
          flow = flow\<lparr>f_deficit := uint (cake_quantum_for_flow tin flow)\<rparr>;
          tin = new_prepend flow_idx (tin\<lparr>t_flows := (t_flows tin)[unat flow_idx := flow]\<rparr>)
      in tin\<lparr>t_flow_count := t_flow_count tin + 1, t_sparse_count := t_sparse_count tin + 1\<rparr>)"

text \<open>The buffer at the tail of the ring.\<close>

definition flow_push :: "u32 \<Rightarrow> u32 \<Rightarrow> cake_flow \<Rightarrow> cake_flow" where
  "flow_push bi pkt_len f =
     f\<lparr>f_ring := (f_ring f)[ring_slot (f_tail f) := bi], f_tail := f_tail f + 1,
       f_backlog := f_backlog f + pkt_len\<rparr>"

text \<open>A sparse flow that queues turns bulk, and so does a decaying flow that is used again.\<close>

definition enqueue_promote :: "u32 \<Rightarrow> cake_tin \<Rightarrow> cake_tin" where
  "enqueue_promote flow_idx tin =
     (let flow = t_flows tin ! unat flow_idx;
          tin' = tin\<lparr>t_flows := flow_upd flow_idx (\<lambda>f. f\<lparr>f_state := FLOW_BULK\<rparr>) (t_flows tin)\<rparr>
      in if f_state flow = FLOW_SPARSE \<and> cake_flow_queue_len flow > 1
         then (let tin = old_append flow_idx (new_remove flow_idx tin')
               in tin\<lparr>t_sparse_count := t_sparse_count tin - 1, t_bulk_count := t_bulk_count tin + 1,
                      t_hosts := host_bulk_inc (f_dst_host flow) (t_hosts tin)\<rparr>)
         else if f_state flow = FLOW_DECAYING
         then (let tin = old_append flow_idx (decaying_remove flow_idx tin')
               in tin\<lparr>t_bulk_count := t_bulk_count tin + 1,
                      t_hosts := host_bulk_inc (f_dst_host flow) (t_hosts tin)\<rparr>)
         else tin)"

text \<open>A packet that is not queued: BLUE is told, and the buffer freed.\<close>

definition enqueue_refuse :: "u32 \<Rightarrow> u32 \<Rightarrow> cake_sched \<Rightarrow> cake_tin \<Rightarrow> cake_sched \<times> cake_tin" where
  "enqueue_refuse now_us flow_idx cs tin =
     (cs\<lparr>cs_dropped_pkts := cs_dropped_pkts cs + 1\<rparr>,
      tin\<lparr>t_flows := flow_upd flow_idx
              (\<lambda>f. cobalt_queue_full f (cs_target_us cs) (cs_p_inc cs) now_us) (t_flows tin),
          t_drops := t_drops tin + 1\<rparr>)"

text \<open>The slot a packet's flow gets: its own, an empty one, or that of an evicted flow.\<close>

definition enqueue_flow_slot ::
  "cake_aggregate pool \<Rightarrow> cake_sched \<Rightarrow> cake_tin \<Rightarrow> u32 \<Rightarrow> u32 \<Rightarrow>
   cake_aggregate pool \<times> cake_sched \<times> cake_tin \<times> u32 \<times> u32 list" where
  "enqueue_flow_slot aggs cs tin tag set_base =
     (let (flow_idx, evict_slot, tin) = cake_flow_lookup tin tag set_base
      in if flow_idx = nil32
         then (let (aggs, cs, tin, freed) = cake_flow_evict aggs cs tin evict_slot
               in (aggs, cs, tin\<lparr>t_flow_tags := (t_flow_tags tin)[unat evict_slot := tag]\<rparr>,
                   evict_slot, freed))
         else (aggs, cs, tin, flow_idx, []))"

definition cake_enqueue_tin ::
  "u32 list \<Rightarrow> u32 \<Rightarrow> nat \<Rightarrow> u32 \<Rightarrow> vbuf \<Rightarrow> u32 \<Rightarrow> cake_aggregate pool \<Rightarrow> cake_sched \<Rightarrow> cake_tin \<Rightarrow>
   cake_enq_result \<times> cake_aggregate pool \<times> cake_sched \<times> cake_tin \<times> u32 list" where
  "cake_enqueue_tin mem now_us thread bi b tag aggs cs tin =
     (let pkt_len = b_len b;
          set_base = cake_flow_set_base tag;
          (aggs, cs, tin, flow_idx, freed) = enqueue_flow_slot aggs cs tin tag set_base
      in if cs_buffer_usage cs + pkt_len > cs_buffer_limit cs
         then (let (cs, tin) = enqueue_refuse now_us flow_idx cs tin
               in (ENQ_OVERFLOW, aggs, cs, tin, freed @ [bi]))
         else (let (ok, aggs) = cake_agg_admit_chain aggs cs pkt_len thread
           in if \<not> ok
              then (let (cs, tin) = enqueue_refuse now_us flow_idx cs tin
                    in (ENQ_BACKPRESSURE, aggs, cs, tin, freed @ [bi]))
              else (let tin = (if f_state (t_flows tin ! unat flow_idx) = FLOW_NONE
                               then enqueue_new_flow mem b set_base flow_idx tin else tin)
                in if unat (cake_flow_queue_len (t_flows tin ! unat flow_idx)) \<ge> CAKE_FLOW_RING_SIZE
                   then (let aggs = cake_agg_discharge aggs cs pkt_len;
                             (cs, tin) = enqueue_refuse now_us flow_idx cs tin
                         in (ENQ_RING_FULL, aggs, cs, tin, freed @ [bi]))
                   else (let tin = tin\<lparr>t_flows := flow_upd flow_idx (flow_push bi pkt_len) (t_flows tin),
                                      t_packets := t_packets tin + 1, t_bytes := t_bytes tin + ucast pkt_len\<rparr>;
                             cs = cs\<lparr>cs_buffer_usage := cs_buffer_usage cs + pkt_len,
                                     cs_queued := cs_queued cs + 1,
                                     cs_enqueued_pkts := cs_enqueued_pkts cs + 1,
                                     cs_enqueued_bytes := cs_enqueued_bytes cs + ucast pkt_len\<rparr>;
                             tin = enqueue_promote flow_idx tin;
                             (aggs, cs) = cake_sched_drr_activate aggs cs
                         in (ENQ_QUEUED, aggs, cs, tin, freed)))))"

definition cake_enqueue_local ::
  "cake_ext \<Rightarrow> u32 list \<Rightarrow> u32 \<Rightarrow> nat \<Rightarrow> u32 \<Rightarrow> vbuf \<Rightarrow> cake_aggregate pool \<Rightarrow> cake_sched \<Rightarrow>
   cake_enq_result \<times> cake_aggregate pool \<times> cake_sched \<times> u32 list" where
  "cake_enqueue_local ex mem now_us thread bi b aggs cs =
     (let dscp = cake_dscp_from_buffer b;
          tin_idx = cs_dscp_to_tin cs ! unat dscp;
          tin_idx = (if tin_idx \<ge> cs_n_tins cs then 0 else tin_idx);
          tag = cake_hash_flow ex b;
          (r, aggs, cs, tin, freed) =
            cake_enqueue_tin mem now_us thread bi b tag aggs cs (cs_tins cs ! unat tin_idx)
      in (r, aggs, cs\<lparr>cs_tins := (cs_tins cs)[unat tin_idx := tin]\<rparr>, freed))"

text \<open>
  One packet on worker \<open>thread\<close>.  The exchange that claims an unowned scheduler is one step here;
  the worker that loses it hands the packet off, as it does for a scheduler owned by another.
\<close>

definition cake_enqueue_pkt ::
  "cake_ext \<Rightarrow> u32 list \<Rightarrow> u32 \<Rightarrow> u32 \<Rightarrow> u32 \<Rightarrow> cake_dp \<Rightarrow> cake_enq_result \<times> cake_dp" where
  "cake_enqueue_pkt ex mem now_us thread bi dp =
     (let cm = dp_main dp;
          b = dp_bufs dp bi
      in if b_scheduled b
         then (ENQ_PASS, dp\<lparr>dp_bufs := (dp_bufs dp)(bi := b\<lparr>b_scheduled := False\<rparr>)\<rparr>)
         else (let sw = unat (b_tx_if b);
                   si = (if sw < length (cm_sched_by_if cm) then cm_sched_by_if cm ! sw else nil32)
           in if si = nil32 then (ENQ_PASS, dp)
              else (case pool_at (cm_scheds cm) si of
                None \<Rightarrow> (ENQ_PASS, dp)
              | Some cs \<Rightarrow>
                  (let claimed = (cs_owner cs = CAKE_OWNER_UNSET);
                       cs = (if claimed then cs\<lparr>cs_owner := thread\<rparr> else cs);
                       polling = (if claimed then insert thread (dp_polling dp) else dp_polling dp)
                   in if cs_owner cs \<noteq> thread then (ENQ_HANDOFF, dp)
                      else (let (r, aggs, cs, freed) =
                              cake_enqueue_local ex mem now_us (unat thread) bi b (cm_aggs cm) cs;
                              pts = (if r = ENQ_QUEUED
                                then (cm_per_thread cm)[unat thread :=
                                  (cm_per_thread cm ! unat thread)
                                  \<lparr>pt_active := insert (cs_sched_index cs)
                                                 (pt_active (cm_per_thread cm ! unat thread))\<rparr>]
                                else cm_per_thread cm)
                        in (r, dp\<lparr>dp_main := cm\<lparr>cm_aggs := aggs,
                                    cm_scheds := pool_upd si (\<lambda>_. cs) (cm_scheds cm),
                                    cm_per_thread := pts\<rparr>,
                                  dp_bufs := (if r = ENQ_QUEUED
                                    then (dp_bufs dp)(bi := b\<lparr>b_enqueue_us := now_us\<rparr>) else dp_bufs dp),
                                  dp_freed := dp_freed dp @ freed,
                                  dp_polling := polling\<rparr>))))))"

text \<open>A frame of packets, with the verdict of each.\<close>

fun cake_enqueue_inline ::
  "cake_ext \<Rightarrow> u32 list \<Rightarrow> u32 \<Rightarrow> u32 \<Rightarrow> u32 list \<Rightarrow> cake_dp \<Rightarrow> (u32 \<times> cake_enq_result) list \<times> cake_dp" where
  "cake_enqueue_inline ex mem now_us thread [] dp = ([], dp)"
| "cake_enqueue_inline ex mem now_us thread (bi # bis) dp =
     (let (r, dp) = cake_enqueue_pkt ex mem now_us thread bi dp;
          (rs, dp) = cake_enqueue_inline ex mem now_us thread bis dp
      in ((bi, r) # rs, dp))"

section \<open>Dequeue\<close>

datatype cake_deq_result_t = DEQ_EMPTY | DEQ_SENT | DEQ_DROPPED | DEQ_GATE_CLOSED | DEQ_DRR_BLOCKED

definition cake_select_flow :: "cake_tin \<Rightarrow> u32" where
  "cake_select_flow tin =
     (if t_new_head tin \<noteq> nil32 then t_new_head tin
      else if t_old_head tin \<noteq> nil32 then t_old_head tin
      else if t_decaying_head tin \<noteq> nil32 then t_decaying_head tin
      else nil32)"

text \<open>
  What a dispatch works on: the aggregates, one scheduler, the buffers, the random seed, the budget
  left, what was sent (each buffer with the arc it is put on, true for IPv4) and what was freed.
\<close>

record cake_deq =
  dq_aggs :: "cake_aggregate pool"
  dq_cs :: cake_sched
  dq_bufs :: "u32 \<Rightarrow> vbuf"
  dq_seed :: u32
  dq_budget :: nat
  dq_out :: "(u32 \<times> bool) list"
  dq_freed :: "u32 list"

definition is_ip4 :: "vbuf \<Rightarrow> bool" where
  "is_ip4 b = (case b_hdr b of Ip4 _ _ _ _ _ \<Rightarrow> True | Ip6 _ _ _ _ \<Rightarrow> False)"

text \<open>A dropped packet, and one that was sent, leave the accounts.\<close>

definition deq_unaccount :: "u32 \<Rightarrow> cake_sched \<Rightarrow> cake_flow \<Rightarrow> cake_sched \<times> cake_flow" where
  "deq_unaccount pkt_len cs f =
     (cs\<lparr>cs_buffer_usage := cs_buffer_usage cs - pkt_len, cs_queued := cs_queued cs - 1\<rparr>,
      f\<lparr>f_backlog := f_backlog f - pkt_len\<rparr>)"

definition deq_sent :: "u64 \<Rightarrow> u32 \<Rightarrow> u32 \<Rightarrow> cake_drr_admit_t \<Rightarrow> cake_sched \<Rightarrow> cake_sched" where
  "deq_sent now_ns pkt_len adj_len drr cs =
     (let t = cs_shaper_time cs + cake_cost_ns adj_len (cs_rate_scaled cs);
          t = (if t > now_ns + 150000000 then now_ns + 150000000 else t)
      in cs\<lparr>cs_shaper_time := t,
            cs_dequeued_pkts := cs_dequeued_pkts cs + 1,
            cs_dequeued_bytes := cs_dequeued_bytes cs + ucast pkt_len,
            cs_drr := (if drr = DRR_ADMIT then cake_drr_local_charge (cs_drr cs) adj_len else cs_drr cs)\<rparr>)"

text \<open>
  One packet of flow \<open>flow_idx\<close> of tin \<open>t\<close>.  The results carry the tin with the flow
  written back.
\<close>

definition cake_dequeue_one ::
  "cake_ext \<Rightarrow> u32 \<Rightarrow> u64 \<Rightarrow> nat \<Rightarrow> u32 \<Rightarrow> cake_tin \<Rightarrow> cake_deq \<Rightarrow> cake_deq_result_t \<times> cake_tin \<times> cake_deq" where
  "cake_dequeue_one ex now_us now_ns thread flow_idx tin dq =
     (let flow = t_flows tin ! unat flow_idx;
          cs = dq_cs dq;
          put = (\<lambda>f tin. tin\<lparr>t_flows := (t_flows tin)[unat flow_idx := f]\<rparr>)
      in if cake_flow_queue_len flow = 0 then (DEQ_EMPTY, tin, dq)
         else (let bi = f_ring flow ! ring_slot (f_head flow);
                   b = dq_bufs dq bi;
                   pkt_len = b_len b;
                   adj_len = cake_overhead_adjust cs pkt_len;
                   (drr, cs) = cake_sched_drr_admit (dq_aggs dq) cs now_ns
           in if drr = DRR_BLOCKED
              then (DEQ_DRR_BLOCKED, tin, dq\<lparr>dq_cs := cs\<lparr>cs_drr_blocked := cs_drr_blocked cs + 1\<rparr>\<rparr>)
              else (let flow = flow\<lparr>f_head := f_head flow + 1\<rparr>;
                        sojourn_us = now_us - b_enqueue_us b;
                        bulk = (if t_bulk_count tin > 0 then t_bulk_count tin else 1);
                        (should_drop, ecn_marked, flow, seed) =
                          cobalt_should_drop (ex_random_u32 ex) flow cs sojourn_us now_us bulk
                            (cake_ecn_capable b) (dq_seed dq);
                        dq = dq\<lparr>dq_seed := seed\<rparr>
                in if should_drop
                   then (let (cs, flow) = deq_unaccount pkt_len cs flow;
                             cs = cs\<lparr>cs_dropped_pkts := cs_dropped_pkts cs + 1\<rparr>
                         in (DEQ_DROPPED, put flow (tin\<lparr>t_drops := t_drops tin + 1\<rparr>),
                             dq\<lparr>dq_cs := cs, dq_aggs := cake_agg_discharge (dq_aggs dq) cs pkt_len,
                                dq_freed := dq_freed dq @ [bi]\<rparr>))
                   else (let b = (if ecn_marked then snd (cake_ecn_mark ex b) else b);
                             tin = (if ecn_marked then tin\<lparr>t_ecn_marks := t_ecn_marks tin + 1\<rparr> else tin);
                             bufs = (dq_bufs dq)(bi := b);
                             (pr, aggs) = cake_agg_dequeue_gate (dq_aggs dq) cs adj_len now_ns thread
                     in if pr \<noteq> PARENT_OK
                        then (let flow = flow\<lparr>f_head := f_head flow - 1\<rparr>
                              in if pr = PARENT_DRR_BLOCKED
                                 then (DEQ_DRR_BLOCKED, put flow tin,
                                       dq\<lparr>dq_cs := cs\<lparr>cs_drr_blocked := cs_drr_blocked cs + 1\<rparr>,
                                          dq_aggs := aggs, dq_bufs := bufs\<rparr>)
                                 else (DEQ_GATE_CLOSED, put flow tin,
                                       dq\<lparr>dq_cs := cs\<lparr>cs_parent_blocked := cs_parent_blocked cs + 1\<rparr>,
                                          dq_aggs := aggs, dq_bufs := bufs\<rparr>))
                        else (let (cs, flow) = deq_unaccount pkt_len cs flow;
                                  flow = flow\<lparr>f_deficit := f_deficit flow - sint adj_len\<rparr>;
                                  cs = deq_sent now_ns pkt_len adj_len drr cs
                              in (DEQ_SENT, put flow tin,
                                  dq\<lparr>dq_cs := cs, dq_aggs := cake_agg_discharge aggs cs pkt_len,
                                     dq_bufs := bufs(bi := b\<lparr>b_scheduled := True\<rparr>),
                                     dq_budget := dq_budget dq - 1,
                                     dq_out := dq_out dq @ [(bi, is_ip4 b)]\<rparr>))))))"

text \<open>How the visit of a flow ends: go on to the next flow, or leave the scheduler.\<close>

datatype deq_next = DEQ_CONTINUE | DEQ_LEAVE

definition deq_blocked :: "cake_deq_result_t \<Rightarrow> bool" where
  "deq_blocked r \<longleftrightarrow> r = DEQ_GATE_CLOSED \<or> r = DEQ_DRR_BLOCKED"

definition cake_dequeue_sparse ::
  "cake_ext \<Rightarrow> u32 \<Rightarrow> u64 \<Rightarrow> nat \<Rightarrow> u32 \<Rightarrow> cake_tin \<Rightarrow> cake_deq \<Rightarrow> deq_next \<times> cake_tin \<times> cake_deq" where
  "cake_dequeue_sparse ex now_us now_ns thread flow_idx tin dq =
     (if cake_flow_queue_len (t_flows tin ! unat flow_idx) = 0
      then (let (tin, freed) = cake_flow_reclaim tin (dq_cs dq) flow_idx new_remove now_us
            in (DEQ_CONTINUE, tin, dq\<lparr>dq_freed := dq_freed dq @ freed\<rparr>))
      else (let (r, tin, dq) = cake_dequeue_one ex now_us now_ns thread flow_idx tin dq;
                (tin, freed) =
                  (if cake_flow_queue_len (t_flows tin ! unat flow_idx) = 0
                   then cake_flow_reclaim tin (dq_cs dq) flow_idx new_remove now_us else (tin, []));
                dq = dq\<lparr>dq_freed := dq_freed dq @ freed\<rparr>
            in (if deq_blocked r \<or> now_ns < cs_shaper_time (dq_cs dq) then DEQ_LEAVE else DEQ_CONTINUE,
                tin, dq)))"

text \<open>A bulk flow found empty decays; a decaying flow found empty is reclaimed.\<close>

definition deq_flow_empty :: "u32 \<Rightarrow> u32 \<Rightarrow> cake_tin \<Rightarrow> cake_deq \<Rightarrow> cake_tin \<times> cake_deq" where
  "deq_flow_empty now_us flow_idx tin dq =
     (let flow = t_flows tin ! unat flow_idx
      in if f_state flow = FLOW_BULK
         then (let tin = tin\<lparr>t_hosts := host_bulk_dec (f_dst_host flow) (t_hosts tin),
                        t_flows := flow_upd flow_idx (\<lambda>f. f\<lparr>f_state := FLOW_DECAYING\<rparr>) (t_flows tin)\<rparr>;
                   tin = decaying_append flow_idx (old_remove flow_idx tin)
               in (tin\<lparr>t_bulk_count := t_bulk_count tin - 1\<rparr>, dq))
         else if f_state flow = FLOW_DECAYING
         then (case cake_flow_reclaim tin (dq_cs dq) flow_idx decaying_remove now_us of
                 (tin, freed) \<Rightarrow> (tin, dq\<lparr>dq_freed := dq_freed dq @ freed\<rparr>))
         else (tin, dq))"

text \<open>The inner loop: packets of one flow while its deficit and the budget last.\<close>

partial_function (option) cake_dequeue_flow ::
  "cake_ext \<Rightarrow> u32 \<Rightarrow> u64 \<Rightarrow> nat \<Rightarrow> u32 \<Rightarrow> cake_tin \<Rightarrow> cake_deq \<Rightarrow> (deq_next \<times> cake_tin \<times> cake_deq) option" where
  "cake_dequeue_flow ex now_us now_ns thread flow_idx tin dq =
     (if f_deficit (t_flows tin ! unat flow_idx) > 0 \<and> dq_budget dq > 0
      then (if cake_flow_queue_len (t_flows tin ! unat flow_idx) = 0
            then (case deq_flow_empty now_us flow_idx tin dq of (tin, dq) \<Rightarrow> Some (DEQ_CONTINUE, tin, dq))
            else (let (r, tin, dq) = cake_dequeue_one ex now_us now_ns thread flow_idx tin dq
                  in if deq_blocked r \<or> now_ns < cs_shaper_time (dq_cs dq) then Some (DEQ_LEAVE, tin, dq)
                     else cake_dequeue_flow ex now_us now_ns thread flow_idx tin dq))
      else Some (DEQ_CONTINUE, tin, dq))"

text \<open>A bulk flow that used up its deficit goes to the tail of its list with a deficit of zero.\<close>

definition deq_rotate :: "u32 \<Rightarrow> cake_tin \<Rightarrow> cake_tin" where
  "deq_rotate flow_idx tin =
     (let flow = t_flows tin ! unat flow_idx
      in if f_deficit flow \<le> 0 \<and> f_state flow = FLOW_BULK \<and> cake_flow_queue_len flow > 0
         then (let tin = old_append flow_idx (old_remove flow_idx tin)
               in tin\<lparr>t_flows := flow_upd flow_idx (\<lambda>f. f\<lparr>f_deficit := 0\<rparr>) (t_flows tin)\<rparr>)
         else tin)"

definition cake_dequeue_bulk ::
  "cake_ext \<Rightarrow> u32 \<Rightarrow> u64 \<Rightarrow> nat \<Rightarrow> u32 \<Rightarrow> cake_tin \<Rightarrow> cake_deq \<Rightarrow> (deq_next \<times> cake_tin \<times> cake_deq) option" where
  "cake_dequeue_bulk ex now_us now_ns thread flow_idx tin dq =
     (let flow = t_flows tin ! unat flow_idx;
          tin = (if f_deficit flow \<le> 0
                 then tin\<lparr>t_flows := flow_upd flow_idx
                   (\<lambda>f. f\<lparr>f_deficit := f_deficit f + uint (cake_quantum_for_flow tin f)\<rparr>) (t_flows tin)\<rparr>
                 else tin)
      in do {
        (next', tin, dq) \<leftarrow> cake_dequeue_flow ex now_us now_ns thread flow_idx tin dq;
        Some (if next' = DEQ_LEAVE then (DEQ_LEAVE, tin, dq)
              else (DEQ_CONTINUE, deq_rotate flow_idx tin, dq))
      })"

text \<open>The highest tin with a flow.\<close>

definition tin_busy :: "cake_tin \<Rightarrow> bool" where
  "tin_busy t \<longleftrightarrow> t_sparse_count t + t_bulk_count t > 0 \<or> t_decaying_head t \<noteq> nil32"

definition cake_select_tin :: "cake_sched \<Rightarrow> nat option" where
  "cake_select_tin cs = find (\<lambda>t. tin_busy (cs_tins cs ! t)) (rev [0..<unat (cs_n_tins cs)])"

text \<open>The visit of a scheduler; the flag says whether it is to be deactivated.\<close>

partial_function (option) cake_dequeue_sched ::
  "cake_ext \<Rightarrow> u32 \<Rightarrow> u64 \<Rightarrow> nat \<Rightarrow> cake_deq \<Rightarrow> (bool \<times> cake_deq) option" where
  "cake_dequeue_sched ex now_us now_ns thread dq =
     (if dq_budget dq = 0 then Some (False, dq)
      else (let cs = dq_cs dq;
                idle = (case cake_sched_drr_deactivate (dq_aggs dq) cs of
                          (aggs, cs) \<Rightarrow> (True, dq\<lparr>dq_aggs := aggs, dq_cs := cs\<rparr>))
        in (case cake_select_tin cs of
              None \<Rightarrow> Some idle
            | Some t \<Rightarrow>
                (let tin = cs_tins cs ! t;
                     flow_idx = cake_select_flow tin;
                     put = (\<lambda>tin dq. dq\<lparr>dq_cs := (dq_cs dq)\<lparr>cs_tins := (cs_tins (dq_cs dq))[t := tin]\<rparr>\<rparr>)
                 in if flow_idx = nil32 then Some idle
                    else do {
                      (next', tin, dq) \<leftarrow>
                        (if f_state (t_flows tin ! unat flow_idx) = FLOW_SPARSE
                         then Some (cake_dequeue_sparse ex now_us now_ns thread flow_idx tin dq)
                         else cake_dequeue_bulk ex now_us now_ns thread flow_idx tin dq);
                      if next' = DEQ_LEAVE then Some (False, put tin dq)
                      else cake_dequeue_sched ex now_us now_ns thread (put tin dq)
                    }))))"

text \<open>
  The dispatch over the worker's active schedulers in ascending order: what it sent, the indices to
  clear in the worker's bitmap, and the state.
\<close>

fun cake_dequeue_walk ::
  "cake_ext \<Rightarrow> u32 \<Rightarrow> u64 \<Rightarrow> u32 \<Rightarrow> u32 list \<Rightarrow> nat \<Rightarrow> u32 \<Rightarrow> (u32 \<times> bool) list \<Rightarrow> u32 list \<Rightarrow> cake_dp \<Rightarrow>
   (u32 \<times> (u32 \<times> bool) list \<times> u32 list \<times> cake_dp) option" where
  "cake_dequeue_walk ex now_us now_ns thread [] budget seed out idle dp = Some (seed, out, idle, dp)"
| "cake_dequeue_walk ex now_us now_ns thread (si # sis) budget seed out idle dp =
     (if budget = 0 \<or> length idle \<ge> VLIB_FRAME_SIZE - 1 then Some (seed, out, idle, dp)
      else (case pool_at (cm_scheds (dp_main dp)) si of
        None \<Rightarrow> cake_dequeue_walk ex now_us now_ns thread sis budget seed out (idle @ [si]) dp
      | Some cs \<Rightarrow>
          if cs_owner cs \<noteq> thread
          then cake_dequeue_walk ex now_us now_ns thread sis budget seed out (idle @ [si]) dp
          else if now_ns < cs_shaper_time cs
          then cake_dequeue_walk ex now_us now_ns thread sis budget seed out idle dp
          else do {
            (deactivate, dq) \<leftarrow> cake_dequeue_sched ex now_us now_ns (unat thread)
              \<lparr>dq_aggs = cm_aggs (dp_main dp), dq_cs = cs, dq_bufs = dp_bufs dp, dq_seed = seed,
               dq_budget = budget, dq_out = [], dq_freed = []\<rparr>;
            cake_dequeue_walk ex now_us now_ns thread sis (dq_budget dq) (dq_seed dq) (out @ dq_out dq)
              (if deactivate then idle @ [si] else idle)
              (dp\<lparr>dp_main := (dp_main dp)\<lparr>cm_aggs := dq_aggs dq,
                     cm_scheds := pool_upd si (\<lambda>_. dq_cs dq) (cm_scheds (dp_main dp))\<rparr>,
                  dp_bufs := dq_bufs dq, dp_freed := dp_freed dp @ dq_freed dq\<rparr>)
          }))"

definition cake_dequeue_node ::
  "cake_ext \<Rightarrow> u32 \<Rightarrow> u64 \<Rightarrow> u32 \<Rightarrow> cake_dp \<Rightarrow> ((u32 \<times> bool) list \<times> cake_dp) option" where
  "cake_dequeue_node ex now_us now_ns thread dp =
     (if unat thread \<ge> length (cm_per_thread (dp_main dp)) then Some ([], dp)
      else (let pt = cm_per_thread (dp_main dp) ! unat thread
        in if pt_active pt = {} then Some ([], dp)
           else do {
             (seed, out, idle, dp) \<leftarrow> cake_dequeue_walk ex now_us now_ns thread
               (sorted_list_of_set (pt_active pt)) VLIB_FRAME_SIZE (pt_random_seed pt) [] [] dp;
             Some (out, dp\<lparr>dp_main := (dp_main dp)\<lparr>cm_per_thread := (cm_per_thread (dp_main dp))
               [unat thread := pt\<lparr>pt_active := pt_active pt - set idle, pt_random_seed := seed\<rparr>]\<rparr>\<rparr>)
           }))"

section \<open>Life cycle\<close>

definition sched_derived_limit :: "u64 \<Rightarrow> u32 \<Rightarrow> u32" where
  "sched_derived_limit rate_bytes_per_sec interval_us =
     (let interval = (if interval_us > 0 then interval_us else 100000);
          derived = (rate_bytes_per_sec * ucast interval * 3) div (1000000 * 2);
          derived = (if derived < 65536 then 65536 else derived)
      in if derived > 4294967295 then nil32 else ucast derived)"

text \<open>The scheduler as enabling fills it in, before it is attached.\<close>

definition sched_new ::
  "u64 \<Rightarrow> u32 \<Rightarrow> u32 \<Rightarrow> u32 \<Rightarrow> u64 \<Rightarrow> u8 \<Rightarrow> int \<Rightarrow> u8 \<Rightarrow> u8 \<Rightarrow> u32 \<Rightarrow> u32 \<Rightarrow> u32 \<Rightarrow> u32 \<Rightarrow> cake_sched" where
  "sched_new now_ns iface_mtu sw_if_index pool_index rate_bytes_per_sec tin_mode overhead_bytes atm_mode mpu
     buffer_limit target_us interval_us weight =
     (let weight = (if weight \<noteq> 0 then weight else 1);
          n_tins = cake_tin_counts tin_mode;
          cs = cake_sched_zero\<lparr>
            cs_sw_if_index := sw_if_index,
            cs_sched_index := pool_index,
            cs_rate := rate_bytes_per_sec,
            cs_rate_scaled := cake_rate_scaled rate_bytes_per_sec,
            cs_weight := weight,
            cs_drr := cake_drr_child_zero\<lparr>drr_weight := cake_effective_weight rate_bytes_per_sec weight,
                                          drr_round := cake_drr_round now_ns\<rparr>,
            cs_overhead := overhead_bytes,
            cs_atm_mode := atm_mode,
            cs_mpu := mpu,
            cs_shaper_time := now_ns,
            cs_owner := CAKE_OWNER_UNSET,
            cs_tin_mode := tin_mode,
            cs_n_tins := n_tins,
            cs_dscp_to_tin := cake_dscp_tables tin_mode,
            cs_buffer_limit := (if buffer_limit = 0
                                then sched_derived_limit rate_bytes_per_sec interval_us else buffer_limit),
            cs_buffer_usage := 0,
            cs_queued := 0,
            cs_target_us := (if target_us > 0 then target_us else CAKE_TARGET_US_DEFAULT),
            cs_interval_us := (if interval_us > 0 then interval_us else CAKE_INTERVAL_US_DEFAULT)\<rparr>;
          mtu = (if iface_mtu > 0 then iface_mtu + 14 else 1514);
          wire_mtu = cake_overhead_adjust cs mtu
      in cs\<lparr>cs_mtu_time_us := (if rate_bytes_per_sec > 0
                               then ucast ((ucast wire_mtu :: u64) * 1000000 div rate_bytes_per_sec) else 0),
            cs_p_inc := nil32 div 256,
            cs_p_dec := nil32 div 4096,
            cs_tins := replicate (unat n_tins)
              ((cake_tin_init CAKE_QUANTUM_DEFAULT)\<lparr>t_tin_quantum := 65535 div ucast n_tins\<rparr>)\<rparr>)"

definition seed_threads :: "nat \<Rightarrow> cake_per_thread list \<Rightarrow> cake_per_thread list" where
  "seed_threads n_threads pts =
     (let pts = pts @ replicate (n_threads - length pts) \<lparr>pt_active = {}, pt_random_seed = 0\<rparr>
      in map (\<lambda>ti. let pt = pts ! ti
                   in if ti < n_threads \<and> pt_random_seed pt = 0
                      then pt\<lparr>pt_random_seed := 0xdeadbeef XOR (word_of_nat ti + 1)\<rparr> else pt)
           [0..<length pts])"

definition cake_sched_enable ::
  "(u32 \<Rightarrow> sw_if) \<Rightarrow> (u32 \<Rightarrow> bool) \<Rightarrow> u64 \<Rightarrow> u32 \<Rightarrow> nat \<Rightarrow> u32 \<Rightarrow> cake_dp \<Rightarrow> u32 \<Rightarrow> u64 \<Rightarrow> u8 \<Rightarrow> int \<Rightarrow> u8 \<Rightarrow> u8 \<Rightarrow>
   u32 \<Rightarrow> u32 \<Rightarrow> u32 \<Rightarrow> u32 \<Rightarrow> (vnet_api_rv \<times> cake_dp) option" where
  "cake_sched_enable ifs api_valid now_ns iface_mtu n_threads pool_index dp sw_if_index rate_bytes_per_sec
     tin_mode overhead_bytes atm_mode mpu buffer_limit target_us interval_us weight =
     (if \<not> api_valid sw_if_index then Some (RV_INVALID_SW_IF_INDEX, dp)
      else if weight_invalid weight then Some (RV_INVALID_VALUE, dp)
      else let cm = dp_main dp;
               cm = cm\<lparr>cm_sched_by_if :=
                       vec_validate_init_empty (cm_sched_by_if cm) (unat sw_if_index) nil32\<rparr>
           in if cm_sched_by_if cm ! unat sw_if_index \<noteq> nil32
              then Some (RV_ENTRY_ALREADY_EXISTS, dp\<lparr>dp_main := cm\<rparr>)
              else let tin_mode = (if tin_mode > CAKE_TIN_MODE_DIFFSERV8 then CAKE_TIN_MODE_BESTEFFORT
                                   else tin_mode)
                   in do {
                     cs \<leftarrow> cake_sched_resolve_attachment ifs cm
                            (sched_new now_ns iface_mtu sw_if_index pool_index rate_bytes_per_sec tin_mode
                               overhead_bytes atm_mode mpu buffer_limit target_us interval_us weight);
                     Some (RV_OK, dp\<lparr>dp_main := cm\<lparr>
                       cm_scheds := pool_get_put pool_index cs (cm_scheds cm),
                       cm_sched_by_if := (cm_sched_by_if cm)[unat sw_if_index := pool_index],
                       cm_n_scheds := cm_n_scheds cm + 1,
                       cm_per_thread := seed_threads n_threads (cm_per_thread cm)\<rparr>\<rparr>)
                   })"

fun cake_tins_drain ::
  "nat list \<Rightarrow> cake_aggregate pool \<Rightarrow> cake_sched \<Rightarrow> cake_aggregate pool \<times> cake_sched \<times> u32 list" where
  "cake_tins_drain [] aggs cs = (aggs, cs, [])"
| "cake_tins_drain (t # ts) aggs cs =
     (let (aggs, cs, tin, freed) = cake_tin_drain aggs cs (cs_tins cs ! t);
          (aggs, cs, freed') = cake_tins_drain ts aggs (cs\<lparr>cs_tins := (cs_tins cs)[t := tin]\<rparr>)
      in (aggs, cs, freed @ freed'))"

definition cake_worker_has_other_schedulers :: "cake_sched pool \<Rightarrow> u32 \<Rightarrow> bool" where
  "cake_worker_has_other_schedulers scheds owner_thread \<longleftrightarrow>
     list_ex (\<lambda>e. case e of None \<Rightarrow> False | Some cs \<Rightarrow> cs_owner cs = owner_thread) scheds"

definition cake_sched_disable ::
  "(u32 \<Rightarrow> bool) \<Rightarrow> cake_dp \<Rightarrow> u32 \<Rightarrow> u32 \<Rightarrow> vnet_api_rv \<times> cake_dp" where
  "cake_sched_disable valid dp sw_if_index weight =
     (let cm = dp_main dp
      in if \<not> valid sw_if_index then (RV_INVALID_SW_IF_INDEX, dp)
         else if weight_invalid weight then (RV_INVALID_VALUE, dp)
         else if unat sw_if_index \<ge> length (cm_sched_by_if cm) then (RV_NO_SUCH_ENTRY, dp)
         else let pool_index = cm_sched_by_if cm ! unat sw_if_index
              in if pool_index = nil32 then (RV_NO_SUCH_ENTRY, dp)
                 else (case pool_at (cm_scheds cm) pool_index of
                   None \<Rightarrow> (RV_NO_SUCH_ENTRY, dp)
                 | Some cs \<Rightarrow>
                     let owner = cs_owner cs;
                         (aggs, cs, freed) = cake_tins_drain [0..<unat (cs_n_tins cs)] (cm_aggs cm) cs;
                         (aggs, cs) = cake_sched_drr_deactivate aggs (cs\<lparr>cs_tins := []\<rparr>);
                         scheds = pool_put pool_index (cm_scheds cm)
                     in (RV_OK, dp\<lparr>dp_main := cm\<lparr>
                           cm_aggs := aggs,
                           cm_scheds := scheds,
                           cm_per_thread := map (\<lambda>pt. pt\<lparr>pt_active := pt_active pt - {pool_index}\<rparr>)
                                              (cm_per_thread cm),
                           cm_sched_by_if := (cm_sched_by_if cm)[unat sw_if_index := nil32],
                           cm_n_scheds := cm_n_scheds cm - 1\<rparr>,
                         dp_freed := dp_freed dp @ freed,
                         dp_polling := (if owner \<noteq> CAKE_OWNER_UNSET \<and>
                                           \<not> cake_worker_has_other_schedulers scheds owner
                                        then dp_polling dp - {owner} else dp_polling dp)\<rparr>)))"

definition cake_sched_reset_stats :: "cake_main \<Rightarrow> u32 \<Rightarrow> cake_main" where
  "cake_sched_reset_stats cm sw_if_index =
     (if unat sw_if_index \<ge> length (cm_sched_by_if cm) then cm
      else let pool_index = cm_sched_by_if cm ! unat sw_if_index
           in if pool_index = nil32 then cm
              else cm\<lparr>cm_scheds := pool_upd pool_index
                (\<lambda>cs. cs\<lparr>cs_enqueued_pkts := 0, cs_enqueued_bytes := 0, cs_dequeued_pkts := 0,
                  cs_dequeued_bytes := 0, cs_dropped_pkts := 0,
                  cs_tins := map (\<lambda>t. if t < unat (cs_n_tins cs)
                      then (cs_tins cs ! t)\<lparr>t_packets := 0, t_bytes := 0, t_drops := 0, t_ecn_marks := 0\<rparr>
                      else cs_tins cs ! t) [0..<length (cs_tins cs)]\<rparr>) (cm_scheds cm)\<rparr>)"

text \<open>The tags of an aggregate's children, and the callback of a deleted interface.\<close>

definition agg_child_tags :: "u32 \<Rightarrow> cake_aggregate pool \<Rightarrow> u16 list" where
  "agg_child_tags agg_idx aggs =
     concat (map (\<lambda>e. case e of None \<Rightarrow> [] | Some c \<Rightarrow> if ag_parent c = agg_idx then [ag_svlan_id c] else []) aggs)"

fun cake_svlans_delete :: "(u32 \<Rightarrow> sw_if) \<Rightarrow> u32 \<Rightarrow> u16 list \<Rightarrow> cake_main \<Rightarrow> cake_main option" where
  "cake_svlans_delete ifs sw_if_index [] cm = Some cm"
| "cake_svlans_delete ifs sw_if_index (tag # tags) cm = do {
     (_, cm) \<leftarrow> cake_svlan_aggregate_delete ifs cm sw_if_index tag;
     cake_svlans_delete ifs sw_if_index tags cm
   }"

definition cake_sw_interface_del ::
  "(u32 \<Rightarrow> sw_if) \<Rightarrow> (u32 \<Rightarrow> bool) \<Rightarrow> cake_dp \<Rightarrow> u32 \<Rightarrow> cake_dp option" where
  "cake_sw_interface_del ifs valid dp sw_if_index =
     (let cm = dp_main dp;
          dp = (if unat sw_if_index < length (cm_sched_by_if cm) \<and>
                   cm_sched_by_if cm ! unat sw_if_index \<noteq> nil32
                then snd (cake_sched_disable valid dp sw_if_index 0) else dp);
          cm = dp_main dp
      in if unat sw_if_index < length (cm_agg_by_if cm) \<and> cm_agg_by_if cm ! unat sw_if_index \<noteq> nil32
         then do {
           cm \<leftarrow> cake_svlans_delete ifs sw_if_index
                   (agg_child_tags (cm_agg_by_if cm ! unat sw_if_index) (cm_aggs cm)) cm;
           (_, cm) \<leftarrow> cake_aggregate_delete ifs cm sw_if_index;
           Some (dp\<lparr>dp_main := cm\<rparr>)
         }
         else Some dp)"

end
