(* ===== verification/Cake_Tin.thy ===== *)
theory Cake_Tin
  imports Cake_Flow "HOL-Library.Multiset"
begin

text \<open>
  The invariant of a tin: its three lists are disjoint and hold the sparse, bulk and decaying flows,
  its counters are their lengths, each flow's backlog is the sum of the lengths of the buffers in its
  ring, and its tags are unique within their sets; and what each operation of
  \<^verbatim>\<open>Cake_Flow\<close> does to it, to the bytes and to the buffers queued.  The lengths of the
  buffers are \<open>lens\<close>.
\<close>

section \<open>What the accounts see of a flow\<close>

definition flow_core :: "cake_flow \<Rightarrow> u32 list \<times> u32 \<times> u32 \<times> u32 \<times> cake_flow_state" where
  "flow_core f = (f_ring f, f_head f, f_tail f, f_backlog f, f_state f)"

definition flow_body :: "cake_flow \<Rightarrow> cake_flow" where
  "flow_body f = f\<lparr>f_next := 0, f_prev := 0\<rparr>"

lemma flow_core_eq:
  assumes "flow_core f = flow_core g"
  shows "f_ring f = f_ring g" "f_head f = f_head g" "f_tail f = f_tail g" "f_backlog f = f_backlog g"
    "f_state f = f_state g" "flow_queue f = flow_queue g" "cake_flow_queue_len f = cake_flow_queue_len g"
  using assms by (simp_all add: flow_core_def flow_queue_def cake_flow_queue_len_def)

lemma flow_body_eq:
  assumes "flow_body f = flow_body g"
  shows "flow_core f = flow_core g" "f_deficit f = f_deficit g" "f_dst_host f = f_dst_host g"
proof -
  have "f_ring f = f_ring g" "f_head f = f_head g" "f_tail f = f_tail g" "f_backlog f = f_backlog g"
    "f_state f = f_state g" "f_deficit f = f_deficit g" "f_dst_host f = f_dst_host g"
    using arg_cong [OF assms, of f_ring] arg_cong [OF assms, of f_head] arg_cong [OF assms, of f_tail]
      arg_cong [OF assms, of f_backlog] arg_cong [OF assms, of f_state] arg_cong [OF assms, of f_deficit]
      arg_cong [OF assms, of f_dst_host] by (simp_all add: flow_body_def)
  then show "flow_core f = flow_core g" "f_deficit f = f_deficit g" "f_dst_host f = f_dst_host g"
    by (simp_all add: flow_core_def)
qed

lemma cobalt_core [simp]:
  "flow_core (cobalt_queue_full f a b c) = flow_core f"
  "flow_core (cobalt_queue_empty f a b d c) = flow_core f"
  by (simp_all add: cobalt_queue_full_def cobalt_queue_empty_def cobalt_step_back_def cobalt_invsqrt_def
      cobalt_newton_step_def Let_def flow_core_def)

lemma cobalt_links [simp]:
  "f_next (cobalt_queue_full f a b c) = f_next f" "f_prev (cobalt_queue_full f a b c) = f_prev f"
  "f_next (cobalt_queue_empty f a b d c) = f_next f" "f_prev (cobalt_queue_empty f a b d c) = f_prev f"
  "f_deficit (cobalt_queue_full f a b c) = f_deficit f"
  by (simp_all add: cobalt_queue_full_def cobalt_queue_empty_def cobalt_step_back_def cobalt_invsqrt_def
      cobalt_newton_step_def Let_def)

text \<open>The list operations move links only.\<close>

lemma bodies_upd:
  "(\<And>f. flow_body (g f) = flow_body f) \<Longrightarrow> map flow_body (flow_upd i g flows) = map flow_body flows"
  by (simp add: flow_upd_def map_update)
    (metis (no_types, lifting) length_map list_update_beyond list_update_id not_le nth_map)

lemma list_bodies:
  "cake_flow_list_prepend a b h i = (a', b', h') \<Longrightarrow> map flow_body h' = map flow_body h"
  "cake_flow_list_append_tail a b h i = (a', b', h') \<Longrightarrow> map flow_body h' = map flow_body h"
  "cake_flow_list_remove a b h i = (a', b', h') \<Longrightarrow> map flow_body h' = map flow_body h"
  by (auto simp: cake_flow_list_prepend_def cake_flow_list_append_tail_def cake_flow_list_remove_def Let_def
      bodies_upd flow_body_def split: if_splits)

lemmas tin_list_defs = new_prepend_def new_remove_def old_append_def old_remove_def decaying_append_def
  decaying_remove_def

lemma tin_list_bodies [simp]:
  "map flow_body (t_flows (new_prepend i t)) = map flow_body (t_flows t)"
  "map flow_body (t_flows (new_remove i t)) = map flow_body (t_flows t)"
  "map flow_body (t_flows (old_append i t)) = map flow_body (t_flows t)"
  "map flow_body (t_flows (old_remove i t)) = map flow_body (t_flows t)"
  "map flow_body (t_flows (decaying_append i t)) = map flow_body (t_flows t)"
  "map flow_body (t_flows (decaying_remove i t)) = map flow_body (t_flows t)"
  by (auto simp: tin_list_defs list_bodies split: prod.split)

text \<open>The fields of a tin the lists do not touch.\<close>

definition tin_rest :: "cake_tin \<Rightarrow> u32 list \<times> u32 \<times> u32 \<times> u32 \<times> cake_host list \<times> u32" where
  "tin_rest t = (t_flow_tags t, t_flow_count t, t_sparse_count t, t_bulk_count t, t_hosts t, t_quantum t)"

lemma tin_list_rest [simp]:
  "tin_rest (new_prepend i t) = tin_rest t" "tin_rest (new_remove i t) = tin_rest t"
  "tin_rest (old_append i t) = tin_rest t" "tin_rest (old_remove i t) = tin_rest t"
  "tin_rest (decaying_append i t) = tin_rest t" "tin_rest (decaying_remove i t) = tin_rest t"
  by (simp_all add: tin_list_defs tin_rest_def split: prod.split)

section \<open>The three lists\<close>

definition tin_dll :: "cake_tin \<Rightarrow> u32 list \<Rightarrow> u32 list \<Rightarrow> u32 list \<Rightarrow> bool" where
  "tin_dll t nw od dc \<longleftrightarrow> length (t_flows t) = CAKE_QUEUES \<and>
     fl.is_list (t_flows t) (t_new_head t) (t_new_tail t) nw \<and>
     fl.is_list (t_flows t) (t_old_head t) (t_old_tail t) od \<and>
     fl.is_list (t_flows t) (t_decaying_head t) (t_decaying_tail t) dc \<and>
     distinct (nw @ od @ dc)"

lemma is_list_cong:
  assumes "fl.is_list h a b xs" and "length h' = length h"
    and "\<And>x. x \<in> set xs \<Longrightarrow> f_next (h' ! unat x) = f_next (h ! unat x) \<and> f_prev (h' ! unat x) = f_prev (h ! unat x)"
  shows "fl.is_list h' a b xs"
  using assms dll_cong [of "\<lambda>k. f_next (h ! unat k)" "\<lambda>k. f_prev (h ! unat k)" a b xs
      "\<lambda>k. f_next (h' ! unat k)" "\<lambda>k. f_prev (h' ! unat k)"]
  by (simp add: fl.is_list_def flow_valid_def)

lemma tin_dll_cong:
  assumes "tin_dll t nw od dc" and "length (t_flows t') = length (t_flows t)"
    and "\<And>x. x \<in> set (nw @ od @ dc) \<Longrightarrow> f_next (t_flows t' ! unat x) = f_next (t_flows t ! unat x) \<and>
      f_prev (t_flows t' ! unat x) = f_prev (t_flows t ! unat x)"
    and "t_new_head t' = t_new_head t" "t_new_tail t' = t_new_tail t" "t_old_head t' = t_old_head t"
      "t_old_tail t' = t_old_tail t" "t_decaying_head t' = t_decaying_head t" "t_decaying_tail t' = t_decaying_tail t"
  shows "tin_dll t' nw od dc"
  using assms is_list_cong [of "t_flows t" _ _ _ "t_flows t'"] unfolding tin_dll_def by auto

lemma valid_not_nil: "tin_dll t nw od dc \<Longrightarrow> flow_valid (t_flows t) i \<Longrightarrow> i \<noteq> nil32"
  by (auto simp: tin_dll_def flow_valid_def CAKE_QUEUES_def)

lemma length_bodies: "map flow_body h' = map flow_body h \<Longrightarrow> length h' = length h"
  by (metis length_map)

lemma dll_new_prepend:
  assumes d: "tin_dll t nw od dc" and v: "flow_valid (t_flows t) i" and i: "i \<notin> set (nw @ od @ dc)"
  shows "tin_dll (new_prepend i t) (i # nw) od dc"
proof -
  obtain h e flows where p: "cake_flow_list_prepend (t_new_head t) (t_new_tail t) (t_flows t) i = (h, e, flows)"
    using prod_cases3 by blast
  have n: "i \<noteq> nil32" by (rule valid_not_nil [OF d v])
  have l: "fl.is_list (t_flows t) (t_new_head t) (t_new_tail t) nw"
    "fl.is_list (t_flows t) (t_old_head t) (t_old_tail t) od"
    "fl.is_list (t_flows t) (t_decaying_head t) (t_decaying_tail t) dc" using d by (simp_all add: tin_dll_def)
  have "fl.is_list flows h e (i # nw)" using fl.prepend_list [OF l(1) v _ n p] i by simp
  moreover have "fl.is_list flows (t_old_head t) (t_old_tail t) od"
    by (rule fl.prepend_frame [OF l(1) v p l(2)]) (use d i in \<open>auto simp: tin_dll_def\<close>)
  moreover have "fl.is_list flows (t_decaying_head t) (t_decaying_tail t) dc"
    by (rule fl.prepend_frame [OF l(1) v p l(3)]) (use d i in \<open>auto simp: tin_dll_def\<close>)
  ultimately show ?thesis
    using d i length_bodies [OF list_bodies(1) [OF p]] by (simp add: tin_dll_def new_prepend_def p)
qed

lemma dll_old_append:
  assumes d: "tin_dll t nw od dc" and v: "flow_valid (t_flows t) i" and i: "i \<notin> set (nw @ od @ dc)"
  shows "tin_dll (old_append i t) nw (od @ [i]) dc"
proof -
  obtain h e flows where p: "cake_flow_list_append_tail (t_old_head t) (t_old_tail t) (t_flows t) i = (h, e, flows)"
    using prod_cases3 by blast
  have n: "i \<noteq> nil32" by (rule valid_not_nil [OF d v])
  have l: "fl.is_list (t_flows t) (t_new_head t) (t_new_tail t) nw"
    "fl.is_list (t_flows t) (t_old_head t) (t_old_tail t) od"
    "fl.is_list (t_flows t) (t_decaying_head t) (t_decaying_tail t) dc" using d by (simp_all add: tin_dll_def)
  have "fl.is_list flows h e (od @ [i])" using fl.append_list [OF l(2) v _ n p] i by simp
  moreover have "fl.is_list flows (t_new_head t) (t_new_tail t) nw"
    by (rule fl.append_frame [OF l(2) v p l(1)]) (use d i in \<open>auto simp: tin_dll_def\<close>)
  moreover have "fl.is_list flows (t_decaying_head t) (t_decaying_tail t) dc"
    by (rule fl.append_frame [OF l(2) v p l(3)]) (use d i in \<open>auto simp: tin_dll_def\<close>)
  ultimately show ?thesis
    using d i length_bodies [OF list_bodies(2) [OF p]] by (auto simp: tin_dll_def old_append_def p)
qed

lemma dll_decaying_append:
  assumes d: "tin_dll t nw od dc" and v: "flow_valid (t_flows t) i" and i: "i \<notin> set (nw @ od @ dc)"
  shows "tin_dll (decaying_append i t) nw od (dc @ [i])"
proof -
  obtain h e flows where
    p: "cake_flow_list_append_tail (t_decaying_head t) (t_decaying_tail t) (t_flows t) i = (h, e, flows)"
    using prod_cases3 by blast
  have n: "i \<noteq> nil32" by (rule valid_not_nil [OF d v])
  have l: "fl.is_list (t_flows t) (t_new_head t) (t_new_tail t) nw"
    "fl.is_list (t_flows t) (t_old_head t) (t_old_tail t) od"
    "fl.is_list (t_flows t) (t_decaying_head t) (t_decaying_tail t) dc" using d by (simp_all add: tin_dll_def)
  have "fl.is_list flows h e (dc @ [i])" using fl.append_list [OF l(3) v _ n p] i by simp
  moreover have "fl.is_list flows (t_new_head t) (t_new_tail t) nw"
    by (rule fl.append_frame [OF l(3) v p l(1)]) (use d i in \<open>auto simp: tin_dll_def\<close>)
  moreover have "fl.is_list flows (t_old_head t) (t_old_tail t) od"
    by (rule fl.append_frame [OF l(3) v p l(2)]) (use d i in \<open>auto simp: tin_dll_def\<close>)
  ultimately show ?thesis
    using d i length_bodies [OF list_bodies(2) [OF p]] by (auto simp: tin_dll_def decaying_append_def p)
qed

lemma remove_distinct: "distinct xs \<Longrightarrow> set (remove1 i xs) = set xs - {i}"
  by (rule set_remove1_eq)

lemma dll_new_remove:
  assumes d: "tin_dll t nw od dc" and i: "i \<in> set nw"
  shows "tin_dll (new_remove i t) (remove1 i nw) od dc"
proof -
  obtain h e flows where p: "cake_flow_list_remove (t_new_head t) (t_new_tail t) (t_flows t) i = (h, e, flows)"
    using prod_cases3 by blast
  have l: "fl.is_list (t_flows t) (t_new_head t) (t_new_tail t) nw"
    "fl.is_list (t_flows t) (t_old_head t) (t_old_tail t) od"
    "fl.is_list (t_flows t) (t_decaying_head t) (t_decaying_tail t) dc" using d by (simp_all add: tin_dll_def)
  have "fl.is_list flows (t_old_head t) (t_old_tail t) od"
    by (rule fl.remove_frame [OF l(1) i p l(2)]) (use d in \<open>auto simp: tin_dll_def\<close>)
  moreover have "fl.is_list flows (t_decaying_head t) (t_decaying_tail t) dc"
    by (rule fl.remove_frame [OF l(1) i p l(3)]) (use d in \<open>auto simp: tin_dll_def\<close>)
  ultimately show ?thesis
    using d fl.remove_list [OF l(1) i p] length_bodies [OF list_bodies(3) [OF p]]
    by (auto simp: tin_dll_def new_remove_def p set_remove1_eq)
qed

lemma dll_old_remove:
  assumes d: "tin_dll t nw od dc" and i: "i \<in> set od"
  shows "tin_dll (old_remove i t) nw (remove1 i od) dc"
proof -
  obtain h e flows where p: "cake_flow_list_remove (t_old_head t) (t_old_tail t) (t_flows t) i = (h, e, flows)"
    using prod_cases3 by blast
  have l: "fl.is_list (t_flows t) (t_new_head t) (t_new_tail t) nw"
    "fl.is_list (t_flows t) (t_old_head t) (t_old_tail t) od"
    "fl.is_list (t_flows t) (t_decaying_head t) (t_decaying_tail t) dc" using d by (simp_all add: tin_dll_def)
  have "fl.is_list flows (t_new_head t) (t_new_tail t) nw"
    by (rule fl.remove_frame [OF l(2) i p l(1)]) (use d in \<open>auto simp: tin_dll_def\<close>)
  moreover have "fl.is_list flows (t_decaying_head t) (t_decaying_tail t) dc"
    by (rule fl.remove_frame [OF l(2) i p l(3)]) (use d in \<open>auto simp: tin_dll_def\<close>)
  ultimately show ?thesis
    using d fl.remove_list [OF l(2) i p] length_bodies [OF list_bodies(3) [OF p]]
    by (auto simp: tin_dll_def old_remove_def p set_remove1_eq)
qed

lemma dll_decaying_remove:
  assumes d: "tin_dll t nw od dc" and i: "i \<in> set dc"
  shows "tin_dll (decaying_remove i t) nw od (remove1 i dc)"
proof -
  obtain h e flows where
    p: "cake_flow_list_remove (t_decaying_head t) (t_decaying_tail t) (t_flows t) i = (h, e, flows)"
    using prod_cases3 by blast
  have l: "fl.is_list (t_flows t) (t_new_head t) (t_new_tail t) nw"
    "fl.is_list (t_flows t) (t_old_head t) (t_old_tail t) od"
    "fl.is_list (t_flows t) (t_decaying_head t) (t_decaying_tail t) dc" using d by (simp_all add: tin_dll_def)
  have "fl.is_list flows (t_new_head t) (t_new_tail t) nw"
    by (rule fl.remove_frame [OF l(3) i p l(1)]) (use d in \<open>auto simp: tin_dll_def\<close>)
  moreover have "fl.is_list flows (t_old_head t) (t_old_tail t) od"
    by (rule fl.remove_frame [OF l(3) i p l(2)]) (use d in \<open>auto simp: tin_dll_def\<close>)
  ultimately show ?thesis
    using d fl.remove_list [OF l(3) i p] length_bodies [OF list_bodies(3) [OF p]]
    by (auto simp: tin_dll_def decaying_remove_def p set_remove1_eq)
qed

section \<open>The invariant\<close>

definition lens_sum :: "(u32 \<Rightarrow> u32) \<Rightarrow> u32 list \<Rightarrow> u32" where
  "lens_sum lens q = (\<Sum>bi\<leftarrow>q. lens bi)"

definition flow_ok :: "(u32 \<Rightarrow> u32) \<Rightarrow> cake_flow \<Rightarrow> bool" where
  "flow_ok lens f \<longleftrightarrow>
     (if f_state f = FLOW_NONE then f_ring f = [] \<and> f_head f = f_tail f
      else length (f_ring f) = CAKE_FLOW_RING_SIZE) \<and>
     unat (cake_flow_queue_len f) \<le> CAKE_FLOW_RING_SIZE \<and>
     f_backlog f = lens_sum lens (flow_queue f) \<and>
     (f_state f = FLOW_SPARSE \<longrightarrow> unat (cake_flow_queue_len f) \<le> 1) \<and>
     (f_state f = FLOW_DECAYING \<longrightarrow> cake_flow_queue_len f = 0)"

text \<open>A tag sits in a slot of its set, and at most once in the table.\<close>

definition tags_ok :: "u32 list \<Rightarrow> bool" where
  "tags_ok tags \<longleftrightarrow> length tags = CAKE_QUEUES \<and>
     (\<forall>i < CAKE_QUEUES. tags ! i \<noteq> 0 \<longrightarrow> i div CAKE_SET_WAYS = unat (tags ! i) mod CAKE_SET_COUNT \<and>
        (\<forall>j < CAKE_QUEUES. tags ! j = tags ! i \<longrightarrow> j = i))"

definition tin_marks :: "cake_tin \<Rightarrow> u32 list \<Rightarrow> u32 list \<Rightarrow> u32 list \<Rightarrow> bool" where
  "tin_marks t nw od dc \<longleftrightarrow> (\<forall>i. flow_valid (t_flows t) i \<longrightarrow>
     (i \<in> set nw \<longleftrightarrow> f_state (t_flows t ! unat i) = FLOW_SPARSE) \<and>
     (i \<in> set od \<longleftrightarrow> f_state (t_flows t ! unat i) = FLOW_BULK) \<and>
     (i \<in> set dc \<longleftrightarrow> f_state (t_flows t ! unat i) = FLOW_DECAYING))"

definition tin_counts :: "cake_tin \<Rightarrow> nat \<Rightarrow> nat \<Rightarrow> nat \<Rightarrow> bool" where
  "tin_counts t a b c \<longleftrightarrow> t_sparse_count t = word_of_nat a \<and> t_bulk_count t = word_of_nat b \<and>
     t_flow_count t = word_of_nat (a + b + c)"

definition tin_inv :: "(u32 \<Rightarrow> u32) \<Rightarrow> cake_tin \<Rightarrow> u32 list \<Rightarrow> u32 list \<Rightarrow> u32 list \<Rightarrow> bool" where
  "tin_inv lens t nw od dc \<longleftrightarrow> tin_dll t nw od dc \<and> tin_marks t nw od dc \<and>
     tin_counts t (length nw) (length od) (length dc) \<and> tags_ok (t_flow_tags t) \<and>
     (\<forall>f \<in> set (t_flows t). flow_ok lens f)"

definition tin_ok :: "(u32 \<Rightarrow> u32) \<Rightarrow> cake_tin \<Rightarrow> bool" where
  "tin_ok lens t \<longleftrightarrow> (\<exists>nw od dc. tin_inv lens t nw od dc)"

text \<open>The bytes, the packets and the buffers queued in a tin.\<close>

definition tin_backlog :: "cake_tin \<Rightarrow> u32" where
  "tin_backlog t = (\<Sum>f\<leftarrow>t_flows t. f_backlog f)"

definition tin_queued :: "cake_tin \<Rightarrow> u32" where
  "tin_queued t = (\<Sum>f\<leftarrow>t_flows t. cake_flow_queue_len f)"

definition tin_bufs :: "cake_tin \<Rightarrow> u32 multiset" where
  "tin_bufs t = (\<Sum>f\<leftarrow>t_flows t. mset (flow_queue f))"

lemma flow_ok_core: "flow_core f = flow_core g \<Longrightarrow> flow_ok lens f = flow_ok lens g"
  using flow_core_eq [of f g] by (simp add: flow_ok_def)

lemma flow_okD:
  assumes "flow_ok lens f"
  shows "f_state f = FLOW_NONE \<Longrightarrow> f_ring f = []" "f_state f \<noteq> FLOW_NONE \<Longrightarrow> length (f_ring f) = 128"
    "f_backlog f = lens_sum lens (flow_queue f)" "unat (cake_flow_queue_len f) \<le> 128"
    "f_state f = FLOW_NONE \<Longrightarrow> cake_flow_queue_len f = 0"
    "f_ring f = [] \<Longrightarrow> flow_queue f = []"
  using assms by (auto simp: flow_ok_def CAKE_FLOW_RING_SIZE_def cake_flow_queue_len_def flow_queue_def split: if_splits)

lemma flow_ok_clean [simp]: "flow_ok lens flow_clean"
  by (simp add: flow_ok_def flow_clean_def cake_flow_zero_def cake_flow_queue_len_def flow_queue_def lens_sum_def)

definition tin_cores :: "cake_tin \<Rightarrow> (u32 list \<times> u32 \<times> u32 \<times> u32 \<times> cake_flow_state) list" where
  "tin_cores t = map flow_core (t_flows t)"

lemma map_respects:
  assumes "map c h' = map c h" and resp: "\<And>f g. c f = c g \<Longrightarrow> F f = F g"
  shows "map F h' = map F h"
  using assms(1)
proof (induction h arbitrary: h')
  case (Cons x xs)
  then obtain y ys where h': "h' = y # ys" and y: "c y = c x" and ys: "map c ys = map c xs"
    by (auto simp: map_eq_Cons_conv)
  from Cons.IH [OF ys] resp [OF y] show ?case by (simp add: h')
qed simp

lemma cores_of_bodies: "map flow_body h' = map flow_body h \<Longrightarrow> map flow_core h' = map flow_core h"
  by (erule map_respects) (rule flow_body_eq(1))

lemma tin_list_cores [simp]:
  "tin_cores (new_prepend i t) = tin_cores t" "tin_cores (new_remove i t) = tin_cores t"
  "tin_cores (old_append i t) = tin_cores t" "tin_cores (old_remove i t) = tin_cores t"
  "tin_cores (decaying_append i t) = tin_cores t" "tin_cores (decaying_remove i t) = tin_cores t"
  unfolding tin_cores_def by (rule cores_of_bodies, simp)+

lemma sum_cores:
  assumes "tin_cores t' = tin_cores t"
  shows "tin_backlog t' = tin_backlog t" "tin_queued t' = tin_queued t" "tin_bufs t' = tin_bufs t"
proof -
  note c = assms [unfolded tin_cores_def]
  show "tin_backlog t' = tin_backlog t"
    unfolding tin_backlog_def by (rule arg_cong [OF map_respects [OF c flow_core_eq(4)]])
  show "tin_queued t' = tin_queued t"
    unfolding tin_queued_def by (rule arg_cong [OF map_respects [OF c flow_core_eq(7)]])
  show "tin_bufs t' = tin_bufs t"
    unfolding tin_bufs_def by (rule arg_cong [OF map_respects [OF c arg_cong [OF flow_core_eq(6)]]])
qed

text \<open>One slot changed.\<close>

lemma cores_at:
  assumes "tin_cores t' = (tin_cores t)[unat i := flow_core g]" and "flow_valid (t_flows t) i"
  shows "length (t_flows t') = length (t_flows t)"
    and "k < length (t_flows t) \<Longrightarrow>
      flow_core (t_flows t' ! k) = (if k = unat i then flow_core g else flow_core (t_flows t ! k))"
proof -
  show l: "length (t_flows t') = length (t_flows t)"
    using arg_cong [OF assms(1), of length] by (simp add: tin_cores_def)
  assume k: "k < length (t_flows t)"
  then have "flow_core (t_flows t' ! k) = tin_cores t' ! k" by (simp add: tin_cores_def l)
  also have "\<dots> = (if k = unat i then flow_core g else flow_core (t_flows t ! k))"
    unfolding assms(1) using k by (simp add: tin_cores_def)
  finally show "flow_core (t_flows t' ! k) = (if k = unat i then flow_core g else flow_core (t_flows t ! k))" .
qed

lemma sum_slot:
  fixes F :: "cake_flow \<Rightarrow> 'b::comm_monoid_add"
  assumes "tin_cores t' = (tin_cores t)[unat i := flow_core g]" and "flow_valid (t_flows t) i"
    and "\<And>f g. flow_core f = flow_core g \<Longrightarrow> F f = F g"
  shows "(\<Sum>f\<leftarrow>t_flows t'. F f) + F (t_flows t ! unat i) = (\<Sum>f\<leftarrow>t_flows t. F f) + F g"
proof -
  note at = cores_at [OF assms(1,2)]
  have v: "unat i < length (t_flows t)" using assms(2) by (simp add: flow_valid_def)
  have "map F (t_flows t') = (map F (t_flows t))[unat i := F g]"
  proof (rule nth_equalityI)
    fix k
    assume "k < length (map F (t_flows t'))"
    then have k: "k < length (t_flows t)" by (simp add: at(1))
    from assms(3) [of "t_flows t' ! k" "if k = unat i then g else t_flows t ! k"] at(2) [OF k] k v
    show "map F (t_flows t') ! k = (map F (t_flows t))[unat i := F g] ! k" by (auto simp: at(1) nth_list_update)
  qed (simp add: at(1))
  with sum_list_update_add [of "unat i" "map F (t_flows t)" "F g"] v show ?thesis by simp
qed

lemma sums_slot:
  assumes "tin_cores t' = (tin_cores t)[unat i := flow_core g]" and "flow_valid (t_flows t) i"
  shows "tin_backlog t' = tin_backlog t - f_backlog (t_flows t ! unat i) + f_backlog g"
    and "tin_queued t' = tin_queued t - cake_flow_queue_len (t_flows t ! unat i) + cake_flow_queue_len g"
    and "tin_bufs t' + mset (flow_queue (t_flows t ! unat i)) = tin_bufs t + mset (flow_queue g)"
proof -
  show "tin_backlog t' = tin_backlog t - f_backlog (t_flows t ! unat i) + f_backlog g"
    using sum_slot [OF assms, of f_backlog, OF flow_core_eq(4)] by (simp add: tin_backlog_def algebra_simps)
  show "tin_queued t' = tin_queued t - cake_flow_queue_len (t_flows t ! unat i) + cake_flow_queue_len g"
    using sum_slot [OF assms, of cake_flow_queue_len, OF flow_core_eq(7)] by (simp add: tin_queued_def algebra_simps)
  have "mset (flow_queue f) = mset (flow_queue g)" if "flow_core f = flow_core g" for f g
    by (rule arg_cong [OF flow_core_eq(6) [OF that]])
  from sum_slot [OF assms, of "\<lambda>f. mset (flow_queue f)", OF this]
  show "tin_bufs t' + mset (flow_queue (t_flows t ! unat i)) = tin_bufs t + mset (flow_queue g)"
    by (simp add: tin_bufs_def)
qed

lemma tin_inv_change:
  assumes inv: "tin_inv lens t nw od dc" and v: "flow_valid (t_flows t) i"
    and c: "tin_cores t' = (tin_cores t)[unat i := flow_core g]" and g: "flow_ok lens g"
    and d: "tin_dll t' nw' od' dc'"
    and i: "i \<in> set nw' \<longleftrightarrow> f_state g = FLOW_SPARSE" "i \<in> set od' \<longleftrightarrow> f_state g = FLOW_BULK"
      "i \<in> set dc' \<longleftrightarrow> f_state g = FLOW_DECAYING"
    and j: "set nw' - {i} = set nw - {i}" "set od' - {i} = set od - {i}" "set dc' - {i} = set dc - {i}"
    and n: "tin_counts t' (length nw') (length od') (length dc')" and tags: "tags_ok (t_flow_tags t')"
  shows "tin_inv lens t' nw' od' dc'"
proof -
  note at = cores_at [OF c v]
  have st: "f_state (t_flows t' ! unat k) = (if k = i then f_state g else f_state (t_flows t ! unat k))"
    if "flow_valid (t_flows t) k" for k
  proof -
    have "unat k < length (t_flows t)" using that by (simp add: flow_valid_def)
    from at(2) [OF this] show ?thesis by (simp add: flow_core_def word_unat_eq_iff split: if_splits)
  qed
  have "tin_marks t' nw' od' dc'"
    unfolding tin_marks_def
  proof (intro allI impI)
    fix k
    assume "flow_valid (t_flows t') k"
    then have k: "flow_valid (t_flows t) k" by (simp add: flow_valid_def at(1))
    show "(k \<in> set nw' \<longleftrightarrow> f_state (t_flows t' ! unat k) = FLOW_SPARSE) \<and>
        (k \<in> set od' \<longleftrightarrow> f_state (t_flows t' ! unat k) = FLOW_BULK) \<and>
        (k \<in> set dc' \<longleftrightarrow> f_state (t_flows t' ! unat k) = FLOW_DECAYING)"
    proof (cases "k = i")
      case True
      then show ?thesis using i st [OF k] by simp
    next
      case False
      then have "k \<in> set nw' \<longleftrightarrow> k \<in> set nw" "k \<in> set od' \<longleftrightarrow> k \<in> set od" "k \<in> set dc' \<longleftrightarrow> k \<in> set dc"
        using j by blast+
      with False st [OF k] k inv show ?thesis by (simp add: tin_inv_def tin_marks_def)
    qed
  qed
  moreover have "flow_ok lens f" if "f \<in> set (t_flows t')" for f
  proof -
    from that obtain k where k: "k < length (t_flows t)" "f = t_flows t' ! k" by (auto simp: in_set_conv_nth at(1))
    show ?thesis
    proof (cases "k = unat i")
      case True
      with at(2) [OF k(1)] k(2) flow_ok_core [of f g lens] g show ?thesis by simp
    next
      case False
      with at(2) [OF k(1)] k flow_ok_core [of f "t_flows t ! k" lens] inv show ?thesis
        by (simp add: tin_inv_def)
    qed
  qed
  ultimately show ?thesis using d n tags by (simp add: tin_inv_def)
qed

lemma tin_invD:
  assumes "tin_inv lens t nw od dc"
  shows "tin_dll t nw od dc" "tin_counts t (length nw) (length od) (length dc)" "tags_ok (t_flow_tags t)"
    "length (t_flows t) = CAKE_QUEUES" "distinct nw" "distinct od" "distinct dc"
    "set nw \<inter> set od = {}" "set nw \<inter> set dc = {}" "set od \<inter> set dc = {}"
  using assms by (auto simp: tin_inv_def tin_dll_def)

lemma tin_inv_at:
  assumes "tin_inv lens t nw od dc" and "flow_valid (t_flows t) i"
  shows "flow_ok lens (t_flows t ! unat i)"
    "i \<in> set nw \<longleftrightarrow> f_state (t_flows t ! unat i) = FLOW_SPARSE"
    "i \<in> set od \<longleftrightarrow> f_state (t_flows t ! unat i) = FLOW_BULK"
    "i \<in> set dc \<longleftrightarrow> f_state (t_flows t ! unat i) = FLOW_DECAYING"
  using assms by (auto simp: tin_inv_def tin_marks_def flow_valid_def)

lemma tin_inv_member:
  assumes "tin_inv lens t nw od dc" and "i \<in> set (nw @ od @ dc)"
  shows "flow_valid (t_flows t) i"
  using assms by (auto simp: tin_inv_def tin_dll_def fl.is_list_def)

lemma counts_remove: "i \<in> set xs \<Longrightarrow> length xs = Suc (length (remove1 i xs))"
  using length_pos_if_in_set [of i xs] by (simp add: length_remove1)

lemma tin_restD:
  assumes "tin_rest t' = tin_rest t"
  shows "t_flow_tags t' = t_flow_tags t" "t_flow_count t' = t_flow_count t" "t_sparse_count t' = t_sparse_count t"
    "t_bulk_count t' = t_bulk_count t" "t_hosts t' = t_hosts t" "t_quantum t' = t_quantum t"
  using assms by (simp_all add: tin_rest_def)

lemmas new_prepend_fields [simp] = tin_restD [OF tin_list_rest(1)]
lemmas new_remove_fields [simp] = tin_restD [OF tin_list_rest(2)]
lemmas old_append_fields [simp] = tin_restD [OF tin_list_rest(3)]
lemmas old_remove_fields [simp] = tin_restD [OF tin_list_rest(4)]
lemmas decaying_append_fields [simp] = tin_restD [OF tin_list_rest(5)]
lemmas decaying_remove_fields [simp] = tin_restD [OF tin_list_rest(6)]

text \<open>Discarding a flow.\<close>

lemma discard_flow:
  assumes ok: "flow_ok lens f" and d: "cake_flow_discard aggs cs tin f = (aggs', cs', tin', f', freed)"
  shows "freed = flow_queue f"
    "aggs' = (if cake_flow_queue_len f = 0 then aggs else cake_agg_discharge aggs cs (f_backlog f))"
    "cs' = cs\<lparr>cs_buffer_usage := cs_buffer_usage cs - f_backlog f, cs_queued := cs_queued cs - cake_flow_queue_len f,
       cs_dropped_pkts := cs_dropped_pkts cs + ucast (cake_flow_queue_len f)\<rparr>"
    "tin' = tin\<lparr>t_drops := t_drops tin + ucast (cake_flow_queue_len f)\<rparr>"
    "f_next f' = f_next f \<and> f_prev f' = f_prev f \<and> f_state f' = f_state f \<and> f_dst_host f' = f_dst_host f \<and>
     f_ring f' = [] \<and> f_backlog f' = 0 \<and> cake_flow_queue_len f' = 0"
proof -
  have z: "f_backlog f = 0 \<and> flow_queue f = []" if "cake_flow_queue_len f = 0"
    using flow_okD(3) [OF ok] flow_queue_empty [OF that] by (simp add: lens_sum_def)
  have r: "flow_queue f = [] \<and> cake_flow_queue_len f = 0" if "f_ring f = []"
    using flow_okD [OF ok] that by (metis list.size(3) zero_neq_numeral)
  have q: "flow_queue (f\<lparr>f_backlog := 0\<rparr>) = flow_queue f" by (simp add: flow_queue_def)
  note * = d [unfolded cake_flow_discard_def Let_def ring_free]
  show "freed = flow_queue f"
    "aggs' = (if cake_flow_queue_len f = 0 then aggs else cake_agg_discharge aggs cs (f_backlog f))"
    "cs' = cs\<lparr>cs_buffer_usage := cs_buffer_usage cs - f_backlog f, cs_queued := cs_queued cs - cake_flow_queue_len f,
       cs_dropped_pkts := cs_dropped_pkts cs + ucast (cake_flow_queue_len f)\<rparr>"
    "tin' = tin\<lparr>t_drops := t_drops tin + ucast (cake_flow_queue_len f)\<rparr>"
    "f_next f' = f_next f \<and> f_prev f' = f_prev f \<and> f_state f' = f_state f \<and> f_dst_host f' = f_dst_host f \<and>
     f_ring f' = [] \<and> f_backlog f' = 0 \<and> cake_flow_queue_len f' = 0"
    using * z r q by (auto simp: cake_flow_queue_len_def split: if_splits)
qed

text \<open>A slot emptied after its flow was taken off its list.\<close>

lemma clear_slot:
  assumes inv: "tin_inv lens t nw od dc" and v: "flow_valid (t_flows t) i"
    and d: "tin_dll t1 (remove1 i nw) (remove1 i od) (remove1 i dc)"
    and c: "tin_cores t1 = (tin_cores t)[unat i := x]"
    and t': "t_flows t' = (t_flows t1)[unat i := flow_clean]"
      "t_new_head t' = t_new_head t1" "t_new_tail t' = t_new_tail t1" "t_old_head t' = t_old_head t1"
      "t_old_tail t' = t_old_tail t1" "t_decaying_head t' = t_decaying_head t1" "t_decaying_tail t' = t_decaying_tail t1"
    and n: "tin_counts t' (length (remove1 i nw)) (length (remove1 i od)) (length (remove1 i dc))"
    and tags: "tags_ok (t_flow_tags t')"
  shows "tin_inv lens t' (remove1 i nw) (remove1 i od) (remove1 i dc)"
    and "tin_backlog t' = tin_backlog t - f_backlog (t_flows t ! unat i)"
    and "tin_queued t' = tin_queued t - cake_flow_queue_len (t_flows t ! unat i)"
    and "tin_bufs t = tin_bufs t' + mset (flow_queue (t_flows t ! unat i))"
    and "t_flows t' ! unat i = flow_clean"
proof -
  have l: "length (t_flows t1) = CAKE_QUEUES" using d by (simp add: tin_dll_def)
  have vi: "unat i < CAKE_QUEUES" using v tin_invD(4) [OF inv] by (simp add: flow_valid_def)
  have cores: "tin_cores t' = (tin_cores t)[unat i := flow_core flow_clean]"
    using c by (simp add: tin_cores_def t'(1) map_update)
  have dist: "distinct nw" "distinct od" "distinct dc" using tin_invD [OF inv] by auto
  have "tin_dll t' (remove1 i nw) (remove1 i od) (remove1 i dc)"
  proof (rule tin_dll_cong [OF d])
    fix x
    assume "x \<in> set (remove1 i nw @ remove1 i od @ remove1 i dc)"
    then have "x \<noteq> i" using dist by (auto simp: set_remove1_eq)
    then show "f_next (t_flows t' ! unat x) = f_next (t_flows t1 ! unat x) \<and>
        f_prev (t_flows t' ! unat x) = f_prev (t_flows t1 ! unat x)"
      by (simp add: t'(1) word_unat_eq_iff)
  qed (simp_all add: t')
  then show "tin_inv lens t' (remove1 i nw) (remove1 i od) (remove1 i dc)"
    by (rule tin_inv_change [OF inv v cores flow_ok_clean])
      (use n tags dist in \<open>auto simp: flow_clean_def cake_flow_zero_def set_remove1_eq\<close>)
  note s = sums_slot [OF cores v]
  have e: "f_backlog flow_clean = 0" "cake_flow_queue_len flow_clean = 0" "flow_queue flow_clean = []"
    by (simp_all add: flow_clean_def cake_flow_zero_def cake_flow_queue_len_def flow_queue_def)
  show "tin_backlog t' = tin_backlog t - f_backlog (t_flows t ! unat i)"
    "tin_queued t' = tin_queued t - cake_flow_queue_len (t_flows t ! unat i)"
    "tin_bufs t = tin_bufs t' + mset (flow_queue (t_flows t ! unat i))"
    using s by (simp_all add: e)
  show "t_flows t' ! unat i = flow_clean" using l vi by (simp add: t'(1))
qed

text \<open>Taking a flow off the list its state names.\<close>

definition unlink_flow :: "cake_flow_state \<Rightarrow> u32 \<Rightarrow> cake_tin \<Rightarrow> cake_tin" where
  "unlink_flow s i t = (case s of FLOW_NONE \<Rightarrow> t | FLOW_SPARSE \<Rightarrow> new_remove i t | FLOW_BULK \<Rightarrow> old_remove i t
     | FLOW_DECAYING \<Rightarrow> decaying_remove i t)"

lemma unlink_rest [simp]: "tin_rest (unlink_flow s i t) = tin_rest t" "tin_cores (unlink_flow s i t) = tin_cores t"
  "map flow_body (t_flows (unlink_flow s i t)) = map flow_body (t_flows t)"
  by (cases s; simp add: unlink_flow_def)+

lemma unlink_dll:
  assumes inv: "tin_inv lens t nw od dc" and v: "flow_valid (t_flows t) i"
    and d: "tin_dll t1 nw od dc" and s: "s = f_state (t_flows t ! unat i)"
  shows "tin_dll (unlink_flow s i t1) (remove1 i nw) (remove1 i od) (remove1 i dc)"
proof -
  note at = tin_inv_at(2-4) [OF inv v] and disj = tin_invD(8-10) [OF inv]
  show ?thesis
  proof (cases s)
    case FLOW_NONE
    with at s d show ?thesis by (simp add: unlink_flow_def remove1_idem)
  next
    case FLOW_SPARSE
    with at s disj dll_new_remove [OF d, of i] show ?thesis by (simp add: unlink_flow_def remove1_idem)
  next
    case FLOW_BULK
    with at s disj dll_old_remove [OF d, of i] show ?thesis by (simp add: unlink_flow_def remove1_idem)
  next
    case FLOW_DECAYING
    with at s disj dll_decaying_remove [OF d, of i] show ?thesis by (simp add: unlink_flow_def remove1_idem)
  qed
qed

text \<open>The counters of a tin that lost the flow of state \<open>s\<close>.\<close>

lemma counts_cleared:
  assumes inv: "tin_inv lens t nw od dc" and v: "flow_valid (t_flows t) i" and s: "s = f_state (t_flows t ! unat i)"
    and n: "t_sparse_count t' = (if s = FLOW_SPARSE then t_sparse_count t - 1 else t_sparse_count t)"
      "t_bulk_count t' = (if s = FLOW_BULK then t_bulk_count t - 1 else t_bulk_count t)"
      "t_flow_count t' = (if s = FLOW_NONE then t_flow_count t else t_flow_count t - 1)"
  shows "tin_counts t' (length (remove1 i nw)) (length (remove1 i od)) (length (remove1 i dc))"
proof -
  note at = tin_inv_at(2-4) [OF inv v] and c = tin_invD(2) [OF inv, unfolded tin_counts_def]
  show ?thesis
    using at s n c by (cases s) (simp_all add: tin_counts_def remove1_idem counts_remove)
qed

lemma evict_tin:
  assumes inv: "tin_inv lens tin nw od dc" and v: "flow_valid (t_flows tin) slot"
    and ev: "cake_flow_evict aggs cs tin slot = (aggs', cs', tin', freed)"
  shows "tin_inv lens tin' (remove1 slot nw) (remove1 slot od) (remove1 slot dc)"
    and "tin_backlog tin' = tin_backlog tin - f_backlog (t_flows tin ! unat slot)"
    and "tin_queued tin' = tin_queued tin - cake_flow_queue_len (t_flows tin ! unat slot)"
    and "tin_bufs tin = tin_bufs tin' + mset freed"
    and "t_flows tin' ! unat slot = flow_clean" and "t_flow_tags tin' = t_flow_tags tin"
    and "aggs' = (if cake_flow_queue_len (t_flows tin ! unat slot) = 0 then aggs
      else cake_agg_discharge aggs cs (f_backlog (t_flows tin ! unat slot)))"
    and "cs' = cs\<lparr>cs_buffer_usage := cs_buffer_usage cs - f_backlog (t_flows tin ! unat slot),
      cs_queued := cs_queued cs - cake_flow_queue_len (t_flows tin ! unat slot),
      cs_dropped_pkts := cs_dropped_pkts cs + ucast (cake_flow_queue_len (t_flows tin ! unat slot))\<rparr>"
proof -
  let ?f = "t_flows tin ! unat slot"
  obtain aggs1 cs1 tin1 ef fr where d: "cake_flow_discard aggs cs tin ?f = (aggs1, cs1, tin1, ef, fr)"
    using prod_cases5 by blast
  note D = discard_flow [OF tin_inv_at(1) [OF inv v] d]
  define t1 where "t1 = tin1\<lparr>t_flows := (t_flows tin1)[unat slot := ef]\<rparr>"
  define t2 where "t2 = unlink_flow (f_state ?f) slot t1"
  have fl1: "t_flows t1 = (t_flows tin)[unat slot := ef]" "tin_rest t1 = tin_rest tin"
    using D(4) by (simp_all add: t1_def tin_rest_def)
  have "tin_dll t1 nw od dc"
  proof (rule tin_dll_cong [OF tin_invD(1) [OF inv]])
    fix x :: u32
    show "f_next (t_flows t1 ! unat x) = f_next (t_flows tin ! unat x) \<and> f_prev (t_flows t1 ! unat x) = f_prev (t_flows tin ! unat x)"
      using D(5) v by (cases "x = slot") (simp_all add: fl1 flow_valid_def word_unat_eq_iff)
  qed (use D(4) in \<open>simp_all add: t1_def\<close>)
  from unlink_dll [OF inv v this refl]
  have dll: "tin_dll t2 (remove1 slot nw) (remove1 slot od) (remove1 slot dc)" by (simp add: t2_def)
  have cores: "tin_cores t2 = (tin_cores tin)[unat slot := flow_core ef]"
    by (simp add: t2_def tin_cores_def [of t1] tin_cores_def [of tin] fl1 map_update)
  have rest: "tin_rest t2 = tin_rest tin" by (simp add: t2_def fl1)
  have ev': "aggs' = aggs1 \<and> cs' = cs1 \<and> freed = fr \<and> tin' = t2\<lparr>
      t_sparse_count := (if f_state ?f = FLOW_SPARSE then t_sparse_count t2 - 1 else t_sparse_count t2),
      t_bulk_count := (if f_state ?f = FLOW_BULK then t_bulk_count t2 - 1 else t_bulk_count t2),
      t_hosts := (if f_state ?f = FLOW_BULK then host_bulk_dec (f_dst_host ef) (t_hosts t2) else t_hosts t2),
      t_flow_count := (if f_state ?f = FLOW_NONE then t_flow_count t2 else t_flow_count t2 - 1),
      t_flows := (t_flows t2)[unat slot := flow_clean]\<rparr>"
  proof -
    have st: "f_state ef = f_state ?f" using D(5) by simp
    show ?thesis
      using ev [symmetric] unfolding cake_flow_evict_def d Let_def prod.case t1_def [symmetric] st
      by (cases "f_state ?f") (simp_all add: t2_def unlink_flow_def)
  qed
  have res: "aggs' = aggs1" "cs' = cs1" "freed = fr"
    "t_flows tin' = (t_flows t2)[unat slot := flow_clean]"
    "t_new_head tin' = t_new_head t2" "t_new_tail tin' = t_new_tail t2" "t_old_head tin' = t_old_head t2"
    "t_old_tail tin' = t_old_tail t2" "t_decaying_head tin' = t_decaying_head t2" "t_decaying_tail tin' = t_decaying_tail t2"
    "t_flow_tags tin' = t_flow_tags t2"
    "t_sparse_count tin' = (if f_state ?f = FLOW_SPARSE then t_sparse_count t2 - 1 else t_sparse_count t2)"
    "t_bulk_count tin' = (if f_state ?f = FLOW_BULK then t_bulk_count t2 - 1 else t_bulk_count t2)"
    "t_flow_count tin' = (if f_state ?f = FLOW_NONE then t_flow_count t2 else t_flow_count t2 - 1)"
    using ev' by (auto simp: Let_def)
  have n: "tin_counts tin' (length (remove1 slot nw)) (length (remove1 slot od)) (length (remove1 slot dc))"
    by (rule counts_cleared [OF inv v refl]) (use res rest in \<open>simp_all add: tin_rest_def\<close>)
  have tags: "t_flow_tags tin' = t_flow_tags tin" using res rest by (simp add: tin_rest_def)
  then have "tags_ok (t_flow_tags tin')" using tin_invD(3) [OF inv] by simp
  note C = clear_slot [OF inv v dll cores res(4-10) n this]
  show "tin_inv lens tin' (remove1 slot nw) (remove1 slot od) (remove1 slot dc)"
    "tin_backlog tin' = tin_backlog tin - f_backlog ?f" "tin_queued tin' = tin_queued tin - cake_flow_queue_len ?f"
    "t_flows tin' ! unat slot = flow_clean" "t_flow_tags tin' = t_flow_tags tin"
    by (fact C tags)+
  show "tin_bufs tin = tin_bufs tin' + mset freed" using C(4) D(1) res(3) by simp
  show "aggs' = (if cake_flow_queue_len ?f = 0 then aggs else cake_agg_discharge aggs cs (f_backlog ?f))"
    "cs' = cs\<lparr>cs_buffer_usage := cs_buffer_usage cs - f_backlog ?f, cs_queued := cs_queued cs - cake_flow_queue_len ?f,
      cs_dropped_pkts := cs_dropped_pkts cs + ucast (cake_flow_queue_len ?f)\<rparr>"
    using D(2,3) res(1,2) by simp_all
qed

lemma nth_update_if: "xs[i := v] ! j = (if j = i \<and> i < length xs then v else xs ! j)"
  by (cases "i < length xs") (simp_all add: nth_list_update list_update_beyond)

lemma map_update_same: "f v = f (xs ! i) \<Longrightarrow> map f (xs[i := v]) = map f xs"
  by (rule nth_equalityI) (auto simp: nth_update_if)

text \<open>Changes that keep the core of every flow and the links.\<close>

lemma tin_inv_cong:
  assumes inv: "tin_inv lens t nw od dc" and c: "tin_cores t' = tin_cores t" and d: "tin_dll t' nw od dc"
    and r: "tin_counts t' (length nw) (length od) (length dc)" and tags: "tags_ok (t_flow_tags t')"
  shows "tin_inv lens t' nw od dc"
proof -
  have l: "length (t_flows t') = length (t_flows t)" using c unfolding tin_cores_def by (metis length_map)
  have "flow_core (t_flows t' ! k) = flow_core (t_flows t ! k)" if "k < length (t_flows t)" for k
    using c that l unfolding tin_cores_def by (metis nth_map)
  note at = this
  have st: "f_state (t_flows t' ! unat i) = f_state (t_flows t ! unat i)" if "flow_valid (t_flows t) i" for i
    by (rule flow_core_eq(5) [OF at]) (use that in \<open>simp add: flow_valid_def\<close>)
  have "flow_valid (t_flows t') = flow_valid (t_flows t)" by (simp add: flow_valid_def l fun_eq_iff)
  then have "tin_marks t' nw od dc"
    using inv unfolding tin_inv_def tin_marks_def by (simp add: st)
  moreover have "flow_ok lens f" if "f \<in> set (t_flows t')" for f
  proof -
    from that obtain k where k: "k < length (t_flows t)" "f = t_flows t' ! k" by (auto simp: in_set_conv_nth l)
    with flow_ok_core [OF at [OF k(1)]] inv show ?thesis by (simp add: tin_inv_def)
  qed
  ultimately show ?thesis using d r tags by (simp add: tin_inv_def)
qed

lemma dll_slot:
  assumes d: "tin_dll t nw od dc"
    and f: "t_flows t' = (t_flows t)[unat i := g]" and g: "f_next g = f_next (t_flows t ! unat i)" "f_prev g = f_prev (t_flows t ! unat i)"
    and h: "t_new_head t' = t_new_head t" "t_new_tail t' = t_new_tail t" "t_old_head t' = t_old_head t"
      "t_old_tail t' = t_old_tail t" "t_decaying_head t' = t_decaying_head t" "t_decaying_tail t' = t_decaying_tail t"
  shows "tin_dll t' nw od dc"
proof (rule tin_dll_cong [OF d _ _ h])
  fix x :: u32
  show "f_next (t_flows t' ! unat x) = f_next (t_flows t ! unat x) \<and> f_prev (t_flows t' ! unat x) = f_prev (t_flows t ! unat x)"
    using g by (simp add: f nth_update_if)
qed (simp add: f)

lemma cores_slot: "t_flows t' = (t_flows t)[unat i := g] \<Longrightarrow> tin_cores t' = (tin_cores t)[unat i := flow_core g]"
  by (simp add: tin_cores_def map_update)

lemma cores_same_slot:
  assumes "t_flows t' = (t_flows t)[unat i := g]" and "flow_core g = flow_core (t_flows t ! unat i)"
  shows "tin_cores t' = tin_cores t"
  unfolding tin_cores_def assms(1) using assms(2) by (rule map_update_same)

text \<open>Reclaiming an empty flow.\<close>

lemma reclaim_tin:
  assumes inv: "tin_inv lens tin nw od dc" and v: "flow_valid (t_flows tin) i"
    and s: "s = f_state (t_flows tin ! unat i)" "s \<noteq> FLOW_NONE" and e: "cake_flow_queue_len (t_flows tin ! unat i) = 0"
    and rc: "cake_flow_reclaim tin cs i (unlink_flow s) now = (tin', freed)"
  shows "tin_inv lens tin' (remove1 i nw) (remove1 i od) (remove1 i dc)"
    and "tin_backlog tin' = tin_backlog tin" "tin_queued tin' = tin_queued tin" "tin_bufs tin' = tin_bufs tin"
    and "freed = []" and "t_flows tin' ! unat i = flow_clean"
proof -
  let ?f = "t_flows tin ! unat i"
  let ?g = "cobalt_queue_empty ?f (cs_target_us cs) (cs_p_dec cs) (cs_interval_us cs) now"
  define t1 where "t1 = tin\<lparr>t_flows := flow_upd i (\<lambda>f. cobalt_queue_empty f (cs_target_us cs) (cs_p_dec cs)
    (cs_interval_us cs) now) (t_flows tin)\<rparr>"
  define t2 where "t2 = unlink_flow s i t1"
  have vi: "unat i < length (t_flows tin)" using v by (simp add: flow_valid_def)
  have f1: "t_flows t1 = (t_flows tin)[unat i := ?g]" by (simp add: t1_def flow_upd_def)
  have dll1: "tin_dll t1 nw od dc" by (rule dll_slot [OF tin_invD(1) [OF inv] f1]) (simp_all add: t1_def)
  from unlink_dll [OF inv v this s(1)]
  have dll: "tin_dll t2 (remove1 i nw) (remove1 i od) (remove1 i dc)" by (simp add: t2_def)
  have cores2: "tin_cores t2 = tin_cores tin"
    by (simp add: t2_def cores_same_slot [OF f1])
  have rest: "tin_rest t2 = tin_rest tin" by (simp add: t2_def) (simp add: t1_def tin_rest_def)
  have at2: "flow_core (t_flows t2 ! unat i) = flow_core ?f"
  proof -
    have "unat i < length (t_flows t2)" using dll vi tin_invD(4) [OF inv] by (simp add: tin_dll_def)
    then show ?thesis using cores2 vi unfolding tin_cores_def by (metis nth_map)
  qed
  note ce = flow_core_eq [OF at2]
  have q: "flow_queue ?f = []" by (rule flow_queue_empty [OF e])
  have b: "f_backlog ?f = 0" using flow_okD(3) [OF tin_inv_at(1) [OF inv v]] q by (simp add: lens_sum_def)
  obtain f' fr where rf: "cake_flow_ring_free (t_flows t2 ! unat i) = (f', fr)" by fastforce
  have fr: "fr = []" "f_state f' = s" using rf ce q s(1) by (auto simp: ring_free split: if_splits)
  have res: "freed = fr" "tin' = t2\<lparr>
      t_sparse_count := (if s = FLOW_SPARSE then t_sparse_count t2 - 1 else t_sparse_count t2),
      t_bulk_count := (if s = FLOW_BULK then t_bulk_count t2 - 1 else t_bulk_count t2),
      t_hosts := (if s = FLOW_BULK then host_bulk_dec (f_dst_host f') (t_hosts t2) else t_hosts t2),
      t_flow_tags := (t_flow_tags t2)[unat i := 0],
      t_flows := (t_flows t2)[unat i := flow_clean],
      t_flow_count := t_flow_count t2 - 1\<rparr>"
    using rc [symmetric] fr(2) s(2) unfolding cake_flow_reclaim_def Let_def t1_def [symmetric] t2_def [symmetric] rf prod.case
    by (cases s; simp)+
  have n: "tin_counts tin' (length (remove1 i nw)) (length (remove1 i od)) (length (remove1 i dc))"
    by (rule counts_cleared [OF inv v s(1)]) (use res rest s(2) in \<open>simp_all add: tin_rest_def\<close>)
  have tags: "t_flow_tags tin' = (t_flow_tags tin)[unat i := 0]" using res(2) rest by (simp add: tin_rest_def)
  have tok: "tags_ok (t_flow_tags tin')"
    using tin_invD(3) [OF inv] unfolding tags tags_ok_def by (auto simp: nth_update_if)
  have c': "tin_cores t2 = (tin_cores tin)[unat i := flow_core ?f]"
    by (subst cores2) (simp only: tin_cores_def map_update [symmetric] list_update_id)
  have R: "t_flows tin' = (t_flows t2)[unat i := flow_clean]"
    "t_new_head tin' = t_new_head t2" "t_new_tail tin' = t_new_tail t2" "t_old_head tin' = t_old_head t2"
    "t_old_tail tin' = t_old_tail t2" "t_decaying_head tin' = t_decaying_head t2" "t_decaying_tail tin' = t_decaying_tail t2"
    unfolding res(2) by simp_all
  note C = clear_slot [OF inv v dll c' R n tok]
  show "tin_inv lens tin' (remove1 i nw) (remove1 i od) (remove1 i dc)" "t_flows tin' ! unat i = flow_clean"
    by (fact C)+
  show "tin_backlog tin' = tin_backlog tin" using C(2) b by simp
  show "tin_queued tin' = tin_queued tin" using C(3) e by simp
  show "tin_bufs tin' = tin_bufs tin" using C(4) q by simp
  show "freed = []" using res(1) fr(1) by simp
qed

text \<open>A slot claimed by a tag.\<close>

lemma tags_claim:
  assumes "tags_ok tags" and "k < CAKE_QUEUES" and "tag \<noteq> 0"
    and "k div CAKE_SET_WAYS = unat tag mod CAKE_SET_COUNT" and "\<And>j. j < CAKE_QUEUES \<Longrightarrow> tags ! j \<noteq> tag"
  shows "tags_ok (tags[k := tag])"
  unfolding tags_ok_def
proof (intro conjI allI impI)
  have l: "length tags = CAKE_QUEUES" using assms(1) by (simp add: tags_ok_def)
  then show "length (tags[k := tag]) = CAKE_QUEUES" by simp
  fix i
  assume i: "i < CAKE_QUEUES" "tags[k := tag] ! i \<noteq> 0"
  show "i div CAKE_SET_WAYS = unat (tags[k := tag] ! i) mod CAKE_SET_COUNT"
    using assms(1,2,4) i l by (auto simp: tags_ok_def nth_update_if)
  fix j
  assume j: "j < CAKE_QUEUES" "tags[k := tag] ! j = tags[k := tag] ! i"
  show "j = i"
    using assms(1,2) assms(5) [OF i(1)] assms(5) [OF j(1)] i j l by (auto simp: tags_ok_def nth_update_if split: if_splits)
qed

text \<open>A new sparse flow, its queue empty.\<close>

lemma new_flow_tin:
  assumes inv: "tin_inv lens tin nw od dc" and v: "flow_valid (t_flows tin) i"
    and s: "f_state (t_flows tin ! unat i) = FLOW_NONE" and mem: "length mem = CAKE_FLOW_RING_SIZE"
    and g: "f_state g = FLOW_SPARSE" "f_ring g = mem" "f_head g = 0" "f_tail g = 0" "f_backlog g = f_backlog (t_flows tin ! unat i)"
    and t': "tin' = (new_prepend i (tin\<lparr>t_hosts := hosts, t_flows := (t_flows tin)[unat i := g]\<rparr>))
      \<lparr>t_flow_count := t_flow_count tin + 1, t_sparse_count := t_sparse_count tin + 1\<rparr>"
  shows "tin_inv lens tin' (i # nw) od dc" and "tin_backlog tin' = tin_backlog tin" "tin_queued tin' = tin_queued tin"
    "tin_bufs tin' = tin_bufs tin" and "flow_core (t_flows tin' ! unat i) = flow_core g" "t_flow_tags tin' = t_flow_tags tin"
proof -
  let ?f = "t_flows tin ! unat i" and ?t1 = "tin\<lparr>t_hosts := hosts, t_flows := (t_flows tin)[unat i := g]\<rparr>"
  have vi: "unat i < length (t_flows tin)" using v by (simp add: flow_valid_def)
  note ok = tin_inv_at(1) [OF inv v]
  note fok = flow_okD [OF ok]
  have q: "cake_flow_queue_len ?f = 0" "flow_queue ?f = []" "f_backlog ?f = 0"
    using fok(5) [OF s] flow_queue_empty [of ?f] fok(3) by (simp_all add: lens_sum_def)
  have qg: "cake_flow_queue_len g = 0" "flow_queue g = []" "f_backlog g = 0"
    using q g by (simp_all add: cake_flow_queue_len_def flow_queue_def)
  have gok: "flow_ok lens g" using g mem qg by (simp add: flow_ok_def lens_sum_def)
  have i: "i \<notin> set (nw @ od @ dc)" using tin_inv_at(2-4) [OF inv v] s by simp
  have "tin_dll ?t1 nw od dc"
  proof (rule tin_dll_cong [OF tin_invD(1) [OF inv]])
    fix x
    assume "x \<in> set (nw @ od @ dc)"
    with i have "unat x \<noteq> unat i" by (metis word_unat_eq_iff)
    then show "f_next (t_flows ?t1 ! unat x) = f_next (t_flows tin ! unat x) \<and>
        f_prev (t_flows ?t1 ! unat x) = f_prev (t_flows tin ! unat x)" by simp
  qed simp_all
  from dll_new_prepend [OF this _ i] v have "tin_dll (new_prepend i ?t1) (i # nw) od dc" by (simp add: flow_valid_def)
  then have dll: "tin_dll tin' (i # nw) od dc" by (rule tin_dll_cong) (simp_all add: t')
  have "tin_cores tin' = tin_cores (new_prepend i ?t1)" by (simp add: t' tin_cores_def)
  also have "\<dots> = tin_cores ?t1" by (rule tin_list_cores)
  also have "\<dots> = (tin_cores tin)[unat i := flow_core g]" by (simp add: tin_cores_def map_update)
  finally have cores: "tin_cores tin' = (tin_cores tin)[unat i := flow_core g]" .
  show "tin_inv lens tin' (i # nw) od dc"
    by (rule tin_inv_change [OF inv v cores gok dll])
      (use i g tin_invD(2,3) [OF inv] in \<open>auto simp: t' tin_counts_def algebra_simps\<close>)
  show "tin_backlog tin' = tin_backlog tin" "tin_queued tin' = tin_queued tin" "tin_bufs tin' = tin_bufs tin"
    using sums_slot [OF cores v] q qg by simp_all
  show "flow_core (t_flows tin' ! unat i) = flow_core g" using cores_at(2) [OF cores v vi] by simp
  show "t_flow_tags tin' = t_flow_tags tin" by (simp add: t')
qed

end
