(* ===== verification/Cake_Queue.thy ===== *)
theory Cake_Queue
  imports Cake_Sched Cake_Tin
begin

text \<open>
  The data path keeps the invariant of every tin, the accounts of every aggregate and every buffer:
  what enqueue, the AQM, the gates and the dispatch do to them, up to whole frames and whole dispatches.
\<close>

section \<open>Moves between the lists\<close>

lemma valid_list_op [simp]:
  "flow_valid (t_flows (new_remove i t)) = flow_valid (t_flows t)"
  "flow_valid (t_flows (old_remove i t)) = flow_valid (t_flows t)"
  "flow_valid (t_flows (decaying_remove i t)) = flow_valid (t_flows t)"
  using length_bodies [OF tin_list_bodies(2)] length_bodies [OF tin_list_bodies(4)] length_bodies [OF tin_list_bodies(6)]
  by (simp_all add: flow_valid_def fun_eq_iff)

lemma dll_member: "tin_dll t nw od dc \<Longrightarrow> i \<in> set (nw @ od @ dc) \<Longrightarrow> flow_valid (t_flows t) i"
  by (auto simp: tin_dll_def fl.is_list_def)

lemma dll_sparse_bulk:
  assumes "tin_dll t nw od dc" and "i \<in> set nw"
  shows "tin_dll (old_append i (new_remove i t)) (remove1 i nw) (od @ [i]) dc"
  by (rule dll_old_append [OF dll_new_remove [OF assms]])
    (use assms dll_member [OF assms(1), of i] in \<open>auto simp: tin_dll_def\<close>)

lemma dll_decaying_bulk:
  assumes "tin_dll t nw od dc" and "i \<in> set dc"
  shows "tin_dll (old_append i (decaying_remove i t)) nw (od @ [i]) (remove1 i dc)"
  by (rule dll_old_append [OF dll_decaying_remove [OF assms]])
    (use assms dll_member [OF assms(1), of i] in \<open>auto simp: tin_dll_def\<close>)

lemma dll_bulk_decaying:
  assumes "tin_dll t nw od dc" and "i \<in> set od"
  shows "tin_dll (decaying_append i (old_remove i t)) nw (remove1 i od) (dc @ [i])"
  by (rule dll_decaying_append [OF dll_old_remove [OF assms]])
    (use assms dll_member [OF assms(1), of i] in \<open>auto simp: tin_dll_def\<close>)

lemma dll_bulk_rotate:
  assumes "tin_dll t nw od dc" and "i \<in> set od"
  shows "tin_dll (old_append i (old_remove i t)) nw (remove1 i od @ [i]) dc"
  by (rule dll_old_append [OF dll_old_remove [OF assms]])
    (use assms dll_member [OF assms(1), of i] in \<open>auto simp: tin_dll_def\<close>)

section \<open>Storing a packet\<close>

definition tin_add :: "(u32 \<Rightarrow> u32) \<Rightarrow> u32 \<Rightarrow> cake_tin \<Rightarrow> cake_tin \<Rightarrow> bool" where
  "tin_add lens bi t t' \<longleftrightarrow> tin_backlog t' = tin_backlog t + lens bi \<and> tin_queued t' = tin_queued t + 1 \<and>
     tin_bufs t' = add_mset bi (tin_bufs t) \<and> t_flow_tags t' = t_flow_tags t"

lemma flow_push_facts:
  assumes ok: "flow_ok lens f" and n: "unat (cake_flow_queue_len f) < CAKE_FLOW_RING_SIZE" and s: "f_state f \<noteq> FLOW_NONE"
  shows "flow_queue (flow_push bi (lens bi) f) = flow_queue f @ [bi]"
    "unat (cake_flow_queue_len (flow_push bi (lens bi) f)) = Suc (unat (cake_flow_queue_len f))"
    "cake_flow_queue_len (flow_push bi (lens bi) f) = cake_flow_queue_len f + 1"
    "f_backlog (flow_push bi (lens bi) f) = f_backlog f + lens bi"
    "s \<noteq> FLOW_NONE \<Longrightarrow> (s = FLOW_SPARSE \<Longrightarrow> cake_flow_queue_len f = 0) \<Longrightarrow> s \<noteq> FLOW_DECAYING \<Longrightarrow>
      flow_ok lens ((flow_push bi (lens bi) f)\<lparr>f_state := s\<rparr>)"
proof -
  let ?g = "flow_push bi (lens bi) f"
  note q = flow_queue_push [of f ?g bi]
  have l: "length (f_ring f) = 128" by (rule flow_okD(2) [OF ok s])
  show 1: "flow_queue ?g = flow_queue f @ [bi]" "unat (cake_flow_queue_len ?g) = Suc (unat (cake_flow_queue_len f))"
    using q l n by (simp_all add: flow_push_def CAKE_FLOW_RING_SIZE_def)
  show "cake_flow_queue_len ?g = cake_flow_queue_len f + 1" by (simp add: flow_push_def cake_flow_queue_len_def)
  show "f_backlog ?g = f_backlog f + lens bi" by (simp add: flow_push_def)
  assume s': "s \<noteq> FLOW_NONE" "s = FLOW_SPARSE \<Longrightarrow> cake_flow_queue_len f = 0" "s \<noteq> FLOW_DECAYING"
  have "flow_queue (?g\<lparr>f_state := s\<rparr>) = flow_queue ?g" "cake_flow_queue_len (?g\<lparr>f_state := s\<rparr>) = cake_flow_queue_len ?g"
    by (simp_all add: flow_queue_def cake_flow_queue_len_def)
  then show "flow_ok lens (?g\<lparr>f_state := s\<rparr>)"
    using s' 1 l n flow_okD(3) [OF ok]
    by (auto simp: flow_ok_def flow_push_def lens_sum_def CAKE_FLOW_RING_SIZE_def)
qed

lemma state_self: "f_state f = s \<Longrightarrow> f\<lparr>f_state := s\<rparr> = f"
  by simp

lemma store_tin:
  assumes inv: "tin_inv lens tin nw od dc" and v: "flow_valid (t_flows tin) i"
    and s: "f_state (t_flows tin ! unat i) \<noteq> FLOW_NONE"
    and n: "unat (cake_flow_queue_len (t_flows tin ! unat i)) < CAKE_FLOW_RING_SIZE"
    and t1: "tin1 = tin\<lparr>t_flows := flow_upd i (flow_push bi (lens bi)) (t_flows tin), t_packets := p, t_bytes := b\<rparr>"
  shows "tin_ok lens (enqueue_promote i tin1)" "tin_add lens bi tin (enqueue_promote i tin1)"
    "f_state (t_flows (enqueue_promote i tin1) ! unat i) \<noteq> FLOW_NONE"
proof -
  let ?f = "t_flows tin ! unat i"
  let ?g = "flow_push bi (lens bi) ?f"
  have vi: "unat i < length (t_flows tin)" using v by (simp add: flow_valid_def)
  note ok = tin_inv_at(1) [OF inv v] and mem = tin_inv_at(2-4) [OF inv v] and D = tin_invD [OF inv]
  note P = flow_push_facts [OF ok n s, where bi = bi]
  have f1: "t_flows tin1 = (t_flows tin)[unat i := ?g]" by (simp add: t1 flow_upd_def)
  have g1: "t_flows tin1 ! unat i = ?g" using vi by (simp add: f1)
  have rest1: "tin_rest tin1 = tin_rest tin" by (simp add: t1 tin_rest_def)
  have links: "f_next ?g = f_next ?f" "f_prev ?g = f_prev ?f" "f_state ?g = f_state ?f" by (simp_all add: flow_push_def)
  define tb where "tb = tin1\<lparr>t_flows := flow_upd i (\<lambda>f. f\<lparr>f_state := FLOW_BULK\<rparr>) (t_flows tin1)\<rparr>"
  have fb: "t_flows tb = (t_flows tin)[unat i := ?g\<lparr>f_state := FLOW_BULK\<rparr>]"
    using vi by (simp add: tb_def flow_upd_def g1) (simp add: f1)
  have dll1: "tin_dll tin1 nw od dc"
    by (rule dll_slot [OF D(1) f1]) (simp_all add: links t1)
  have dllb: "tin_dll tb nw od dc"
    by (rule dll_slot [OF D(1) fb]) (simp_all add: links tb_def t1)
  have cb: "tin_cores tb = (tin_cores tin)[unat i := flow_core (?g\<lparr>f_state := FLOW_BULK\<rparr>)]" by (rule cores_slot [OF fb])
  have restb: "tin_rest tb = tin_rest tin" using rest1 by (simp add: tb_def tin_rest_def)
  have add: "tin_add lens bi tin t'"
    if "tin_cores t' = (tin_cores tin)[unat i := flow_core (?g\<lparr>f_state := st\<rparr>)]" "t_flow_tags t' = t_flow_tags tin" for t' st
  proof -
    have "flow_queue (?g\<lparr>f_state := st\<rparr>) = flow_queue ?g" "cake_flow_queue_len (?g\<lparr>f_state := st\<rparr>) = cake_flow_queue_len ?g"
      by (simp_all add: flow_queue_def cake_flow_queue_len_def)
    with sums_slot [OF that(1) v] P that(2) show ?thesis by (simp add: tin_add_def)
  qed
  have st_at: "f_state (t_flows t' ! unat i) = st"
    if "tin_cores t' = (tin_cores tin)[unat i := flow_core (?g\<lparr>f_state := st\<rparr>)]" for t' st
    using cores_at(2) [OF that v vi] by (simp add: flow_core_def)
  let ?t' = "enqueue_promote i tin1"
  consider (up) "f_state ?f = FLOW_SPARSE" "cake_flow_queue_len ?g > 1" | (back') "f_state ?f = FLOW_DECAYING"
    | (stay) "f_state ?f = FLOW_BULK \<or> f_state ?f = FLOW_SPARSE \<and> \<not> cake_flow_queue_len ?g > 1"
    using s by (cases "f_state ?f") auto
  then have "tin_ok lens ?t' \<and> (\<exists>st. st \<noteq> FLOW_NONE \<and>
      tin_cores ?t' = (tin_cores tin)[unat i := flow_core (?g\<lparr>f_state := st\<rparr>)]) \<and> t_flow_tags ?t' = t_flow_tags tin"
  proof cases
    case up
    define t2 where "t2 = old_append i (new_remove i tb)"
    have t': "?t' = t2\<lparr>t_sparse_count := t_sparse_count t2 - 1, t_bulk_count := t_bulk_count t2 + 1,
        t_hosts := host_bulk_inc (f_dst_host ?g) (t_hosts t2)\<rparr>"
      using up by (simp add: enqueue_promote_def g1 links t2_def tb_def)
    have m: "i \<in> set nw" "i \<notin> set od" "i \<notin> set dc" using up mem by auto
    have "tin_dll t2 (remove1 i nw) (od @ [i]) dc" unfolding t2_def by (rule dll_sparse_bulk [OF dllb m(1)])
    then have dll: "tin_dll ?t' (remove1 i nw) (od @ [i]) dc" by (rule tin_dll_cong) (simp_all add: t')
    have c: "tin_cores ?t' = (tin_cores tin)[unat i := flow_core (?g\<lparr>f_state := FLOW_BULK\<rparr>)]"
      using cb by (simp add: t' t2_def tin_cores_def [of "_\<lparr>t_hosts := _\<rparr>"] flip: tin_cores_def)
    have r: "tin_rest t2 = tin_rest tin" by (simp add: t2_def restb)
    have "tin_inv lens ?t' (remove1 i nw) (od @ [i]) dc"
      by (rule tin_inv_change [OF inv v c _ dll])
        (use P(5) m D r counts_remove [OF m(1)] in \<open>auto simp: t' tin_rest_def tin_counts_def set_remove1_eq\<close>)
    with c r show ?thesis by (auto simp: tin_ok_def t' tin_rest_def)
  next
    case back'
    define t2 where "t2 = old_append i (decaying_remove i tb)"
    have t': "?t' = t2\<lparr>t_bulk_count := t_bulk_count t2 + 1, t_hosts := host_bulk_inc (f_dst_host ?g) (t_hosts t2)\<rparr>"
      using back' by (simp add: enqueue_promote_def g1 links t2_def tb_def)
    have m: "i \<in> set dc" "i \<notin> set od" "i \<notin> set nw" using back' mem by auto
    have "tin_dll t2 nw (od @ [i]) (remove1 i dc)" unfolding t2_def by (rule dll_decaying_bulk [OF dllb m(1)])
    then have dll: "tin_dll ?t' nw (od @ [i]) (remove1 i dc)" by (rule tin_dll_cong) (simp_all add: t')
    have c: "tin_cores ?t' = (tin_cores tin)[unat i := flow_core (?g\<lparr>f_state := FLOW_BULK\<rparr>)]"
      using cb by (simp add: t' t2_def tin_cores_def [of "_\<lparr>t_hosts := _\<rparr>"] flip: tin_cores_def)
    have r: "tin_rest t2 = tin_rest tin" by (simp add: t2_def restb)
    have "tin_inv lens ?t' nw (od @ [i]) (remove1 i dc)"
      by (rule tin_inv_change [OF inv v c _ dll])
        (use P(5) m D r counts_remove [OF m(1)] in \<open>auto simp: t' tin_rest_def tin_counts_def set_remove1_eq\<close>)
    with c r show ?thesis by (auto simp: tin_ok_def t' tin_rest_def)
  next
    case stay
    have t': "?t' = tin1" using stay by (auto simp: enqueue_promote_def g1 links)
    have c: "tin_cores ?t' = (tin_cores tin)[unat i := flow_core (?g\<lparr>f_state := f_state ?f\<rparr>)]"
      using cores_slot [OF f1] by (simp add: t' flow_core_def links)
    have len: "f_state ?f = FLOW_SPARSE \<Longrightarrow> cake_flow_queue_len ?f = 0"
      using stay P(2) by (auto simp: word_less_nat_alt unat_eq_0 [symmetric])
    have "flow_ok lens (?g\<lparr>f_state := f_state ?f\<rparr>)" by (rule P(5)) (use stay len in auto)
    then have "tin_inv lens ?t' nw od dc"
      by (rule tin_inv_change [OF inv v c]) (use dll1 mem D rest1 in \<open>auto simp: t' tin_rest_def tin_counts_def\<close>)
    with c s rest1 show ?thesis by (auto simp: tin_ok_def t' tin_rest_def)
  qed
  with add st_at show "tin_ok lens ?t'" "tin_add lens bi tin ?t'" "f_state (t_flows ?t' ! unat i) \<noteq> FLOW_NONE" by metis+
qed

section \<open>The set-associative lookup\<close>

lemma set_slots:
  "i \<in> set (set_slots (cake_flow_set_base tag)) \<longleftrightarrow>
     unat i < CAKE_QUEUES \<and> unat i div CAKE_SET_WAYS = unat tag mod CAKE_SET_COUNT"
proof -
  define m where "m = unat tag mod CAKE_SET_COUNT"
  have m: "m < 128" by (simp add: m_def CAKE_SET_COUNT_def CAKE_QUEUES_def CAKE_SET_WAYS_def)
  define B where "B = (word_of_nat (m * 8) :: u32)"
  have u: "unat (B + word_of_nat k) = m * 8 + k" if "k < 8" for k
  proof -
    have "m * 8 + k < 2 ^ 32" using m that by simp
    then have "unat (word_of_nat (m * 8 + k) :: u32) = m * 8 + k" unfolding unat_of_nat by simp
    then show ?thesis by (simp only: of_nat_add B_def)
  qed
  have base: "cake_flow_set_base tag = B"
    by (simp add: cake_flow_set_base_def m_def CAKE_SET_WAYS_def B_def)
  have "i \<in> set (set_slots (cake_flow_set_base tag)) \<longleftrightarrow> (\<exists>k<8. i = B + word_of_nat k)"
    by (auto simp: set_slots_def base CAKE_SET_WAYS_def)
  also have "\<dots> \<longleftrightarrow> (\<exists>k<8. unat i = m * 8 + k)"
    using u by (auto simp: word_unat_eq_iff)
  also have "\<dots> \<longleftrightarrow> unat i div 8 = m"
  proof
    assume "unat i div 8 = m"
    then have "unat i = m * 8 + unat i mod 8" "unat i mod 8 < 8" by (metis div_mult_mod_eq, simp)
    then show "\<exists>k<8. unat i = m * 8 + k" by blast
  qed auto
  also have "\<dots> \<longleftrightarrow> unat i < 1024 \<and> unat i div 8 = m" using m by (auto simp: less_mult_imp_div_less)
  finally show ?thesis by (simp add: m_def CAKE_SET_WAYS_def CAKE_QUEUES_def)
qed

text \<open>The scan of a list of slots.\<close>

definition slot_backlog :: "cake_tin \<Rightarrow> u32 \<Rightarrow> u32" where
  "slot_backlog t i = f_backlog (t_flows t ! unat i)"

lemma scan_found:
  "cake_flow_scan tin tag slots e ev eb = (Some i, e', ev') \<Longrightarrow> i \<in> set slots \<and> t_flow_tags tin ! unat i = tag"
  by (induction slots arbitrary: e ev eb) (auto simp: Let_def split: if_splits)

lemma scan_missed:
  "cake_flow_scan tin tag slots e ev eb = (None, e', ev') \<Longrightarrow> nil32 \<notin> set slots \<Longrightarrow>
    (\<forall>i \<in> set slots. t_flow_tags tin ! unat i \<noteq> tag) \<and>
    (e \<noteq> nil32 \<longrightarrow> e' = e) \<and> (e = nil32 \<longrightarrow> e' \<noteq> nil32 \<longrightarrow> e' \<in> set slots \<and> t_flow_tags tin ! unat e' = 0) \<and>
    (e' = nil32 \<longrightarrow> (\<forall>i \<in> set slots. t_flow_tags tin ! unat i \<noteq> 0) \<and>
       (ev' = ev \<and> (\<forall>i \<in> set slots. eb \<le> slot_backlog tin i) \<or>
        ev' \<in> set slots \<and> slot_backlog tin ev' < eb \<and> (\<forall>i \<in> set slots. slot_backlog tin ev' \<le> slot_backlog tin i)))"
proof (induction slots arbitrary: e ev eb)
  case (Cons s slots)
  let ?t = "t_flow_tags tin ! unat s"
  have ne: "?t \<noteq> tag" using Cons.prems(1) by (auto split: if_splits)
  define e1 where "e1 = (if ?t = 0 \<and> e = nil32 then s else e)"
  define b where "b \<longleftrightarrow> ?t \<noteq> 0 \<and> e1 = nil32 \<and> slot_backlog tin s < eb"
  have "cake_flow_scan tin tag slots e1 (if b then s else ev) (if b then slot_backlog tin s else eb) = (None, e', ev')"
    using Cons.prems(1) unfolding cake_flow_scan.simps Let_def if_not_P [OF ne] e1_def b_def slot_backlog_def .
  from Cons.IH [OF this] Cons.prems(2) have IH: "\<forall>i \<in> set slots. t_flow_tags tin ! unat i \<noteq> tag"
    "e1 \<noteq> nil32 \<Longrightarrow> e' = e1" "e1 = nil32 \<Longrightarrow> e' \<noteq> nil32 \<Longrightarrow> e' \<in> set slots \<and> t_flow_tags tin ! unat e' = 0"
    "e' = nil32 \<Longrightarrow> (\<forall>i \<in> set slots. t_flow_tags tin ! unat i \<noteq> 0) \<and>
       (ev' = (if b then s else ev) \<and> (\<forall>i \<in> set slots. (if b then slot_backlog tin s else eb) \<le> slot_backlog tin i) \<or>
        ev' \<in> set slots \<and> slot_backlog tin ev' < (if b then slot_backlog tin s else eb) \<and>
        (\<forall>i \<in> set slots. slot_backlog tin ev' \<le> slot_backlog tin i))"
    by auto
  have sn: "s \<noteq> nil32" using Cons.prems(2) by auto
  have 1: "e \<noteq> nil32 \<longrightarrow> e' = e" using IH(2) by (auto simp: e1_def)
  have 2: "e' \<in> set (s # slots) \<and> t_flow_tags tin ! unat e' = 0" if "e = nil32" "e' \<noteq> nil32"
    using IH(2,3) that sn by (cases "?t = 0") (auto simp: e1_def)
  have 3: "(\<forall>i \<in> set (s # slots). t_flow_tags tin ! unat i \<noteq> 0) \<and>
       (ev' = ev \<and> (\<forall>i \<in> set (s # slots). eb \<le> slot_backlog tin i) \<or>
        ev' \<in> set (s # slots) \<and> slot_backlog tin ev' < eb \<and>
        (\<forall>i \<in> set (s # slots). slot_backlog tin ev' \<le> slot_backlog tin i))" if e': "e' = nil32"
  proof -
    have e1: "e1 = nil32" using IH(2) e' by auto
    then have t: "?t \<noteq> 0" using sn by (auto simp: e1_def split: if_splits)
    show ?thesis
    proof (cases b)
      case True
      then have lt: "slot_backlog tin s < eb" by (simp add: b_def)
      with IH(4) [OF e'] True t show ?thesis by (auto intro: less_trans less_imp_le)
    next
      case False
      then have "eb \<le> slot_backlog tin s" using t e1 by (simp add: b_def not_less)
      with IH(4) [OF e'] False t show ?thesis by (auto intro: less_imp_le less_le_trans)
    qed
  qed
  show ?case using 1 2 3 ne IH(1) by auto
qed simp

text \<open>Backlogs below \<open>2 ^ 32 - 1\<close>, which the length of any real buffer chain ensures.\<close>

definition lens_ok :: "(u32 \<Rightarrow> u32) \<Rightarrow> bool" where
  "lens_ok lens \<longleftrightarrow> (\<forall>bi. unat (lens bi) < 2 ^ 24)"

lemma lens_sum_bound:
  assumes "lens_ok lens" and "length q \<le> 128"
  shows "unat (lens_sum lens q) \<le> length q * 2 ^ 24"
  using assms(2)
proof (induction q)
  case (Cons x q)
  then have IH: "unat (lens_sum lens q) \<le> length q * 2 ^ 24" and l: "length q \<le> 127" by simp_all
  have x: "unat (lens x) < 2 ^ 24" using assms(1) by (simp add: lens_ok_def)
  have "unat (lens x + lens_sum lens q) = unat (lens x) + unat (lens_sum lens q)"
    by (rule unat_add_exact) (use IH l x in simp)
  then show ?case using IH x by (simp add: lens_sum_def)
qed (simp add: lens_sum_def)

lemma backlog_small:
  assumes "lens_ok lens" and "flow_ok lens f"
  shows "f_backlog f < nil32"
proof -
  have "length (flow_queue f) \<le> 128" using flow_okD(4) [OF assms(2)] by simp
  from lens_sum_bound [OF assms(1) this] this flow_okD(3) [OF assms(2)]
  have "unat (f_backlog f) \<le> 128 * 2 ^ 24" by (simp del: length_flow_queue)
  then show ?thesis by (simp add: word_less_nat_alt)
qed

lemma lookup_tin:
  assumes inv: "tin_inv lens tin nw od dc" and lens: "lens_ok lens" and tag: "tag \<noteq> 0"
    and l: "cake_flow_lookup tin tag (cake_flow_set_base tag) = (i, ev, tin')"
  shows "if i = nil32 then tin' = tin \<and> ev \<in> set (set_slots (cake_flow_set_base tag)) \<and>
      (\<forall>k < CAKE_QUEUES. t_flow_tags tin ! k \<noteq> tag) \<and>
      (\<forall>s \<in> set (set_slots (cake_flow_set_base tag)). t_flow_tags tin ! unat s \<noteq> 0 \<and> slot_backlog tin ev \<le> slot_backlog tin s)
    else i \<in> set (set_slots (cake_flow_set_base tag)) \<and> tin' = tin\<lparr>t_flow_tags := (t_flow_tags tin)[unat i := tag]\<rparr> \<and>
      t_flow_tags tin ! unat i \<in> {0, tag} \<and> tin_inv lens tin' nw od dc"
proof -
  let ?S = "set (set_slots (cake_flow_set_base tag))"
  have nn: "nil32 \<notin> ?S" by (simp add: set_slots CAKE_QUEUES_def)
  have tags: "tags_ok (t_flow_tags tin)" by (rule tin_invD(3) [OF inv])
  have nowhere: "t_flow_tags tin ! k \<noteq> tag" if "k < CAKE_QUEUES" "\<forall>s \<in> ?S. t_flow_tags tin ! unat s \<noteq> tag" for k
  proof
    assume t: "t_flow_tags tin ! k = tag"
    have k: "unat (word_of_nat k :: u32) = k" using that(1) by (simp add: unat_of_nat CAKE_QUEUES_def)
    have "k div CAKE_SET_WAYS = unat tag mod CAKE_SET_COUNT" using tags that(1) t tag by (auto simp: tags_ok_def)
    then have "word_of_nat k \<in> ?S" using that(1) by (simp only: set_slots k)
    with that(2) t k show False by auto
  qed
  obtain r e' ev' where sc: "cake_flow_scan tin tag (set_slots (cake_flow_set_base tag)) nil32 nil32 nil32 = (r, e', ev')"
    using prod_cases3 by blast
  show ?thesis
  proof (cases r)
    case (Some s)
    from scan_found [OF sc [unfolded Some]] have s: "s \<in> ?S" "t_flow_tags tin ! unat s = tag" by auto
    then have "(t_flow_tags tin)[unat s := tag] = t_flow_tags tin" by (metis list_update_id)
    moreover have "i = s" "tin' = tin" using l sc Some by (auto simp: cake_flow_lookup_def)
    ultimately show ?thesis using s nn inv by auto
  next
    case None
    note M = scan_missed [OF sc [unfolded None] nn]
    show ?thesis
    proof (cases "e' = nil32")
      case True
      then have i: "i = nil32" "ev = ev'" "tin' = tin" using l sc None by (auto simp: cake_flow_lookup_def)
      have v: "flow_valid (t_flows tin) s" if "s \<in> ?S" for s
        using that tin_invD(4) [OF inv] by (simp add: flow_valid_def set_slots)
      have bl: "slot_backlog tin s < nil32" if "s \<in> ?S" for s
        unfolding slot_backlog_def by (rule backlog_small [OF lens tin_inv_at(1) [OF inv v [OF that]]])
      have ne: "?S \<noteq> {}" by (simp add: set_slots_def CAKE_SET_WAYS_def)
      with M True bl have "ev' \<in> ?S \<and> (\<forall>s \<in> ?S. slot_backlog tin ev' \<le> slot_backlog tin s)"
        by (metis all_not_in_conv leD)
      with M True i nowhere show ?thesis by auto
    next
      case False
      then have i: "i = e'" "tin' = tin\<lparr>t_flow_tags := (t_flow_tags tin)[unat e' := tag]\<rparr>"
        using l sc None by (auto simp: cake_flow_lookup_def)
      have e: "e' \<in> ?S" "t_flow_tags tin ! unat e' = 0" using M False by auto
      have "tags_ok ((t_flow_tags tin)[unat e' := tag])"
        by (rule tags_claim [OF tags _ tag]) (use e M nowhere in \<open>auto simp: set_slots\<close>)
      then have "tin_inv lens tin' nw od dc"
        by (intro tin_inv_cong [OF inv]) (use i tin_invD(2) [OF inv] tin_dll_cong [OF tin_invD(1) [OF inv], of tin'] in
          \<open>simp_all add: tin_cores_def tin_counts_def\<close>)
      with e i False show ?thesis by auto
    qed
  qed
qed

section \<open>One scheduler's share of the accounts\<close>

text \<open>
  While an operation works on scheduler \<open>si\<close>, its current value is \<open>cs\<close>; the accounts are
  those of the pool with that value put back.
\<close>

definition focus_ok :: "cake_sched pool \<Rightarrow> u32 \<Rightarrow> cake_aggregate pool \<Rightarrow> cake_sched \<Rightarrow> bool" where
  "focus_ok scheds si aggs cs \<longleftrightarrow> pool_at scheds si \<noteq> None \<and>
     tree_ok aggs (pool_upd si (\<lambda>_. cs) scheds) \<and> accounts_ok aggs (pool_upd si (\<lambda>_. cs) scheds)"

text \<open>What no operation of the data path changes.\<close>

definition cs_cfg :: "cake_sched \<Rightarrow> u32 \<times> u32 \<times> u32 \<times> u8 \<times> u32 \<times> u64 \<times> u8 list \<times> u32 \<times> u64" where
  "cs_cfg cs = (cs_sw_if_index cs, cs_sched_index cs, cs_owner cs, cs_n_tins cs, cs_agg cs, cs_rate_scaled cs,
     cs_dscp_to_tin cs, cs_buffer_limit cs, drr_weight (cs_drr cs))"

definition sched_step ::
  "cake_sched pool \<Rightarrow> u32 \<Rightarrow> cake_aggregate pool \<Rightarrow> cake_sched \<Rightarrow> cake_aggregate pool \<Rightarrow> cake_sched \<Rightarrow> bool" where
  "sched_step scheds si aggs cs aggs' cs' \<longleftrightarrow>
     (focus_ok scheds si aggs cs \<longrightarrow> focus_ok scheds si aggs' cs' \<and> same_cfg aggs aggs' \<and> cs_cfg cs' = cs_cfg cs)"

lemma sched_step_refl [simp]: "sched_step scheds si aggs cs aggs cs"
  by (simp add: sched_step_def)

lemma sched_step_trans:
  "sched_step scheds si a c a' c' \<Longrightarrow> sched_step scheds si a' c' a'' c'' \<Longrightarrow> sched_step scheds si a c a'' c''"
  by (auto simp: sched_step_def intro: same_cfg_trans)

lemma sched_stepI:
  "(focus_ok scheds si aggs cs \<Longrightarrow> focus_ok scheds si aggs' cs' \<and> same_cfg aggs aggs' \<and> cs_cfg cs' = cs_cfg cs) \<Longrightarrow>
   sched_step scheds si aggs cs aggs' cs'"
  by (simp add: sched_step_def)

lemma focus_wf:
  assumes "focus_ok scheds si aggs cs"
  shows "aggs_wf aggs" "agg_ref aggs (cs_agg cs)" "pool_small aggs" "pool_small scheds" "pool_at scheds si \<noteq> None"
    "length aggs + length scheds < 2 ^ 32 - 1"
proof -
  from assms have at: "pool_at (pool_upd si (\<lambda>_. cs) scheds) si = Some cs" by (auto simp: focus_ok_def pool_at_upd)
  with assms show "aggs_wf aggs" "agg_ref aggs (cs_agg cs)" by (auto simp: focus_ok_def tree_ok_def)
  with assms show "pool_small aggs" "pool_small scheds" "pool_at scheds si \<noteq> None" "length aggs + length scheds < 2 ^ 32 - 1"
    by (auto simp: focus_ok_def tree_ok_def aggs_wf_small pool_small_def)
qed

lemma pool_upd_twice: "pool_upd i (\<lambda>_. y) (pool_upd i (\<lambda>_. x) p) = pool_upd i (\<lambda>_. y) p"
  by (simp add: pool_upd_comp o_def)

text \<open>The pool with the focused scheduler replaced: sums move by the difference.\<close>

lemma focus_sum:
  fixes F :: "cake_sched \<Rightarrow> 'b::ab_group_add"
  assumes "pool_at scheds si \<noteq> None"
  shows "pool_sum F (pool_upd si (\<lambda>_. cs') scheds) = pool_sum F (pool_upd si (\<lambda>_. cs) scheds) - F cs + F cs'"
proof -
  have "pool_at (pool_upd si (\<lambda>_. cs) scheds) si = Some cs" using assms by (auto simp: pool_at_upd)
  from pool_sum_change [OF this, of F "\<lambda>_. cs'"] show ?thesis by (simp add: pool_upd_twice)
qed

lemma focus_count:
  assumes "pool_at scheds si \<noteq> None"
  shows "pool_sum F (pool_upd si (\<lambda>_. cs') scheds) + F cs = pool_sum F (pool_upd si (\<lambda>_. cs) scheds) + (F cs' :: nat)"
proof -
  have "pool_at (pool_upd si (\<lambda>_. cs) scheds) si = Some cs" using assms by (auto simp: pool_at_upd)
  from pool_sum_upd [OF this, of F "\<lambda>_. cs'"] show ?thesis by (simp add: pool_upd_twice)
qed

lemma tree_ok_focus:
  assumes "tree_ok aggs (pool_upd si (\<lambda>_. cs) scheds)" and "same_shape aggs aggs'" and "cs_agg cs' = cs_agg cs"
  shows "tree_ok aggs' (pool_upd si (\<lambda>_. cs') scheds)"
proof -
  note t = tree_ok_shape [OF assms(2,1)]
  have old: "pool_at (pool_upd si (\<lambda>_. cs) scheds) j = Some s \<Longrightarrow> agg_ref aggs' (cs_agg s)" for j s
    using t by (simp add: tree_ok_def)
  have "agg_ref aggs' (cs_agg s)" if "pool_at (pool_upd si (\<lambda>_. cs') scheds) j = Some s" for j s
  proof (cases "j = si")
    case True
    with that have "s = cs'" "pool_at (pool_upd si (\<lambda>_. cs) scheds) j = Some cs" by (auto simp: pool_at_upd)
    with old show ?thesis using assms(3) by metis
  next
    case False
    with that have "pool_at (pool_upd si (\<lambda>_. cs) scheds) j = Some s" by (simp add: pool_at_upd)
    then show ?thesis by (rule old)
  qed
  with t show ?thesis by (simp add: tree_ok_def pool_small_def)
qed

text \<open>A charge of \<open>d\<close> along the chain and of \<open>d\<close> in the scheduler.\<close>

definition acct_moved :: "u32 set \<Rightarrow> u32 \<Rightarrow> cake_aggregate pool \<Rightarrow> cake_aggregate pool \<Rightarrow> bool" where
  "acct_moved A d aggs aggs' \<longleftrightarrow> (\<exists>mid. charged A d aggs mid \<and> same_accounts mid aggs')"

lemma same_accounts_refl [simp]: "same_accounts aggs aggs"
  by (simp add: same_accounts_def)

lemma charged_moved: "charged A d aggs aggs' \<Longrightarrow> acct_moved A d aggs aggs'"
  unfolding acct_moved_def by (rule exI [of _ aggs']) simp

lemma charged_zero: "charged A 0 aggs aggs"
proof -
  have "map_option (charge 0) x = x" for x by (cases x) (simp_all add: charge_def)
  then show ?thesis by (simp add: charged_def)
qed

lemma same_moved: "same_accounts aggs aggs' \<Longrightarrow> acct_moved A 0 aggs aggs'"
  unfolding acct_moved_def using charged_zero by blast

lemma charged_cfg: "charged A d aggs aggs' \<Longrightarrow> same_cfg aggs aggs'"
  by (auto simp: charged_def same_cfg_def option.map_comp intro!: option.map_cong)

lemma charged_weights:
  assumes "charged A d aggs aggs'" and "pool_small aggs"
  shows "weights_ok aggs' W N \<longleftrightarrow> weights_ok aggs W N"
proof -
  have l: "length aggs' = length aggs" using assms(1) by (simp add: charged_def)
  have *: "(case pool_at aggs' j of None \<Rightarrow> 0 | Some x \<Rightarrow> f x) = (case pool_at aggs j of None \<Rightarrow> 0 | Some x \<Rightarrow> f x)"
    if "\<And>x. f (charge d x) = f x" for f :: "cake_aggregate \<Rightarrow> 'b::comm_monoid_add" and j
    using that assms(1) by (auto simp: charged_def split: option.split)
  have 1: "pool_sum (sub_weight i) aggs' = pool_sum (sub_weight i) aggs" for i
    by (rule pool_sum_rel [OF assms(2) l *]) (simp add: sub_weight_def charge_def)
  have 2: "pool_sum (sub_count i) aggs' = pool_sum (sub_count i) aggs" for i
    by (rule pool_sum_rel [OF assms(2) l *]) (simp add: sub_count_def charge_def)
  show ?thesis
    using assms(1) unfolding weights_ok_def 1 2 charged_def by (auto simp: charge_def)
qed

lemma focus_moved:
  assumes f: "focus_ok scheds si aggs cs" and m: "acct_moved (agg_above aggs (cs_agg cs)) d aggs aggs'"
    and c: "cs_agg cs' = cs_agg cs" "cs_buffer_usage cs' = cs_buffer_usage cs + d"
      "drr_weight (cs_drr cs') = drr_weight (cs_drr cs)" "drr_active (cs_drr cs') = drr_active (cs_drr cs)"
  shows "focus_ok scheds si aggs' cs'"
proof -
  let ?S = "pool_upd si (\<lambda>_. cs) scheds" and ?S' = "pool_upd si (\<lambda>_. cs') scheds" and ?A = "agg_above aggs (cs_agg cs)"
  obtain mid where mid: "charged ?A d aggs mid" "same_accounts mid aggs'" using m by (auto simp: acct_moved_def)
  have live: "pool_at scheds si \<noteq> None" and tree: "tree_ok aggs ?S" and acc: "accounts_ok aggs ?S"
    using f by (simp_all add: focus_ok_def)
  note W = focus_wf [OF f]
  note shape = charged_shape [OF mid(1)]
  have smid: "pool_small mid" using mid(1) W(3) by (simp add: charged_def pool_small_def)
  have sw: "sched_weight i cs' = sched_weight i cs" "sched_count i cs' = sched_count i cs" for i
    using c by (simp_all add: sched_weight_def sched_count_def)
  have w: "pool_sum (sched_weight i) ?S' = pool_sum (sched_weight i) ?S"
    "pool_sum (sched_count i) ?S' = pool_sum (sched_count i) ?S" for i
    using focus_sum [OF live, of "sched_weight i" cs' cs] focus_count [OF live, of "sched_count i" cs' cs] sw by simp_all
  have above: "sched_charge mid = sched_charge aggs"
    using same_shape_facts(1) [OF shape] by (simp add: sched_charge_def fun_eq_iff)
  have u: "pool_sum (sched_charge aggs i) ?S' = pool_sum (sched_charge aggs i) ?S + (if i \<in> ?A then d else 0)" for i
    using focus_sum [OF live, of "sched_charge aggs i" cs' cs] c by (simp add: sched_charge_def)
  have uok: "usage_ok aggs (\<lambda>i. pool_sum (sched_charge aggs i) ?S)"
    and wok: "weights_ok aggs (\<lambda>i. pool_sum (sched_weight i) ?S) (\<lambda>i. pool_sum (sched_count i) ?S)"
    using acc by (simp_all add: accounts_ok_def)
  have "usage_ok mid (\<lambda>i. pool_sum (sched_charge mid i) ?S')"
    unfolding usage_ok_def above u
  proof (intro allI impI)
    fix i b
    assume b: "pool_at mid i = Some b"
    then show "ag_buffer_usage b = pool_sum (sched_charge aggs i) ?S + (if i \<in> ?A then d else 0)"
      using mid(1) uok by (auto simp: charged_def usage_ok_def charge_def split: if_splits)
  qed
  moreover have "weights_ok mid (\<lambda>i. pool_sum (sched_weight i) ?S') (\<lambda>i. pool_sum (sched_count i) ?S')"
    unfolding w charged_weights [OF mid(1) W(3)] by (rule wok)
  ultimately have "accounts_ok mid ?S'" by (simp add: accounts_ok_def)
  then have "accounts_ok aggs' ?S'" by (rule accounts_ok_same [OF smid mid(2)])
  moreover have "same_shape aggs aggs'" by (rule same_shape_trans [OF shape same_accounts_shape [OF mid(2)]])
  from tree_ok_focus [OF tree this c(1)] have "tree_ok aggs' ?S'" .
  ultimately show ?thesis using live by (simp add: focus_ok_def)
qed

lemma step_moved:
  assumes "\<And>f. focus_ok scheds si aggs cs \<Longrightarrow> acct_moved (agg_above aggs (cs_agg cs)) d aggs aggs' \<and> same_cfg aggs aggs'"
    and "cs_cfg cs' = cs_cfg cs" "cs_buffer_usage cs' = cs_buffer_usage cs + d"
      "drr_active (cs_drr cs') = drr_active (cs_drr cs)"
  shows "sched_step scheds si aggs cs aggs' cs'"
  using assms focus_moved [of scheds si aggs cs d aggs' cs'] by (auto simp: sched_step_def cs_cfg_def)

lemma step_cs:
  assumes "cs_cfg cs' = cs_cfg cs" "cs_buffer_usage cs' = cs_buffer_usage cs" "drr_active (cs_drr cs') = drr_active (cs_drr cs)"
  shows "sched_step scheds si aggs cs aggs cs'"
  by (rule step_moved [where d = 0]) (use assms same_moved in simp_all)

lemma step_discharge:
  assumes "cs_cfg cs' = cs_cfg cs" "cs_buffer_usage cs' = cs_buffer_usage cs - n" "drr_active (cs_drr cs') = drr_active (cs_drr cs)"
  shows "sched_step scheds si aggs cs (cake_agg_discharge aggs cs n) cs'"
proof (rule step_moved [where d = "- n"])
  assume "focus_ok scheds si aggs cs"
  from discharge_charged [OF focus_wf(1,2) [OF this]]
  show "acct_moved (agg_above aggs (cs_agg cs)) (- n) aggs (cake_agg_discharge aggs cs n) \<and>
      same_cfg aggs (cake_agg_discharge aggs cs n)"
    using charged_moved charged_cfg by blast
qed (use assms in simp_all)

text \<open>The weight of the focused scheduler joins and leaves.\<close>

lemma focus_weights:
  assumes f: "focus_ok scheds si aggs cs"
    and w: "cs_agg cs \<noteq> nil32 \<Longrightarrow> weights_ok aggs'
        ((\<lambda>i. pool_sum (sched_weight i) (pool_upd si (\<lambda>_. cs) scheds))(cs_agg cs := pool_sum (sched_weight (cs_agg cs)) (pool_upd si (\<lambda>_. cs') scheds)))
        ((\<lambda>i. pool_sum (sched_count i) (pool_upd si (\<lambda>_. cs) scheds))(cs_agg cs := pool_sum (sched_count (cs_agg cs)) (pool_upd si (\<lambda>_. cs') scheds)))"
    and n: "cs_agg cs = nil32 \<Longrightarrow> aggs' = aggs"
    and u: "\<And>j. map_option ag_buffer_usage (pool_at aggs' j) = map_option ag_buffer_usage (pool_at aggs j)"
    and cfg: "same_cfg aggs aggs'"
    and c: "cs_agg cs' = cs_agg cs" "cs_buffer_usage cs' = cs_buffer_usage cs"
  shows "focus_ok scheds si aggs' cs'"
proof -
  let ?S = "pool_upd si (\<lambda>_. cs) scheds" and ?S' = "pool_upd si (\<lambda>_. cs') scheds"
  have live: "pool_at scheds si \<noteq> None" and tree: "tree_ok aggs ?S" and acc: "accounts_ok aggs ?S"
    using f by (simp_all add: focus_ok_def)
  note W = focus_wf [OF f]
  note shape = same_cfg_shape [OF cfg]
  have sw: "sched_weight i cs' = sched_weight i cs" "sched_count i cs' = sched_count i cs" if "i \<noteq> cs_agg cs" for i
    using c that by (simp_all add: sched_weight_def sched_count_def)
  have w': "pool_sum (sched_weight i) ?S' = pool_sum (sched_weight i) ?S"
    "pool_sum (sched_count i) ?S' = pool_sum (sched_count i) ?S" if "i \<noteq> cs_agg cs" for i
    using focus_sum [OF live, of "sched_weight i" cs' cs] focus_count [OF live, of "sched_count i" cs' cs] sw [OF that] by simp_all
  have "weights_ok aggs' (\<lambda>i. pool_sum (sched_weight i) ?S') (\<lambda>i. pool_sum (sched_count i) ?S')"
  proof (cases "cs_agg cs = nil32")
    case True
    have "weights_ok aggs (\<lambda>i. pool_sum (sched_weight i) ?S') (\<lambda>i. pool_sum (sched_count i) ?S')
        = weights_ok aggs (\<lambda>i. pool_sum (sched_weight i) ?S) (\<lambda>i. pool_sum (sched_count i) ?S)"
    proof (rule weights_ok_cong)
      fix i assume "pool_at aggs i \<noteq> None"
      then have "i \<noteq> cs_agg cs" using True aggs_wf_nil [OF W(1)] by auto
      from w' [OF this] show "pool_sum (sched_weight i) ?S' = pool_sum (sched_weight i) ?S \<and>
        pool_sum (sched_count i) ?S' = pool_sum (sched_count i) ?S" by simp
    qed
    with acc n [OF True] show ?thesis by (simp add: accounts_ok_def)
  next
    case False
    have "(\<lambda>i. pool_sum (sched_weight i) ?S') =
        (\<lambda>i. pool_sum (sched_weight i) ?S)(cs_agg cs := pool_sum (sched_weight (cs_agg cs)) ?S')"
      "(\<lambda>i. pool_sum (sched_count i) ?S') =
        (\<lambda>i. pool_sum (sched_count i) ?S)(cs_agg cs := pool_sum (sched_count (cs_agg cs)) ?S')"
      using w' by (simp_all add: fun_eq_iff)
    with w [OF False] show ?thesis by simp
  qed
  moreover have "usage_ok aggs' (\<lambda>i. pool_sum (sched_charge aggs' i) ?S')"
  proof -
    have "sched_charge aggs' i cs' = sched_charge aggs i cs" "sched_charge aggs' = sched_charge aggs" for i
      using same_shape_facts(1) [OF shape] c by (simp_all add: sched_charge_def fun_eq_iff)
    then have "pool_sum (sched_charge aggs' i) ?S' = pool_sum (sched_charge aggs i) ?S" for i
      using focus_sum [OF live, of "sched_charge aggs i" cs' cs] by simp
    with acc usage_ok_moved [OF u] show ?thesis by (simp add: accounts_ok_def)
  qed
  ultimately have "accounts_ok aggs' ?S'" by (simp add: accounts_ok_def)
  with live tree_ok_focus [OF tree shape c(1)] show ?thesis by (simp add: focus_ok_def)
qed

lemma step_activate:
  assumes "cake_sched_drr_activate aggs cs = (aggs', cs')"
  shows "sched_step scheds si aggs cs aggs' cs'"
proof (rule sched_stepI)
  assume f: "focus_ok scheds si aggs cs"
  note W = focus_wf [OF f]
  have live: "pool_at scheds si \<noteq> None" by (rule W(5))
  show "focus_ok scheds si aggs' cs' \<and> same_cfg aggs aggs' \<and> cs_cfg cs' = cs_cfg cs"
  proof (cases "drr_active (cs_drr cs)")
    case True
    with assms f show ?thesis by (simp add: cake_sched_drr_activate_def)
  next
    case False
    then have a: "aggs' = cake_agg_weight_add aggs (cs_agg cs) (drr_weight (cs_drr cs))" "drr_active (cs_drr cs')"
      "cs_agg cs' = cs_agg cs" "drr_weight (cs_drr cs') = drr_weight (cs_drr cs)"
      "cs_buffer_usage cs' = cs_buffer_usage cs" "cs_cfg cs' = cs_cfg cs"
      using assms by (auto simp: cake_sched_drr_activate_def cake_drr_child_activate_def cs_cfg_def)
    have sums: "pool_sum (sched_weight (cs_agg cs)) (pool_upd si (\<lambda>_. cs') scheds)
        = pool_sum (sched_weight (cs_agg cs)) (pool_upd si (\<lambda>_. cs) scheds) + drr_weight (cs_drr cs)"
      "pool_sum (sched_count (cs_agg cs)) (pool_upd si (\<lambda>_. cs') scheds)
        = Suc (pool_sum (sched_count (cs_agg cs)) (pool_upd si (\<lambda>_. cs) scheds))"
      using focus_sum [OF live, of "sched_weight (cs_agg cs)" cs' cs]
        focus_count [OF live, of "sched_count (cs_agg cs)" cs' cs] a False
      by (simp_all add: sched_weight_def sched_count_def)
    have bound: "pool_sum (sched_count j) (pool_upd si (\<lambda>_. cs) scheds) + length aggs < 2 ^ 32 - 1" for j
      using pool_sum_le_length [of "sched_count j" "pool_upd si (\<lambda>_. cs) scheds"] sched_count_le W(6)
      by (simp add: le_less_trans)
    have "focus_ok scheds si aggs' cs'"
    proof (rule focus_weights [OF f])
      assume "cs_agg cs \<noteq> nil32"
      then obtain x where x: "pool_at aggs (cs_agg cs) = Some x" using W(2) agg_ref_cases by blast
      from f have "weights_ok aggs (\<lambda>i. pool_sum (sched_weight i) (pool_upd si (\<lambda>_. cs) scheds))
          (\<lambda>i. pool_sum (sched_count i) (pool_upd si (\<lambda>_. cs) scheds))"
        by (simp add: focus_ok_def accounts_ok_def)
      from weights_join [OF this W(1) x bound]
      show "weights_ok aggs'
        ((\<lambda>i. pool_sum (sched_weight i) (pool_upd si (\<lambda>_. cs) scheds))(cs_agg cs := pool_sum (sched_weight (cs_agg cs)) (pool_upd si (\<lambda>_. cs') scheds)))
        ((\<lambda>i. pool_sum (sched_count i) (pool_upd si (\<lambda>_. cs) scheds))(cs_agg cs := pool_sum (sched_count (cs_agg cs)) (pool_upd si (\<lambda>_. cs') scheds)))"
        by (simp add: a(1) sums)
    qed (use a same_usage_weight_add same_cfg_weight_add in \<open>auto simp: cake_agg_weight_add_def\<close>)
    with a same_cfg_weight_add show ?thesis by auto
  qed
qed

lemma step_deactivate:
  assumes "cake_sched_drr_deactivate aggs cs = (aggs', cs')"
  shows "sched_step scheds si aggs cs aggs' cs'"
proof (rule sched_stepI)
  assume f: "focus_ok scheds si aggs cs"
  note W = focus_wf [OF f]
  have live: "pool_at scheds si \<noteq> None" by (rule W(5))
  show "focus_ok scheds si aggs' cs' \<and> same_cfg aggs aggs' \<and> cs_cfg cs' = cs_cfg cs"
  proof (cases "drr_active (cs_drr cs)")
    case False
    with assms f show ?thesis by (simp add: cake_sched_drr_deactivate_def cake_drr_child_deactivate_def)
  next
    case True
    then have a: "aggs' = cake_agg_weight_sub aggs (cs_agg cs) (drr_weight (cs_drr cs))" "\<not> drr_active (cs_drr cs')"
      "cs_agg cs' = cs_agg cs" "drr_weight (cs_drr cs') = drr_weight (cs_drr cs)"
      "cs_buffer_usage cs' = cs_buffer_usage cs" "cs_cfg cs' = cs_cfg cs"
      using assms by (auto simp: cake_sched_drr_deactivate_def cake_drr_child_deactivate_def cs_cfg_def)
    have sums: "pool_sum (sched_weight (cs_agg cs)) (pool_upd si (\<lambda>_. cs') scheds)
        = pool_sum (sched_weight (cs_agg cs)) (pool_upd si (\<lambda>_. cs) scheds) - drr_weight (cs_drr cs)"
      "Suc (pool_sum (sched_count (cs_agg cs)) (pool_upd si (\<lambda>_. cs') scheds))
        = pool_sum (sched_count (cs_agg cs)) (pool_upd si (\<lambda>_. cs) scheds)"
      using focus_sum [OF live, of "sched_weight (cs_agg cs)" cs' cs]
        focus_count [OF live, of "sched_count (cs_agg cs)" cs' cs] a True
      by (simp_all add: sched_weight_def sched_count_def)
    have "focus_ok scheds si aggs' cs'"
    proof (rule focus_weights [OF f])
      assume "cs_agg cs \<noteq> nil32"
      then obtain x where x: "pool_at aggs (cs_agg cs) = Some x" using W(2) agg_ref_cases by blast
      have ok: "weights_ok aggs (\<lambda>i. pool_sum (sched_weight i) (pool_upd si (\<lambda>_. cs) scheds))
          (\<lambda>i. pool_sum (sched_count i) (pool_upd si (\<lambda>_. cs) scheds))"
        using f by (simp add: focus_ok_def accounts_ok_def)
      have eq: "pool_sum (sched_count (cs_agg cs)) (pool_upd si (\<lambda>_. cs) scheds) - 1
          = pool_sum (sched_count (cs_agg cs)) (pool_upd si (\<lambda>_. cs') scheds)" using sums(2) by linarith
      have "0 < pool_sum (sched_count (cs_agg cs)) (pool_upd si (\<lambda>_. cs) scheds)" using sums(2) by linarith
      from weights_leave [OF ok W(1) x this, of "drr_weight (cs_drr cs)"]
      show "weights_ok aggs'
        ((\<lambda>i. pool_sum (sched_weight i) (pool_upd si (\<lambda>_. cs) scheds))(cs_agg cs := pool_sum (sched_weight (cs_agg cs)) (pool_upd si (\<lambda>_. cs') scheds)))
        ((\<lambda>i. pool_sum (sched_count i) (pool_upd si (\<lambda>_. cs) scheds))(cs_agg cs := pool_sum (sched_count (cs_agg cs)) (pool_upd si (\<lambda>_. cs') scheds)))"
        by (simp add: a(1) sums(1) eq [simplified])
    qed (use a same_usage_weight_sub same_cfg_weight_sub in \<open>auto simp: cake_agg_weight_sub_def\<close>)
    with a same_cfg_weight_sub show ?thesis by auto
  qed
qed

text \<open>What the gates and the counters change is not in the accounts.\<close>

definition acct_cfg :: "cake_aggregate \<Rightarrow> (u32 \<times> u32 \<times> u64 \<times> u32 \<times> u64) \<times> (u32 \<times> u32 list \<times> u16 \<times> u16 \<times> u32 \<times> u64)" where
  "acct_cfg a = (acct_view a, agg_cfg a)"

lemma same_view_steps:
  assumes "length aggs' = length aggs" and "\<And>i. map_option acct_cfg (pool_at aggs' i) = map_option acct_cfg (pool_at aggs i)"
  shows "same_accounts aggs aggs'" "same_cfg aggs aggs'"
proof -
  have "map_option acct_view x = map_option fst (map_option acct_cfg x)" "map_option agg_cfg x = map_option snd (map_option acct_cfg x)" for x
    by (cases x; simp add: acct_cfg_def)+
  with assms show "same_accounts aggs aggs'" "same_cfg aggs aggs'"
    by (simp_all add: same_accounts_def same_cfg_def)
qed

lemma same_but_stats_view:
  assumes "same_but_stats aggs aggs'"
  shows "length aggs' = length aggs" "map_option acct_cfg (pool_at aggs' i) = map_option acct_cfg (pool_at aggs i)"
proof -
  have *: "map_option acct_cfg x = map_option acct_cfg (map_option no_stats x)" for x
    by (cases x; simp add: acct_cfg_def acct_view_def agg_cfg_def no_stats_def)
  have l: "length aggs' = length aggs" and e: "map_option no_stats (pool_at aggs' i) = map_option no_stats (pool_at aggs i)"
    using assms by (simp_all add: same_but_stats_def)
  show "length aggs' = length aggs" by (rule l)
  show "map_option acct_cfg (pool_at aggs' i) = map_option acct_cfg (pool_at aggs i)"
    unfolding * [of "pool_at aggs' i"] * [of "pool_at aggs i"] e ..
qed

lemma acct_cfg_stats [simp]: "acct_cfg (agg_stats_upd thread f a) = acct_cfg a"
  by (simp add: acct_cfg_def acct_view_def agg_cfg_def agg_stats_upd_def Let_def)

lemma acct_cfg_upd [simp]:
  "acct_cfg (a\<lparr>ag_shaper_time := v\<rparr>) = acct_cfg a"
  "sc_weight d = sc_weight (ag_drr a) \<Longrightarrow> acct_cfg (a\<lparr>ag_drr := d\<rparr>) = acct_cfg a"
  by (simp_all add: acct_cfg_def acct_view_def agg_cfg_def)

definition same_view :: "cake_aggregate pool \<Rightarrow> cake_aggregate pool \<Rightarrow> bool" where
  "same_view aggs aggs' \<longleftrightarrow> length aggs' = length aggs \<and>
     (\<forall>i. map_option acct_cfg (pool_at aggs' i) = map_option acct_cfg (pool_at aggs i))"

lemma same_view_refl [simp]: "same_view aggs aggs"
  by (simp add: same_view_def)

lemma same_view_trans: "same_view a b \<Longrightarrow> same_view b c \<Longrightarrow> same_view a c"
  by (simp add: same_view_def)

lemma same_view_upd:
  assumes "\<And>x. pool_at aggs i = Some x \<Longrightarrow> acct_cfg (f x) = acct_cfg x"
  shows "same_view aggs (pool_upd i f aggs)"
  using assms by (auto simp: same_view_def pool_at_upd option.map_comp intro!: option.map_cong)

lemma same_view_upd2:
  assumes "\<And>x. pool_at aggs i = Some x \<Longrightarrow> acct_cfg (f x) = acct_cfg x"
    and "\<And>x. pool_at aggs j = Some x \<Longrightarrow> acct_cfg (g x) = acct_cfg x" and "j \<noteq> i"
  shows "same_view aggs (pool_upd j g (pool_upd i f aggs))"
  by (rule same_view_trans [OF same_view_upd same_view_upd]) (use assms in \<open>auto simp: pool_at_upd\<close>)

lemma step_view:
  assumes "same_view aggs aggs'"
    and "cs_cfg cs' = cs_cfg cs" "cs_buffer_usage cs' = cs_buffer_usage cs" "drr_active (cs_drr cs') = drr_active (cs_drr cs)"
  shows "sched_step scheds si aggs cs aggs' cs'"
proof (rule step_moved [where d = 0])
  show "acct_moved (agg_above aggs (cs_agg cs)) 0 aggs aggs' \<and> same_cfg aggs aggs'"
    using same_view_steps [of aggs' aggs] same_moved assms(1) by (auto simp: same_view_def)
qed (use assms in simp_all)

lemma same_but_stats_same_view: "same_but_stats aggs aggs' \<Longrightarrow> same_view aggs aggs'"
  using same_but_stats_view by (auto simp: same_view_def)

lemma reserve_weight:
  "cake_drr_shared_reserve c a b v l n env = (r, d) \<Longrightarrow> sc_weight d = sc_weight c"
  "sc_weight (cake_drr_shared_refund c l) = sc_weight c"
  by (auto simp: cake_drr_shared_reserve_def cake_drr_shared_refund_def Let_def split: prod.splits)

lemma gate_view:
  assumes wf: "aggs_wf aggs" and g: "cake_agg_dequeue_gate aggs cs adj now thread = (r, aggs')"
  shows "same_view aggs aggs'"
proof (cases "pool_at aggs (cs_agg cs)")
  case None
  with g show ?thesis by (auto simp: cake_agg_dequeue_gate_def split: if_splits)
next
  case (Some a)
  have ne: "ag_parent a \<noteq> nil32 \<Longrightarrow> ag_parent a \<noteq> cs_agg cs" using aggs_wf_parent [OF wf Some] by metis
  show ?thesis using g Some ne
    by (auto simp: cake_agg_dequeue_gate_def Let_def reserve_weight
        split: option.splits prod.splits if_splits intro!: same_view_upd same_view_upd2)
qed

section \<open>Enqueue\<close>

text \<open>
  A step of one tin: the tin stays in order, the scheduler's occupancy and count of queued buffers move
  as the tin's do, the other tins are untouched and every buffer is accounted for.
\<close>

definition tin_move ::
  "(u32 \<Rightarrow> u32) \<Rightarrow> cake_sched \<Rightarrow> cake_tin \<Rightarrow> u32 multiset \<Rightarrow> cake_sched \<Rightarrow> cake_tin \<Rightarrow> u32 multiset \<Rightarrow> bool" where
  "tin_move lens cs tin ins cs' tin' outs \<longleftrightarrow> tin_ok lens tin' \<and>
     cs_buffer_usage cs' - tin_backlog tin' = cs_buffer_usage cs - tin_backlog tin \<and>
     cs_queued cs' - tin_queued tin' = cs_queued cs - tin_queued tin \<and>
     tin_bufs tin + ins = tin_bufs tin' + outs \<and> cs_tins cs' = cs_tins cs"

lemma tin_move_ok: "tin_move lens cs tin ins cs' tin' outs \<Longrightarrow> tin_ok lens tin'"
  by (simp add: tin_move_def)

lemma tin_move_refl: "tin_ok lens tin \<Longrightarrow> tin_move lens cs tin {#} cs tin {#}"
  by (simp add: tin_move_def)

lemma tin_move_trans:
  assumes "tin_move lens cs tin i1 cs1 tin1 o1" and "tin_move lens cs1 tin1 i2 cs2 tin2 o2"
  shows "tin_move lens cs tin (i1 + i2) cs2 tin2 (o1 + o2)"
proof -
  have a: "tin_bufs tin + i1 = tin_bufs tin1 + o1" and b: "tin_bufs tin1 + i2 = tin_bufs tin2 + o2"
    using assms by (simp_all add: tin_move_def)
  have "tin_bufs tin + i1 + i2 = tin_bufs tin1 + o1 + i2" "tin_bufs tin1 + i2 + o1 = tin_bufs tin2 + o2 + o1"
    by (simp_all only: a b)
  then have "tin_bufs tin + (i1 + i2) = tin_bufs tin2 + (o1 + o2)" by (metis add.assoc add.commute)
  with assms show ?thesis by (simp add: tin_move_def)
qed

lemma sums_flows:
  "t_flows t' = t_flows t \<Longrightarrow> tin_backlog t' = tin_backlog t \<and> tin_queued t' = tin_queued t \<and> tin_bufs t' = tin_bufs t"
  by (simp add: tin_backlog_def tin_queued_def tin_bufs_def)

lemma set_slots_valid:
  assumes "tin_inv lens tin nw od dc" and "i \<in> set (set_slots (cake_flow_set_base tag))"
  shows "flow_valid (t_flows tin) i"
  using assms tin_invD(4) set_slots by (simp add: flow_valid_def)

lemma slot_move:
  assumes ok: "tin_ok lens tin" and lens: "lens_ok lens" and tag: "tag \<noteq> 0"
    and e: "enqueue_flow_slot aggs cs tin tag (cake_flow_set_base tag) = (aggs', cs', tin', i, freed)"
  shows "tin_move lens cs tin {#} cs' tin' (mset freed)" "sched_step scheds si aggs cs aggs' cs'"
    "flow_valid (t_flows tin') i"
proof -
  obtain nw od dc where inv: "tin_inv lens tin nw od dc" using ok by (auto simp: tin_ok_def)
  obtain j ev tin1 where l: "cake_flow_lookup tin tag (cake_flow_set_base tag) = (j, ev, tin1)" by (metis prod_cases3)
  note L = lookup_tin [OF inv lens tag l]
  have "tin_move lens cs tin {#} cs' tin' (mset freed) \<and> sched_step scheds si aggs cs aggs' cs' \<and> flow_valid (t_flows tin') i"
  proof (cases "j = nil32")
    case False
    note L0 = L [unfolded if_not_P [OF False]]
    then have L': "j \<in> set (set_slots (cake_flow_set_base tag))" "t_flows tin1 = t_flows tin" "tin_inv lens tin1 nw od dc"
      using L0 by auto
    from e l False have "aggs' = aggs" "cs' = cs" "tin' = tin1" "i = j" "freed = []" by (simp_all add: enqueue_flow_slot_def)
    with L' sums_flows [OF L'(2)] set_slots_valid [OF inv L'(1)] show ?thesis
      by (auto simp: tin_move_def tin_ok_def)
  next
    case True
    with L have L': "tin1 = tin" "ev \<in> set (set_slots (cake_flow_set_base tag))" "\<forall>k < CAKE_QUEUES. t_flow_tags tin ! k \<noteq> tag"
      by simp_all
    obtain aggs2 cs2 tin2 fr where ev: "cake_flow_evict aggs cs tin ev = (aggs2, cs2, tin2, fr)" by (metis prod_cases4)
    note v = set_slots_valid [OF inv L'(2)]
    let ?f = "t_flows tin ! unat ev"
    note E = evict_tin [OF inv v ev]
    have r: "aggs' = aggs2" "cs' = cs2" "tin' = tin2\<lparr>t_flow_tags := (t_flow_tags tin2)[unat ev := tag]\<rparr>" "i = ev" "freed = fr"
      using e l True L'(1) ev by (auto simp: enqueue_flow_slot_def)
    have fl: "t_flows tin' = t_flows tin2" using r by simp
    have ti: "tin_inv lens tin' (remove1 ev nw) (remove1 ev od) (remove1 ev dc)"
    proof (rule tin_inv_cong [OF E(1)])
      show "tin_cores tin' = tin_cores tin2" by (simp add: tin_cores_def fl)
      show "tin_dll tin' (remove1 ev nw) (remove1 ev od) (remove1 ev dc)"
        by (rule tin_dll_cong [OF tin_invD(1) [OF E(1)]]) (simp_all add: r)
      show "tin_counts tin' (length (remove1 ev nw)) (length (remove1 ev od)) (length (remove1 ev dc))"
        using tin_invD(2) [OF E(1)] by (simp add: tin_counts_def r)
      show "tags_ok (t_flow_tags tin')"
        using tags_claim [OF tin_invD(3) [OF inv], of "unat ev" tag] L' tag set_slots by (simp add: r(3) E(6))
    qed
    have len: "cake_flow_queue_len ?f = 0 \<Longrightarrow> f_backlog ?f = 0"
      using tin_inv_at(1) [OF inv v] flow_okD(3) flow_queue_empty by (fastforce simp: lens_sum_def)
    have "cs_cfg cs2 = cs_cfg cs" "cs_buffer_usage cs2 = cs_buffer_usage cs - f_backlog ?f"
      "drr_active (cs_drr cs2) = drr_active (cs_drr cs)" "cs_queued cs2 = cs_queued cs - cake_flow_queue_len ?f"
      "cs_tins cs2 = cs_tins cs"
      by (simp_all add: E(8) cs_cfg_def)
    note c = this
    have "sched_step scheds si aggs cs aggs2 cs2"
      using step_discharge [OF c(1-3)] step_cs [OF c(1) _ c(3)] c(2) len by (simp add: E(7))
    moreover have "tin_move lens cs tin {#} cs' tin' (mset freed)"
      using ti E(2-4) sums_flows [OF fl] by (auto simp: tin_move_def tin_ok_def r c)
    moreover have "flow_valid (t_flows tin') i"
      using tin_invD(4) [OF ti] v tin_invD(4) [OF inv] by (simp add: flow_valid_def r)
    ultimately show ?thesis by (simp add: r)
  qed
  then show "tin_move lens cs tin {#} cs' tin' (mset freed)" "sched_step scheds si aggs cs aggs' cs'" "flow_valid (t_flows tin') i"
    by simp_all
qed

lemma refuse_move:
  assumes ok: "tin_ok lens tin" and v: "flow_valid (t_flows tin) i"
    and e: "enqueue_refuse now i cs tin = (cs', tin')"
  shows "tin_move lens cs tin {#bi#} cs' tin' {#bi#}" "sched_step scheds si aggs cs aggs cs'"
proof -
  obtain nw od dc where inv: "tin_inv lens tin nw od dc" using ok by (auto simp: tin_ok_def)
  let ?g = "cobalt_queue_full (t_flows tin ! unat i) (cs_target_us cs) (cs_p_inc cs) now"
  have fl: "t_flows tin' = (t_flows tin)[unat i := ?g]" using e by (auto simp: enqueue_refuse_def flow_upd_def)
  have same: "t_new_head tin' = t_new_head tin" "t_new_tail tin' = t_new_tail tin" "t_old_head tin' = t_old_head tin"
    "t_old_tail tin' = t_old_tail tin" "t_decaying_head tin' = t_decaying_head tin" "t_decaying_tail tin' = t_decaying_tail tin"
    "t_flow_tags tin' = t_flow_tags tin" "tin_counts tin' = tin_counts tin"
    using e by (auto simp: enqueue_refuse_def tin_counts_def fun_eq_iff)
  have c: "tin_cores tin' = tin_cores tin" by (rule cores_same_slot [OF fl]) simp
  have "tin_inv lens tin' nw od dc"
  proof (rule tin_inv_cong [OF inv c])
    show "tin_dll tin' nw od dc"
      by (rule dll_slot [OF tin_invD(1) [OF inv] fl]) (simp_all add: same)
  qed (use tin_invD(2,3) [OF inv] same in simp_all)
  with sum_cores [OF c] e show "tin_move lens cs tin {#bi#} cs' tin' {#bi#}"
    by (auto simp: tin_move_def tin_ok_def enqueue_refuse_def)
  show "sched_step scheds si aggs cs aggs cs'"
    by (rule step_cs) (use e in \<open>auto simp: enqueue_refuse_def cs_cfg_def\<close>)
qed

lemma new_flow_move:
  assumes ok: "tin_ok lens tin" and v: "flow_valid (t_flows tin) i"
    and s: "f_state (t_flows tin ! unat i) = FLOW_NONE" and mem: "length mem = CAKE_FLOW_RING_SIZE"
    and e: "tin' = enqueue_new_flow mem b set_base i tin"
  shows "tin_move lens cs tin {#} cs tin' {#}" "flow_valid (t_flows tin') i" "f_state (t_flows tin' ! unat i) = FLOW_SPARSE"
proof -
  obtain nw od dc where inv: "tin_inv lens tin nw od dc" using ok by (auto simp: tin_ok_def)
  obtain slot hosts where h: "cake_host_probe (t_hosts tin) (cake_dst_host_hash b) (unat (cake_dst_host_hash b) mod CAKE_HOSTS) [0, 1, 2, 3]
      = (slot, hosts)" by fastforce
  have hl: "cake_host_lookup tin (cake_dst_host_hash b) = (slot, tin\<lparr>t_hosts := hosts\<rparr>)"
    by (simp only: cake_host_lookup_def h prod.case)
  define g where "g = (let flow = (cake_flow_ring_alloc mem (t_flows tin ! unat i))
                 \<lparr>f_state := FLOW_SPARSE, f_set_index := ucast (set_base div word_of_nat CAKE_SET_WAYS), f_dst_host := slot\<rparr>
      in flow\<lparr>f_deficit := uint (cake_quantum_for_flow (tin\<lparr>t_hosts := hosts\<rparr>) flow)\<rparr>)"
  have g: "f_state g = FLOW_SPARSE" "f_ring g = mem" "f_head g = 0" "f_tail g = 0" "f_backlog g = f_backlog (t_flows tin ! unat i)"
    by (simp_all add: g_def Let_def cake_flow_ring_alloc_def)
  have t': "tin' = (new_prepend i (tin\<lparr>t_hosts := hosts, t_flows := (t_flows tin)[unat i := g]\<rparr>))
      \<lparr>t_flow_count := t_flow_count tin + 1, t_sparse_count := t_sparse_count tin + 1\<rparr>"
    by (simp add: e enqueue_new_flow_def hl g_def Let_def)
  note N = new_flow_tin [OF inv v s mem g t']
  show "tin_move lens cs tin {#} cs tin' {#}" using N by (auto simp: tin_move_def tin_ok_def)
  show "flow_valid (t_flows tin') i" using tin_invD(4) [OF N(1)] tin_invD(4) [OF inv] v by (simp add: flow_valid_def)
  show "f_state (t_flows tin' ! unat i) = FLOW_SPARSE" using flow_core_eq(5) [OF N(5)] g by simp
qed

lemma admit_step:
  assumes f: "focus_ok scheds si aggs cs" and a: "cake_agg_admit_chain aggs cs n thread = (ok, aggs')"
  shows "ok \<Longrightarrow> acct_moved (agg_above aggs (cs_agg cs)) n aggs aggs' \<and> same_cfg aggs aggs'"
    and "\<not> ok \<Longrightarrow> same_view aggs aggs'"
    and "ok \<Longrightarrow> cake_agg_discharge aggs' cs n = aggs"
proof -
  note W = focus_wf(1,2) [OF f]
  note A = admit_chain [OF W a]
  show "ok \<Longrightarrow> acct_moved (agg_above aggs (cs_agg cs)) n aggs aggs' \<and> same_cfg aggs aggs'"
    using A charged_moved charged_cfg by auto
  show "\<not> ok \<Longrightarrow> same_view aggs aggs'" using A same_but_stats_same_view by auto
  show "ok \<Longrightarrow> cake_agg_discharge aggs' cs n = aggs" using admit_discharge [OF W] a by simp
qed

lemma store_move:
  assumes ok: "tin_ok lens tin" and v: "flow_valid (t_flows tin) i"
    and s: "f_state (t_flows tin ! unat i) \<noteq> FLOW_NONE"
    and n: "unat (cake_flow_queue_len (t_flows tin ! unat i)) < CAKE_FLOW_RING_SIZE"
    and t: "tin' = enqueue_promote i (tin\<lparr>t_flows := flow_upd i (flow_push bi (lens bi)) (t_flows tin),
      t_packets := p, t_bytes := q\<rparr>)"
    and c: "cs_buffer_usage cs' = cs_buffer_usage cs + lens bi" "cs_queued cs' = cs_queued cs + 1" "cs_tins cs' = cs_tins cs"
  shows "tin_move lens cs tin {#bi#} cs' tin' {#}"
proof -
  obtain nw od dc where inv: "tin_inv lens tin nw od dc" using ok by (auto simp: tin_ok_def)
  note S = store_tin [OF inv v s n refl]
  then show ?thesis using c t by (auto simp: tin_move_def tin_add_def)
qed

lemma activate_fields:
  assumes "cake_sched_drr_activate aggs cs = (aggs', cs')"
  shows "cs_buffer_usage cs' = cs_buffer_usage cs" "cs_queued cs' = cs_queued cs" "cs_tins cs' = cs_tins cs"
    "cs_cfg cs' = cs_cfg cs" "drr_active (cs_drr cs')"
  using assms by (auto simp: cake_sched_drr_activate_def cake_drr_child_activate_def cs_cfg_def split: if_splits)

lemma enqueue_tin_move:
  assumes ok: "tin_ok lens tin" and lens: "lens_ok lens" and tag: "tag \<noteq> 0" and mem: "length mem = CAKE_FLOW_RING_SIZE"
    and len: "b_len b = lens bi"
    and e: "cake_enqueue_tin mem now thread bi b tag aggs cs tin = (r, aggs', cs', tin', freed)"
  shows "tin_move lens cs tin {#bi#} cs' tin' (mset freed)" "sched_step scheds si aggs cs aggs' cs'"
proof -
  obtain aggs1 cs1 tin1 i fr where sl: "enqueue_flow_slot aggs cs tin tag (cake_flow_set_base tag) = (aggs1, cs1, tin1, i, fr)"
    by (metis prod_cases5)
  note S = slot_move [OF ok lens tag sl]
  note ok1 = tin_move_ok [OF S(1)]
  obtain ad aggs2 where adm: "cake_agg_admit_chain aggs1 cs1 (lens bi) thread = (ad, aggs2)" by fastforce
  obtain csr tinr where ref: "enqueue_refuse now i cs1 tin1 = (csr, tinr)" by fastforce
  define tin2 where "tin2 = (if f_state (t_flows tin1 ! unat i) = FLOW_NONE
    then enqueue_new_flow mem b (cake_flow_set_base tag) i tin1 else tin1)"
  have T2: "tin_move lens cs1 tin1 {#} cs1 tin2 {#}" "flow_valid (t_flows tin2) i"
    "f_state (t_flows tin2 ! unat i) \<noteq> FLOW_NONE"
    using new_flow_move [OF ok1 S(3) _ mem, of tin2 b "cake_flow_set_base tag"] tin_move_refl [OF ok1] S(3)
    by (auto simp: tin2_def split: if_splits)
  have "tin_move lens cs tin {#bi#} cs' tin' (mset freed) \<and> sched_step scheds si aggs cs aggs' cs'"
  proof (cases "cs_buffer_usage cs1 + lens bi > cs_buffer_limit cs1")
    case True
    with e sl ref len have r: "aggs' = aggs1" "cs' = csr" "tin' = tinr" "freed = fr @ [bi]"
      by (simp_all add: cake_enqueue_tin_def)
    show ?thesis
      using tin_move_trans [OF S(1) refuse_move(1) [OF ok1 S(3) ref, of bi]]
        sched_step_trans [OF S(2) refuse_move(2) [OF ok1 S(3) ref]] r by simp
  next
    case F1: False
    show ?thesis
    proof (cases ad)
      case False
      with e sl ref len F1 adm have r: "aggs' = aggs2" "cs' = csr" "tin' = tinr" "freed = fr @ [bi]"
        by (simp_all add: cake_enqueue_tin_def)
      have "sched_step scheds si aggs1 cs1 aggs2 cs1"
        using admit_step(2) [OF _ adm False] by (metis step_view sched_step_def)
      from sched_step_trans [OF this refuse_move(2) [OF ok1 S(3) ref]]
      have "sched_step scheds si aggs1 cs1 aggs2 csr" .
      with tin_move_trans [OF S(1) refuse_move(1) [OF ok1 S(3) ref, of bi]] sched_step_trans [OF S(2)] r
      show ?thesis by simp
    next
      case True
      note adt = admit_step(1) [OF _ adm True]
      show ?thesis
      proof (cases "unat (cake_flow_queue_len (t_flows tin2 ! unat i)) \<ge> CAKE_FLOW_RING_SIZE")
        case ge: True
        obtain cs3 tin3 where ref2: "enqueue_refuse now i cs1 tin2 = (cs3, tin3)" by fastforce
        have r: "aggs' = cake_agg_discharge aggs2 cs1 (lens bi)" "cs' = cs3" "tin' = tin3" "freed = fr @ [bi]"
          using e sl len F1 adm True ge ref2 by (simp_all add: cake_enqueue_tin_def tin2_def [symmetric] Let_def)
        have st: "sched_step scheds si aggs1 cs1 (cake_agg_discharge aggs2 cs1 (lens bi)) cs1"
          using admit_step(3) [OF _ adm True] by (metis sched_step_refl sched_step_def)
        have mv: "tin_move lens cs1 tin1 {#bi#} cs3 tin3 {#bi#}"
          using tin_move_trans [OF T2(1) refuse_move(1) [OF tin_move_ok [OF T2(1)] T2(2) ref2, of bi]] by simp
        from tin_move_trans [OF S(1) mv] r
          sched_step_trans [OF S(2) sched_step_trans [OF st refuse_move(2) [OF tin_move_ok [OF T2(1)] T2(2) ref2]]]
        show ?thesis by simp
      next
        case lt: False
        define tin3 where "tin3 = enqueue_promote i (tin2\<lparr>t_flows := flow_upd i (flow_push bi (lens bi)) (t_flows tin2),
          t_packets := t_packets tin2 + 1, t_bytes := t_bytes tin2 + ucast (lens bi)\<rparr>)"
        define cs3 where "cs3 = cs1\<lparr>cs_buffer_usage := cs_buffer_usage cs1 + lens bi, cs_queued := cs_queued cs1 + 1,
          cs_enqueued_pkts := cs_enqueued_pkts cs1 + 1, cs_enqueued_bytes := cs_enqueued_bytes cs1 + ucast (lens bi)\<rparr>"
        obtain aggs4 cs4 where act: "cake_sched_drr_activate aggs2 cs3 = (aggs4, cs4)" by fastforce
        have r: "aggs' = aggs4" "cs' = cs4" "tin' = tin3" "freed = fr"
          using e sl len F1 adm True lt act
          by (simp_all add: cake_enqueue_tin_def tin2_def [symmetric] tin3_def cs3_def Let_def)
        have c3: "cs_cfg cs3 = cs_cfg cs1" "cs_buffer_usage cs3 = cs_buffer_usage cs1 + lens bi"
          "drr_active (cs_drr cs3) = drr_active (cs_drr cs1)" "cs_queued cs3 = cs_queued cs1 + 1" "cs_tins cs3 = cs_tins cs1"
          by (simp_all add: cs3_def cs_cfg_def)
        have "sched_step scheds si aggs1 cs1 aggs2 cs3"
          by (rule step_moved [OF adt c3(1-3)])
        note st = sched_step_trans [OF this step_activate [OF act]]
        have "tin_move lens cs1 tin2 {#bi#} cs4 tin3 {#}"
          by (rule store_move [OF tin_move_ok [OF T2(1)] T2(2,3) _ tin3_def]) (use lt activate_fields [OF act] c3 in auto)
        from tin_move_trans [OF S(1) tin_move_trans [OF T2(1) this]] sched_step_trans [OF S(2) st] r
        show ?thesis by simp
      qed
    qed
  qed
  then show "tin_move lens cs tin {#bi#} cs' tin' (mset freed)" "sched_step scheds si aggs cs aggs' cs'" by simp_all
qed

section \<open>One packet\<close>

definition flow_keep :: "cake_flow \<Rightarrow> (u32 list \<times> u32 \<times> u32 \<times> u32 \<times> cake_flow_state) \<times> u32 \<times> u32 \<times> int \<times> u16" where
  "flow_keep f = (flow_core f, f_next f, f_prev f, f_deficit f, f_dst_host f)"

lemma flow_keep_upd [simp]:
  "flow_keep (f\<lparr>f_codel_count := a\<rparr>) = flow_keep f" "flow_keep (f\<lparr>f_drop_next_us := a\<rparr>) = flow_keep f"
  "flow_keep (f\<lparr>f_dropping := b\<rparr>) = flow_keep f" "flow_keep (f\<lparr>f_rec_inv_sqrt := a\<rparr>) = flow_keep f"
  by (simp_all add: flow_keep_def flow_core_def)

lemma flow_keep_cobalt [simp]: "flow_keep (cobalt_invsqrt f) = flow_keep f"
  by (simp add: cobalt_invsqrt_def cobalt_newton_step_def Let_def)

lemma catch_up_keep: "cobalt_catch_up interval now due f s = (g, s') \<Longrightarrow> flow_keep g = flow_keep f"
proof (induction interval now due f s rule: cobalt_catch_up.induct)
  case (1 interval now due f s)
  from "1.prems" show ?case
    by (subst (asm) cobalt_catch_up.simps)
      (auto simp: Let_def cobalt_step_back_def split: if_splits dest!: "1.IH")
qed

lemma codel_keep:
  assumes "cobalt_codel f cs sojourn now bulk ecn = (a, b, g, s)"
  shows "flow_keep g = flow_keep f"
  using assms unfolding cobalt_codel_def Let_def
  by (auto split: if_splits prod.splits dest!: catch_up_keep)

lemma should_drop_keep:
  assumes "cobalt_should_drop random_u32 f cs sojourn now bulk ecn seed = (d, m, f', seed')"
  shows "flow_keep f' = flow_keep f"
proof -
  obtain a b g s where c: "cobalt_codel f cs sojourn now bulk ecn = (a, b, g, s)" by (metis prod_cases4)
  from codel_keep [OF c] assms c show ?thesis
    by (auto simp: cobalt_should_drop_def Let_def split: if_splits prod.splits)
qed

text \<open>The flow of a slot replaced by one with the same links, the lists, counters and tags untouched.\<close>

definition slot_put :: "u32 \<Rightarrow> cake_flow \<Rightarrow> cake_tin \<Rightarrow> cake_tin \<Rightarrow> bool" where
  "slot_put i g t t' \<longleftrightarrow> t_flows t' = (t_flows t)[unat i := g] \<and>
     f_next g = f_next (t_flows t ! unat i) \<and> f_prev g = f_prev (t_flows t ! unat i) \<and>
     t_new_head t' = t_new_head t \<and> t_new_tail t' = t_new_tail t \<and> t_old_head t' = t_old_head t \<and>
     t_old_tail t' = t_old_tail t \<and> t_decaying_head t' = t_decaying_head t \<and> t_decaying_tail t' = t_decaying_tail t \<and>
     t_flow_tags t' = t_flow_tags t \<and> tin_counts t' = tin_counts t"

lemma slot_put_keep:
  assumes inv: "tin_inv lens t nw od dc" and p: "slot_put i g t t'" and c: "flow_core g = flow_core (t_flows t ! unat i)"
  shows "tin_inv lens t' nw od dc" "tin_backlog t' = tin_backlog t" "tin_queued t' = tin_queued t" "tin_bufs t' = tin_bufs t"
proof -
  have fl: "t_flows t' = (t_flows t)[unat i := g]" using p by (simp add: slot_put_def)
  have cc: "tin_cores t' = tin_cores t" by (rule cores_same_slot [OF fl c])
  show "tin_inv lens t' nw od dc"
  proof (rule tin_inv_cong [OF inv cc])
    show "tin_dll t' nw od dc"
      by (rule dll_slot [OF tin_invD(1) [OF inv] fl]) (use p in \<open>simp_all add: slot_put_def\<close>)
  qed (use tin_invD(2,3) [OF inv] p in \<open>simp_all add: slot_put_def\<close>)
  show "tin_backlog t' = tin_backlog t" "tin_queued t' = tin_queued t" "tin_bufs t' = tin_bufs t"
    using sum_cores [OF cc] by simp_all
qed

lemma slot_put_change:
  assumes inv: "tin_inv lens t nw od dc" and v: "flow_valid (t_flows t) i" and p: "slot_put i g t t'"
    and g: "flow_ok lens g" "f_state g = f_state (t_flows t ! unat i)"
  shows "tin_inv lens t' nw od dc"
proof -
  have fl: "t_flows t' = (t_flows t)[unat i := g]" using p by (simp add: slot_put_def)
  show ?thesis
  proof (rule tin_inv_change [OF inv v cores_slot [OF fl] g(1)])
    show "tin_dll t' nw od dc"
      by (rule dll_slot [OF tin_invD(1) [OF inv] fl]) (use p in \<open>simp_all add: slot_put_def\<close>)
  qed (use tin_inv_at(2-4) [OF inv v] tin_invD(2,3) [OF inv] p g(2) in \<open>simp_all add: slot_put_def\<close>)
qed

lemma flow_pop_ok:
  assumes ok: "flow_ok lens f" and n: "cake_flow_queue_len f \<noteq> 0" and bi: "bi = f_ring f ! ring_slot (f_head f)"
    and g: "f_ring g = f_ring f" "f_head g = f_head f + 1" "f_tail g = f_tail f" "f_backlog g = f_backlog f - lens bi"
      "f_state g = f_state f"
  shows "flow_ok lens g" "flow_queue f = bi # flow_queue g" "cake_flow_queue_len g = cake_flow_queue_len f - 1"
    "unat (cake_flow_queue_len g) < unat (cake_flow_queue_len f)"
proof -
  let ?h = "f\<lparr>f_head := f_head f + 1\<rparr>"
  have q: "flow_queue g = flow_queue ?h" "cake_flow_queue_len g = cake_flow_queue_len ?h"
    by (simp_all add: flow_queue_def cake_flow_queue_len_def g)
  show qf: "flow_queue f = bi # flow_queue g" using flow_queue_pop(1) [OF n] by (simp add: q bi)
  show l: "unat (cake_flow_queue_len g) < unat (cake_flow_queue_len f)" using flow_queue_pop(2) [OF n] by (simp add: q)
  show "cake_flow_queue_len g = cake_flow_queue_len f - 1" by (simp add: cake_flow_queue_len_def g diff_diff_eq)
  have s: "f_state f \<noteq> FLOW_NONE" "f_state f \<noteq> FLOW_DECAYING" using ok n flow_okD(5) [OF ok] by (auto simp: flow_ok_def)
  then show "flow_ok lens g" using ok l qf by (auto simp: flow_ok_def g lens_sum_def)
qed

lemma slot_pop:
  assumes inv: "tin_inv lens t nw od dc" and v: "flow_valid (t_flows t) i" and p: "slot_put i g t t'"
    and n: "cake_flow_queue_len (t_flows t ! unat i) \<noteq> 0"
    and bi: "bi = f_ring (t_flows t ! unat i) ! ring_slot (f_head (t_flows t ! unat i))"
    and g: "flow_core g = flow_core ((t_flows t ! unat i)\<lparr>f_head := f_head (t_flows t ! unat i) + 1,
      f_backlog := f_backlog (t_flows t ! unat i) - lens bi\<rparr>)"
  shows "tin_inv lens t' nw od dc" "tin_backlog t' = tin_backlog t - lens bi" "tin_queued t' = tin_queued t - 1"
    "tin_bufs t = add_mset bi (tin_bufs t')" "unat (cake_flow_queue_len g) < unat (cake_flow_queue_len (t_flows t ! unat i))"
proof -
  have fl: "t_flows t' = (t_flows t)[unat i := g]" using p by (simp add: slot_put_def)
  have g': "f_ring g = f_ring (t_flows t ! unat i)" "f_head g = f_head (t_flows t ! unat i) + 1"
    "f_tail g = f_tail (t_flows t ! unat i)" "f_backlog g = f_backlog (t_flows t ! unat i) - lens bi"
    "f_state g = f_state (t_flows t ! unat i)"
    using flow_core_eq [OF g] by simp_all
  note P = flow_pop_ok [OF tin_inv_at(1) [OF inv v] n bi g']
  note S = sums_slot [OF cores_slot [OF fl] v]
  show "tin_inv lens t' nw od dc" by (rule slot_put_change [OF inv v p P(1) g'(5)])
  show "tin_backlog t' = tin_backlog t - lens bi" using S(1) g'(4) by simp
  show "tin_queued t' = tin_queued t - 1" using S(2) P(3) by simp
  show "tin_bufs t = add_mset bi (tin_bufs t')" using S(3) P(2) by simp
  show "unat (cake_flow_queue_len g) < unat (cake_flow_queue_len (t_flows t ! unat i))" by (rule P(4))
qed

end
