(* ===== verification/Cake_Dispatch.thy ===== *)
theory Cake_Dispatch
  imports Cake_Queue
begin

text \<open>
  The dequeue dispatch: what one packet, one visit of a flow and one visit of a scheduler do to the
  tins, the accounts and the buffers, and that every visit ends.
\<close>

section \<open>One packet\<close>


lemma local_admit_same:
  assumes "cake_drr_local_admit c rb aw vt now = (r, c')"
  shows "drr_active c' = drr_active c \<and> drr_weight c' = drr_weight c"
  using assms by (auto simp: cake_drr_local_admit_def Let_def cake_drr_refill_def split: if_splits prod.splits)

lemma drr_admit_fields:
  assumes "cake_sched_drr_admit aggs cs now = (r, cs')"
  obtains child where "cs' = cs\<lparr>cs_drr := child\<rparr>" "drr_active child = drr_active (cs_drr cs)"
    "drr_weight child = drr_weight (cs_drr cs)"
proof -
  have "\<exists>child. cs' = cs\<lparr>cs_drr := child\<rparr> \<and> drr_active child = drr_active (cs_drr cs) \<and>
    drr_weight child = drr_weight (cs_drr cs)"
    using assms unfolding cake_sched_drr_admit_def Let_def
    by (auto split: if_splits option.splits prod.splits dest!: local_admit_same intro: exI [of _ "cs_drr cs"])
  with that show thesis by blast
qed

lemma ecn_mark_len [simp]: "b_len (snd (cake_ecn_mark ex b)) = b_len b"
  by (auto simp: cake_ecn_mark_def Let_def split: ip_hdr.splits)

text \<open>What a dispatch has sent or freed so far, and one of its steps on one tin.\<close>

definition deq_gone :: "cake_deq \<Rightarrow> u32 multiset" where
  "deq_gone dq = mset (map fst (dq_out dq)) + mset (dq_freed dq)"

definition deq_lens :: "(u32 \<Rightarrow> u32) \<Rightarrow> cake_deq \<Rightarrow> bool" where
  "deq_lens lens dq \<longleftrightarrow> (\<forall>bi. b_len (dq_bufs dq bi) = lens bi)"

definition deq_spent :: "cake_deq \<Rightarrow> nat" where
  "deq_spent dq = dq_budget dq + length (dq_out dq)"

definition deq_move ::
  "(u32 \<Rightarrow> u32) \<Rightarrow> cake_sched pool \<Rightarrow> u32 \<Rightarrow> cake_tin \<Rightarrow> cake_deq \<Rightarrow> cake_tin \<Rightarrow> cake_deq \<Rightarrow> bool" where
  "deq_move lens scheds si tin dq tin' dq' \<longleftrightarrow>
     tin_move lens (dq_cs dq) tin (deq_gone dq) (dq_cs dq') tin' (deq_gone dq') \<and> deq_lens lens dq' \<and>
     deq_spent dq' = deq_spent dq \<and> drr_active (cs_drr (dq_cs dq')) = drr_active (cs_drr (dq_cs dq)) \<and>
     sched_step scheds si (dq_aggs dq) (dq_cs dq) (dq_aggs dq') (dq_cs dq')"

lemma deq_move_refl: "tin_ok lens tin \<Longrightarrow> deq_lens lens dq \<Longrightarrow> deq_move lens scheds si tin dq tin dq"
  by (simp add: deq_move_def tin_move_def)

lemma deq_move_trans:
  assumes "deq_move lens scheds si t a t1 b" and "deq_move lens scheds si t1 b t2 c"
  shows "deq_move lens scheds si t a t2 c"
proof -
  have "tin_move lens (dq_cs a) t (deq_gone a) (dq_cs c) t2 (deq_gone c)"
    using assms unfolding deq_move_def tin_move_def by simp
  with assms show ?thesis by (auto simp: deq_move_def intro: sched_step_trans)
qed

text \<open>One packet taken: nothing, a drop, a send, or a visit that leaves the queue as it was.\<close>

definition one_done :: "(u32 \<Rightarrow> u32) \<Rightarrow> cake_sched pool \<Rightarrow> u32 \<Rightarrow> u32 \<Rightarrow> cake_tin \<Rightarrow> cake_deq \<Rightarrow> cake_deq_result_t \<Rightarrow> cake_tin \<Rightarrow> cake_deq \<Rightarrow> bool" where
  "one_done lens scheds si i tin dq r tin' dq' \<longleftrightarrow> deq_move lens scheds si tin dq tin' dq' \<and>
     (\<exists>g. slot_put i g tin tin' \<and> f_state g = f_state (t_flows tin ! unat i) \<and>
       (if r = DEQ_SENT \<or> r = DEQ_DROPPED
        then unat (cake_flow_queue_len g) < unat (cake_flow_queue_len (t_flows tin ! unat i)) \<and>
          size (tin_bufs tin') < size (tin_bufs tin)
        else r \<noteq> DEQ_EMPTY \<and> cake_flow_queue_len g = cake_flow_queue_len (t_flows tin ! unat i) \<and>
          tin_bufs tin' = tin_bufs tin) \<and>
       (r \<noteq> DEQ_SENT \<longrightarrow> f_deficit g = f_deficit (t_flows tin ! unat i)))"

lemma flow_keep_core: "flow_keep g = flow_keep f \<Longrightarrow> flow_core g = flow_core f \<and> f_next g = f_next f \<and>
   f_prev g = f_prev f \<and> f_deficit g = f_deficit f"
  by (simp add: flow_keep_def)

lemma slot_put_upd:
  assumes "f_next g = f_next (t_flows t ! unat i)" and "f_prev g = f_prev (t_flows t ! unat i)"
  shows "slot_put i g t (t\<lparr>t_flows := (t_flows t)[unat i := g]\<rparr>)"
    "slot_put i g t (t\<lparr>t_drops := x, t_flows := (t_flows t)[unat i := g]\<rparr>)"
    "slot_put i g t (t\<lparr>t_ecn_marks := x, t_flows := (t_flows t)[unat i := g]\<rparr>)"
  using assms by (simp_all add: slot_put_def tin_counts_def fun_eq_iff)

lemma one_stay:
  assumes inv: "tin_inv lens tin nw od dc" and lens: "deq_lens lens dq"
    and k: "flow_keep g = flow_keep (t_flows tin ! unat i)"
    and p: "slot_put i g tin tin'"
    and c: "cs_cfg cs = cs_cfg (dq_cs dq)" "cs_buffer_usage cs = cs_buffer_usage (dq_cs dq)" "cs_queued cs = cs_queued (dq_cs dq)"
      "cs_tins cs = cs_tins (dq_cs dq)" "drr_active (cs_drr cs) = drr_active (cs_drr (dq_cs dq))"
    and q: "dq_cs dq' = cs" "deq_gone dq' = deq_gone dq" "deq_lens lens dq'" "deq_spent dq' = deq_spent dq"
    and view: "aggs_wf (dq_aggs dq) \<Longrightarrow> same_view (dq_aggs dq) (dq_aggs dq')"
    and r: "r \<noteq> DEQ_SENT" "r \<noteq> DEQ_DROPPED" "r \<noteq> DEQ_EMPTY"
  shows "one_done lens scheds si i tin dq r tin' dq'"
proof -
  let ?f = "t_flows tin ! unat i"
  have core: "flow_core g = flow_core ?f" using flow_keep_core [OF k] by simp
  note S = slot_put_keep [OF inv p core]
  have "sched_step scheds si (dq_aggs dq) (dq_cs dq) (dq_aggs dq') (dq_cs dq')"
  proof (rule sched_stepI)
    assume f: "focus_ok scheds si (dq_aggs dq) (dq_cs dq)"
    from step_view [OF view [OF focus_wf(1) [OF f]], of "dq_cs dq'" "dq_cs dq" scheds si] f c q(1)
    show "focus_ok scheds si (dq_aggs dq') (dq_cs dq') \<and> same_cfg (dq_aggs dq) (dq_aggs dq') \<and> cs_cfg (dq_cs dq') = cs_cfg (dq_cs dq)"
      by (simp add: sched_step_def)
  qed
  then have "deq_move lens scheds si tin dq tin' dq'"
    using S q c by (auto simp: deq_move_def tin_move_def tin_ok_def)
  with p r S flow_core_eq(5,7) [OF core] flow_keep_core [OF k] show ?thesis by (auto simp: one_done_def)
qed

lemma one_gone:
  assumes inv: "tin_inv lens tin nw od dc" and v: "flow_valid (t_flows tin) i" and lens: "deq_lens lens dq"
    and f: "f = t_flows tin ! unat i" and n: "cake_flow_queue_len f \<noteq> 0" and bi: "bi = f_ring f ! ring_slot (f_head f)"
    and k: "flow_keep g = flow_keep (f\<lparr>f_head := f_head f + 1, f_backlog := f_backlog f - lens bi, f_deficit := d\<rparr>)"
    and d: "r = DEQ_SENT \<or> d = f_deficit f"
    and p: "slot_put i g tin tin'"
    and c: "cs_cfg cs = cs_cfg (dq_cs dq)" "cs_buffer_usage cs = cs_buffer_usage (dq_cs dq) - lens bi" "cs_queued cs = cs_queued (dq_cs dq) - 1"
      "cs_tins cs = cs_tins (dq_cs dq)" "drr_active (cs_drr cs) = drr_active (cs_drr (dq_cs dq))"
    and q: "dq_cs dq' = cs" "deq_gone dq' = add_mset bi (deq_gone dq)" "deq_lens lens dq'" "deq_spent dq' = deq_spent dq"
    and view: "aggs_wf (dq_aggs dq) \<Longrightarrow> same_view (dq_aggs dq) aggs" "dq_aggs dq' = cake_agg_discharge aggs cs (lens bi)"
    and r: "r = DEQ_SENT \<or> r = DEQ_DROPPED"
  shows "one_done lens scheds si i tin dq r tin' dq'"
proof -
  have core: "flow_core g = flow_core (f\<lparr>f_head := f_head f + 1, f_backlog := f_backlog f - lens bi\<rparr>)"
    using flow_keep_core [OF k] by (simp add: flow_core_def)
  note S = slot_pop [OF inv v p n [unfolded f] bi [unfolded f] core [unfolded f]]
  let ?cs = "(dq_cs dq)\<lparr>cs_dropped_pkts := 0\<rparr>"
  have "sched_step scheds si (dq_aggs dq) (dq_cs dq) (dq_aggs dq') (dq_cs dq')"
  proof (rule sched_stepI)
    assume fo: "focus_ok scheds si (dq_aggs dq) (dq_cs dq)"
    have "sched_step scheds si (dq_aggs dq) (dq_cs dq) aggs (dq_cs dq)"
      by (rule step_view [OF view(1) [OF focus_wf(1) [OF fo]]]) simp_all
    moreover have "sched_step scheds si aggs (dq_cs dq) (cake_agg_discharge aggs (dq_cs dq) (lens bi)) cs"
      by (rule step_discharge) (use c in simp_all)
    moreover have "cake_agg_discharge aggs (dq_cs dq) (lens bi) = cake_agg_discharge aggs cs (lens bi)"
      using c(1) by (simp add: cake_agg_discharge_def cs_cfg_def)
    ultimately show "focus_ok scheds si (dq_aggs dq') (dq_cs dq') \<and> same_cfg (dq_aggs dq) (dq_aggs dq') \<and> cs_cfg (dq_cs dq') = cs_cfg (dq_cs dq)"
      using fo q(1) view(2) sched_step_trans by (metis sched_step_def)
  qed
  then have "deq_move lens scheds si tin dq tin' dq'"
    using S q c by (auto simp: deq_move_def tin_move_def tin_ok_def)
  with p r S flow_core_eq(5) [OF core] flow_keep_core [OF k] f d show ?thesis by (auto simp: one_done_def)
qed

lemma one_move:
  assumes inv: "tin_inv lens tin nw od dc" and v: "flow_valid (t_flows tin) i" and lens: "deq_lens lens dq"
    and n: "cake_flow_queue_len (t_flows tin ! unat i) \<noteq> 0" and b: "0 < dq_budget dq"
    and one: "cake_dequeue_one ex now_us now thread i tin dq = (r, tin', dq')"
  shows "one_done lens scheds si i tin dq r tin' dq'"
proof -
  define f where "f = t_flows tin ! unat i"
  define bi where "bi = f_ring f ! ring_slot (f_head f)"
  let ?b = "dq_bufs dq bi" let ?adj = "cake_overhead_adjust (dq_cs dq) (lens bi)"
  have bl: "b_len ?b = lens bi" using lens by (simp add: deq_lens_def)
  obtain drr cs1 where adm: "cake_sched_drr_admit (dq_aggs dq) (dq_cs dq) now = (drr, cs1)" by fastforce
  obtain child where cs1: "cs1 = (dq_cs dq)\<lparr>cs_drr := child\<rparr>" "drr_active child = drr_active (cs_drr (dq_cs dq))"
    "drr_weight child = drr_weight (cs_drr (dq_cs dq))" by (rule drr_admit_fields [OF adm])
  let ?bulk = "if t_bulk_count tin > 0 then t_bulk_count tin else 1"
  obtain d m f2 seed where sd: "cobalt_should_drop (ex_random_u32 ex) (f\<lparr>f_head := f_head f + 1\<rparr>) cs1
      (now_us - b_enqueue_us ?b) now_us ?bulk (cake_ecn_capable ?b) (dq_seed dq) = (d, m, f2, seed)" by (metis prod_cases4)
  have K: "flow_keep f2 = flow_keep (f\<lparr>f_head := f_head f + 1\<rparr>)" by (rule should_drop_keep [OF sd])
  then have K': "f_head f2 = f_head f + 1" "f_backlog f2 = f_backlog f" "f_deficit f2 = f_deficit f"
    by (simp_all add: flow_keep_def flow_core_def)
  obtain pr aggs where gt: "cake_agg_dequeue_gate (dq_aggs dq) cs1 ?adj now thread = (pr, aggs)" by fastforce
  have ne: "cake_flow_queue_len f \<noteq> 0" using n by (simp add: f_def)
  note D = one [unfolded cake_dequeue_one_def Let_def, folded f_def bi_def, simplified ne adm bl]
  have lb: "deq_lens lens (dq\<lparr>dq_bufs := (dq_bufs dq)(bi := if m then snd (cake_ecn_mark ex ?b) else ?b)\<rparr>)"
    using lens bl by (simp add: deq_lens_def)
  have gv: "aggs_wf (dq_aggs dq) \<Longrightarrow> same_view (dq_aggs dq) aggs" by (rule gate_view [OF _ gt])
  have lk: "f_next f2 = f_next (t_flows tin ! unat i)" "f_prev f2 = f_prev (t_flows tin ! unat i)"
    using K by (simp_all add: flow_keep_def f_def)
  show ?thesis
  proof (cases "drr = DRR_BLOCKED")
    case True
    with D have r: "r = DEQ_DRR_BLOCKED" "tin' = tin" "dq' = dq\<lparr>dq_cs := cs1\<lparr>cs_drr_blocked := cs_drr_blocked cs1 + 1\<rparr>\<rparr>"
      by simp_all
    show ?thesis
      by (rule one_stay [OF inv lens, where g = f and cs = "dq_cs dq'"])
        (use r cs1 lens in \<open>simp_all add: f_def cs_cfg_def deq_gone_def deq_lens_def deq_spent_def slot_put_def\<close>)
  next
    case nb: False
    show ?thesis
    proof (cases d)
      case True
      let ?cs = "cs1\<lparr>cs_buffer_usage := cs_buffer_usage cs1 - lens bi, cs_queued := cs_queued cs1 - 1,
          cs_dropped_pkts := cs_dropped_pkts cs1 + 1\<rparr>"
      from True D nb sd have r: "r = DEQ_DROPPED"
        "tin' = tin\<lparr>t_drops := t_drops tin + 1, t_flows := (t_flows tin)[unat i := f2\<lparr>f_backlog := f_backlog f2 - lens bi\<rparr>]\<rparr>"
        "dq' = dq\<lparr>dq_seed := seed, dq_cs := ?cs, dq_aggs := cake_agg_discharge (dq_aggs dq) ?cs (lens bi),
          dq_freed := dq_freed dq @ [bi]\<rparr>"
        by (simp_all add: deq_unaccount_def)
      have p: "slot_put i (f2\<lparr>f_backlog := f_backlog f2 - lens bi\<rparr>) tin tin'"
        unfolding r(2) by (rule slot_put_upd) (simp_all add: lk)
      show ?thesis
        by (rule one_gone [OF inv v lens f_def ne bi_def _ _ p, where d = "f_deficit f" and cs = ?cs and aggs = "dq_aggs dq"])
          (use r(1,3) cs1 lens K K' in \<open>simp_all add: cs_cfg_def deq_gone_def deq_lens_def deq_spent_def flow_keep_def flow_core_def\<close>)
    next
      case False
      let ?bufs = "(dq_bufs dq)(bi := if m then snd (cake_ecn_mark ex ?b) else ?b)"
      have em: "t_drops tin = t_drops tin" ..
      show ?thesis
      proof (cases "pr = PARENT_OK")
        case True
        let ?cs = "deq_sent now (lens bi) ?adj drr (cs1\<lparr>cs_buffer_usage := cs_buffer_usage cs1 - lens bi, cs_queued := cs_queued cs1 - 1\<rparr>)"
        let ?g = "f2\<lparr>f_backlog := f_backlog f2 - lens bi, f_deficit := f_deficit f2 - sint ?adj\<rparr>"
        from True False D nb sd gt have r: "r = DEQ_SENT"
          "tin' = (if m then tin\<lparr>t_ecn_marks := t_ecn_marks tin + 1\<rparr> else tin)\<lparr>t_flows := (t_flows tin)[unat i := ?g]\<rparr>"
          "dq' = dq\<lparr>dq_seed := seed, dq_cs := ?cs, dq_aggs := cake_agg_discharge aggs ?cs (lens bi),
             dq_bufs := ?bufs(bi := (?bufs bi)\<lparr>b_scheduled := True\<rparr>), dq_budget := dq_budget dq - 1,
             dq_out := dq_out dq @ [(bi, is_ip4 (?bufs bi))]\<rparr>"
          by (cases m; simp add: deq_unaccount_def)+
        have dr: "cs_drr ?cs = (if drr = DRR_ADMIT then cake_drr_local_charge child ?adj else child)"
          by (simp add: deq_sent_def cs1 Let_def)
        have c: "cs_cfg ?cs = cs_cfg (dq_cs dq)" "cs_buffer_usage ?cs = cs_buffer_usage (dq_cs dq) - lens bi"
          "cs_queued ?cs = cs_queued (dq_cs dq) - 1" "cs_tins ?cs = cs_tins (dq_cs dq)"
          "drr_active (cs_drr ?cs) = drr_active (cs_drr (dq_cs dq))"
          unfolding cs_cfg_def dr by (simp_all add: deq_sent_def cs1 cake_drr_local_charge_def Let_def)
        have p: "slot_put i ?g tin tin'"
          unfolding r(2) using lk by (cases m) (simp_all add: slot_put_upd)
        show ?thesis
          by (rule one_gone [OF inv v lens f_def ne bi_def _ _ p, where d = "f_deficit f2 - sint ?adj" and cs = ?cs and aggs = aggs])
            (use r(1,3) c K K' gv lens b bl in \<open>simp_all add: deq_gone_def deq_lens_def deq_spent_def flow_keep_def flow_core_def\<close>)
      next
        case nok: False
        let ?r = "if pr = PARENT_DRR_BLOCKED then DEQ_DRR_BLOCKED else DEQ_GATE_CLOSED"
        let ?cs = "if pr = PARENT_DRR_BLOCKED then cs1\<lparr>cs_drr_blocked := cs_drr_blocked cs1 + 1\<rparr>
          else cs1\<lparr>cs_parent_blocked := cs_parent_blocked cs1 + 1\<rparr>"
        have ga: "dq_aggs (dq\<lparr>dq_seed := seed\<rparr>) = dq_aggs dq" "dq_bufs (dq\<lparr>dq_seed := seed\<rparr>) = dq_bufs dq" by simp_all
        note D2 = D [simplified nb sd False if_False if_True prod.case ga gt nok not_False_eq_True]
        have r: "r = ?r"
          "tin' = (if m then tin\<lparr>t_ecn_marks := t_ecn_marks tin + 1\<rparr> else tin)
             \<lparr>t_flows := (t_flows tin)[unat i := f2\<lparr>f_head := f_head f2 - 1\<rparr>]\<rparr>"
          "dq' = dq\<lparr>dq_seed := seed, dq_cs := ?cs, dq_aggs := aggs, dq_bufs := ?bufs\<rparr>"
          using D2 apply -
          subgoal by (cases "pr = PARENT_DRR_BLOCKED") (simp_all only: if_True if_False simp_thms prod.inject)
          subgoal by (cases m; cases "pr = PARENT_DRR_BLOCKED"; simp)
          subgoal by (cases "pr = PARENT_DRR_BLOCKED") (simp_all only: if_True if_False simp_thms prod.inject)
          done
        have p: "slot_put i (f2\<lparr>f_head := f_head f2 - 1\<rparr>) tin tin'"
          unfolding r(2) using lk by (cases m) (simp_all add: slot_put_upd)
        have c: "cs_cfg ?cs = cs_cfg (dq_cs dq)" "cs_buffer_usage ?cs = cs_buffer_usage (dq_cs dq)"
          "cs_queued ?cs = cs_queued (dq_cs dq)" "cs_tins ?cs = cs_tins (dq_cs dq)"
          "drr_active (cs_drr ?cs) = drr_active (cs_drr (dq_cs dq))"
          by (simp_all add: cs1 cs_cfg_def)
        have k: "flow_keep (f2\<lparr>f_head := f_head f2 - 1\<rparr>) = flow_keep (t_flows tin ! unat i)"
          using K K' by (simp add: flow_keep_def flow_core_def f_def)
        have q: "dq_cs dq' = ?cs" "deq_gone dq' = deq_gone dq" "deq_spent dq' = deq_spent dq" "dq_aggs dq' = aggs"
          by (simp_all add: r(3) deq_gone_def deq_spent_def)
        have ql: "deq_lens lens dq'" using lens bl by (simp add: r(3) deq_lens_def)
        show ?thesis
          by (rule one_stay [OF inv lens k p c q(1,2) ql q(3)]) (use gv q(4) r(1) in \<open>simp_all split: if_splits\<close>)
      qed
    qed
  qed
qed

section \<open>Work left in a tin\<close>

fun state_rank :: "cake_flow_state \<Rightarrow> nat" where
  "state_rank FLOW_NONE = 0" | "state_rank FLOW_SPARSE = 1" | "state_rank FLOW_BULK = 2" | "state_rank FLOW_DECAYING = 1"

definition tin_rank :: "cake_tin \<Rightarrow> nat" where
  "tin_rank t = (\<Sum>f\<leftarrow>t_flows t. state_rank (f_state f))"

definition tin_debt :: "cake_tin \<Rightarrow> nat" where
  "tin_debt t = (\<Sum>f\<leftarrow>t_flows t. nat (1 - f_deficit f))"

text \<open>A step that takes a packet out, or brings a flow closer to its end, or pays off debt.\<close>

definition less_work :: "cake_tin \<Rightarrow> cake_tin \<Rightarrow> bool" where
  "less_work t' t \<longleftrightarrow> size (tin_bufs t') < size (tin_bufs t) \<or> size (tin_bufs t') = size (tin_bufs t) \<and>
     (tin_rank t' < tin_rank t \<or> tin_rank t' = tin_rank t \<and> tin_debt t' < tin_debt t)"

lemma card_listed:
  assumes "distinct (xs :: u32 list)" and "\<And>x. x \<in> set xs \<Longrightarrow> unat x < n"
    and "\<And>k. k < n \<Longrightarrow> P k \<longleftrightarrow> word_of_nat k \<in> set xs" and "n < 2 ^ 32"
  shows "(\<Sum>k<n. if P k then 1 else 0) = length xs"
proof -
  have "{k \<in> {..<n}. P k} = unat ` set xs"
  proof (intro set_eqI iffI)
    fix k assume "k \<in> {k \<in> {..<n}. P k}"
    then have "word_of_nat k \<in> set xs" "unat (word_of_nat k :: u32) = k" using assms by (auto simp: unat_of_nat)
    then show "k \<in> unat ` set xs" by (metis imageI)
  qed (use assms in auto)
  moreover have "inj_on unat (set xs)" by (simp add: inj_on_def word_unat_eq_iff)
  ultimately have "card {k \<in> {..<n}. P k} = length xs" using assms(1) by (simp add: card_image distinct_card)
  then show ?thesis by (simp add: sum.If_cases Int_def)
qed

lemma rank_lists:
  assumes inv: "tin_inv lens t nw od dc"
  shows "tin_rank t = length nw + 2 * length od + length dc"
proof -
  let ?s = "\<lambda>k. f_state (t_flows t ! k)"
  note I = tin_invD [OF inv]
  have w: "k < CAKE_QUEUES \<Longrightarrow> unat (word_of_nat k :: u32) = k" for k by (simp add: unat_of_nat CAKE_QUEUES_def)
  have v: "k < CAKE_QUEUES \<Longrightarrow> flow_valid (t_flows t) (word_of_nat k)" for k using w I(4) by (simp add: flow_valid_def)
  have mem: "k < CAKE_QUEUES \<Longrightarrow> ?s k = FLOW_SPARSE \<longleftrightarrow> word_of_nat k \<in> set nw"
    "k < CAKE_QUEUES \<Longrightarrow> ?s k = FLOW_BULK \<longleftrightarrow> word_of_nat k \<in> set od"
    "k < CAKE_QUEUES \<Longrightarrow> ?s k = FLOW_DECAYING \<longleftrightarrow> word_of_nat k \<in> set dc" for k
    using tin_inv_at(2-4) [OF inv v, of k] w [of k] by simp_all
  have lt: "x \<in> set (nw @ od @ dc) \<Longrightarrow> unat x < CAKE_QUEUES" for x
    using tin_inv_member [OF inv] I(4) by (simp add: flow_valid_def)
  have s: "(\<Sum>k<CAKE_QUEUES. if ?s k = FLOW_SPARSE then 1 else 0) = length nw"
    "(\<Sum>k<CAKE_QUEUES. if ?s k = FLOW_BULK then 1 else 0) = length od"
    "(\<Sum>k<CAKE_QUEUES. if ?s k = FLOW_DECAYING then 1 else 0) = length dc"
    using lt mem I(5-7) by (auto intro!: card_listed simp: CAKE_QUEUES_def)
  have "state_rank x = (if x = FLOW_SPARSE then 1 else 0) + 2 * (if x = FLOW_BULK then 1 else 0) + (if x = FLOW_DECAYING then 1 else 0)" for x
    by (cases x) simp_all
  then have "tin_rank t = (\<Sum>k<CAKE_QUEUES. (if ?s k = FLOW_SPARSE then 1 else 0) + 2 * (if ?s k = FLOW_BULK then 1 else 0)
      + (if ?s k = FLOW_DECAYING then 1 else 0))"
    by (simp add: tin_rank_def sum_list_sum_nth I(4) atLeast0LessThan)
  then show ?thesis using s by (simp add: sum.distrib sum_distrib_left [symmetric])
qed

lemma debt_slot:
  assumes "slot_put i g t t'" and "flow_valid (t_flows t) i"
  shows "tin_debt t' + nat (1 - f_deficit (t_flows t ! unat i)) = tin_debt t + nat (1 - f_deficit g)"
  using assms sum_list_update_add [of "unat i" "map (\<lambda>f. nat (1 - f_deficit f)) (t_flows t)" "nat (1 - f_deficit g)"]
  by (simp add: tin_debt_def slot_put_def flow_valid_def map_update)

lemma debt_bodies: "map flow_body (t_flows t') = map flow_body (t_flows t) \<Longrightarrow> tin_debt t' = tin_debt t"
  unfolding tin_debt_def
  by (rule arg_cong [where f = sum_list], erule map_respects, drule flow_body_eq(2)) simp

section \<open>Visits of a flow\<close>

lemma reclaim_visit:
  assumes inv: "tin_inv lens tin nw od dc" and v: "flow_valid (t_flows tin) i" and lens: "deq_lens lens dq"
    and s: "s = f_state (t_flows tin ! unat i)" "s \<noteq> FLOW_NONE" and e: "cake_flow_queue_len (t_flows tin ! unat i) = 0"
    and rc: "cake_flow_reclaim tin (dq_cs dq) i (unlink_flow s) now = (tin', freed)"
  shows "freed = []" "deq_move lens scheds si tin dq tin' dq" "less_work tin' tin" "tin_bufs tin' = tin_bufs tin"
proof -
  note R = reclaim_tin [OF inv v s e rc]
  show "freed = []" "tin_bufs tin' = tin_bufs tin" using R by simp_all
  show "deq_move lens scheds si tin dq tin' dq" using R lens by (auto simp: deq_move_def tin_move_def tin_ok_def)
  have m: "i \<in> set (nw @ od @ dc)" using tin_inv_at(2-4) [OF inv v] s by (cases s) auto
  have "length (remove1 i nw) + 2 * length (remove1 i od) + length (remove1 i dc) < length nw + 2 * length od + length dc"
  proof -
    have le: "length (remove1 i xs) \<le> length xs" for xs :: "u32 list" by (simp add: length_remove1)
    show ?thesis using m counts_remove [of i nw] counts_remove [of i od] counts_remove [of i dc] le [of nw] le [of od] le [of dc]
      by auto
  qed
  then have "tin_rank tin' < tin_rank tin" by (simp add: rank_lists [OF inv] rank_lists [OF R(1)])
  with R(4) show "less_work tin' tin" by (simp add: less_work_def)
qed

lemma unlink_names: "new_remove = unlink_flow FLOW_SPARSE" "old_remove = unlink_flow FLOW_BULK" "decaying_remove = unlink_flow FLOW_DECAYING"
  by (simp_all add: unlink_flow_def fun_eq_iff)

lemma one_doneD:
  assumes "one_done lens scheds si i tin dq r tin' dq'" and "flow_valid (t_flows tin) i"
  shows "deq_move lens scheds si tin dq tin' dq'" "flow_valid (t_flows tin') i"
    "f_state (t_flows tin' ! unat i) = f_state (t_flows tin ! unat i)" "r \<noteq> DEQ_EMPTY"
    "deq_blocked r \<Longrightarrow> tin_bufs tin' = tin_bufs tin \<and> cake_flow_queue_len (t_flows tin' ! unat i) = cake_flow_queue_len (t_flows tin ! unat i)"
    "\<not> deq_blocked r \<Longrightarrow> size (tin_bufs tin') < size (tin_bufs tin) \<and>
      unat (cake_flow_queue_len (t_flows tin' ! unat i)) < unat (cake_flow_queue_len (t_flows tin ! unat i))"
proof -
  obtain g where p: "slot_put i g tin tin'" and g: "f_state g = f_state (t_flows tin ! unat i)"
    and c: "if r = DEQ_SENT \<or> r = DEQ_DROPPED
        then unat (cake_flow_queue_len g) < unat (cake_flow_queue_len (t_flows tin ! unat i)) \<and>
          size (tin_bufs tin') < size (tin_bufs tin)
        else r \<noteq> DEQ_EMPTY \<and> cake_flow_queue_len g = cake_flow_queue_len (t_flows tin ! unat i) \<and>
          tin_bufs tin' = tin_bufs tin"
    using assms(1) by (auto simp: one_done_def)
  have at: "t_flows tin' ! unat i = g" "flow_valid (t_flows tin') i"
    using p assms(2) by (simp_all add: slot_put_def flow_valid_def)
  show "deq_move lens scheds si tin dq tin' dq'" using assms(1) by (simp add: one_done_def)
  show "flow_valid (t_flows tin') i" "f_state (t_flows tin' ! unat i) = f_state (t_flows tin ! unat i)" using at g by simp_all
  show "r \<noteq> DEQ_EMPTY" using c by (auto split: if_splits)
  show "deq_blocked r \<Longrightarrow> tin_bufs tin' = tin_bufs tin \<and> cake_flow_queue_len (t_flows tin' ! unat i) = cake_flow_queue_len (t_flows tin ! unat i)"
    using c at by (auto simp: deq_blocked_def split: if_splits)
  show "\<not> deq_blocked r \<Longrightarrow> size (tin_bufs tin') < size (tin_bufs tin) \<and>
      unat (cake_flow_queue_len (t_flows tin' ! unat i)) < unat (cake_flow_queue_len (t_flows tin ! unat i))"
    using c at by (cases r) (auto simp: deq_blocked_def)
qed

lemma deq_move_ok: "deq_move lens scheds si tin dq tin' dq' \<Longrightarrow> tin_ok lens tin' \<and> deq_lens lens dq'"
  by (simp add: deq_move_def tin_move_def)

lemma less_work_trans: "less_work a b \<Longrightarrow> less_work b c \<Longrightarrow> less_work a c"
  by (auto simp: less_work_def)

lemma deq_freed_same: "dq\<lparr>dq_freed := dq_freed dq @ []\<rparr> = dq"
  by simp

lemma sparse_visit:
  assumes ok: "tin_ok lens tin" and v: "flow_valid (t_flows tin) i" and lens: "deq_lens lens dq" and b: "0 < dq_budget dq"
    and s: "f_state (t_flows tin ! unat i) = FLOW_SPARSE"
    and e: "cake_dequeue_sparse ex now_us now thread i tin dq = (r, tin', dq')"
  shows "deq_move lens scheds si tin dq tin' dq'" "r = DEQ_LEAVE \<or> less_work tin' tin"
proof -
  obtain nw od dc where inv: "tin_inv lens tin nw od dc" using ok by (auto simp: tin_ok_def)
  have "deq_move lens scheds si tin dq tin' dq' \<and> (r = DEQ_LEAVE \<or> less_work tin' tin)"
  proof (cases "cake_flow_queue_len (t_flows tin ! unat i) = 0")
    case True
    obtain t1 fr where rc: "cake_flow_reclaim tin (dq_cs dq) i (unlink_flow FLOW_SPARSE) now_us = (t1, fr)" by fastforce
    note R = reclaim_visit [OF inv v lens s [symmetric] _ True rc]
    from e True rc R(1) have "tin' = t1" "dq' = dq" by (simp_all add: cake_dequeue_sparse_def unlink_names)
    with R(2,3) show ?thesis by simp
  next
    case False
    obtain x t1 dq1 where one: "cake_dequeue_one ex now_us now thread i tin dq = (x, t1, dq1)" by (metis prod_cases3)
    note O = one_doneD [OF one_move [OF inv v lens False b one] v]
    have ok1: "tin_ok lens t1" and lens1: "deq_lens lens dq1" using deq_move_ok [OF O(1)] by simp_all
    show ?thesis
    proof (cases "cake_flow_queue_len (t_flows t1 ! unat i) = 0")
      case True
      obtain nw1 od1 dc1 where inv1: "tin_inv lens t1 nw1 od1 dc1" using ok1 by (auto simp: tin_ok_def)
      obtain t2 fr where rc: "cake_flow_reclaim t1 (dq_cs dq1) i (unlink_flow FLOW_SPARSE) now_us = (t2, fr)" by fastforce
      have s1: "FLOW_SPARSE = f_state (t_flows t1 ! unat i)" using O(3) s by simp
      note R = reclaim_visit [OF inv1 O(2) lens1 s1 _ True rc]
      have nb: "\<not> deq_blocked x" using O(5) False True by auto
      from e False one True rc R(1) have r: "tin' = t2" "dq' = dq1"
        by (simp_all add: cake_dequeue_sparse_def unlink_names)
      have "less_work t1 tin" using O(6) [OF nb] by (simp add: less_work_def)
      with r deq_move_trans [OF O(1) R(2)] less_work_trans [OF R(3)] show ?thesis by simp
    next
      case ne: False
      from e False one ne have r: "tin' = t1" "dq' = dq1" "r = (if deq_blocked x \<or> now < cs_shaper_time (dq_cs dq1) then DEQ_LEAVE else DEQ_CONTINUE)"
        by (auto simp: cake_dequeue_sparse_def)
      have "\<not> deq_blocked x \<Longrightarrow> less_work t1 tin" using O(6) by (simp add: less_work_def)
      with r O(1) show ?thesis by auto
    qed
  qed
  then show "deq_move lens scheds si tin dq tin' dq'" "r = DEQ_LEAVE \<or> less_work tin' tin" by simp_all
qed

lemma empty_visit:
  assumes inv: "tin_inv lens tin nw od dc" and v: "flow_valid (t_flows tin) i" and lens: "deq_lens lens dq"
    and s: "f_state (t_flows tin ! unat i) = FLOW_BULK \<or> f_state (t_flows tin ! unat i) = FLOW_DECAYING"
    and z: "cake_flow_queue_len (t_flows tin ! unat i) = 0"
    and e: "deq_flow_empty now_us i tin dq = (tin', dq')"
  shows "deq_move lens scheds si tin dq tin' dq' \<and> tin_bufs tin' = tin_bufs tin \<and> tin_rank tin' < tin_rank tin"
proof (cases "f_state (t_flows tin ! unat i) = FLOW_BULK")
  case False
  then have d: "f_state (t_flows tin ! unat i) = FLOW_DECAYING" using s by simp
  obtain t1 fr where rc: "cake_flow_reclaim tin (dq_cs dq) i (unlink_flow FLOW_DECAYING) now_us = (t1, fr)" by fastforce
  note R = reclaim_visit [OF inv v lens d [symmetric] _ z rc]
  from e d rc R(1) have "tin' = t1" "dq' = dq" by (simp_all add: deq_flow_empty_def unlink_names)
  moreover have "tin_rank t1 < tin_rank tin"
  proof -
    have "i \<in> set dc" using tin_inv_at(4) [OF inv v] d by simp
    moreover have "i \<notin> set nw" "i \<notin> set od" using tin_inv_at(2,3) [OF inv v] d by simp_all
    moreover note reclaim_tin(1) [OF inv v d [symmetric] _ z rc]
    ultimately show ?thesis using rank_lists [OF inv] rank_lists [of lens t1] counts_remove [of i dc]
      by (simp add: remove1_idem)
  qed
  ultimately show ?thesis using R by simp
next
  case True
  let ?f = "t_flows tin ! unat i" let ?g = "?f\<lparr>f_state := FLOW_DECAYING\<rparr>"
  define t1 where "t1 = tin\<lparr>t_hosts := host_bulk_dec (f_dst_host ?f) (t_hosts tin), t_flows := (t_flows tin)[unat i := ?g]\<rparr>"
  define t2 where "t2 = decaying_append i (old_remove i t1)"
  from e True have r: "tin' = t2\<lparr>t_bulk_count := t_bulk_count t2 - 1\<rparr>" "dq' = dq"
    by (auto simp: deq_flow_empty_def t2_def t1_def flow_upd_def Let_def)
  have io: "i \<in> set od" using tin_inv_at(3) [OF inv v] True by simp
  have d1: "tin_dll t1 nw od dc"
    by (rule dll_slot [OF tin_invD(1) [OF inv], of t1 i ?g]) (simp_all add: t1_def)
  have d2: "tin_dll t2 nw (remove1 i od) (dc @ [i])" unfolding t2_def by (rule dll_bulk_decaying [OF d1 io])
  have fl: "t_flows tin' = t_flows t2" by (simp add: r)
  have c1: "tin_cores t1 = (tin_cores tin)[unat i := flow_core ?g]" by (rule cores_slot) (simp add: t1_def)
  have c: "tin_cores tin' = (tin_cores tin)[unat i := flow_core ?g]"
    using c1 by (simp add: tin_cores_def [of tin'] fl flip: tin_cores_def) (simp add: t2_def)
  note ok = tin_inv_at(1) [OF inv v]
  have g: "flow_ok lens ?g"
    using ok z True flow_okD(2,3) [OF ok] by (simp add: flow_ok_def flow_queue_def cake_flow_queue_len_def)
  have ne: "i \<notin> set nw" "i \<notin> set dc" using tin_inv_at(2,4) [OF inv v] True by simp_all
  have n: "tin_counts tin' (length nw) (length (remove1 i od)) (length (dc @ [i]))"
    using tin_invD(2) [OF inv] counts_remove [OF io] by (simp add: tin_counts_def r t2_def t1_def)
  have i: "tin_inv lens tin' nw (remove1 i od) (dc @ [i])"
  proof (rule tin_inv_change [OF inv v c g])
    show "tin_dll tin' nw (remove1 i od) (dc @ [i])"
      by (rule tin_dll_cong [OF d2]) (simp_all add: r)
    show "tags_ok (t_flow_tags tin')" using tin_invD(3) [OF inv] by (simp add: r t2_def t1_def)
  qed (use ne io tin_invD(6) [OF inv] n in auto)
  have q: "flow_queue ?g = flow_queue ?f" "cake_flow_queue_len ?g = cake_flow_queue_len ?f"
    by (simp_all add: flow_queue_def cake_flow_queue_len_def)
  note S = sums_slot [OF c v]
  have "tin_rank tin' < tin_rank tin"
    using rank_lists [OF inv] rank_lists [OF i] counts_remove [OF io] by simp
  moreover have "deq_move lens scheds si tin dq tin' dq'"
    using S q lens i by (auto simp: deq_move_def tin_move_def tin_ok_def r(2))
  ultimately show ?thesis using S q by simp
qed

text \<open>The inner loop ends: each turn takes a packet out of the flow.\<close>

lemma flow_visit:
  assumes ok: "tin_ok lens tin" and v: "flow_valid (t_flows tin) i" and lens: "deq_lens lens dq"
    and s: "f_state (t_flows tin ! unat i) = FLOW_BULK \<or> f_state (t_flows tin ! unat i) = FLOW_DECAYING"
  shows "\<exists>r tin' dq'. cake_dequeue_flow ex now_us now thread i tin dq = Some (r, tin', dq') \<and>
    deq_move lens scheds si tin dq tin' dq' \<and> flow_valid (t_flows tin') i \<and>
    (r = DEQ_LEAVE \<or>
     (size (tin_bufs tin') < size (tin_bufs tin) \<or> tin_bufs tin' = tin_bufs tin \<and> tin_rank tin' < tin_rank tin) \<or>
     tin' = tin \<and> dq' = dq \<and> (f_deficit (t_flows tin ! unat i) \<le> 0 \<or> dq_budget dq = 0))"
  using assms
proof (induction "unat (cake_flow_queue_len (t_flows tin ! unat i))" arbitrary: tin dq rule: less_induct)
  case less
  obtain nw od dc where inv: "tin_inv lens tin nw od dc" using less.prems(1) by (auto simp: tin_ok_def)
  note v = less.prems(2) and lens = less.prems(3) and s = less.prems(4)
  show ?case
  proof (cases "f_deficit (t_flows tin ! unat i) > 0 \<and> dq_budget dq > 0")
    case False
    then have "cake_dequeue_flow ex now_us now thread i tin dq = Some (DEQ_CONTINUE, tin, dq)"
      by (subst cake_dequeue_flow.simps) (rule if_not_P)
    then show ?thesis using False v deq_move_refl [OF less.prems(1) lens] by auto
  next
    case go: True
    show ?thesis
    proof (cases "cake_flow_queue_len (t_flows tin ! unat i) = 0")
      case True
      obtain t1 dq1 where e: "deq_flow_empty now_us i tin dq = (t1, dq1)" by fastforce
      note E = empty_visit [OF inv v lens s True e]
      have "cake_dequeue_flow ex now_us now thread i tin dq = Some (DEQ_CONTINUE, t1, dq1)"
        using go True e by (subst cake_dequeue_flow.simps) simp
      moreover have "flow_valid (t_flows t1) i"
        using deq_move_ok [of lens scheds si tin dq t1 dq1] E v tin_invD(4) [OF inv] tin_invD(4)
        by (auto simp: tin_ok_def flow_valid_def)
      ultimately show ?thesis using E by blast
    next
      case False
      obtain x t1 dq1 where one: "cake_dequeue_one ex now_us now thread i tin dq = (x, t1, dq1)" by (metis prod_cases3)
      have b: "0 < dq_budget dq" using go by simp
      note O = one_doneD [OF one_move [OF inv v lens False b one] v]
      have ok1: "tin_ok lens t1" "deq_lens lens dq1" using deq_move_ok [OF O(1)] by simp_all
      show ?thesis
      proof (cases "deq_blocked x \<or> now < cs_shaper_time (dq_cs dq1)")
        case True
        then have "cake_dequeue_flow ex now_us now thread i tin dq = Some (DEQ_LEAVE, t1, dq1)"
          using go False one by (subst cake_dequeue_flow.simps) simp
        with O show ?thesis by blast
      next
        case nb: False
        then have eq: "cake_dequeue_flow ex now_us now thread i tin dq = cake_dequeue_flow ex now_us now thread i t1 dq1"
          using go False one by (subst cake_dequeue_flow.simps) simp
        have sz: "size (tin_bufs t1) < size (tin_bufs tin)"
          "unat (cake_flow_queue_len (t_flows t1 ! unat i)) < unat (cake_flow_queue_len (t_flows tin ! unat i))"
          using O(6) nb by simp_all
        have s1: "f_state (t_flows t1 ! unat i) = FLOW_BULK \<or> f_state (t_flows t1 ! unat i) = FLOW_DECAYING"
          using s O(3) by simp
        from less.hyps [OF sz(2) ok1(1) O(2) ok1(2) s1] obtain r t2 dq2 where
          H: "cake_dequeue_flow ex now_us now thread i t1 dq1 = Some (r, t2, dq2)" "deq_move lens scheds si t1 dq1 t2 dq2"
            "flow_valid (t_flows t2) i"
            "r = DEQ_LEAVE \<or> (size (tin_bufs t2) < size (tin_bufs t1) \<or> tin_bufs t2 = tin_bufs t1 \<and> tin_rank t2 < tin_rank t1) \<or>
             t2 = t1 \<and> dq2 = dq1 \<and> (f_deficit (t_flows t1 ! unat i) \<le> 0 \<or> dq_budget dq1 = 0)"
          by blast
        have "r = DEQ_LEAVE \<or> size (tin_bufs t2) < size (tin_bufs tin)" using H(4) sz(1) by auto
        with eq H(1-3) deq_move_trans [OF O(1) H(2)] show ?thesis by auto
      qed
    qed
  qed
qed

lemma map_update_core: "(map c xs)[k := c (xs ! k)] = map c xs"
  by (simp flip: map_update)

lemma rotate_visit:
  assumes ok: "tin_ok lens tin" and v: "flow_valid (t_flows tin) i" and lens: "deq_lens lens dq"
  shows "deq_move lens scheds si tin dq (deq_rotate i tin) dq" "tin_bufs (deq_rotate i tin) = tin_bufs tin"
    "tin_rank (deq_rotate i tin) = tin_rank tin" "tin_debt (deq_rotate i tin) \<le> tin_debt tin"
proof -
  obtain nw od dc where inv: "tin_inv lens tin nw od dc" using ok by (auto simp: tin_ok_def)
  let ?f = "t_flows tin ! unat i"
  have "deq_move lens scheds si tin dq (deq_rotate i tin) dq \<and> tin_bufs (deq_rotate i tin) = tin_bufs tin \<and>
    tin_rank (deq_rotate i tin) = tin_rank tin \<and> tin_debt (deq_rotate i tin) \<le> tin_debt tin"
  proof (cases "f_deficit ?f \<le> 0 \<and> f_state ?f = FLOW_BULK \<and> cake_flow_queue_len ?f > 0")
    case False
    then have "deq_rotate i tin = tin" unfolding deq_rotate_def Let_def by (rule if_not_P)
    then show ?thesis using deq_move_refl [OF ok lens] by simp
  next
    case True
    define t1 where "t1 = old_append i (old_remove i tin)"
    define g where "g = (t_flows t1 ! unat i)\<lparr>f_deficit := 0\<rparr>"
    have r: "deq_rotate i tin = t1\<lparr>t_flows := (t_flows t1)[unat i := g]\<rparr>"
      using True by (simp add: deq_rotate_def t1_def g_def flow_upd_def Let_def)
    have io: "i \<in> set od" using tin_inv_at(3) [OF inv v] True by simp
    have d1: "tin_dll t1 nw (remove1 i od @ [i]) dc" unfolding t1_def by (rule dll_bulk_rotate [OF tin_invD(1) [OF inv] io])
    have c1: "tin_cores t1 = tin_cores tin" by (simp add: t1_def)
    have b1: "map flow_body (t_flows t1) = map flow_body (t_flows tin)" by (simp add: t1_def)
    have p: "slot_put i g t1 (deq_rotate i tin)" unfolding r by (rule slot_put_upd) (simp_all add: g_def)
    have v1: "flow_valid (t_flows t1) i" using v length_bodies [OF b1] by (simp add: flow_valid_def)
    have core: "flow_core g = flow_core (t_flows t1 ! unat i)" by (simp add: g_def flow_core_def)
    have i1: "tin_inv lens t1 nw (remove1 i od @ [i]) dc"
    proof (rule tin_inv_change [OF inv v _ _ d1])
      show "tin_cores t1 = (tin_cores tin)[unat i := flow_core ?f]"
        using c1 map_update_core [of flow_core] by (simp add: tin_cores_def)
      show "flow_ok lens ?f" by (rule tin_inv_at(1) [OF inv v])
      show "tin_counts t1 (length nw) (length (remove1 i od @ [i])) (length dc)"
        using tin_invD(2) [OF inv] counts_remove [OF io] by (simp add: tin_counts_def t1_def)
      show "tags_ok (t_flow_tags t1)" using tin_invD(3) [OF inv] by (simp add: t1_def)
    qed (use tin_inv_at(2-4) [OF inv v] True io tin_invD(6) [OF inv] in auto)
    note P = slot_put_keep [OF i1 p core]
    have "t_flows t1 ! unat i = t_flows t1 ! unat i" ..
    have "flow_body (t_flows t1 ! unat i) = flow_body ?f"
      using b1 v v1 by (metis flow_valid_def nth_map)
    then have def: "f_deficit (t_flows t1 ! unat i) = f_deficit ?f" by (rule flow_body_eq(2))
    have "tin_debt (deq_rotate i tin) + nat (1 - f_deficit ?f) = tin_debt tin + 1"
      using debt_slot [OF p v1] debt_bodies [OF b1] def by (simp add: g_def)
    then have "tin_debt (deq_rotate i tin) \<le> tin_debt tin" using True by linarith
    moreover have "tin_rank (deq_rotate i tin) = tin_rank tin"
      using rank_lists [OF inv] rank_lists [OF P(1)] counts_remove [OF io] by simp
    moreover have "deq_move lens scheds si tin dq (deq_rotate i tin) dq"
      using P sum_cores [OF c1] lens by (auto simp: deq_move_def tin_move_def tin_ok_def)
    ultimately show ?thesis using P(4) sum_cores(3) [OF c1] by simp
  qed
  then show "deq_move lens scheds si tin dq (deq_rotate i tin) dq" "tin_bufs (deq_rotate i tin) = tin_bufs tin"
    "tin_rank (deq_rotate i tin) = tin_rank tin" "tin_debt (deq_rotate i tin) \<le> tin_debt tin" by simp_all
qed

lemma quantum_pos: "0 < uint (cake_quantum_for_flow tin f)"
proof -
  have "cake_quantum_for_flow tin f \<noteq> 0" by (simp add: cake_quantum_for_flow_def Let_def)
  then show ?thesis by (simp add: word_neq_0_conv [symmetric] unsigned_greater_eq less_le uint_0_iff)
qed

lemma bulk_visit:
  assumes ok: "tin_ok lens tin" and v: "flow_valid (t_flows tin) i" and lens: "deq_lens lens dq" and b: "0 < dq_budget dq"
    and s: "f_state (t_flows tin ! unat i) = FLOW_BULK \<or> f_state (t_flows tin ! unat i) = FLOW_DECAYING"
  shows "\<exists>r tin' dq'. cake_dequeue_bulk ex now_us now thread i tin dq = Some (r, tin', dq') \<and>
    deq_move lens scheds si tin dq tin' dq' \<and> (r = DEQ_LEAVE \<or> less_work tin' tin)"
proof -
  obtain nw od dc where inv: "tin_inv lens tin nw od dc" using ok by (auto simp: tin_ok_def)
  let ?f = "t_flows tin ! unat i"
  let ?q = "uint (cake_quantum_for_flow tin ?f)"
  define g where "g = (if f_deficit ?f \<le> 0 then ?f\<lparr>f_deficit := f_deficit ?f + ?q\<rparr> else ?f)"
  define t0 where "t0 = (if f_deficit ?f \<le> 0 then tin\<lparr>t_flows := flow_upd i (\<lambda>f. f\<lparr>f_deficit := f_deficit f + uint (cake_quantum_for_flow tin f)\<rparr>) (t_flows tin)\<rparr> else tin)"
  have p: "slot_put i g tin t0"
  proof (cases "f_deficit ?f \<le> 0")
    case True
    then have "t0 = tin\<lparr>t_flows := (t_flows tin)[unat i := g]\<rparr>" by (simp add: t0_def g_def flow_upd_def)
    then show ?thesis using True by (simp add: slot_put_upd g_def)
  next
    case False
    then show ?thesis by (simp add: t0_def g_def slot_put_def)
  qed
  have core: "flow_core g = flow_core ?f" by (simp add: g_def flow_core_def)
  note P = slot_put_keep [OF inv p core]
  have at: "t_flows t0 ! unat i = g" "flow_valid (t_flows t0) i" using p v by (simp_all add: slot_put_def flow_valid_def)
  have m0: "deq_move lens scheds si tin dq t0 dq" using P lens by (auto simp: deq_move_def tin_move_def tin_ok_def)
  have ok0: "tin_ok lens t0" using P by (auto simp: tin_ok_def)
  have s0: "f_state (t_flows t0 ! unat i) = FLOW_BULK \<or> f_state (t_flows t0 ! unat i) = FLOW_DECAYING"
    using s flow_core_eq(5) [OF core] at by simp
  have rank0: "tin_rank t0 = tin_rank tin" using rank_lists [OF inv] rank_lists [OF P(1)] by simp
  obtain r t1 dq1 where V: "cake_dequeue_flow ex now_us now thread i t0 dq = Some (r, t1, dq1)"
    "deq_move lens scheds si t0 dq t1 dq1" "flow_valid (t_flows t1) i"
    "r = DEQ_LEAVE \<or> (size (tin_bufs t1) < size (tin_bufs t0) \<or> tin_bufs t1 = tin_bufs t0 \<and> tin_rank t1 < tin_rank t0) \<or>
     t1 = t0 \<and> dq1 = dq \<and> (f_deficit (t_flows t0 ! unat i) \<le> 0 \<or> dq_budget dq = 0)"
    using flow_visit [OF ok0 at(2) lens s0, of ex now_us now thread scheds si] by blast
  have e: "cake_dequeue_bulk ex now_us now thread i tin dq =
      Some (if r = DEQ_LEAVE then (DEQ_LEAVE, t1, dq1) else (DEQ_CONTINUE, deq_rotate i t1, dq1))"
    using V(1) by (simp add: cake_dequeue_bulk_def t0_def [symmetric] Let_def)
  have ok1: "tin_ok lens t1" "deq_lens lens dq1" using deq_move_ok [OF V(2)] by simp_all
  note M = deq_move_trans [OF m0 V(2)]
  show ?thesis
  proof (cases "r = DEQ_LEAVE")
    case True
    with e M show ?thesis by auto
  next
    case False
    note R = rotate_visit [OF ok1(1) V(3) ok1(2)]
    have "less_work (deq_rotate i t1) tin"
    proof (cases "t1 = t0")
      case True
      then have d: "f_deficit g \<le> 0" using V(4) False b at(1) by auto
      then have "f_deficit ?f < f_deficit g" using quantum_pos [of tin ?f] by (auto simp: g_def split: if_splits)
      then have "tin_debt t0 < tin_debt tin" using debt_slot [OF p v] d by linarith
      with R True P(4) rank0 show ?thesis by (simp add: less_work_def)
    next
      case ne: False
      with V(4) False have "size (tin_bufs t1) < size (tin_bufs t0) \<or> tin_bufs t1 = tin_bufs t0 \<and> tin_rank t1 < tin_rank t0" by blast
      with R P(4) rank0 show ?thesis by (auto simp: less_work_def)
    qed
    with e False deq_move_trans [OF M R(1)] show ?thesis by auto
  qed
qed

section \<open>A scheduler as a whole\<close>

definition sched_ok :: "(u32 \<Rightarrow> u32) \<Rightarrow> cake_sched \<Rightarrow> bool" where
  "sched_ok lens cs \<longleftrightarrow> (\<forall>t \<in> set (cs_tins cs). tin_ok lens t) \<and> length (cs_tins cs) = unat (cs_n_tins cs) \<and>
     cs_buffer_usage cs = (\<Sum>t\<leftarrow>cs_tins cs. tin_backlog t) \<and> cs_queued cs = (\<Sum>t\<leftarrow>cs_tins cs. tin_queued t)"

definition cs_bufs :: "cake_sched \<Rightarrow> u32 multiset" where
  "cs_bufs cs = (\<Sum>t\<leftarrow>cs_tins cs. tin_bufs t)"

lemma tin_sum_put:
  fixes F :: "cake_tin \<Rightarrow> 'b::cancel_comm_monoid_add"
  assumes "t < length ts"
  shows "(\<Sum>x\<leftarrow>ts[t := tin]. F x) + F (ts ! t) = (\<Sum>x\<leftarrow>ts. F x) + F tin"
  using sum_list_update_add [of t "map F ts" "F tin"] assms by (simp add: map_update)

lemma swap_sum:
  fixes a :: "'b::cancel_comm_monoid_add"
  assumes "a + x = b + y" and "x + i = y + u"
  shows "b + i = a + u"
proof -
  have "(b + i) + (y + x) = (b + y) + (x + i)" by (simp only: ac_simps)
  also have "\<dots> = (a + x) + (y + u)" by (simp only: assms)
  also have "\<dots> = (a + u) + (y + x)" by (simp only: ac_simps)
  finally show ?thesis by simp
qed

text \<open>A tin that moved, put back into its scheduler.\<close>

lemma put_tin:
  assumes ok: "sched_ok lens cs" and t: "t < length (cs_tins cs)"
    and m: "tin_move lens cs (cs_tins cs ! t) ins cs' tin' outs" and n: "cs_n_tins cs' = cs_n_tins cs"
  shows "sched_ok lens (cs'\<lparr>cs_tins := (cs_tins cs)[t := tin']\<rparr>)"
    "cs_bufs cs + ins = cs_bufs (cs'\<lparr>cs_tins := (cs_tins cs)[t := tin']\<rparr>) + outs"
proof -
  let ?ts = "(cs_tins cs)[t := tin']" and ?old = "cs_tins cs ! t"
  have M: "tin_ok lens tin'" "cs_buffer_usage cs' - tin_backlog tin' = cs_buffer_usage cs - tin_backlog ?old"
    "cs_queued cs' - tin_queued tin' = cs_queued cs - tin_queued ?old" "tin_bufs ?old + ins = tin_bufs tin' + outs"
    using m by (simp_all add: tin_move_def)
  have b: "(\<Sum>x\<leftarrow>?ts. tin_backlog x) = (\<Sum>x\<leftarrow>cs_tins cs. tin_backlog x) - tin_backlog ?old + tin_backlog tin'"
    using tin_sum_put [OF t, of tin_backlog tin'] by (simp add: algebra_simps eq_diff_eq)
  have q: "(\<Sum>x\<leftarrow>?ts. tin_queued x) = (\<Sum>x\<leftarrow>cs_tins cs. tin_queued x) - tin_queued ?old + tin_queued tin'"
    using tin_sum_put [OF t, of tin_queued tin'] by (simp add: algebra_simps eq_diff_eq)
  have "cs_buffer_usage cs' = cs_buffer_usage cs - tin_backlog ?old + tin_backlog tin'" using M(2) by (simp add: diff_eq_eq)
  moreover have "cs_queued cs' = cs_queued cs - tin_queued ?old + tin_queued tin'" using M(3) by (simp add: diff_eq_eq)
  ultimately show "sched_ok lens (cs'\<lparr>cs_tins := ?ts\<rparr>)"
    using ok M(1) b q n by (auto simp: sched_ok_def dest: set_update_subset_insert [THEN subsetD])
  have "(\<Sum>x\<leftarrow>?ts. tin_bufs x) + tin_bufs ?old = (\<Sum>x\<leftarrow>cs_tins cs. tin_bufs x) + tin_bufs tin'"
    by (rule tin_sum_put [OF t])
  from swap_sum [OF this M(4)] show "cs_bufs cs + ins = cs_bufs (cs'\<lparr>cs_tins := ?ts\<rparr>) + outs" by (simp add: cs_bufs_def)
qed

definition deq_sched :: "(u32 \<Rightarrow> u32) \<Rightarrow> cake_sched pool \<Rightarrow> u32 \<Rightarrow> cake_deq \<Rightarrow> cake_deq \<Rightarrow> bool" where
  "deq_sched lens scheds si dq dq' \<longleftrightarrow> sched_ok lens (dq_cs dq') \<and> deq_lens lens dq' \<and>
     cs_bufs (dq_cs dq) + deq_gone dq = cs_bufs (dq_cs dq') + deq_gone dq' \<and> deq_spent dq' = deq_spent dq \<and>
     sched_step scheds si (dq_aggs dq) (dq_cs dq) (dq_aggs dq') (dq_cs dq')"

lemma deq_sched_trans:
  "deq_sched lens scheds si a b \<Longrightarrow> deq_sched lens scheds si b c \<Longrightarrow> deq_sched lens scheds si a c"
  by (auto simp: deq_sched_def intro: sched_step_trans)

definition deq_put :: "nat \<Rightarrow> cake_tin \<Rightarrow> cake_deq \<Rightarrow> cake_deq" where
  "deq_put t tin dq = dq\<lparr>dq_cs := (dq_cs dq)\<lparr>cs_tins := (cs_tins (dq_cs dq))[t := tin]\<rparr>\<rparr>"

text \<open>The number of tins is configuration, so it only changes outside the focus.\<close>

lemma put_visit:
  assumes ok: "sched_ok lens (dq_cs dq)" and t: "t < length (cs_tins (dq_cs dq))"
    and m: "deq_move lens scheds si (cs_tins (dq_cs dq) ! t) dq tin' dq'" and n: "cs_n_tins (dq_cs dq') = cs_n_tins (dq_cs dq)"
  shows "deq_sched lens scheds si dq (deq_put t tin' dq')" "cs_tins (dq_cs (deq_put t tin' dq')) = (cs_tins (dq_cs dq))[t := tin']"
    "drr_active (cs_drr (dq_cs (deq_put t tin' dq'))) = drr_active (cs_drr (dq_cs dq))"
proof -
  have tm: "tin_move lens (dq_cs dq) (cs_tins (dq_cs dq) ! t) (deq_gone dq) (dq_cs dq') tin' (deq_gone dq')"
    and same: "cs_tins (dq_cs dq') = cs_tins (dq_cs dq)" using m by (simp_all add: deq_move_def tin_move_def)
  have "sched_step scheds si (dq_aggs dq') (dq_cs dq') (dq_aggs dq') (dq_cs (deq_put t tin' dq'))"
    by (rule step_cs) (simp_all add: deq_put_def cs_cfg_def)
  with put_tin [OF ok t tm n] m same
  show "deq_sched lens scheds si dq (deq_put t tin' dq')" "cs_tins (dq_cs (deq_put t tin' dq')) = (cs_tins (dq_cs dq))[t := tin']"
    "drr_active (cs_drr (dq_cs (deq_put t tin' dq'))) = drr_active (cs_drr (dq_cs dq))"
    by (auto simp: deq_sched_def deq_put_def deq_move_def deq_gone_def deq_lens_def deq_spent_def intro: sched_step_trans)
qed

text \<open>A tin that is not busy is empty; a busy tin has a flow to serve.\<close>

lemma card_small:
  assumes "distinct (xs :: u32 list)" and "\<And>x. x \<in> set xs \<Longrightarrow> unat x < n"
  shows "length xs \<le> n"
proof -
  have "card (unat ` set xs) \<le> card {..<n}" by (rule card_mono) (use assms(2) in auto)
  moreover have "card (unat ` set xs) = card (set xs)" by (rule card_image) (simp add: inj_on_def word_unat_eq_iff)
  ultimately show ?thesis using distinct_card [OF assms(1)] by simp
qed

lemma lists_bound:
  assumes "tin_inv lens t nw od dc"
  shows "length nw + length od + length dc \<le> CAKE_QUEUES"
  using card_small [of "nw @ od @ dc" CAKE_QUEUES] tin_invD(1) [OF assms] tin_inv_member [OF assms] tin_invD(4) [OF assms]
  by (simp add: tin_dll_def flow_valid_def)

lemma tin_heads:
  assumes "tin_inv lens t nw od dc"
  shows "t_new_head t = nil32 \<longleftrightarrow> nw = []" "t_old_head t = nil32 \<longleftrightarrow> od = []" "t_decaying_head t = nil32 \<longleftrightarrow> dc = []"
    "nw \<noteq> [] \<Longrightarrow> t_new_head t \<in> set nw" "od \<noteq> [] \<Longrightarrow> t_old_head t \<in> set od" "dc \<noteq> [] \<Longrightarrow> t_decaying_head t \<in> set dc"
proof -
  have *: "(a = nil32 \<longleftrightarrow> xs = []) \<and> (xs \<noteq> [] \<longrightarrow> a \<in> set xs)" if "fl.is_list h a b xs" for h a b xs
  proof -
    note d = that [unfolded fl.is_list_def, THEN conjunct1]
    have "a = nil32 \<longleftrightarrow> xs = []" by (rule dll_empty [OF d])
    moreover have "a \<noteq> nil32 \<Longrightarrow> a \<in> set xs" by (rule dll_head [OF d, THEN conjunct1])
    ultimately show ?thesis by simp
  qed
  have "fl.is_list (t_flows t) (t_new_head t) (t_new_tail t) nw" "fl.is_list (t_flows t) (t_old_head t) (t_old_tail t) od"
    "fl.is_list (t_flows t) (t_decaying_head t) (t_decaying_tail t) dc"
    using tin_invD(1) [OF assms] by (simp_all add: tin_dll_def)
  from this [THEN *]
  show "t_new_head t = nil32 \<longleftrightarrow> nw = []" "t_old_head t = nil32 \<longleftrightarrow> od = []" "t_decaying_head t = nil32 \<longleftrightarrow> dc = []"
    "nw \<noteq> [] \<Longrightarrow> t_new_head t \<in> set nw" "od \<noteq> [] \<Longrightarrow> t_old_head t \<in> set od" "dc \<noteq> [] \<Longrightarrow> t_decaying_head t \<in> set dc"
    by simp_all
qed

lemma tin_empty:
  assumes inv: "tin_inv lens t [] [] []"
  shows "tin_bufs t = {#}"
proof -
  have "flow_queue f = []" if "f \<in> set (t_flows t)" for f
  proof -
    obtain k where k: "k < length (t_flows t)" "f = t_flows t ! k"
      using \<open>f \<in> set (t_flows t)\<close> by (auto simp: in_set_conv_nth)
    have w: "unat (word_of_nat k :: u32) = k" using k(1) tin_invD(4) [OF inv] by (simp add: unat_of_nat CAKE_QUEUES_def)
    then have v: "flow_valid (t_flows t) (word_of_nat k)" using k(1) by (simp add: flow_valid_def)
    have "f_state f = FLOW_NONE" using tin_inv_at(2-4) [OF inv v] k(2) w by (cases "f_state f") auto
    with flow_okD(5) [OF tin_inv_at(1) [OF inv v]] k(2) w show ?thesis by (simp add: flow_queue_empty)
  qed
  then have "map (\<lambda>f. mset (flow_queue f)) (t_flows t) = map (\<lambda>f. {#}) (t_flows t)" by simp
  then show ?thesis by (simp only: tin_bufs_def) simp
qed

lemma word_small_zero: "n < 2 ^ 32 \<Longrightarrow> (word_of_nat n :: u32) = 0 \<longleftrightarrow> n = 0"
  by (auto simp: word_of_nat_eq_0_iff dest: dvd_imp_le)

lemma busy_lists:
  assumes inv: "tin_inv lens t nw od dc"
  shows "tin_busy t \<longleftrightarrow> nw \<noteq> [] \<or> od \<noteq> [] \<or> dc \<noteq> []"
proof -
  have "length nw + length od < 2 ^ 32" using lists_bound [OF inv] by (simp add: CAKE_QUEUES_def)
  from word_small_zero [OF this] have "t_sparse_count t + t_bulk_count t = 0 \<longleftrightarrow> nw = [] \<and> od = []"
    using tin_invD(2) [OF inv] by (simp add: tin_counts_def)
  with tin_heads(3) [OF inv] show ?thesis by (auto simp: tin_busy_def word_neq_0_conv)
qed

text \<open>The flow a busy tin selects: sparse ones first, then bulk, then decaying.\<close>

lemma select_flow:
  assumes inv: "tin_inv lens t nw od dc" and b: "tin_busy t"
  shows "cake_select_flow t \<noteq> nil32" "flow_valid (t_flows t) (cake_select_flow t)"
    "f_state (t_flows t ! unat (cake_select_flow t)) \<noteq> FLOW_NONE"
proof -
  note H = tin_heads [OF inv]
  have m: "cake_select_flow t \<in> set (nw @ od @ dc)"
    using busy_lists [OF inv] b H by (auto simp: cake_select_flow_def)
  show v: "flow_valid (t_flows t) (cake_select_flow t)" by (rule tin_inv_member [OF inv m])
  show "cake_select_flow t \<noteq> nil32" by (rule valid_not_nil [OF tin_invD(1) [OF inv] v])
  show "f_state (t_flows t ! unat (cake_select_flow t)) \<noteq> FLOW_NONE"
    using tin_inv_at(2-4) [OF inv v] m by auto
qed

lemma select_tin:
  "cake_select_tin cs = Some t \<Longrightarrow> t < unat (cs_n_tins cs) \<and> tin_busy (cs_tins cs ! t)"
  "cake_select_tin cs = None \<Longrightarrow> k < unat (cs_n_tins cs) \<Longrightarrow> \<not> tin_busy (cs_tins cs ! k)"
  by (auto simp: cake_select_tin_def find_Some_iff find_None_iff rev_nth)

lemma idle_empty:
  assumes ok: "sched_ok lens cs" and n: "cake_select_tin cs = None"
  shows "cs_bufs cs = {#}"
proof -
  have "tin_bufs t = {#}" if "t \<in> set (cs_tins cs)" for t
  proof -
    obtain k where k: "k < length (cs_tins cs)" "t = cs_tins cs ! k" using \<open>t \<in> set (cs_tins cs)\<close> by (metis in_set_conv_nth)
    with ok select_tin(2) [OF n] have nb: "\<not> tin_busy t" and "tin_ok lens t" by (auto simp: sched_ok_def)
    then obtain nw od dc where inv: "tin_inv lens t nw od dc" by (auto simp: tin_ok_def)
    with nb busy_lists [OF inv] have "tin_inv lens t [] [] []" by simp
    then show ?thesis by (rule tin_empty)
  qed
  then have "map tin_bufs (cs_tins cs) = map (\<lambda>t. {#}) (cs_tins cs)" by simp
  then show ?thesis by (simp only: cs_bufs_def) simp
qed

text \<open>One turn of the dispatch of a scheduler.\<close>

definition cs_work :: "(cake_tin \<Rightarrow> nat) \<Rightarrow> cake_sched \<Rightarrow> nat" where
  "cs_work F cs = (\<Sum>t\<leftarrow>cs_tins cs. F t)"

definition less_sched :: "cake_sched \<Rightarrow> cake_sched \<Rightarrow> bool" where
  "less_sched a b \<longleftrightarrow> cs_work (size \<circ> tin_bufs) a < cs_work (size \<circ> tin_bufs) b \<or>
     cs_work (size \<circ> tin_bufs) a = cs_work (size \<circ> tin_bufs) b \<and> (cs_work tin_rank a < cs_work tin_rank b \<or>
       cs_work tin_rank a = cs_work tin_rank b \<and> cs_work tin_debt a < cs_work tin_debt b)"

lemma wf_less_sched: "wf {(a, b). less_sched a b}"
proof (rule wf_subset)
  show "wf (measures [cs_work (size \<circ> tin_bufs), cs_work tin_rank, cs_work tin_debt])" by (rule wf_measures)
  show "{(a, b). less_sched a b} \<subseteq> measures [cs_work (size \<circ> tin_bufs), cs_work tin_rank, cs_work tin_debt]"
    by (auto simp: less_sched_def)
qed

lemma less_put:
  assumes t: "t < length (cs_tins cs)" and l: "less_work tin' (cs_tins cs ! t)" and c: "cs_tins cs' = (cs_tins cs)[t := tin']"
  shows "less_sched cs' cs"
proof -
  have *: "cs_work F cs' + F (cs_tins cs ! t) = cs_work F cs + F tin'" for F
    using tin_sum_put [OF t, of F tin'] by (simp add: cs_work_def c)
  show ?thesis using l * [of "size \<circ> tin_bufs"] * [of tin_rank] * [of tin_debt]
    by (auto simp: less_work_def less_sched_def)
qed

text \<open>
  The visit of a scheduler ends, keeps the accounts and every buffer, and takes the scheduler off the
  worker's list only when nothing is queued.
\<close>

lemma step_ntins:
  assumes "focus_ok scheds si a c" and "sched_step scheds si a c a' c'"
  shows "focus_ok scheds si a' c'" "cs_cfg c' = cs_cfg c" "cs_n_tins c' = cs_n_tins c"
  using assms by (simp_all add: sched_step_def cs_cfg_def)

lemma sched_visit:
  assumes "sched_ok lens (dq_cs dq)" and "deq_lens lens dq" and "focus_ok scheds si (dq_aggs dq) (dq_cs dq)"
  shows "\<exists>idle dq'. cake_dequeue_sched ex now_us now thread dq = Some (idle, dq') \<and> deq_sched lens scheds si dq dq' \<and>
    (if idle then cs_bufs (dq_cs dq') = {#} else drr_active (cs_drr (dq_cs dq')) = drr_active (cs_drr (dq_cs dq)))"
  using assms
proof (induction "dq_cs dq" arbitrary: dq rule: wf_induct_rule [OF wf_less_sched])
  case (1 dq)
  note ok = "1.prems"(1) and lens = "1.prems"(2) and fo = "1.prems"(3)
  have stay: "deq_sched lens scheds si dq dq" using ok lens by (simp add: deq_sched_def)
  show ?case
  proof (cases "dq_budget dq = 0")
    case True
    then have "cake_dequeue_sched ex now_us now thread dq = Some (False, dq)" by (subst cake_dequeue_sched.simps) simp
    with stay show ?thesis by auto
  next
    case b: False
    show ?thesis
    proof (cases "cake_select_tin (dq_cs dq)")
      case None
      obtain aggs cs where d: "cake_sched_drr_deactivate (dq_aggs dq) (dq_cs dq) = (aggs, cs)" by fastforce
      let ?dq = "dq\<lparr>dq_aggs := aggs, dq_cs := cs\<rparr>"
      have eq: "cake_dequeue_sched ex now_us now thread dq = Some (True, ?dq)"
        using b None d by (subst cake_dequeue_sched.simps) simp
      have f: "cs_tins cs = cs_tins (dq_cs dq)" "cs_n_tins cs = cs_n_tins (dq_cs dq)"
        "cs_buffer_usage cs = cs_buffer_usage (dq_cs dq)" "cs_queued cs = cs_queued (dq_cs dq)"
        using d by (auto simp: cake_sched_drr_deactivate_def cake_drr_child_deactivate_def split: if_splits)
      have "deq_sched lens scheds si dq ?dq"
        using ok lens f step_deactivate [OF d]
        by (simp add: deq_sched_def sched_ok_def deq_lens_def cs_bufs_def deq_gone_def deq_spent_def)
      moreover have "cs_bufs cs = {#}" using idle_empty [OF ok None] f by (simp add: cs_bufs_def)
      ultimately show ?thesis using eq by auto
    next
      case (Some t)
      let ?tin = "cs_tins (dq_cs dq) ! t"
      have t: "t < length (cs_tins (dq_cs dq))" and busy: "tin_busy ?tin" and tok: "tin_ok lens ?tin"
        using select_tin(1) [OF Some] ok by (auto simp: sched_ok_def)
      obtain nw od dc where inv: "tin_inv lens ?tin nw od dc" using tok by (auto simp: tin_ok_def)
      let ?i = "cake_select_flow ?tin"
      note S = select_flow [OF inv busy]
      obtain r t1 dq1 where V: "(if f_state (t_flows ?tin ! unat ?i) = FLOW_SPARSE
            then Some (cake_dequeue_sparse ex now_us now thread ?i ?tin dq)
            else cake_dequeue_bulk ex now_us now thread ?i ?tin dq) = Some (r, t1, dq1)"
          and m: "deq_move lens scheds si ?tin dq t1 dq1" and w: "r = DEQ_LEAVE \<or> less_work t1 ?tin"
      proof (cases "f_state (t_flows ?tin ! unat ?i) = FLOW_SPARSE")
        case True
        obtain r t1 dq1 where e: "cake_dequeue_sparse ex now_us now thread ?i ?tin dq = (r, t1, dq1)" by (metis prod_cases3)
        note sparse_visit [OF tok S(2) lens _ True e]
        with b True e that show thesis by simp
      next
        case False
        then have "f_state (t_flows ?tin ! unat ?i) = FLOW_BULK \<or> f_state (t_flows ?tin ! unat ?i) = FLOW_DECAYING"
          using S(3) by (cases "f_state (t_flows ?tin ! unat ?i)") auto
        from bulk_visit [OF tok S(2) lens _ this, of ex now_us now thread scheds si] b False that show thesis by auto
      qed
      have "sched_step scheds si (dq_aggs dq) (dq_cs dq) (dq_aggs dq1) (dq_cs dq1)" using m by (simp add: deq_move_def)
      note n1 = step_ntins [OF fo this]
      note P = put_visit [OF ok t m n1(3)]
      let ?dq = "deq_put t t1 dq1"
      have eq: "cake_dequeue_sched ex now_us now thread dq =
          (if r = DEQ_LEAVE then Some (False, ?dq) else cake_dequeue_sched ex now_us now thread ?dq)"
        using b Some S(1) V by (subst cake_dequeue_sched.simps) (auto simp: deq_put_def)
      have ok1: "sched_ok lens (dq_cs ?dq)" "deq_lens lens ?dq" using P(1) by (simp_all add: deq_sched_def)
      have fo1: "focus_ok scheds si (dq_aggs ?dq) (dq_cs ?dq)"
        using P(1) fo by (auto simp: deq_sched_def dest: step_ntins(1))
      show ?thesis
      proof (cases "r = DEQ_LEAVE")
        case True
        with eq P show ?thesis by auto
      next
        case False
        have "(dq_cs ?dq, dq_cs dq) \<in> {(a, b). less_sched a b}" using less_put [OF t _ P(2)] w False by simp
        from "1.hyps" [OF this ok1 fo1]
        show ?thesis using eq False P deq_sched_trans [OF P(1)] by fastforce
      qed
    qed
  qed
qed

end
