(* ===== verification/Cake_System.thy ===== *)
theory Cake_System
  imports Cake_Dispatch
begin

text \<open>
  The scheduler plugin as a whole: the invariant of its state, what every entry point does to it
  (packets received, dispatches, configuration), and what holds in every reachable state.
\<close>


section \<open>The invariant of the data path\<close>

definition dp_lens :: "cake_dp \<Rightarrow> u32 \<Rightarrow> u32" where
  "dp_lens dp bi = b_len (dp_bufs dp bi)"

text \<open>A scheduler is on the list of the worker that owns it.\<close>

definition on_list :: "cake_per_thread list \<Rightarrow> u32 \<Rightarrow> u32 \<Rightarrow> bool" where
  "on_list pts owner si \<longleftrightarrow> owner \<noteq> CAKE_OWNER_UNSET \<and> unat owner < length pts \<and> si \<in> pt_active (pts ! unat owner)"

definition live_ok :: "(u32 \<Rightarrow> u32) \<Rightarrow> cake_per_thread list \<Rightarrow> u32 \<Rightarrow> cake_sched \<Rightarrow> bool" where
  "live_ok lens pts si cs \<longleftrightarrow> sched_ok lens cs \<and> cs_sched_index cs = si \<and> 0 < cs_n_tins cs \<and>
     (cs_bufs cs \<noteq> {#} \<longrightarrow> drr_active (cs_drr cs) \<and> on_list pts (cs_owner cs) si)"

definition by_if_ok :: "u32 list \<Rightarrow> cake_sched pool \<Rightarrow> bool" where
  "by_if_ok by_if scheds \<longleftrightarrow>
     (\<forall>k < length by_if. by_if ! k \<noteq> nil32 \<longrightarrow>
        (\<exists>cs. pool_at scheds (by_if ! k) = Some cs \<and> unat (cs_sw_if_index cs) = k)) \<and>
     (\<forall>si cs. pool_at scheds si = Some cs \<longrightarrow>
        unat (cs_sw_if_index cs) < length by_if \<and> by_if ! unat (cs_sw_if_index cs) = si)"

definition dp_inv :: "nat \<Rightarrow> cake_dp \<Rightarrow> bool" where
  "dp_inv n dp \<longleftrightarrow> n < 2 ^ 32 \<and> cake_inv (dp_main dp) \<and> lens_ok (dp_lens dp) \<and>
     by_if_ok (cm_sched_by_if (dp_main dp)) (cm_scheds (dp_main dp)) \<and>
     (\<forall>si cs. pool_at (cm_scheds (dp_main dp)) si = Some cs \<longrightarrow>
        n \<le> length (cm_per_thread (dp_main dp)) \<and> live_ok (dp_lens dp) (cm_per_thread (dp_main dp)) si cs)"

text \<open>The buffers queued anywhere.\<close>

definition dp_queued :: "cake_dp \<Rightarrow> u32 multiset" where
  "dp_queued dp = pool_sum cs_bufs (cm_scheds (dp_main dp))"

lemma dp_invD:
  assumes "dp_inv n dp"
  shows "cake_inv (dp_main dp)" "lens_ok (dp_lens dp)" "by_if_ok (cm_sched_by_if (dp_main dp)) (cm_scheds (dp_main dp))"
    "pool_at (cm_scheds (dp_main dp)) si = Some cs \<Longrightarrow> n \<le> length (cm_per_thread (dp_main dp))"
    "pool_at (cm_scheds (dp_main dp)) si = Some cs \<Longrightarrow> live_ok (dp_lens dp) (cm_per_thread (dp_main dp)) si cs"
    "n < 2 ^ 32"
  using assms by (auto simp: dp_inv_def)

text \<open>The focus on one scheduler of the whole state, and back.\<close>

lemma inv_focus:
  assumes "cake_inv cm" and at: "pool_at (cm_scheds cm) si = Some cs"
  shows "focus_ok (cm_scheds cm) si (cm_aggs cm) cs"
proof -
  have "pool_upd si (\<lambda>_. cs) (cm_scheds cm) = cm_scheds cm" by (rule pool_upd_id) (use at in simp)
  with assms show ?thesis by (simp add: focus_ok_def cake_inv_def)
qed

lemma focus_inv:
  assumes "cake_inv cm" and "focus_ok (cm_scheds cm) si aggs cs" and "same_cfg (cm_aggs cm) aggs"
    and "cm_agg_by_if cm' = cm_agg_by_if cm" "cm_aggs cm' = aggs" "cm_scheds cm' = pool_upd si (\<lambda>_. cs) (cm_scheds cm)"
  shows "cake_inv cm'"
  using assms same_cfg_maps same_cfg_rates by (auto simp: cake_inv_def focus_ok_def)

lemma focus_owner:
  assumes "focus_ok scheds si aggs cs"
  shows "focus_ok scheds si aggs (cs\<lparr>cs_owner := w\<rparr>)"
  by (rule focus_moved [OF assms same_moved]) simp_all

lemma by_if_okD:
  assumes "by_if_ok by_if scheds"
  shows "k < length by_if \<Longrightarrow> by_if ! k \<noteq> nil32 \<Longrightarrow>
      \<exists>cs. pool_at scheds (by_if ! k) = Some cs \<and> unat (cs_sw_if_index cs) = k"
    "pool_at scheds si = Some cs \<Longrightarrow> unat (cs_sw_if_index cs) < length by_if \<and> by_if ! unat (cs_sw_if_index cs) = si"
  using assms by (simp_all add: by_if_ok_def)

text \<open>Only the liveness and the interface of each scheduler matter.\<close>

lemma by_if_cong:
  assumes ok: "by_if_ok by_if scheds"
    and same: "\<And>j. map_option cs_sw_if_index (pool_at scheds' j) = map_option cs_sw_if_index (pool_at scheds j)"
  shows "by_if_ok by_if scheds'"
  unfolding by_if_ok_def
proof (intro conjI allI impI)
  fix k
  assume "k < length by_if" "by_if ! k \<noteq> nil32"
  then obtain cs where cs: "pool_at scheds (by_if ! k) = Some cs" "unat (cs_sw_if_index cs) = k" using by_if_okD(1) [OF ok] by blast
  then have "map_option cs_sw_if_index (pool_at scheds' (by_if ! k)) = Some (cs_sw_if_index cs)" by (simp add: same)
  with cs(2) show "\<exists>cs. pool_at scheds' (by_if ! k) = Some cs \<and> unat (cs_sw_if_index cs) = k" by auto
next
  fix si cs
  assume "pool_at scheds' si = Some cs"
  then have "map_option cs_sw_if_index (pool_at scheds si) = Some (cs_sw_if_index cs)" using same [of si] by simp
  then obtain s where "pool_at scheds si = Some s" "cs_sw_if_index s = cs_sw_if_index cs" by auto
  with by_if_okD(2) [OF ok this(1)]
  show "unat (cs_sw_if_index cs) < length by_if" "by_if ! unat (cs_sw_if_index cs) = si" by simp_all
qed

lemma by_if_upd:
  assumes "by_if_ok by_if scheds" and "pool_at scheds si = Some cs" and "cs_sw_if_index cs' = cs_sw_if_index cs"
  shows "by_if_ok by_if (pool_upd si (\<lambda>_. cs') scheds)"
  by (rule by_if_cong [OF assms(1)]) (use assms in \<open>simp add: pool_at_upd\<close>)

text \<open>One scheduler replaced after a step of the data path.\<close>

lemma dp_focus_inv:
  assumes inv: "dp_inv n dp" and at: "pool_at (cm_scheds (dp_main dp)) si = Some cs"
    and fo: "focus_ok (cm_scheds (dp_main dp)) si aggs cs'" and cfg: "same_cfg (cm_aggs (dp_main dp)) aggs"
    and sw: "cs_sw_if_index cs' = cs_sw_if_index cs"
    and cm': "cm_agg_by_if (dp_main dp') = cm_agg_by_if (dp_main dp)" "cm_aggs (dp_main dp') = aggs"
      "cm_scheds (dp_main dp') = pool_upd si (\<lambda>_. cs') (cm_scheds (dp_main dp))"
      "cm_sched_by_if (dp_main dp') = cm_sched_by_if (dp_main dp)"
    and pts: "length (cm_per_thread (dp_main dp')) = length (cm_per_thread (dp_main dp))"
      "\<And>w sj. sj \<noteq> si \<Longrightarrow> on_list (cm_per_thread (dp_main dp)) w sj \<Longrightarrow> on_list (cm_per_thread (dp_main dp')) w sj"
    and live: "live_ok (dp_lens dp) (cm_per_thread (dp_main dp')) si cs'"
    and lens: "\<And>bi. dp_lens dp' bi = dp_lens dp bi"
  shows "dp_inv n dp'" "dp_queued dp' + cs_bufs cs = dp_queued dp + cs_bufs cs'"
proof -
  note D = dp_invD [OF inv]
  have l: "dp_lens dp' = dp_lens dp" using lens by (rule ext)
  have "live_ok (dp_lens dp) (cm_per_thread (dp_main dp')) sj s" if "pool_at (cm_scheds (dp_main dp')) sj = Some s" for sj s
  proof (cases "sj = si")
    case True
    with that at live show ?thesis by (simp add: cm'(3) pool_at_upd)
  next
    case False
    with that have "pool_at (cm_scheds (dp_main dp)) sj = Some s" by (simp add: cm'(3) pool_at_upd)
    from D(5) [OF this] pts(2) [OF False] show ?thesis by (auto simp: live_ok_def)
  qed
  moreover have "cake_inv (dp_main dp')" by (rule focus_inv [OF D(1) fo cfg cm'(1-3)])
  ultimately show "dp_inv n dp'"
    using D(2,3,6) D(4) [OF at] by_if_upd [OF D(3) at sw] by (simp add: dp_inv_def l cm' pts(1))
  show "dp_queued dp' + cs_bufs cs = dp_queued dp + cs_bufs cs'"
    unfolding dp_queued_def cm'(3) by (rule pool_sum_upd [OF at])
qed

section \<open>Receiving packets\<close>

lemma tag_nonzero: "cake_hash_flow ex b \<noteq> 0"
proof -
  have "(x OR 1 :: u32) \<noteq> 0" for x
  proof
    assume "x OR 1 = 0"
    then have "bit (x OR 1) 0 = bit (0 :: u32) 0" by simp
    then show False by (simp add: bit_or_iff)
  qed
  then show ?thesis by (auto simp: cake_hash_flow_def Let_def split: prod.split)
qed

lemma evict_drr: "cake_flow_evict aggs cs tin i = (a, cs', t, fr) \<Longrightarrow> cs_drr cs' = cs_drr cs"
  by (auto simp: cake_flow_evict_def cake_flow_discard_def Let_def split: if_splits prod.splits)

lemma slot_drr: "enqueue_flow_slot aggs cs tin tag sb = (a, cs', t, i, fr) \<Longrightarrow> cs_drr cs' = cs_drr cs"
  by (auto simp: enqueue_flow_slot_def Let_def evict_drr split: if_splits prod.splits)

lemma enqueue_result:
  assumes "cake_enqueue_tin mem now thread bi b tag aggs cs tin = (r, aggs', cs', tin', freed)"
  shows "r \<noteq> ENQ_PASS" "r \<noteq> ENQ_HANDOFF" "r = ENQ_QUEUED \<Longrightarrow> drr_active (cs_drr cs')"
    "r \<noteq> ENQ_QUEUED \<Longrightarrow> bi \<in> set freed \<and> cs_drr cs' = cs_drr cs"
proof -
  obtain aggs1 cs1 tin1 i fr where sl: "enqueue_flow_slot aggs cs tin tag (cake_flow_set_base tag) = (aggs1, cs1, tin1, i, fr)"
    by (metis prod_cases5)
  show "r \<noteq> ENQ_PASS" "r \<noteq> ENQ_HANDOFF" "r = ENQ_QUEUED \<Longrightarrow> drr_active (cs_drr cs')"
    "r \<noteq> ENQ_QUEUED \<Longrightarrow> bi \<in> set freed \<and> cs_drr cs' = cs_drr cs"
    using assms sl slot_drr [OF sl]
    by (auto simp: cake_enqueue_tin_def enqueue_refuse_def Let_def dest: activate_fields(5) split: if_splits prod.splits)
qed

lemma enqueue_local:
  assumes ok: "sched_ok lens cs" and lens: "lens_ok lens" and mem: "length mem = CAKE_FLOW_RING_SIZE"
    and len: "b_len b = lens bi" and n: "0 < cs_n_tins cs" and fo: "focus_ok scheds si aggs cs"
    and e: "cake_enqueue_local ex mem now thread bi b aggs cs = (r, aggs', cs', freed)"
  shows "sched_ok lens cs'" "cs_bufs cs + {#bi#} = cs_bufs cs' + mset freed"
    "focus_ok scheds si aggs' cs' \<and> same_cfg aggs aggs' \<and> cs_cfg cs' = cs_cfg cs"
    "r \<noteq> ENQ_PASS" "r \<noteq> ENQ_HANDOFF" "r = ENQ_QUEUED \<Longrightarrow> drr_active (cs_drr cs')"
    "r \<noteq> ENQ_QUEUED \<Longrightarrow> bi \<in> set freed \<and> cs_drr cs' = cs_drr cs"
proof -
  define t where "t = (let x = cs_dscp_to_tin cs ! unat (cake_dscp_from_buffer b) in if x \<ge> cs_n_tins cs then 0 else x)"
  have tn: "t < cs_n_tins cs" using n by (auto simp: t_def Let_def not_le)
  then have t: "unat t < length (cs_tins cs)" using ok by (simp add: sched_ok_def word_less_nat_alt)
  obtain cs1 tin1 where en: "cake_enqueue_tin mem now thread bi b (cake_hash_flow ex b) aggs cs (cs_tins cs ! unat t)
      = (r, aggs', cs1, tin1, freed)" and c': "cs' = cs1\<lparr>cs_tins := (cs_tins cs1)[unat t := tin1]\<rparr>"
  proof -
    obtain r1 a1 cs1 tin1 f1 where en: "cake_enqueue_tin mem now thread bi b (cake_hash_flow ex b) aggs cs (cs_tins cs ! unat t)
      = (r1, a1, cs1, tin1, f1)" by (metis prod_cases5)
    with e have "r = r1 \<and> aggs' = a1 \<and> cs' = cs1\<lparr>cs_tins := (cs_tins cs1)[unat t := tin1]\<rparr> \<and> freed = f1"
      unfolding cake_enqueue_local_def by (simp only: Let_def t_def prod.case) (simp only: prod.inject)
    with en that show thesis by blast
  qed
  have tok: "tin_ok lens (cs_tins cs ! unat t)" using ok t by (simp add: sched_ok_def)
  note M = enqueue_tin_move [OF tok lens tag_nonzero mem len en]
  have tins: "cs_tins cs1 = cs_tins cs" using M(1) by (simp add: tin_move_def)
  note S = step_ntins [OF fo M(2)]
  show "sched_ok lens cs'" "cs_bufs cs + {#bi#} = cs_bufs cs' + mset freed"
    using put_tin [OF ok t M(1) S(3)] by (simp_all add: c' tins)
  have "sched_step scheds si aggs cs aggs' cs'"
    by (rule sched_step_trans [OF M(2) step_cs]) (simp_all add: c' cs_cfg_def)
  with fo show "focus_ok scheds si aggs' cs' \<and> same_cfg aggs aggs' \<and> cs_cfg cs' = cs_cfg cs" by (simp add: sched_step_def)
  show "r \<noteq> ENQ_PASS" "r \<noteq> ENQ_HANDOFF" "r = ENQ_QUEUED \<Longrightarrow> drr_active (cs_drr cs')"
    "r \<noteq> ENQ_QUEUED \<Longrightarrow> bi \<in> set freed \<and> cs_drr cs' = cs_drr cs"
    using enqueue_result [OF en] by (simp_all add: c')
qed

text \<open>A packet stays with the caller when it is passed on or handed off to another worker.\<close>

definition enq_keeps :: "cake_enq_result \<Rightarrow> bool" where
  "enq_keeps r \<longleftrightarrow> r = ENQ_PASS \<or> r = ENQ_HANDOFF"

lemma enq_keeps_simps [simp]: "enq_keeps ENQ_PASS" "enq_keeps ENQ_HANDOFF" "\<not> enq_keeps ENQ_QUEUED"
  by (simp_all add: enq_keeps_def)

lemma on_list_insert:
  assumes "unat th < length pts" and "th \<noteq> CAKE_OWNER_UNSET"
  shows "on_list (pts[unat th := (pts ! unat th)\<lparr>pt_active := insert si (pt_active (pts ! unat th))\<rparr>]) th si"
    "on_list pts w sj \<Longrightarrow> on_list (pts[unat th := (pts ! unat th)\<lparr>pt_active := insert si (pt_active (pts ! unat th))\<rparr>]) w sj"
  using assms by (auto simp: on_list_def nth_list_update)

lemma enqueue_owned:
  assumes inv: "dp_inv n dp" and th: "unat thread < n" and mem: "length mem = CAKE_FLOW_RING_SIZE"
    and at: "pool_at (cm_scheds (dp_main dp)) si = Some cs0"
    and own: "cs_owner cs0 = CAKE_OWNER_UNSET \<or> cs_owner cs0 = thread"
    and e: "cake_enqueue_local ex mem now (unat thread) bi (dp_bufs dp bi) (cm_aggs (dp_main dp)) (cs0\<lparr>cs_owner := thread\<rparr>) = (r, aggs, cs, freed)"
    and r: "dp_main dp' = (dp_main dp)\<lparr>cm_aggs := aggs, cm_scheds := pool_upd si (\<lambda>_. cs) (cm_scheds (dp_main dp)),
        cm_per_thread := (if r = ENQ_QUEUED
          then (cm_per_thread (dp_main dp))[unat thread := (cm_per_thread (dp_main dp) ! unat thread)
            \<lparr>pt_active := insert (cs_sched_index cs) (pt_active (cm_per_thread (dp_main dp) ! unat thread))\<rparr>]
          else cm_per_thread (dp_main dp))\<rparr>"
      "\<And>b. dp_lens dp' b = dp_lens dp b" "dp_freed dp' = dp_freed dp @ freed"
  shows "dp_inv n dp'" "dp_queued dp + mset (dp_freed dp) + {#bi#} = dp_queued dp' + mset (dp_freed dp')"
    "\<not> enq_keeps r"
proof -
  note D = dp_invD [OF inv]
  let ?pts = "cm_per_thread (dp_main dp)"
  have l: "live_ok (dp_lens dp) ?pts si cs0" by (rule D(5) [OF at])
  have fo: "focus_ok (cm_scheds (dp_main dp)) si (cm_aggs (dp_main dp)) (cs0\<lparr>cs_owner := thread\<rparr>)"
    by (rule focus_owner [OF inv_focus [OF D(1) at]])
  have ok: "sched_ok (dp_lens dp) (cs0\<lparr>cs_owner := thread\<rparr>)" and nt: "0 < cs_n_tins (cs0\<lparr>cs_owner := thread\<rparr>)"
    and ix: "cs_sched_index cs0 = si" using l by (simp_all add: live_ok_def sched_ok_def)
  have len: "b_len (dp_bufs dp bi) = dp_lens dp bi" by (simp add: dp_lens_def)
  note E = enqueue_local [OF ok D(2) mem len nt fo e]
  have cfg: "cs_sw_if_index cs = cs_sw_if_index cs0" "cs_sched_index cs = si" "cs_owner cs = thread" "cs_n_tins cs = cs_n_tins cs0"
    using E(3) ix by (simp_all add: cs_cfg_def)
  have tl: "unat thread < length ?pts" using th D(4) [OF at] by simp
  have tn: "thread \<noteq> CAKE_OWNER_UNSET"
    using th D(6) by (auto simp: CAKE_OWNER_UNSET_def)
  have bufs0: "cs_bufs (cs0\<lparr>cs_owner := thread\<rparr>) = cs_bufs cs0" by (simp add: cs_bufs_def)
  have live: "live_ok (dp_lens dp) (cm_per_thread (dp_main dp')) si cs"
  proof -
    have "drr_active (cs_drr cs) \<and> on_list (cm_per_thread (dp_main dp')) (cs_owner cs) si" if q: "cs_bufs cs \<noteq> {#}"
    proof (cases "r = ENQ_QUEUED")
      case True
      with E(6) on_list_insert(1) [OF tl tn, of si] show ?thesis by (simp add: r(1) cfg)
    next
      case False
      note N = E(7) [OF False]
      have "bi \<in># mset freed" using N by simp
      from multi_member_split [OF this] obtain rest where "mset freed = add_mset bi rest" by blast
      with E(2) have "cs_bufs cs0 = cs_bufs cs + rest" by (simp add: bufs0)
      with q have "cs_bufs cs0 \<noteq> {#}" by simp
      with l have act: "drr_active (cs_drr cs0)" "on_list ?pts (cs_owner cs0) si" by (simp_all add: live_ok_def)
      then have "cs_owner cs0 = thread" using own by (auto simp: on_list_def)
      with act N False show ?thesis by (simp add: r(1) cfg)
    qed
    then show ?thesis using E(1) l cfg by (simp add: live_ok_def)
  qed
  show "dp_inv n dp'"
    by (rule dp_focus_inv(1) [OF inv at _ _ cfg(1) _ _ _ _ _ _ live])
       (use E(3) r on_list_insert(2) [OF tl tn] in \<open>auto split: if_splits\<close>)
  have "dp_queued dp' + cs_bufs cs0 = dp_queued dp + cs_bufs cs"
    by (rule dp_focus_inv(2) [OF inv at _ _ cfg(1) _ _ _ _ _ _ live])
       (use E(3) r on_list_insert(2) [OF tl tn] in \<open>auto split: if_splits\<close>)
  moreover have "cs_bufs cs0 + {#bi#} = cs_bufs cs + mset freed" using E(2) by (simp add: bufs0)
  ultimately have "(dp_queued dp + {#bi#}) + (cs_bufs cs + cs_bufs cs0) = (dp_queued dp' + mset freed) + (cs_bufs cs + cs_bufs cs0)"
    by (metis (no_types, lifting) add.assoc add.commute)
  then show "dp_queued dp + mset (dp_freed dp) + {#bi#} = dp_queued dp' + mset (dp_freed dp')" by (simp add: r(3))
  show "\<not> enq_keeps r" using E(4,5) by (simp add: enq_keeps_def)
qed


lemma enqueue_pkt:
  assumes inv: "dp_inv n dp" and th: "unat thread < n" and mem: "length mem = CAKE_FLOW_RING_SIZE"
    and e: "cake_enqueue_pkt ex mem now thread bi dp = (r, dp')"
  shows "dp_inv n dp' \<and> dp_lens dp' = dp_lens dp \<and> dp_queued dp + mset (dp_freed dp) + {#bi#} =
    dp_queued dp' + mset (dp_freed dp') + (if enq_keeps r then {#bi#} else {#})"
proof -
  let ?cm = "dp_main dp" and ?b = "dp_bufs dp bi"
  note D = dp_invD [OF inv]
  have quiet: "dp_inv n d" "dp_queued d = dp_queued dp" if "dp_main d = dp_main dp" "dp_lens d = dp_lens dp" for d
    using inv that by (simp_all add: dp_inv_def dp_queued_def)
  define si where "si = (if unat (b_tx_if ?b) < length (cm_sched_by_if ?cm) then cm_sched_by_if ?cm ! unat (b_tx_if ?b) else nil32)"
  note e = e [unfolded cake_enqueue_pkt_def Let_def, folded si_def]
  show ?thesis
  proof (cases "b_scheduled ?b")
    case True
    then have r: "r = ENQ_PASS" "dp' = dp\<lparr>dp_bufs := (dp_bufs dp)(bi := ?b\<lparr>b_scheduled := False\<rparr>)\<rparr>"
      using e by simp_all
    have "dp_lens dp' = dp_lens dp" by (simp add: r dp_lens_def fun_eq_iff)
    then show ?thesis using quiet [of dp'] r by (simp add: enq_keeps_def)
  next
    case fresh: False
    note e = e [unfolded if_not_P [OF fresh]]
    show ?thesis
    proof (cases "si = nil32 \<or> pool_at (cm_scheds ?cm) si = None")
      case True
      then have "r = ENQ_PASS" "dp' = dp" using e by (auto split: if_splits)
      then show ?thesis using inv by simp
    next
      case False
      then obtain cs where ne: "si \<noteq> nil32" and at: "pool_at (cm_scheds ?cm) si = Some cs" by auto
      note e = e [unfolded if_not_P [OF ne] at option.case]
      show ?thesis
      proof (cases "cs_owner cs = CAKE_OWNER_UNSET \<or> cs_owner cs = thread")
        case False
        then have "r = ENQ_HANDOFF" "dp' = dp" using e by auto
        then show ?thesis using inv by simp
      next
        case own: True
        have c: "(if cs_owner cs = CAKE_OWNER_UNSET then cs\<lparr>cs_owner := thread\<rparr> else cs) = cs\<lparr>cs_owner := thread\<rparr>"
          using own by auto
        note e = e [unfolded c]
        have o: "\<not> cs_owner (cs\<lparr>cs_owner := thread\<rparr>) \<noteq> thread" by simp
        note e = e [unfolded if_not_P [OF o]]
        obtain r1 aggs cs1 freed where l: "cake_enqueue_local ex mem now (unat thread) bi ?b (cm_aggs ?cm) (cs\<lparr>cs_owner := thread\<rparr>)
          = (r1, aggs, cs1, freed)" by (metis prod_cases4)
        note e = e [unfolded l prod.case prod.inject]
        have r: "r1 = r" using e by simp
        have P: "dp_main dp' = ?cm\<lparr>cm_aggs := aggs, cm_scheds := pool_upd si (\<lambda>_. cs1) (cm_scheds ?cm),
          cm_per_thread := (if r = ENQ_QUEUED
          then (cm_per_thread (dp_main dp))[unat thread := (cm_per_thread (dp_main dp) ! unat thread)
            \<lparr>pt_active := insert (cs_sched_index cs1) (pt_active (cm_per_thread (dp_main dp) ! unat thread))\<rparr>]
          else cm_per_thread (dp_main dp))\<rparr>" "dp_lens dp' b = dp_lens dp b" "dp_freed dp' = dp_freed dp @ freed" for b
          using e by (auto simp: dp_lens_def)
        note O = enqueue_owned [OF inv th mem at own l [unfolded r] P]
        have "dp_lens dp' = dp_lens dp" using P(2) by (rule ext)
        with O show ?thesis by simp
      qed
    qed
  qed
qed

text \<open>A frame: every packet ends up in a queue, freed, or with the caller.\<close>

definition enq_kept :: "(u32 \<times> cake_enq_result) list \<Rightarrow> u32 multiset" where
  "enq_kept rs = mset (map fst (filter (enq_keeps \<circ> snd) rs))"

lemma enqueue_frame:
  assumes "dp_inv n dp" and "unat thread < n" and "length mem = CAKE_FLOW_RING_SIZE"
    and "cake_enqueue_inline ex mem now thread bis dp = (rs, dp')"
  shows "dp_inv n dp' \<and> dp_lens dp' = dp_lens dp \<and> map fst rs = bis \<and>
    dp_queued dp + mset (dp_freed dp) + mset bis = dp_queued dp' + mset (dp_freed dp') + enq_kept rs"
  using assms
proof (induction bis arbitrary: dp rs)
  case Nil
  then show ?case by (simp add: enq_kept_def)
next
  case (Cons bi bis)
  obtain r d1 where p: "cake_enqueue_pkt ex mem now thread bi dp = (r, d1)" by fastforce
  obtain rs1 d2 where f: "cake_enqueue_inline ex mem now thread bis d1 = (rs1, d2)" by fastforce
  have eq: "rs = (bi, r) # rs1" "dp' = d2" using Cons.prems(4) p f by auto
  note E = enqueue_pkt [OF Cons.prems(1-3) p]
  note I = Cons.IH [OF E [THEN conjunct1] Cons.prems(2,3) f [folded eq(2)]]
  have "dp_queued dp + mset (dp_freed dp) + mset (bi # bis) = (dp_queued dp + mset (dp_freed dp) + {#bi#}) + mset bis" by simp
  also have "\<dots> = (dp_queued d1 + mset (dp_freed d1) + mset bis) + (if enq_keeps r then {#bi#} else {#})"
    using E by simp
  also have "\<dots> = dp_queued dp' + mset (dp_freed dp') + enq_kept rs" using I eq by (auto simp: enq_kept_def)
  finally show ?case using E I eq by simp
qed

section \<open>Dispatch\<close>

text \<open>What may leave the list of a worker: nothing it has to serve.\<close>

definition idle_ok :: "u32 \<Rightarrow> u32 list \<Rightarrow> cake_dp \<Rightarrow> bool" where
  "idle_ok thread idle dp \<longleftrightarrow> (\<forall>si \<in> set idle. \<forall>cs. pool_at (cm_scheds (dp_main dp)) si = Some cs \<longrightarrow>
     cs_owner cs \<noteq> thread \<or> cs_bufs cs = {#})"

definition deq_start :: "cake_dp \<Rightarrow> cake_sched \<Rightarrow> u32 \<Rightarrow> nat \<Rightarrow> cake_deq" where
  "deq_start dp cs seed budget = \<lparr>dq_aggs = cm_aggs (dp_main dp), dq_cs = cs, dq_bufs = dp_bufs dp, dq_seed = seed,
     dq_budget = budget, dq_out = [], dq_freed = []\<rparr>"

definition deq_finish :: "u32 \<Rightarrow> cake_deq \<Rightarrow> cake_dp \<Rightarrow> cake_dp" where
  "deq_finish si dq dp = dp\<lparr>dp_main := (dp_main dp)\<lparr>cm_aggs := dq_aggs dq,
       cm_scheds := pool_upd si (\<lambda>_. dq_cs dq) (cm_scheds (dp_main dp))\<rparr>,
     dp_bufs := dq_bufs dq, dp_freed := dp_freed dp @ dq_freed dq\<rparr>"

lemma walk_visit:
  assumes inv: "dp_inv n dp" and at: "pool_at (cm_scheds (dp_main dp)) si = Some cs"
  shows "\<exists>idle dq. cake_dequeue_sched ex now_us now_ns thread (deq_start dp cs seed budget) = Some (idle, dq) \<and>
    dp_inv n (deq_finish si dq dp) \<and> dp_lens (deq_finish si dq dp) = dp_lens dp \<and>
    dp_queued dp + mset (dp_freed dp) = dp_queued (deq_finish si dq dp) + mset (dp_freed (deq_finish si dq dp)) + mset (map fst (dq_out dq)) \<and>
    dq_budget dq + length (dq_out dq) = budget \<and> (idle \<longrightarrow> cs_bufs (dq_cs dq) = {#})"
proof -
  let ?dq = "deq_start dp cs seed budget"
  note D = dp_invD [OF inv]
  have l: "live_ok (dp_lens dp) (cm_per_thread (dp_main dp)) si cs" by (rule D(5) [OF at])
  have pre: "sched_ok (dp_lens dp) (dq_cs ?dq)" "deq_lens (dp_lens dp) ?dq"
      "focus_ok (cm_scheds (dp_main dp)) si (dq_aggs ?dq) (dq_cs ?dq)"
    using l inv_focus [OF D(1) at] by (simp_all add: deq_start_def live_ok_def deq_lens_def dp_lens_def)
  obtain idle dq where e: "cake_dequeue_sched ex now_us now_ns thread ?dq = Some (idle, dq)"
    and v: "deq_sched (dp_lens dp) (cm_scheds (dp_main dp)) si ?dq dq"
    and act: "if idle then cs_bufs (dq_cs dq) = {#} else drr_active (cs_drr (dq_cs dq)) = drr_active (cs_drr (dq_cs ?dq))"
    using sched_visit [OF pre, of ex now_us now_ns thread] by blast
  have bufs: "cs_bufs cs = cs_bufs (dq_cs dq) + (mset (map fst (dq_out dq)) + mset (dq_freed dq))"
    and spent: "dq_budget dq + length (dq_out dq) = budget"
    using v by (simp_all add: deq_sched_def deq_start_def deq_gone_def deq_spent_def)
  have fo: "focus_ok (cm_scheds (dp_main dp)) si (dq_aggs dq) (dq_cs dq)" "same_cfg (cm_aggs (dp_main dp)) (dq_aggs dq)"
    "cs_cfg (dq_cs dq) = cs_cfg cs"
    using v pre(3) by (simp_all add: deq_sched_def sched_step_def deq_start_def)
  have cfg: "cs_sw_if_index (dq_cs dq) = cs_sw_if_index cs" "cs_sched_index (dq_cs dq) = cs_sched_index cs"
    "cs_owner (dq_cs dq) = cs_owner cs" "cs_n_tins (dq_cs dq) = cs_n_tins cs"
    using fo(3) by (simp_all add: cs_cfg_def)
  have "drr_active (cs_drr (dq_cs dq)) \<and> on_list (cm_per_thread (dp_main dp)) (cs_owner cs) si" if "cs_bufs (dq_cs dq) \<noteq> {#}"
    using that bufs act l by (auto simp: live_ok_def deq_start_def split: if_splits)
  then have live: "live_ok (dp_lens dp) (cm_per_thread (dp_main (deq_finish si dq dp))) si (dq_cs dq)"
    using v l cfg by (auto simp: live_ok_def deq_sched_def deq_finish_def)
  have len: "dp_lens (deq_finish si dq dp) b = dp_lens dp b" for b
    using v by (simp add: deq_sched_def deq_lens_def dp_lens_def deq_finish_def)
  have F: "dp_inv n (deq_finish si dq dp)" "dp_queued (deq_finish si dq dp) + cs_bufs cs = dp_queued dp + cs_bufs (dq_cs dq)"
    by (rule dp_focus_inv [OF inv at fo(1,2) cfg(1) _ _ _ _ _ _ live len]; simp add: deq_finish_def)+
  have "dp_queued dp = dp_queued (deq_finish si dq dp) + (mset (map fst (dq_out dq)) + mset (dq_freed dq))"
    using F(2) by (simp add: bufs)
  moreover have "dp_lens (deq_finish si dq dp) = dp_lens dp" using len by (rule ext)
  ultimately show ?thesis using e F(1) spent act by (intro exI [of _ idle] exI [of _ dq]) (simp add: deq_finish_def)
qed

lemma walk_unfold:
  "cake_dequeue_walk ex now_us now_ns thread (si # sis) budget seed out idle dp =
     (if budget = 0 \<or> length idle \<ge> VLIB_FRAME_SIZE - 1 then Some (seed, out, idle, dp)
      else (case pool_at (cm_scheds (dp_main dp)) si of
        None \<Rightarrow> cake_dequeue_walk ex now_us now_ns thread sis budget seed out (idle @ [si]) dp
      | Some cs \<Rightarrow>
          if cs_owner cs \<noteq> thread
          then cake_dequeue_walk ex now_us now_ns thread sis budget seed out (idle @ [si]) dp
          else if now_ns < cs_shaper_time cs
          then cake_dequeue_walk ex now_us now_ns thread sis budget seed out idle dp
          else Option.bind (cake_dequeue_sched ex now_us now_ns (unat thread) (deq_start dp cs seed budget))
            (\<lambda>(off, dq). cake_dequeue_walk ex now_us now_ns thread sis (dq_budget dq) (dq_seed dq) (out @ dq_out dq)
              (if off then idle @ [si] else idle) (deq_finish si dq dp))))"
  by (simp add: deq_start_def deq_finish_def split: option.split)

lemma walk_ok:
  assumes "dp_inv n dp" and "distinct sis" and "set idle \<inter> set sis = {}" and "idle_ok thread idle dp"
  shows "\<exists>seed' out' idle' dp'. cake_dequeue_walk ex now_us now_ns thread sis budget seed out idle dp = Some (seed', out', idle', dp') \<and>
    dp_inv n dp' \<and> dp_lens dp' = dp_lens dp \<and> cm_per_thread (dp_main dp') = cm_per_thread (dp_main dp) \<and> idle_ok thread idle' dp' \<and>
    dp_queued dp + mset (dp_freed dp) + mset (map fst out) = dp_queued dp' + mset (dp_freed dp') + mset (map fst out') \<and>
    length out' \<le> budget + length out"
  using assms
proof (induction sis arbitrary: budget seed out idle dp)
  case Nil
  then show ?case by simp
next
  case (Cons si sis)
  let ?w = "cake_dequeue_walk ex now_us now_ns thread (si # sis) budget seed out idle dp"
  have dist: "distinct sis" "set idle \<inter> set sis = {}" "set (idle @ [si]) \<inter> set sis = {}" "si \<notin> set idle" using Cons.prems(2,3) by auto
  consider (stop) "budget = 0 \<or> length idle \<ge> VLIB_FRAME_SIZE - 1"
    | (gone) "?w = cake_dequeue_walk ex now_us now_ns thread sis budget seed out (idle @ [si]) dp" "idle_ok thread (idle @ [si]) dp"
    | (wait) "?w = cake_dequeue_walk ex now_us now_ns thread sis budget seed out idle dp"
    | (visit) cs where "pool_at (cm_scheds (dp_main dp)) si = Some cs" "cs_owner cs = thread"
        "?w = Option.bind (cake_dequeue_sched ex now_us now_ns (unat thread) (deq_start dp cs seed budget))
            (\<lambda>(off, dq). cake_dequeue_walk ex now_us now_ns thread sis (dq_budget dq) (dq_seed dq) (out @ dq_out dq)
              (if off then idle @ [si] else idle) (deq_finish si dq dp))"
  proof (cases "budget = 0 \<or> length idle \<ge> VLIB_FRAME_SIZE - 1")
    case True
    then show thesis by (rule stop)
  next
    case go: False
    show thesis
    proof (cases "pool_at (cm_scheds (dp_main dp)) si")
      case None
      with go gone Cons.prems(4) show thesis by (simp add: idle_ok_def)
    next
      case (Some cs)
      show thesis
      proof (cases "cs_owner cs = thread")
        case own: True
        show thesis
        proof (cases "now_ns < cs_shaper_time cs")
          case True
          with go Some own wait show thesis by simp
        next
          case False
          show thesis by (rule visit [OF Some own]) (use go Some own False in \<open>simp only: walk_unfold option.case if_False not_True_eq_False simp_thms\<close>)
        qed
      next
        case False
        with go Some gone Cons.prems(4) show thesis by (simp add: idle_ok_def)
      qed
    qed
  qed
  then show ?case
  proof cases
    case stop
    with Cons.prems show ?thesis by simp
  next
    case gone
    from Cons.IH [OF Cons.prems(1) dist(1,3) gone(2), of budget seed out] show ?thesis unfolding gone(1) .
  next
    case wait
    from Cons.IH [OF Cons.prems(1) dist(1,2) Cons.prems(4), of budget seed out] show ?thesis unfolding wait .
  next
    case (visit cs)
    obtain off dq where e: "cake_dequeue_sched ex now_us now_ns (unat thread) (deq_start dp cs seed budget) = Some (off, dq)"
      and inv: "dp_inv n (deq_finish si dq dp)" and len: "dp_lens (deq_finish si dq dp) = dp_lens dp"
      and cons: "dp_queued dp + mset (dp_freed dp) = dp_queued (deq_finish si dq dp) + mset (dp_freed (deq_finish si dq dp)) + mset (map fst (dq_out dq))"
      and spent: "dq_budget dq + length (dq_out dq) = budget" and off: "off \<longrightarrow> cs_bufs (dq_cs dq) = {#}"
      using walk_visit [OF Cons.prems(1) visit(1), of ex now_us now_ns "unat thread" seed budget] by blast
    let ?idle = "if off then idle @ [si] else idle"
    have pts: "cm_per_thread (dp_main (deq_finish si dq dp)) = cm_per_thread (dp_main dp)" by (simp add: deq_finish_def)
    have idle: "idle_ok thread ?idle (deq_finish si dq dp)"
      using Cons.prems(4) off dist(4) by (auto simp: idle_ok_def deq_finish_def pool_at_upd split: if_splits)
    have "set ?idle \<inter> set sis = {}" using dist by simp
    from Cons.IH [OF inv dist(1) this idle, of "dq_budget dq" "dq_seed dq" "out @ dq_out dq"]
    obtain seed' out' idle' dp' where W: "cake_dequeue_walk ex now_us now_ns thread sis (dq_budget dq) (dq_seed dq) (out @ dq_out dq) ?idle (deq_finish si dq dp)
          = Some (seed', out', idle', dp')"
      "dp_inv n dp'" "dp_lens dp' = dp_lens dp" "cm_per_thread (dp_main dp') = cm_per_thread (dp_main dp)" "idle_ok thread idle' dp'"
      "dp_queued (deq_finish si dq dp) + mset (dp_freed (deq_finish si dq dp)) + mset (map fst (out @ dq_out dq))
        = dp_queued dp' + mset (dp_freed dp') + mset (map fst out')"
      "length out' \<le> dq_budget dq + length (out @ dq_out dq)"
      unfolding len pts by blast
    have "?w = Some (seed', out', idle', dp')" unfolding visit(3) e using W(1) by simp
    moreover have "dp_queued dp + mset (dp_freed dp) + mset (map fst out) = dp_queued dp' + mset (dp_freed dp') + mset (map fst out')"
      using W(6) cons by (simp add: ac_simps)
    ultimately show ?thesis using W spent by auto
  qed
qed

lemma dequeue_node:
  assumes inv: "dp_inv n dp"
  shows "\<exists>out dp'. cake_dequeue_node ex now_us now_ns thread dp = Some (out, dp') \<and> dp_inv n dp' \<and> dp_lens dp' = dp_lens dp \<and>
    dp_queued dp + mset (dp_freed dp) = dp_queued dp' + mset (dp_freed dp') + mset (map fst out) \<and> length out \<le> VLIB_FRAME_SIZE"
proof -
  let ?pts = "cm_per_thread (dp_main dp)"
  let ?pt = "?pts ! unat thread"
  show ?thesis
  proof (cases "unat thread \<ge> length ?pts \<or> pt_active ?pt = {}")
    case True
    then have "cake_dequeue_node ex now_us now_ns thread dp = Some ([], dp)" by (auto simp: cake_dequeue_node_def)
    with inv show ?thesis by simp
  next
    case False
    have "idle_ok thread [] dp" by (simp add: idle_ok_def)
    then obtain seed out idle d where W: "cake_dequeue_walk ex now_us now_ns thread (sorted_list_of_set (pt_active ?pt)) VLIB_FRAME_SIZE (pt_random_seed ?pt) [] [] dp
          = Some (seed, out, idle, d)"
      "dp_inv n d" "dp_lens d = dp_lens dp" "cm_per_thread (dp_main d) = ?pts" "idle_ok thread idle d"
      "dp_queued dp + mset (dp_freed dp) = dp_queued d + mset (dp_freed d) + mset (map fst out)" "length out \<le> VLIB_FRAME_SIZE"
      using walk_ok [OF inv, of "sorted_list_of_set (pt_active ?pt)" "[]" thread ex now_us now_ns VLIB_FRAME_SIZE "pt_random_seed ?pt" "[]"] by auto
    let ?d = "d\<lparr>dp_main := (dp_main d)\<lparr>cm_per_thread := ?pts[unat thread := ?pt\<lparr>pt_active := pt_active ?pt - set idle, pt_random_seed := seed\<rparr>]\<rparr>\<rparr>"
    have eq: "cake_dequeue_node ex now_us now_ns thread dp = Some (out, ?d)"
      using False W(1,4) by (simp add: cake_dequeue_node_def Let_def)
    have "live_ok (dp_lens d) (cm_per_thread (dp_main ?d)) si cs" if at: "pool_at (cm_scheds (dp_main d)) si = Some cs" for si cs
      using dp_invD(5) [OF W(2) at] W(5) at False
      by (auto simp: live_ok_def idle_ok_def on_list_def W(4) nth_list_update dest!: word_unat_eq_iff [THEN iffD2])
    moreover have dl: "dp_lens ?d = dp_lens d" by (simp add: dp_lens_def fun_eq_iff)
    ultimately have "dp_inv n ?d" using W(2,4) by (auto simp: dp_inv_def cake_inv_def dl simp del: nth_list_update)
    moreover have "dp_lens ?d = dp_lens dp" using W(3) dl by simp
    ultimately show ?thesis using eq W(6,7) by (intro exI [of _ out] exI [of _ ?d]) (simp add: dp_queued_def)
  qed
qed

section \<open>Configuration of the aggregates\<close>

text \<open>It changes nothing of the schedulers but the aggregate they hang from.\<close>

definition no_agg :: "cake_sched \<Rightarrow> cake_sched" where
  "no_agg cs = cs\<lparr>cs_agg := 0\<rparr>"

definition same_scheds :: "cake_main \<Rightarrow> cake_main \<Rightarrow> bool" where
  "same_scheds cm cm' \<longleftrightarrow> cm_per_thread cm' = cm_per_thread cm \<and> cm_sched_by_if cm' = cm_sched_by_if cm \<and>
     cm_n_scheds cm' = cm_n_scheds cm \<and> map (map_option no_agg) (cm_scheds cm') = map (map_option no_agg) (cm_scheds cm)"

lemma same_scheds_refl [simp]: "same_scheds cm cm"
  by (simp add: same_scheds_def)

lemma same_scheds_trans: "same_scheds a b \<Longrightarrow> same_scheds b c \<Longrightarrow> same_scheds a c"
  by (simp add: same_scheds_def)

lemma same_scheds_aggs [simp]:
  "same_scheds cm (c\<lparr>cm_aggs := a\<rparr>) = same_scheds cm c" "same_scheds (c\<lparr>cm_aggs := a\<rparr>) cm = same_scheds c cm"
  "same_scheds cm (c\<lparr>cm_agg_by_if := m\<rparr>) = same_scheds cm c" "same_scheds (c\<lparr>cm_agg_by_if := m\<rparr>) cm = same_scheds c cm"
  by (simp_all add: same_scheds_def)

lemma same_scheds_at:
  assumes "same_scheds cm cm'"
  shows "map_option no_agg (pool_at (cm_scheds cm') si) = map_option no_agg (pool_at (cm_scheds cm) si)"
proof -
  have *: "map_option no_agg (pool_at p si) = (if unat si < length (map (map_option no_agg) p) then map (map_option no_agg) p ! unat si else None)" for p
    by (simp add: pool_at_def)
  show ?thesis unfolding * using assms by (simp add: same_scheds_def)
qed

lemma resolve_no_agg: "cake_sched_resolve_attachment ifs cm cs = Some cs' \<Longrightarrow> no_agg cs' = no_agg cs"
  by (auto simp: cake_sched_resolve_attachment_def no_agg_def split: Option.bind_splits)

lemma upd_no_agg:
  assumes "pool_at p si = Some cs" and "no_agg cs' = no_agg cs"
  shows "map (map_option no_agg) (pool_upd si (\<lambda>_. cs') p) = map (map_option no_agg) p"
  using assms by (auto simp: pool_upd_def pool_at_def map_update intro!: nth_equalityI simp: nth_list_update split: if_splits)

lemma reparent_one_same: "cake_agg_reparent_one ifs si cm = Some cm' \<Longrightarrow> same_scheds cm cm'"
  by (auto simp: cake_agg_reparent_one_def Let_def same_scheds_def upd_no_agg dest: resolve_no_agg split: option.splits Option.bind_splits)

lemma reparent_all_same:
  assumes "cake_agg_reparent_all ifs cm = Some cm'"
  shows "same_scheds cm cm'"
proof -
  have "cake_agg_reparent_list ifs sis cm = Some cm' \<Longrightarrow> same_scheds cm cm'" for sis
  proof (induction sis arbitrary: cm)
    case (Cons si sis)
    then show ?case by (auto split: Option.bind_splits dest: reparent_one_same intro: same_scheds_trans)
  qed simp
  then show ?thesis using assms by (simp add: cake_agg_reparent_all_def)
qed

lemma agg_config_same:
  "cake_aggregate_create ifs valid now n idx cm sw rate weight burst limit = Some (rv, cm') \<Longrightarrow> same_scheds cm cm'"
  "cake_aggregate_delete ifs cm sw = Some (rv, cm') \<Longrightarrow> same_scheds cm cm'"
  "cake_svlan_aggregate_create ifs now n idx cm sw a b rate weight burst limit = Some (rv, cm') \<Longrightarrow> same_scheds cm cm'"
  "cake_svlan_aggregate_delete ifs cm sw a = Some (rv, cm') \<Longrightarrow> same_scheds cm cm'"
  "cake_aggregate_update cm sw level a rate weight burst limit = (rv, cm') \<Longrightarrow> same_scheds cm cm'"
      apply (auto simp: cake_aggregate_create_def Let_def split: if_splits Option.bind_splits dest: reparent_all_same)[1]
     apply (auto simp: cake_aggregate_delete_def Let_def split: if_splits Option.bind_splits dest: reparent_all_same)[1]
    apply (auto simp: cake_svlan_aggregate_create_def Let_def split: if_splits Option.bind_splits option.splits dest: reparent_all_same)[1]
   apply (auto simp: cake_svlan_aggregate_delete_def Let_def split: if_splits Option.bind_splits option.splits dest: reparent_all_same)[1]
  apply (auto simp: cake_aggregate_update_def Let_def split: if_split_asm option.split_asm)
  done

lemma no_agg_fields:
  assumes "no_agg a = no_agg b"
  shows "cs_tins a = cs_tins b" "cs_sw_if_index a = cs_sw_if_index b" "cs_sched_index a = cs_sched_index b"
    "cs_owner a = cs_owner b" "cs_n_tins a = cs_n_tins b" "cs_drr a = cs_drr b" "cs_buffer_usage a = cs_buffer_usage b"
    "cs_queued a = cs_queued b" "cs_bufs a = cs_bufs b" "live_ok lens pts si a = live_ok lens pts si b"
proof -
  have f: "\<And>F. F (no_agg a) = F (no_agg b)" by (simp add: assms)
  show *: "cs_tins a = cs_tins b" "cs_sw_if_index a = cs_sw_if_index b" "cs_sched_index a = cs_sched_index b"
    "cs_owner a = cs_owner b" "cs_n_tins a = cs_n_tins b" "cs_drr a = cs_drr b" "cs_buffer_usage a = cs_buffer_usage b"
    "cs_queued a = cs_queued b"
    using f [of cs_tins] f [of cs_sw_if_index] f [of cs_sched_index] f [of cs_owner] f [of cs_n_tins] f [of cs_drr]
      f [of cs_buffer_usage] f [of cs_queued] by (simp_all add: no_agg_def)
  then show "cs_bufs a = cs_bufs b" "live_ok lens pts si a = live_ok lens pts si b"
    by (simp_all add: cs_bufs_def live_ok_def sched_ok_def)
qed

lemma config_keeps:
  assumes inv: "dp_inv n dp" and ci: "cake_inv cm'" and same: "same_scheds (dp_main dp) cm'"
  shows "dp_inv n (dp\<lparr>dp_main := cm'\<rparr>)" "dp_queued (dp\<lparr>dp_main := cm'\<rparr>) = dp_queued dp"
    "dp_lens (dp\<lparr>dp_main := cm'\<rparr>) = dp_lens dp"
proof -
  note D = dp_invD [OF inv]
  show l: "dp_lens (dp\<lparr>dp_main := cm'\<rparr>) = dp_lens dp" by (simp add: dp_lens_def fun_eq_iff)
  have prev: "\<exists>s. pool_at (cm_scheds (dp_main dp)) si = Some s \<and> no_agg cs = no_agg s" if "pool_at (cm_scheds cm') si = Some cs" for si cs
    using same_scheds_at [OF same, of si] that by (cases "pool_at (cm_scheds (dp_main dp)) si") auto
  have "map_option cs_sw_if_index (pool_at (cm_scheds cm') j) = map_option cs_sw_if_index (pool_at (cm_scheds (dp_main dp)) j)" for j
    using same_scheds_at [OF same, of j]
    by (cases "pool_at (cm_scheds cm') j"; cases "pool_at (cm_scheds (dp_main dp)) j") (auto dest: no_agg_fields(2))
  then have "by_if_ok (cm_sched_by_if (dp_main dp)) (cm_scheds cm')" by (rule by_if_cong [OF D(3)])
  moreover have "n \<le> length (cm_per_thread (dp_main dp)) \<and> live_ok (dp_lens dp) (cm_per_thread (dp_main dp)) si cs"
    if "pool_at (cm_scheds cm') si = Some cs" for si cs
    using prev [OF that] D(4,5) no_agg_fields(10) by blast
  ultimately show "dp_inv n (dp\<lparr>dp_main := cm'\<rparr>)"
    using ci D(2,6) same unfolding dp_inv_def l by (simp add: same_scheds_def)
  have *: "pool_sum cs_bufs p = (\<Sum>e\<leftarrow>map (map_option no_agg) p. case e of None \<Rightarrow> {#} | Some x \<Rightarrow> cs_bufs x)" for p
    unfolding pool_sum_def by (simp add: o_def) (intro arg_cong [where f = sum_list] map_cong, auto simp: no_agg_def cs_bufs_def split: option.split)
  show "dp_queued (dp\<lparr>dp_main := cm'\<rparr>) = dp_queued dp" using same by (simp add: dp_queued_def * same_scheds_def)
qed

section \<open>Draining a scheduler\<close>

lemma discard_drain:
  assumes ok: "flow_ok lens f" and e: "cake_flow_discard aggs cs tin f = (aggs', cs', tin', f', freed)"
  shows "freed = flow_queue f" "cs_buffer_usage cs' = cs_buffer_usage cs - f_backlog f"
    "cs_queued cs' = cs_queued cs - cake_flow_queue_len f" "t_flows tin' = t_flows tin" "cs_tins cs' = cs_tins cs"
    "cs_drr cs' = cs_drr cs" "cs_cfg cs' = cs_cfg cs" "sched_step scheds si aggs cs aggs' cs'"
proof -
  have len0: "cake_flow_queue_len f = 0 \<Longrightarrow> f_backlog f = 0" using flow_okD(3) [OF ok] by (simp add: flow_queue_empty lens_sum_def)
  have ring: "f_ring f = [] \<Longrightarrow> cake_flow_queue_len f = 0" using flow_okD(6) [OF ok] length_flow_queue [of f] by (simp add: unat_eq_0)
  show q: "freed = flow_queue f" "cs_buffer_usage cs' = cs_buffer_usage cs - f_backlog f"
    "cs_queued cs' = cs_queued cs - cake_flow_queue_len f" "t_flows tin' = t_flows tin" "cs_tins cs' = cs_tins cs"
    "cs_drr cs' = cs_drr cs" "cs_cfg cs' = cs_cfg cs"
    using e len0 ring
    by (auto simp: cake_flow_discard_def Let_def ring_free flow_queue_empty cs_cfg_def flow_queue_def cake_flow_queue_len_def split: if_splits)
  have a: "aggs' = (if cake_flow_queue_len f = 0 then aggs else cake_agg_discharge aggs cs (f_backlog f))"
    using e by (auto simp: cake_flow_discard_def Let_def split: if_splits prod.splits)
  show "sched_step scheds si aggs cs aggs' cs'"
  proof (cases "cake_flow_queue_len f = 0")
    case True
    with q len0 show ?thesis by (auto simp: a intro: step_cs)
  next
    case False
    with q step_discharge [of cs' cs "f_backlog f"] show ?thesis by (simp add: a)
  qed
qed

lemma drain_loop:
  assumes "distinct is" and "\<And>i. i \<in> set is \<Longrightarrow> i < length (t_flows tin) \<and> flow_ok lens (t_flows tin ! i)"
    and "cake_tin_drain_loop is aggs cs tin = (aggs', cs', tin', freed)"
  shows "mset freed = (\<Sum>i\<leftarrow>is. mset (flow_queue (t_flows tin ! i))) \<and>
    cs_buffer_usage cs' = cs_buffer_usage cs - (\<Sum>i\<leftarrow>is. f_backlog (t_flows tin ! i)) \<and>
    cs_queued cs' = cs_queued cs - (\<Sum>i\<leftarrow>is. cake_flow_queue_len (t_flows tin ! i)) \<and> cs_tins cs' = cs_tins cs \<and>
    cs_drr cs' = cs_drr cs \<and> cs_cfg cs' = cs_cfg cs \<and> sched_step scheds si aggs cs aggs' cs'"
  using assms
proof (induction "is" arbitrary: aggs cs tin freed aggs' cs' tin')
  case Nil
  then show ?case by simp
next
  case (Cons i xs)
  obtain a1 c1 t1 f1 fr1 where d: "cake_flow_discard aggs cs tin (t_flows tin ! i) = (a1, c1, t1, f1, fr1)" by (metis prod_cases5)
  let ?t = "t1\<lparr>t_flows := (t_flows t1)[i := f1]\<rparr>"
  obtain a2 c2 t2 fr2 where l: "cake_tin_drain_loop xs a1 c1 ?t = (a2, c2, t2, fr2)" by (metis prod_cases4)
  have eq: "aggs' = a2" "cs' = c2" "freed = fr1 @ fr2" using Cons.prems(3) d l by (simp_all add: Let_def)
  have "flow_ok lens (t_flows tin ! i)" using Cons.prems(2) [of i] by simp
  note D = discard_drain [OF this d]
  have nth: "t_flows ?t ! j = t_flows tin ! j" if "j \<in> set xs" for j
  proof -
    have "i \<noteq> j" using that Cons.prems(1) by auto
    then show ?thesis using D(4) by simp
  qed
  have pre: "\<And>j. j \<in> set xs \<Longrightarrow> j < length (t_flows ?t) \<and> flow_ok lens (t_flows ?t ! j)"
    using Cons.prems(2) nth D(4) by simp
  have ct: "t_flows (t1\<lparr>t_flows := y\<rparr>) = y" for y by simp
  note nth' = nth [unfolded ct D(4)]
  have dist: "distinct xs" using Cons.prems(1) by simp
  note I = Cons.IH [OF dist pre l]
  show ?case using I D eq by (simp add: diff_diff_eq nth' sched_step_trans [OF D(8), of scheds si] cong: map_cong)
qed

lemma map_nth_sum: "(\<Sum>i\<leftarrow>[0..<length xs]. F (xs ! i)) = (\<Sum>x\<leftarrow>xs. F x)"
  by (intro arg_cong [where f = sum_list] nth_equalityI) simp_all

lemma tin_drain:
  assumes ok: "tin_ok lens tin" and e: "cake_tin_drain aggs cs tin = (aggs', cs', tin', freed)"
  shows "mset freed = tin_bufs tin \<and> cs_buffer_usage cs' = cs_buffer_usage cs - tin_backlog tin \<and>
    cs_queued cs' = cs_queued cs - tin_queued tin \<and> cs_tins cs' = cs_tins cs \<and>
    cs_drr cs' = cs_drr cs \<and> cs_cfg cs' = cs_cfg cs \<and> sched_step scheds si aggs cs aggs' cs'"
proof -
  obtain nw od dc where inv: "tin_inv lens tin nw od dc" using ok by (auto simp: tin_ok_def)
  have len: "length (t_flows tin) = CAKE_QUEUES" using tin_invD(4) [OF inv] .
  have "t_flows tin \<noteq> []" using len by (auto simp: CAKE_QUEUES_def)
  then obtain t2 where l: "cake_tin_drain_loop [0..<length (t_flows tin)] aggs cs tin = (aggs', cs', t2, freed)"
    using e by (auto simp: cake_tin_drain_def len split: prod.splits)
  have fl: "i \<in> set [0..<length (t_flows tin)] \<Longrightarrow> i < length (t_flows tin) \<and> flow_ok lens (t_flows tin ! i)" for i
    using inv by (simp add: tin_inv_def)
  from drain_loop [OF _ fl l, of scheds si] show ?thesis
    by (simp add: map_nth_sum map_nth_sum [where F = "\<lambda>f. mset (flow_queue f)"] tin_bufs_def tin_backlog_def tin_queued_def del: set_upt)
qed

lemma tins_drain:
  assumes "distinct ts" and "\<And>t. t \<in> set ts \<Longrightarrow> t < length (cs_tins cs) \<and> tin_ok lens (cs_tins cs ! t)"
    and "cake_tins_drain ts aggs cs = (aggs', cs', freed)"
  shows "mset freed = (\<Sum>t\<leftarrow>ts. tin_bufs (cs_tins cs ! t)) \<and>
    cs_buffer_usage cs' = cs_buffer_usage cs - (\<Sum>t\<leftarrow>ts. tin_backlog (cs_tins cs ! t)) \<and>
    cs_queued cs' = cs_queued cs - (\<Sum>t\<leftarrow>ts. tin_queued (cs_tins cs ! t)) \<and>
    cs_drr cs' = cs_drr cs \<and> cs_cfg cs' = cs_cfg cs \<and> sched_step scheds si aggs cs aggs' cs'"
  using assms
proof (induction ts arbitrary: aggs cs freed aggs' cs')
  case Nil
  then show ?case by simp
next
  case (Cons i xs)
  obtain a1 c1 t1 fr1 where d: "cake_tin_drain aggs cs (cs_tins cs ! i) = (a1, c1, t1, fr1)" by (metis prod_cases4)
  let ?c = "c1\<lparr>cs_tins := (cs_tins c1)[i := t1]\<rparr>"
  obtain a2 c2 fr2 where l: "cake_tins_drain xs a1 ?c = (a2, c2, fr2)" by (metis prod_cases3)
  have eq: "aggs' = a2" "cs' = c2" "freed = fr1 @ fr2" using Cons.prems(3) d l by (simp_all add: Let_def)
  have "tin_ok lens (cs_tins cs ! i)" using Cons.prems(2) [of i] by simp
  note D = tin_drain [OF this d, of scheds si]
  have nth: "cs_tins ?c ! j = cs_tins cs ! j" if "j \<in> set xs" for j
  proof -
    have "i \<noteq> j" using that Cons.prems(1) by auto
    then show ?thesis using D by simp
  qed
  have pre: "\<And>j. j \<in> set xs \<Longrightarrow> j < length (cs_tins ?c) \<and> tin_ok lens (cs_tins ?c ! j)"
    using Cons.prems(2) nth D by simp
  have ct: "cs_tins (c1\<lparr>cs_tins := y\<rparr>) = y" for y by simp
  note nth' = nth [unfolded ct D [THEN conjunct2, THEN conjunct2, THEN conjunct2, THEN conjunct1]]
  have dist: "distinct xs" using Cons.prems(1) by simp
  note I = Cons.IH [OF dist pre l]
  have "sched_step scheds si a1 c1 a1 ?c" by (rule step_cs) (simp_all add: cs_cfg_def)
  then have "sched_step scheds si aggs cs aggs' cs'" using I D eq sched_step_trans by metis
  then show ?case using I D eq by (simp add: diff_diff_eq nth' cs_cfg_def cong: map_cong)
qed

text \<open>A scheduler's tins drained: nothing is left, and every buffer was freed.\<close>

lemma sched_drain:
  assumes ok: "sched_ok lens cs" and e: "cake_tins_drain [0..<unat (cs_n_tins cs)] aggs cs = (aggs', cs', freed)"
  shows "mset freed = cs_bufs cs" "cs_buffer_usage cs' = 0" "cs_drr cs' = cs_drr cs" "cs_cfg cs' = cs_cfg cs"
    "sched_step scheds si aggs cs aggs' cs'"
proof -
  have n: "unat (cs_n_tins cs) = length (cs_tins cs)" using ok by (simp add: sched_ok_def)
  have pre: "t \<in> set [0..<unat (cs_n_tins cs)] \<Longrightarrow> t < length (cs_tins cs) \<and> tin_ok lens (cs_tins cs ! t)" for t
    using ok by (simp add: sched_ok_def)
  note T = tins_drain [OF distinct_upt pre e, of scheds si, unfolded n map_nth_sum]
  from T ok show "mset freed = cs_bufs cs" "cs_buffer_usage cs' = 0" "cs_drr cs' = cs_drr cs" "cs_cfg cs' = cs_cfg cs"
    "sched_step scheds si aggs cs aggs' cs'"
    by (simp_all add: sched_ok_def cs_bufs_def)
qed

section \<open>Enabling and disabling a scheduler\<close>

lemma flow_clean_empty [simp]:
  "flow_queue flow_clean = []" "cake_flow_queue_len flow_clean = 0" "f_backlog flow_clean = 0" "f_state flow_clean = FLOW_NONE"
  by (simp_all add: flow_clean_def cake_flow_zero_def cake_flow_queue_len_def flow_queue_def)

lemma sum_empty_msets [simp]: "sum_list (replicate k {#}) = {#}"
  by (induction k) simp_all

lemma tin_init_ok:
  assumes "t = (cake_tin_init q)\<lparr>t_tin_quantum := w\<rparr>"
  shows "tin_ok lens t" "tin_backlog t = 0" "tin_queued t = 0" "tin_bufs t = {#}"
proof -
  have f: "t_flows t = replicate CAKE_QUEUES flow_clean" "t_flow_tags t = replicate CAKE_QUEUES 0"
    "t_new_head t = nil32" "t_new_tail t = nil32" "t_old_head t = nil32" "t_old_tail t = nil32"
    "t_decaying_head t = nil32" "t_decaying_tail t = nil32" "t_sparse_count t = 0" "t_bulk_count t = 0" "t_flow_count t = 0"
    by (simp_all add: assms cake_tin_init_def cake_tin_zero_def)
  have "tin_inv lens t [] [] []"
    by (simp add: tin_inv_def tin_dll_def fl.is_list_def tin_marks_def tin_counts_def tags_ok_def f flow_valid_def)
  then show "tin_ok lens t" by (auto simp: tin_ok_def)
  show "tin_backlog t = 0" "tin_queued t = 0" "tin_bufs t = {#}"
    by (simp_all add: tin_backlog_def tin_queued_def tin_bufs_def f sum_list_replicate)
qed

lemma tin_counts_mode: "m \<le> CAKE_TIN_MODE_DIFFSERV8 \<Longrightarrow> 0 < cake_tin_counts m \<and> unat (cake_tin_counts m) \<le> 8"
proof -
  assume "m \<le> CAKE_TIN_MODE_DIFFSERV8"
  then have "unat m \<le> 3" by (simp add: CAKE_TIN_MODE_DIFFSERV8_def word_le_nat_alt)
  then have "unat m = 0 \<or> unat m = 1 \<or> unat m = 2 \<or> unat m = 3" by arith
  then show ?thesis by (auto simp: cake_tin_counts_def)
qed

lemma sched_new_fields:
  assumes "cs = sched_new now mtu sw idx rate mode overhead atm mpu limit target interval weight" and m: "mode \<le> CAKE_TIN_MODE_DIFFSERV8"
  shows "sched_ok lens cs" "cs_bufs cs = {#}" "cs_buffer_usage cs = 0" "\<not> drr_active (cs_drr cs)" "cs_sched_index cs = idx"
    "cs_sw_if_index cs = sw" "0 < cs_n_tins cs"
proof -
  define tin where "tin = (cake_tin_init CAKE_QUANTUM_DEFAULT)\<lparr>t_tin_quantum := 65535 div ucast (cake_tin_counts mode)\<rparr>"
  note T = tin_init_ok [OF tin_def]
  have f: "cs_tins cs = replicate (unat (cake_tin_counts mode)) tin" "cs_n_tins cs = cake_tin_counts mode" "cs_buffer_usage cs = 0"
    "cs_queued cs = 0" "\<not> drr_active (cs_drr cs)" "cs_sched_index cs = idx" "cs_sw_if_index cs = sw"
    by (simp_all add: assms(1) sched_new_def Let_def tin_def cake_drr_child_zero_def)
  show "sched_ok lens cs" "cs_bufs cs = {#}" "cs_buffer_usage cs = 0" "\<not> drr_active (cs_drr cs)" "cs_sched_index cs = idx"
    "cs_sw_if_index cs = sw" "0 < cs_n_tins cs"
    using T tin_counts_mode [OF m] by (simp_all add: sched_ok_def cs_bufs_def f sum_list_replicate)
qed

lemma seed_threads_facts:
  "length (seed_threads k pts) = max k (length pts)"
  "i < length pts \<Longrightarrow> pt_active (seed_threads k pts ! i) = pt_active (pts ! i)"
  by (auto simp: seed_threads_def Let_def nth_append)

lemma on_list_seed: "on_list pts w si \<Longrightarrow> on_list (seed_threads k pts) w si"
  by (auto simp: on_list_def seed_threads_facts)

lemma accounts_add_sched:
  assumes tree: "tree_ok aggs scheds" and acc: "accounts_ok aggs scheds" and fresh: "pool_fresh scheds i"
    and room: "Suc (length aggs + length scheds) < 2 ^ 32 - 1"
    and s: "cs_buffer_usage s = 0" "\<not> drr_active (cs_drr s)" "agg_ref aggs (cs_agg s)"
  shows "tree_ok aggs (pool_get_put i s scheds)" "accounts_ok aggs (pool_get_put i s scheds)"
proof -
  have "sched_charge aggs k s = 0" "sched_weight k s = 0" "sched_count k s = 0" for k
    using s by (simp_all add: sched_charge_def sched_weight_def sched_count_def)
  then show "accounts_ok aggs (pool_get_put i s scheds)"
    using acc by (simp add: accounts_ok_def pool_sum_get_put [OF fresh])
  show "tree_ok aggs (pool_get_put i s scheds)"
    using tree room s(3) by (auto simp: tree_ok_def pool_small_def length_pool_get_put pool_at_get_put [OF fresh] split: if_splits)
qed

lemma accounts_remove_sched:
  assumes tree: "tree_ok aggs scheds" and acc: "accounts_ok aggs scheds" and at: "pool_at scheds i = Some s"
    and s: "cs_buffer_usage s = 0" "\<not> drr_active (cs_drr s)"
  shows "tree_ok aggs (pool_put i scheds)" "accounts_ok aggs (pool_put i scheds)"
proof -
  have "sched_charge aggs k s = 0" "sched_weight k s = 0" "sched_count k s = 0" for k
    using s by (simp_all add: sched_charge_def sched_weight_def sched_count_def)
  then have "pool_sum (sched_charge aggs k) (pool_put i scheds) = pool_sum (sched_charge aggs k) scheds"
    "pool_sum (sched_weight k) (pool_put i scheds) = pool_sum (sched_weight k) scheds"
    "pool_sum (sched_count k) (pool_put i scheds) = pool_sum (sched_count k) scheds" for k
    using pool_sum_put [OF at, of "sched_charge aggs k"] pool_sum_put [OF at, of "sched_weight k"] pool_sum_put [OF at, of "sched_count k"]
    by simp_all
  then show "accounts_ok aggs (pool_put i scheds)" using acc by (simp add: accounts_ok_def)
  show "tree_ok aggs (pool_put i scheds)" using tree by (auto simp: tree_ok_def pool_small_def pool_at_put split: if_splits)
qed

lemma by_if_validate:
  assumes "by_if_ok by_if scheds"
  shows "by_if_ok (vec_validate_init_empty by_if k nil32) scheds"
  using assms by (fastforce simp: by_if_ok_def vec_validate_init_empty_def nth_append)

lemma by_if_add:
  assumes ok: "by_if_ok by_if scheds" and fresh: "pool_fresh scheds i" and k: "k < length by_if" "by_if ! k = nil32"
    and s: "unat (cs_sw_if_index s) = k" and len: "length scheds < 2 ^ 32 - 1"
  shows "by_if_ok (by_if[k := i]) (pool_get_put i s scheds)"
proof -
  note at = pool_at_get_put [OF fresh]
  have no: "pool_at scheds i = None" "i \<noteq> nil32" using pool_fresh_at [OF fresh] fresh by auto
  have nil: "pool_at scheds nil32 = None" using len by (simp add: pool_at_def)
  have other: "unat (cs_sw_if_index cs) \<noteq> k" if "pool_at scheds si = Some cs" for si cs
    using by_if_okD(2) [OF ok that] that nil k(2) by auto
  show ?thesis unfolding by_if_ok_def at
  proof (intro conjI allI impI)
    fix j
    assume j: "j < length (by_if[k := i])" "by_if[k := i] ! j \<noteq> nil32"
    show "\<exists>cs. (if by_if[k := i] ! j = i then Some s else pool_at scheds (by_if[k := i] ! j)) = Some cs \<and> unat (cs_sw_if_index cs) = j"
    proof (cases "j = k")
      case True
      with s k(1) show ?thesis by simp
    next
      case False
      with j by_if_okD(1) [OF ok, of j] no(1) show ?thesis by (auto split: if_splits)
    qed
  next
    fix si cs
    assume a: "(if si = i then Some s else pool_at scheds si) = Some cs"
    show "unat (cs_sw_if_index cs) < length (by_if[k := i])" "by_if[k := i] ! unat (cs_sw_if_index cs) = si"
      using a s k(1) by_if_okD(2) [OF ok, of si cs] other [of si cs] by (auto split: if_splits)
  qed
qed

lemma by_if_remove:
  assumes ok: "by_if_ok by_if scheds" and at: "pool_at scheds i = Some s"
  shows "by_if_ok (by_if[unat (cs_sw_if_index s) := nil32]) (pool_put i scheds)"
  unfolding by_if_ok_def pool_at_put
proof (intro conjI allI impI)
  let ?k = "unat (cs_sw_if_index s)"
  note K = by_if_okD(2) [OF ok at]
  fix j
  assume j: "j < length (by_if[?k := nil32])" "by_if[?k := nil32] ! j \<noteq> nil32"
  then have "j \<noteq> ?k" using K by auto
  with j have j': "j < length by_if" "by_if ! j \<noteq> nil32" "by_if[?k := nil32] ! j = by_if ! j" by simp_all
  obtain cs where cs: "pool_at scheds (by_if ! j) = Some cs" "unat (cs_sw_if_index cs) = j" using by_if_okD(1) [OF ok j'(1,2)] by blast
  have "by_if ! j \<noteq> i" using cs at \<open>j \<noteq> ?k\<close> by auto
  with cs show "\<exists>cs. (if by_if[?k := nil32] ! j = i then None else pool_at scheds (by_if[?k := nil32] ! j)) = Some cs \<and> unat (cs_sw_if_index cs) = j"
    by (simp add: j'(3))
next
  fix si cs
  assume a: "(if si = i then None else pool_at scheds si) = Some cs"
  then have s: "si \<noteq> i" "pool_at scheds si = Some cs" by (auto split: if_splits)
  note K = by_if_okD(2) [OF ok at] by_if_okD(2) [OF ok s(2)]
  then have "unat (cs_sw_if_index cs) \<noteq> unat (cs_sw_if_index s)" using s(1) by auto
  with K show "unat (cs_sw_if_index cs) < length (by_if[unat (cs_sw_if_index s) := nil32])"
    "by_if[unat (cs_sw_if_index s) := nil32] ! unat (cs_sw_if_index cs) = si" by auto
qed

text \<open>The operations on the state.\<close>

lemma enable_ok:
  assumes inv: "dp_inv n dp" and fresh: "pool_fresh (cm_scheds (dp_main dp)) idx" and room: "cake_room (dp_main dp)"
    and e: "cake_sched_enable ifs valid now mtu n idx dp sw rate mode overhead atm mpu limit target interval weight = Some (rv, dp')"
  shows "dp_inv n dp'" "dp_queued dp' = dp_queued dp" "dp_lens dp' = dp_lens dp" "dp_freed dp' = dp_freed dp"
proof -
  note D = dp_invD [OF inv]
  let ?by = "vec_validate_init_empty (cm_sched_by_if (dp_main dp)) (unat sw) nil32"
  let ?cm = "(dp_main dp)\<lparr>cm_sched_by_if := ?by\<rparr>"
  have by1: "by_if_ok ?by (cm_scheds (dp_main dp))" by (rule by_if_validate [OF D(3)])
  have lens: "dp_lens (dp\<lparr>dp_main := c\<rparr>) = dp_lens dp" for c by (simp add: dp_lens_def fun_eq_iff)
  have inv1: "dp_inv n (dp\<lparr>dp_main := ?cm\<rparr>)" using inv by1 unfolding dp_inv_def lens by (simp add: cake_inv_def)
  let ?mode = "if mode > CAKE_TIN_MODE_DIFFSERV8 then CAKE_TIN_MODE_BESTEFFORT else mode"
  let ?new = "sched_new now mtu sw idx rate ?mode overhead atm mpu limit target interval weight"
  consider "dp' = dp" | "dp' = dp\<lparr>dp_main := ?cm\<rparr>"
    | cs where "?by ! unat sw = nil32" "cake_sched_resolve_attachment ifs ?cm ?new = Some cs"
      "dp' = dp\<lparr>dp_main := ?cm\<lparr>cm_scheds := pool_get_put idx cs (cm_scheds (dp_main dp)), cm_sched_by_if := ?by[unat sw := idx],
         cm_n_scheds := cm_n_scheds (dp_main dp) + 1, cm_per_thread := seed_threads n (cm_per_thread (dp_main dp))\<rparr>\<rparr>"
  proof (cases "\<not> valid sw \<or> weight_invalid weight")
    case True
    then have "dp' = dp" using e by (cases "valid sw") (simp_all add: cake_sched_enable_def)
    then show thesis by (rule that(1))
  next
    case ok: False
    show thesis
    proof (cases "?by ! unat sw = nil32")
      case False
      with ok e that(2) show thesis by (simp add: cake_sched_enable_def Let_def)
    next
      case True
      show thesis
      proof (cases "cake_sched_resolve_attachment ifs ?cm ?new")
        case None
        with ok e True show thesis by (simp add: cake_sched_enable_def Let_def)
      next
        case (Some cs)
        show thesis by (rule that(3) [OF True Some]) (use Some ok e True in \<open>simp add: cake_sched_enable_def Let_def\<close>)
      qed
    qed
  qed
  then have "dp_inv n dp' \<and> dp_queued dp' = dp_queued dp \<and> dp_lens dp' = dp_lens dp \<and> dp_freed dp' = dp_freed dp"
  proof cases
    case 1
    with inv show ?thesis by simp
  next
    case 2
    with inv1 lens show ?thesis by (simp add: dp_queued_def)
  next
    case (3 cs)
    have m: "?mode \<le> CAKE_TIN_MODE_DIFFSERV8" by (simp add: CAKE_TIN_MODE_DIFFSERV8_def CAKE_TIN_MODE_BESTEFFORT_def not_less)
    note N = sched_new_fields [where cs = ?new, OF refl m]
    have cs: "cs = ?new\<lparr>cs_agg := cs_agg cs\<rparr>" by (rule resolve_fields [OF 3(2)])
    have C: "sched_ok (dp_lens dp) cs" "cs_bufs cs = {#}" "cs_buffer_usage cs = 0" "\<not> drr_active (cs_drr cs)" "cs_sched_index cs = idx"
      "cs_sw_if_index cs = sw" "0 < cs_n_tins cs"
      using N by (subst cs, simp add: sched_ok_def cs_bufs_def)+
    have ci: "cake_inv ?cm" using D(1) by (simp add: cake_inv_def)
    have ref: "agg_ref (cm_aggs (dp_main dp)) (cs_agg cs)"
      using target_ref [OF _ resolve_target [OF _ 3(2)]] ci by (simp add: cake_inv_def)
    have room': "Suc (length (cm_aggs (dp_main dp)) + length (cm_scheds (dp_main dp))) < 2 ^ 32 - 1" using room by (simp add: cake_room_def)
    have tree: "tree_ok (cm_aggs (dp_main dp)) (cm_scheds (dp_main dp))" and acc: "accounts_ok (cm_aggs (dp_main dp)) (cm_scheds (dp_main dp))"
      using D(1) by (simp_all add: cake_inv_def)
    note A = accounts_add_sched [OF tree acc fresh room' C(3,4) ref]
    have ci': "cake_inv (dp_main dp')" using A D(1) by (simp add: 3(3) cake_inv_def)
    have "by_if_ok (?by[unat sw := idx]) (pool_get_put idx cs (cm_scheds (dp_main dp)))"
      by (rule by_if_add [OF by1 fresh _ 3(1)]) (use C(6) room' in \<open>auto simp: vec_validate_init_empty_def\<close>)
    moreover have "live_ok (dp_lens dp) (seed_threads n (cm_per_thread (dp_main dp))) si s"
      if "pool_at (pool_get_put idx cs (cm_scheds (dp_main dp))) si = Some s" for si s
      using that C D(5) [of si s] on_list_seed by (auto simp: pool_at_get_put [OF fresh] live_ok_def split: if_splits)
    ultimately have "dp_inv n dp'"
      using ci' D(2,6) unfolding dp_inv_def by (simp add: 3(3) lens seed_threads_facts)
    then show ?thesis by (simp add: 3(3) lens dp_queued_def pool_sum_get_put [OF fresh] C(2))
  qed
  then show "dp_inv n dp'" "dp_queued dp' = dp_queued dp" "dp_lens dp' = dp_lens dp" "dp_freed dp' = dp_freed dp" by simp_all
qed

lemma disable_ok:
  assumes inv: "dp_inv n dp" and e: "cake_sched_disable valid dp sw weight = (rv, dp')"
  shows "dp_inv n dp'" "dp_queued dp + mset (dp_freed dp) = dp_queued dp' + mset (dp_freed dp')" "dp_lens dp' = dp_lens dp"
proof -
  note D = dp_invD [OF inv]
  let ?cm = "dp_main dp"
  have "dp_inv n dp' \<and> dp_queued dp + mset (dp_freed dp) = dp_queued dp' + mset (dp_freed dp') \<and> dp_lens dp' = dp_lens dp"
  proof (cases "rv = RV_OK")
    case False
    then have "dp' = dp" using e by (auto simp: cake_sched_disable_def Let_def split: if_splits option.splits prod.splits)
    with inv show ?thesis by simp
  next
    case True
    define si where "si = cm_sched_by_if ?cm ! unat sw"
    obtain cs aggs1 cs1 freed aggs2 cs2 where k: "unat sw < length (cm_sched_by_if ?cm)" "si \<noteq> nil32"
      and at: "pool_at (cm_scheds ?cm) si = Some cs"
      and dr: "cake_tins_drain [0..<unat (cs_n_tins cs)] (cm_aggs ?cm) cs = (aggs1, cs1, freed)"
      and de: "cake_sched_drr_deactivate aggs1 (cs1\<lparr>cs_tins := []\<rparr>) = (aggs2, cs2)"
      and dp': "dp_main dp' = ?cm\<lparr>cm_aggs := aggs2, cm_scheds := pool_put si (cm_scheds ?cm),
          cm_per_thread := map (\<lambda>pt. pt\<lparr>pt_active := pt_active pt - {si}\<rparr>) (cm_per_thread ?cm),
          cm_sched_by_if := (cm_sched_by_if ?cm)[unat sw := nil32], cm_n_scheds := cm_n_scheds ?cm - 1\<rparr>"
        "dp_freed dp' = dp_freed dp @ freed" "dp_bufs dp' = dp_bufs dp"
      using e True by (auto simp: cake_sched_disable_def Let_def si_def split: if_splits option.splits prod.splits)
    have l: "live_ok (dp_lens dp) (cm_per_thread ?cm) si cs" by (rule D(5) [OF at])
    then have ok: "sched_ok (dp_lens dp) cs" by (simp add: live_ok_def)
    note S = sched_drain [OF ok dr]
    have sw: "unat (cs_sw_if_index cs) = unat sw" using by_if_okD(1) [OF D(3) k(1)] k(2) at by (simp add: si_def)
    have f1: "focus_ok (cm_scheds ?cm) si aggs1 cs1" "same_cfg (cm_aggs ?cm) aggs1"
      using S(5) inv_focus [OF D(1) at] by (auto simp: sched_step_def)
    have "sched_step (cm_scheds ?cm) si aggs1 cs1 aggs1 (cs1\<lparr>cs_tins := []\<rparr>)" by (rule step_cs) (simp_all add: cs_cfg_def)
    from sched_step_trans [OF this step_deactivate [OF de]] f1
    have f2: "focus_ok (cm_scheds ?cm) si aggs2 cs2" "same_cfg (cm_aggs ?cm) aggs2" by (auto simp: sched_step_def intro: same_cfg_trans)
    have z: "cs_buffer_usage cs2 = 0" "\<not> drr_active (cs_drr cs2)"
      using de S(2) by (auto simp: cake_sched_drr_deactivate_def cake_drr_child_deactivate_def split: if_splits)
    have at2: "pool_at (pool_upd si (\<lambda>_. cs2) (cm_scheds ?cm)) si = Some cs2" using at by (simp add: pool_at_upd)
    have put: "pool_put si (pool_upd si (\<lambda>_. cs2) (cm_scheds ?cm)) = pool_put si (cm_scheds ?cm)"
      by (simp add: pool_put_def pool_upd_def)
    have tree: "tree_ok aggs2 (pool_upd si (\<lambda>_. cs2) (cm_scheds ?cm))" and acc: "accounts_ok aggs2 (pool_upd si (\<lambda>_. cs2) (cm_scheds ?cm))"
      using f2(1) by (simp_all add: focus_ok_def)
    note A = accounts_remove_sched [OF tree acc at2 z, unfolded put]
    have ci: "cake_inv (dp_main dp')"
      using A D(1) same_cfg_maps [OF f2(2)] same_cfg_rates [OF f2(2)] by (simp add: cake_inv_def dp'(1))
    have by': "by_if_ok (cm_sched_by_if (dp_main dp')) (cm_scheds (dp_main dp'))"
      using by_if_remove [OF D(3) at] by (simp add: dp'(1) sw)
    have lens: "dp_lens dp' = dp_lens dp" by (simp add: dp_lens_def fun_eq_iff dp'(3))
    have "live_ok (dp_lens dp) (cm_per_thread (dp_main dp')) sj s \<and> n \<le> length (cm_per_thread (dp_main dp'))"
      if "pool_at (cm_scheds (dp_main dp')) sj = Some s" for sj s
    proof -
      from that have o: "sj \<noteq> si" "pool_at (cm_scheds ?cm) sj = Some s" by (auto simp: dp'(1) pool_at_put split: if_splits)
      from D(4,5) [OF o(2)] o(1) show ?thesis by (auto simp: dp'(1) live_ok_def on_list_def)
    qed
    then have inv': "dp_inv n dp'" using ci by' D(2,6) by (auto simp: dp_inv_def lens)
    have "dp_queued dp' + cs_bufs cs = dp_queued dp" using pool_sum_put [OF at, of cs_bufs] by (simp add: dp_queued_def dp'(1))
    then have "dp_queued dp + mset (dp_freed dp) = dp_queued dp' + mset (dp_freed dp')" using S(1) by (simp add: dp'(2) ac_simps flip: \<open>dp_queued dp' + cs_bufs cs = dp_queued dp\<close>)
    with inv' lens show ?thesis by simp
  qed
  then show "dp_inv n dp'" "dp_queued dp + mset (dp_freed dp) = dp_queued dp' + mset (dp_freed dp')" "dp_lens dp' = dp_lens dp" by simp_all
qed

section \<open>Counters, interfaces and buffers\<close>

lemma tin_ok_counters [simp]:
  "tin_ok lens (t\<lparr>t_packets := a, t_bytes := b, t_drops := c, t_ecn_marks := d\<rparr>) = tin_ok lens t"
  "tin_bufs (t\<lparr>t_packets := a, t_bytes := b, t_drops := c, t_ecn_marks := d\<rparr>) = tin_bufs t"
  "tin_backlog (t\<lparr>t_packets := a, t_bytes := b, t_drops := c, t_ecn_marks := d\<rparr>) = tin_backlog t"
  "tin_queued (t\<lparr>t_packets := a, t_bytes := b, t_drops := c, t_ecn_marks := d\<rparr>) = tin_queued t"
  by (simp_all add: tin_ok_def tin_inv_def tin_dll_def tin_marks_def tin_counts_def tin_bufs_def tin_backlog_def tin_queued_def)

definition sched_reset :: "cake_sched \<Rightarrow> cake_sched" where
  "sched_reset cs = cs\<lparr>cs_enqueued_pkts := 0, cs_enqueued_bytes := 0, cs_dequeued_pkts := 0,
     cs_dequeued_bytes := 0, cs_dropped_pkts := 0,
     cs_tins := map (\<lambda>t. if t < unat (cs_n_tins cs)
         then (cs_tins cs ! t)\<lparr>t_packets := 0, t_bytes := 0, t_drops := 0, t_ecn_marks := 0\<rparr>
         else cs_tins cs ! t) [0..<length (cs_tins cs)]\<rparr>"

lemma reset_fields:
  shows "sched_ok lens cs \<Longrightarrow> sched_ok lens (sched_reset cs)" "cs_bufs (sched_reset cs) = cs_bufs cs" "cs_cfg (sched_reset cs) = cs_cfg cs"
    "cs_buffer_usage (sched_reset cs) = cs_buffer_usage cs" "cs_drr (sched_reset cs) = cs_drr cs"
proof -
  have *: "(\<Sum>t\<leftarrow>cs_tins (sched_reset cs). F t) = (\<Sum>t\<leftarrow>cs_tins cs. F t)"
    if "\<And>t. F (t\<lparr>t_packets := 0, t_bytes := 0, t_drops := 0, t_ecn_marks := 0\<rparr>) = F t" for F :: "cake_tin \<Rightarrow> 'z::comm_monoid_add"
    by (intro arg_cong [where f = sum_list] nth_equalityI) (simp_all add: sched_reset_def that)
  show "sched_ok lens cs \<Longrightarrow> sched_ok lens (sched_reset cs)"
    using * [of tin_backlog] * [of tin_queued] by (auto simp: sched_ok_def) (auto simp: sched_reset_def)
  show "cs_bufs (sched_reset cs) = cs_bufs cs" using * [of tin_bufs] by (simp add: cs_bufs_def)
  show "cs_cfg (sched_reset cs) = cs_cfg cs" "cs_buffer_usage (sched_reset cs) = cs_buffer_usage cs" "cs_drr (sched_reset cs) = cs_drr cs"
    by (simp_all add: sched_reset_def cs_cfg_def)
qed

lemma reset_ok:
  assumes inv: "dp_inv n dp"
  shows "dp_inv n (dp\<lparr>dp_main := cake_sched_reset_stats (dp_main dp) sw\<rparr>)"
    "dp_queued (dp\<lparr>dp_main := cake_sched_reset_stats (dp_main dp) sw\<rparr>) = dp_queued dp"
proof -
  let ?cm = "dp_main dp" and ?dp = "dp\<lparr>dp_main := cake_sched_reset_stats (dp_main dp) sw\<rparr>"
  let ?si = "cm_sched_by_if ?cm ! unat sw"
  note D = dp_invD [OF inv]
  have eq: "cake_sched_reset_stats ?cm sw = (if unat sw \<ge> length (cm_sched_by_if ?cm) \<or> ?si = nil32 then ?cm
      else ?cm\<lparr>cm_scheds := pool_upd ?si sched_reset (cm_scheds ?cm)\<rparr>)"
    by (simp add: cake_sched_reset_stats_def Let_def sched_reset_def [abs_def])
  have "dp_inv n ?dp \<and> dp_queued ?dp = dp_queued dp"
  proof (cases "unat sw \<ge> length (cm_sched_by_if ?cm) \<or> ?si = nil32")
    case True
    with inv show ?thesis by (simp add: eq)
  next
    case False
    then obtain cs where at: "pool_at (cm_scheds ?cm) ?si = Some cs" using by_if_okD(1) [OF D(3), of "unat sw"] by auto
    then have up: "pool_upd ?si sched_reset (cm_scheds ?cm) = pool_upd ?si (\<lambda>_. sched_reset cs) (cm_scheds ?cm)"
      by (auto simp: pool_upd_def pool_at_def)
    note R = reset_fields [where cs = cs]
    have fo: "focus_ok (cm_scheds ?cm) ?si (cm_aggs ?cm) (sched_reset cs)"
      using inv_focus [OF D(1) at] step_cs [of "sched_reset cs" cs] R by (auto simp: sched_step_def)
    have cfg: "cs_sw_if_index (sched_reset cs) = cs_sw_if_index cs" "cs_sched_index (sched_reset cs) = cs_sched_index cs"
      "cs_owner (sched_reset cs) = cs_owner cs" "cs_n_tins (sched_reset cs) = cs_n_tins cs" by (simp_all add: sched_reset_def)
    have live: "live_ok (dp_lens dp) (cm_per_thread (dp_main ?dp)) ?si (sched_reset cs)"
      using D(5) [OF at] R cfg False by (simp add: live_ok_def eq)
    have m: "dp_main ?dp = ?cm\<lparr>cm_scheds := pool_upd ?si (\<lambda>_. sched_reset cs) (cm_scheds ?cm)\<rparr>" using False by (simp add: eq up)
    have "dp_inv n ?dp" "dp_queued ?dp + cs_bufs cs = dp_queued dp + cs_bufs (sched_reset cs)"
      by (rule dp_focus_inv [OF inv at fo _ cfg(1) _ _ _ _ _ _ live]; (simp only: m)?; simp add: dp_lens_def)+
    then show ?thesis by (simp add: R)
  qed
  then show "dp_inv n ?dp" "dp_queued ?dp = dp_queued dp" by simp_all
qed

lemma svlans_delete_keeps:
  assumes "cake_inv cm" and "cake_svlans_delete ifs sw tags cm = Some cm'"
  shows "cake_inv cm' \<and> same_scheds cm cm'"
  using assms
proof (induction tags arbitrary: cm)
  case (Cons tag tags)
  then obtain rv c1 where d: "cake_svlan_aggregate_delete ifs cm sw tag = Some (rv, c1)" "cake_svlans_delete ifs sw tags c1 = Some cm'"
    by (auto split: Option.bind_splits)
  from Cons.IH [OF svlan_delete_inv [OF Cons.prems(1) d(1)] d(2)] agg_config_same(4) [OF d(1)] same_scheds_trans
  show ?case by blast
qed simp

lemma if_del_ok:
  assumes inv: "dp_inv n dp" and e: "cake_sw_interface_del ifs valid dp sw = Some dp'"
  shows "dp_inv n dp' \<and> dp_queued dp + mset (dp_freed dp) = dp_queued dp' + mset (dp_freed dp')"
proof -
  define d1 where "d1 = (if unat sw < length (cm_sched_by_if (dp_main dp)) \<and> cm_sched_by_if (dp_main dp) ! unat sw \<noteq> nil32
                then snd (cake_sched_disable valid dp sw 0) else dp)"
  obtain rv0 x0 where ds: "cake_sched_disable valid dp sw 0 = (rv0, x0)" by fastforce
  note S = disable_ok [OF inv ds]
  have d1: "dp_inv n d1" "dp_queued dp + mset (dp_freed dp) = dp_queued d1 + mset (dp_freed d1)"
    using S inv by (auto simp: d1_def ds)
  note D = dp_invD [OF d1(1)]
  show ?thesis
  proof (cases "unat sw < length (cm_agg_by_if (dp_main d1)) \<and> cm_agg_by_if (dp_main d1) ! unat sw \<noteq> nil32")
    case False
    with e have "dp' = d1" by (simp add: cake_sw_interface_del_def Let_def d1_def [symmetric])
    with d1 show ?thesis by simp
  next
    case True
    obtain c1 rv c2 where c: "cake_svlans_delete ifs sw (agg_child_tags (cm_agg_by_if (dp_main d1) ! unat sw) (cm_aggs (dp_main d1))) (dp_main d1) = Some c1"
      "cake_aggregate_delete ifs c1 sw = Some (rv, c2)" "dp' = d1\<lparr>dp_main := c2\<rparr>"
      using e True by (auto simp: cake_sw_interface_del_def Let_def d1_def [symmetric] split: Option.bind_splits)
    note V = svlans_delete_keeps [OF D(1) c(1)]
    have "cake_inv c2" "same_scheds (dp_main d1) c2"
      using aggregate_delete_inv [OF _ c(2)] agg_config_same(2) [OF c(2)] V same_scheds_trans by blast+
    from config_keeps [OF d1(1) this] d1(2) show ?thesis by (simp add: c(3))
  qed
qed

text \<open>New contents of buffers that are not queued.\<close>

lemma sum_msets_member: "a \<in># (\<Sum>x\<leftarrow>xs. F x) \<longleftrightarrow> (\<exists>x \<in> set xs. a \<in># F x)"
  by (induction xs) auto

lemma tin_ok_lens:
  assumes ok: "tin_ok lens t" and same: "\<And>bi. bi \<in># tin_bufs t \<Longrightarrow> lens' bi = lens bi"
  shows "tin_ok lens' t"
proof -
  have "flow_ok lens' f" if f: "f \<in> set (t_flows t)" "flow_ok lens f" for f
  proof -
    have "bi \<in># tin_bufs t" if "bi \<in> set (flow_queue f)" for bi
      using f(1) that by (auto simp: tin_bufs_def sum_msets_member)
    then have "lens_sum lens' (flow_queue f) = lens_sum lens (flow_queue f)"
      using same by (auto simp: lens_sum_def intro!: arg_cong [where f = sum_list])
    with f(2) show ?thesis by (simp add: flow_ok_def)
  qed
  with ok show ?thesis unfolding tin_ok_def tin_inv_def by blast
qed

lemma pool_sum_member:
  assumes "pool_at p i = Some x" and "a \<in># F x"
  shows "a \<in># pool_sum F p"
proof -
  have "pool_sum F (pool_put i p) + F x = pool_sum F p" by (rule pool_sum_put [OF assms(1)])
  with assms(2) show ?thesis by (metis union_iff)
qed

lemma receive_ok:
  assumes inv: "dp_inv n dp" and lens: "lens_ok (\<lambda>bi. b_len (bufs bi))" and same: "\<And>bi. bi \<in># dp_queued dp \<Longrightarrow> bufs bi = dp_bufs dp bi"
  shows "dp_inv n (dp\<lparr>dp_bufs := bufs\<rparr>)" "dp_queued (dp\<lparr>dp_bufs := bufs\<rparr>) = dp_queued dp"
proof -
  note D = dp_invD [OF inv]
  have l: "dp_lens (dp\<lparr>dp_bufs := bufs\<rparr>) = (\<lambda>bi. b_len (bufs bi))" by (simp add: dp_lens_def fun_eq_iff)
  have "live_ok (\<lambda>bi. b_len (bufs bi)) pts si cs" if at: "pool_at (cm_scheds (dp_main dp)) si = Some cs" and ok: "live_ok (dp_lens dp) pts si cs" for pts si cs
  proof -
    have "tin_ok (\<lambda>bi. b_len (bufs bi)) t" if t: "t \<in> set (cs_tins cs)" for t
    proof (rule tin_ok_lens)
      show "tin_ok (dp_lens dp) t" using t ok by (simp add: live_ok_def sched_ok_def)
      fix bi
      assume "bi \<in># tin_bufs t"
      then have "bi \<in># cs_bufs cs" using t by (auto simp: cs_bufs_def sum_msets_member)
      from pool_sum_member [where F = cs_bufs, OF at this] same show "b_len (bufs bi) = dp_lens dp bi" by (simp add: dp_queued_def dp_lens_def)
    qed
    with ok show ?thesis by (simp add: live_ok_def sched_ok_def)
  qed
  with inv lens show "dp_inv n (dp\<lparr>dp_bufs := bufs\<rparr>)" unfolding dp_inv_def l by auto
  show "dp_queued (dp\<lparr>dp_bufs := bufs\<rparr>) = dp_queued dp" by (simp add: dp_queued_def)
qed

end
