(* ===== verification/Cake_Reach.thy ===== *)
theory Cake_Reach
  imports Cake_System
begin

text \<open>
  The scheduler plugin over time: the states its entry points can reach from the empty plugin, in any
  order and with any arguments, and what holds in all of them.
\<close>

section \<open>Freed buffers accumulate\<close>

lemma enqueue_pkt_freed: "cake_enqueue_pkt ex mem now thread bi dp = (r, dp') \<Longrightarrow> \<exists>fr. dp_freed dp' = dp_freed dp @ fr"
  by (auto simp: cake_enqueue_pkt_def Let_def split: if_splits option.splits prod.splits)

lemma enqueue_frame_freed:
  "cake_enqueue_inline ex mem now thread bis dp = (rs, dp') \<Longrightarrow> \<exists>fr. dp_freed dp' = dp_freed dp @ fr"
proof (induction bis arbitrary: dp rs dp')
  case (Cons bi bis)
  obtain r d1 where p: "cake_enqueue_pkt ex mem now thread bi dp = (r, d1)" by fastforce
  obtain rs1 d2 where f: "cake_enqueue_inline ex mem now thread bis d1 = (rs1, d2)" by fastforce
  with Cons.prems p have "dp' = d2" by simp
  with enqueue_pkt_freed [OF p] Cons.IH [OF f] show ?case by auto
qed simp

lemma walk_freed:
  "cake_dequeue_walk ex now_us now_ns thread sis budget seed out idle dp = Some (seed', out', idle', dp') \<Longrightarrow>
   \<exists>fr. dp_freed dp' = dp_freed dp @ fr"
proof (induction sis arbitrary: thread budget seed out idle dp)
  case (Cons si sis)
  have fin: "dp_freed (deq_finish si dq dp) = dp_freed dp @ dq_freed dq" for dq by (simp add: deq_finish_def)
  from Cons.prems show ?case unfolding walk_unfold
    by (auto split: if_splits option.splits Option.bind_splits dest!: Cons.IH simp: fin)
qed simp

lemma dequeue_node_freed:
  "cake_dequeue_node ex now_us now_ns thread dp = Some (out, dp') \<Longrightarrow> \<exists>fr. dp_freed dp' = dp_freed dp @ fr"
  by (auto simp: cake_dequeue_node_def Let_def split: if_splits Option.bind_splits dest!: walk_freed)

section \<open>The entry points\<close>

definition cake_dp_init :: "(u32 \<Rightarrow> vbuf) \<Rightarrow> cake_dp" where
  "cake_dp_init bufs = \<lparr>dp_main = cake_main_init, dp_bufs = bufs, dp_freed = [], dp_polling = {}\<rparr>"

text \<open>
  \<open>cake_reach n dp ins outs\<close>: with \<open>n\<close> threads, \<open>dp\<close> is reached having been handed the buffers
  \<open>ins\<close> by the feature arc, and having handed on \<open>outs\<close> (passed, handed off or sent).  A frame holds
  distinct buffers that the plugin does not hold; the contents of the buffers it does not hold may
  change at any time.
\<close>

inductive cake_reach :: "nat \<Rightarrow> cake_dp \<Rightarrow> u32 multiset \<Rightarrow> u32 multiset \<Rightarrow> bool" for n where
  init: "n < 2 ^ 32 \<Longrightarrow> lens_ok (\<lambda>bi. b_len (bufs bi)) \<Longrightarrow> cake_reach n (cake_dp_init bufs) {#} {#}"
| receive: "cake_reach n dp ins outs \<Longrightarrow> lens_ok (\<lambda>bi. b_len (bufs bi)) \<Longrightarrow>
    (\<And>bi. bi \<in># dp_queued dp \<Longrightarrow> bufs bi = dp_bufs dp bi) \<Longrightarrow> cake_reach n (dp\<lparr>dp_bufs := bufs\<rparr>) ins outs"
| enqueue: "cake_reach n dp ins outs \<Longrightarrow> unat thread < n \<Longrightarrow> length mem = CAKE_FLOW_RING_SIZE \<Longrightarrow>
    distinct bis \<Longrightarrow> (\<And>bi. bi \<in> set bis \<Longrightarrow> bi \<notin># dp_queued dp) \<Longrightarrow>
    cake_enqueue_inline ex mem now thread bis dp = (rs, dp') \<Longrightarrow>
    cake_reach n dp' (ins + mset bis) (outs + enq_kept rs)"
| dequeue: "cake_reach n dp ins outs \<Longrightarrow> cake_dequeue_node ex now_us now_ns thread dp = Some (out, dp') \<Longrightarrow>
    cake_reach n dp' ins (outs + mset (map fst out))"
| enable: "cake_reach n dp ins outs \<Longrightarrow> pool_fresh (cm_scheds (dp_main dp)) idx \<Longrightarrow> cake_room (dp_main dp) \<Longrightarrow>
    cake_sched_enable ifs valid now_ns mtu n idx dp sw rate mode overhead atm mpu limit target interval weight = Some (rv, dp') \<Longrightarrow>
    cake_reach n dp' ins outs"
| disable: "cake_reach n dp ins outs \<Longrightarrow> cake_sched_disable valid dp sw weight = (rv, dp') \<Longrightarrow> cake_reach n dp' ins outs"
| reset: "cake_reach n dp ins outs \<Longrightarrow> cake_reach n (dp\<lparr>dp_main := cake_sched_reset_stats (dp_main dp) sw\<rparr>) ins outs"
| if_del: "cake_reach n dp ins outs \<Longrightarrow> cake_sw_interface_del ifs valid dp sw = Some dp' \<Longrightarrow> cake_reach n dp' ins outs"
| agg_create: "cake_reach n dp ins outs \<Longrightarrow> pool_fresh (cm_aggs (dp_main dp)) idx \<Longrightarrow> cake_room (dp_main dp) \<Longrightarrow>
    cake_aggregate_create ifs valid now_ns m idx (dp_main dp) sw rate weight burst limit = Some (rv, cm') \<Longrightarrow>
    cake_reach n (dp\<lparr>dp_main := cm'\<rparr>) ins outs"
| agg_delete: "cake_reach n dp ins outs \<Longrightarrow> cake_aggregate_delete ifs (dp_main dp) sw = Some (rv, cm') \<Longrightarrow>
    cake_reach n (dp\<lparr>dp_main := cm'\<rparr>) ins outs"
| svlan_create: "cake_reach n dp ins outs \<Longrightarrow> pool_fresh (cm_aggs (dp_main dp)) idx \<Longrightarrow> cake_room (dp_main dp) \<Longrightarrow>
    cake_svlan_aggregate_create ifs now_ns m idx (dp_main dp) sw a b rate weight burst limit = Some (rv, cm') \<Longrightarrow>
    cake_reach n (dp\<lparr>dp_main := cm'\<rparr>) ins outs"
| svlan_delete: "cake_reach n dp ins outs \<Longrightarrow> cake_svlan_aggregate_delete ifs (dp_main dp) sw a = Some (rv, cm') \<Longrightarrow>
    cake_reach n (dp\<lparr>dp_main := cm'\<rparr>) ins outs"
| agg_update: "cake_reach n dp ins outs \<Longrightarrow> cake_aggregate_update (dp_main dp) sw level a rate weight burst limit = (rv, cm') \<Longrightarrow>
    cake_reach n (dp\<lparr>dp_main := cm'\<rparr>) ins outs"

definition reach_ok :: "nat \<Rightarrow> cake_dp \<Rightarrow> u32 multiset \<Rightarrow> u32 multiset \<Rightarrow> bool" where
  "reach_ok n dp ins outs \<longleftrightarrow> dp_inv n dp \<and> ins = dp_queued dp + mset (dp_freed dp) + outs \<and> (\<forall>bi. count (dp_queued dp) bi \<le> 1)"

lemma reach_config:
  assumes "reach_ok n dp ins outs" and "cake_inv cm'" and "same_scheds (dp_main dp) cm'"
  shows "reach_ok n (dp\<lparr>dp_main := cm'\<rparr>) ins outs"
proof -
  have "dp_inv n dp" using assms(1) by (simp add: reach_ok_def)
  from config_keeps [OF this assms(2,3)] assms(1) show ?thesis by (simp add: reach_ok_def)
qed

lemma reach_shrink:
  assumes "reach_ok n dp ins outs" and "dp_inv n dp'"
    and c: "dp_queued dp + mset (dp_freed dp) + ins' = dp_queued dp' + mset (dp_freed dp') + outs'"
    and one: "\<And>bi. count (dp_queued dp') bi \<le> 1"
  shows "reach_ok n dp' (ins + ins') (outs + outs')"
proof -
  have "ins + ins' = (dp_queued dp + mset (dp_freed dp) + ins') + outs" using assms(1) by (simp add: reach_ok_def ac_simps)
  also have "\<dots> = dp_queued dp' + mset (dp_freed dp') + (outs + outs')" unfolding c by (simp add: ac_simps)
  finally show ?thesis using assms(2) one by (simp add: reach_ok_def)
qed

lemma init_ok: "n < 2 ^ 32 \<Longrightarrow> lens_ok (\<lambda>bi. b_len (bufs bi)) \<Longrightarrow> dp_inv n (cake_dp_init bufs)"
proof -
  have lens: "dp_lens (cake_dp_init bufs) = (\<lambda>bi. b_len (bufs bi))" by (simp add: dp_lens_def cake_dp_init_def fun_eq_iff)
  assume "n < 2 ^ 32" "lens_ok (\<lambda>bi. b_len (bufs bi))"
  then show "dp_inv n (cake_dp_init bufs)" unfolding dp_inv_def lens
    by (simp add: cake_dp_init_def cake_main_init_def cake_inv_def tree_ok_def accounts_ok_def usage_ok_def weights_ok_def
      maps_ok_def rates_ok_def aggs_wf_def pool_at_def pool_small_def agg_par_def by_if_ok_def)
qed

lemma reach_inv: "cake_reach n dp ins outs \<Longrightarrow> reach_ok n dp ins outs"
proof (induction rule: cake_reach.induct)
  case (init bufs)
  then show ?case using init_ok by (simp add: reach_ok_def cake_dp_init_def cake_main_init_def dp_queued_def pool_sum_def)
next
  case (receive dp ins outs bufs)
  from receive.IH have I: "dp_inv n dp" by (simp add: reach_ok_def)
  from receive_ok [OF I receive.hyps(2,3)] receive.IH show ?case by (simp add: reach_ok_def)
next
  case (enqueue dp ins outs thread mem bis ex now rs dp')
  from enqueue.IH have I: "dp_inv n dp" "\<And>bi. count (dp_queued dp) bi \<le> 1" by (simp_all add: reach_ok_def)
  note E = enqueue_frame [OF I(1) enqueue.hyps(2,3,6)]
  obtain fr where fr: "dp_freed dp' = dp_freed dp @ fr" using enqueue_frame_freed [OF enqueue.hyps(6)] by blast
  then have "dp_queued dp + mset bis = dp_queued dp' + (mset fr + enq_kept rs)" using E by (simp add: ac_simps)
  then have le: "count (dp_queued dp') bi \<le> count (dp_queued dp) bi + count (mset bis) bi" for bi
    by (metis count_union le_add1)
  have one: "count (dp_queued dp') bi \<le> 1" for bi
  proof (cases "bi \<in> set bis")
    case True
    then have "count (dp_queued dp) bi = 0" "count (mset bis) bi = 1"
      using enqueue.hyps(4,5) by (simp_all add: not_in_iff distinct_count_atmost_1)
    with le [of bi] show ?thesis by simp
  next
    case False
    then have "count (mset bis) bi = 0" by simp
    with le [of bi] I(2) [of bi] show ?thesis by linarith
  qed
  show ?case by (rule reach_shrink [OF enqueue.IH E [THEN conjunct1] _ one]) (use E in simp)
next
  case (dequeue dp ins outs ex now_us now_ns thread out dp')
  from dequeue.IH have I: "dp_inv n dp" "\<And>bi. count (dp_queued dp) bi \<le> 1" by (simp_all add: reach_ok_def)
  from dequeue_node [OF I(1), of ex now_us now_ns thread] dequeue.hyps(2)
  have E: "dp_inv n dp'" "dp_queued dp + mset (dp_freed dp) = dp_queued dp' + mset (dp_freed dp') + mset (map fst out)" by auto
  obtain fr where "dp_freed dp' = dp_freed dp @ fr" using dequeue_node_freed [OF dequeue.hyps(2)] by blast
  with E(2) have "dp_queued dp = dp_queued dp' + (mset fr + mset (map fst out))" by (simp add: ac_simps)
  with I(2) have "count (dp_queued dp') bi \<le> 1" for bi by (metis count_union add_leD1)
  from reach_shrink [OF dequeue.IH E(1) _ this, of "{#}" "mset (map fst out)"] E(2) show ?case by simp
next
  case (enable dp ins outs idx ifs valid now_ns mtu sw rate mode overhead atm mpu limit target interval weight rv dp')
  then show ?case using enable_ok [OF _ enable.hyps(2-4)] by (simp add: reach_ok_def)
next
  case (disable dp ins outs valid sw weight rv dp')
  from disable.IH have I: "dp_inv n dp" "\<And>bi. count (dp_queued dp) bi \<le> 1" by (simp_all add: reach_ok_def)
  note E = disable_ok [OF I(1) disable.hyps(2)]
  obtain fr where "dp_freed dp' = dp_freed dp @ fr"
    using disable.hyps(2) by (auto simp: cake_sched_disable_def Let_def split: if_splits option.splits prod.splits)
  with E(2) have "dp_queued dp = dp_queued dp' + mset fr" by (simp add: ac_simps)
  with I(2) have "count (dp_queued dp') bi \<le> 1" for bi by (metis count_union add_leD1)
  from reach_shrink [OF disable.IH E(1) _ this, of "{#}" "{#}"] E(2) show ?case by simp
next
  case (reset dp ins outs sw)
  then show ?case using reset_ok [of n dp sw] by (simp add: reach_ok_def)
next
  case (if_del dp ins outs ifs valid sw dp')
  from if_del.IH have I: "dp_inv n dp" "\<And>bi. count (dp_queued dp) bi \<le> 1" by (simp_all add: reach_ok_def)
  note E = if_del_ok [OF I(1) if_del.hyps(2)]
  obtain fr where "dp_freed dp' = dp_freed dp @ fr"
    using if_del.hyps(2) by (auto simp: cake_sw_interface_del_def cake_sched_disable_def Let_def split: if_splits option.splits prod.splits Option.bind_splits)
  with E have "dp_queued dp = dp_queued dp' + mset fr" by (simp add: ac_simps)
  with I(2) have "count (dp_queued dp') bi \<le> 1" for bi by (metis count_union add_leD1)
  from reach_shrink [OF if_del.IH E [THEN conjunct1] _ this, of "{#}" "{#}"] E show ?case by simp
next
  case (agg_create dp ins outs idx ifs valid now_ns m sw rate weight burst limit rv cm')
  from agg_create.IH have "cake_inv (dp_main dp)" by (auto simp: reach_ok_def dest: dp_invD(1))
  from reach_config [OF agg_create.IH aggregate_create_inv [OF this agg_create.hyps(2-4)] agg_config_same(1) [OF agg_create.hyps(4)]]
  show ?case .
next
  case (agg_delete dp ins outs ifs sw rv cm')
  from agg_delete.IH have "cake_inv (dp_main dp)" by (auto simp: reach_ok_def dest: dp_invD(1))
  from reach_config [OF agg_delete.IH aggregate_delete_inv [OF this agg_delete.hyps(2)] agg_config_same(2) [OF agg_delete.hyps(2)]]
  show ?case .
next
  case (svlan_create dp ins outs idx ifs now_ns m sw a b rate weight burst limit rv cm')
  from svlan_create.IH have "cake_inv (dp_main dp)" by (auto simp: reach_ok_def dest: dp_invD(1))
  from reach_config [OF svlan_create.IH svlan_create_inv [OF this svlan_create.hyps(2-4)] agg_config_same(3) [OF svlan_create.hyps(4)]]
  show ?case .
next
  case (svlan_delete dp ins outs ifs sw a rv cm')
  from svlan_delete.IH have "cake_inv (dp_main dp)" by (auto simp: reach_ok_def dest: dp_invD(1))
  from reach_config [OF svlan_delete.IH svlan_delete_inv [OF this svlan_delete.hyps(2)] agg_config_same(4) [OF svlan_delete.hyps(2)]]
  show ?case .
next
  case (agg_update dp ins outs sw level a rate weight burst limit rv cm')
  from agg_update.IH have "cake_inv (dp_main dp)" by (auto simp: reach_ok_def dest: dp_invD(1))
  from reach_config [OF agg_update.IH aggregate_update_inv [OF this agg_update.hyps(2)] agg_config_same(5) [OF agg_update.hyps(2)]]
  show ?case .
qed

section \<open>A run of the plugin\<close>

definition demo_buf :: vbuf where
  "demo_buf = \<lparr>b_hdr = Ip4 0 17 0 0 0, b_sport = 0, b_dport = 0, b_len = 1000, b_enqueue_us = 0, b_scheduled = False, b_tx_if = 2\<rparr>"

definition demo_ext :: cake_ext where
  "demo_ext = \<lparr>ex_xxhash = (\<lambda>_. 0), ex_flow_label = (\<lambda>_. 0), ex_ip4_set_ecn_ce = (\<lambda>h. h), ex_random_u32 = (\<lambda>s. (s, s))\<rparr>"

definition demo_cs :: cake_sched where
  "demo_cs = (sched_new 0 1500 2 0 125000000 0 0 0 0 100000 0 0 1)\<lparr>cs_agg := nil32\<rparr>"

definition demo_dp1 :: cake_dp where
  "demo_dp1 = (cake_dp_init (\<lambda>_. demo_buf))\<lparr>dp_main := cake_main_init\<lparr>cm_scheds := [Some demo_cs], cm_sched_by_if := [nil32, nil32, 0],
     cm_n_scheds := 1, cm_per_thread := seed_threads 1 []\<rparr>\<rparr>"

lemma three: "(replicate 3 y)[2 := x] = [y, y, x]"
  by (simp add: numeral_3_eq_3 numeral_2_eq_2)

lemma demo_enabled: "cake_reach 1 demo_dp1 {#} {#}"
proof -
  have i: "cake_reach 1 (cake_dp_init (\<lambda>_. demo_buf)) {#} {#}"
    by (rule cake_reach.init) (simp_all add: lens_ok_def demo_buf_def)
  have w: "cake_attach_walk demo_ifs [] 2 nil32 = Some (100, nil32)"
    by (subst cake_attach_walk.simps, simp add: demo_ifs_def Let_def, subst cake_attach_walk.simps,
        simp add: demo_ifs_def Let_def, subst cake_attach_walk.simps, simp add: demo_ifs_def Let_def)
  have e: "cake_sched_enable demo_ifs (\<lambda>_. True) 0 1500 1 0 (cake_dp_init (\<lambda>_. demo_buf)) 2 125000000 0 0 0 0 100000 0 0 1 = Some (RV_OK, demo_dp1)"
    by (simp add: cake_sched_enable_def weight_invalid_def CAKE_WEIGHT_MAX_def CAKE_WEIGHT_MIN_def cake_dp_init_def cake_main_init_def Let_def
        vec_validate_init_empty_def cake_sched_resolve_attachment_def demo_dp1_def demo_cs_def pool_get_put_def
        CAKE_TIN_MODE_DIFFSERV8_def w sched_new_def three)
  show ?thesis
    by (rule cake_reach.enable [OF i _ _ e])
      (simp_all add: cake_dp_init_def cake_main_init_def pool_fresh_def pool_at_def cake_room_def)
qed

definition demo_tin :: cake_tin where
  "demo_tin = (cake_tin_init CAKE_QUANTUM_DEFAULT)\<lparr>t_tin_quantum := 65535\<rparr>"

lemma demo_tin_flows: "t_flows demo_tin = replicate CAKE_QUEUES flow_clean" "t_flow_tags demo_tin = replicate CAKE_QUEUES 0"
  by (simp_all add: demo_tin_def cake_tin_init_def cake_tin_zero_def)

lemma demo_cs_fields: "cs_tins demo_cs = [demo_tin]" "cs_n_tins demo_cs = 1" "cs_dscp_to_tin demo_cs = replicate 64 0" "cs_agg demo_cs = nil32"
  "cs_owner demo_cs = CAKE_OWNER_UNSET" "cs_buffer_usage demo_cs = 0" "cs_buffer_limit demo_cs = 100000"
  by (simp_all add: demo_cs_def sched_new_def Let_def demo_tin_def cake_tin_counts_def cake_dscp_tables_def cake_dscp_besteffort_def)

lemma demo_tag: "cake_hash_flow demo_ext demo_buf = 1"
  by (simp add: cake_hash_flow_def demo_ext_def demo_buf_def Let_def split: prod.split)

lemma demo_slot: "enqueue_flow_slot aggs cs demo_tin 1 (cake_flow_set_base 1) = (aggs, cs, demo_tin\<lparr>t_flow_tags := (replicate CAKE_QUEUES 0)[8 := 1]\<rparr>, 8, [])"
proof -
  have b: "cake_flow_set_base 1 = 8" by (simp add: cake_flow_set_base_def CAKE_SET_COUNT_def CAKE_QUEUES_def CAKE_SET_WAYS_def)
  have s: "set_slots 8 = [8, 9, 10, 11, 12, 13, 14, 15]" by (simp add: set_slots_def CAKE_SET_WAYS_def upt_conv_Cons)
  show ?thesis unfolding b
    by (simp add: enqueue_flow_slot_def cake_flow_lookup_def s demo_tin_flows CAKE_QUEUES_def Let_def)
qed


lemma demo_stored:
  assumes "cake_enqueue_tin (replicate CAKE_FLOW_RING_SIZE 0) 0 0 5 demo_buf 1 [] (demo_cs\<lparr>cs_owner := 0\<rparr>) demo_tin = (r, aggs, cs, tin, freed)"
  shows "r = ENQ_QUEUED" "freed = []"
proof -
  let ?t = "demo_tin\<lparr>t_flow_tags := (replicate CAKE_QUEUES 0)[8 := 1]\<rparr>" and ?mem = "replicate CAKE_FLOW_RING_SIZE (0 :: u32)"
  have none: "f_state (t_flows ?t ! 8) = FLOW_NONE" by (simp add: demo_tin_flows CAKE_QUEUES_def)
  let ?n = "enqueue_new_flow ?mem demo_buf (cake_flow_set_base 1) 8 ?t"
  have lens: "lens_ok (\<lambda>_. 1000)" by (simp add: lens_ok_def)
  have ok: "tin_ok (\<lambda>_. 1000) ?t"
    by (rule tin_move_ok [OF slot_move(1) [OF tin_init_ok(1) [OF demo_tin_def] lens _ demo_slot]]) simp
  have v: "flow_valid (t_flows ?t) 8" by (simp add: flow_valid_def demo_tin_flows CAKE_QUEUES_def)
  have none8: "f_state (t_flows ?t ! unat (8 :: u32)) = FLOW_NONE" using none by simp
  note M = new_flow_move [where tin' = ?n, OF ok v none8 _ refl]
  have N: "tin_ok (\<lambda>_. 1000) ?n" "flow_valid (t_flows ?n) 8" "f_state (t_flows ?n ! unat (8 :: u32)) = FLOW_SPARSE"
    using tin_move_ok [OF M(1)] M(2,3) by simp_all
  have "t_flows ?n ! 8 \<in> set (t_flows ?n)" using N(2) by (simp add: flow_valid_def)
  then have "flow_ok (\<lambda>_. 1000) (t_flows ?n ! 8)" using N(1) by (auto simp: tin_ok_def tin_inv_def)
  then have "\<not> 128 \<le> unat (cake_flow_queue_len (t_flows ?n ! 8))" using N(3) by (simp add: flow_ok_def)
  then show "r = ENQ_QUEUED" "freed = []" using assms none
    by (simp add: cake_enqueue_tin_def demo_slot Let_def demo_cs_fields demo_buf_def cake_agg_admit_chain_def CAKE_FLOW_RING_SIZE_def split: prod.splits)+
qed

lemma demo_queued:
  "\<exists>dp cs. cake_reach 1 dp {#5#} {#} \<and> dp_queued dp = {#5#} \<and> cm_scheds (dp_main dp) = [Some cs] \<and>
     cs_cfg cs = cs_cfg (demo_cs\<lparr>cs_owner := 0\<rparr>) \<and> drr_active (cs_drr cs) \<and> cm_aggs (dp_main dp) = [] \<and> cm_agg_by_if (dp_main dp) = []"
proof -
  let ?mem = "replicate CAKE_FLOW_RING_SIZE (0 :: u32)" and ?cs = "demo_cs\<lparr>cs_owner := 0\<rparr>"
  obtain r aggs cs tin freed where t: "cake_enqueue_tin ?mem 0 0 5 demo_buf 1 [] ?cs demo_tin = (r, aggs, cs, tin, freed)"
    by (metis prod_cases5)
  note q = demo_stored [OF t]
  have main: "dp_main demo_dp1 = cake_main_init\<lparr>cm_scheds := [Some demo_cs], cm_sched_by_if := [nil32, nil32, 0], cm_n_scheds := 1, cm_per_thread := seed_threads 1 []\<rparr>"
    "dp_bufs demo_dp1 = (\<lambda>_. demo_buf)" by (simp_all add: demo_dp1_def cake_dp_init_def)
  let ?cs1 = "cs\<lparr>cs_tins := (cs_tins cs)[0 := tin]\<rparr>"
  have l: "cake_enqueue_local demo_ext ?mem 0 0 5 demo_buf [] ?cs = (ENQ_QUEUED, aggs, ?cs1, freed)"
    using t by (simp add: cake_enqueue_local_def demo_cs_fields demo_tag q Let_def cake_dscp_from_buffer_def demo_buf_def [THEN arg_cong [where f = b_hdr]])
  obtain dp where p: "cake_enqueue_pkt demo_ext ?mem 0 0 5 demo_dp1 = (ENQ_QUEUED, dp)" and dp: "dp_freed dp = []"
      "cm_scheds (dp_main dp) = [Some ?cs1]" "cm_aggs (dp_main dp) = aggs" "cm_agg_by_if (dp_main dp) = []"
    using l q by (simp add: cake_enqueue_pkt_def main demo_cs_fields Let_def cake_main_init_def pool_at_def demo_dp1_def cake_dp_init_def
        pool_upd_def demo_buf_def [THEN arg_cong [where f = b_scheduled]] demo_buf_def [THEN arg_cong [where f = b_tx_if]])
  then have e: "cake_enqueue_inline demo_ext ?mem 0 0 [5] demo_dp1 = ([(5, ENQ_QUEUED)], dp)" by simp
  have none: "dp_queued demo_dp1 = {#}" using reach_inv [OF demo_enabled] by (simp add: reach_ok_def)
  have "cake_reach 1 dp ({#} + mset [5]) ({#} + enq_kept [(5, ENQ_QUEUED)])"
    by (rule cake_reach.enqueue [OF demo_enabled _ _ _ _ e]) (simp_all add: none)
  then have r: "cake_reach 1 dp {#5#} {#}" by (simp add: enq_kept_def)
  have inv1: "dp_inv 1 demo_dp1" using reach_inv [OF demo_enabled] by (simp add: reach_ok_def)
  have at: "pool_at (cm_scheds (dp_main demo_dp1)) 0 = Some demo_cs" by (simp add: main pool_at_def)
  have fo: "focus_ok (cm_scheds (dp_main demo_dp1)) 0 (cm_aggs (dp_main demo_dp1)) ?cs"
    by (rule focus_owner [OF inv_focus [OF dp_invD(1) [OF inv1] at]])
  have "live_ok (dp_lens demo_dp1) (cm_per_thread (dp_main demo_dp1)) 0 demo_cs" by (rule dp_invD(5) [OF inv1 at])
  then have ok: "sched_ok (dp_lens demo_dp1) ?cs" and n: "0 < cs_n_tins ?cs" by (simp_all add: live_ok_def sched_ok_def)
  have l': "cake_enqueue_local demo_ext ?mem 0 0 5 demo_buf (cm_aggs (dp_main demo_dp1)) ?cs = (ENQ_QUEUED, aggs, ?cs1, freed)"
    using l by (simp add: main cake_main_init_def)
  have len: "b_len demo_buf = dp_lens demo_dp1 5" by (simp add: dp_lens_def main)
  note E = enqueue_local [OF ok dp_invD(2) [OF inv1] _ len n fo l']
  have "same_cfg [] aggs" using E(3) by (simp add: main cake_main_init_def)
  then have "aggs = []" by (simp add: same_cfg_def)
  moreover have "dp_queued dp = {#5#}" using reach_inv [OF r] dp(1) by (simp add: reach_ok_def)
  ultimately show ?thesis using r dp(2-4) E(3,6) by auto
qed

section \<open>What holds in every reachable state\<close>

definition lens_total :: "(u32 \<Rightarrow> u32) \<Rightarrow> u32 multiset \<Rightarrow> u32" where
  "lens_total lens M = (\<Sum>bi\<in>#M. lens bi)"

text \<open>The bytes queued in the schedulers below an aggregate.\<close>

definition bytes_below :: "cake_dp \<Rightarrow> u32 \<Rightarrow> u32" where
  "bytes_below dp i = pool_sum (\<lambda>cs. if i \<in> agg_above (cm_aggs (dp_main dp)) (cs_agg cs)
     then lens_total (dp_lens dp) (cs_bufs cs) else 0) (cm_scheds (dp_main dp))"

lemma lens_total_add [simp]: "lens_total lens (M + N) = lens_total lens M + lens_total lens N" "lens_total lens {#} = 0"
  by (simp_all add: lens_total_def)

lemma lens_total_mset: "lens_total lens (mset q) = lens_sum lens q"
  by (induction q) (simp_all add: lens_total_def lens_sum_def)

lemma lens_total_sum: "lens_total lens (\<Sum>x\<leftarrow>xs. F x) = (\<Sum>x\<leftarrow>xs. lens_total lens (F x))"
  by (induction xs) simp_all

lemma usage_bytes:
  assumes ok: "sched_ok lens cs"
  shows "cs_buffer_usage cs = lens_total lens (cs_bufs cs)"
proof -
  have "tin_backlog t = lens_total lens (tin_bufs t)" if "t \<in> set (cs_tins cs)" for t
  proof -
    have "tin_ok lens t" using ok that by (simp add: sched_ok_def)
    then have "flow_ok lens f" if "f \<in> set (t_flows t)" for f using that by (auto simp: tin_ok_def tin_inv_def)
    then have "map f_backlog (t_flows t) = map (\<lambda>f. lens_sum lens (flow_queue f)) (t_flows t)" by (simp add: flow_okD(3))
    then show ?thesis by (simp add: tin_backlog_def tin_bufs_def lens_total_sum lens_total_mset cong: map_cong)
  qed
  then have "map tin_backlog (cs_tins cs) = map (\<lambda>t. lens_total lens (tin_bufs t)) (cs_tins cs)" by simp
  with ok show ?thesis by (simp add: sched_ok_def cs_bufs_def lens_total_sum)
qed

text \<open>
  C1: Every buffer is accounted for: in every reachable state, what the plugin was handed is what is
  queued, what was freed and what was handed on, each as often as it came in, and no buffer is in two
  places of the queues.
\<close>

theorem buffers_conserved:
  assumes "cake_reach n dp ins outs"
  shows "ins = dp_queued dp + mset (dp_freed dp) + outs \<and> (\<forall>bi. count (dp_queued dp) bi \<le> 1)"
  using reach_inv [OF assms] by (simp add: reach_ok_def)

theorem buffers_conserved_witness: "\<exists>dp. cake_reach 1 dp {#5#} {#} \<and> {#5#} = dp_queued dp + mset (dp_freed dp)"
proof -
  obtain dp where "cake_reach 1 dp {#5#} {#}" using demo_queued by blast
  with buffers_conserved [OF this] show ?thesis by auto
qed

text \<open>
  C2: The occupancy of an aggregate is exact: in every reachable state it is the number of bytes of the
  packets queued in the schedulers below it, and its count of active children is the number of its
  active schedulers and active child aggregates.
\<close>

theorem occupancy_exact:
  assumes "cake_reach n dp ins outs" and "pool_at (cm_aggs (dp_main dp)) i = Some a"
  shows "ag_buffer_usage a = bytes_below dp i \<and>
    unat (ag_n_active a) = pool_sum (sched_count i) (cm_scheds (dp_main dp)) + pool_sum (sub_count i) (cm_aggs (dp_main dp))"
proof -
  from reach_inv [OF assms(1)] have inv: "dp_inv n dp" by (simp add: reach_ok_def)
  note D = dp_invD [OF inv]
  have tree: "pool_small (cm_scheds (dp_main dp))" and acc: "accounts_ok (cm_aggs (dp_main dp)) (cm_scheds (dp_main dp))"
    using D(1) by (simp_all add: cake_inv_def tree_ok_def)
  have "sched_charge (cm_aggs (dp_main dp)) i cs = (if i \<in> agg_above (cm_aggs (dp_main dp)) (cs_agg cs) then lens_total (dp_lens dp) (cs_bufs cs) else 0)"
    if "pool_at (cm_scheds (dp_main dp)) si = Some cs" for si cs
    using D(5) [OF that] usage_bytes by (simp add: live_ok_def sched_charge_def)
  then have "pool_sum (sched_charge (cm_aggs (dp_main dp)) i) (cm_scheds (dp_main dp)) = bytes_below dp i"
    unfolding bytes_below_def by (rule pool_sum_cong [OF tree])
  with acc assms(2) show ?thesis by (simp add: accounts_ok_def usage_ok_def weights_ok_def)
qed

text \<open>
  C3: No packet is stranded: in every reachable state a scheduler that holds packets is active in the
  round robin and on the list the worker that owns it dispatches from.
\<close>

theorem no_stranded_packets:
  assumes "cake_reach n dp ins outs" and "pool_at (cm_scheds (dp_main dp)) si = Some cs" and "cs_bufs cs \<noteq> {#}"
  shows "drr_active (cs_drr cs) \<and> unat (cs_owner cs) < length (cm_per_thread (dp_main dp)) \<and>
    si \<in> pt_active (cm_per_thread (dp_main dp) ! unat (cs_owner cs))"
proof -
  from reach_inv [OF assms(1)] have inv: "dp_inv n dp" by (simp add: reach_ok_def)
  from dp_invD(5) [OF this assms(2)] assms(3) show ?thesis by (simp add: live_ok_def on_list_def)
qed

text \<open>
  C4: A dispatch always returns, in every reachable state and on every worker: it hands on at most a
  frame of packets and what it neither sends nor frees stays queued.
\<close>

theorem dispatch_returns:
  assumes "cake_reach n dp ins outs"
  shows "\<exists>out dp'. cake_dequeue_node ex now_us now_ns thread dp = Some (out, dp') \<and> length out \<le> VLIB_FRAME_SIZE \<and>
    dp_queued dp + mset (dp_freed dp) = dp_queued dp' + mset (dp_freed dp') + mset (map fst out)"
proof -
  from reach_inv [OF assms] have inv: "dp_inv n dp" by (simp add: reach_ok_def)
  from dequeue_node [OF this, of ex now_us now_ns thread] show ?thesis by blast
qed

theorem dispatch_returns_witness:
  "\<exists>dp out dp'. 5 \<in># dp_queued dp \<and> cake_dequeue_node demo_ext 0 0 0 dp = Some (out, dp') \<and> length out \<le> VLIB_FRAME_SIZE"
proof -
  obtain dp where "cake_reach 1 dp {#5#} {#}" "dp_queued dp = {#5#}" using demo_queued by blast
  with dispatch_returns [OF this(1), of demo_ext 0 0 0] show ?thesis
    by (intro exI [of _ dp]) (auto simp del: cake_dequeue_walk.simps)
qed

lemma dp_queued_member:
  assumes "b \<in># dp_queued dp" and "pool_small (cm_scheds (dp_main dp))"
  shows "\<exists>si cs. pool_at (cm_scheds (dp_main dp)) si = Some cs \<and> b \<in># cs_bufs cs"
proof (rule ccontr)
  assume no: "\<not> ?thesis"
  have "b \<in># (\<Sum>e\<leftarrow>cm_scheds (dp_main dp). case e of None \<Rightarrow> {#} | Some x \<Rightarrow> cs_bufs x)"
    using assms(1) by (simp add: dp_queued_def pool_sum_def)
  then obtain e where e: "e \<in> set (cm_scheds (dp_main dp))" "b \<in># (case e of None \<Rightarrow> {#} | Some x \<Rightarrow> cs_bufs x)"
    by (auto simp: sum_msets_member)
  obtain cs where cs: "e = Some cs" "b \<in># cs_bufs cs"
  proof (cases e)
    case None
    with e(2) show thesis by simp
  next
    case (Some cs)
    with e(2) that show thesis by simp
  qed
  obtain k where k: "k < length (cm_scheds (dp_main dp))" "cm_scheds (dp_main dp) ! k = Some cs" using e(1) cs(1) by (auto simp: in_set_conv_nth)
  have "pool_at (cm_scheds (dp_main dp)) (word_of_nat k) = Some cs"
    using k unat_slot [OF assms(2) k(1)] by (simp add: pool_at_def)
  with no cs(2) show False by blast
qed

theorem no_stranded_packets_witness:
  "\<exists>dp si cs. cake_reach 1 dp {#5#} {#} \<and> pool_at (cm_scheds (dp_main dp)) si = Some cs \<and> 5 \<in># cs_bufs cs \<and> drr_active (cs_drr cs)"
proof -
  obtain dp where r: "cake_reach 1 dp {#5#} {#}" "5 \<in># dp_queued dp" using demo_queued by fastforce
  from reach_inv [OF r(1)] have "pool_small (cm_scheds (dp_main dp))" by (auto simp: reach_ok_def dest!: dp_invD(1) simp: cake_inv_def tree_ok_def)
  from dp_queued_member [OF r(2) this] obtain si cs where s: "pool_at (cm_scheds (dp_main dp)) si = Some cs" "5 \<in># cs_bufs cs" by blast
  from s(2) have "cs_bufs cs \<noteq> {#}" by auto
  from no_stranded_packets [OF r(1) s(1) this] r(1) s show ?thesis by blast
qed

text \<open>The weights of the active children of an aggregate: schedulers, then aggregates.\<close>

definition active_weights :: "cake_dp \<Rightarrow> u32 \<Rightarrow> u64 list" where
  "active_weights dp i =
     concat (map (\<lambda>e. case e of None \<Rightarrow> [] | Some cs \<Rightarrow>
       if cs_agg cs = i \<and> drr_active (cs_drr cs) then [drr_weight (cs_drr cs)] else []) (cm_scheds (dp_main dp))) @
     concat (map (\<lambda>e. case e of None \<Rightarrow> [] | Some k \<Rightarrow>
       if ag_parent k = i \<and> ag_n_active k \<noteq> 0 then [sc_weight (ag_drr k)] else []) (cm_aggs (dp_main dp)))"

lemma sum_list_concat_map: "sum_list (concat (map f xs)) = (\<Sum>x\<leftarrow>xs. sum_list (f x))"
  by (induction xs) simp_all

lemma active_weights_sum:
  "sum_list (active_weights dp i) = pool_sum (sched_weight i) (cm_scheds (dp_main dp)) + pool_sum (sub_weight i) (cm_aggs (dp_main dp))"
  unfolding active_weights_def sum_list_append sum_list_concat_map pool_sum_def
  by (intro arg_cong2 [where f = "(+)"] arg_cong [where f = sum_list] map_cong)
     (auto simp: sched_weight_def sub_weight_def split: option.split)

lemma unat_sum_list:
  "sum_list (map unat ws) < 2 ^ LENGTH('a) \<Longrightarrow> unat (sum_list ws) = sum_list (map unat (ws :: 'a::len word list))"
  by (induction ws) (auto simp: unat_word_ariths take_bit_nat_eq_self)

text \<open>
  C10: The shares of a tier add up: in every reachable state the quanta of all active children of an
  aggregate, computed with the weight it keeps of them, never sum to more than the bytes of a round, as
  long as the sum of their weights fits in 64 bits.
\<close>

theorem reachable_shares_within_round:
  assumes "cake_reach n dp ins outs" and "pool_at (cm_aggs (dp_main dp)) i = Some a"
    and "sum_list (map unat (active_weights dp i)) < 2 ^ 64" and "0 < ag_active_weight a"
  shows "(\<Sum>w\<leftarrow>active_weights dp i. unat (cake_drr_quantum rb w (ag_active_weight a))) \<le> unat rb"
proof (rule quanta_sum_le)
  from reach_inv [OF assms(1)] have inv: "dp_inv n dp" by (simp add: reach_ok_def)
  from dp_invD(1) [OF this] assms(2) have "ag_active_weight a = sum_list (active_weights dp i)"
    by (simp add: cake_inv_def accounts_ok_def weights_ok_def active_weights_sum)
  with unat_sum_list [of "active_weights dp i"] assms(3) show "unat (ag_active_weight a) = sum_list (map unat (active_weights dp i))" by simp
  show "0 < unat (ag_active_weight a)" using assms(4) by (simp add: unat_gt_0)
qed


text \<open>The run goes on: an aggregate is created above the scheduler that holds the packet.\<close>

lemma demo_attached:
  "\<exists>dp a. cake_reach 1 dp {#5#} {#} \<and> pool_at (cm_aggs (dp_main dp)) 0 = Some a \<and> active_weights dp 0 = [125000000]"
proof -
  obtain dp cs where r: "cake_reach 1 dp {#5#} {#}" "dp_queued dp = {#5#}" and cm: "cm_scheds (dp_main dp) = [Some cs]"
    "cm_aggs (dp_main dp) = []" "cm_agg_by_if (dp_main dp) = []" and cfg: "cs_cfg cs = cs_cfg (demo_cs\<lparr>cs_owner := 0\<rparr>)"
    and act: "drr_active (cs_drr cs)" using demo_queued by blast
  have f: "cs_sw_if_index cs = 2" "drr_weight (cs_drr cs) = 125000000" "cs_agg cs = nil32"
    using cfg by (simp_all add: cs_cfg_def demo_cs_def sched_new_def Let_def cake_effective_weight_def)
  have w: "cake_attach_walk demo_ifs [0] 2 nil32 = Some (100, 0)"
    by (subst cake_attach_walk.simps, simp add: demo_ifs_def Let_def, subst cake_attach_walk.simps, simp add: demo_ifs_def Let_def)
  define agg where "agg = (agg_new 0 1 0 0 1000000000 1 (burst_or_default 0) 0)\<lparr>ag_level := CAKE_AGG_LEVEL_PORT,
    ag_parent := nil32, ag_svlan_map := replicate CAKE_SVLAN_MAX nil32, ag_buffer_usage := 0\<rparr>"
  have agg: "ag_parent agg = nil32" "ag_svlan_map agg = replicate CAKE_SVLAN_MAX nil32" by (simp_all add: agg_def)
  let ?cm = "(dp_main dp)\<lparr>cm_aggs := [Some agg], cm_agg_by_if := [0]\<rparr>"
  have "cake_sched_resolve_attachment demo_ifs ?cm cs = Some (cs\<lparr>cs_agg := 0\<rparr>)"
    by (simp add: cake_sched_resolve_attachment_def f w pool_at_def agg CAKE_SVLAN_MAX_def)
  then obtain cm' a where re: "cake_agg_reparent_one demo_ifs 0 ?cm = Some cm'" "cm_scheds cm' = [Some (cs\<lparr>cs_agg := 0\<rparr>)]"
    "cm_aggs cm' = [Some a]" "ag_parent a = nil32"
    using cm act by (cases "cs_buffer_usage cs = 0")
      (simp_all add: cake_agg_reparent_one_def pool_at_def pool_upd_def Let_def f cake_agg_weight_sub_def cake_agg_weight_add_def agg
        cake_agg_chain_def CAKE_AGG_MAX_DEPTH_def numeral_eq_Suc agg_move_charge_def cake_agg_chain_has_def)
  have e: "cake_aggregate_create demo_ifs (\<lambda>_. True) 0 1 0 (dp_main dp) 0 1000000000 1 0 0 = Some (RV_OK, cm')"
    using re cm by (simp add: cake_aggregate_create_def weight_invalid_def CAKE_WEIGHT_MAX_def CAKE_WEIGHT_MIN_def burst_or_default_def burst_invalid_def
      CAKE_AGG_BURST_NS_def CAKE_AGG_BURST_NS_MIN_def CAKE_AGG_BURST_NS_MAX_def vec_validate_init_empty_def Let_def pool_get_put_def
      agg_def cake_agg_reparent_all_def pool_indices_def)
  have r2: "cake_reach 1 (dp\<lparr>dp_main := cm'\<rparr>) {#5#} {#}"
    by (rule cake_reach.agg_create [OF r(1) _ _ e]) (simp_all add: cm pool_fresh_def pool_at_def cake_room_def)
  have "active_weights (dp\<lparr>dp_main := cm'\<rparr>) 0 = [125000000]" by (simp add: active_weights_def re act f)
  with r2 re(3) show ?thesis by (intro exI [of _ "dp\<lparr>dp_main := cm'\<rparr>"] exI [of _ a]) (simp add: pool_at_def)
qed

theorem occupancy_exact_witness:
  "\<exists>dp a. cake_reach 1 dp {#5#} {#} \<and> pool_at (cm_aggs (dp_main dp)) 0 = Some a \<and> ag_buffer_usage a = bytes_below dp 0"
  using demo_attached occupancy_exact by blast

theorem reachable_shares_within_round_witness:
  "\<exists>dp a. cake_reach 1 dp {#5#} {#} \<and> pool_at (cm_aggs (dp_main dp)) 0 = Some a \<and> active_weights dp 0 = [125000000] \<and>
     (\<Sum>w\<leftarrow>active_weights dp 0. unat (cake_drr_quantum 125000 w (ag_active_weight a))) \<le> unat (125000 :: u64)"
proof -
  obtain dp a where d: "cake_reach 1 dp {#5#} {#}" "pool_at (cm_aggs (dp_main dp)) 0 = Some a" "active_weights dp 0 = [125000000]"
    using demo_attached by blast
  from reach_inv [OF d(1)] have inv: "dp_inv 1 dp" by (simp add: reach_ok_def)
  from dp_invD(1) [OF this] d(2) have "ag_active_weight a = sum_list (active_weights dp 0)"
    by (simp add: cake_inv_def accounts_ok_def weights_ok_def active_weights_sum)
  then have "0 < ag_active_weight a" "sum_list (map unat (active_weights dp 0)) < 2 ^ 64" by (simp_all add: d(3))
  with reachable_shares_within_round [OF d(1,2)] d show ?thesis by blast
qed

end
