(* ===== verification/Cake_Props.thy ===== *)
theory Cake_Props
  imports Cake_Dispatch
begin

text \<open>
  Properties of the parts of a tin: the lookup of the flow of a packet, the ring of a flow and the lists of
  flows, each against what it stands for.
\<close>

text \<open>An empty slot that the scan has not passed yet is the first one of the rest.\<close>

lemma scan_first_empty:
  "cake_flow_scan tin tag slots e ev eb = (None, e', ev') \<Longrightarrow> nil32 \<notin> set slots \<Longrightarrow>
     e' = (if e \<noteq> nil32 then e
           else case find (\<lambda>s. t_flow_tags tin ! unat s = 0) slots of None \<Rightarrow> nil32 | Some s \<Rightarrow> s)"
proof (induction slots arbitrary: e ev eb)
  case (Cons s slots)
  have ne: "t_flow_tags tin ! unat s \<noteq> tag" using Cons.prems(1) by (auto split: if_splits)
  define e1 where "e1 = (if t_flow_tags tin ! unat s = 0 \<and> e = nil32 then s else e)"
  obtain ev1 eb1 where "cake_flow_scan tin tag slots e1 ev1 eb1 = (None, e', ev')"
    using Cons.prems(1) ne by (auto simp: Let_def e1_def)
  from Cons.IH [OF this] Cons.prems(2) show ?case by (auto simp: e1_def)
qed simp

lemma lookup_first_empty:
  assumes "cake_flow_lookup tin tag (cake_flow_set_base tag) = (i, ev, tin')"
    and "\<forall>s \<in> set (set_slots (cake_flow_set_base tag)). t_flow_tags tin ! unat s \<noteq> tag"
  shows "i = (case find (\<lambda>s. t_flow_tags tin ! unat s = 0) (set_slots (cake_flow_set_base tag)) of
      None \<Rightarrow> nil32 | Some s \<Rightarrow> s)"
proof -
  let ?S = "set_slots (cake_flow_set_base tag)"
  have nn: "nil32 \<notin> set ?S" by (simp add: set_slots CAKE_QUEUES_def)
  obtain r e' ev' where sc: "cake_flow_scan tin tag ?S nil32 nil32 nil32 = (r, e', ev')" using prod_cases3 by blast
  have "r = None" using scan_found [of tin tag ?S nil32 nil32 nil32 _ e' ev'] sc assms(2) by (cases r) auto
  with scan_first_empty [OF sc [unfolded \<open>r = None\<close>] nn] sc assms(1) show ?thesis
    by (auto simp: cake_flow_lookup_def split: if_splits option.splits)
qed

text \<open>A tag lies in no slot but those of its set, and in one of them at most.\<close>

lemma tag_slot:
  assumes "tags_ok tags" and "k < CAKE_QUEUES" and "tags ! k = tag" and "tag \<noteq> 0"
  shows "word_of_nat k \<in> set (set_slots (cake_flow_set_base tag))" and "unat (word_of_nat k :: u32) = k"
    and "j < CAKE_QUEUES \<Longrightarrow> tags ! j = tag \<Longrightarrow> j = k"
proof -
  show k: "unat (word_of_nat k :: u32) = k" using assms(2) by (simp add: unat_of_nat CAKE_QUEUES_def)
  have "k div CAKE_SET_WAYS = unat tag mod CAKE_SET_COUNT" using assms by (auto simp: tags_ok_def)
  then show "word_of_nat k \<in> set (set_slots (cake_flow_set_base tag))" using assms(2) by (simp only: set_slots k)
  show "j < CAKE_QUEUES \<Longrightarrow> tags ! j = tag \<Longrightarrow> j = k" using assms by (auto simp: tags_ok_def)
qed

text \<open>
  C21: The lookup of a flow is exact, for a tag other than 0, which marks an empty slot, and buffers below
  16 MB, whose backlogs fit 32 bits.  When the tag is in the table, the lookup returns its slot and changes
  nothing.  When it is not, the lookup puts it in the first empty slot of its set, the 8 slots
  its residue selects; when that set is full it returns none, changes nothing, and names for eviction a slot of
  the set with the least backlog.  Either way the invariant of the tin holds after it, so the tag is in
  no other slot.
\<close>

theorem flow_lookup_exact:
  assumes "tin_inv lens tin nw od dc" and "lens_ok lens" and "tag \<noteq> 0"
    and "cake_flow_lookup tin tag (cake_flow_set_base tag) = (i, ev, tin')"
  shows "(\<forall>k < CAKE_QUEUES. t_flow_tags tin ! k = tag \<longrightarrow> unat i = k \<and> i \<noteq> nil32 \<and> tin' = tin) \<and>
    ((\<forall>k < CAKE_QUEUES. t_flow_tags tin ! k \<noteq> tag) \<longrightarrow>
       (case find (\<lambda>s. t_flow_tags tin ! unat s = 0) (set_slots (cake_flow_set_base tag)) of
          Some s \<Rightarrow> i = s \<and> i \<noteq> nil32 \<and> tin' = tin\<lparr>t_flow_tags := (t_flow_tags tin)[unat s := tag]\<rparr>
        | None \<Rightarrow> i = nil32 \<and> tin' = tin \<and> ev \<in> set (set_slots (cake_flow_set_base tag)) \<and>
            (\<forall>s \<in> set (set_slots (cake_flow_set_base tag)).
               f_backlog (t_flows tin ! unat ev) \<le> f_backlog (t_flows tin ! unat s)))) \<and>
    tin_inv lens tin' nw od dc \<and>
    (i \<noteq> nil32 \<longrightarrow> (\<forall>k < CAKE_QUEUES. t_flow_tags tin' ! k = tag \<longleftrightarrow> k = unat i))"
proof -
  let ?S = "set_slots (cake_flow_set_base tag)"
  note L = lookup_tin [OF assms, unfolded if_bool_eq_conj]
  note LN = L [THEN conjunct1, THEN mp] and LS = L [THEN conjunct2, THEN mp]
  note N = LN [THEN conjunct1] LN [THEN conjunct2, THEN conjunct1] LN [THEN conjunct2, THEN conjunct2, THEN conjunct1, rule_format]
    LN [THEN conjunct2, THEN conjunct2, THEN conjunct2, THEN bspec, THEN conjunct2]
  note S = LS [THEN conjunct1] LS [THEN conjunct2, THEN conjunct1] LS [THEN conjunct2, THEN conjunct2, THEN conjunct2]
  have inv': "tin_inv lens tin' nw od dc" using N(1) S(3) assms(1) by (cases "i = nil32") simp_all
  have tags: "tags_ok (t_flow_tags tin)" "tags_ok (t_flow_tags tin')" by (rule tin_invD(3) [OF assms(1)] tin_invD(3) [OF inv'])+
  have at: "unat i < CAKE_QUEUES" "t_flow_tags tin' ! unat i = tag" if "i \<noteq> nil32"
  proof -
    show u: "unat i < CAKE_QUEUES" using S(1) [OF that] by (simp add: set_slots)
    with S(2) [OF that] tags(1) show "t_flow_tags tin' ! unat i = tag" by (simp add: tags_ok_def)
  qed
  have only: "t_flow_tags tin' ! k = tag \<longleftrightarrow> k = unat i" if "i \<noteq> nil32" "k < CAKE_QUEUES" for k
    using tag_slot(3) [OF tags(2) at(1) [OF that(1)] at(2) [OF that(1)] assms(3) that(2)] at(2) [OF that(1)] by metis
  have found: "unat i = k \<and> i \<noteq> nil32 \<and> tin' = tin" if k: "k < CAKE_QUEUES" "t_flow_tags tin ! k = tag" for k
  proof -
    have i: "i \<noteq> nil32" using N(3) k by blast
    note t = S(2) [OF i]
    have "t_flow_tags tin' ! k = tag" using k tags(1) by (cases "unat i = k") (simp_all add: t tags_ok_def)
    then have "k = unat i" using only [OF i k(1)] by simp
    with k(2) have "(t_flow_tags tin)[unat i := tag] = t_flow_tags tin" using list_update_id by metis
    with t \<open>k = unat i\<close> i show ?thesis by simp
  qed
  have absent: "case find (\<lambda>s. t_flow_tags tin ! unat s = 0) ?S of
          Some s \<Rightarrow> i = s \<and> i \<noteq> nil32 \<and> tin' = tin\<lparr>t_flow_tags := (t_flow_tags tin)[unat s := tag]\<rparr>
        | None \<Rightarrow> i = nil32 \<and> tin' = tin \<and> ev \<in> set ?S \<and>
            (\<forall>s \<in> set ?S. f_backlog (t_flows tin ! unat ev) \<le> f_backlog (t_flows tin ! unat s))"
    if "\<forall>k < CAKE_QUEUES. t_flow_tags tin ! k \<noteq> tag"
  proof -
    have "\<forall>s \<in> set ?S. t_flow_tags tin ! unat s \<noteq> tag" using that by (simp add: set_slots)
    note i = lookup_first_empty [OF assms(4) this]
    have "s \<noteq> nil32" if "find (\<lambda>s. t_flow_tags tin ! unat s = 0) ?S = Some s" for s
      using that by (auto simp: find_Some_iff set_slots CAKE_QUEUES_def dest!: nth_mem)
    with i N(1,2) N(4) [unfolded slot_backlog_def] S(2) show ?thesis by (cases "find (\<lambda>s. t_flow_tags tin ! unat s = 0) ?S") simp_all
  qed
  show ?thesis using found absent inv' only by blast
qed

lemma init_inv: "tin_inv lens (cake_tin_init q) [] [] []"
  by (simp add: tin_inv_def tin_dll_def fl.is_list_def tin_marks_def tin_counts_def tags_ok_def flow_valid_def
      cake_tin_init_def cake_tin_zero_def) (simp add: flow_clean_def cake_flow_zero_def)

text \<open>The tag 9 goes to slot 72, the first of its set, and is found there by the next lookup.\<close>

theorem flow_lookup_exact_witness:
  "\<exists>ev ev' tin. cake_flow_lookup (cake_tin_init 1514) 9 (cake_flow_set_base 9) = (72, ev, tin) \<and>
     cake_flow_lookup tin 9 (cake_flow_set_base 9) = (72, ev', tin)"
proof -
  obtain i ev tin where e: "cake_flow_lookup (cake_tin_init 1514) 9 (cake_flow_set_base 9) = (i, ev, tin)" by (metis prod_cases3)
  obtain j ev' tin' where e': "cake_flow_lookup tin 9 (cake_flow_set_base 9) = (j, ev', tin')" by (metis prod_cases3)
  have l: "lens_ok (\<lambda>_. 1000)" by (simp add: lens_ok_def)
  have t: "t_flow_tags (cake_tin_init 1514) = replicate CAKE_QUEUES 0" by (simp add: cake_tin_init_def cake_tin_zero_def)
  have "find (\<lambda>s. t_flow_tags (cake_tin_init 1514) ! unat s = 0) (set_slots (cake_flow_set_base 9)) = Some 72"
    by (simp add: t set_slots_def cake_flow_set_base_def CAKE_SET_WAYS_def CAKE_SET_COUNT_def CAKE_QUEUES_def upt_conv_Cons)
  with flow_lookup_exact [OF init_inv l _ e] have i: "i = 72" "tin_inv (\<lambda>_. 1000) tin [] [] []" "t_flow_tags tin ! 72 = 9"
    by (auto simp: t CAKE_QUEUES_def)
  have "(72 :: nat) < CAKE_QUEUES" by (simp add: CAKE_QUEUES_def)
  with flow_lookup_exact [OF i(2) l _ e', THEN conjunct1, THEN spec [of _ 72], THEN mp, THEN mp] i(3)
  have "unat j = 72 \<and> tin' = tin" by simp
  then have "j = 72" "tin' = tin" by (auto simp: word_unat_eq_iff)
  with e e' i(1) show ?thesis by blast
qed

text \<open>
  C25: The ring of a flow is a queue: storing a buffer appends it to the buffers the ring holds, taking
  the one at the head removes the oldest, and draining the ring frees them in order, wherever the two
  32-bit positions stand and even as they wrap around.
\<close>

theorem ring_is_fifo:
  assumes "length (f_ring f) = CAKE_FLOW_RING_SIZE"
  shows "(unat (cake_flow_queue_len f) < CAKE_FLOW_RING_SIZE \<longrightarrow> flow_queue (flow_push bi n f) = flow_queue f @ [bi]) \<and>
    (cake_flow_queue_len f \<noteq> 0 \<longrightarrow>
       flow_queue f = f_ring f ! ring_slot (f_head f) # flow_queue (f\<lparr>f_head := f_head f + 1\<rparr>)) \<and>
    snd (cake_flow_ring_drain f) = flow_queue f"
proof -
  have "length (f_ring f) = 128" using assms by (simp add: CAKE_FLOW_RING_SIZE_def)
  from flow_queue_push(1) [OF this, of "flow_push bi n f" bi] flow_queue_pop(1) [of f] show ?thesis
    by (auto simp: flow_push_def CAKE_FLOW_RING_SIZE_def ring_drain)
qed

theorem ring_is_fifo_witness:
  "let f = cake_flow_zero\<lparr>f_ring := replicate 128 7, f_head := nil32, f_tail := nil32\<rparr>
   in flow_queue (flow_push 42 1500 f) = [42]"
  using ring_is_fifo [of "cake_flow_zero\<lparr>f_ring := replicate 128 7, f_head := nil32, f_tail := nil32\<rparr>" 42 1500]
  by (simp add: CAKE_FLOW_RING_SIZE_def cake_flow_queue_len_def flow_queue_def)

text \<open>
  C26: The linked lists of flows are lists: when the links and the two ends of one stand for a list of
  indices, prepending, appending and removing a flow leave links that stand for that list with the index
  put first, put last and taken out.
\<close>

theorem flow_lists_refine:
  assumes "fl.is_list flows h t xs" and "flow_valid flows i" and "i \<noteq> nil32"
  shows "(i \<notin> set xs \<longrightarrow> (case cake_flow_list_prepend h t flows i of (h', t', flows') \<Rightarrow> fl.is_list flows' h' t' (i # xs))) \<and>
    (i \<notin> set xs \<longrightarrow> (case cake_flow_list_append_tail h t flows i of (h', t', flows') \<Rightarrow> fl.is_list flows' h' t' (xs @ [i]))) \<and>
    (i \<in> set xs \<longrightarrow> (case cake_flow_list_remove h t flows i of (h', t', flows') \<Rightarrow> fl.is_list flows' h' t' (remove1 i xs)))"
  using fl.prepend_list [OF assms(1,2) _ assms(3)] fl.append_list [OF assms(1,2) _ assms(3)] fl.remove_list [OF assms(1)]
  by (auto split: prod.split)

theorem flow_lists_refine_witness:
  "case cake_flow_list_append_tail 3 3 (replicate 8 flow_clean) 5 of (h', t', flows') \<Rightarrow> fl.is_list flows' h' t' [3, 5]"
proof -
  have "fl.is_list (replicate 8 flow_clean) 3 3 [3]"
    by (simp add: fl.is_list_def dll_def flow_valid_def flow_clean_def cake_flow_zero_def)
  from flow_lists_refine [OF this, of 5] show ?thesis by (simp add: flow_valid_def)
qed

text \<open>What the model showed of the code: the deficit round robin among the flows of a tin forgives debt.\<close>

text \<open>
  A bulk flow that overspends by \<open>d\<close> bytes in one turn starts its next turn with a full quantum: the
  turn ends by setting the deficit to zero, whatever it was, so that a flow of packets just below the
  quantum gets almost two quanta per round where a flow of packets of exactly a quantum gets one.
\<close>

lemma rotate_forgives_debt:
  assumes "flow_valid (t_flows tin) i" and "f_state (t_flows tin ! unat i) = FLOW_BULK"
    and "cake_flow_queue_len (t_flows tin ! unat i) > 0" and "f_deficit (t_flows tin ! unat i) \<le> 0"
  shows "f_deficit (t_flows (deq_rotate i tin) ! unat i) = 0"
proof -
  let ?t = "old_append i (old_remove i tin)"
  have "length (t_flows ?t) = length (t_flows tin)"
    using arg_cong [OF tin_list_cores(3), of length i "old_remove i tin"] arg_cong [OF tin_list_cores(4), of length i tin]
    by (simp add: tin_cores_def)
  then have "flow_valid (t_flows ?t) i" using assms(1) by (simp add: flow_valid_def)
  from flow_upd_at [OF this, of "\<lambda>f. f\<lparr>f_deficit := 0\<rparr>" i] assms(2-4) show ?thesis
    by (simp add: deq_rotate_def Let_def)
qed

end
