(* ===== verification/Cgnat_Types.thy ===== *)
theory Cgnat_Types
  imports Prelude
begin

text \<open>
  The data of the carrier-grade NAT plugin (osvbng_cgnat.h): pools, subscriber mappings, sessions
  with their two flow records, fragment rewrite records, the tables that index them, and the small
  functions on them (timeouts, protocol classes, the TCP state machine, lookups).

  Addresses and ports are kept as the machine holds them: an \<^verbatim>\<open>ip4_address_t\<close> is the
  32-bit word loaded from the packet in network byte order on a little-endian host, so
  \<^verbatim>\<open>clib_net_to_host_u32\<close> is the byte swap \<open>bswap32\<close>.  Bounded-index hash tables
  are maps; times (\<^verbatim>\<open>f64\<close>) are reals.  Vector and pool locks, cache-line marks, padding
  and log messages have no counterpart.
\<close>

section \<open>Byte order\<close>

definition bswap16 :: "u16 \<Rightarrow> u16" where
  "bswap16 w = push_bit 8 w OR drop_bit 8 w"

definition bswap32 :: "u32 \<Rightarrow> u32" where
  "bswap32 w = push_bit 24 w OR (push_bit 8 w AND 0xFF0000) OR (drop_bit 8 w AND 0xFF00) OR drop_bit 24 w"

lemma bswap16_bit: "bit (bswap16 w) n = (n < 16 \<and> bit w (if n < 8 then n + 8 else n - 8))"
proof (cases "n < 16")
  case True
  have w: "\<not> bit w k" if "16 \<le> k" for k using that bit_imp_le_length [of w k] by auto
  show ?thesis using True w by (auto simp: bswap16_def bit_simps add.commute)
next
  case False
  then show ?thesis using bit_imp_le_length [of "bswap16 w" n] by auto
qed

lemma bswap16_bswap16 [simp]: "bswap16 (bswap16 w) = w"
  by (rule bit_word_eqI) (auto simp: bswap16_bit)

lemma bswap32_bit:
  "bit (bswap32 w) n = (n < 32 \<and> bit w (if n < 8 then n + 24 else if n < 16 then n + 8 else if n < 24 then n - 8 else n - 24))"
proof (cases "n < 32")
  case True
  have 1: "bit (0xFF0000 :: u32) n = (16 \<le> n \<and> n < 24)" "bit (0xFF00 :: u32) n = (8 \<le> n \<and> n < 16)"
    using True by (auto simp: numeral_eq_Suc less_Suc_eq)
  have w: "\<not> bit w k" if "32 \<le> k" for k using that bit_imp_le_length [of w k] by auto
  show ?thesis
    using True 1 w by (auto simp: bswap32_def bit_simps add.commute)
next
  case False
  then show ?thesis using bit_imp_le_length [of "bswap32 w" n] by auto
qed

lemma bswap32_bswap32 [simp]: "bswap32 (bswap32 w) = w"
  by (rule bit_word_eqI) (auto simp: bswap32_bit)

lemma bswap16_inject [simp]: "bswap16 a = bswap16 b \<longleftrightarrow> a = b"
  using bswap16_bswap16 by metis

lemma bswap32_inject [simp]: "bswap32 a = bswap32 b \<longleftrightarrow> a = b"
  using bswap32_bswap32 by metis

section \<open>Constants\<close>

text \<open>Values of the IP, ICMP and TCP header fields, from the protocol definitions.\<close>

definition IP_PROTOCOL_ICMP :: u8 where "IP_PROTOCOL_ICMP = 1"
definition IP_PROTOCOL_TCP :: u8 where "IP_PROTOCOL_TCP = 6"
definition IP_PROTOCOL_UDP :: u8 where "IP_PROTOCOL_UDP = 17"

lemmas proto_defs = IP_PROTOCOL_ICMP_def IP_PROTOCOL_TCP_def IP_PROTOCOL_UDP_def

definition ICMP4_echo_reply :: u8 where "ICMP4_echo_reply = 0"
definition ICMP4_echo_request :: u8 where "ICMP4_echo_request = 8"

definition TCP_FLAG_FIN :: u8 where "TCP_FLAG_FIN = 1"
definition TCP_FLAG_SYN :: u8 where "TCP_FLAG_SYN = 2"
definition TCP_FLAG_RST :: u8 where "TCP_FLAG_RST = 4"
definition TCP_FLAG_ACK :: u8 where "TCP_FLAG_ACK = 16"

lemmas tcp_flag_defs = TCP_FLAG_FIN_def TCP_FLAG_SYN_def TCP_FLAG_RST_def TCP_FLAG_ACK_def

text \<open>The timeout slots of a pool.\<close>

definition CGNAT_PROTO_TCP_ESTAB :: nat where "CGNAT_PROTO_TCP_ESTAB = 0"
definition CGNAT_PROTO_TCP_TRANS :: nat where "CGNAT_PROTO_TCP_TRANS = 1"
definition CGNAT_PROTO_UDP :: nat where "CGNAT_PROTO_UDP = 2"
definition CGNAT_PROTO_ICMP :: nat where "CGNAT_PROTO_ICMP = 3"
definition CGNAT_PROTO_OTHER :: nat where "CGNAT_PROTO_OTHER = 4"
definition CGNAT_N_PROTOS :: nat where "CGNAT_N_PROTOS = 5"

lemmas proto_slot_defs = CGNAT_PROTO_TCP_ESTAB_def CGNAT_PROTO_TCP_TRANS_def CGNAT_PROTO_UDP_def
  CGNAT_PROTO_ICMP_def CGNAT_PROTO_OTHER_def CGNAT_N_PROTOS_def

definition CGNAT_MAX_SESSIONS :: nat where "CGNAT_MAX_SESSIONS = 2 ^ 19"
definition CGNAT_MAX_FRAG_REWRITES :: nat where "CGNAT_MAX_FRAG_REWRITES = 2 ^ 16"

section \<open>Records\<close>

datatype cgnat_tcp_state_e = CGNAT_TCP_STATE_CLOSED | CGNAT_TCP_STATE_ESTABLISHED | CGNAT_TCP_STATE_CLOSING

datatype cgnat_dir = CGNAT_TCP_DIR_I2O | CGNAT_TCP_DIR_O2I

datatype cgnat_pool_mode_t = CGNAT_POOL_MODE_PBA | CGNAT_POOL_MODE_DETERMINISTIC

datatype cgnat_address_pooling_t = CGNAT_ADDRESS_POOLING_PAIRED | CGNAT_ADDRESS_POOLING_ARBITRARY

datatype cgnat_filtering_t = CGNAT_FILTERING_ENDPOINT_INDEPENDENT | CGNAT_FILTERING_ENDPOINT_DEPENDENT

datatype cgnat_error_t =
    CGNAT_ERROR_NO_MAPPING | CGNAT_ERROR_NO_SESSION | CGNAT_ERROR_PORT_EXHAUSTED
  | CGNAT_ERROR_SESSION_LIMIT | CGNAT_ERROR_NO_POOL | CGNAT_ERROR_NO_REASS_METADATA
  | CGNAT_ERROR_FRAGMENT_DROP | CGNAT_ERROR_BAD_ICMP_TYPE | CGNAT_ERROR_TRUNCATED

record cgnat_flow_t =
  fl_l3_csum_delta :: u64
  fl_l4_csum_delta :: u64
  fl_saddr :: u32
  fl_daddr :: u32
  fl_rewrite_saddr :: u32
  fl_rewrite_daddr :: u32
  fl_fib_index :: u32
  fl_rewrite_fib_index :: u32
  fl_sport :: u16
  fl_dport :: u16
  fl_rewrite_sport :: u16
  fl_rewrite_dport :: u16
  fl_proto :: u8

record cgnat_session_t =
  ss_i2o :: cgnat_flow_t
  ss_tcp_state :: cgnat_tcp_state_e
  ss_o2i :: cgnat_flow_t
  ss_mapping_index :: u32
  ss_pool_index :: u32
  ss_last_active :: real
  ss_total_pkts :: u64
  ss_total_bytes :: u64
  ss_timeout :: real
  ss_frag_rewrite_index :: u32
  ss_mapping_next :: u32
  ss_mapping_prev :: u32
  ss_flags_i2o :: u8
  ss_flags_o2i :: u8

record cgnat_frag_rewrite_t =
  fr_l3_csum_delta_i2o :: u64
  fr_l3_csum_delta_o2i :: u64
  fr_inside_ip :: u32
  fr_outside_ip :: u32
  fr_inside_fib_index :: u32
  fr_outside_fib_index :: u32
  fr_refcount :: u32

text \<open>The 16 bytes of a session key; the fib index is cut to 16 bits.\<close>

record cgnat_session_key_t =
  k_src_ip :: u32
  k_dst_ip :: u32
  k_src_port :: u16
  k_dst_port :: u16
  k_proto :: u8
  k_fib_index_lo16 :: u16

record cgnat_mapping_t =
  mp_inside_ip :: u32
  mp_outside_ip :: u32
  mp_inside_vrf_id :: u32
  mp_inside_fib_index :: u32
  mp_port_block_start :: u16
  mp_port_block_end :: u16
  mp_pool_index :: u32
  mp_sw_if_index :: u32
  mp_next_port :: u16
  mp_session_count :: u32
  mp_sessions_head :: u32
  mp_port_reuse_timestamps :: "real list"

record fib_prefix_t =
  fp_addr :: u32
  fp_len :: u8

record cgnat_bypass_entry_t =
  be_prefix :: fib_prefix_t
  be_fib_index :: u32
  be_fib_entry_index :: u32

record cgnat_det_params_t =
  dt_inside_base :: u32
  dt_inside_count :: u32
  dt_outside_base :: u32
  dt_outside_count :: u32
  dt_sharing_ratio :: u32
  dt_ports_per_host :: u32
  dt_port_range_start :: u16
  dt_port_range_end :: u16

record cgnat_inside_prefix_entry_t =
  ip_prefix :: fib_prefix_t
  ip_vrf_id :: u32
  ip_fib_index :: u32

text \<open>The pool's DPO is the pool index once set; \<open>pl_dpo_valid\<close> is \<^verbatim>\<open>dpo_id_is_valid\<close>.\<close>

record cgnat_pool_t =
  pl_pool_id :: u32
  pl_mode :: cgnat_pool_mode_t
  pl_address_pooling :: cgnat_address_pooling_t
  pl_filtering :: cgnat_filtering_t
  pl_block_size :: u16
  pl_max_blocks_per_sub :: u8
  pl_max_sessions_per_sub :: u32
  pl_port_range_start :: u16
  pl_port_range_end :: u16
  pl_port_reuse_timeout :: u16
  pl_alg_bitmask :: u8
  pl_timeouts :: "u32 list"
  pl_outside_vrf_table_id :: u32
  pl_outside_fib_index :: u32
  pl_outside_fib_valid :: bool
  pl_outside_prefixes :: "fib_prefix_t list"
  pl_outside_fib_entries :: "u32 list"
  pl_dpo_valid :: bool
  pl_outside_sw_if_indexes :: "u32 list"
  pl_inside_prefixes :: "cgnat_inside_prefix_entry_t list"
  pl_det_params :: "cgnat_det_params_t list"

record cgnat_main_t =
  cm_pools :: "cgnat_pool_t pool"
  cm_pool_by_id :: "u32 \<Rightarrow> u32 option"
  cm_mappings :: "cgnat_mapping_t pool"
  cm_inside_lookup :: "u32 \<times> u32 \<Rightarrow> u32 option"
  cm_sessions :: "cgnat_session_t pool"
  cm_session_table_in2out :: "cgnat_session_key_t \<Rightarrow> u32 option"
  cm_session_table_out2in :: "cgnat_session_key_t \<Rightarrow> u32 option"
  cm_frag_rewrite_pool :: "cgnat_frag_rewrite_t pool"
  cm_frag_aux :: "cgnat_session_key_t \<Rightarrow> u32 option"
  cm_bypass_entries :: "cgnat_bypass_entry_t pool"
  cm_bypass_entry_count :: u32

section \<open>Protocol classes and timeouts\<close>

definition cgnat_proto_from_ip :: "u8 \<Rightarrow> nat" where
  "cgnat_proto_from_ip ip_proto =
     (if ip_proto = IP_PROTOCOL_TCP then CGNAT_PROTO_TCP_ESTAB
      else if ip_proto = IP_PROTOCOL_UDP then CGNAT_PROTO_UDP
      else if ip_proto = IP_PROTOCOL_ICMP then CGNAT_PROTO_ICMP
      else CGNAT_PROTO_OTHER)"

definition cgnat_session_timeout :: "cgnat_pool_t \<Rightarrow> nat \<Rightarrow> u32" where
  "cgnat_session_timeout pool proto =
     (if proto < CGNAT_N_PROTOS then pl_timeouts pool ! proto else pl_timeouts pool ! CGNAT_PROTO_UDP)"

definition cgnat_session_timeout_for_tcp :: "cgnat_pool_t \<Rightarrow> cgnat_tcp_state_e \<Rightarrow> u32" where
  "cgnat_session_timeout_for_tcp pool tcp_state =
     (if tcp_state = CGNAT_TCP_STATE_ESTABLISHED then pl_timeouts pool ! CGNAT_PROTO_TCP_ESTAB
      else pl_timeouts pool ! CGNAT_PROTO_TCP_TRANS)"

definition cgnat_is_unk_proto :: "u8 \<Rightarrow> bool" where
  "cgnat_is_unk_proto proto \<longleftrightarrow>
     \<not> (proto = IP_PROTOCOL_TCP \<or> proto = IP_PROTOCOL_UDP \<or> proto = IP_PROTOCOL_ICMP)"

text \<open>Destination unreachable, source quench, redirect, alternate host address, time exceeded and
  parameter problem.\<close>

definition icmp_type_is_error_message :: "u8 \<Rightarrow> bool" where
  "icmp_type_is_error_message icmp_type \<longleftrightarrow> icmp_type \<in> {3, 4, 5, 6, 11, 12}"

section \<open>The TCP state machine\<close>

definition ss_flags :: "cgnat_dir \<Rightarrow> cgnat_session_t \<Rightarrow> u8" where
  "ss_flags dir s = (case dir of CGNAT_TCP_DIR_I2O \<Rightarrow> ss_flags_i2o s | CGNAT_TCP_DIR_O2I \<Rightarrow> ss_flags_o2i s)"

definition ss_flags_or :: "cgnat_dir \<Rightarrow> u8 \<Rightarrow> cgnat_session_t \<Rightarrow> cgnat_session_t" where
  "ss_flags_or dir f s = (case dir of
     CGNAT_TCP_DIR_I2O \<Rightarrow> s\<lparr>ss_flags_i2o := ss_flags_i2o s OR f\<rparr>
   | CGNAT_TCP_DIR_O2I \<Rightarrow> s\<lparr>ss_flags_o2i := ss_flags_o2i s OR f\<rparr>)"

definition tcp_both_syn_ack :: "cgnat_session_t \<Rightarrow> bool" where
  "tcp_both_syn_ack s \<longleftrightarrow> ss_flags_i2o s AND ss_flags_o2i s = TCP_FLAG_SYN OR TCP_FLAG_ACK"

definition tcp_next_state :: "cgnat_dir \<Rightarrow> real \<Rightarrow> cgnat_session_t \<Rightarrow> cgnat_session_t" where
  "tcp_next_state dir now s = (case ss_tcp_state s of
     CGNAT_TCP_STATE_CLOSED \<Rightarrow>
       (if tcp_both_syn_ack s then s\<lparr>ss_tcp_state := CGNAT_TCP_STATE_ESTABLISHED\<rparr> else s)
   | CGNAT_TCP_STATE_ESTABLISHED \<Rightarrow>
       (if ss_flags dir s AND (TCP_FLAG_FIN OR TCP_FLAG_RST) \<noteq> 0
        then s\<lparr>ss_tcp_state := CGNAT_TCP_STATE_CLOSING, ss_flags_i2o := 0, ss_flags_o2i := 0,
               ss_last_active := now\<rparr>
        else s)
   | CGNAT_TCP_STATE_CLOSING \<Rightarrow>
       (if tcp_both_syn_ack s then s\<lparr>ss_tcp_state := CGNAT_TCP_STATE_ESTABLISHED\<rparr> else s))"

definition cgnat_set_tcp_session_state ::
  "cgnat_pool_t \<Rightarrow> u8 \<Rightarrow> cgnat_dir \<Rightarrow> real \<Rightarrow> cgnat_session_t \<Rightarrow> cgnat_session_t"
where
  "cgnat_set_tcp_session_state pool tcp_flags dir now s =
     (let mask = TCP_FLAG_FIN OR TCP_FLAG_SYN OR TCP_FLAG_RST OR TCP_FLAG_ACK;
          s1 = ss_flags_or dir (tcp_flags AND mask) s in
      if ss_flags dir s = ss_flags dir s1 then s1
      else let s2 = tcp_next_state dir now s1 in
           if ss_tcp_state s2 = ss_tcp_state s then s2
           else s2\<lparr>ss_timeout := real (unat (cgnat_session_timeout_for_tcp pool (ss_tcp_state s2)))\<rparr>)"

section \<open>Lookups\<close>

definition cgnat_mapping_lookup :: "cgnat_main_t \<Rightarrow> u32 \<Rightarrow> u32 \<Rightarrow> u32 option" where
  "cgnat_mapping_lookup cm inside_ip fib_index = cm_inside_lookup cm (inside_ip, fib_index)"

end
