(* ===== verification/Cgnat_Det.thy ===== *)
theory Cgnat_Det
  imports Cgnat_Types
begin

text \<open>
  Deterministic NAT (RFC 7422): the outside address and the port block of a subscriber follow from
  its inside address by arithmetic on the parameters the API handlers compute from the prefixes.
  A division by zero, which traps on the machine, is the outer \<open>None\<close> of a result.
\<close>

section \<open>The parameters\<close>

text \<open>\<^verbatim>\<open>1 << (32 - len)\<close>, for a prefix length of 1 to 32.\<close>

definition prefix_count :: "u8 \<Rightarrow> u32" where
  "prefix_count len = push_bit (32 - unat len) 1"

definition det_params_new :: "cgnat_pool_t \<Rightarrow> fib_prefix_t \<Rightarrow> cgnat_det_params_t" where
  "det_params_new pool pfx =
     \<lparr>dt_inside_base = fp_addr pfx, dt_inside_count = prefix_count (fp_len pfx),
      dt_outside_base = 0, dt_outside_count = 0, dt_sharing_ratio = 0, dt_ports_per_host = 0,
      dt_port_range_start = pl_port_range_start pool, dt_port_range_end = pl_port_range_end pool\<rparr>"

definition det_params_outside :: "fib_prefix_t \<Rightarrow> cgnat_det_params_t \<Rightarrow> cgnat_det_params_t" where
  "det_params_outside pfx dp =
     (let outside_count = prefix_count (fp_len pfx);
          ratio0 = dt_inside_count dp div outside_count;
          ratio = (if ratio0 = 0 then 1 else ratio0);
          usable_ports = ucast (dt_port_range_end dp) - ucast (dt_port_range_start dp) + 1 in
      dp\<lparr>dt_outside_base := fp_addr pfx, dt_outside_count := outside_count,
         dt_sharing_ratio := ratio, dt_ports_per_host := usable_ports div ratio\<rparr>)"

section \<open>The two directions\<close>

definition det_covers :: "u32 \<Rightarrow> cgnat_det_params_t \<Rightarrow> bool" where
  "det_covers inside_ip dp \<longleftrightarrow>
     (let ip_h = bswap32 inside_ip; base_h = bswap32 (dt_inside_base dp) in
      base_h \<le> ip_h \<and> ip_h < base_h + dt_inside_count dp)"

definition cgnat_det_lookup_params_inside :: "cgnat_pool_t \<Rightarrow> u32 \<Rightarrow> cgnat_det_params_t option" where
  "cgnat_det_lookup_params_inside pool inside_ip = find (det_covers inside_ip) (pl_det_params pool)"

definition cgnat_det_forward :: "cgnat_det_params_t \<Rightarrow> u32 \<Rightarrow> (u32 \<times> u16 \<times> u16) option option" where
  "cgnat_det_forward dp inside_ip =
     (let host_offset = bswap32 inside_ip - bswap32 (dt_inside_base dp) in
      if dt_inside_count dp \<le> host_offset then Some None
      else if dt_sharing_ratio dp = 0 then None
      else let outside_offset = host_offset div dt_sharing_ratio dp;
               port_index = host_offset mod dt_sharing_ratio dp;
               outside_ip = bswap32 (bswap32 (dt_outside_base dp) + outside_offset);
               port_start = (ucast (ucast (dt_port_range_start dp) + dt_ports_per_host dp * port_index) :: u16);
               port_end = (ucast ((ucast port_start :: u32) + dt_ports_per_host dp - 1) :: u16) in
           Some (Some (outside_ip, port_start, port_end)))"

definition cgnat_det_reverse :: "cgnat_det_params_t \<Rightarrow> u32 \<Rightarrow> u16 \<Rightarrow> u32 option option" where
  "cgnat_det_reverse dp outside_ip port =
     (let outside_offset = bswap32 outside_ip - bswap32 (dt_outside_base dp) in
      if dt_outside_count dp \<le> outside_offset then Some None
      else if port < dt_port_range_start dp \<or> dt_port_range_end dp < port then Some None
      else if dt_ports_per_host dp = 0 then None
      else let port_offset = (ucast port - ucast (dt_port_range_start dp)) div dt_ports_per_host dp;
               host_offset = outside_offset * dt_sharing_ratio dp + port_offset in
           if dt_inside_count dp \<le> host_offset then Some None
           else Some (Some (bswap32 (bswap32 (dt_inside_base dp) + host_offset))))"

definition det_outside_covers :: "u32 \<Rightarrow> cgnat_det_params_t \<Rightarrow> bool" where
  "det_outside_covers outside_ip dp \<longleftrightarrow>
     bswap32 outside_ip - bswap32 (dt_outside_base dp) < dt_outside_count dp"

definition cgnat_pool_for_outside_ip :: "cgnat_pool_t pool \<Rightarrow> u32 \<Rightarrow> u32 option" where
  "cgnat_pool_for_outside_ip pools outside_ip =
     find (\<lambda>i. case pool_at pools i of None \<Rightarrow> False
             | Some pool \<Rightarrow> pl_mode pool = CGNAT_POOL_MODE_DETERMINISTIC \<and>
                 (\<exists>dp \<in> set (pl_det_params pool). det_outside_covers outside_ip dp))
       (pool_indices pools)"

section \<open>The parameters are well formed\<close>

definition det_wf :: "cgnat_det_params_t \<Rightarrow> bool" where
  "det_wf dp \<longleftrightarrow> dt_port_range_start dp \<le> dt_port_range_end dp \<and>
     0 < unat (dt_sharing_ratio dp) \<and> 0 < unat (dt_ports_per_host dp) \<and>
     unat (dt_sharing_ratio dp) * unat (dt_ports_per_host dp)
       \<le> unat (dt_port_range_end dp) - unat (dt_port_range_start dp) + 1 \<and>
     unat (dt_inside_count dp) \<le> unat (dt_outside_count dp) * unat (dt_sharing_ratio dp)"

lemma unat_prefix_count:
  assumes "0 < len" "len \<le> 32"
  shows "unat (prefix_count len) = 2 ^ (32 - unat len)"
proof -
  have "unat len \<noteq> 0" using assms(1) by (simp add: word_less_nat_alt)
  moreover have "unat len \<le> 32" using assms(2) by (simp add: word_le_nat_alt)
  ultimately have "(2 :: nat) ^ (32 - unat len) < 2 ^ 32" by (intro power_strict_increasing) auto
  then have "take_bit 32 (push_bit (32 - unat len) (1 :: nat)) = 2 ^ (32 - unat len)"
    by (simp only: push_bit_eq_mult mult_1 take_bit_nat_eq_self)
  then show ?thesis
    unfolding prefix_count_def unsigned_push_bit_eq by simp
qed

lemma usable_ports:
  assumes "s \<le> e"
  shows "unat (ucast (e :: u16) - ucast (s :: u16) + 1 :: u32) = unat e - unat s + 1"
proof -
  have 1: "unat (ucast e :: u32) = unat e" "unat (ucast s :: u32) = unat s"
    by (simp_all add: unat_ucast_up)
  have le: "unat s \<le> unat e" using assms by (simp add: word_le_nat_alt)
  have "unat (ucast e - ucast s :: u32) = unat e - unat s"
    using unat_sub_exact [of "ucast s :: u32" "ucast e"] le by (simp add: word_le_nat_alt 1)
  moreover have "unat e - unat s < 65536" using less_imp_diff_less [OF unat_u16_less] by blast
  ultimately show ?thesis using unat_add_exact [of "ucast e - ucast s :: u32" 1] by simp
qed

lemma det_params_wf:
  assumes "0 < fp_len ipfx" "fp_len ipfx \<le> 32" "0 < fp_len opfx" "fp_len opfx \<le> 32"
    and "pl_port_range_start pool \<le> pl_port_range_end pool"
    and dp: "dp = det_params_outside opfx (det_params_new pool ipfx)" and "dt_ports_per_host dp \<noteq> 0"
  shows "det_wf dp"
proof -
  let ?i = "prefix_count (fp_len ipfx)" and ?o = "prefix_count (fp_len opfx)"
  let ?u = "ucast (pl_port_range_end pool) - ucast (pl_port_range_start pool) + 1 :: u32"
  note ci = unat_prefix_count [OF assms(1,2)] and co = unat_prefix_count [OF assms(3,4)]
  let ?r = "if ?i div ?o = 0 then 1 else ?i div ?o"
  have f: "dt_sharing_ratio dp = ?r" "dt_ports_per_host dp = ?u div ?r" "dt_inside_count dp = ?i"
    "dt_outside_count dp = ?o" "dt_port_range_start dp = pl_port_range_start pool"
    "dt_port_range_end dp = pl_port_range_end pool"
    unfolding dp by (simp_all add: det_params_outside_def det_params_new_def Let_def)
  have r0: "0 < unat ?r" by (simp add: unat_gt_0)
  have "unat ?r * unat (?u div ?r) \<le> unat ?u" by (simp only: unat_div) (rule times_div_less_eq_dividend)
  moreover have "unat ?i \<le> unat ?o * unat ?r"
  proof (cases "?i div ?o = 0")
    case True
    then have "unat ?i div unat ?o = 0" by (metis unat_div unat_0)
    then have "unat ?i < unat ?o" using co by (simp add: div_eq_0_iff)
    with True show ?thesis by simp
  next
    case False
    let ?a = "32 - unat (fp_len ipfx)" and ?b = "32 - unat (fp_len opfx)"
    have "unat ?i div unat ?o \<noteq> 0" using False by (metis unat_div unat_eq_zero)
    then have "?b \<le> ?a" unfolding ci co by (metis div_less not_le power_strict_increasing one_less_numeral_iff semiring_norm(76))
    then have "unat ?o dvd unat ?i" unfolding ci co by (rule le_imp_power_dvd)
    then have "unat ?o * (unat ?i div unat ?o) = unat ?i" by simp
    with False show ?thesis by (simp add: unat_div)
  qed
  moreover have "0 < unat (?u div ?r)" using assms(7) f(2) by (simp add: unat_gt_0)
  ultimately show ?thesis
    unfolding det_wf_def f using assms(5) r0 usable_ports [OF assms(5)] by simp
qed

section \<open>The round trip\<close>

lemma det_split:
  assumes "det_wf dp" and "unat h < unat (dt_inside_count dp)"
  defines "r \<equiv> unat (dt_sharing_ratio dp)" and "p \<equiv> unat (dt_ports_per_host dp)"
    and "s \<equiv> unat (dt_port_range_start dp)" and "e \<equiv> unat (dt_port_range_end dp)"
  shows "unat h div r < unat (dt_outside_count dp)" "p * (unat h mod r) + p \<le> e - s + 1" "s \<le> e" "0 < r" "0 < p"
proof -
  note w = assms(1) [unfolded det_wf_def, folded r_def p_def s_def e_def]
  show "0 < r" "0 < p" using w by simp_all
  show "s \<le> e" using w by (simp add: word_le_nat_alt s_def e_def)
  have "unat h < unat (dt_outside_count dp) * r" using assms(2) w by linarith
  then show "unat h div r < unat (dt_outside_count dp)" by (simp add: less_mult_imp_div_less)
  have "unat h mod r + 1 \<le> r" using \<open>0 < r\<close> by (simp add: Suc_leI)
  then have "p * (unat h mod r + 1) \<le> p * r" by (rule mult_le_mono2)
  then show "p * (unat h mod r) + p \<le> e - s + 1" using w by (simp add: algebra_simps)
qed

lemma det_forward_value:
  assumes wf: "det_wf dp" and h: "bswap32 ip - bswap32 (dt_inside_base dp) = h" "h < dt_inside_count dp"
  obtains o' s e where "cgnat_det_forward dp ip = Some (Some (o', s, e))"
    and "bswap32 o' - bswap32 (dt_outside_base dp) = h div dt_sharing_ratio dp"
    and "unat s = unat (dt_port_range_start dp) + unat (dt_ports_per_host dp) * (unat h mod unat (dt_sharing_ratio dp))"
    and "unat e = unat s + unat (dt_ports_per_host dp) - 1"
    and "dt_port_range_start dp \<le> s" "s \<le> e" "e \<le> dt_port_range_end dp"
proof -
  let ?r = "dt_sharing_ratio dp" and ?p = "dt_ports_per_host dp"
  let ?st = "ucast (dt_port_range_start dp) + ?p * (h mod ?r) :: u32"
  let ?s = "ucast ?st :: u16"
  let ?en = "(ucast ?s :: u32) + ?p - 1"
  let ?e = "ucast ?en :: u16"
  have h': "unat h < unat (dt_inside_count dp)" using h(2) by (simp add: word_less_nat_alt)
  note d = det_split [OF wf h']
  note b = unat_u16_less [of "dt_port_range_end dp"]
  have lt: "unat (dt_port_range_start dp) + unat ?p * (unat h mod unat ?r) + unat ?p \<le> 65536"
    using d(2,3) b by linarith
  then have m: "unat (?p * (h mod ?r)) = unat ?p * (unat h mod unat ?r)"
    using unat_mult_exact [of ?p "h mod ?r"] by (simp add: unat_mod)
  have "unat ?st = unat (dt_port_range_start dp) + unat ?p * (unat h mod unat ?r)"
    using lt m unat_add_exact [of "ucast (dt_port_range_start dp) :: u32" "?p * (h mod ?r)"]
    by (simp add: unat_ucast_up)
  then have s: "unat ?s = unat (dt_port_range_start dp) + unat ?p * (unat h mod unat ?r)"
    using lt d(5) by (simp add: unat_ucast_mod)
  have s1: "unat (ucast ?s + ?p :: u32) = unat ?s + unat ?p"
    using lt s unat_add_exact [of "ucast ?s :: u32" ?p] by (simp add: unat_ucast_up)
  then have "unat ?en = unat ?s + unat ?p - 1"
    using d unat_sub_exact [of 1 "ucast ?s + ?p :: u32"] by (simp add: word_le_nat_alt)
  then have e: "unat ?e = unat ?s + unat ?p - 1" using lt d(5) s by (simp add: unat_ucast_mod)
  have r0: "?r \<noteq> 0" using wf by (auto simp: det_wf_def)
  show thesis
  proof (rule that)
    show "cgnat_det_forward dp ip =
        Some (Some (bswap32 (bswap32 (dt_outside_base dp) + h div ?r), ?s, ?e))"
      using h r0 by (simp add: cgnat_det_forward_def Let_def not_le)
    show "bswap32 (bswap32 (bswap32 (dt_outside_base dp) + h div ?r)) - bswap32 (dt_outside_base dp) = h div ?r"
      by simp
    show "dt_port_range_start dp \<le> ?s" "?s \<le> ?e" "?e \<le> dt_port_range_end dp"
      using d s e by (simp_all add: word_le_nat_alt)
  qed (fact s e)+
qed

lemma det_forward_block:
  assumes "det_wf dp" and f: "cgnat_det_forward dp ip = Some (Some (o', s, e))"
  defines "h \<equiv> bswap32 ip - bswap32 (dt_inside_base dp)"
  shows "h < dt_inside_count dp" and "bswap32 o' - bswap32 (dt_outside_base dp) = h div dt_sharing_ratio dp"
    and "unat s = unat (dt_port_range_start dp) + unat (dt_ports_per_host dp) * (unat h mod unat (dt_sharing_ratio dp))"
    and "unat e = unat s + unat (dt_ports_per_host dp) - 1"
    and "dt_port_range_start dp \<le> s" and "s \<le> e" and "e \<le> dt_port_range_end dp"
proof -
  show h: "h < dt_inside_count dp"
    using f by (auto simp: cgnat_det_forward_def Let_def h_def not_le split: if_splits)
  obtain o'' s' e' where v: "cgnat_det_forward dp ip = Some (Some (o'', s', e'))"
    "bswap32 o'' - bswap32 (dt_outside_base dp) = h div dt_sharing_ratio dp"
    "unat s' = unat (dt_port_range_start dp) + unat (dt_ports_per_host dp) * (unat h mod unat (dt_sharing_ratio dp))"
    "unat e' = unat s' + unat (dt_ports_per_host dp) - 1"
    "dt_port_range_start dp \<le> s'" "s' \<le> e'" "e' \<le> dt_port_range_end dp"
    using det_forward_value [OF assms(1) h_def [THEN meta_eq_to_obj_eq, symmetric] h] by blast
  from v(1) f have "o'' = o'" "s' = s" "e' = e" by simp_all
  with v show "bswap32 o' - bswap32 (dt_outside_base dp) = h div dt_sharing_ratio dp"
    "unat s = unat (dt_port_range_start dp) + unat (dt_ports_per_host dp) * (unat h mod unat (dt_sharing_ratio dp))"
    "unat e = unat s + unat (dt_ports_per_host dp) - 1"
    "dt_port_range_start dp \<le> s" "s \<le> e" "e \<le> dt_port_range_end dp" by simp_all
qed

text \<open>Every port of a subscriber's block leads back to the subscriber.\<close>

lemma det_reverse_forward:
  assumes wf: "det_wf dp" and f: "cgnat_det_forward dp ip = Some (Some (o', s, e))"
    and port: "s \<le> port" "port \<le> e"
  shows "cgnat_det_reverse dp o' port = Some (Some ip)"
proof -
  let ?r = "dt_sharing_ratio dp" and ?p = "dt_ports_per_host dp"
  define h where "h = bswap32 ip - bswap32 (dt_inside_base dp)"
  note v = det_forward_block [OF wf f, folded h_def]
  have h': "unat h < unat (dt_inside_count dp)" using v(1) by (simp add: word_less_nat_alt)
  note d = det_split [OF wf h']
  have po: "unat (ucast port - ucast (dt_port_range_start dp) :: u32) = unat port - unat (dt_port_range_start dp)"
    using unat_sub_exact [of "ucast (dt_port_range_start dp) :: u32" "ucast port"] order_trans [OF v(5) port(1)]
    by (simp add: word_le_nat_alt unat_ucast_up)
  let ?q = "unat port - unat (dt_port_range_start dp)"
  have "unat ?p * (unat h mod unat ?r) \<le> ?q" "?q < unat ?p * (unat h mod unat ?r) + unat ?p"
    using v port d(5) by (simp_all add: word_le_nat_alt)
  then have q: "?q div unat ?p = unat h mod unat ?r"
    by (intro div_nat_eqI) (simp_all add: mult.commute)
  have 1: "(ucast port - ucast (dt_port_range_start dp)) div ?p = h mod ?r"
    unfolding word_unat_eq_iff unat_div unat_mod po by (rule q)
  have 2: "h div ?r * ?r + h mod ?r = h" by (metis word_mod_div_equality)
  have "h div ?r < dt_outside_count dp" using d(1) by (simp add: word_less_nat_alt unat_div)
  moreover have "\<not> port < dt_port_range_start dp" "\<not> dt_port_range_end dp < port"
    using v port by (meson not_less order_trans)+
  moreover have "?p \<noteq> 0" using d(5) by auto
  ultimately show ?thesis
    using v(1) by (simp add: cgnat_det_reverse_def Let_def v(2) 1 2 not_le) (simp add: h_def)
qed

lemma det_blocks_disjoint:
  assumes wf: "det_wf dp" and 1: "cgnat_det_forward dp ip1 = Some (Some (o', s1, e1))"
    and 2: "cgnat_det_forward dp ip2 = Some (Some (o', s2, e2))" and "ip1 \<noteq> ip2"
  shows "e1 < s2 \<or> e2 < s1"
proof (rule ccontr)
  assume n: "\<not> ?thesis"
  note le = det_forward_block(6) [OF wf 1] det_forward_block(6) [OF wf 2]
  define p where "p = max s1 s2"
  from n le have "s1 \<le> p" "p \<le> e1" "s2 \<le> p" "p \<le> e2" by (auto simp: p_def not_less max_def)
  with det_reverse_forward [OF wf 1] det_reverse_forward [OF wf 2] have "Some (Some ip1) = Some (Some ip2)" by metis
  with assms(4) show False by simp
qed

end
