(* ===== verification/Cgnat_Session.thy ===== *)
theory Cgnat_Session
  imports Cgnat_Types Intrusive_List
begin

text \<open>
  The session table of the NAT plugin (osvbng_cgnat_session.c): keys, lookups, the reference-counted
  fragment rewrite records, the port allocator of a block, the checksum deltas, session creation and
  deletion and the expiry walk.

  vnet's checksum arithmetic is a parameter (\<open>csum_ext\<close>).  The index a \<^verbatim>\<open>pool_get\<close>
  returns is an input.  Both pools are fixed-size: vppinfra aborts the process when a
  \<^verbatim>\<open>pool_get\<close> finds such a pool full, which is the \<open>None\<close> of an operation that
  can reach it.  A read of the clock inside an operation is the same \<open>now\<close> throughout it.
\<close>

record csum_ext =
  ip_csum_add_even :: "u64 \<Rightarrow> u64 \<Rightarrow> u64"
  ip_csum_sub_even :: "u64 \<Rightarrow> u64 \<Rightarrow> u64"
  ip_csum_fold :: "u64 \<Rightarrow> u16"

section \<open>Keys and lookups\<close>

definition cgnat_session_make_key :: "u32 \<Rightarrow> u32 \<Rightarrow> u16 \<Rightarrow> u16 \<Rightarrow> u8 \<Rightarrow> u32 \<Rightarrow> cgnat_session_key_t" where
  "cgnat_session_make_key src_ip dst_ip src_port dst_port proto fib_index =
     \<lparr>k_src_ip = src_ip, k_dst_ip = dst_ip, k_src_port = src_port, k_dst_port = dst_port,
      k_proto = proto, k_fib_index_lo16 = ucast fib_index\<rparr>"

definition cgnat_frag_make_key :: "u32 \<Rightarrow> u32 \<Rightarrow> u8 \<Rightarrow> u32 \<Rightarrow> cgnat_session_key_t" where
  "cgnat_frag_make_key saddr daddr proto fib_index =
     \<lparr>k_src_ip = saddr, k_dst_ip = daddr, k_src_port = 0, k_dst_port = 0,
      k_proto = proto, k_fib_index_lo16 = ucast fib_index\<rparr>"

definition flow_key :: "cgnat_flow_t \<Rightarrow> cgnat_session_key_t" where
  "flow_key f = cgnat_session_make_key (fl_saddr f) (fl_daddr f) (fl_sport f) (fl_dport f) (fl_proto f) (fl_fib_index f)"

definition cgnat_frag_rewrite_lookup :: "cgnat_main_t \<Rightarrow> u32 \<Rightarrow> u32 \<Rightarrow> u8 \<Rightarrow> u32 \<Rightarrow> u32 option" where
  "cgnat_frag_rewrite_lookup cm saddr daddr proto fib_index =
     cm_frag_aux cm (cgnat_frag_make_key saddr daddr proto fib_index)"

definition cgnat_session_lookup_in2out ::
  "cgnat_main_t \<Rightarrow> u32 \<Rightarrow> u32 \<Rightarrow> u16 \<Rightarrow> u16 \<Rightarrow> u8 \<Rightarrow> u32 \<Rightarrow> u32 option"
where
  "cgnat_session_lookup_in2out cm src_ip dst_ip src_port dst_port proto fib_index =
     cm_session_table_in2out cm (cgnat_session_make_key src_ip dst_ip src_port dst_port proto fib_index)"

definition cgnat_session_lookup_out2in ::
  "cgnat_main_t \<Rightarrow> u32 \<Rightarrow> u32 \<Rightarrow> u16 \<Rightarrow> u16 \<Rightarrow> u8 \<Rightarrow> u32 \<Rightarrow> u32 option"
where
  "cgnat_session_lookup_out2in cm dst_ip src_ip dst_port src_port proto fib_index =
     cm_session_table_out2in cm (cgnat_session_make_key dst_ip src_ip dst_port src_port proto fib_index)"

section \<open>Fragment rewrite records\<close>

definition frag_record :: "csum_ext \<Rightarrow> u32 \<Rightarrow> u32 \<Rightarrow> u32 \<Rightarrow> u32 \<Rightarrow> cgnat_frag_rewrite_t" where
  "frag_record x inside_ip outside_ip inside_fib outside_fib =
     \<lparr>fr_l3_csum_delta_i2o = ip_csum_add_even x (ip_csum_sub_even x 0 (ucast outside_ip)) (ucast inside_ip),
      fr_l3_csum_delta_o2i = ip_csum_add_even x (ip_csum_sub_even x 0 (ucast inside_ip)) (ucast outside_ip),
      fr_inside_ip = inside_ip, fr_outside_ip = outside_ip,
      fr_inside_fib_index = inside_fib, fr_outside_fib_index = outside_fib, fr_refcount = 1\<rparr>"

definition cgnat_frag_rewrite_acquire ::
  "csum_ext \<Rightarrow> u32 \<Rightarrow> u32 \<Rightarrow> u32 \<Rightarrow> u32 \<Rightarrow> u8 \<Rightarrow> u32 \<Rightarrow> u32 \<Rightarrow> cgnat_main_t \<Rightarrow> (u32 \<times> cgnat_main_t) option"
where
  "cgnat_frag_rewrite_acquire x fi inside_ip outside_ip remote_ip proto inside_fib outside_fib cm =
     (case cgnat_frag_rewrite_lookup cm inside_ip remote_ip proto inside_fib of
        Some r \<Rightarrow> Some (r, cm\<lparr>cm_frag_rewrite_pool :=
          pool_upd r (\<lambda>f. f\<lparr>fr_refcount := fr_refcount f + 1\<rparr>) (cm_frag_rewrite_pool cm)\<rparr>)
      | None \<Rightarrow>
          if CGNAT_MAX_FRAG_REWRITES \<le> pool_elts (cm_frag_rewrite_pool cm) then None
          else Some (fi, cm\<lparr>cm_frag_rewrite_pool :=
                 pool_get_put fi (frag_record x inside_ip outside_ip inside_fib outside_fib) (cm_frag_rewrite_pool cm),
               cm_frag_aux := (cm_frag_aux cm)
                 (cgnat_frag_make_key inside_ip remote_ip proto inside_fib \<mapsto> fi,
                  cgnat_frag_make_key remote_ip outside_ip proto outside_fib \<mapsto> fi)\<rparr>))"

definition cgnat_frag_rewrite_release :: "u32 \<Rightarrow> u32 \<Rightarrow> u8 \<Rightarrow> cgnat_main_t \<Rightarrow> cgnat_main_t" where
  "cgnat_frag_rewrite_release frag_rewrite_index remote_ip proto cm =
     (case pool_at (cm_frag_rewrite_pool cm) frag_rewrite_index of
        None \<Rightarrow> cm
      | Some r \<Rightarrow>
          if 1 < fr_refcount r then
            cm\<lparr>cm_frag_rewrite_pool :=
              pool_upd frag_rewrite_index (\<lambda>f. f\<lparr>fr_refcount := fr_refcount f - 1\<rparr>) (cm_frag_rewrite_pool cm)\<rparr>
          else cm\<lparr>cm_frag_aux := (cm_frag_aux cm)
                  (cgnat_frag_make_key (fr_inside_ip r) remote_ip proto (fr_inside_fib_index r) := None,
                   cgnat_frag_make_key remote_ip (fr_outside_ip r) proto (fr_outside_fib_index r) := None),
                cm_frag_rewrite_pool := pool_put frag_rewrite_index (cm_frag_rewrite_pool cm)\<rparr>)"

section \<open>The ports of a block\<close>

definition block_size :: "cgnat_mapping_t \<Rightarrow> u32" where
  "block_size m = ucast (mp_port_block_end m) - ucast (mp_port_block_start m) + 1"

definition port_offset :: "cgnat_mapping_t \<Rightarrow> u16 \<Rightarrow> u32" where
  "port_offset m port = ucast port - ucast (mp_port_block_start m)"

definition port_next :: "cgnat_mapping_t \<Rightarrow> u16 \<Rightarrow> u16" where
  "port_next m port =
     (let next = ucast port + (1 :: u32) in
      if ucast (mp_port_block_end m) < next then mp_port_block_start m else ucast next)"

definition port_cooling :: "cgnat_mapping_t \<Rightarrow> real \<Rightarrow> u16 \<Rightarrow> bool" where
  "port_cooling m now port \<longleftrightarrow>
     unat (port_offset m port) < length (mp_port_reuse_timestamps m) \<and>
     (let ts = mp_port_reuse_timestamps m ! unat (port_offset m port) in 0 < ts \<and> now - ts < 120)"

fun port_alloc_loop :: "nat \<Rightarrow> real \<Rightarrow> cgnat_mapping_t \<Rightarrow> u16 \<times> cgnat_mapping_t" where
  "port_alloc_loop 0 now m = (0, m)"
| "port_alloc_loop (Suc n) now m =
     (let port = mp_next_port m; m' = m\<lparr>mp_next_port := port_next m port\<rparr> in
      if port_cooling m now port then port_alloc_loop n now m' else (port, m'))"

definition cgnat_port_alloc :: "cgnat_mapping_t \<Rightarrow> real \<Rightarrow> u16 \<times> cgnat_mapping_t" where
  "cgnat_port_alloc m now = port_alloc_loop (unat (block_size m)) now m"

definition cgnat_port_free :: "real \<Rightarrow> u16 \<Rightarrow> cgnat_mapping_t \<Rightarrow> cgnat_mapping_t" where
  "cgnat_port_free now port m =
     (if unat (port_offset m port) < length (mp_port_reuse_timestamps m)
      then m\<lparr>mp_port_reuse_timestamps := (mp_port_reuse_timestamps m)[unat (port_offset m port) := now]\<rparr>
      else m)"

section \<open>Checksum deltas\<close>

definition cgnat_flow_csum_calc ::
  "csum_ext \<Rightarrow> u32 \<Rightarrow> u32 \<Rightarrow> u16 \<Rightarrow> u16 \<Rightarrow> bool \<Rightarrow> cgnat_flow_t \<Rightarrow> cgnat_flow_t"
where
  "cgnat_flow_csum_calc x old_addr new_addr old_port new_port is_l4_pseudohdr f =
     (let l3 = ip_csum_add_even x (ip_csum_sub_even x 0 (ucast new_addr)) (ucast old_addr);
          l4 = (if is_l4_pseudohdr then l3 else 0) in
      f\<lparr>fl_l3_csum_delta := l3,
        fl_l4_csum_delta := ip_csum_add_even x (ip_csum_sub_even x l4 (ucast new_port)) (ucast old_port)\<rparr>)"

section \<open>Session creation\<close>

text \<open>The two flow records of a new session, checksum deltas included.\<close>

definition session_i2o :: "csum_ext \<Rightarrow> cgnat_mapping_t \<Rightarrow> u32 \<Rightarrow> u32 \<Rightarrow> u16 \<Rightarrow> u8 \<Rightarrow> u16 \<Rightarrow> u16 \<Rightarrow> cgnat_flow_t" where
  "session_i2o x mapping out_fib remote_ip remote_port proto outside_port_n inside_port =
     (let i2o_dport = (if proto = IP_PROTOCOL_ICMP then inside_port else remote_port);
          is_pseudo = (proto = IP_PROTOCOL_TCP \<or> proto = IP_PROTOCOL_UDP) in
      cgnat_flow_csum_calc x (mp_inside_ip mapping) (mp_outside_ip mapping) inside_port outside_port_n is_pseudo
        \<lparr>fl_l3_csum_delta = 0, fl_l4_csum_delta = 0,
         fl_saddr = mp_inside_ip mapping, fl_daddr = remote_ip,
         fl_rewrite_saddr = mp_outside_ip mapping, fl_rewrite_daddr = remote_ip,
         fl_fib_index = mp_inside_fib_index mapping, fl_rewrite_fib_index = out_fib,
         fl_sport = inside_port, fl_dport = i2o_dport,
         fl_rewrite_sport = outside_port_n, fl_rewrite_dport = i2o_dport, fl_proto = proto\<rparr>)"

definition session_o2i :: "csum_ext \<Rightarrow> cgnat_mapping_t \<Rightarrow> u32 \<Rightarrow> u32 \<Rightarrow> u16 \<Rightarrow> u8 \<Rightarrow> u16 \<Rightarrow> u16 \<Rightarrow> cgnat_flow_t" where
  "session_o2i x mapping out_fib remote_ip remote_port proto outside_port_n inside_port =
     (let o2i_dport = (if proto = IP_PROTOCOL_ICMP then outside_port_n else remote_port);
          is_pseudo = (proto = IP_PROTOCOL_TCP \<or> proto = IP_PROTOCOL_UDP) in
      cgnat_flow_csum_calc x (mp_outside_ip mapping) (mp_inside_ip mapping) outside_port_n inside_port is_pseudo
        \<lparr>fl_l3_csum_delta = 0, fl_l4_csum_delta = 0,
         fl_saddr = mp_outside_ip mapping, fl_daddr = remote_ip,
         fl_rewrite_saddr = mp_outside_ip mapping, fl_rewrite_daddr = mp_inside_ip mapping,
         fl_fib_index = out_fib, fl_rewrite_fib_index = mp_inside_fib_index mapping,
         fl_sport = outside_port_n, fl_dport = o2i_dport,
         fl_rewrite_sport = outside_port_n, fl_rewrite_dport = inside_port, fl_proto = proto\<rparr>)"

definition new_session_timeout :: "cgnat_pool_t \<Rightarrow> u8 \<Rightarrow> u32" where
  "new_session_timeout pool proto =
     (if proto = IP_PROTOCOL_TCP then cgnat_session_timeout_for_tcp pool CGNAT_TCP_STATE_CLOSED
      else cgnat_session_timeout pool (cgnat_proto_from_ip proto))"

text \<open>Linking at the head of the mapping's session list.\<close>

definition session_link :: "u32 \<Rightarrow> u32 \<Rightarrow> cgnat_main_t \<Rightarrow> cgnat_main_t" where
  "session_link mi si cm =
     (case pool_at (cm_mappings cm) mi of
        None \<Rightarrow> cm
      | Some m \<Rightarrow>
          let head = mp_sessions_head m;
              ss1 = pool_upd si (\<lambda>s. s\<lparr>ss_mapping_prev := nil32, ss_mapping_next := head\<rparr>) (cm_sessions cm);
              ss2 = (if head \<noteq> nil32 then pool_upd head (\<lambda>s. s\<lparr>ss_mapping_prev := si\<rparr>) ss1 else ss1) in
          cm\<lparr>cm_sessions := ss2,
             cm_mappings := pool_upd mi (\<lambda>m. m\<lparr>mp_sessions_head := si\<rparr>) (cm_mappings cm)\<rparr>)"

definition session_install :: "u32 \<Rightarrow> cgnat_session_t \<Rightarrow> cgnat_main_t \<Rightarrow> cgnat_main_t" where
  "session_install si s cm =
     cm\<lparr>cm_sessions := pool_get_put si s (cm_sessions cm),
        cm_session_table_in2out := (cm_session_table_in2out cm)(flow_key (ss_i2o s) \<mapsto> si),
        cm_session_table_out2in := (cm_session_table_out2in cm)(flow_key (ss_o2i s) \<mapsto> si)\<rparr>"

text \<open>The result: \<open>None\<close> when the process aborts, \<open>Some (None, cm)\<close> when the session is
  refused (the NULL return), \<open>Some (Some si, cm)\<close> otherwise.  The mapping is given by its index.\<close>

definition cgnat_session_create ::
  "csum_ext \<Rightarrow> u32 \<Rightarrow> u32 \<Rightarrow> u32 \<Rightarrow> u32 \<Rightarrow> u16 \<Rightarrow> u8 \<Rightarrow> u16 \<Rightarrow> u16 \<Rightarrow> real \<Rightarrow> cgnat_main_t \<Rightarrow>
     (u32 option \<times> cgnat_main_t) option"
where
  "cgnat_session_create x si fi mi remote_ip remote_port proto outside_port inside_port now cm =
     (case pool_at (cm_mappings cm) mi of None \<Rightarrow> Some (None, cm) | Some mapping \<Rightarrow>
      case pool_at (cm_pools cm) (mp_pool_index mapping) of None \<Rightarrow> Some (None, cm) | Some pool \<Rightarrow>
      if pl_max_sessions_per_sub pool \<le> mp_session_count mapping then Some (None, cm)
      else if CGNAT_MAX_SESSIONS \<le> pool_elts (cm_sessions cm) then Some (None, cm)
      else
        let cm1 = cm\<lparr>cm_mappings := pool_upd mi (\<lambda>m. m\<lparr>mp_session_count := mp_session_count m + 1\<rparr>) (cm_mappings cm)\<rparr>;
            outside_port_n = bswap16 outside_port;
            out_fib = (if pl_outside_fib_valid pool then pl_outside_fib_index pool else 0) in
        case cgnat_frag_rewrite_acquire x fi (mp_inside_ip mapping) (mp_outside_ip mapping) remote_ip proto
               (mp_inside_fib_index mapping) out_fib cm1 of
          None \<Rightarrow> None
        | Some (fri, cm2) \<Rightarrow>
            let s = \<lparr>ss_i2o = session_i2o x mapping out_fib remote_ip remote_port proto outside_port_n inside_port,
                     ss_tcp_state = CGNAT_TCP_STATE_CLOSED,
                     ss_o2i = session_o2i x mapping out_fib remote_ip remote_port proto outside_port_n inside_port,
                     ss_mapping_index = mi, ss_pool_index = mp_pool_index mapping,
                     ss_last_active = now, ss_total_pkts = 0, ss_total_bytes = 0,
                     ss_timeout = real (unat (new_session_timeout pool proto)),
                     ss_frag_rewrite_index = fri, ss_mapping_next = 0, ss_mapping_prev = 0,
                     ss_flags_i2o = 0, ss_flags_o2i = 0\<rparr> in
            Some (Some si, session_link mi si (session_install si s cm2)))"

section \<open>Session deletion\<close>

definition session_unlink :: "u32 \<Rightarrow> cgnat_session_t \<Rightarrow> cgnat_main_t \<Rightarrow> cgnat_main_t" where
  "session_unlink si s cm =
     (let cm1 = (if ss_mapping_prev s \<noteq> nil32
                 then cm\<lparr>cm_sessions := pool_upd (ss_mapping_prev s)
                        (\<lambda>t. t\<lparr>ss_mapping_next := ss_mapping_next s\<rparr>) (cm_sessions cm)\<rparr>
                 else cm\<lparr>cm_mappings := pool_upd (ss_mapping_index s)
                        (\<lambda>m. m\<lparr>mp_sessions_head := ss_mapping_next s\<rparr>) (cm_mappings cm)\<rparr>);
          ss = (if ss_mapping_next s \<noteq> nil32
                then pool_upd (ss_mapping_next s) (\<lambda>t. t\<lparr>ss_mapping_prev := ss_mapping_prev s\<rparr>) (cm_sessions cm1)
                else cm_sessions cm1) in
      cm1\<lparr>cm_sessions := pool_put si ss\<rparr>)"

definition count_dec :: "cgnat_mapping_t \<Rightarrow> cgnat_mapping_t" where
  "count_dec m = (if 0 < mp_session_count m then m\<lparr>mp_session_count := mp_session_count m - 1\<rparr> else m)"

definition cgnat_session_delete :: "real \<Rightarrow> u32 \<Rightarrow> cgnat_main_t \<Rightarrow> cgnat_main_t" where
  "cgnat_session_delete now si cm =
     (case pool_at (cm_sessions cm) si of None \<Rightarrow> cm | Some s \<Rightarrow>
        let cm1 = cm\<lparr>cm_session_table_in2out := (cm_session_table_in2out cm)(flow_key (ss_i2o s) := None),
                     cm_session_table_out2in := (cm_session_table_out2in cm)(flow_key (ss_o2i s) := None)\<rparr>;
            cm2 = (if \<not> cgnat_is_unk_proto (fl_proto (ss_i2o s))
                   then cm1\<lparr>cm_mappings := pool_upd (ss_mapping_index s)
                          (cgnat_port_free now (bswap16 (fl_rewrite_sport (ss_i2o s)))) (cm_mappings cm1)\<rparr>
                   else cm1);
            cm3 = cgnat_frag_rewrite_release (ss_frag_rewrite_index s) (fl_daddr (ss_i2o s)) (fl_proto (ss_i2o s)) cm2;
            cm4 = cm3\<lparr>cm_mappings := pool_upd (ss_mapping_index s) count_dec (cm_mappings cm3)\<rparr> in
        session_unlink si s cm4)"

section \<open>The expiry walk\<close>

text \<open>The walk collects the indices the in2out table holds, in the order of its buckets, which is the
  hash table's: \<open>table\<close> lists them.  A session named twice, or freed meanwhile, is skipped.\<close>

definition session_expired :: "real \<Rightarrow> cgnat_main_t \<Rightarrow> u32 \<Rightarrow> bool" where
  "session_expired now cm si = (case pool_at (cm_sessions cm) si of
     None \<Rightarrow> False
   | Some s \<Rightarrow> ss_timeout s < now - ss_last_active s)"

fun expire_delete :: "real \<Rightarrow> u32 list \<Rightarrow> cgnat_main_t \<Rightarrow> cgnat_main_t" where
  "expire_delete now [] cm = cm"
| "expire_delete now (si # sis) cm =
     expire_delete now sis (if pool_is_free_index (cm_sessions cm) si then cm else cgnat_session_delete now si cm)"

definition cgnat_session_expire_walk :: "real \<Rightarrow> u32 list \<Rightarrow> cgnat_main_t \<Rightarrow> cgnat_main_t" where
  "cgnat_session_expire_walk now table cm = expire_delete now (filter (session_expired now cm) table) cm"

section \<open>The port allocator is a cyclic first fit\<close>

definition block_wf :: "cgnat_mapping_t \<Rightarrow> bool" where
  "block_wf m \<longleftrightarrow> mp_port_block_start m \<le> mp_next_port m \<and> mp_next_port m \<le> mp_port_block_end m \<and>
     length (mp_port_reuse_timestamps m) = unat (mp_port_block_end m) - unat (mp_port_block_start m) + 1"

text \<open>The port \<open>k\<close> places after the cursor, cyclically.\<close>

definition block_port :: "cgnat_mapping_t \<Rightarrow> nat \<Rightarrow> u16" where
  "block_port m k =
     (let start = unat (mp_port_block_start m) in
      word_of_nat (start + (unat (mp_next_port m) - start + k) mod (unat (mp_port_block_end m) - start + 1)))"

lemma unat_block_size:
  "mp_port_block_start m \<le> mp_port_block_end m \<Longrightarrow>
     unat (block_size m) = unat (mp_port_block_end m) - unat (mp_port_block_start m) + 1"
proof -
  let ?s = "mp_port_block_start m" and ?e = "mp_port_block_end m"
  assume "?s \<le> ?e"
  then have le: "unat ?s \<le> unat ?e" by (simp add: word_le_nat_alt)
  have "unat (ucast ?e - ucast ?s :: u32) = unat ?e - unat ?s"
    using unat_sub_exact [of "ucast ?s :: u32" "ucast ?e"] le by (simp add: word_le_nat_alt unat_ucast_up)
  moreover have "unat ?e - unat ?s < 65536" using less_imp_diff_less [OF unat_u16_less] by blast
  ultimately show ?thesis
    using unat_add_exact [of "ucast ?e - ucast ?s :: u32" 1] by (simp add: block_size_def)
qed

lemma unat_port_offset:
  "mp_port_block_start m \<le> p \<Longrightarrow> unat (port_offset m p) = unat p - unat (mp_port_block_start m)"
  using unat_sub_exact [of "ucast (mp_port_block_start m) :: u32" "ucast p"]
  by (simp add: port_offset_def word_le_nat_alt unat_ucast_up)

lemma unat_block_port:
  assumes "block_wf m"
  shows "unat (block_port m k) = unat (mp_port_block_start m) +
     (unat (mp_next_port m) - unat (mp_port_block_start m) + k) mod
       (unat (mp_port_block_end m) - unat (mp_port_block_start m) + 1)"
proof -
  let ?s = "unat (mp_port_block_start m)" and ?e = "unat (mp_port_block_end m)"
  have "?s \<le> ?e" using assms unfolding block_wf_def word_le_nat_alt by linarith
  moreover have "(unat (mp_next_port m) - ?s + k) mod (?e - ?s + 1) < ?e - ?s + 1" by simp
  moreover have "?e < 65536" by simp
  ultimately have "?s + (unat (mp_next_port m) - ?s + k) mod (?e - ?s + 1) < 65536" by linarith
  then have "?s + (unat (mp_next_port m) - ?s + k) mod (?e - ?s + 1) < 2 ^ LENGTH(16)" by simp
  then show ?thesis
    unfolding block_port_def Let_def by (simp only: unsigned_of_nat of_nat_id take_bit_nat_eq_self)
qed

lemma block_port_in:
  assumes "block_wf m"
  shows "mp_port_block_start m \<le> block_port m k" "block_port m k \<le> mp_port_block_end m"
proof -
  let ?s = "unat (mp_port_block_start m)" and ?e = "unat (mp_port_block_end m)"
  have "?s \<le> ?e" using assms unfolding block_wf_def word_le_nat_alt by linarith
  moreover have "(unat (mp_next_port m) - ?s + k) mod (?e - ?s + 1) < ?e - ?s + 1" by simp
  ultimately show "mp_port_block_start m \<le> block_port m k" "block_port m k \<le> mp_port_block_end m"
    unfolding word_le_nat_alt unat_block_port [OF assms] by linarith+
qed

lemma unat_port_next:
  assumes "mp_port_block_start m \<le> p" "p \<le> mp_port_block_end m"
  shows "unat (port_next m p) = unat (mp_port_block_start m) +
     (unat p - unat (mp_port_block_start m) + 1) mod (unat (mp_port_block_end m) - unat (mp_port_block_start m) + 1)"
proof -
  let ?s = "unat (mp_port_block_start m)" and ?e = "unat (mp_port_block_end m)"
  have le: "?s \<le> unat p" "unat p \<le> ?e" using assms by (simp_all add: word_le_nat_alt)
  have n: "unat (ucast p + 1 :: u32) = unat p + 1"
    using unat_add_exact [of "ucast p :: u32" 1] by (simp add: unat_ucast_up less_trans [OF unat_u16_less])
  have c: "ucast (mp_port_block_end m) < (ucast p + 1 :: u32) \<longleftrightarrow> unat p = ?e"
    using le by (auto simp: word_less_nat_alt n unat_ucast_up)
  show ?thesis
  proof (cases "unat p = ?e")
    case True
    then show ?thesis using le by (simp add: port_next_def Let_def c)
  next
    case False
    then have lt: "unat p < ?e" using le by simp
    then have "unat p + 1 < 65536" using unat_u16_less [of "mp_port_block_end m"] by linarith
    then have "unat (ucast (ucast p + 1 :: u32) :: u16) = unat p + 1" by (simp add: unat_ucast_mod n)
    moreover have "unat p - ?s + 1 < ?e - ?s + 1" using le lt by linarith
    ultimately show ?thesis using False le by (simp add: port_next_def Let_def c)
  qed
qed

lemma block_port_0:
  assumes "block_wf m" shows "block_port m 0 = mp_next_port m"
proof -
  have "unat (mp_port_block_start m) \<le> unat (mp_next_port m)" "unat (mp_next_port m) \<le> unat (mp_port_block_end m)"
    using assms by (simp_all add: block_wf_def word_le_nat_alt)
  then show ?thesis unfolding word_unat_eq_iff unat_block_port [OF assms] by simp
qed

lemma block_port_cycle:
  assumes "block_wf m" shows "block_port m (unat (block_size m)) = mp_next_port m"
proof -
  have le: "unat (mp_port_block_start m) \<le> unat (mp_next_port m)" "unat (mp_next_port m) \<le> unat (mp_port_block_end m)"
    using assms by (simp_all add: block_wf_def word_le_nat_alt)
  then have "mp_port_block_start m \<le> mp_port_block_end m" by (simp add: word_le_nat_alt)
  then have b: "unat (block_size m) = unat (mp_port_block_end m) - unat (mp_port_block_start m) + 1"
    by (rule unat_block_size)
  show ?thesis using le unfolding word_unat_eq_iff unat_block_port [OF assms] b mod_add_self2 by simp
qed

lemma block_wf_advance:
  assumes "block_wf m" shows "block_wf (m\<lparr>mp_next_port := block_port m k\<rparr>)"
  using assms block_port_in [OF assms] by (simp add: block_wf_def)

lemma port_next_block_port:
  assumes "block_wf m" shows "port_next m (block_port m k) = block_port m (Suc k)"
  unfolding word_unat_eq_iff unat_port_next [OF block_port_in [OF assms]] unat_block_port [OF assms]
  by (simp add: mod_Suc_eq)

lemma block_port_advance:
  assumes "block_wf m"
  shows "block_port (m\<lparr>mp_next_port := block_port m j\<rparr>) k = block_port m (j + k)"
proof -
  have "(x mod n + k) mod n = (x + k) mod n" for x n :: nat by (rule mod_add_left_eq)
  then show ?thesis
    unfolding word_unat_eq_iff unat_block_port [OF block_wf_advance [OF assms]]
    by (simp add: unat_block_port [OF assms] add.assoc del: Suc_eq_plus1 add_Suc_right)
qed

lemma port_cooling_next [simp]:
  "port_cooling (m\<lparr>mp_next_port := q\<rparr>) = port_cooling m"
  by (simp add: fun_eq_iff port_cooling_def port_offset_def)

lemma port_next_next [simp]: "port_next (m\<lparr>mp_next_port := q\<rparr>) = port_next m"
  by (simp add: fun_eq_iff port_next_def Let_def)

lemma find_map: "find P (map f xs) = map_option f (find (P \<circ> f) xs)"
  by (induction xs) auto

lemma port_alloc_loop_first:
  assumes "block_wf m"
  shows "port_alloc_loop n now m = (case find (\<lambda>k. \<not> port_cooling m now (block_port m k)) [0..<n] of
       None \<Rightarrow> (0, m\<lparr>mp_next_port := block_port m n\<rparr>)
     | Some k \<Rightarrow> (block_port m k, m\<lparr>mp_next_port := block_port m (Suc k)\<rparr>))"
  using assms
proof (induction n arbitrary: m)
  case 0
  then show ?case by (simp add: block_port_0)
next
  case (Suc n)
  let ?m = "m\<lparr>mp_next_port := block_port m 1\<rparr>"
  have p: "mp_next_port m = block_port m 0" "port_next m (block_port m 0) = block_port m 1"
    using block_port_0 [OF Suc.prems] port_next_block_port [OF Suc.prems, of 0] by simp_all
  have s: "[0..<Suc n] = 0 # map Suc [0..<n]" by (simp add: upt_conv_Cons map_Suc_upt del: upt_Suc)
  have a: "block_port ?m k = block_port m (Suc k)" for k
    using block_port_advance [OF Suc.prems, of 1 k] by simp
  show ?case
  proof (cases "port_cooling m now (block_port m 0)")
    case False
    then show ?thesis unfolding s by (simp add: p)
  next
    case True
    then have "port_alloc_loop (Suc n) now m = port_alloc_loop n now ?m" by (simp add: p)
    also have "\<dots> = (case find (\<lambda>k. \<not> port_cooling m now (block_port m (Suc k))) [0..<n] of
       None \<Rightarrow> (0, m\<lparr>mp_next_port := block_port m (Suc n)\<rparr>)
     | Some k \<Rightarrow> (block_port m (Suc k), m\<lparr>mp_next_port := block_port m (Suc (Suc k))\<rparr>))"
      unfolding Suc.IH [OF block_wf_advance [OF Suc.prems, of 1]] port_cooling_next a
      by (simp split: option.split)
    finally show ?thesis unfolding s using True
      by (simp add: find_map comp_def split: option.split)
  qed
qed

text \<open>A port is found exactly when one of the block is not cooling down, and it is the next such one;
  with none, the cursor has gone once round.\<close>

lemma port_alloc_first_fit:
  assumes "block_wf m"
  shows "cgnat_port_alloc m now = (case find (\<lambda>k. \<not> port_cooling m now (block_port m k)) [0..<unat (block_size m)] of
       None \<Rightarrow> (0, m)
     | Some k \<Rightarrow> (block_port m k, m\<lparr>mp_next_port := block_port m (Suc k)\<rparr>))"
  unfolding cgnat_port_alloc_def port_alloc_loop_first [OF assms] block_port_cycle [OF assms]
  by (simp split: option.split)

lemma port_alloc_wf:
  assumes "block_wf m" and "cgnat_port_alloc m now = (p, m')"
  shows "block_wf m'" "m' = m\<lparr>mp_next_port := mp_next_port m'\<rparr>"
    and "p \<noteq> 0 \<Longrightarrow> mp_port_block_start m \<le> p \<and> p \<le> mp_port_block_end m \<and> \<not> port_cooling m now p"
  using assms(2) block_wf_advance [OF assms(1)] block_port_in [OF assms(1)] assms(1)
  unfolding port_alloc_first_fit [OF assms(1)]
  by (auto split: option.splits simp: find_Some_iff)

lemma port_free_wf: "block_wf m \<Longrightarrow> block_wf (cgnat_port_free now p m)"
  by (simp add: block_wf_def cgnat_port_free_def)

lemma port_free_fields [simp]:
  "mp_inside_ip (cgnat_port_free now p m) = mp_inside_ip m"
  "mp_outside_ip (cgnat_port_free now p m) = mp_outside_ip m"
  "mp_inside_vrf_id (cgnat_port_free now p m) = mp_inside_vrf_id m"
  "mp_inside_fib_index (cgnat_port_free now p m) = mp_inside_fib_index m"
  "mp_port_block_start (cgnat_port_free now p m) = mp_port_block_start m"
  "mp_port_block_end (cgnat_port_free now p m) = mp_port_block_end m"
  "mp_pool_index (cgnat_port_free now p m) = mp_pool_index m"
  "mp_sw_if_index (cgnat_port_free now p m) = mp_sw_if_index m"
  "mp_next_port (cgnat_port_free now p m) = mp_next_port m"
  "mp_session_count (cgnat_port_free now p m) = mp_session_count m"
  "mp_sessions_head (cgnat_port_free now p m) = mp_sessions_head m"
  by (simp_all add: cgnat_port_free_def)

text \<open>A released port is not handed out again within the cool-down.\<close>

lemma port_free_cools:
  assumes "block_wf m" and "mp_port_block_start m \<le> p" and "p \<le> mp_port_block_end m"
    and "0 < now" and "now' - now < 120"
  shows "port_cooling (cgnat_port_free now p m) now' p"
proof -
  have "unat (port_offset m p) < length (mp_port_reuse_timestamps m)"
    using assms(1,2,3) by (simp add: unat_port_offset block_wf_def word_le_nat_alt)
  moreover have "port_offset (cgnat_port_free now p m) p = port_offset m p" by (simp add: port_offset_def)
  ultimately show ?thesis using assms(4,5) by (simp add: port_cooling_def cgnat_port_free_def)
qed

end
