(* ===== verification/Cgnat_Inv.thy ===== *)
theory Cgnat_Inv
  imports Cgnat_Session
begin

text \<open>
  The invariant of the NAT state: every session belongs to a live mapping and carries its addresses
  and a port of its block, the session list of a mapping holds exactly its sessions and its counter
  counts them, the in2out table names exactly the live sessions, the inside table exactly the live
  mappings, and every mapping's pool is live.  This theory shows that the session operations keep it.
\<close>

section \<open>Views of the session pool\<close>

definition sess_nx :: "cgnat_session_t pool \<Rightarrow> u32 \<Rightarrow> u32" where
  "sess_nx ss i = (case pool_at ss i of None \<Rightarrow> nil32 | Some s \<Rightarrow> ss_mapping_next s)"

definition sess_pv :: "cgnat_session_t pool \<Rightarrow> u32 \<Rightarrow> u32" where
  "sess_pv ss i = (case pool_at ss i of None \<Rightarrow> nil32 | Some s \<Rightarrow> ss_mapping_prev s)"

text \<open>A session without its links.\<close>

definition bare :: "cgnat_session_t \<Rightarrow> cgnat_session_t" where
  "bare s = s\<lparr>ss_mapping_next := 0, ss_mapping_prev := 0\<rparr>"

definition sess_view :: "cgnat_session_t pool \<Rightarrow> u32 \<Rightarrow> cgnat_session_t option" where
  "sess_view ss i = map_option bare (pool_at ss i)"

lemma bare_fields [simp]:
  "ss_i2o (bare s) = ss_i2o s" "ss_o2i (bare s) = ss_o2i s" "ss_mapping_index (bare s) = ss_mapping_index s"
  "ss_pool_index (bare s) = ss_pool_index s" "ss_tcp_state (bare s) = ss_tcp_state s"
  "bare (s\<lparr>ss_mapping_next := a\<rparr>) = bare s" "bare (s\<lparr>ss_mapping_prev := a\<rparr>) = bare s"
  "ss_frag_rewrite_index (bare s) = ss_frag_rewrite_index s"
  by (simp_all add: bare_def)

lemma sess_view_Some:
  "sess_view ss i = Some t \<longleftrightarrow> (\<exists>s. pool_at ss i = Some s \<and> t = bare s)"
  by (auto simp: sess_view_def)

definition link_sessions :: "u32 \<Rightarrow> u32 \<Rightarrow> cgnat_session_t pool \<Rightarrow> cgnat_session_t pool" where
  "link_sessions si head ss =
     (let ss1 = pool_upd si (\<lambda>s. s\<lparr>ss_mapping_prev := nil32, ss_mapping_next := head\<rparr>) ss in
      if head \<noteq> nil32 then pool_upd head (\<lambda>s. s\<lparr>ss_mapping_prev := si\<rparr>) ss1 else ss1)"

definition unlink_sessions :: "u32 \<Rightarrow> u32 \<Rightarrow> u32 \<Rightarrow> cgnat_session_t pool \<Rightarrow> cgnat_session_t pool" where
  "unlink_sessions si p n ss =
     (let ss1 = (if p \<noteq> nil32 then pool_upd p (\<lambda>t. t\<lparr>ss_mapping_next := n\<rparr>) ss else ss);
          ss2 = (if n \<noteq> nil32 then pool_upd n (\<lambda>t. t\<lparr>ss_mapping_prev := p\<rparr>) ss1 else ss1) in
      pool_put si ss2)"

lemma link_views:
  fixes s :: cgnat_session_t
  assumes "pool_fresh ss si" and "h = nil32 \<or> pool_at ss h \<noteq> None"
  defines "ss' \<equiv> link_sessions si h (pool_get_put si s ss)"
  shows "sess_nx ss' = (sess_nx ss)(si := h)"
    and "sess_pv ss' = (if h = nil32 then (sess_pv ss)(si := nil32) else (sess_pv ss)(si := nil32, h := si))"
    and "sess_view ss' = (sess_view ss)(si \<mapsto> bare s)"
proof -
  have "h \<noteq> si \<or> h = nil32" using assms(1,2) by (auto simp: pool_fresh_def)
  with assms(1,2) show "sess_nx ss' = (sess_nx ss)(si := h)"
    "sess_pv ss' = (if h = nil32 then (sess_pv ss)(si := nil32) else (sess_pv ss)(si := nil32, h := si))"
    "sess_view ss' = (sess_view ss)(si \<mapsto> bare s)"
    unfolding ss'_def
    by (auto simp: fun_eq_iff link_sessions_def sess_nx_def sess_pv_def sess_view_def pool_simps Let_def bare_def
        split: option.split)
qed

lemma unlink_views:
  assumes "pool_at ss si = Some s" and "p = nil32 \<or> pool_at ss p \<noteq> None" and "n = nil32 \<or> pool_at ss n \<noteq> None"
    and "si \<noteq> nil32"
  defines "ss' \<equiv> unlink_sessions si p n ss"
  shows "sess_nx ss' = (if p = nil32 then sess_nx ss else (sess_nx ss)(p := n))(si := nil32)"
    and "sess_pv ss' = (if n = nil32 then sess_pv ss else (sess_pv ss)(n := p))(si := nil32)"
    and "sess_view ss' = (sess_view ss)(si := None)"
  using assms(1-4) unfolding ss'_def
  by (auto simp: fun_eq_iff unlink_sessions_def sess_nx_def sess_pv_def sess_view_def pool_simps Let_def bare_def
        option.map_comp comp_def split: option.split)

lemma link_small: "pool_small ss \<Longrightarrow> pool_small (link_sessions si h ss)"
  by (simp add: link_sessions_def pool_small_def Let_def)

lemma unlink_small: "pool_small ss \<Longrightarrow> pool_small (unlink_sessions si p n ss)"
  by (simp add: unlink_sessions_def pool_small_def Let_def)

lemma get_put_small: "pool_small ss \<Longrightarrow> pool_fresh ss i \<Longrightarrow> pool_small (pool_get_put i x ss)"
proof -
  assume s: "pool_small ss" and f: "pool_fresh ss i"
  have "unat i \<noteq> unat nil32" using f unfolding word_unat_eq_iff [symmetric] by (simp add: pool_fresh_def)
  then have "unat i < 4294967295" using unat_u32_less [of i] unat_nil32 by linarith
  with s f show "pool_small (pool_get_put i x ss)"
    by (simp add: pool_small_def length_pool_get_put pool_fresh_def)
qed

section \<open>The invariant\<close>

definition owns :: "cgnat_session_t pool \<Rightarrow> u32 \<Rightarrow> u32 set" where
  "owns ss mi = {si. \<exists>s. sess_view ss si = Some s \<and> ss_mapping_index s = mi}"

text \<open>The sessions of a mapping are its list, and they are counted.\<close>

definition list_ok :: "cgnat_session_t pool \<Rightarrow> u32 \<Rightarrow> u32 \<Rightarrow> u32 \<Rightarrow> bool" where
  "list_ok ss mi head count \<longleftrightarrow>
     (\<exists>xs. dll (sess_nx ss) (sess_pv ss) head (last (nil32 # xs)) xs \<and> set xs = owns ss mi \<and> unat count = length xs)"

definition mapping_ok :: "cgnat_pool_t pool \<Rightarrow> cgnat_session_t pool \<Rightarrow> u32 \<Rightarrow> cgnat_mapping_t \<Rightarrow> bool" where
  "mapping_ok pools ss mi m \<longleftrightarrow> block_wf m \<and> pool_at pools (mp_pool_index m) \<noteq> None \<and>
     list_ok ss mi (mp_sessions_head m) (mp_session_count m)"

text \<open>What a session carries of its mapping.\<close>

definition session_ok :: "cgnat_mapping_t \<Rightarrow> cgnat_session_t \<Rightarrow> bool" where
  "session_ok m s \<longleftrightarrow> ss_pool_index s = mp_pool_index m \<and>
     fl_saddr (ss_i2o s) = mp_inside_ip m \<and> fl_fib_index (ss_i2o s) = mp_inside_fib_index m \<and>
     fl_rewrite_saddr (ss_i2o s) = mp_outside_ip m \<and>
     fl_rewrite_daddr (ss_o2i s) = mp_inside_ip m \<and> fl_rewrite_fib_index (ss_o2i s) = mp_inside_fib_index m \<and>
     fl_saddr (ss_o2i s) = mp_outside_ip m \<and> fl_sport (ss_o2i s) = fl_rewrite_sport (ss_i2o s) \<and>
     fl_rewrite_dport (ss_o2i s) = fl_sport (ss_i2o s) \<and> fl_daddr (ss_o2i s) = fl_daddr (ss_i2o s) \<and>
     fl_proto (ss_o2i s) = fl_proto (ss_i2o s) \<and>
     (\<not> cgnat_is_unk_proto (fl_proto (ss_i2o s)) \<longrightarrow>
        mp_port_block_start m \<le> bswap16 (fl_rewrite_sport (ss_i2o s)) \<and>
        bswap16 (fl_rewrite_sport (ss_i2o s)) \<le> mp_port_block_end m)"

definition cg_inv :: "cgnat_main_t \<Rightarrow> bool" where
  "cg_inv cm \<longleftrightarrow> pool_small (cm_sessions cm) \<and> pool_small (cm_mappings cm) \<and> pool_at (cm_sessions cm) nil32 = None \<and>
     (\<forall>mi m. pool_at (cm_mappings cm) mi = Some m \<longrightarrow> mapping_ok (cm_pools cm) (cm_sessions cm) mi m) \<and>
     (\<forall>si s. sess_view (cm_sessions cm) si = Some s \<longrightarrow>
        (\<exists>m. pool_at (cm_mappings cm) (ss_mapping_index s) = Some m \<and> session_ok m s)) \<and>
     (\<forall>k si. cm_session_table_in2out cm k = Some si \<longleftrightarrow>
        (\<exists>s. sess_view (cm_sessions cm) si = Some s \<and> flow_key (ss_i2o s) = k)) \<and>
     (\<forall>k mi. cm_inside_lookup cm k = Some mi \<longleftrightarrow>
        (\<exists>m. pool_at (cm_mappings cm) mi = Some m \<and> (mp_inside_ip m, mp_inside_fib_index m) = k)) \<and>
     (\<forall>id pidx. cm_pool_by_id cm id = Some pidx \<longleftrightarrow>
        (\<exists>p. pool_at (cm_pools cm) pidx = Some p \<and> pl_pool_id p = id))"

lemma cg_invI:
  assumes "pool_small (cm_sessions cm)" "pool_small (cm_mappings cm)" "pool_at (cm_sessions cm) nil32 = None"
    and "\<And>mi m. pool_at (cm_mappings cm) mi = Some m \<Longrightarrow> mapping_ok (cm_pools cm) (cm_sessions cm) mi m"
    and "\<And>si s. sess_view (cm_sessions cm) si = Some s \<Longrightarrow>
        \<exists>m. pool_at (cm_mappings cm) (ss_mapping_index s) = Some m \<and> session_ok m s"
    and "\<And>k si. cm_session_table_in2out cm k = Some si \<longleftrightarrow>
        (\<exists>s. sess_view (cm_sessions cm) si = Some s \<and> flow_key (ss_i2o s) = k)"
    and "\<And>k mi. cm_inside_lookup cm k = Some mi \<longleftrightarrow>
        (\<exists>m. pool_at (cm_mappings cm) mi = Some m \<and> (mp_inside_ip m, mp_inside_fib_index m) = k)"
    and "\<And>id pidx. cm_pool_by_id cm id = Some pidx \<longleftrightarrow>
        (\<exists>p. pool_at (cm_pools cm) pidx = Some p \<and> pl_pool_id p = id)"
  shows "cg_inv cm"
  unfolding cg_inv_def using assms by blast

lemma cg_invD:
  assumes "cg_inv cm"
  shows "pool_small (cm_sessions cm)" "pool_small (cm_mappings cm)" "pool_at (cm_sessions cm) nil32 = None"
    and "pool_at (cm_mappings cm) mi = Some m \<Longrightarrow> mapping_ok (cm_pools cm) (cm_sessions cm) mi m"
    and "sess_view (cm_sessions cm) si = Some s \<Longrightarrow>
        \<exists>m. pool_at (cm_mappings cm) (ss_mapping_index s) = Some m \<and> session_ok m s"
    and "cm_session_table_in2out cm k = Some si \<longleftrightarrow>
        (\<exists>s. sess_view (cm_sessions cm) si = Some s \<and> flow_key (ss_i2o s) = k)"
    and "cm_inside_lookup cm k' = Some mi \<longleftrightarrow>
        (\<exists>m. pool_at (cm_mappings cm) mi = Some m \<and> (mp_inside_ip m, mp_inside_fib_index m) = k')"
    and "cm_pool_by_id cm id' = Some pidx \<longleftrightarrow>
        (\<exists>p. pool_at (cm_pools cm) pidx = Some p \<and> pl_pool_id p = id')"
  using assms unfolding cg_inv_def by blast+

section \<open>Lists under linking and unlinking\<close>

lemma list_ok_card: "list_ok ss mi h c \<Longrightarrow> unat c = card (owns ss mi) \<and> finite (owns ss mi)"
  unfolding list_ok_def dll_def by (metis List.finite_set distinct_card)

lemma list_ok_head:
  assumes "list_ok ss mi h c" and "h \<noteq> nil32" shows "h \<in> owns ss mi"
  using assms dll_head unfolding list_ok_def by metis

lemma owns_at: "si \<in> owns ss mi \<Longrightarrow> pool_at ss si \<noteq> None"
  by (auto simp: owns_def sess_view_def)

lemma fresh_not_owned: "pool_fresh ss si \<Longrightarrow> si \<notin> owns ss mi"
  using owns_at [of si ss mi] by (auto simp: pool_fresh_def)

lemma owns_disjoint: "mi \<noteq> mj \<Longrightarrow> owns ss mi \<inter> owns ss mj = {}"
  by (auto simp: owns_def)

lemma list_ok_link:
  fixes s :: cgnat_session_t
  assumes f: "pool_fresh ss si" and l: "list_ok ss mi h c" and s: "ss_mapping_index s = mi" and c: "c \<noteq> nil32"
  defines "ss' \<equiv> link_sessions si h (pool_get_put si s ss)"
  shows "list_ok ss' mi si (c + 1)"
proof -
  obtain xs where xs: "dll (sess_nx ss) (sess_pv ss) h (last (nil32 # xs)) xs" "set xs = owns ss mi" "unat c = length xs"
    using l by (auto simp: list_ok_def)
  have hl: "h = nil32 \<or> pool_at ss h \<noteq> None" using list_ok_head [OF l] owns_at by blast
  note v = link_views [OF f hl, of s, folded ss'_def]
  have si: "si \<notin> set xs" "si \<noteq> nil32" using f fresh_not_owned [OF f, of mi] xs(2) by (auto simp: pool_fresh_def)
  have e: "(h = nil32) = (xs = [])" using dll_empty [OF xs(1)] .
  have d: "dll (sess_nx ss') (sess_pv ss') si (last (nil32 # si # xs)) (si # xs)"
    using dll_Cons [OF xs(1) si v(1) v(2)] e by (auto split: if_splits)
  have "set (si # xs) = owns ss' mi" using xs(2) s unfolding owns_def v(3) by (auto split: if_splits)
  moreover have "unat (c + 1) = length (si # xs)"
  proof -
    have "unat c \<noteq> unat nil32" using c unfolding word_unat_eq_iff [symmetric] .
    then have "unat c + 1 < 4294967296" using unat_u32_less [of c] unat_nil32 by linarith
    then show ?thesis using unat_add_exact [of c 1] xs(3) by simp
  qed
  ultimately show ?thesis using d unfolding list_ok_def by blast
qed

lemma list_ok_link_other:
  fixes s :: cgnat_session_t
  assumes f: "pool_fresh ss si" and l: "list_ok ss mi h c" and "ss_mapping_index s = mi"
    and o: "list_ok ss mj h' c'" and "mj \<noteq> mi"
  shows "list_ok (link_sessions si h (pool_get_put si s ss)) mj h' c'"
proof -
  obtain xs where xs: "dll (sess_nx ss) (sess_pv ss) h' (last (nil32 # xs)) xs" "set xs = owns ss mj" "unat c' = length xs"
    using o by (auto simp: list_ok_def)
  have hl: "h = nil32 \<or> pool_at ss h \<noteq> None" using list_ok_head [OF l] owns_at by blast
  note v = link_views [OF f hl, of s]
  have "si \<notin> set xs" using fresh_not_owned [OF f, of mj] xs(2) by simp
  moreover have "h = nil32 \<or> h \<notin> set xs" using list_ok_head [OF l] xs(2) owns_disjoint [OF assms(5), of ss] by auto
  moreover have "nil32 \<notin> set xs" using xs(1) by (simp add: dll_def)
  ultimately have "dll (sess_nx (link_sessions si h (pool_get_put si s ss)))
      (sess_pv (link_sessions si h (pool_get_put si s ss))) h' (last (nil32 # xs)) xs"
    by (intro dll_cong [OF xs(1)]) (auto simp: v)
  moreover have "set xs = owns (link_sessions si h (pool_get_put si s ss)) mj"
    using xs(2) assms(3,5) f by (auto simp: owns_def v pool_fresh_def sess_view_def split: if_splits)
  ultimately show ?thesis using xs(3) unfolding list_ok_def by blast
qed

lemma list_ok_unlink:
  assumes s: "pool_at ss si = Some s" "ss_mapping_index s = mi" and l: "list_ok ss mi h c" and "si \<noteq> nil32"
  shows "list_ok (unlink_sessions si (ss_mapping_prev s) (ss_mapping_next s) ss) mi
     (if ss_mapping_prev s = nil32 then ss_mapping_next s else h) (c - 1)" (is "list_ok ?ss mi ?h _")
    and "ss_mapping_prev s = nil32 \<or> pool_at ss (ss_mapping_prev s) \<noteq> None"
    and "ss_mapping_next s = nil32 \<or> pool_at ss (ss_mapping_next s) \<noteq> None"
    and "0 < c"
proof -
  obtain xs where xs: "dll (sess_nx ss) (sess_pv ss) h (last (nil32 # xs)) xs" "set xs = owns ss mi" "unat c = length xs"
    using l by (auto simp: list_ok_def)
  have pn: "sess_pv ss si = ss_mapping_prev s" "sess_nx ss si = ss_mapping_next s"
    using s by (simp_all add: sess_pv_def sess_nx_def)
  have mem: "si \<in> set xs" unfolding xs(2) owns_def using s by (auto simp: sess_view_def)
  note nb = dll_neighbours [OF xs(1) mem, unfolded pn xs(2)]
  show p: "ss_mapping_prev s = nil32 \<or> pool_at ss (ss_mapping_prev s) \<noteq> None"
    and n: "ss_mapping_next s = nil32 \<or> pool_at ss (ss_mapping_next s) \<noteq> None"
    using nb owns_at by blast+
  show c: "0 < c" using xs(3) mem by (cases xs) (auto simp: word_less_nat_alt)
  note v = unlink_views [OF s(1) p n assms(4)]
  have dist: "distinct xs" using xs(1) by (simp add: dll_def)
  have d: "dll (sess_nx ?ss) (sess_pv ?ss) ?h
      (if ss_mapping_next s = nil32 then ss_mapping_prev s else last (nil32 # xs)) (remove1 si xs)"
    using dll_remove1 [OF xs(1) mem, unfolded pn, OF v(1,2)] .
  then have "(if ss_mapping_next s = nil32 then ss_mapping_prev s else last (nil32 # xs)) = last (nil32 # remove1 si xs)"
    by (simp add: dll_def)
  with d have d': "dll (sess_nx ?ss) (sess_pv ?ss) ?h (last (nil32 # remove1 si xs)) (remove1 si xs)" by simp
  have "set (remove1 si xs) = owns ?ss mi"
    using xs(2) dist by (auto simp: owns_def v(3))
  moreover have "unat (c - 1) = length (remove1 si xs)"
  proof -
    have "unat c \<noteq> 0" using c by (simp add: word_less_nat_alt)
    then have "(1 :: u32) \<le> c" by (simp add: word_le_nat_alt)
    from unat_sub_exact [OF this] show ?thesis using xs(3) mem by (simp add: length_remove1)
  qed
  ultimately show "list_ok ?ss mi ?h (c - 1)" using d' unfolding list_ok_def by blast
qed

lemma list_ok_unlink_other:
  assumes s: "pool_at ss si = Some s" "ss_mapping_index s = mi" and l: "list_ok ss mi h c" and "si \<noteq> nil32"
    and o: "list_ok ss mj h' c'" and "mj \<noteq> mi"
  shows "list_ok (unlink_sessions si (ss_mapping_prev s) (ss_mapping_next s) ss) mj h' c'" (is "list_ok ?ss _ _ _")
proof -
  obtain xs where xs: "dll (sess_nx ss) (sess_pv ss) h' (last (nil32 # xs)) xs" "set xs = owns ss mj" "unat c' = length xs"
    using o by (auto simp: list_ok_def)
  obtain ys where ys: "dll (sess_nx ss) (sess_pv ss) h (last (nil32 # ys)) ys" "set ys = owns ss mi"
    using l by (auto simp: list_ok_def)
  have pn: "sess_pv ss si = ss_mapping_prev s" "sess_nx ss si = ss_mapping_next s"
    using s by (simp_all add: sess_pv_def sess_nx_def)
  have mem: "si \<in> set ys" unfolding ys(2) owns_def using s by (auto simp: sess_view_def)
  note nb = dll_neighbours [OF ys(1) mem, unfolded pn ys(2)]
  note v = unlink_views [OF s(1) list_ok_unlink(2,3) [OF s l assms(4)] assms(4)]
  have dj: "set xs \<inter> owns ss mi = {}" "nil32 \<notin> set xs"
    using xs owns_disjoint [OF assms(6), of ss] by (auto simp: dll_def)
  have "si \<in> owns ss mi" using mem ys(2) by simp
  then have "dll (sess_nx ?ss) (sess_pv ?ss) h' (last (nil32 # xs)) xs"
    using nb dj by (intro dll_cong [OF xs(1)]) (auto simp: v)
  moreover have "set xs = owns ?ss mj"
    using xs(2) s assms(6) by (auto simp: owns_def v sess_view_def)
  ultimately show ?thesis using xs(3) unfolding list_ok_def by blast
qed

section \<open>Creating a session\<close>

lemma acquire_frame:
  "cgnat_frag_rewrite_acquire x fi a b c d e f cm = Some (r, cm') \<Longrightarrow>
     cm' = cm\<lparr>cm_frag_rewrite_pool := cm_frag_rewrite_pool cm', cm_frag_aux := cm_frag_aux cm'\<rparr>"
  by (auto simp: cgnat_frag_rewrite_acquire_def split: option.splits if_splits)

lemma release_frame:
  "cgnat_frag_rewrite_release i a p cm =
     cm\<lparr>cm_frag_rewrite_pool := cm_frag_rewrite_pool (cgnat_frag_rewrite_release i a p cm),
        cm_frag_aux := cm_frag_aux (cgnat_frag_rewrite_release i a p cm)\<rparr>"
  by (auto simp: cgnat_frag_rewrite_release_def split: option.splits)

lemma frame_fields:
  assumes "cm' = cm\<lparr>cm_frag_rewrite_pool := a, cm_frag_aux := b\<rparr>"
  shows "cm_sessions cm' = cm_sessions cm" "cm_mappings cm' = cm_mappings cm" "cm_pools cm' = cm_pools cm"
    "cm_session_table_in2out cm' = cm_session_table_in2out cm" "cm_inside_lookup cm' = cm_inside_lookup cm"
    "cm_session_table_out2in cm' = cm_session_table_out2in cm" "cm_pool_by_id cm' = cm_pool_by_id cm"
    "cm_bypass_entries cm' = cm_bypass_entries cm" "cm_bypass_entry_count cm' = cm_bypass_entry_count cm"
  by (simp_all add: assms)

lemmas acquire_fields = frame_fields [OF acquire_frame]
lemmas release_fields = frame_fields [OF release_frame]

definition mapping_linked :: "u32 \<Rightarrow> cgnat_mapping_t \<Rightarrow> cgnat_mapping_t" where
  "mapping_linked si m = m\<lparr>mp_session_count := mp_session_count m + 1, mp_sessions_head := si\<rparr>"

text \<open>The session a successful creation leaves.\<close>

definition session_made :: "csum_ext \<Rightarrow> cgnat_mapping_t \<Rightarrow> cgnat_pool_t \<Rightarrow> u32 \<Rightarrow> u32 \<Rightarrow> u32 \<Rightarrow> u16 \<Rightarrow> u8 \<Rightarrow> u16 \<Rightarrow>
    u16 \<Rightarrow> real \<Rightarrow> cgnat_session_t" where
  "session_made x mapping pool mi fri remote_ip remote_port proto outside_port inside_port now =
     (let out_fib = (if pl_outside_fib_valid pool then pl_outside_fib_index pool else 0) in
      \<lparr>ss_i2o = session_i2o x mapping out_fib remote_ip remote_port proto (bswap16 outside_port) inside_port,
       ss_tcp_state = CGNAT_TCP_STATE_CLOSED,
       ss_o2i = session_o2i x mapping out_fib remote_ip remote_port proto (bswap16 outside_port) inside_port,
       ss_mapping_index = mi, ss_pool_index = mp_pool_index mapping,
       ss_last_active = now, ss_total_pkts = 0, ss_total_bytes = 0,
       ss_timeout = real (unat (new_session_timeout pool proto)),
       ss_frag_rewrite_index = fri, ss_mapping_next = 0, ss_mapping_prev = 0, ss_flags_i2o = 0, ss_flags_o2i = 0\<rparr>)"

lemma pool_upd_upd: "pool_upd i f (pool_upd i g p) = pool_upd i (f \<circ> g) p"
  by (auto simp: pool_upd_def option.map_comp)

lemma pool_upd_fun: "pool_at p i = Some x \<Longrightarrow> f x = g x \<Longrightarrow> pool_upd i f p = pool_upd i g p"
  by (auto simp: pool_upd_def pool_at_def split: if_splits)

lemma session_create_cases:
  assumes "cgnat_session_create x si fi mi remote_ip remote_port proto outside_port inside_port now cm = Some (r, cm')"
  obtains (refused) "r = None" "cm' = cm"
  | (created) mapping pool fri s where "r = Some si"
    "pool_at (cm_mappings cm) mi = Some mapping" "pool_at (cm_pools cm) (mp_pool_index mapping) = Some pool"
    "mp_session_count mapping < pl_max_sessions_per_sub pool"
    "pool_elts (cm_sessions cm) < CGNAT_MAX_SESSIONS"
    "s = session_made x mapping pool mi fri remote_ip remote_port proto outside_port inside_port now"
    "cm_sessions cm' = link_sessions si (mp_sessions_head mapping) (pool_get_put si s (cm_sessions cm))"
    "cm_mappings cm' = pool_upd mi (mapping_linked si) (cm_mappings cm)"
    "cm_session_table_in2out cm' = (cm_session_table_in2out cm)(flow_key (ss_i2o s) \<mapsto> si)"
    "cm_session_table_out2in cm' = (cm_session_table_out2in cm)(flow_key (ss_o2i s) \<mapsto> si)"
    "cm_pools cm' = cm_pools cm" "cm_inside_lookup cm' = cm_inside_lookup cm" "cm_pool_by_id cm' = cm_pool_by_id cm"
proof (cases "r = None")
  case True
  with assms show thesis
    by (intro refused) (auto simp: cgnat_session_create_def Let_def split: option.splits if_splits prod.splits)
next
  case False
  with assms obtain mapping pool where m: "pool_at (cm_mappings cm) mi = Some mapping"
    and p: "pool_at (cm_pools cm) (mp_pool_index mapping) = Some pool"
    by (auto simp: cgnat_session_create_def split: option.splits)
  let ?out = "if pl_outside_fib_valid pool then pl_outside_fib_index pool else 0"
  let ?cm1 = "cm\<lparr>cm_mappings := pool_upd mi (\<lambda>m. m\<lparr>mp_session_count := mp_session_count m + 1\<rparr>) (cm_mappings cm)\<rparr>"
  have lim: "\<not> pl_max_sessions_per_sub pool \<le> mp_session_count mapping" "\<not> CGNAT_MAX_SESSIONS \<le> pool_elts (cm_sessions cm)"
    using assms False m p by (auto simp: cgnat_session_create_def split: if_splits)
  obtain fri cm2 where a: "cgnat_frag_rewrite_acquire x fi (mp_inside_ip mapping) (mp_outside_ip mapping) remote_ip proto
      (mp_inside_fib_index mapping) ?out ?cm1 = Some (fri, cm2)"
    using assms False m p lim by (auto simp: cgnat_session_create_def Let_def split: option.splits)
  let ?s = "session_made x mapping pool mi fri remote_ip remote_port proto outside_port inside_port now"
  have r: "r = Some si" "cm' = session_link mi si (session_install si ?s cm2)"
    using assms m p lim a by (simp_all add: cgnat_session_create_def session_made_def Let_def)
  note f = acquire_fields [OF a]
  have mm: "pool_at (cm_mappings cm2) mi = Some (mapping\<lparr>mp_session_count := mp_session_count mapping + 1\<rparr>)"
    using m by (simp add: f pool_simps)
  then have mi: "pool_at (cm_mappings (session_install si ?s cm2)) mi = Some (mapping\<lparr>mp_session_count := mp_session_count mapping + 1\<rparr>)"
    by (simp add: session_install_def)
  have cm': "cm_sessions cm' = link_sessions si (mp_sessions_head mapping) (pool_get_put si ?s (cm_sessions cm))"
    "cm_mappings cm' = pool_upd mi (mapping_linked si) (cm_mappings cm)"
    "cm_session_table_in2out cm' = (cm_session_table_in2out cm)(flow_key (ss_i2o ?s) \<mapsto> si)"
    "cm_session_table_out2in cm' = (cm_session_table_out2in cm)(flow_key (ss_o2i ?s) \<mapsto> si)"
    "cm_pools cm' = cm_pools cm" "cm_inside_lookup cm' = cm_inside_lookup cm" "cm_pool_by_id cm' = cm_pool_by_id cm"
    unfolding r(2) session_link_def mi
    by (simp_all add: session_install_def f link_sessions_def Let_def pool_upd_upd comp_def mapping_linked_def [abs_def])
  show thesis
    by (rule created [OF r(1) m p _ _ refl cm']) (use lim in auto)
qed

lemma mapping_linked_fields [simp]:
  "mp_inside_ip (mapping_linked si m) = mp_inside_ip m" "mp_outside_ip (mapping_linked si m) = mp_outside_ip m"
  "mp_inside_fib_index (mapping_linked si m) = mp_inside_fib_index m" "mp_pool_index (mapping_linked si m) = mp_pool_index m"
  "mp_port_block_start (mapping_linked si m) = mp_port_block_start m"
  "mp_port_block_end (mapping_linked si m) = mp_port_block_end m"
  "mp_sw_if_index (mapping_linked si m) = mp_sw_if_index m"
  "mp_sessions_head (mapping_linked si m) = si" "mp_session_count (mapping_linked si m) = mp_session_count m + 1"
  "block_wf (mapping_linked si m) = block_wf m"
  by (simp_all add: mapping_linked_def block_wf_def)

lemma session_ok_static:
  assumes "mp_pool_index m' = mp_pool_index m" "mp_inside_ip m' = mp_inside_ip m"
    "mp_inside_fib_index m' = mp_inside_fib_index m" "mp_outside_ip m' = mp_outside_ip m"
    "mp_port_block_start m' = mp_port_block_start m" "mp_port_block_end m' = mp_port_block_end m"
  shows "session_ok m' s = session_ok m s"
  by (simp add: session_ok_def assms)

lemma session_made_fields [simp]:
  "ss_mapping_index (session_made x m p mi fri r rp pr op ip t) = mi"
  "ss_pool_index (session_made x m p mi fri r rp pr op ip t) = mp_pool_index m"
  by (simp_all add: session_made_def Let_def)

lemma session_made_key:
  "flow_key (ss_i2o (session_made x m p mi fri r rp pr op ip t)) =
     cgnat_session_make_key (mp_inside_ip m) r ip (if pr = IP_PROTOCOL_ICMP then ip else rp) pr (mp_inside_fib_index m)"
  by (simp add: session_made_def session_i2o_def cgnat_flow_csum_calc_def flow_key_def Let_def)

lemma session_made_ok:
  assumes "\<not> cgnat_is_unk_proto pr \<Longrightarrow> mp_port_block_start m \<le> op \<and> op \<le> mp_port_block_end m"
  shows "session_ok m (session_made x m p mi fri r rp pr op ip t)"
  using assms
  by (auto simp: session_ok_def session_made_def session_i2o_def session_o2i_def cgnat_flow_csum_calc_def Let_def)

lemma cg_inv_create:
  assumes inv: "cg_inv cm" and f: "pool_fresh (cm_sessions cm) si"
    and c: "cgnat_session_create x si fi mi remote_ip remote_port proto outside_port inside_port now cm = Some (r, cm')"
    and port: "\<And>m. pool_at (cm_mappings cm) mi = Some m \<Longrightarrow> \<not> cgnat_is_unk_proto proto \<Longrightarrow>
        mp_port_block_start m \<le> outside_port \<and> outside_port \<le> mp_port_block_end m"
    and new: "\<And>m. pool_at (cm_mappings cm) mi = Some m \<Longrightarrow>
        cgnat_session_lookup_in2out cm (mp_inside_ip m) remote_ip inside_port
          (if proto = IP_PROTOCOL_ICMP then inside_port else remote_port) proto (mp_inside_fib_index m) = None"
  shows "cg_inv cm'"
  using c
proof (cases rule: session_create_cases)
  case refused
  with inv show ?thesis by simp
next
  case (created mapping pool fri s)
  let ?h = "mp_sessions_head mapping"
  note D = cg_invD [OF inv]
  have ok: "mapping_ok (cm_pools cm) (cm_sessions cm) mi mapping" using D(4) created(2) by blast
  then have l: "list_ok (cm_sessions cm) mi ?h (mp_session_count mapping)" by (simp add: mapping_ok_def)
  have smi: "ss_mapping_index s = mi" by (simp add: created(6))
  have hl: "?h = nil32 \<or> pool_at (cm_sessions cm) ?h \<noteq> None" using list_ok_head [OF l] owns_at by blast
  note v = link_views [OF f hl, of s, folded created(7)]
  have cnt: "mp_session_count mapping \<noteq> nil32" using created(4) by (metis word_order.extremum not_le)
  have nk: "cm_session_table_in2out cm (flow_key (ss_i2o s)) = None"
    using new [OF created(2)] unfolding created(6) session_made_key cgnat_session_lookup_in2out_def .
  have sv: "sess_view (cm_sessions cm) si = None" using f by (simp add: sess_view_def pool_fresh_def)
  have at: "pool_at (cm_mappings cm') j = (if j = mi then Some (mapping_linked si mapping) else pool_at (cm_mappings cm) j)" for j
    using created(2) by (simp add: created(8) pool_simps)
  show ?thesis
  proof (rule cg_invI)
    show "pool_small (cm_sessions cm')" unfolding created(7) by (rule link_small [OF get_put_small [OF D(1) f]])
    show "pool_small (cm_mappings cm')" using D(2) by (simp add: created(8) pool_small_def)
    have "sess_view (cm_sessions cm') nil32 = None" using D(3) f by (auto simp: v pool_fresh_def sess_view_def)
    then show "pool_at (cm_sessions cm') nil32 = None" by (simp add: sess_view_def)
    fix mj m assume m: "pool_at (cm_mappings cm') mj = Some m"
    show "mapping_ok (cm_pools cm') (cm_sessions cm') mj m"
    proof (cases "mj = mi")
      case True
      with m at have "m = mapping_linked si mapping" by simp
      with True ok list_ok_link [OF f l smi cnt] show ?thesis by (simp add: mapping_ok_def created(7,11))
    next
      case False
      with m at have "pool_at (cm_mappings cm) mj = Some m" by simp
      with D(4) have o: "mapping_ok (cm_pools cm) (cm_sessions cm) mj m" by blast
      then have "list_ok (cm_sessions cm) mj (mp_sessions_head m) (mp_session_count m)" by (simp add: mapping_ok_def)
      from list_ok_link_other [OF f l smi this False] o show ?thesis by (simp add: mapping_ok_def created(7,11))
    qed
  next
    fix sj t assume t: "sess_view (cm_sessions cm') sj = Some t"
    show "\<exists>m. pool_at (cm_mappings cm') (ss_mapping_index t) = Some m \<and> session_ok m t"
    proof (cases "sj = si")
      case True
      with t v have "t = bare s" by simp
      moreover have "session_ok mapping s" unfolding created(6) by (rule session_made_ok) (rule port [OF created(2)])
      ultimately show ?thesis using smi by (simp add: at session_ok_def)
    next
      case False
      with t v have "sess_view (cm_sessions cm) sj = Some t" by simp
      with D(5) obtain m where "pool_at (cm_mappings cm) (ss_mapping_index t) = Some m" "session_ok m t" by blast
      then show ?thesis using created(2) by (auto simp: at session_ok_def)
    qed
  next
    fix k sj
    show "(cm_session_table_in2out cm' k = Some sj) =
        (\<exists>s. sess_view (cm_sessions cm') sj = Some s \<and> flow_key (ss_i2o s) = k)"
      using D(6) [of k sj] nk sv D(6) [of k si] by (auto simp: v created(9))
  next
    fix k mj
    show "(cm_inside_lookup cm' k = Some mj) =
        (\<exists>m. pool_at (cm_mappings cm') mj = Some m \<and> (mp_inside_ip m, mp_inside_fib_index m) = k)"
      using D(7) [of k mj] created(2) by (auto simp: at created(12))
  next
    fix id pidx
    show "(cm_pool_by_id cm' id = Some pidx) = (\<exists>p. pool_at (cm_pools cm') pidx = Some p \<and> pl_pool_id p = id)"
      using D(8) [of id pidx] by (simp add: created(11,13))
  qed
qed

section \<open>Deleting a session\<close>

definition mapping_unlinked :: "real \<Rightarrow> cgnat_session_t \<Rightarrow> cgnat_mapping_t \<Rightarrow> cgnat_mapping_t" where
  "mapping_unlinked now s m =
     (let m1 = (if cgnat_is_unk_proto (fl_proto (ss_i2o s)) then m
                else cgnat_port_free now (bswap16 (fl_rewrite_sport (ss_i2o s))) m);
          m2 = count_dec m1 in
      if ss_mapping_prev s = nil32 then m2\<lparr>mp_sessions_head := ss_mapping_next s\<rparr> else m2)"

lemma count_dec_fields [simp]:
  "mp_inside_ip (count_dec m) = mp_inside_ip m" "mp_outside_ip (count_dec m) = mp_outside_ip m"
  "mp_inside_fib_index (count_dec m) = mp_inside_fib_index m" "mp_pool_index (count_dec m) = mp_pool_index m"
  "mp_port_block_start (count_dec m) = mp_port_block_start m" "mp_port_block_end (count_dec m) = mp_port_block_end m"
  "mp_sw_if_index (count_dec m) = mp_sw_if_index m" "mp_sessions_head (count_dec m) = mp_sessions_head m"
  "mp_next_port (count_dec m) = mp_next_port m" "mp_port_reuse_timestamps (count_dec m) = mp_port_reuse_timestamps m"
  "mp_inside_vrf_id (count_dec m) = mp_inside_vrf_id m"
  "0 < mp_session_count m \<Longrightarrow> mp_session_count (count_dec m) = mp_session_count m - 1"
  by (simp_all add: count_dec_def)

lemma mapping_unlinked_fields [simp]:
  "mp_inside_ip (mapping_unlinked now s m) = mp_inside_ip m" "mp_outside_ip (mapping_unlinked now s m) = mp_outside_ip m"
  "mp_inside_fib_index (mapping_unlinked now s m) = mp_inside_fib_index m"
  "mp_pool_index (mapping_unlinked now s m) = mp_pool_index m"
  "mp_port_block_start (mapping_unlinked now s m) = mp_port_block_start m"
  "mp_port_block_end (mapping_unlinked now s m) = mp_port_block_end m"
  "mp_sw_if_index (mapping_unlinked now s m) = mp_sw_if_index m"
  "mp_sessions_head (mapping_unlinked now s m) = (if ss_mapping_prev s = nil32 then ss_mapping_next s else mp_sessions_head m)"
  "0 < mp_session_count m \<Longrightarrow> mp_session_count (mapping_unlinked now s m) = mp_session_count m - 1"
  by (simp_all add: mapping_unlinked_def Let_def)

lemma mapping_unlinked_wf: "block_wf m \<Longrightarrow> block_wf (mapping_unlinked now s m)"
  using port_free_wf [of m now "bswap16 (fl_rewrite_sport (ss_i2o s))"]
  by (simp add: mapping_unlinked_def Let_def block_wf_def)

lemma session_delete_none: "pool_at (cm_sessions cm) si = None \<Longrightarrow> cgnat_session_delete now si cm = cm"
  by (simp add: cgnat_session_delete_def)

lemma session_delete_fields:
  fixes now :: real
  assumes "pool_at (cm_sessions cm) si = Some s"
  defines "cm' \<equiv> cgnat_session_delete now si cm"
  shows "cm_sessions cm' = unlink_sessions si (ss_mapping_prev s) (ss_mapping_next s) (cm_sessions cm)"
    and "cm_mappings cm' = pool_upd (ss_mapping_index s) (mapping_unlinked now s) (cm_mappings cm)"
    and "cm_session_table_in2out cm' = (cm_session_table_in2out cm)(flow_key (ss_i2o s) := None)"
    and "cm_session_table_out2in cm' = (cm_session_table_out2in cm)(flow_key (ss_o2i s) := None)"
    and "cm_pools cm' = cm_pools cm" and "cm_inside_lookup cm' = cm_inside_lookup cm"
    and "cm_pool_by_id cm' = cm_pool_by_id cm" and "cm_bypass_entries cm' = cm_bypass_entries cm"
    and "cm_bypass_entry_count cm' = cm_bypass_entry_count cm"
  unfolding cm'_def cgnat_session_delete_def assms(1)
  by (simp_all add: Let_def session_unlink_def unlink_sessions_def release_fields pool_upd_upd comp_def
      mapping_unlinked_def [abs_def])

lemma cg_inv_delete:
  fixes now :: real and si mj :: u32
  assumes inv: "cg_inv cm"
  defines "cm' \<equiv> cgnat_session_delete now si cm"
  shows "cg_inv cm'" and "sess_view (cm_sessions cm') = (sess_view (cm_sessions cm))(si := None)"
    and "pool_at (cm_mappings cm') mj = None \<longleftrightarrow> pool_at (cm_mappings cm) mj = None"
proof -
  have "cg_inv cm' \<and> sess_view (cm_sessions cm') = (sess_view (cm_sessions cm))(si := None) \<and>
     (pool_at (cm_mappings cm') mj = None \<longleftrightarrow> pool_at (cm_mappings cm) mj = None)"
  proof (cases "pool_at (cm_sessions cm) si")
    case None
    then have "cm' = cm" by (simp add: cm'_def session_delete_none)
    then show ?thesis using inv None by (simp add: fun_eq_iff sess_view_def)
  next
    case (Some s)
    note F = session_delete_fields [OF Some, of now, folded cm'_def]
    note D = cg_invD [OF inv]
    let ?mi = "ss_mapping_index s"
    obtain m where m: "pool_at (cm_mappings cm) ?mi = Some m" "session_ok m (bare s)"
      using D(5) [of si "bare s"] Some by (auto simp: sess_view_def)
    have ok: "mapping_ok (cm_pools cm) (cm_sessions cm) ?mi m" using D(4) m(1) by blast
    then have l: "list_ok (cm_sessions cm) ?mi (mp_sessions_head m) (mp_session_count m)" by (simp add: mapping_ok_def)
    have nil: "si \<noteq> nil32" using D(3) Some by auto
    note u = list_ok_unlink [OF Some refl l nil]
    note v = unlink_views [OF Some u(2,3) nil, folded F(1)]
    have at: "pool_at (cm_mappings cm') j = (if j = ?mi then Some (mapping_unlinked now s m) else pool_at (cm_mappings cm) j)" for j
      using m(1) by (simp add: F(2) pool_simps)
    have "cg_inv cm'"
    proof (rule cg_invI)
      show "pool_small (cm_sessions cm')" unfolding F(1) by (rule unlink_small [OF D(1)])
      show "pool_small (cm_mappings cm')" using D(2) by (simp add: F(2) pool_small_def)
      have "sess_view (cm_sessions cm') nil32 = None" using D(3) nil by (simp add: v sess_view_def)
      then show "pool_at (cm_sessions cm') nil32 = None" by (simp add: sess_view_def)
      fix mj m' assume m': "pool_at (cm_mappings cm') mj = Some m'"
      show "mapping_ok (cm_pools cm') (cm_sessions cm') mj m'"
      proof (cases "mj = ?mi")
        case True
        with m' at have "m' = mapping_unlinked now s m" by simp
        with True ok u(1,4) mapping_unlinked_wf show ?thesis by (simp add: mapping_ok_def F(1,5))
      next
        case False
        with m' at have "pool_at (cm_mappings cm) mj = Some m'" by simp
        with D(4) have o: "mapping_ok (cm_pools cm) (cm_sessions cm) mj m'" by blast
        then have "list_ok (cm_sessions cm) mj (mp_sessions_head m') (mp_session_count m')" by (simp add: mapping_ok_def)
        from list_ok_unlink_other [OF Some refl l nil this False] o show ?thesis by (simp add: mapping_ok_def F(1,5))
      qed
    next
      fix sj t assume "sess_view (cm_sessions cm') sj = Some t"
      then have "sess_view (cm_sessions cm) sj = Some t" by (auto simp: v split: if_splits)
      with D(5) obtain n where "pool_at (cm_mappings cm) (ss_mapping_index t) = Some n" "session_ok n t" by blast
      then show "\<exists>m. pool_at (cm_mappings cm') (ss_mapping_index t) = Some m \<and> session_ok m t"
        using m(1) by (auto simp: at session_ok_def)
    next
      fix k sj
      have 1: "sess_view (cm_sessions cm) si = Some (bare s)" using Some by (simp add: sess_view_def)
      then have 2: "cm_session_table_in2out cm (flow_key (ss_i2o s)) = Some si" using D(6) [of "flow_key (ss_i2o s)" si] by simp
      show "(cm_session_table_in2out cm' k = Some sj) =
          (\<exists>s. sess_view (cm_sessions cm') sj = Some s \<and> flow_key (ss_i2o s) = k)"
        using D(6) [of k sj] 1 2 by (auto simp: v F(3))
    next
      fix k mj
      show "(cm_inside_lookup cm' k = Some mj) =
          (\<exists>m. pool_at (cm_mappings cm') mj = Some m \<and> (mp_inside_ip m, mp_inside_fib_index m) = k)"
        using D(7) [of k mj] m(1) by (auto simp: at F(6))
    next
      fix id pidx
      show "(cm_pool_by_id cm' id = Some pidx) = (\<exists>p. pool_at (cm_pools cm') pidx = Some p \<and> pl_pool_id p = id)"
        using D(8) [of id pidx] by (simp add: F(5,7))
    qed
    then show ?thesis using v(3) m(1) by (simp add: at)
  qed
  then show "cg_inv cm'" "sess_view (cm_sessions cm') = (sess_view (cm_sessions cm))(si := None)"
    "pool_at (cm_mappings cm') mj = None \<longleftrightarrow> pool_at (cm_mappings cm) mj = None" by blast+
qed

lemma cg_inv_expire: "cg_inv cm \<Longrightarrow> cg_inv (expire_delete now sis cm)"
  by (induction sis arbitrary: cm) (simp_all add: cg_inv_delete(1))

lemma expire_delete_pools: "cm_pools (expire_delete now sis cm) = cm_pools cm"
proof (induction sis arbitrary: cm)
  case (Cons si sis)
  have "cm_pools (cgnat_session_delete now si cm) = cm_pools cm"
    by (cases "pool_at (cm_sessions cm) si") (simp_all add: session_delete_none session_delete_fields)
  with Cons show ?case by simp
qed simp

end
