(* ===== verification/Cgnat_Config.thy ===== *)
theory Cgnat_Config
  imports Cgnat_Det Cgnat_Inv
begin

text \<open>
  The control plane of the NAT plugin (osvbng_cgnat.c and the handlers of osvbng_cgnat_api.c): pools,
  subscriber mappings, prefixes, interfaces and bypass entries.

  What an operation asks of VPP (FIB entries, the reassembly reference count, the feature on an
  interface) is an ordered list of effects beside its return code; what VPP answers is the parameter
  \<open>cfg_ext\<close>.  Message fields are taken after their byte order was undone.  As in the session
  theory, an outer \<open>None\<close> is a trap of the machine (a division by zero) or a loop that never
  ends.
\<close>

datatype cgnat_rv =
    RV_OK | RV_NO_SUCH_ENTRY | RV_NO_SUCH_FIB | RV_INSTANCE_IN_USE | RV_ENTRY_NEEDS_REFRESH | RV_REASS int

datatype cgnat_effect =
    Fib_Dpo_Add u32 fib_prefix_t | Fib_Add u32 fib_prefix_t | Fib_Remove u32 fib_prefix_t
  | Reass u32 bool | Feature u32 bool

record cfg_ext =
  fib_table_find :: "u32 \<Rightarrow> u32"
  fib_table_entry_special_dpo_add :: "u32 \<Rightarrow> fib_prefix_t \<Rightarrow> u32"
  fib_table_entry_special_add :: "u32 \<Rightarrow> fib_prefix_t \<Rightarrow> u32"
  ip4_sv_reass_enable :: "u32 \<Rightarrow> int"

type_synonym cfg_result = "cgnat_rv \<times> cgnat_effect list \<times> cgnat_main_t"

text \<open>\<^verbatim>\<open>vec_del1\<close> moves the last element into the gap.\<close>

definition vec_del1 :: "'a list \<Rightarrow> nat \<Rightarrow> 'a list" where
  "vec_del1 xs i = butlast (xs[i := last xs])"

definition find_index :: "('a \<Rightarrow> bool) \<Rightarrow> 'a list \<Rightarrow> nat option" where
  "find_index P xs = find (\<lambda>i. P (xs ! i)) [0..<length xs]"

definition same_prefix :: "fib_prefix_t \<Rightarrow> fib_prefix_t \<Rightarrow> bool" where
  "same_prefix p q \<longleftrightarrow> fp_len p = fp_len q \<and> fp_addr p = fp_addr q"

section \<open>Pools\<close>

definition cgnat_pool_hard_drift :: "cgnat_pool_t \<Rightarrow> cgnat_pool_t \<Rightarrow> bool" where
  "cgnat_pool_hard_drift cur cfg \<longleftrightarrow>
     pl_mode cur \<noteq> pl_mode cfg \<or> pl_address_pooling cur \<noteq> pl_address_pooling cfg \<or>
     pl_filtering cur \<noteq> pl_filtering cfg \<or> pl_block_size cur \<noteq> pl_block_size cfg \<or>
     pl_port_range_start cur \<noteq> pl_port_range_start cfg \<or> pl_port_range_end cur \<noteq> pl_port_range_end cfg"

definition cgnat_pool_soft_update :: "cgnat_pool_t \<Rightarrow> cgnat_pool_t \<Rightarrow> cgnat_pool_t" where
  "cgnat_pool_soft_update cfg cur =
     cur\<lparr>pl_max_blocks_per_sub := pl_max_blocks_per_sub cfg, pl_max_sessions_per_sub := pl_max_sessions_per_sub cfg,
         pl_port_reuse_timeout := pl_port_reuse_timeout cfg, pl_alg_bitmask := pl_alg_bitmask cfg,
         pl_timeouts := pl_timeouts cfg\<rparr>"

definition pool_new :: "cgnat_pool_t \<Rightarrow> cgnat_pool_t" where
  "pool_new cfg =
     \<lparr>pl_pool_id = pl_pool_id cfg, pl_mode = pl_mode cfg, pl_address_pooling = pl_address_pooling cfg,
      pl_filtering = pl_filtering cfg, pl_block_size = pl_block_size cfg,
      pl_max_blocks_per_sub = pl_max_blocks_per_sub cfg, pl_max_sessions_per_sub = pl_max_sessions_per_sub cfg,
      pl_port_range_start = pl_port_range_start cfg, pl_port_range_end = pl_port_range_end cfg,
      pl_port_reuse_timeout = pl_port_reuse_timeout cfg, pl_alg_bitmask = pl_alg_bitmask cfg,
      pl_timeouts = pl_timeouts cfg, pl_outside_vrf_table_id = 0, pl_outside_fib_index = nil32,
      pl_outside_fib_valid = False, pl_outside_prefixes = [], pl_outside_fib_entries = [], pl_dpo_valid = False,
      pl_outside_sw_if_indexes = [], pl_inside_prefixes = [], pl_det_params = pl_det_params cfg\<rparr>"

text \<open>The indices of the elements of a pool that satisfy a predicate, as \<^verbatim>\<open>pool_foreach\<close> meets them.\<close>

definition pool_select :: "('a \<Rightarrow> bool) \<Rightarrow> 'a pool \<Rightarrow> u32 list" where
  "pool_select P p = filter (\<lambda>i. case pool_at p i of None \<Rightarrow> False | Some x \<Rightarrow> P x) (pool_indices p)"

fun sessions_kill :: "real \<Rightarrow> u32 list \<Rightarrow> cgnat_main_t \<Rightarrow> cgnat_main_t" where
  "sessions_kill now [] cm = cm"
| "sessions_kill now (si # sis) cm = sessions_kill now sis (cgnat_session_delete now si cm)"

definition mapping_free :: "u32 \<Rightarrow> cgnat_main_t \<Rightarrow> cgnat_main_t" where
  "mapping_free mi cm = (case pool_at (cm_mappings cm) mi of None \<Rightarrow> cm | Some m \<Rightarrow>
     cm\<lparr>cm_inside_lookup := (cm_inside_lookup cm)((mp_inside_ip m, mp_inside_fib_index m) := None),
        cm_mappings := pool_put mi (cm_mappings cm)\<rparr>)"

fun mappings_kill :: "u32 list \<Rightarrow> cgnat_main_t \<Rightarrow> cgnat_main_t" where
  "mappings_kill [] cm = cm"
| "mappings_kill (mi # mis) cm = mappings_kill mis (mapping_free mi cm)"

definition cgnat_pool_cascade_delete :: "real \<Rightarrow> u32 \<Rightarrow> cgnat_main_t \<Rightarrow> cgnat_main_t" where
  "cgnat_pool_cascade_delete now pool_index cm =
     (let cm1 = sessions_kill now (pool_select (\<lambda>s. ss_pool_index s = pool_index) (cm_sessions cm)) cm in
      mappings_kill (pool_select (\<lambda>m. mp_pool_index m = pool_index) (cm_mappings cm1)) cm1)"

text \<open>The FIB entries of the outside prefixes that are installed.\<close>

definition outside_fib_removals :: "cgnat_pool_t \<Rightarrow> cgnat_effect list" where
  "outside_fib_removals pool =
     (if pl_outside_fib_valid pool
      then [Fib_Remove (pl_outside_fib_index pool) p. (p, fei) \<leftarrow> zip (pl_outside_prefixes pool) (pl_outside_fib_entries pool),
              fei \<noteq> nil32]
      else [])"

definition cgnat_pool_add :: "u32 \<Rightarrow> cgnat_pool_t \<Rightarrow> cgnat_main_t \<Rightarrow> cfg_result" where
  "cgnat_pool_add new cfg cm =
     (case cm_pool_by_id cm (pl_pool_id cfg) of
        Some p \<Rightarrow>
          (case pool_at (cm_pools cm) p of None \<Rightarrow> (RV_OK, [], cm) | Some cur \<Rightarrow>
             if cgnat_pool_hard_drift cur cfg then (RV_ENTRY_NEEDS_REFRESH, [], cm)
             else (RV_OK, [], cm\<lparr>cm_pools := pool_upd p (cgnat_pool_soft_update cfg) (cm_pools cm)\<rparr>))
      | None \<Rightarrow>
          (RV_OK, [], cm\<lparr>cm_pools := pool_get_put new (pool_new cfg) (cm_pools cm),
                        cm_pool_by_id := (cm_pool_by_id cm)(pl_pool_id cfg \<mapsto> new)\<rparr>))"

definition cgnat_pool_del :: "real \<Rightarrow> u32 \<Rightarrow> cgnat_main_t \<Rightarrow> cfg_result" where
  "cgnat_pool_del now pool_id cm =
     (case cm_pool_by_id cm pool_id of None \<Rightarrow> (RV_NO_SUCH_ENTRY, [], cm) | Some pool_index \<Rightarrow>
      case pool_at (cm_pools cm) pool_index of None \<Rightarrow> (RV_OK, [], cm) | Some pool \<Rightarrow>
        let cm1 = cgnat_pool_cascade_delete now pool_index cm in
        (RV_OK, outside_fib_removals pool @ map (\<lambda>sw. Reass sw False) (pl_outside_sw_if_indexes pool),
         cm1\<lparr>cm_pool_by_id := (cm_pool_by_id cm1)(pl_pool_id pool := None),
             cm_pools := pool_put pool_index (cm_pools cm1)\<rparr>))"

definition cgnat_pool_add_del :: "real \<Rightarrow> u32 \<Rightarrow> cgnat_pool_t \<Rightarrow> bool \<Rightarrow> cgnat_main_t \<Rightarrow> cfg_result" where
  "cgnat_pool_add_del now new cfg is_add cm =
     (if is_add then cgnat_pool_add new cfg cm else cgnat_pool_del now (pl_pool_id cfg) cm)"

definition cgnat_pool_update :: "u32 \<Rightarrow> u32 \<Rightarrow> u8 \<Rightarrow> u32 list option \<Rightarrow> cgnat_main_t \<Rightarrow> cfg_result" where
  "cgnat_pool_update pool_id max_sessions alg_bitmask timeouts cm =
     (case cm_pool_by_id cm pool_id of None \<Rightarrow> (RV_NO_SUCH_ENTRY, [], cm) | Some p \<Rightarrow>
        (RV_OK, [], cm\<lparr>cm_pools := pool_upd p (\<lambda>pool.
           let pool1 = pool\<lparr>pl_max_sessions_per_sub := max_sessions, pl_alg_bitmask := alg_bitmask\<rparr> in
           case timeouts of None \<Rightarrow> pool1 | Some ts \<Rightarrow> pool1\<lparr>pl_timeouts := ts\<rparr>) (cm_pools cm)\<rparr>))"

definition cgnat_set_outside_fib :: "cfg_ext \<Rightarrow> u32 \<Rightarrow> u32 \<Rightarrow> cgnat_main_t \<Rightarrow> cfg_result" where
  "cgnat_set_outside_fib x pool_id vrf_id cm =
     (case cm_pool_by_id cm pool_id of None \<Rightarrow> (RV_NO_SUCH_ENTRY, [], cm) | Some pool_index \<Rightarrow>
        let fib_index = fib_table_find x vrf_id in
        if fib_index = nil32 then (RV_NO_SUCH_FIB, [], cm)
        else case pool_at (cm_pools cm) pool_index of None \<Rightarrow> (RV_OK, [], cm) | Some pool \<Rightarrow>
          if pl_outside_fib_valid pool \<and> 0 < pool_elts (cm_sessions cm) then (RV_INSTANCE_IN_USE, [], cm)
          else
            let feis = map (fib_table_entry_special_dpo_add x fib_index) (pl_outside_prefixes pool) in
            (RV_OK, outside_fib_removals pool @ map (Fib_Dpo_Add fib_index) (pl_outside_prefixes pool),
             cm\<lparr>cm_pools := pool_upd pool_index (\<lambda>pool. pool\<lparr>pl_outside_vrf_table_id := vrf_id,
                  pl_outside_fib_index := fib_index, pl_outside_fib_valid := True, pl_dpo_valid := True,
                  pl_outside_fib_entries := feis\<rparr>) (cm_pools cm)\<rparr>))"

section \<open>Subscriber mappings\<close>

definition mapping_new :: "u32 \<Rightarrow> u32 \<Rightarrow> u32 \<Rightarrow> u32 \<Rightarrow> u32 \<Rightarrow> u32 \<Rightarrow> u16 \<Rightarrow> u16 \<Rightarrow> cgnat_mapping_t" where
  "mapping_new inside_ip outside_ip inside_vrf_id fib_index pool_index sw_if_index port_start port_end =
     (let size = ucast port_end - ucast port_start + (1 :: u32) in
      \<lparr>mp_inside_ip = inside_ip, mp_outside_ip = outside_ip, mp_inside_vrf_id = inside_vrf_id,
       mp_inside_fib_index = fib_index, mp_port_block_start = port_start, mp_port_block_end = port_end,
       mp_pool_index = pool_index, mp_sw_if_index = sw_if_index, mp_next_port = port_start,
       mp_session_count = 0, mp_sessions_head = nil32,
       mp_port_reuse_timestamps = replicate (unat (size - 1) + 1) 0\<rparr>)"

text \<open>The addresses and ports of a mapping: the operator's, or the deterministic ones.\<close>

datatype mapping_target = Target u32 u16 u16 | No_Target

definition mapping_target :: "cgnat_pool_t \<Rightarrow> u32 \<Rightarrow> u32 \<Rightarrow> u16 \<Rightarrow> u16 \<Rightarrow> mapping_target option" where
  "mapping_target pool inside_ip outside_ip port_start port_end =
     (if pl_mode pool = CGNAT_POOL_MODE_DETERMINISTIC
      then case cgnat_det_lookup_params_inside pool inside_ip of
             None \<Rightarrow> Some No_Target
           | Some dp \<Rightarrow> (case cgnat_det_forward dp inside_ip of
                 None \<Rightarrow> None
               | Some None \<Rightarrow> Some No_Target
               | Some (Some (o', s, e)) \<Rightarrow> Some (Target o' s e))
      else Some (Target outside_ip port_start port_end))"

text \<open>The duplicate of an existing mapping: a no-op when nothing drifted.\<close>

definition mapping_same :: "u32 \<Rightarrow> u16 \<Rightarrow> u16 \<Rightarrow> u32 \<Rightarrow> u32 \<Rightarrow> cgnat_mapping_t \<Rightarrow> bool" where
  "mapping_same outside_ip port_start port_end pool_index sw_if_index existing \<longleftrightarrow>
     mp_outside_ip existing = outside_ip \<and> mp_port_block_start existing = port_start \<and>
     mp_port_block_end existing = port_end \<and> mp_pool_index existing = pool_index \<and>
     mp_sw_if_index existing = sw_if_index"

definition mapping_add ::
  "cfg_ext \<Rightarrow> u32 \<Rightarrow> u32 \<Rightarrow> u32 \<Rightarrow> u32 \<Rightarrow> u32 \<Rightarrow> u32 \<Rightarrow> u32 \<Rightarrow> u16 \<Rightarrow> u16 \<Rightarrow> bool \<Rightarrow> cgnat_main_t \<Rightarrow> cfg_result"
where
  "mapping_add x new pool_index sw_if_index inside_ip inside_vrf_id fib_index outside_ip port_start port_end
     enable_feature cm =
     (case cm_inside_lookup cm (inside_ip, fib_index) of
        Some i \<Rightarrow>
          (case pool_at (cm_mappings cm) i of None \<Rightarrow> (RV_OK, [], cm) | Some existing \<Rightarrow>
             if mapping_same outside_ip port_start port_end pool_index sw_if_index existing then (RV_OK, [], cm)
             else (RV_ENTRY_NEEDS_REFRESH, [], cm))
      | None \<Rightarrow>
          let m = mapping_new inside_ip outside_ip inside_vrf_id fib_index pool_index sw_if_index port_start port_end;
              cm1 = cm\<lparr>cm_mappings := pool_get_put new m (cm_mappings cm),
                       cm_inside_lookup := (cm_inside_lookup cm)((inside_ip, fib_index) \<mapsto> new)\<rparr> in
          if enable_feature then
            let rrv = ip4_sv_reass_enable x sw_if_index in
            if rrv \<noteq> 0 then
              (RV_REASS rrv, [Reass sw_if_index True],
               cm1\<lparr>cm_inside_lookup := (cm_inside_lookup cm1)((inside_ip, fib_index) := None),
                   cm_mappings := pool_put new (cm_mappings cm1)\<rparr>)
            else (RV_OK, [Reass sw_if_index True, Feature sw_if_index True], cm1)
          else (RV_OK, [], cm1))"

text \<open>The loop that deletes the sessions of a mapping from the head of its list.\<close>

partial_function (option) mapping_reap :: "real \<Rightarrow> u32 \<Rightarrow> cgnat_main_t \<Rightarrow> cgnat_main_t option" where
  [code]: "mapping_reap now mi cm =
     (case pool_at (cm_mappings cm) mi of None \<Rightarrow> Some cm | Some m \<Rightarrow>
        if mp_sessions_head m = nil32 then Some cm
        else mapping_reap now mi (cgnat_session_delete now (mp_sessions_head m) cm))"

definition mapping_del :: "real \<Rightarrow> u32 \<Rightarrow> u32 \<Rightarrow> bool \<Rightarrow> cgnat_main_t \<Rightarrow> cfg_result option" where
  "mapping_del now inside_ip fib_index enable_feature cm =
     (case cm_inside_lookup cm (inside_ip, fib_index) of None \<Rightarrow> Some (RV_OK, [], cm) | Some mi \<Rightarrow>
      case pool_at (cm_mappings cm) mi of None \<Rightarrow> Some (RV_OK, [], cm) | Some m \<Rightarrow>
        let fx = (if enable_feature \<or> mp_sw_if_index m \<noteq> nil32
                  then [Feature (mp_sw_if_index m) False, Reass (mp_sw_if_index m) False] else []) in
        map_option (\<lambda>cm1. (RV_OK, fx,
            cm1\<lparr>cm_inside_lookup := (cm_inside_lookup cm1)((inside_ip, fib_index) := None),
                cm_mappings := pool_put mi (cm_mappings cm1)\<rparr>))
          (mapping_reap now mi cm))"

definition cgnat_add_del_subscriber_mapping ::
  "cfg_ext \<Rightarrow> real \<Rightarrow> u32 \<Rightarrow> u32 \<Rightarrow> u32 \<Rightarrow> u32 \<Rightarrow> u32 \<Rightarrow> u32 \<Rightarrow> u16 \<Rightarrow> u16 \<Rightarrow> bool \<Rightarrow> bool \<Rightarrow> cgnat_main_t \<Rightarrow>
     cfg_result option"
where
  "cgnat_add_del_subscriber_mapping x now new pool_id sw_if_index inside_ip inside_vrf_id outside_ip
     port_start port_end enable_feature is_add cm =
     (case cm_pool_by_id cm pool_id of None \<Rightarrow> Some (RV_NO_SUCH_ENTRY, [], cm) | Some pool_index \<Rightarrow>
      case pool_at (cm_pools cm) pool_index of None \<Rightarrow> Some (RV_OK, [], cm) | Some pool \<Rightarrow>
        let fib_index = fib_table_find x inside_vrf_id in
        if fib_index = nil32 then Some (RV_NO_SUCH_FIB, [], cm)
        else if is_add then
          case mapping_target pool inside_ip outside_ip port_start port_end of
            None \<Rightarrow> None
          | Some No_Target \<Rightarrow> Some (RV_NO_SUCH_ENTRY, [], cm)
          | Some (Target o' s e) \<Rightarrow>
              Some (mapping_add x new pool_index sw_if_index inside_ip inside_vrf_id fib_index o' s e enable_feature cm)
        else mapping_del now inside_ip fib_index enable_feature cm)"

section \<open>Interfaces\<close>

definition cgnat_enable_on_session :: "cfg_ext \<Rightarrow> u32 \<Rightarrow> u32 \<Rightarrow> bool \<Rightarrow> cgnat_main_t \<Rightarrow> cfg_result" where
  "cgnat_enable_on_session x pool_id sw_if_index is_enable cm =
     (case cm_pool_by_id cm pool_id of None \<Rightarrow> (RV_NO_SUCH_ENTRY, [], cm) | Some _ \<Rightarrow>
        if is_enable then
          let rrv = ip4_sv_reass_enable x sw_if_index in
          if rrv \<noteq> 0 then (RV_REASS rrv, [Reass sw_if_index True], cm)
          else (RV_OK, [Reass sw_if_index True, Feature sw_if_index True], cm)
        else (RV_OK, [Feature sw_if_index False, Reass sw_if_index False], cm))"

definition cgnat_pool_outside_interface_add_del ::
  "cfg_ext \<Rightarrow> u32 \<Rightarrow> u32 \<Rightarrow> bool \<Rightarrow> cgnat_main_t \<Rightarrow> cfg_result"
where
  "cgnat_pool_outside_interface_add_del x pool_id sw_if_index is_add cm =
     (case cm_pool_by_id cm pool_id of None \<Rightarrow> (RV_NO_SUCH_ENTRY, [], cm) | Some p \<Rightarrow>
      case pool_at (cm_pools cm) p of None \<Rightarrow> (RV_OK, [], cm) | Some pool \<Rightarrow>
        let sws = pl_outside_sw_if_indexes pool;
            set_sws = (\<lambda>sws'. cm\<lparr>cm_pools := pool_upd p (\<lambda>q. q\<lparr>pl_outside_sw_if_indexes := sws'\<rparr>) (cm_pools cm)\<rparr>) in
        if is_add then
          if sw_if_index \<in> set sws then (RV_OK, [], cm)
          else let rrv = ip4_sv_reass_enable x sw_if_index in
               if rrv \<noteq> 0 then (RV_REASS rrv, [Reass sw_if_index True], cm)
               else (RV_OK, [Reass sw_if_index True], set_sws (sws @ [sw_if_index]))
        else case find_index (\<lambda>sw. sw = sw_if_index) sws of
               None \<Rightarrow> (RV_NO_SUCH_ENTRY, [], cm)
             | Some i \<Rightarrow> (RV_OK, [Reass sw_if_index False], set_sws (vec_del1 sws i)))"

section \<open>Prefixes\<close>

definition cgnat_pool_add_outside_prefix :: "cfg_ext \<Rightarrow> u32 \<Rightarrow> fib_prefix_t \<Rightarrow> cgnat_main_t \<Rightarrow> cfg_result" where
  "cgnat_pool_add_outside_prefix x pool_id prefix cm =
     (case cm_pool_by_id cm pool_id of None \<Rightarrow> (RV_NO_SUCH_ENTRY, [], cm) | Some p \<Rightarrow>
      case pool_at (cm_pools cm) p of None \<Rightarrow> (RV_OK, [], cm) | Some pool \<Rightarrow>
        if list_ex (same_prefix prefix) (pl_outside_prefixes pool) then (RV_OK, [], cm)
        else
          let valid = pl_outside_fib_valid pool; fib = pl_outside_fib_index pool;
              fei = (if valid then fib_table_entry_special_dpo_add x fib prefix else nil32) in
          (RV_OK, if valid then [Fib_Dpo_Add fib prefix] else [],
           cm\<lparr>cm_pools := pool_upd p (\<lambda>q. q\<lparr>pl_outside_prefixes := pl_outside_prefixes q @ [prefix],
                 pl_outside_fib_entries := pl_outside_fib_entries q @ [fei],
                 pl_dpo_valid := pl_dpo_valid q \<or> valid\<rparr>) (cm_pools cm)\<rparr>))"

definition cgnat_pool_del_outside_prefix :: "u32 \<Rightarrow> fib_prefix_t \<Rightarrow> cgnat_main_t \<Rightarrow> cfg_result" where
  "cgnat_pool_del_outside_prefix pool_id prefix cm =
     (case cm_pool_by_id cm pool_id of None \<Rightarrow> (RV_NO_SUCH_ENTRY, [], cm) | Some p \<Rightarrow>
      case pool_at (cm_pools cm) p of None \<Rightarrow> (RV_OK, [], cm) | Some pool \<Rightarrow>
        case find_index (same_prefix prefix) (pl_outside_prefixes pool) of
          None \<Rightarrow> (RV_NO_SUCH_ENTRY, [], cm)
        | Some i \<Rightarrow>
            (RV_OK,
             if pl_outside_fib_valid pool \<and> pl_outside_fib_entries pool ! i \<noteq> nil32
             then [Fib_Remove (pl_outside_fib_index pool) prefix] else [],
             cm\<lparr>cm_pools := pool_upd p (\<lambda>q. q\<lparr>pl_outside_prefixes := vec_del1 (pl_outside_prefixes q) i,
                   pl_outside_fib_entries := vec_del1 (pl_outside_fib_entries q) i\<rparr>) (cm_pools cm)\<rparr>))"

definition cgnat_pool_inside_prefix_add_del ::
  "cfg_ext \<Rightarrow> u32 \<Rightarrow> fib_prefix_t \<Rightarrow> u32 \<Rightarrow> bool \<Rightarrow> cgnat_main_t \<Rightarrow> cfg_result"
where
  "cgnat_pool_inside_prefix_add_del x pool_id prefix vrf_id is_add cm =
     (case cm_pool_by_id cm pool_id of None \<Rightarrow> (RV_NO_SUCH_ENTRY, [], cm) | Some p \<Rightarrow>
      case pool_at (cm_pools cm) p of None \<Rightarrow> (RV_OK, [], cm) | Some pool \<Rightarrow>
        let fib_index = fib_table_find x vrf_id;
            set_ps = (\<lambda>ps. cm\<lparr>cm_pools := pool_upd p (\<lambda>q. q\<lparr>pl_inside_prefixes := ps\<rparr>) (cm_pools cm)\<rparr>) in
        if fib_index = nil32 then (RV_NO_SUCH_FIB, [], cm)
        else case find_index (\<lambda>e. same_prefix (ip_prefix e) prefix \<and> ip_vrf_id e = vrf_id) (pl_inside_prefixes pool) of
               Some i \<Rightarrow> (RV_OK, [], if is_add then cm else set_ps (vec_del1 (pl_inside_prefixes pool) i))
             | None \<Rightarrow> (RV_OK, [], if is_add
                 then set_ps (pl_inside_prefixes pool @ [\<lparr>ip_prefix = prefix, ip_vrf_id = vrf_id, ip_fib_index = fib_index\<rparr>])
                 else cm))"

section \<open>Bypass entries\<close>

definition bypass_match :: "u32 \<Rightarrow> fib_prefix_t \<Rightarrow> cgnat_bypass_entry_t \<Rightarrow> bool" where
  "bypass_match fib_index prefix be \<longleftrightarrow> be_fib_index be = fib_index \<and> same_prefix (be_prefix be) prefix"

definition cgnat_add_del_bypass :: "cfg_ext \<Rightarrow> u32 \<Rightarrow> fib_prefix_t \<Rightarrow> u32 \<Rightarrow> bool \<Rightarrow> cgnat_main_t \<Rightarrow> cfg_result" where
  "cgnat_add_del_bypass x new prefix vrf_id is_add cm =
     (let fib_index = fib_table_find x vrf_id in
      if fib_index = nil32 then (RV_NO_SUCH_FIB, [], cm)
      else if is_add then
        (RV_OK, [Fib_Add fib_index prefix],
         cm\<lparr>cm_bypass_entries := pool_get_put new \<lparr>be_prefix = prefix, be_fib_index = fib_index,
              be_fib_entry_index = fib_table_entry_special_add x fib_index prefix\<rparr> (cm_bypass_entries cm),
            cm_bypass_entry_count := cm_bypass_entry_count cm + 1\<rparr>)
      else case pool_select (bypass_match fib_index prefix) (cm_bypass_entries cm) of
             [] \<Rightarrow> (RV_OK, [], cm)
           | i # _ \<Rightarrow> (RV_OK, [Fib_Remove fib_index prefix],
               cm\<lparr>cm_bypass_entries := pool_put i (cm_bypass_entries cm),
                  cm_bypass_entry_count := cm_bypass_entry_count cm - 1\<rparr>))"

section \<open>Message handlers\<close>

text \<open>Zero fields of a pool message take their defaults.\<close>

definition or_default :: "u32 \<Rightarrow> u32 \<Rightarrow> u32" where
  "or_default d t = (if t = 0 then d else t)"

definition pool_msg_defaults :: "cgnat_pool_t \<Rightarrow> cgnat_pool_t" where
  "pool_msg_defaults cfg =
     cfg\<lparr>pl_port_range_start := (if pl_port_range_start cfg = 0 then 1024 else pl_port_range_start cfg),
         pl_port_range_end := (if pl_port_range_end cfg = 0 then 65535 else pl_port_range_end cfg),
         pl_max_sessions_per_sub := or_default 2000 (pl_max_sessions_per_sub cfg),
         pl_timeouts := map2 or_default [7440, 240, 300, 60, 240] (pl_timeouts cfg)\<rparr>"

text \<open>The first version of the message has no timeout for other protocols: it takes UDP's.\<close>

definition timeouts_v1 :: "u32 list \<Rightarrow> u32 list" where
  "timeouts_v1 ts = take 4 ts @ [ts ! CGNAT_PROTO_UDP]"

definition api_pool_add_del :: "real \<Rightarrow> u32 \<Rightarrow> cgnat_pool_t \<Rightarrow> bool \<Rightarrow> cgnat_main_t \<Rightarrow> cfg_result" where
  "api_pool_add_del now new mp is_add cm =
     cgnat_pool_add_del now new (pool_msg_defaults (mp\<lparr>pl_timeouts := timeouts_v1 (pl_timeouts mp)\<rparr>)) is_add cm"

definition api_pool_add_del_v2 :: "real \<Rightarrow> u32 \<Rightarrow> cgnat_pool_t \<Rightarrow> bool \<Rightarrow> cgnat_main_t \<Rightarrow> cfg_result" where
  "api_pool_add_del_v2 now new mp is_add cm = cgnat_pool_add_del now new (pool_msg_defaults mp) is_add cm"

definition api_pool_update :: "u32 \<Rightarrow> u32 \<Rightarrow> u8 \<Rightarrow> u32 list \<Rightarrow> cgnat_main_t \<Rightarrow> cfg_result" where
  "api_pool_update pool_id max_sessions alg_bitmask ts cm =
     cgnat_pool_update pool_id max_sessions alg_bitmask (Some (timeouts_v1 ts)) cm"

definition api_pool_update_v2 :: "u32 \<Rightarrow> u32 \<Rightarrow> u8 \<Rightarrow> u32 list \<Rightarrow> cgnat_main_t \<Rightarrow> cfg_result" where
  "api_pool_update_v2 pool_id max_sessions alg_bitmask ts cm =
     cgnat_pool_update pool_id max_sessions alg_bitmask (Some ts) cm"

definition api_pool_add_del_inside_prefix ::
  "cfg_ext \<Rightarrow> u32 \<Rightarrow> fib_prefix_t \<Rightarrow> u32 \<Rightarrow> bool \<Rightarrow> cgnat_main_t \<Rightarrow> cfg_result"
where
  "api_pool_add_del_inside_prefix x pool_id pfx vrf_id is_add cm =
     (case cm_pool_by_id cm pool_id of None \<Rightarrow> (RV_NO_SUCH_ENTRY, [], cm) | Some p \<Rightarrow>
      case cgnat_pool_inside_prefix_add_del x pool_id pfx vrf_id is_add cm of (rv, fx, cm1) \<Rightarrow>
        if rv \<noteq> RV_OK then (rv, fx, cm1)
        else (rv, fx, cm1\<lparr>cm_pools := pool_upd p (\<lambda>pool.
               if is_add \<and> pl_mode pool = CGNAT_POOL_MODE_DETERMINISTIC
               then pool\<lparr>pl_det_params := pl_det_params pool @ [det_params_new pool pfx]\<rparr> else pool) (cm_pools cm1)\<rparr>))"

definition api_outside_det :: "fib_prefix_t \<Rightarrow> bool \<Rightarrow> cgnat_pool_t \<Rightarrow> cgnat_pool_t" where
  "api_outside_det pfx is_add pool =
     (if is_add \<and> pl_mode pool = CGNAT_POOL_MODE_DETERMINISTIC \<and> pl_det_params pool \<noteq> []
      then pool\<lparr>pl_det_params := (pl_det_params pool)
             [length (pl_det_params pool) - 1 := det_params_outside pfx (last (pl_det_params pool))]\<rparr>
      else pool)"

definition api_pool_add_del_outside_address ::
  "cfg_ext \<Rightarrow> u32 \<Rightarrow> fib_prefix_t \<Rightarrow> bool \<Rightarrow> cgnat_main_t \<Rightarrow> cfg_result"
where
  "api_pool_add_del_outside_address x pool_id pfx is_add cm =
     (case cm_pool_by_id cm pool_id of None \<Rightarrow> (RV_NO_SUCH_ENTRY, [], cm) | Some p \<Rightarrow>
      let cm1 = cm\<lparr>cm_pools := pool_upd p (api_outside_det pfx is_add) (cm_pools cm)\<rparr> in
      if is_add then cgnat_pool_add_outside_prefix x pool_id pfx cm1
      else cgnat_pool_del_outside_prefix pool_id pfx cm1)"

text \<open>One entry of a bulk message, with the pool index its mapping gets; the first failure is the reply.\<close>

record bulk_entry =
  bm_new :: u32
  bm_sw_if_index :: u32
  bm_inside_ip :: u32
  bm_inside_vrf_id :: u32
  bm_outside_ip :: u32
  bm_port_start :: u16
  bm_port_end :: u16
  bm_enable :: bool

fun api_add_subscriber_mapping_bulk ::
  "cfg_ext \<Rightarrow> real \<Rightarrow> u32 \<Rightarrow> bulk_entry list \<Rightarrow> cgnat_main_t \<Rightarrow> cfg_result option"
where
  "api_add_subscriber_mapping_bulk x now pool_id [] cm = Some (RV_OK, [], cm)"
| "api_add_subscriber_mapping_bulk x now pool_id (e # es) cm =
     (case cgnat_add_del_subscriber_mapping x now (bm_new e) pool_id (bm_sw_if_index e) (bm_inside_ip e)
        (bm_inside_vrf_id e) (bm_outside_ip e) (bm_port_start e) (bm_port_end e) (bm_enable e) True cm of
        None \<Rightarrow> None
      | Some (rc, fx, cm1) \<Rightarrow>
          (case api_add_subscriber_mapping_bulk x now pool_id es cm1 of
             None \<Rightarrow> None
           | Some (rc', fx', cm2) \<Rightarrow> Some (if rc \<noteq> RV_OK then rc else rc', fx @ fx', cm2)))"

section \<open>Dumps\<close>

definition count_mappings_for_pool :: "u32 \<Rightarrow> cgnat_main_t \<Rightarrow> nat" where
  "count_mappings_for_pool pool_index cm = length (pool_select (\<lambda>m. mp_pool_index m = pool_index) (cm_mappings cm))"

text \<open>The fields of a pool a dump sends.\<close>

definition pool_dump :: "u32 \<Rightarrow> cgnat_main_t \<Rightarrow> (cgnat_pool_t \<times> nat) list" where
  "pool_dump filter_id cm =
     [(the (pool_at (cm_pools cm) i), count_mappings_for_pool i cm).
        i \<leftarrow> pool_select (\<lambda>p. filter_id = nil32 \<or> pl_pool_id p = filter_id) (cm_pools cm)]"

definition subscriber_mapping_dump :: "u32 \<Rightarrow> cgnat_main_t \<Rightarrow> (u32 \<times> cgnat_mapping_t) list" where
  "subscriber_mapping_dump filter_pool_id cm =
     List.map_filter (\<lambda>i. case pool_at (cm_mappings cm) i of None \<Rightarrow> None | Some m \<Rightarrow>
         (case pool_at (cm_pools cm) (mp_pool_index m) of None \<Rightarrow> None | Some pool \<Rightarrow>
            if filter_pool_id = nil32 \<or> pl_pool_id pool = filter_pool_id then Some (pl_pool_id pool, m) else None))
       (pool_indices (cm_mappings cm))"

text \<open>The filter of a session dump: a zero field matches everything.\<close>

record session_filter =
  sf_inside :: u32
  sf_outside :: u32
  sf_remote :: u32
  sf_inside_port :: u16
  sf_outside_port :: u16
  sf_remote_port :: u16
  sf_proto :: u8
  sf_pool_id :: u32

definition session_matches :: "cgnat_main_t \<Rightarrow> session_filter \<Rightarrow> cgnat_session_t \<Rightarrow> bool" where
  "session_matches cm f s \<longleftrightarrow>
     (sf_inside f = 0 \<or> fl_saddr (ss_i2o s) = sf_inside f) \<and>
     (sf_outside f = 0 \<or> fl_rewrite_saddr (ss_i2o s) = sf_outside f) \<and>
     (sf_remote f = 0 \<or> fl_daddr (ss_i2o s) = sf_remote f) \<and>
     (sf_inside_port f = 0 \<or> bswap16 (fl_sport (ss_i2o s)) = sf_inside_port f) \<and>
     (sf_outside_port f = 0 \<or> bswap16 (fl_rewrite_sport (ss_i2o s)) = sf_outside_port f) \<and>
     (sf_remote_port f = 0 \<or> bswap16 (fl_dport (ss_i2o s)) = sf_remote_port f) \<and>
     (sf_proto f = 0 \<or> fl_proto (ss_i2o s) = sf_proto f) \<and>
     (case pool_at (cm_pools cm) (ss_pool_index s) of None \<Rightarrow> False
      | Some pool \<Rightarrow> sf_pool_id f = 0 \<or> pl_pool_id pool = sf_pool_id f)"

definition CGNAT_SESSION_DUMP_DEFAULT_LIMIT :: u32 where
  "CGNAT_SESSION_DUMP_DEFAULT_LIMIT = 1024"

definition session_dump :: "session_filter \<Rightarrow> u32 \<Rightarrow> u32 \<Rightarrow> cgnat_main_t \<Rightarrow> u32 list" where
  "session_dump f start_index limit cm =
     (let lim = (if limit = 0 then CGNAT_SESSION_DUMP_DEFAULT_LIMIT else limit) in
      take (unat lim) (filter (\<lambda>i. start_index \<le> i) (pool_select (session_matches cm f) (cm_sessions cm))))"

definition session_count :: "cgnat_main_t \<Rightarrow> u64" where
  "session_count cm = of_nat (pool_elts (cm_sessions cm))"

section \<open>Changes that keep the invariant\<close>

lemma cg_inv_pools:
  assumes inv: "cg_inv cm"
    and p: "\<And>i q. pool_at (cm_pools cm) i = Some q \<Longrightarrow> \<exists>q'. pool_at pools i = Some q' \<and> pl_pool_id q' = pl_pool_id q"
    and "\<And>i. pool_at (cm_pools cm) i = None \<Longrightarrow> pool_at pools i = None"
    and "cm_sessions cm' = cm_sessions cm" "cm_mappings cm' = cm_mappings cm" "cm_pools cm' = pools"
    "cm_session_table_in2out cm' = cm_session_table_in2out cm" "cm_inside_lookup cm' = cm_inside_lookup cm"
    "cm_pool_by_id cm' = cm_pool_by_id cm"
  shows "cg_inv cm'"
proof -
  note D = cg_invD [OF inv]
  have mo: "mapping_ok pools (cm_sessions cm) mi m" if "mapping_ok (cm_pools cm) (cm_sessions cm) mi m" for mi m
    using that p by (auto simp: mapping_ok_def)
  have po: "(\<exists>q. pool_at pools i = Some q \<and> pl_pool_id q = id) \<longleftrightarrow>
      (\<exists>q. pool_at (cm_pools cm) i = Some q \<and> pl_pool_id q = id)" for i id
    using p [of i] assms(3) [of i] by (cases "pool_at (cm_pools cm) i") auto
  from inv mo po assms(4-9) show ?thesis unfolding cg_inv_def by simp
qed

lemma cg_inv_pool_upd:
  assumes "cg_inv cm" and "\<And>q. pl_pool_id (f q) = pl_pool_id q"
  shows "cg_inv (cm\<lparr>cm_pools := pool_upd p f (cm_pools cm)\<rparr>)"
  by (rule cg_inv_pools [OF assms(1), where pools = "pool_upd p f (cm_pools cm)"])
    (auto simp: pool_simps assms(2) split: if_splits)

lemma cg_inv_bypass:
  "cg_inv cm \<Longrightarrow> cg_inv (cm\<lparr>cm_bypass_entries := a, cm_bypass_entry_count := b\<rparr>)"
  by (simp add: cg_inv_def)

lemma cg_inv_mapping_free:
  assumes inv: "cg_inv cm" and m: "pool_at (cm_mappings cm) mi = Some m" and o: "owns (cm_sessions cm) mi = {}"
  shows "cg_inv (mapping_free mi cm)"
proof -
  note D = cg_invD [OF inv]
  let ?cm = "mapping_free mi cm"
  have f: "cm_sessions ?cm = cm_sessions cm" "cm_mappings ?cm = pool_put mi (cm_mappings cm)"
    "cm_inside_lookup ?cm = (cm_inside_lookup cm)((mp_inside_ip m, mp_inside_fib_index m) := None)"
    "cm_pools ?cm = cm_pools cm" "cm_pool_by_id ?cm = cm_pool_by_id cm"
    "cm_session_table_in2out ?cm = cm_session_table_in2out cm"
    by (simp_all add: mapping_free_def m)
  have k: "cm_inside_lookup cm (mp_inside_ip m, mp_inside_fib_index m) = Some mi" using D(7) m by blast
  have no: "ss_mapping_index s \<noteq> mi" if "sess_view (cm_sessions cm) si = Some s" for si s
    using that o by (auto simp: owns_def)
  show ?thesis
  proof (rule cg_invI, unfold f)
    show "pool_small (cm_sessions cm)" "pool_at (cm_sessions cm) nil32 = None" by (fact D)+
    show "pool_small (pool_put mi (cm_mappings cm))" using D(2) by (simp add: pool_small_def)
    fix mj m' assume "pool_at (pool_put mi (cm_mappings cm)) mj = Some m'"
    with D(4) show "mapping_ok (cm_pools cm) (cm_sessions cm) mj m'" by (auto simp: pool_simps split: if_splits)
  next
    fix si s assume "sess_view (cm_sessions cm) si = Some s"
    with D(5) no show "\<exists>m. pool_at (pool_put mi (cm_mappings cm)) (ss_mapping_index s) = Some m \<and> session_ok m s"
      by (simp add: pool_simps)
  next
    fix k' si
    show "(cm_session_table_in2out cm k' = Some si) = (\<exists>s. sess_view (cm_sessions cm) si = Some s \<and> flow_key (ss_i2o s) = k')"
      by (rule D(6))
  next
    fix k' mj
    show "(((cm_inside_lookup cm)((mp_inside_ip m, mp_inside_fib_index m) := None)) k' = Some mj) =
        (\<exists>m. pool_at (pool_put mi (cm_mappings cm)) mj = Some m \<and> (mp_inside_ip m, mp_inside_fib_index m) = k')"
      using D(7) [of k' mj] k m by (auto simp: pool_simps)
  next
    fix id pidx
    show "(cm_pool_by_id cm id = Some pidx) = (\<exists>p. pool_at (cm_pools cm) pidx = Some p \<and> pl_pool_id p = id)" by (rule D(8))
  qed
qed

section \<open>Reaping the sessions of a mapping\<close>

lemma list_ok_empty: "list_ok ss mi nil32 c \<Longrightarrow> owns ss mi = {}"
  unfolding list_ok_def using dll_empty by force

lemma mapping_reap_returns:
  assumes "cg_inv cm" and "pool_at (cm_mappings cm) mi \<noteq> None"
  shows "\<exists>cm'. mapping_reap now mi cm = Some cm' \<and> cg_inv cm' \<and> cm_pools cm' = cm_pools cm \<and>
     cm_inside_lookup cm' = cm_inside_lookup cm \<and> cm_pool_by_id cm' = cm_pool_by_id cm \<and>
     (\<forall>j. pool_at (cm_mappings cm') j = None \<longleftrightarrow> pool_at (cm_mappings cm) j = None) \<and>
     sess_view (cm_sessions cm') = (\<lambda>i. if i \<in> owns (cm_sessions cm) mi then None else sess_view (cm_sessions cm) i)"
  using assms
proof (induction "card (owns (cm_sessions cm) mi)" arbitrary: cm rule: less_induct)
  case less
  obtain m where m: "pool_at (cm_mappings cm) mi = Some m" using less.prems(2) by blast
  have l: "list_ok (cm_sessions cm) mi (mp_sessions_head m) (mp_session_count m)"
    using cg_invD(4) [OF less.prems(1) m] by (simp add: mapping_ok_def)
  let ?h = "mp_sessions_head m" and ?cm = "cgnat_session_delete now (mp_sessions_head m) cm"
  show ?case
  proof (cases "?h = nil32")
    case True
    then have "owns (cm_sessions cm) mi = {}" using l list_ok_empty by metis
    with True m less.prems show ?thesis by (simp add: mapping_reap.simps [of now mi cm] fun_eq_iff)
  next
    case False
    have h: "?h \<in> owns (cm_sessions cm) mi" by (rule list_ok_head [OF l False])
    note d = cg_inv_delete [OF less.prems(1), of now ?h]
    have ow: "owns (cm_sessions ?cm) mi = owns (cm_sessions cm) mi - {?h}" by (auto simp: owns_def d(2))
    then have "card (owns (cm_sessions ?cm) mi) < card (owns (cm_sessions cm) mi)"
      using h list_ok_card [OF l] by (simp only: card_Diff1_less)
    moreover have "pool_at (cm_mappings ?cm) mi \<noteq> None" using m d(3) [of mi] by simp
    ultimately obtain cm' where c: "mapping_reap now mi ?cm = Some cm'" "cg_inv cm'"
      "cm_pools cm' = cm_pools ?cm" "cm_inside_lookup cm' = cm_inside_lookup ?cm" "cm_pool_by_id cm' = cm_pool_by_id ?cm"
      "\<forall>j. pool_at (cm_mappings cm') j = None \<longleftrightarrow> pool_at (cm_mappings ?cm) j = None"
      "sess_view (cm_sessions cm') = (\<lambda>i. if i \<in> owns (cm_sessions ?cm) mi then None else sess_view (cm_sessions ?cm) i)"
      using less.hyps [OF _ d(1)] by blast
    obtain s where s: "pool_at (cm_sessions cm) ?h = Some s" using owns_at [OF h] by blast
    have "mapping_reap now mi cm = Some cm'" using c(1) m False by (simp add: mapping_reap.simps [of now mi cm])
    moreover have "sess_view (cm_sessions cm') = (\<lambda>i. if i \<in> owns (cm_sessions cm) mi then None else sess_view (cm_sessions cm) i)"
      using c(7) h by (auto simp: ow d(2) fun_eq_iff)
    ultimately show ?thesis
      using c(2-6) d(3) s by (simp add: session_delete_fields)
  qed
qed

lemma mapping_del_inv:
  assumes inv: "cg_inv cm"
  obtains rv fx cm' where "mapping_del now ip fib en cm = Some (rv, fx, cm')" "rv = RV_OK" "cg_inv cm'"
    "cm_inside_lookup cm' (ip, fib) = None" "cm_pools cm' = cm_pools cm"
    "\<And>si s. sess_view (cm_sessions cm') si = Some s \<longleftrightarrow> sess_view (cm_sessions cm) si = Some s \<and>
        \<not> (fl_saddr (ss_i2o s) = ip \<and> fl_fib_index (ss_i2o s) = fib)"
proof (cases "cm_inside_lookup cm (ip, fib)")
  case None
  have "\<not> (fl_saddr (ss_i2o s) = ip \<and> fl_fib_index (ss_i2o s) = fib)" if s: "sess_view (cm_sessions cm) si = Some s" for si s
  proof -
    obtain m where "pool_at (cm_mappings cm) (ss_mapping_index s) = Some m" "session_ok m s"
      using cg_invD(5) [OF inv s] by blast
    with cg_invD(7) [OF inv, of "(ip, fib)" "ss_mapping_index s"] None show ?thesis by (auto simp: session_ok_def)
  qed
  with None inv show thesis by (intro that [of RV_OK "[]" cm]) (auto simp: mapping_del_def)
next
  case (Some mi)
  note D = cg_invD [OF inv]
  obtain m where m: "pool_at (cm_mappings cm) mi = Some m" "mp_inside_ip m = ip" "mp_inside_fib_index m = fib"
    using D(7) [of "(ip, fib)" mi] Some by auto
  obtain cm1 where r: "mapping_reap now mi cm = Some cm1" "cg_inv cm1" "cm_pools cm1 = cm_pools cm"
    "cm_inside_lookup cm1 = cm_inside_lookup cm" "cm_pool_by_id cm1 = cm_pool_by_id cm"
    "\<forall>j. pool_at (cm_mappings cm1) j = None \<longleftrightarrow> pool_at (cm_mappings cm) j = None"
    "sess_view (cm_sessions cm1) = (\<lambda>i. if i \<in> owns (cm_sessions cm) mi then None else sess_view (cm_sessions cm) i)"
    using mapping_reap_returns [OF inv, of mi now] m(1) by auto
  obtain m1 where m1: "pool_at (cm_mappings cm1) mi = Some m1" using r(6) m(1) by fastforce
  have k1: "mp_inside_ip m1 = ip" "mp_inside_fib_index m1 = fib"
    using cg_invD(7) [OF r(2), of "(ip, fib)" mi] Some r(4) m1 by auto
  have ow: "owns (cm_sessions cm1) mi = {}" by (auto simp: owns_def r(7))
  let ?fx = "if en \<or> mp_sw_if_index m \<noteq> nil32
     then [Feature (mp_sw_if_index m) False, Reass (mp_sw_if_index m) False] else []"
  let ?cm = "mapping_free mi cm1"
  show thesis
  proof (rule that [of RV_OK ?fx ?cm])
    show "mapping_del now ip fib en cm = Some (RV_OK, ?fx, ?cm)"
      using Some m r(1) by (simp add: mapping_del_def mapping_free_def m1 k1 Let_def)
    show "cg_inv ?cm" by (rule cg_inv_mapping_free [OF r(2) m1 ow])
    show "cm_inside_lookup ?cm (ip, fib) = None" by (simp add: mapping_free_def m1 k1)
    show "cm_pools ?cm = cm_pools cm" by (simp add: mapping_free_def m1 r(3))
    fix si s
    have "(ss_mapping_index s = mi) = (fl_saddr (ss_i2o s) = ip \<and> fl_fib_index (ss_i2o s) = fib)"
      if s: "sess_view (cm_sessions cm) si = Some s"
    proof -
      obtain n where n: "pool_at (cm_mappings cm) (ss_mapping_index s) = Some n" "session_ok n s"
        using D(5) [OF s] by blast
      have "(mp_inside_ip n, mp_inside_fib_index n) = (ip, fib) \<longleftrightarrow> ss_mapping_index s = mi"
        using D(7) [of "(ip, fib)" "ss_mapping_index s"] n(1) m Some by auto
      with n(2) show ?thesis by (auto simp: session_ok_def)
    qed
    then show "sess_view (cm_sessions ?cm) si = Some s \<longleftrightarrow> sess_view (cm_sessions cm) si = Some s \<and>
        \<not> (fl_saddr (ss_i2o s) = ip \<and> fl_fib_index (ss_i2o s) = fib)"
      by (auto simp: mapping_free_def m1 r(7) owns_def)
  qed simp
qed

section \<open>Adding a mapping\<close>

lemma mapping_new_wf:
  assumes "s \<le> e" shows "block_wf (mapping_new a b c d f g s e)"
proof -
  have le: "unat s \<le> unat e" using assms by (simp add: word_le_nat_alt)
  have "unat (ucast e - ucast s :: u32) = unat e - unat s"
    using unat_sub_exact [of "ucast s :: u32" "ucast e"] le by (simp add: word_le_nat_alt unat_ucast_up)
  then show ?thesis using assms by (simp add: block_wf_def mapping_new_def Let_def)
qed

lemma list_ok_nil: "owns ss mi = {} \<Longrightarrow> list_ok ss mi nil32 0"
  unfolding list_ok_def by (intro exI [of _ "[]"]) simp

lemma owns_fresh:
  assumes "cg_inv cm" and "pool_at (cm_mappings cm) mi = None" shows "owns (cm_sessions cm) mi = {}"
  using cg_invD(5) [OF assms(1)] assms(2) by (fastforce simp: owns_def)

lemma pool_fresh_small_put: "pool_small p \<Longrightarrow> pool_fresh p i \<Longrightarrow> pool_small (pool_put i (pool_get_put i x p))"
  using get_put_small [of p i x] by (simp add: pool_small_def)

lemma cg_inv_mapping_add:
  assumes inv: "cg_inv cm" and f: "pool_fresh (cm_mappings cm) new" and p: "pool_at (cm_pools cm) pool_index \<noteq> None"
    and "s \<le> e"
    and r: "mapping_add x new pool_index sw ip vrf fib o' s e en cm = (rv, fx, cm')"
  shows "cg_inv cm'"
proof (cases "cm_inside_lookup cm (ip, fib)")
  case (Some i)
  then show ?thesis using inv r by (auto simp: mapping_add_def split: option.splits if_splits)
next
  case None
  note D = cg_invD [OF inv]
  let ?m = "mapping_new ip o' vrf fib pool_index sw s e"
  let ?cm1 = "cm\<lparr>cm_mappings := pool_get_put new ?m (cm_mappings cm), cm_inside_lookup := (cm_inside_lookup cm)((ip, fib) \<mapsto> new)\<rparr>"
  let ?cm2 = "?cm1\<lparr>cm_inside_lookup := (cm_inside_lookup ?cm1)((ip, fib) := None), cm_mappings := pool_put new (cm_mappings ?cm1)\<rparr>"
  have c: "cm' = ?cm1 \<or> cm' = ?cm2"
    using r None by (auto simp: mapping_add_def Let_def split: if_splits)
  have free: "pool_at (cm_mappings cm) new = None" using f by (simp add: pool_fresh_def)
  note ow = owns_fresh [OF inv free]
  have m: "mp_pool_index ?m = pool_index" "mp_inside_ip ?m = ip" "mp_inside_fib_index ?m = fib"
    "mp_sessions_head ?m = nil32" "mp_session_count ?m = 0" by (simp_all add: mapping_new_def Let_def)
  have ok: "mapping_ok (cm_pools cm) (cm_sessions cm) new ?m"
    using mapping_new_wf [OF assms(4)] list_ok_nil [OF ow] p by (simp add: mapping_ok_def m)
  have no: "ss_mapping_index t \<noteq> new" if "sess_view (cm_sessions cm) si = Some t" for si t
    using that ow by (auto simp: owns_def)
  from c show ?thesis
  proof
    assume c1: "cm' = ?cm1"
    have F: "cm_sessions cm' = cm_sessions cm" "cm_mappings cm' = pool_get_put new ?m (cm_mappings cm)"
      "cm_inside_lookup cm' = (cm_inside_lookup cm)((ip, fib) \<mapsto> new)" "cm_pools cm' = cm_pools cm"
      "cm_pool_by_id cm' = cm_pool_by_id cm" "cm_session_table_in2out cm' = cm_session_table_in2out cm"
      by (simp_all add: c1)
    show ?thesis
    proof (rule cg_invI, unfold F)
      show "pool_small (cm_sessions cm)" "pool_at (cm_sessions cm) nil32 = None" by (fact D)+
      show "pool_small (pool_get_put new ?m (cm_mappings cm))" by (rule get_put_small [OF D(2) f])
      fix mj m' assume "pool_at (pool_get_put new ?m (cm_mappings cm)) mj = Some m'"
      with D(4) ok f show "mapping_ok (cm_pools cm) (cm_sessions cm) mj m'" by (auto simp: pool_simps split: if_splits)
    next
      fix si t assume "sess_view (cm_sessions cm) si = Some t"
      with D(5) no f show "\<exists>m. pool_at (pool_get_put new ?m (cm_mappings cm)) (ss_mapping_index t) = Some m \<and> session_ok m t"
        by (simp add: pool_simps)
    next
      fix k si
      show "(cm_session_table_in2out cm k = Some si) = (\<exists>s. sess_view (cm_sessions cm) si = Some s \<and> flow_key (ss_i2o s) = k)"
        by (rule D(6))
    next
      fix k mj
      show "(((cm_inside_lookup cm)((ip, fib) \<mapsto> new)) k = Some mj) =
          (\<exists>m. pool_at (pool_get_put new ?m (cm_mappings cm)) mj = Some m \<and> (mp_inside_ip m, mp_inside_fib_index m) = k)"
        using D(7) [of k mj] D(7) [of k new] None f free by (auto simp: pool_simps m)
    next
      fix id pidx
      show "(cm_pool_by_id cm id = Some pidx) = (\<exists>p. pool_at (cm_pools cm) pidx = Some p \<and> pl_pool_id p = id)" by (rule D(8))
    qed
  next
    assume c2: "cm' = ?cm2"
    have F: "cm_sessions cm' = cm_sessions cm" "cm_inside_lookup cm' = cm_inside_lookup cm" "cm_pools cm' = cm_pools cm"
      "cm_pool_by_id cm' = cm_pool_by_id cm" "cm_session_table_in2out cm' = cm_session_table_in2out cm"
      "pool_small (cm_mappings cm')" "pool_at (cm_mappings cm') = pool_at (cm_mappings cm)"
      using None pool_fresh_small_put [OF D(2) f] free f by (auto simp: c2 fun_eq_iff pool_simps)
    from inv F show ?thesis unfolding cg_inv_def by simp
  qed
qed

section \<open>Deleting a pool\<close>

lemma sessions_kill_inv:
  "cg_inv cm \<Longrightarrow> cg_inv (sessions_kill now sis cm) \<and>
     sess_view (cm_sessions (sessions_kill now sis cm)) = (\<lambda>i. if i \<in> set sis then None else sess_view (cm_sessions cm) i) \<and>
     cm_pools (sessions_kill now sis cm) = cm_pools cm \<and> cm_pool_by_id (sessions_kill now sis cm) = cm_pool_by_id cm"
proof (induction sis arbitrary: cm)
  case Nil
  then show ?case by simp
next
  case (Cons si sis)
  note d = cg_inv_delete [OF Cons.prems, of now si]
  have "cm_pools (cgnat_session_delete now si cm) = cm_pools cm"
    "cm_pool_by_id (cgnat_session_delete now si cm) = cm_pool_by_id cm"
    by (cases "pool_at (cm_sessions cm) si", simp_all add: session_delete_none session_delete_fields)+
  with Cons.IH [OF d(1)] show ?case by (auto simp: d(2) fun_eq_iff)
qed

lemma set_pool_select:
  "pool_small p \<Longrightarrow> set (pool_select P p) = {i. \<exists>x. pool_at p i = Some x \<and> P x}"
  by (auto simp: pool_select_def set_pool_indices split: option.splits)

lemma mapping_free_fields [simp]:
  "cm_sessions (mapping_free mi cm) = cm_sessions cm" "cm_pools (mapping_free mi cm) = cm_pools cm"
  "cm_pool_by_id (mapping_free mi cm) = cm_pool_by_id cm"
  by (simp_all add: mapping_free_def split: option.split)

lemma mapping_free_at: "pool_at (cm_mappings (mapping_free mi cm)) j = (if j = mi then None else pool_at (cm_mappings cm) j)"
  by (auto simp: mapping_free_def pool_simps split: option.split)

lemma mappings_kill_inv:
  "cg_inv cm \<Longrightarrow> \<forall>mi \<in> set mis. owns (cm_sessions cm) mi = {} \<Longrightarrow>
     cg_inv (mappings_kill mis cm) \<and> cm_sessions (mappings_kill mis cm) = cm_sessions cm \<and>
     cm_pools (mappings_kill mis cm) = cm_pools cm \<and> cm_pool_by_id (mappings_kill mis cm) = cm_pool_by_id cm \<and>
     (\<forall>j. pool_at (cm_mappings (mappings_kill mis cm)) j = (if j \<in> set mis then None else pool_at (cm_mappings cm) j))"
proof (induction mis arbitrary: cm)
  case Nil
  then show ?case by simp
next
  case (Cons mi mis)
  have "cg_inv (mapping_free mi cm)"
  proof (cases "pool_at (cm_mappings cm) mi")
    case None
    then show ?thesis using Cons.prems by (simp add: mapping_free_def)
  next
    case (Some m)
    then show ?thesis using cg_inv_mapping_free Cons.prems by simp
  qed
  with Cons.IH [of "mapping_free mi cm"] Cons.prems show ?case by (simp add: mapping_free_at)
qed

lemma pool_del_inv:
  assumes inv: "cg_inv cm" and r: "cgnat_pool_del now pool_id cm = (rv, fx, cm')"
  shows "cg_inv cm'"
proof (cases "cm_pool_by_id cm pool_id")
  case None
  with assms show ?thesis by (simp add: cgnat_pool_del_def)
next
  case (Some pidx)
  note D = cg_invD [OF inv]
  obtain pool where pool: "pool_at (cm_pools cm) pidx = Some pool" "pl_pool_id pool = pool_id"
    using D(8) [of pool_id pidx] Some by blast
  let ?sis = "pool_select (\<lambda>s. ss_pool_index s = pidx) (cm_sessions cm)"
  let ?cm1 = "sessions_kill now ?sis cm"
  let ?mis = "pool_select (\<lambda>m. mp_pool_index m = pidx) (cm_mappings ?cm1)"
  let ?cm2 = "mappings_kill ?mis ?cm1"
  note k = sessions_kill_inv [OF inv, of now ?sis]
  then have i1: "cg_inv ?cm1" by simp
  note D1 = cg_invD [OF i1]
  have "owns (cm_sessions ?cm1) mi = {}" if mi: "mi \<in> set ?mis" for mi
  proof -
    obtain m where m: "pool_at (cm_mappings ?cm1) mi = Some m" "mp_pool_index m = pidx"
      using mi set_pool_select [OF D1(2)] by auto
    have "False" if t: "sess_view (cm_sessions ?cm1) si = Some t" "ss_mapping_index t = mi" for si t
    proof -
      have "ss_pool_index t = pidx" using D1(5) [OF t(1)] t(2) m by (auto simp: session_ok_def)
      moreover have "sess_view (cm_sessions cm) si = Some t" "si \<notin> set ?sis" using t(1) k by (auto split: if_splits)
      ultimately show False using set_pool_select [OF D(1)] by (auto simp: sess_view_def)
    qed
    then show ?thesis by (auto simp: owns_def)
  qed
  with mappings_kill_inv [OF i1, of ?mis] have k2: "cg_inv ?cm2" "cm_sessions ?cm2 = cm_sessions ?cm1"
    "cm_pools ?cm2 = cm_pools ?cm1" "cm_pool_by_id ?cm2 = cm_pool_by_id ?cm1"
    "\<And>j. pool_at (cm_mappings ?cm2) j = (if j \<in> set ?mis then None else pool_at (cm_mappings ?cm1) j)" by blast+
  have none: "mp_pool_index m \<noteq> pidx" if "pool_at (cm_mappings ?cm2) mi = Some m" for mi m
    using that set_pool_select [OF D1(2)] by (auto simp: k2(5) split: if_splits)
  have cm': "cm' = ?cm2\<lparr>cm_pool_by_id := (cm_pool_by_id ?cm2)(pool_id := None), cm_pools := pool_put pidx (cm_pools ?cm2)\<rparr>"
    using r Some pool by (simp add: cgnat_pool_del_def cgnat_pool_cascade_delete_def Let_def)
  note D2 = cg_invD [OF k2(1)]
  have F: "cm_sessions cm' = cm_sessions ?cm2" "cm_mappings cm' = cm_mappings ?cm2" "cm_inside_lookup cm' = cm_inside_lookup ?cm2"
    "cm_pools cm' = pool_put pidx (cm_pools ?cm2)" "cm_pool_by_id cm' = (cm_pool_by_id ?cm2)(pool_id := None)"
    "cm_session_table_in2out cm' = cm_session_table_in2out ?cm2"
    by (simp_all add: cm')
  show ?thesis
  proof (rule cg_invI, unfold F)
    fix mi m assume m: "pool_at (cm_mappings ?cm2) mi = Some m"
    with D2(4) none show "mapping_ok (pool_put pidx (cm_pools ?cm2)) (cm_sessions ?cm2) mi m"
      by (simp add: mapping_ok_def pool_simps)
  next
    fix id i
    have "cm_pool_by_id ?cm2 pool_id = Some pidx" using Some k k2(4) by simp
    then have "(\<exists>p. pool_at (cm_pools ?cm2) pidx = Some p \<and> pl_pool_id p = pool_id)" using D2(8) by blast
    then show "(((cm_pool_by_id ?cm2)(pool_id := None)) id = Some i) =
        (\<exists>p. pool_at (pool_put pidx (cm_pools ?cm2)) i = Some p \<and> pl_pool_id p = id)"
      using D2(8) [of id i] D2(8) [of pool_id i] \<open>cm_pool_by_id ?cm2 pool_id = Some pidx\<close> by (auto simp: pool_simps)
  qed (fact D2 | blast intro: D2)+
qed

section \<open>Every configuration operation keeps the invariant\<close>

lemma cg_inv_pool_add:
  assumes inv: "cg_inv cm" and f: "pool_fresh (cm_pools cm) new" and r: "cgnat_pool_add new cfg cm = (rv, fx, cm')"
  shows "cg_inv cm'"
proof (cases "cm_pool_by_id cm (pl_pool_id cfg)")
  case (Some p)
  with r have "cm' = cm \<or> cm' = cm\<lparr>cm_pools := pool_upd p (cgnat_pool_soft_update cfg) (cm_pools cm)\<rparr>"
    by (auto simp: cgnat_pool_add_def split: option.splits if_splits)
  then show ?thesis using inv cg_inv_pool_upd [OF inv, of "cgnat_pool_soft_update cfg"]
    by (auto simp: cgnat_pool_soft_update_def)
next
  case None
  note D = cg_invD [OF inv]
  have F: "cm_sessions cm' = cm_sessions cm" "cm_mappings cm' = cm_mappings cm" "cm_inside_lookup cm' = cm_inside_lookup cm"
    "cm_pools cm' = pool_get_put new (pool_new cfg) (cm_pools cm)"
    "cm_pool_by_id cm' = (cm_pool_by_id cm)(pl_pool_id cfg \<mapsto> new)"
    "cm_session_table_in2out cm' = cm_session_table_in2out cm"
    using r None by (auto simp: cgnat_pool_add_def)
  have id: "pl_pool_id (pool_new cfg) = pl_pool_id cfg" by (simp add: pool_new_def)
  show ?thesis
  proof (rule cg_invI, unfold F)
    fix mi m assume "pool_at (cm_mappings cm) mi = Some m"
    with D(4) show "mapping_ok (pool_get_put new (pool_new cfg) (cm_pools cm)) (cm_sessions cm) mi m"
      using f by (auto simp: mapping_ok_def pool_simps)
  next
    fix i pidx
    show "(((cm_pool_by_id cm)(pl_pool_id cfg \<mapsto> new)) i = Some pidx) =
        (\<exists>p. pool_at (pool_get_put new (pool_new cfg) (cm_pools cm)) pidx = Some p \<and> pl_pool_id p = i)"
      using D(8) [of i pidx] D(8) [of "pl_pool_id cfg" pidx] D(8) [of i new] None f
      by (auto simp: pool_simps id pool_fresh_def)
  qed (fact D | blast intro: D)+
qed

lemmas pool_op_defs = cgnat_pool_update_def cgnat_set_outside_fib_def cgnat_pool_outside_interface_add_del_def
  cgnat_pool_add_outside_prefix_def cgnat_pool_del_outside_prefix_def cgnat_pool_inside_prefix_add_del_def

text \<open>The operations that only edit a pool in place.\<close>

lemma cg_inv_pool_ops:
  assumes inv: "cg_inv cm"
  shows "cgnat_pool_update a b c d cm = (rv, fx, cm') \<Longrightarrow> cg_inv cm'"
    and "cgnat_set_outside_fib x a b cm = (rv, fx, cm') \<Longrightarrow> cg_inv cm'"
    and "cgnat_pool_outside_interface_add_del x a b on cm = (rv, fx, cm') \<Longrightarrow> cg_inv cm'"
    and "cgnat_pool_add_outside_prefix x a pfx cm = (rv, fx, cm') \<Longrightarrow> cg_inv cm'"
    and "cgnat_pool_del_outside_prefix a pfx cm = (rv, fx, cm') \<Longrightarrow> cg_inv cm'"
    and "cgnat_pool_inside_prefix_add_del x a pfx b on cm = (rv, fx, cm') \<Longrightarrow> cg_inv cm'"
    and "cgnat_enable_on_session x a b on cm = (rv, fx, cm') \<Longrightarrow> cg_inv cm'"
  using inv cg_inv_pool_upd [OF inv]
  by (auto simp: pool_op_defs cgnat_enable_on_session_def Let_def split: option.splits if_splits)

lemma cg_inv_api_prefix:
  assumes inv: "cg_inv cm"
  shows "api_pool_add_del_inside_prefix x a pfx b on cm = (rv, fx, cm') \<Longrightarrow> cg_inv cm'"
    and "api_pool_add_del_outside_address x a pfx on cm = (rv, fx, cm') \<Longrightarrow> cg_inv cm'"
proof -
  show "cg_inv cm'" if r: "api_pool_add_del_inside_prefix x a pfx b on cm = (rv, fx, cm')"
  proof (cases "cm_pool_by_id cm a")
    case None
    with r inv show ?thesis by (simp add: api_pool_add_del_inside_prefix_def)
  next
    case (Some p)
    obtain rv1 fx1 cm1 where c: "cgnat_pool_inside_prefix_add_del x a pfx b on cm = (rv1, fx1, cm1)"
      by (cases "cgnat_pool_inside_prefix_add_del x a pfx b on cm")
    note i = cg_inv_pool_ops(6) [OF inv c]
    from r Some c cg_inv_pool_upd [OF i] i show ?thesis
      by (auto simp: api_pool_add_del_inside_prefix_def split: if_splits)
  qed
  show "cg_inv cm'" if r: "api_pool_add_del_outside_address x a pfx on cm = (rv, fx, cm')"
  proof (cases "cm_pool_by_id cm a")
    case None
    with r inv show ?thesis by (simp add: api_pool_add_del_outside_address_def)
  next
    case (Some p)
    let ?cm = "cm\<lparr>cm_pools := pool_upd p (api_outside_det pfx on) (cm_pools cm)\<rparr>"
    have i: "cg_inv ?cm" by (rule cg_inv_pool_upd [OF inv]) (simp add: api_outside_det_def)
    have "(if on then cgnat_pool_add_outside_prefix x a pfx ?cm else cgnat_pool_del_outside_prefix a pfx ?cm) = (rv, fx, cm')"
      using r Some by (simp only: api_pool_add_del_outside_address_def Let_def option.case)
    then show ?thesis using cg_inv_pool_ops(4,5) [OF i] by (meson)
  qed
qed

lemma cg_inv_bypass_op:
  "cg_inv cm \<Longrightarrow> cgnat_add_del_bypass x new pfx vrf on cm = (rv, fx, cm') \<Longrightarrow> cg_inv cm'"
  by (auto simp: cgnat_add_del_bypass_def Let_def cg_inv_bypass split: if_splits list.splits)

text \<open>The blocks a mapping may be given: the operator's, or those of well-formed parameters.\<close>

definition target_ok :: "cfg_ext \<Rightarrow> u32 \<Rightarrow> u32 \<Rightarrow> u32 \<Rightarrow> u16 \<Rightarrow> u16 \<Rightarrow> cgnat_main_t \<Rightarrow> bool" where
  "target_ok x pool_id inside_ip outside_ip port_start port_end cm \<longleftrightarrow>
     (\<forall>p pool o' s e. cm_pool_by_id cm pool_id = Some p \<longrightarrow> pool_at (cm_pools cm) p = Some pool \<longrightarrow>
        mapping_target pool inside_ip outside_ip port_start port_end = Some (Target o' s e) \<longrightarrow> s \<le> e)"

lemma cg_inv_mapping_op:
  assumes inv: "cg_inv cm" and f: "pool_fresh (cm_mappings cm) new"
    and t: "is_add \<Longrightarrow> target_ok x pool_id inside_ip outside_ip port_start port_end cm"
    and r: "cgnat_add_del_subscriber_mapping x now new pool_id sw inside_ip vrf outside_ip port_start port_end en is_add cm =
       Some (rv, fx, cm')"
  shows "cg_inv cm'"
proof -
  let ?fib = "fib_table_find x vrf"
  show ?thesis
  proof (cases "cm_pool_by_id cm pool_id")
    case None
    with r inv show ?thesis by (simp add: cgnat_add_del_subscriber_mapping_def)
  next
    case (Some p)
    then obtain pool where pool: "pool_at (cm_pools cm) p = Some pool" using cg_invD(8) [OF inv] by blast
    show ?thesis
    proof (cases "?fib = nil32")
      case True
      with r inv Some pool show ?thesis by (simp add: cgnat_add_del_subscriber_mapping_def Let_def)
    next
      case fib: False
      show ?thesis
      proof (cases is_add)
        case False
        have "mapping_del now inside_ip ?fib en cm = Some (rv, fx, cm')"
          using r Some pool fib False by (simp add: cgnat_add_del_subscriber_mapping_def Let_def)
        then show ?thesis using mapping_del_inv [OF inv, of now inside_ip ?fib en] by (metis option.inject prod.inject)
      next
        case True
        with r Some pool fib obtain tg where tg: "mapping_target pool inside_ip outside_ip port_start port_end = Some tg"
          by (auto simp: cgnat_add_del_subscriber_mapping_def Let_def split: option.splits)
        show ?thesis
        proof (cases tg)
          case No_Target
          with r inv Some pool fib True tg show ?thesis by (simp add: cgnat_add_del_subscriber_mapping_def Let_def)
        next
          case (Target o' s e)
          have "s \<le> e" using t [OF True] Some pool tg Target by (auto simp: target_ok_def)
          moreover have "mapping_add x new p sw inside_ip vrf ?fib o' s e en cm = (rv, fx, cm')"
            using r Some pool fib True tg Target by (simp add: cgnat_add_del_subscriber_mapping_def Let_def)
          ultimately show ?thesis using cg_inv_mapping_add [OF inv f _ _, of p] pool by auto
        qed
      qed
    qed
  qed
qed

text \<open>A configuration call on a consistent state never loops; it traps only on a deterministic pool whose
  parameters have no outside prefix yet.\<close>

lemma mapping_op_returns:
  assumes inv: "cg_inv cm"
    and t: "\<And>p pool dp. cm_pool_by_id cm pool_id = Some p \<Longrightarrow> pool_at (cm_pools cm) p = Some pool \<Longrightarrow>
        dp \<in> set (pl_det_params pool) \<Longrightarrow> dt_sharing_ratio dp \<noteq> 0"
  shows "cgnat_add_del_subscriber_mapping x now new pool_id sw inside_ip vrf outside_ip port_start port_end en is_add cm \<noteq> None"
proof (cases "cm_pool_by_id cm pool_id")
  case None
  then show ?thesis by (simp add: cgnat_add_del_subscriber_mapping_def)
next
  case (Some p)
  then obtain pool where pool: "pool_at (cm_pools cm) p = Some pool" using cg_invD(8) [OF inv] by blast
  have d: "mapping_del now inside_ip fib en cm \<noteq> None" for fib
    using mapping_del_inv [OF inv, of now inside_ip fib en] by (metis option.simps(3))
  have "mapping_target pool inside_ip outside_ip port_start port_end \<noteq> None"
    using t [OF Some pool]
    by (auto simp: mapping_target_def cgnat_det_lookup_params_inside_def find_Some_iff cgnat_det_forward_def Let_def
        split: option.splits if_splits)
  with d show ?thesis using Some pool
    by (auto simp: cgnat_add_del_subscriber_mapping_def Let_def simp del: not_None_eq
        split: option.splits mapping_target.splits)
qed

end
