(* ===== verification/Cgnat_Nodes.thy ===== *)
theory Cgnat_Nodes
  imports Cgnat_Inv
begin

text \<open>
  The packet nodes of the NAT plugin: cgnat-in2out and its slow path (osvbng_cgnat_in2out.c),
  cgnat-out2in and its slow path (osvbng_cgnat_out2in.c).

  A packet is the bytes of its buffer from the IP header on, with the buffer metadata the nodes read
  and write.  A buffer always has room behind the packet, so a read past the packet gives some byte,
  as in C.  Multi-byte fields are loaded as a little-endian host loads them.  The lookups of vnet
  (interface to FIB, forwarding, bypass source) and its checksum routines are parameters.
\<close>

section \<open>Bytes\<close>

type_synonym mem = "nat \<Rightarrow> u8"

definition ld16 :: "mem \<Rightarrow> nat \<Rightarrow> u16" where
  "ld16 p a = ucast (p a) OR push_bit 8 (ucast (p (a + 1)))"

definition st16 :: "nat \<Rightarrow> u16 \<Rightarrow> mem \<Rightarrow> mem" where
  "st16 a v p = p(a := ucast v, a + 1 := ucast (drop_bit 8 v))"

definition ld32 :: "mem \<Rightarrow> nat \<Rightarrow> u32" where
  "ld32 p a = ucast (ld16 p a) OR push_bit 16 (ucast (ld16 p (a + 2)))"

definition st32 :: "nat \<Rightarrow> u32 \<Rightarrow> mem \<Rightarrow> mem" where
  "st32 a v p = st16 (a + 2) (ucast (drop_bit 16 v)) (st16 a (ucast v) p)"

section \<open>Headers\<close>

definition ip4_header_bytes :: "mem \<Rightarrow> nat \<Rightarrow> nat" where
  "ip4_header_bytes p ip = 4 * unat (p ip AND 0xF)"

definition ip4_length :: "mem \<Rightarrow> nat \<Rightarrow> nat" where
  "ip4_length p ip = unat (bswap16 (ld16 p (ip + 2)))"

definition ip4_get_fragment_offset :: "mem \<Rightarrow> nat \<Rightarrow> u16" where
  "ip4_get_fragment_offset p ip = bswap16 (ld16 p (ip + 6)) AND 0x1FFF"

definition ip4_protocol :: "mem \<Rightarrow> nat \<Rightarrow> u8" where "ip4_protocol p ip = p (ip + 9)"
definition ip4_src :: "mem \<Rightarrow> nat \<Rightarrow> u32" where "ip4_src p ip = ld32 p (ip + 12)"
definition ip4_dst :: "mem \<Rightarrow> nat \<Rightarrow> u32" where "ip4_dst p ip = ld32 p (ip + 16)"

record cgnat_pkt =
  pk_mem :: mem
  pk_chain_len :: u64
  pk_rx_sw_if :: u32
  pk_tx_fib :: u32
  pk_reass_ip_proto :: u8
  pk_reass_truncated :: bool
  pk_reass_non_first :: bool
  pk_reass_l4_src :: u16
  pk_reass_l4_dst :: u16
  pk_reass_icmp_or_flags :: u8

datatype cgnat_next = NEXT_DROP cgnat_error_t | NEXT_LOOKUP | NEXT_SLOWPATH | NEXT_FEATURE

record node_ext =
  nx_csum :: csum_ext
  ip_csum_update :: "u64 \<Rightarrow> u16 \<Rightarrow> u16 \<Rightarrow> u64"
  ip_incremental_checksum_buffer :: "mem \<Rightarrow> nat \<Rightarrow> nat \<Rightarrow> u64"
  fib_index_by_sw_if_index :: "u32 \<Rightarrow> u32"
  fib_table_lookup :: "u32 \<Rightarrow> fib_prefix_t \<Rightarrow> u32"
  fib_entry_is_bypass_sourced :: "u32 \<Rightarrow> bool"
  ip4_fib_forwarding_lookup :: "u32 \<Rightarrow> u32 \<Rightarrow> u32"
  load_balance_bucket0_is_receive :: "u32 \<Rightarrow> bool"

definition cgnat_is_local_receive :: "node_ext \<Rightarrow> u32 \<Rightarrow> u32 \<Rightarrow> bool" where
  "cgnat_is_local_receive x fib_index dst =
     load_balance_bucket0_is_receive x (ip4_fib_forwarding_lookup x fib_index dst)"

definition cgnat_bypass_check :: "node_ext \<Rightarrow> cgnat_main_t \<Rightarrow> u32 \<Rightarrow> u32 \<Rightarrow> bool" where
  "cgnat_bypass_check x cm inside_ip fib_index =
     (if cm_bypass_entry_count cm = 0 then False
      else let fei = fib_table_lookup x fib_index \<lparr>fp_addr = inside_ip, fp_len = 32\<rparr> in
           if fei = nil32 then False else fib_entry_is_bypass_sourced x fei)"

section \<open>Checksum updates\<close>

definition csum_apply :: "node_ext \<Rightarrow> u64 \<Rightarrow> u16 \<Rightarrow> u16" where
  "csum_apply x delta csum = ip_csum_fold (nx_csum x) (ip_csum_add_even (nx_csum x) (ucast csum) delta)"

text \<open>A UDP checksum of zero means none; a computed zero is sent as all ones.\<close>

definition cgnat_udp_csum_update :: "node_ext \<Rightarrow> u64 \<Rightarrow> u16 \<Rightarrow> u16" where
  "cgnat_udp_csum_update x delta csum =
     (if csum = 0 then 0
      else let c = csum_apply x delta csum in if c = 0 then 0xFFFF else c)"

definition upd16 :: "nat \<Rightarrow> (u16 \<Rightarrow> u16) \<Rightarrow> mem \<Rightarrow> mem" where
  "upd16 a f p = st16 a (f (ld16 p a)) p"

section \<open>Classification\<close>

definition cgnat_in2out_ports_from_reass :: "cgnat_pkt \<Rightarrow> u8 \<Rightarrow> cgnat_error_t + u16 \<times> u16" where
  "cgnat_in2out_ports_from_reass b proto =
     (if pk_reass_ip_proto b \<noteq> proto then Inl CGNAT_ERROR_NO_REASS_METADATA
      else if pk_reass_truncated b then Inl CGNAT_ERROR_NO_REASS_METADATA
      else if pk_reass_non_first b then Inl CGNAT_ERROR_FRAGMENT_DROP
      else if proto = IP_PROTOCOL_TCP \<or> proto = IP_PROTOCOL_UDP then Inr (pk_reass_l4_src b, pk_reass_l4_dst b)
      else if proto = IP_PROTOCOL_ICMP then
        let icmp_type = pk_reass_icmp_or_flags b in
        if icmp_type = ICMP4_echo_request \<or> icmp_type = ICMP4_echo_reply
        then Inr (pk_reass_l4_src b, pk_reass_l4_src b)
        else if \<not> icmp_type_is_error_message icmp_type then Inl CGNAT_ERROR_BAD_ICMP_TYPE
        else Inr (0, 0)
      else Inr (0, 0))"

definition cgnat_out2in_classify :: "mem \<Rightarrow> u8 \<Rightarrow> cgnat_error_t + u16 \<times> u16" where
  "cgnat_out2in_classify p proto =
     (let ip_len = ip4_length p 0; hdr_len = ip4_header_bytes p 0 in
      if ip4_get_fragment_offset p 0 \<noteq> 0 then Inl CGNAT_ERROR_FRAGMENT_DROP
      else if proto = IP_PROTOCOL_TCP \<or> proto = IP_PROTOCOL_UDP then
        if ip_len < hdr_len + 8 then Inl CGNAT_ERROR_TRUNCATED
        else Inr (ld16 p hdr_len, ld16 p (hdr_len + 2))
      else if proto = IP_PROTOCOL_ICMP then
        if ip_len < hdr_len + 4 + 4 then Inl CGNAT_ERROR_TRUNCATED
        else let icmp_type = p hdr_len in
          if icmp_type = ICMP4_echo_request \<or> icmp_type = ICMP4_echo_reply
          then Inr (ld16 p (hdr_len + 4), ld16 p (hdr_len + 4))
          else if \<not> icmp_type_is_error_message icmp_type then Inl CGNAT_ERROR_BAD_ICMP_TYPE
          else Inr (0, 0)
      else Inr (0, 0))"

section \<open>Translation\<close>

definition session_touch :: "real \<Rightarrow> u64 \<Rightarrow> cgnat_session_t \<Rightarrow> cgnat_session_t" where
  "session_touch now len s =
     s\<lparr>ss_last_active := now, ss_total_pkts := ss_total_pkts s + 1, ss_total_bytes := ss_total_bytes s + len\<rparr>"

text \<open>The rewrite of the L4 header: the port (at \<open>off\<close> in TCP and UDP) or the echo identifier, and
  the checksum.\<close>

definition l4_rewrite :: "node_ext \<Rightarrow> u8 \<Rightarrow> nat \<Rightarrow> nat \<Rightarrow> u16 \<Rightarrow> u64 \<Rightarrow> mem \<Rightarrow> mem" where
  "l4_rewrite x proto l4 off new_port l4_delta p =
     (if proto = IP_PROTOCOL_TCP then upd16 (l4 + 16) (csum_apply x l4_delta) (st16 (l4 + off) new_port p)
      else if proto = IP_PROTOCOL_UDP then upd16 (l4 + 6) (cgnat_udp_csum_update x l4_delta) (st16 (l4 + off) new_port p)
      else if proto = IP_PROTOCOL_ICMP \<and> (p l4 = ICMP4_echo_request \<or> p l4 = ICMP4_echo_reply)
      then upd16 (l4 + 2) (csum_apply x l4_delta) (st16 (l4 + 4) new_port p)
      else p)"

definition tcp_track :: "cgnat_main_t \<Rightarrow> cgnat_dir \<Rightarrow> u8 \<Rightarrow> mem \<Rightarrow> nat \<Rightarrow> real \<Rightarrow> cgnat_session_t \<Rightarrow> cgnat_session_t" where
  "tcp_track cm dir proto p l4 now s =
     (if proto = IP_PROTOCOL_TCP then
        (case pool_at (cm_pools cm) (ss_pool_index s) of None \<Rightarrow> s
         | Some pool \<Rightarrow> cgnat_set_tcp_session_state pool (p (l4 + 13)) dir now s)
      else s)"

definition cgnat_in2out_translate ::
  "node_ext \<Rightarrow> real \<Rightarrow> u8 \<Rightarrow> u32 \<Rightarrow> cgnat_session_t \<Rightarrow> cgnat_pkt \<Rightarrow> cgnat_main_t \<Rightarrow> cgnat_pkt \<times> cgnat_main_t"
where
  "cgnat_in2out_translate x now proto si s b cm =
     (let f = ss_i2o s; l4 = ip4_header_bytes (pk_mem b) 0;
          p1 = upd16 10 (csum_apply x (fl_l3_csum_delta f)) (st32 12 (fl_rewrite_saddr f) (pk_mem b)) in
      (b\<lparr>pk_mem := l4_rewrite x proto l4 0 (fl_rewrite_sport f) (fl_l4_csum_delta f) p1\<rparr>,
       cm\<lparr>cm_sessions := pool_upd si (\<lambda>s. tcp_track cm CGNAT_TCP_DIR_I2O proto p1 l4 now
            (session_touch now (pk_chain_len b) s)) (cm_sessions cm)\<rparr>))"

definition cgnat_out2in_translate ::
  "node_ext \<Rightarrow> real \<Rightarrow> u8 \<Rightarrow> u32 \<Rightarrow> cgnat_session_t \<Rightarrow> cgnat_pkt \<Rightarrow> cgnat_main_t \<Rightarrow> cgnat_pkt \<times> cgnat_main_t"
where
  "cgnat_out2in_translate x now proto si s b cm =
     (let f = ss_o2i s; l4 = ip4_header_bytes (pk_mem b) 0;
          p1 = upd16 10 (csum_apply x (fl_l3_csum_delta f)) (st32 16 (fl_rewrite_daddr f) (pk_mem b)) in
      (b\<lparr>pk_mem := l4_rewrite x proto l4 2 (fl_rewrite_dport f) (fl_l4_csum_delta f) p1\<rparr>,
       cm\<lparr>cm_sessions := pool_upd si (\<lambda>s. tcp_track cm CGNAT_TCP_DIR_O2I proto p1 l4 now
            (session_touch now (pk_chain_len b) s)) (cm_sessions cm)\<rparr>))"

section \<open>ICMP errors\<close>

text \<open>Where the quoted packet lies, when it is long enough to be read.\<close>

definition icmp_inner :: "mem \<Rightarrow> (nat \<times> nat) option" where
  "icmp_inner p =
     (let inner = ip4_header_bytes p 0 + 8; ip_len = ip4_length p 0 in
      if ip_len < inner + 20 \<or> ip_len < inner + ip4_header_bytes p inner + 8 then None
      else Some (inner, inner + ip4_header_bytes p inner))"

text \<open>The quoted source and destination ports, or the echo identifier twice.\<close>

definition inner_ports :: "mem \<Rightarrow> nat \<Rightarrow> u8 \<Rightarrow> (u16 \<times> u16) option" where
  "inner_ports p l4 proto =
     (if proto = IP_PROTOCOL_TCP \<or> proto = IP_PROTOCOL_UDP then Some (ld16 p l4, ld16 p (l4 + 2))
      else if proto = IP_PROTOCOL_ICMP then Some (ld16 p (l4 + 4), ld16 p (l4 + 4))
      else None)"

text \<open>The quoted L4 header takes the other identity: its port at \<open>off\<close>, or its identifier.\<close>

definition inner_l4_rewrite :: "node_ext \<Rightarrow> u8 \<Rightarrow> nat \<Rightarrow> nat \<Rightarrow> u16 \<Rightarrow> u64 \<Rightarrow> mem \<Rightarrow> mem" where
  "inner_l4_rewrite x proto l4 off new_port l4_delta p =
     (if proto = IP_PROTOCOL_TCP then st16 (l4 + off) new_port p
      else if proto = IP_PROTOCOL_UDP then upd16 (l4 + 6) (cgnat_udp_csum_update x l4_delta) (st16 (l4 + off) new_port p)
      else if proto = IP_PROTOCOL_ICMP then
        let old_id = ld16 p (l4 + 4) in
        if old_id \<noteq> new_port
        then st16 (l4 + 4) new_port
               (upd16 (l4 + 2) (\<lambda>c. ip_csum_fold (nx_csum x) (ip_csum_update x (ucast c) old_id new_port)) p)
        else p
      else p)"

text \<open>The checksum of the outer ICMP message, computed anew.\<close>

definition icmp_recompute :: "node_ext \<Rightarrow> mem \<Rightarrow> mem" where
  "icmp_recompute x p =
     (let icmp = ip4_header_bytes p 0; p1 = st16 (icmp + 2) 0 p in
      st16 (icmp + 2) (NOT (ip_csum_fold (nx_csum x)
        (ip_incremental_checksum_buffer x p1 icmp (ip4_length p1 0 - icmp)))) p1)"

text \<open>An error about a query does not refresh the query's session.\<close>

definition icmp_touch :: "u8 \<Rightarrow> real \<Rightarrow> u64 \<Rightarrow> cgnat_session_t \<Rightarrow> cgnat_session_t" where
  "icmp_touch inner_proto now len s =
     (let s1 = (if inner_proto \<noteq> IP_PROTOCOL_ICMP then s\<lparr>ss_last_active := now\<rparr> else s) in
      s1\<lparr>ss_total_pkts := ss_total_pkts s + 1, ss_total_bytes := ss_total_bytes s + len\<rparr>)"

definition in2out_icmp_error ::
  "node_ext \<Rightarrow> real \<Rightarrow> u32 \<Rightarrow> cgnat_pkt \<Rightarrow> cgnat_main_t \<Rightarrow> cgnat_next \<times> cgnat_pkt \<times> cgnat_main_t"
where
  "in2out_icmp_error x now fib_index b cm =
     (let p = pk_mem b in
      case icmp_inner p of None \<Rightarrow> (NEXT_DROP CGNAT_ERROR_TRUNCATED, b, cm) | Some (inner, l4) \<Rightarrow>
      let proto = ip4_protocol p inner in
      case inner_ports p l4 proto of None \<Rightarrow> (NEXT_DROP CGNAT_ERROR_NO_SESSION, b, cm) | Some (sport, dport) \<Rightarrow>
      case cgnat_session_lookup_in2out cm (ip4_dst p inner) (ip4_src p inner) dport sport proto fib_index of
        None \<Rightarrow> (NEXT_DROP CGNAT_ERROR_NO_SESSION, b, cm) | Some si \<Rightarrow>
      case pool_at (cm_sessions cm) si of None \<Rightarrow> (NEXT_DROP CGNAT_ERROR_NO_SESSION, b, cm) | Some s \<Rightarrow>
        let f = ss_i2o s;
            p1 = upd16 10 (csum_apply x (fl_l3_csum_delta f)) (st32 12 (fl_rewrite_saddr f) p);
            p2 = upd16 (inner + 10) (csum_apply x (fl_l3_csum_delta f)) (st32 (inner + 16) (fl_rewrite_saddr f) p1);
            p3 = inner_l4_rewrite x proto l4 2 (fl_rewrite_sport f) (fl_l4_csum_delta f) p2 in
        (NEXT_FEATURE, b\<lparr>pk_mem := icmp_recompute x p3, pk_tx_fib := fl_rewrite_fib_index f\<rparr>,
         cm\<lparr>cm_sessions := pool_upd si (icmp_touch proto now (pk_chain_len b)) (cm_sessions cm)\<rparr>))"

definition out2in_icmp_error ::
  "node_ext \<Rightarrow> real \<Rightarrow> u32 \<Rightarrow> cgnat_pkt \<Rightarrow> cgnat_main_t \<Rightarrow> cgnat_next \<times> cgnat_pkt \<times> cgnat_main_t"
where
  "out2in_icmp_error x now fib_index b cm =
     (let p = pk_mem b in
      case icmp_inner p of None \<Rightarrow> (NEXT_DROP CGNAT_ERROR_TRUNCATED, b, cm) | Some (inner, l4) \<Rightarrow>
      let proto = ip4_protocol p inner in
      case inner_ports p l4 proto of None \<Rightarrow> (NEXT_DROP CGNAT_ERROR_NO_SESSION, b, cm) | Some (sport, dport) \<Rightarrow>
      case cgnat_session_lookup_out2in cm (ip4_src p inner) (ip4_dst p inner) sport dport proto fib_index of
        None \<Rightarrow> (NEXT_DROP CGNAT_ERROR_NO_SESSION, b, cm) | Some si \<Rightarrow>
      case pool_at (cm_sessions cm) si of None \<Rightarrow> (NEXT_DROP CGNAT_ERROR_NO_SESSION, b, cm) | Some s \<Rightarrow>
        let f = ss_o2i s;
            p1 = upd16 10 (csum_apply x (fl_l3_csum_delta f)) (st32 16 (fl_rewrite_daddr f) p);
            p2 = upd16 (inner + 10) (csum_apply x (fl_l3_csum_delta f)) (st32 (inner + 12) (fl_rewrite_daddr f) p1);
            p3 = inner_l4_rewrite x proto l4 0 (fl_rewrite_dport f) (fl_l4_csum_delta f) p2 in
        (NEXT_LOOKUP, b\<lparr>pk_mem := icmp_recompute x p3, pk_tx_fib := fl_rewrite_fib_index f\<rparr>,
         cm\<lparr>cm_sessions := pool_upd si (icmp_touch proto now (pk_chain_len b)) (cm_sessions cm)\<rparr>))"

section \<open>The nodes, one packet at a time\<close>

text \<open>An access through a dangling index, which the invariant excludes, drops the packet.\<close>

definition cgnat_in2out_one ::
  "node_ext \<Rightarrow> real \<Rightarrow> cgnat_pkt \<Rightarrow> cgnat_main_t \<Rightarrow> cgnat_next \<times> cgnat_pkt \<times> cgnat_main_t"
where
  "cgnat_in2out_one x now b cm =
     (let p = pk_mem b; proto = ip4_protocol p 0; src = ip4_src p 0; dst = ip4_dst p 0 in
      case cgnat_in2out_ports_from_reass b proto of
        Inl rerr \<Rightarrow> (if rerr = CGNAT_ERROR_FRAGMENT_DROP then NEXT_SLOWPATH else NEXT_DROP rerr, b, cm)
      | Inr (src_port, dst_port) \<Rightarrow>
          let fib_index = fib_index_by_sw_if_index x (pk_rx_sw_if b) in
          if cgnat_bypass_check x cm src fib_index then (NEXT_FEATURE, b, cm)
          else if cgnat_is_local_receive x fib_index dst then (NEXT_FEATURE, b, cm)
          else case cgnat_mapping_lookup cm src fib_index of None \<Rightarrow> (NEXT_DROP CGNAT_ERROR_NO_MAPPING, b, cm) | Some mi \<Rightarrow>
          case pool_at (cm_mappings cm) mi of None \<Rightarrow> (NEXT_DROP CGNAT_ERROR_NO_MAPPING, b, cm) | Some m \<Rightarrow>
          case pool_at (cm_pools cm) (mp_pool_index m) of None \<Rightarrow> (NEXT_DROP CGNAT_ERROR_NO_POOL, b, cm) | Some pool \<Rightarrow>
          if \<not> pl_outside_fib_valid pool then (NEXT_DROP CGNAT_ERROR_NO_POOL, b, cm)
          else case cgnat_session_lookup_in2out cm src dst src_port dst_port proto fib_index of
            None \<Rightarrow> (NEXT_SLOWPATH, b, cm) | Some si \<Rightarrow>
          case pool_at (cm_sessions cm) si of None \<Rightarrow> (NEXT_DROP CGNAT_ERROR_NO_SESSION, b, cm) | Some s \<Rightarrow>
          case cgnat_in2out_translate x now proto si s b cm of (b1, cm1) \<Rightarrow>
            (NEXT_FEATURE, b1\<lparr>pk_tx_fib := pl_outside_fib_index pool\<rparr>, cm1))"

definition in2out_fragment :: "node_ext \<Rightarrow> u32 \<Rightarrow> cgnat_pkt \<Rightarrow> cgnat_main_t \<Rightarrow> cgnat_next \<times> cgnat_pkt" where
  "in2out_fragment x fib_index b cm =
     (let p = pk_mem b in
      case cgnat_frag_rewrite_lookup cm (ip4_src p 0) (ip4_dst p 0) (ip4_protocol p 0) fib_index of
        None \<Rightarrow> (NEXT_DROP CGNAT_ERROR_FRAGMENT_DROP, b) | Some fri \<Rightarrow>
      case pool_at (cm_frag_rewrite_pool cm) fri of None \<Rightarrow> (NEXT_DROP CGNAT_ERROR_FRAGMENT_DROP, b) | Some fr \<Rightarrow>
        (NEXT_FEATURE, b\<lparr>pk_mem := upd16 10 (csum_apply x (fr_l3_csum_delta_i2o fr)) (st32 12 (fr_outside_ip fr) p),
                         pk_tx_fib := fr_outside_fib_index fr\<rparr>))"

text \<open>The slow path's translation: the session found, or one made with a port of the block.  \<open>si\<close> and
  \<open>fi\<close> are the pool indices a new session and a new fragment record get.\<close>

definition in2out_slow_session ::
  "node_ext \<Rightarrow> real \<Rightarrow> u32 \<Rightarrow> u32 \<Rightarrow> u32 \<Rightarrow> cgnat_mapping_t \<Rightarrow> u32 \<Rightarrow> u16 \<Rightarrow> u16 \<Rightarrow> u8 \<Rightarrow> cgnat_main_t \<Rightarrow>
     (cgnat_error_t + u32) option \<times> cgnat_main_t"
where
  "in2out_slow_session x now si fi mi m dst src_port dst_port proto cm =
     (let needs_port = \<not> cgnat_is_unk_proto proto;
          (outside_port, cm1) = (if needs_port
             then case cgnat_port_alloc m now of (port, m1) \<Rightarrow> (port, cm\<lparr>cm_mappings := pool_upd mi (\<lambda>_. m1) (cm_mappings cm)\<rparr>)
             else (0, cm)) in
      if needs_port \<and> outside_port = 0 then (Some (Inl CGNAT_ERROR_PORT_EXHAUSTED), cm1)
      else case cgnat_session_create (nx_csum x) si fi mi dst dst_port proto outside_port src_port now cm1 of
             None \<Rightarrow> (None, cm1)
           | Some (None, cm2) \<Rightarrow>
               (Some (Inl CGNAT_ERROR_SESSION_LIMIT),
                if needs_port then cm2\<lparr>cm_mappings := pool_upd mi (cgnat_port_free now outside_port) (cm_mappings cm2)\<rparr>
                else cm2)
           | Some (Some si, cm2) \<Rightarrow> (Some (Inr si), cm2))"

definition cgnat_in2out_slowpath_one ::
  "node_ext \<Rightarrow> real \<Rightarrow> u32 \<Rightarrow> u32 \<Rightarrow> cgnat_pkt \<Rightarrow> cgnat_main_t \<Rightarrow> (cgnat_next \<times> cgnat_pkt \<times> cgnat_main_t) option"
where
  "cgnat_in2out_slowpath_one x now si fi b cm =
     (let p = pk_mem b; proto = ip4_protocol p 0; src = ip4_src p 0; dst = ip4_dst p 0;
          fib_index = fib_index_by_sw_if_index x (pk_rx_sw_if b) in
      if pk_reass_non_first b then Some (case in2out_fragment x fib_index b cm of (n, b1) \<Rightarrow> (n, b1, cm))
      else if proto = IP_PROTOCOL_ICMP \<and> icmp_type_is_error_message (pk_reass_icmp_or_flags b)
      then Some (in2out_icmp_error x now fib_index b cm)
      else case cgnat_in2out_ports_from_reass b proto of
        Inl rerr \<Rightarrow> Some (NEXT_DROP rerr, b, cm)
      | Inr (src_port, dst_port) \<Rightarrow>
          (case cgnat_mapping_lookup cm src fib_index of None \<Rightarrow> Some (NEXT_DROP CGNAT_ERROR_NO_MAPPING, b, cm) | Some mi \<Rightarrow>
          case pool_at (cm_mappings cm) mi of None \<Rightarrow> Some (NEXT_DROP CGNAT_ERROR_NO_MAPPING, b, cm) | Some m \<Rightarrow>
          case pool_at (cm_pools cm) (mp_pool_index m) of None \<Rightarrow> Some (NEXT_DROP CGNAT_ERROR_NO_POOL, b, cm) | Some pool \<Rightarrow>
          if \<not> pl_outside_fib_valid pool then Some (NEXT_DROP CGNAT_ERROR_NO_POOL, b, cm)
          else
            let (found, cm1) = (case cgnat_session_lookup_in2out cm src dst src_port dst_port proto fib_index of
                  Some i \<Rightarrow> (Some (Inr i), cm)
                | None \<Rightarrow> in2out_slow_session x now si fi mi m dst src_port dst_port proto cm) in
            case found of
              None \<Rightarrow> None
            | Some (Inl err) \<Rightarrow> Some (NEXT_DROP err, b, cm1)
            | Some (Inr i) \<Rightarrow>
                (case pool_at (cm_sessions cm1) i of None \<Rightarrow> Some (NEXT_DROP CGNAT_ERROR_NO_SESSION, b, cm1) | Some s \<Rightarrow>
                 case cgnat_in2out_translate x now proto i s b cm1 of (b1, cm2) \<Rightarrow>
                   Some (NEXT_FEATURE, b1\<lparr>pk_tx_fib := pl_outside_fib_index pool\<rparr>, cm2))))"

definition cgnat_out2in_one ::
  "node_ext \<Rightarrow> real \<Rightarrow> cgnat_pkt \<Rightarrow> cgnat_main_t \<Rightarrow> cgnat_next \<times> cgnat_pkt \<times> cgnat_main_t"
where
  "cgnat_out2in_one x now b cm =
     (let p = pk_mem b; proto = ip4_protocol p 0 in
      case cgnat_out2in_classify p proto of
        Inl rerr \<Rightarrow> (if rerr = CGNAT_ERROR_FRAGMENT_DROP then NEXT_SLOWPATH else NEXT_DROP rerr, b, cm)
      | Inr (src_port, dst_port) \<Rightarrow>
          let fib_index = fib_index_by_sw_if_index x (pk_rx_sw_if b) in
          case cgnat_session_lookup_out2in cm (ip4_dst p 0) (ip4_src p 0) dst_port src_port proto fib_index of
            None \<Rightarrow> (NEXT_SLOWPATH, b, cm) | Some si \<Rightarrow>
          case pool_at (cm_sessions cm) si of None \<Rightarrow> (NEXT_SLOWPATH, b, cm) | Some s \<Rightarrow>
          case cgnat_out2in_translate x now proto si s b cm of (b1, cm1) \<Rightarrow>
            (NEXT_LOOKUP, b1\<lparr>pk_tx_fib := fl_rewrite_fib_index (ss_o2i s)\<rparr>, cm1))"

definition out2in_fragment :: "node_ext \<Rightarrow> u32 \<Rightarrow> cgnat_pkt \<Rightarrow> cgnat_main_t \<Rightarrow> cgnat_next \<times> cgnat_pkt" where
  "out2in_fragment x fib_index b cm =
     (let p = pk_mem b in
      case cgnat_frag_rewrite_lookup cm (ip4_src p 0) (ip4_dst p 0) (ip4_protocol p 0) fib_index of
        None \<Rightarrow> (NEXT_DROP CGNAT_ERROR_FRAGMENT_DROP, b) | Some fri \<Rightarrow>
      case pool_at (cm_frag_rewrite_pool cm) fri of None \<Rightarrow> (NEXT_DROP CGNAT_ERROR_FRAGMENT_DROP, b) | Some fr \<Rightarrow>
        (NEXT_LOOKUP, b\<lparr>pk_mem := upd16 10 (csum_apply x (fr_l3_csum_delta_o2i fr)) (st32 16 (fr_inside_ip fr) p),
                        pk_tx_fib := fr_inside_fib_index fr\<rparr>))"

definition cgnat_out2in_slowpath_one ::
  "node_ext \<Rightarrow> real \<Rightarrow> cgnat_pkt \<Rightarrow> cgnat_main_t \<Rightarrow> cgnat_next \<times> cgnat_pkt \<times> cgnat_main_t"
where
  "cgnat_out2in_slowpath_one x now b cm =
     (let p = pk_mem b; fib_index = fib_index_by_sw_if_index x (pk_rx_sw_if b) in
      if ip4_get_fragment_offset p 0 \<noteq> 0
      then case out2in_fragment x fib_index b cm of (n, b1) \<Rightarrow> (n, b1, cm)
      else if ip4_protocol p 0 = IP_PROTOCOL_ICMP \<and> icmp_type_is_error_message (p (ip4_header_bytes p 0))
      then out2in_icmp_error x now fib_index b cm
      else (NEXT_DROP CGNAT_ERROR_NO_SESSION, b, cm))"

section \<open>The nodes on a frame\<close>

fun cgnat_in2out_node ::
  "node_ext \<Rightarrow> real \<Rightarrow> cgnat_pkt list \<Rightarrow> cgnat_main_t \<Rightarrow> (cgnat_next \<times> cgnat_pkt) list \<times> cgnat_main_t"
where
  "cgnat_in2out_node x now [] cm = ([], cm)"
| "cgnat_in2out_node x now (b # bs) cm =
     (case cgnat_in2out_one x now b cm of (n, b1, cm1) \<Rightarrow>
      case cgnat_in2out_node x now bs cm1 of (out, cm2) \<Rightarrow> ((n, b1) # out, cm2))"

fun cgnat_in2out_slowpath_node ::
  "node_ext \<Rightarrow> real \<Rightarrow> (u32 \<times> u32 \<times> cgnat_pkt) list \<Rightarrow> cgnat_main_t \<Rightarrow>
     ((cgnat_next \<times> cgnat_pkt) list \<times> cgnat_main_t) option"
where
  "cgnat_in2out_slowpath_node x now [] cm = Some ([], cm)"
| "cgnat_in2out_slowpath_node x now ((si, fi, b) # bs) cm =
     (case cgnat_in2out_slowpath_one x now si fi b cm of None \<Rightarrow> None | Some (n, b1, cm1) \<Rightarrow>
      map_option (\<lambda>(out, cm2). ((n, b1) # out, cm2)) (cgnat_in2out_slowpath_node x now bs cm1))"

fun cgnat_out2in_node ::
  "node_ext \<Rightarrow> real \<Rightarrow> cgnat_pkt list \<Rightarrow> cgnat_main_t \<Rightarrow> (cgnat_next \<times> cgnat_pkt) list \<times> cgnat_main_t"
where
  "cgnat_out2in_node x now [] cm = ([], cm)"
| "cgnat_out2in_node x now (b # bs) cm =
     (case cgnat_out2in_one x now b cm of (n, b1, cm1) \<Rightarrow>
      case cgnat_out2in_node x now bs cm1 of (out, cm2) \<Rightarrow> ((n, b1) # out, cm2))"

fun cgnat_out2in_slowpath_node ::
  "node_ext \<Rightarrow> real \<Rightarrow> cgnat_pkt list \<Rightarrow> cgnat_main_t \<Rightarrow> (cgnat_next \<times> cgnat_pkt) list \<times> cgnat_main_t"
where
  "cgnat_out2in_slowpath_node x now [] cm = ([], cm)"
| "cgnat_out2in_slowpath_node x now (b # bs) cm =
     (case cgnat_out2in_slowpath_one x now b cm of (n, b1, cm1) \<Rightarrow>
      case cgnat_out2in_slowpath_node x now bs cm1 of (out, cm2) \<Rightarrow> ((n, b1) # out, cm2))"

section \<open>The nodes keep the invariant\<close>

text \<open>An update of a session's bookkeeping.\<close>

lemma pool_upd_view:
  assumes "\<And>s. ss_mapping_next (f s) = ss_mapping_next s" "\<And>s. ss_mapping_prev (f s) = ss_mapping_prev s"
  shows "sess_nx (pool_upd i f ss) = sess_nx ss" "sess_pv (pool_upd i f ss) = sess_pv ss"
    "sess_view (pool_upd i f ss) j = (if j = i then map_option (\<lambda>s. bare (f s)) (pool_at ss i) else sess_view ss j)"
  using assms by (auto simp: fun_eq_iff sess_nx_def sess_pv_def sess_view_def pool_simps option.map_comp comp_def
      split: option.split)

lemma cg_inv_session_upd:
  assumes inv: "cg_inv cm"
    and f: "\<And>s. ss_mapping_next (f s) = ss_mapping_next s" "\<And>s. ss_mapping_prev (f s) = ss_mapping_prev s"
      "\<And>s. ss_mapping_index (f s) = ss_mapping_index s" "\<And>s. ss_pool_index (f s) = ss_pool_index s"
      "\<And>s. ss_i2o (f s) = ss_i2o s" "\<And>s. ss_o2i (f s) = ss_o2i s"
  shows "cg_inv (cm\<lparr>cm_sessions := pool_upd i f (cm_sessions cm)\<rparr>)"
proof -
  note D = cg_invD [OF inv]
  let ?ss = "cm_sessions cm" and ?ss' = "pool_upd i f (cm_sessions cm)"
  note v = pool_upd_view [of f, OF f(1,2)]
  have fwd: "\<exists>t. sess_view ?ss j = Some t \<and> ss_mapping_index t = ss_mapping_index s \<and>
      ss_pool_index t = ss_pool_index s \<and> ss_i2o t = ss_i2o s \<and> ss_o2i t = ss_o2i s"
    if "sess_view ?ss' j = Some s" for j s
    using that by (auto simp: sess_view_def pool_simps f split: if_splits)
  have bwd: "\<exists>s. sess_view ?ss' j = Some s \<and> ss_mapping_index t = ss_mapping_index s \<and>
      ss_pool_index t = ss_pool_index s \<and> ss_i2o t = ss_i2o s \<and> ss_o2i t = ss_o2i s"
    if "sess_view ?ss j = Some t" for j t
    using that by (auto simp: sess_view_def pool_simps f split: if_splits)
  have ow: "owns ?ss' mi = owns ?ss mi" for mi
    unfolding owns_def using fwd bwd by (intro Collect_cong) metis
  let ?cm = "cm\<lparr>cm_sessions := ?ss'\<rparr>"
  have F: "cm_sessions ?cm = ?ss'" "cm_mappings ?cm = cm_mappings cm" "cm_inside_lookup ?cm = cm_inside_lookup cm"
    "cm_pools ?cm = cm_pools cm" "cm_pool_by_id ?cm = cm_pool_by_id cm"
    "cm_session_table_in2out ?cm = cm_session_table_in2out cm" by simp_all
  show ?thesis
  proof (rule cg_invI, unfold F)
    show "pool_small ?ss'" using D(1) by (simp add: pool_small_def)
    show "pool_at ?ss' nil32 = None" using D(3) by (auto simp: pool_simps)
    fix mi m assume "pool_at (cm_mappings cm) mi = Some m"
    with D(4) show "mapping_ok (cm_pools cm) ?ss' mi m"
      by (simp add: mapping_ok_def list_ok_def v(1,2) ow)
  next
    fix si s assume "sess_view ?ss' si = Some s"
    with fwd obtain t where t: "sess_view ?ss si = Some t" "ss_mapping_index t = ss_mapping_index s"
      "ss_pool_index t = ss_pool_index s" "ss_i2o t = ss_i2o s" "ss_o2i t = ss_o2i s" by blast
    with D(5) [OF t(1)] show "\<exists>m. pool_at (cm_mappings cm) (ss_mapping_index s) = Some m \<and> session_ok m s"
      by (simp add: session_ok_def)
  next
    fix k si
    show "(cm_session_table_in2out cm k = Some si) = (\<exists>s. sess_view ?ss' si = Some s \<and> flow_key (ss_i2o s) = k)"
      unfolding D(6) using fwd bwd by metis
  qed (fact D | blast intro: D)+
qed

lemma set_tcp_fields [simp]:
  "ss_mapping_next (cgnat_set_tcp_session_state pool fl dir now s) = ss_mapping_next s"
  "ss_mapping_prev (cgnat_set_tcp_session_state pool fl dir now s) = ss_mapping_prev s"
  "ss_mapping_index (cgnat_set_tcp_session_state pool fl dir now s) = ss_mapping_index s"
  "ss_pool_index (cgnat_set_tcp_session_state pool fl dir now s) = ss_pool_index s"
  "ss_i2o (cgnat_set_tcp_session_state pool fl dir now s) = ss_i2o s"
  "ss_o2i (cgnat_set_tcp_session_state pool fl dir now s) = ss_o2i s"
  by (auto simp: cgnat_set_tcp_session_state_def tcp_next_state_def ss_flags_or_def Let_def
      split: cgnat_dir.split cgnat_tcp_state_e.split)

lemma tcp_track_fields [simp]:
  "ss_mapping_next (tcp_track cm dir pr p l now s) = ss_mapping_next s"
  "ss_mapping_prev (tcp_track cm dir pr p l now s) = ss_mapping_prev s"
  "ss_mapping_index (tcp_track cm dir pr p l now s) = ss_mapping_index s"
  "ss_pool_index (tcp_track cm dir pr p l now s) = ss_pool_index s"
  "ss_i2o (tcp_track cm dir pr p l now s) = ss_i2o s" "ss_o2i (tcp_track cm dir pr p l now s) = ss_o2i s"
  by (auto simp: tcp_track_def split: option.split)

lemma touch_fields [simp]:
  "ss_mapping_next (session_touch now n s) = ss_mapping_next s" "ss_mapping_prev (session_touch now n s) = ss_mapping_prev s"
  "ss_mapping_index (session_touch now n s) = ss_mapping_index s" "ss_pool_index (session_touch now n s) = ss_pool_index s"
  "ss_i2o (session_touch now n s) = ss_i2o s" "ss_o2i (session_touch now n s) = ss_o2i s"
  "ss_mapping_next (icmp_touch pr now n s) = ss_mapping_next s" "ss_mapping_prev (icmp_touch pr now n s) = ss_mapping_prev s"
  "ss_mapping_index (icmp_touch pr now n s) = ss_mapping_index s" "ss_pool_index (icmp_touch pr now n s) = ss_pool_index s"
  "ss_i2o (icmp_touch pr now n s) = ss_i2o s" "ss_o2i (icmp_touch pr now n s) = ss_o2i s"
  by (simp_all add: session_touch_def icmp_touch_def Let_def)

lemma cg_inv_translate:
  assumes "cg_inv cm"
  shows "cgnat_in2out_translate x now pr si s b cm = (b', cm') \<Longrightarrow> cg_inv cm'"
    and "cgnat_out2in_translate x now pr si s b cm = (b', cm') \<Longrightarrow> cg_inv cm'"
  using cg_inv_session_upd [OF assms, of "\<lambda>s. tcp_track cm d pr p l now (session_touch now (pk_chain_len b) s)" si for d p l]
  by (auto simp: cgnat_in2out_translate_def cgnat_out2in_translate_def Let_def)

lemma cg_inv_icmp:
  assumes "cg_inv cm"
  shows "in2out_icmp_error x now fib b cm = (n, b', cm') \<Longrightarrow> cg_inv cm'"
    and "out2in_icmp_error x now fib b cm = (n, b', cm') \<Longrightarrow> cg_inv cm'"
  using assms cg_inv_session_upd [OF assms, of "icmp_touch pr now (pk_chain_len b)" for pr]
  by (auto simp: in2out_icmp_error_def out2in_icmp_error_def Let_def split: option.splits prod.splits)

lemma cg_inv_out2in:
  assumes "cg_inv cm"
  shows "cgnat_out2in_one x now b cm = (n, b', cm') \<Longrightarrow> cg_inv cm'"
    and "cgnat_out2in_slowpath_one x now b cm = (n, b', cm') \<Longrightarrow> cg_inv cm'"
    and "cgnat_in2out_one x now b cm = (n, b', cm') \<Longrightarrow> cg_inv cm'"
  using assms cg_inv_translate [OF assms] cg_inv_icmp [OF assms]
  by (auto simp: cgnat_out2in_one_def cgnat_out2in_slowpath_one_def cgnat_in2out_one_def Let_def
      split: option.splits prod.splits sum.splits if_splits)

text \<open>An update of a mapping's allocator.\<close>

lemma cg_inv_mapping_upd:
  assumes inv: "cg_inv cm" and m: "pool_at (cm_mappings cm) mi = Some m"
    and f: "mp_inside_ip (f m) = mp_inside_ip m" "mp_outside_ip (f m) = mp_outside_ip m"
      "mp_inside_fib_index (f m) = mp_inside_fib_index m" "mp_pool_index (f m) = mp_pool_index m"
      "mp_port_block_start (f m) = mp_port_block_start m" "mp_port_block_end (f m) = mp_port_block_end m"
      "mp_sessions_head (f m) = mp_sessions_head m" "mp_session_count (f m) = mp_session_count m"
    and wf: "block_wf m \<Longrightarrow> block_wf (f m)"
  shows "cg_inv (cm\<lparr>cm_mappings := pool_upd mi f (cm_mappings cm)\<rparr>)"
proof -
  note D = cg_invD [OF inv]
  let ?cm = "cm\<lparr>cm_mappings := pool_upd mi f (cm_mappings cm)\<rparr>"
  have F: "cm_sessions ?cm = cm_sessions cm" "cm_mappings ?cm = pool_upd mi f (cm_mappings cm)"
    "cm_inside_lookup ?cm = cm_inside_lookup cm" "cm_pools ?cm = cm_pools cm" "cm_pool_by_id ?cm = cm_pool_by_id cm"
    "cm_session_table_in2out ?cm = cm_session_table_in2out cm" by simp_all
  have at: "pool_at (pool_upd mi f (cm_mappings cm)) j = (if j = mi then Some (f m) else pool_at (cm_mappings cm) j)" for j
    using m by (simp add: pool_simps)
  show ?thesis
  proof (rule cg_invI, unfold F)
    show "pool_small (pool_upd mi f (cm_mappings cm))" using D(2) by (simp add: pool_small_def)
    fix mj m' assume m': "pool_at (pool_upd mi f (cm_mappings cm)) mj = Some m'"
    show "mapping_ok (cm_pools cm) (cm_sessions cm) mj m'"
    proof (cases "mj = mi")
      case True
      with m' at have "m' = f m" by simp
      with D(4) [OF m] True wf show ?thesis by (simp add: mapping_ok_def f)
    next
      case False
      with m' at D(4) show ?thesis by simp
    qed
  next
    fix si s assume "sess_view (cm_sessions cm) si = Some s"
    with D(5) obtain n where "pool_at (cm_mappings cm) (ss_mapping_index s) = Some n" "session_ok n s" by blast
    then show "\<exists>m. pool_at (pool_upd mi f (cm_mappings cm)) (ss_mapping_index s) = Some m \<and> session_ok m s"
      using m f by (auto simp: at session_ok_def)
  next
    fix k mj
    show "(cm_inside_lookup cm k = Some mj) =
        (\<exists>m. pool_at (pool_upd mi f (cm_mappings cm)) mj = Some m \<and> (mp_inside_ip m, mp_inside_fib_index m) = k)"
      using D(7) [of k mj] m f by (auto simp: at)
  qed (fact D | blast intro: D)+
qed

lemma port_alloc_fields:
  assumes "block_wf m" and "cgnat_port_alloc m now = (p, m')"
  shows "mp_inside_ip m' = mp_inside_ip m" "mp_outside_ip m' = mp_outside_ip m"
    "mp_inside_fib_index m' = mp_inside_fib_index m" "mp_pool_index m' = mp_pool_index m"
    "mp_port_block_start m' = mp_port_block_start m" "mp_port_block_end m' = mp_port_block_end m"
    "mp_sessions_head m' = mp_sessions_head m" "mp_session_count m' = mp_session_count m"
    "mp_sw_if_index m' = mp_sw_if_index m"
proof -
  obtain q where "m' = m\<lparr>mp_next_port := q\<rparr>" using port_alloc_wf(2) [OF assms] by blast
  then show "mp_inside_ip m' = mp_inside_ip m" "mp_outside_ip m' = mp_outside_ip m"
    "mp_inside_fib_index m' = mp_inside_fib_index m" "mp_pool_index m' = mp_pool_index m"
    "mp_port_block_start m' = mp_port_block_start m" "mp_port_block_end m' = mp_port_block_end m"
    "mp_sessions_head m' = mp_sessions_head m" "mp_session_count m' = mp_session_count m"
    "mp_sw_if_index m' = mp_sw_if_index m" by simp_all
qed

lemma cg_inv_slow_session:
  assumes inv: "cg_inv cm" and m: "pool_at (cm_mappings cm) mi = Some m" and f: "pool_fresh (cm_sessions cm) si"
    and r: "in2out_slow_session x now si fi mi m dst src_port dst_port proto cm = (res, cm')"
    and new: "cgnat_session_lookup_in2out cm (mp_inside_ip m) dst src_port dst_port proto (mp_inside_fib_index m) = None"
    and icmp: "proto = IP_PROTOCOL_ICMP \<Longrightarrow> dst_port = src_port"
  shows "cg_inv cm'"
proof -
  obtain port m1 where a: "cgnat_port_alloc m now = (port, m1)" by (cases "cgnat_port_alloc m now")
  have wf: "block_wf m" using cg_invD(4) [OF inv m] by (simp add: mapping_ok_def)
  note w = port_alloc_wf [OF wf a] and af = port_alloc_fields [OF wf a]
  let ?need = "\<not> cgnat_is_unk_proto proto"
  let ?cm1 = "if ?need then cm\<lparr>cm_mappings := pool_upd mi (\<lambda>_. m1) (cm_mappings cm)\<rparr> else cm"
  let ?port = "if ?need then port else 0"
  have i1: "cg_inv ?cm1" using inv cg_inv_mapping_upd [OF inv m, of "\<lambda>_. m1"] af w(1) by simp
  have s1: "cm_sessions ?cm1 = cm_sessions cm" "cm_session_table_in2out ?cm1 = cm_session_table_in2out cm" by simp_all
  obtain m2 where m2: "pool_at (cm_mappings ?cm1) mi = Some m2" "mp_inside_ip m2 = mp_inside_ip m"
    "mp_inside_fib_index m2 = mp_inside_fib_index m" "mp_port_block_start m2 = mp_port_block_start m"
    "mp_port_block_end m2 = mp_port_block_end m"
    using m af by (cases ?need) (auto simp: pool_simps)
  show ?thesis
  proof (cases "?need \<and> port = 0")
    case True
    then have "cm' = ?cm1" using r a by (simp add: in2out_slow_session_def Let_def)
    with i1 show ?thesis by simp
  next
    case False
    have i2: "cg_inv cm2" if c: "cgnat_session_create (nx_csum x) si fi mi dst dst_port proto ?port src_port now ?cm1 = Some (o', cm2)"
      for o' cm2
    proof (rule cg_inv_create [OF i1 _ c])
      show "pool_fresh (cm_sessions ?cm1) si" using f s1 by simp
      fix m3 assume m3: "pool_at (cm_mappings ?cm1) mi = Some m3"
      with m2 have m3': "m3 = m2" by simp
      show "mp_port_block_start m3 \<le> ?port \<and> ?port \<le> mp_port_block_end m3" if "\<not> cgnat_is_unk_proto proto"
        using False that w(3) m2 unfolding m3' by simp
      show "cgnat_session_lookup_in2out ?cm1 (mp_inside_ip m3) dst src_port
          (if proto = IP_PROTOCOL_ICMP then src_port else dst_port) proto (mp_inside_fib_index m3) = None"
        using new icmp m2 s1(2) unfolding m3' cgnat_session_lookup_in2out_def by (cases "proto = IP_PROTOCOL_ICMP") auto
    qed
    show ?thesis
    proof (cases "cgnat_session_create (nx_csum x) si fi mi dst dst_port proto ?port src_port now ?cm1")
      case None
      then have "cm' = ?cm1" using r a False by (auto simp: in2out_slow_session_def Let_def split: if_splits)
      with i1 show ?thesis by simp
    next
      case (Some oc)
      obtain o' cm2 where oc: "oc = (o', cm2)" by (cases oc)
      note i3 = i2 [OF Some [unfolded oc]]
      have "cm' = cm2 \<or> cm' = cm2\<lparr>cm_mappings := pool_upd mi (cgnat_port_free now port) (cm_mappings cm2)\<rparr>"
        using r a False Some oc by (auto simp: in2out_slow_session_def Let_def split: if_splits option.splits)
      moreover have "cg_inv (cm2\<lparr>cm_mappings := pool_upd mi (cgnat_port_free now port) (cm_mappings cm2)\<rparr>)"
      proof (cases "pool_at (cm_mappings cm2) mi")
        case None
        then have "pool_upd mi (cgnat_port_free now port) (cm_mappings cm2) = cm_mappings cm2"
          by (auto simp: pool_upd_def pool_at_def split: if_splits) (metis list_update_id)
        then show ?thesis using i3 by simp
      next
        case (Some m4)
        then show ?thesis by (intro cg_inv_mapping_upd [OF i3 Some]) (simp_all add: port_free_wf)
      qed
      ultimately show ?thesis using i3 by auto
    qed
  qed
qed

lemma ports_icmp: "cgnat_in2out_ports_from_reass b IP_PROTOCOL_ICMP = Inr (sp, dp) \<Longrightarrow> dp = sp"
  by (auto simp: cgnat_in2out_ports_from_reass_def proto_defs Let_def split: if_splits)

lemma cg_inv_in2out_slow:
  assumes inv: "cg_inv cm" and f: "pool_fresh (cm_sessions cm) si"
    and r: "cgnat_in2out_slowpath_one x now si fi b cm = Some (n, b', cm')"
  shows "cg_inv cm'"
proof -
  let ?p = "pk_mem b"
  let ?proto = "ip4_protocol ?p 0" and ?src = "ip4_src ?p 0" and ?dst = "ip4_dst ?p 0"
  let ?fib = "fib_index_by_sw_if_index x (pk_rx_sw_if b)"
  note defs = cgnat_in2out_slowpath_one_def Let_def
  show ?thesis
  proof (cases "pk_reass_non_first b")
    case True
    with r inv show ?thesis by (simp add: defs split: prod.splits)
  next
    case nf: False
    show ?thesis
    proof (cases "?proto = IP_PROTOCOL_ICMP \<and> icmp_type_is_error_message (pk_reass_icmp_or_flags b)")
      case True
      with r nf have "in2out_icmp_error x now ?fib b cm = (n, b', cm')" by (simp add: defs)
      then show ?thesis by (rule cg_inv_icmp(1) [OF inv])
    next
      case ne: False
      show ?thesis
      proof (cases "cgnat_in2out_ports_from_reass b ?proto")
        case (Inl e)
        with r nf ne inv show ?thesis by (auto simp: defs)
      next
        case (Inr ports)
        obtain sp dp where ports: "ports = (sp, dp)" by (cases ports)
        note r1 = r [unfolded defs, simplified nf ne Inr ports sum.case prod.case if_False]
        show ?thesis
        proof (cases "cgnat_mapping_lookup cm ?src ?fib")
          case None
          with r1 inv show ?thesis by simp
        next
          case (Some mi)
          then obtain m where m: "pool_at (cm_mappings cm) mi = Some m" "mp_inside_ip m = ?src" "mp_inside_fib_index m = ?fib"
            using cg_invD(7) [OF inv, of "(?src, ?fib)" mi] by (auto simp: cgnat_mapping_lookup_def)
          define res where "res = (case cgnat_session_lookup_in2out cm ?src ?dst sp dp ?proto ?fib of
                  Some i \<Rightarrow> (Some (Inr i), cm)
                | None \<Rightarrow> in2out_slow_session x now si fi mi m ?dst sp dp ?proto cm)"
          obtain found cm1 where res: "res = (found, cm1)" by (cases res)
          have i1: "cg_inv cm1"
          proof (cases "cgnat_session_lookup_in2out cm ?src ?dst sp dp ?proto ?fib")
            case None
            with res have s: "in2out_slow_session x now si fi mi m ?dst sp dp ?proto cm = (found, cm1)" by (simp add: res_def)
            show ?thesis
              by (rule cg_inv_slow_session [OF inv m(1) f s])
                (use None m(2,3) Inr ports ports_icmp in auto)
          next
            case (Some i)
            with res inv show ?thesis by (simp add: res_def)
          qed
          note r2 = r1 [unfolded Some option.case m(1), folded res_def]
          show ?thesis
            using r2 inv i1 cg_inv_translate(1) [OF i1]
            by (auto simp: res split: option.splits if_splits sum.splits prod.splits)
        qed
      qed
    qed
  qed
qed

end
