(* ===== verification/Cgnat_Reach.thy ===== *)
theory Cgnat_Reach
  imports Cgnat_Config Cgnat_Nodes
begin

text \<open>
  The NAT plugin as a whole: the states its operations reach from the empty one, in any order, and
  the properties that hold in all of them.  What vnet answers may differ from step to step, so the
  parameters are those of the step.
\<close>

definition cgnat_init :: cgnat_main_t where
  "cgnat_init = \<lparr>cm_pools = [], cm_pool_by_id = (\<lambda>_. None), cm_mappings = [], cm_inside_lookup = (\<lambda>_. None),
     cm_sessions = [], cm_session_table_in2out = (\<lambda>_. None), cm_session_table_out2in = (\<lambda>_. None),
     cm_frag_rewrite_pool = [], cm_frag_aux = (\<lambda>_. None), cm_bypass_entries = [], cm_bypass_entry_count = 0\<rparr>"

inductive cgnat_reach :: "cgnat_main_t \<Rightarrow> bool" where
  init: "cgnat_reach cgnat_init"
| in2out: "cgnat_reach cm \<Longrightarrow> cgnat_in2out_one x now b cm = (n, b', cm') \<Longrightarrow> cgnat_reach cm'"
| in2out_slow: "cgnat_reach cm \<Longrightarrow> pool_fresh (cm_sessions cm) si \<Longrightarrow> pool_fresh (cm_frag_rewrite_pool cm) fi \<Longrightarrow>
    cgnat_in2out_slowpath_one x now si fi b cm = Some (n, b', cm') \<Longrightarrow> cgnat_reach cm'"
| out2in: "cgnat_reach cm \<Longrightarrow> cgnat_out2in_one x now b cm = (n, b', cm') \<Longrightarrow> cgnat_reach cm'"
| out2in_slow: "cgnat_reach cm \<Longrightarrow> cgnat_out2in_slowpath_one x now b cm = (n, b', cm') \<Longrightarrow> cgnat_reach cm'"
| expire: "cgnat_reach cm \<Longrightarrow> cgnat_reach (cgnat_session_expire_walk now table cm)"
| pool: "cgnat_reach cm \<Longrightarrow> pool_fresh (cm_pools cm) new \<Longrightarrow>
    api_pool_add_del_v2 now new cfg is_add cm = (rv, fx, cm') \<Longrightarrow> cgnat_reach cm'"
| pool_v1: "cgnat_reach cm \<Longrightarrow> pool_fresh (cm_pools cm) new \<Longrightarrow>
    api_pool_add_del now new cfg is_add cm = (rv, fx, cm') \<Longrightarrow> cgnat_reach cm'"
| update: "cgnat_reach cm \<Longrightarrow> cgnat_pool_update pool_id ms alg ts cm = (rv, fx, cm') \<Longrightarrow> cgnat_reach cm'"
| outside_fib: "cgnat_reach cm \<Longrightarrow> cgnat_set_outside_fib cx pool_id vrf cm = (rv, fx, cm') \<Longrightarrow> cgnat_reach cm'"
| enable: "cgnat_reach cm \<Longrightarrow> cgnat_enable_on_session cx pool_id sw on cm = (rv, fx, cm') \<Longrightarrow> cgnat_reach cm'"
| outside_if: "cgnat_reach cm \<Longrightarrow>
    cgnat_pool_outside_interface_add_del cx pool_id sw is_add cm = (rv, fx, cm') \<Longrightarrow> cgnat_reach cm'"
| inside_prefix: "cgnat_reach cm \<Longrightarrow>
    api_pool_add_del_inside_prefix cx pool_id pfx vrf is_add cm = (rv, fx, cm') \<Longrightarrow> cgnat_reach cm'"
| outside_address: "cgnat_reach cm \<Longrightarrow>
    api_pool_add_del_outside_address cx pool_id pfx is_add cm = (rv, fx, cm') \<Longrightarrow> cgnat_reach cm'"
| mapping: "cgnat_reach cm \<Longrightarrow> pool_fresh (cm_mappings cm) new \<Longrightarrow>
    (is_add \<Longrightarrow> target_ok cx pool_id inside_ip outside_ip port_start port_end cm) \<Longrightarrow>
    cgnat_add_del_subscriber_mapping cx now new pool_id sw inside_ip vrf outside_ip port_start port_end en is_add cm =
      Some (rv, fx, cm') \<Longrightarrow> cgnat_reach cm'"
| bypass: "cgnat_reach cm \<Longrightarrow> cgnat_add_del_bypass cx new pfx vrf is_add cm = (rv, fx, cm') \<Longrightarrow> cgnat_reach cm'"

lemma cg_inv_init: "cg_inv cgnat_init"
  by (simp add: cg_inv_def cgnat_init_def pool_small_def pool_at_def sess_view_def)

lemma cg_inv_pool_add_del:
  assumes "cg_inv cm" and "pool_fresh (cm_pools cm) new" and "cgnat_pool_add_del now new cfg is_add cm = (rv, fx, cm')"
  shows "cg_inv cm'"
  using assms cg_inv_pool_add [OF assms(1,2)] pool_del_inv [OF assms(1)]
  by (cases is_add) (auto simp: cgnat_pool_add_del_def)

lemma cgnat_reach_inv: "cgnat_reach cm \<Longrightarrow> cg_inv cm"
proof (induction rule: cgnat_reach.induct)
  case init
  show ?case by (rule cg_inv_init)
next
  case in2out
  then show ?case using cg_inv_out2in(3) by blast
next
  case in2out_slow
  then show ?case using cg_inv_in2out_slow by blast
next
  case out2in
  then show ?case using cg_inv_out2in(1) by blast
next
  case out2in_slow
  then show ?case using cg_inv_out2in(2) by blast
next
  case expire
  then show ?case by (simp add: cgnat_session_expire_walk_def cg_inv_expire)
next
  case pool
  then show ?case using cg_inv_pool_add_del unfolding api_pool_add_del_v2_def by blast
next
  case pool_v1
  then show ?case using cg_inv_pool_add_del unfolding api_pool_add_del_def by blast
next
  case update
  then show ?case using cg_inv_pool_ops(1) by blast
next
  case outside_fib
  then show ?case using cg_inv_pool_ops(2) by blast
next
  case enable
  then show ?case using cg_inv_pool_ops(7) by blast
next
  case outside_if
  then show ?case using cg_inv_pool_ops(3) by blast
next
  case inside_prefix
  then show ?case using cg_inv_api_prefix(1) by blast
next
  case outside_address
  then show ?case using cg_inv_api_prefix(2) by blast
next
  case (mapping cm new is_add cx pool_id inside_ip outside_ip port_start port_end now sw vrf en rv fx cm')
  from mapping.IH mapping.hyps(2-4) show ?case by (rule cg_inv_mapping_op)
next
  case bypass
  then show ?case using cg_inv_bypass_op by blast
qed

section \<open>Bytes written and read back\<close>

lemma ld16_st16_same [simp]: "ld16 (st16 a v p) a = v"
proof (rule bit_word_eqI)
  fix n assume "n < LENGTH(16)"
  then show "bit (ld16 (st16 a v p) a) n = bit v n"
    by (auto simp: ld16_def st16_def bit_simps)
qed

lemma ld16_st16_other [simp]: "a + 2 \<le> b \<or> b + 2 \<le> a \<Longrightarrow> ld16 (st16 a v p) b = ld16 p b"
  by (auto simp: ld16_def st16_def)

lemma st16_byte [simp]: "b < a \<or> a + 2 \<le> b \<Longrightarrow> st16 a v p b = p b"
  by (auto simp: st16_def)

lemma ld32_st32_same [simp]: "ld32 (st32 a v p) a = v"
proof (rule bit_word_eqI)
  fix n assume "n < LENGTH(32)"
  then show "bit (ld32 (st32 a v p) a) n = bit v n"
    by (auto simp: ld32_def st32_def bit_simps)
qed

lemma ld32_st16_other [simp]: "a + 2 \<le> b \<or> b + 4 \<le> a \<Longrightarrow> ld32 (st16 a v p) b = ld32 p b"
  by (auto simp: ld32_def)

lemma ld32_st32_other [simp]: "a + 4 \<le> b \<or> b + 4 \<le> a \<Longrightarrow> ld32 (st32 a v p) b = ld32 p b"
  by (auto simp: st32_def)

lemma ld16_st32_other [simp]: "a + 4 \<le> b \<or> b + 2 \<le> a \<Longrightarrow> ld16 (st32 a v p) b = ld16 p b"
  by (auto simp: st32_def)

lemma st32_byte [simp]: "b < a \<or> a + 4 \<le> b \<Longrightarrow> st32 a v p b = p b"
  by (auto simp: st32_def)

lemma upd16_byte [simp]: "b < a \<or> a + 2 \<le> b \<Longrightarrow> upd16 a f p b = p b"
  by (simp add: upd16_def)

lemma ld16_upd16_same [simp]: "ld16 (upd16 a f p) a = f (ld16 p a)"
  by (simp add: upd16_def)

lemma ld16_upd16_other [simp]: "a + 2 \<le> b \<or> b + 2 \<le> a \<Longrightarrow> ld16 (upd16 a f p) b = ld16 p b"
  by (simp add: upd16_def)

lemma ld32_upd16_other [simp]: "a + 2 \<le> b \<or> b + 4 \<le> a \<Longrightarrow> ld32 (upd16 a f p) b = ld32 p b"
  by (simp add: upd16_def)

section \<open>What a translation does to the addresses and ports\<close>

lemma header_bytes_cong: "p ip = q ip \<Longrightarrow> ip4_header_bytes p ip = ip4_header_bytes q ip"
  by (simp add: ip4_header_bytes_def)

lemma tcp_udp_not_icmp: "pr = IP_PROTOCOL_TCP \<or> pr = IP_PROTOCOL_UDP \<Longrightarrow> pr \<noteq> IP_PROTOCOL_ICMP"
  by (auto simp: proto_defs)

lemma in2out_translate_tuple:
  assumes t: "cgnat_in2out_translate x now pr si s b cm = (b1, cm1)"
    and pr: "pr = IP_PROTOCOL_TCP \<or> pr = IP_PROTOCOL_UDP" and hl: "20 \<le> ip4_header_bytes (pk_mem b) 0"
  defines "l4 \<equiv> ip4_header_bytes (pk_mem b) 0"
  shows "ip4_src (pk_mem b1) 0 = fl_rewrite_saddr (ss_i2o s)" "ip4_dst (pk_mem b1) 0 = ip4_dst (pk_mem b) 0"
    and "ip4_protocol (pk_mem b1) 0 = ip4_protocol (pk_mem b) 0" "ip4_header_bytes (pk_mem b1) 0 = l4"
    and "ld16 (pk_mem b1) l4 = fl_rewrite_sport (ss_i2o s)" "ld16 (pk_mem b1) (l4 + 2) = ld16 (pk_mem b) (l4 + 2)"
proof -
  have hl': "20 \<le> l4" using hl by (simp add: l4_def)
  have m: "pk_mem b1 = l4_rewrite x pr l4 0 (fl_rewrite_sport (ss_i2o s)) (fl_l4_csum_delta (ss_i2o s))
      (upd16 10 (csum_apply x (fl_l3_csum_delta (ss_i2o s))) (st32 12 (fl_rewrite_saddr (ss_i2o s)) (pk_mem b)))"
    using t by (auto simp: cgnat_in2out_translate_def Let_def l4_def)
  show "ip4_src (pk_mem b1) 0 = fl_rewrite_saddr (ss_i2o s)" "ip4_dst (pk_mem b1) 0 = ip4_dst (pk_mem b) 0"
    "ip4_protocol (pk_mem b1) 0 = ip4_protocol (pk_mem b) 0"
    "ld16 (pk_mem b1) l4 = fl_rewrite_sport (ss_i2o s)" "ld16 (pk_mem b1) (l4 + 2) = ld16 (pk_mem b) (l4 + 2)"
    using hl' pr unfolding m
    by (auto simp: l4_rewrite_def ip4_src_def ip4_dst_def ip4_protocol_def proto_defs)
  have "pk_mem b1 0 = pk_mem b 0" using hl' pr unfolding m by (auto simp: l4_rewrite_def proto_defs)
  then show "ip4_header_bytes (pk_mem b1) 0 = l4" unfolding l4_def by (rule header_bytes_cong)
qed

lemma out2in_translate_tuple:
  assumes t: "cgnat_out2in_translate x now pr si s b cm = (b1, cm1)"
    and pr: "pr = IP_PROTOCOL_TCP \<or> pr = IP_PROTOCOL_UDP" and hl: "20 \<le> ip4_header_bytes (pk_mem b) 0"
  defines "l4 \<equiv> ip4_header_bytes (pk_mem b) 0"
  shows "ip4_dst (pk_mem b1) 0 = fl_rewrite_daddr (ss_o2i s)" "ip4_src (pk_mem b1) 0 = ip4_src (pk_mem b) 0"
    and "ld16 (pk_mem b1) (l4 + 2) = fl_rewrite_dport (ss_o2i s)" "ld16 (pk_mem b1) l4 = ld16 (pk_mem b) l4"
proof -
  have hl': "20 \<le> l4" using hl by (simp add: l4_def)
  have m: "pk_mem b1 = l4_rewrite x pr l4 2 (fl_rewrite_dport (ss_o2i s)) (fl_l4_csum_delta (ss_o2i s))
      (upd16 10 (csum_apply x (fl_l3_csum_delta (ss_o2i s))) (st32 16 (fl_rewrite_daddr (ss_o2i s)) (pk_mem b)))"
    using t by (auto simp: cgnat_out2in_translate_def Let_def l4_def)
  show "ip4_dst (pk_mem b1) 0 = fl_rewrite_daddr (ss_o2i s)" "ip4_src (pk_mem b1) 0 = ip4_src (pk_mem b) 0"
    "ld16 (pk_mem b1) (l4 + 2) = fl_rewrite_dport (ss_o2i s)" "ld16 (pk_mem b1) l4 = ld16 (pk_mem b) l4"
    using hl' pr unfolding m
    by (auto simp: l4_rewrite_def ip4_src_def ip4_dst_def proto_defs)
qed

section \<open>The session a packet uses\<close>

text \<open>The fib indices in use fit the 16 bits a session key keeps of them.\<close>

definition fibs_fit :: "cgnat_main_t \<Rightarrow> bool" where
  "fibs_fit cm \<longleftrightarrow> (\<forall>mi m. pool_at (cm_mappings cm) mi = Some m \<longrightarrow> unat (mp_inside_fib_index m) < 65536)"

lemma fib_lo16_inject:
  assumes "unat (a :: u32) < 65536" "unat (b :: u32) < 65536" "(ucast a :: u16) = ucast b" shows "a = b"
proof -
  have "unat (ucast a :: u16) = unat (ucast b :: u16)" using assms(3) by simp
  then show ?thesis using assms(1,2) by (simp add: unat_ucast_mod word_unat_eq_iff)
qed

text \<open>The session an in2out lookup finds is the subscriber's own.\<close>

lemma in2out_session_owner:
  assumes inv: "cg_inv cm"
    and s: "cgnat_session_lookup_in2out cm src dst sp dp pr fib = Some i" "pool_at (cm_sessions cm) i = Some s"
  obtains n where "pool_at (cm_mappings cm) (ss_mapping_index s) = Some n" "session_ok n s"
    "mp_inside_ip n = src" "(ucast (mp_inside_fib_index n) :: u16) = ucast fib" "fl_proto (ss_i2o s) = pr"
proof -
  note D = cg_invD [OF inv]
  obtain t where t: "sess_view (cm_sessions cm) i = Some t" "flow_key (ss_i2o t) = cgnat_session_make_key src dst sp dp pr fib"
    using D(6) s(1) unfolding cgnat_session_lookup_in2out_def by blast
  have ts: "t = bare s" using t(1) s(2) by (simp add: sess_view_def)
  obtain n where n: "pool_at (cm_mappings cm) (ss_mapping_index t) = Some n" "session_ok n t" using D(5) [OF t(1)] by blast
  have k: "fl_saddr (ss_i2o s) = src" "(ucast (fl_fib_index (ss_i2o s)) :: u16) = ucast fib" "fl_proto (ss_i2o s) = pr"
    using t(2) by (simp_all add: ts flow_key_def cgnat_session_make_key_def)
  have "session_ok n s" using n(2) by (simp add: ts session_ok_def)
  moreover from this have "mp_inside_ip n = src" "(ucast (mp_inside_fib_index n) :: u16) = ucast fib"
    using k by (simp_all add: session_ok_def)
  ultimately show thesis using that [of n] n(1) k(3) by (simp add: ts)
qed

text \<open>When the indices in use fit 16 bits, it is the mapping the lookup of the packet's source finds.\<close>

lemma owner_found:
  assumes inv: "cg_inv cm" and m: "cm_inside_lookup cm (src, fib) = Some mi"
    and n: "pool_at (cm_mappings cm) ni = Some n" "mp_inside_ip n = src" "(ucast (mp_inside_fib_index n) :: u16) = ucast fib"
    and fits: "fibs_fit cm"
  shows "ni = mi"
proof -
  note D = cg_invD [OF inv]
  obtain m where mm: "pool_at (cm_mappings cm) mi = Some m" "mp_inside_fib_index m = fib" using D(7) [of "(src, fib)" mi] m by auto
  have "unat (mp_inside_fib_index n) < 65536" "unat (mp_inside_fib_index m) < 65536"
    using fits n(1) mm(1) unfolding fibs_fit_def by blast+
  then have "mp_inside_fib_index n = fib" using fib_lo16_inject [of "mp_inside_fib_index n" fib] mm n(3) by simp
  then have "cm_inside_lookup cm (src, fib) = Some ni" using D(7) n by auto
  then show ?thesis using m by simp
qed

text \<open>What the slow path leaves when it makes a session.\<close>

lemma slow_session_made:
  assumes inv: "cg_inv cm" and m: "pool_at (cm_mappings cm) mi = Some m"
    and f: "pool_fresh (cm_sessions cm) si"
    and r: "in2out_slow_session x now si fi mi m dst sp dp pr cm = (Some (Inr i), cm1)"
  obtains port fri pool m1 s where "i = si" "pool_at (cm_pools cm) (mp_pool_index m) = Some pool"
    "\<not> cgnat_is_unk_proto pr \<Longrightarrow> mp_port_block_start m \<le> port \<and> port \<le> mp_port_block_end m \<and> port \<noteq> 0"
    "s = session_made (nx_csum x) m1 pool mi fri dst dp pr port sp now"
    "mp_inside_ip m1 = mp_inside_ip m" "mp_outside_ip m1 = mp_outside_ip m" "mp_inside_fib_index m1 = mp_inside_fib_index m"
    "mp_pool_index m1 = mp_pool_index m"
    "sess_view (cm_sessions cm1) si = Some (bare s)"
    "cm_session_table_out2in cm1 (flow_key (ss_o2i s)) = Some si"
proof -
  obtain port m1 where a: "cgnat_port_alloc m now = (port, m1)" by (cases "cgnat_port_alloc m now")
  have ok: "mapping_ok (cm_pools cm) (cm_sessions cm) mi m" using cg_invD(4) [OF inv m] .
  have wf: "block_wf m" using ok by (simp add: mapping_ok_def)
  note w = port_alloc_wf [OF wf a] and af = port_alloc_fields [OF wf a]
  let ?need = "\<not> cgnat_is_unk_proto pr"
  let ?cm = "if ?need then cm\<lparr>cm_mappings := pool_upd mi (\<lambda>_. m1) (cm_mappings cm)\<rparr> else cm"
  let ?port = "if ?need then port else 0" and ?m = "if ?need then m1 else m"
  have np: "\<not> (?need \<and> port = 0)"
    and c: "cgnat_session_create (nx_csum x) si fi mi dst dp pr ?port sp now ?cm = Some (Some i, cm1)"
    using r a by (auto simp: in2out_slow_session_def Let_def split: if_splits option.splits)
  have at: "pool_at (cm_mappings ?cm) mi = Some ?m" using m by (simp add: pool_simps)
  from c show thesis
  proof (cases rule: session_create_cases)
    case refused
    then show ?thesis by simp
  next
    case (created mapping pool fri s)
    have mm: "mapping = ?m" using created(2) at by simp
    have l: "list_ok (cm_sessions cm) mi (mp_sessions_head mapping) (mp_session_count m)"
      using ok af by (simp add: mapping_ok_def mm)
    have hl: "mp_sessions_head mapping = nil32 \<or> pool_at (cm_sessions cm) (mp_sessions_head mapping) \<noteq> None"
      using list_ok_head [OF l] owns_at by blast
    have v: "sess_view (cm_sessions cm1) = (sess_view (cm_sessions cm))(si \<mapsto> bare s)"
      using link_views(3) [OF f hl, of s] created(7) by simp
    have pl: "pool_at (cm_pools cm) (mp_pool_index m) = Some pool" using created(3) af by (simp add: mm split: if_splits)
    show thesis
      by (rule that [of pool ?port s ?m fri]) (use created pl np w(3) af v in \<open>simp_all add: mm\<close>)
  qed
qed

section \<open>Packets of the subscriber\<close>

text \<open>A TCP or UDP packet with a sound header whose metadata reassembly filled in from it.\<close>

definition l4_packet :: "cgnat_pkt \<Rightarrow> bool" where
  "l4_packet b \<longleftrightarrow>
     (let p = pk_mem b; pr = ip4_protocol p 0; l4 = ip4_header_bytes p 0 in
      (pr = IP_PROTOCOL_TCP \<or> pr = IP_PROTOCOL_UDP) \<and> 20 \<le> l4 \<and> pk_reass_ip_proto b = pr \<and>
      \<not> pk_reass_truncated b \<and> \<not> pk_reass_non_first b \<and>
      pk_reass_l4_src b = ld16 p l4 \<and> pk_reass_l4_dst b = ld16 p (l4 + 2))"

lemma l4_packet_ports:
  "l4_packet b \<Longrightarrow> cgnat_in2out_ports_from_reass b (ip4_protocol (pk_mem b) 0) =
     Inr (ld16 (pk_mem b) (ip4_header_bytes (pk_mem b) 0), ld16 (pk_mem b) (ip4_header_bytes (pk_mem b) 0 + 2))"
  by (auto simp: l4_packet_def cgnat_in2out_ports_from_reass_def Let_def)

text \<open>The packet left with the outside identity of the mapping \<open>m\<close>.\<close>

definition leaves_as :: "cgnat_mapping_t \<Rightarrow> cgnat_pkt \<Rightarrow> cgnat_pkt \<Rightarrow> bool" where
  "leaves_as m b b' \<longleftrightarrow>
     (let p = pk_mem b; p' = pk_mem b'; l4 = ip4_header_bytes p 0 in
      ip4_src p' 0 = mp_outside_ip m \<and> ip4_dst p' 0 = ip4_dst p 0 \<and> ip4_header_bytes p' 0 = l4 \<and>
      mp_port_block_start m \<le> bswap16 (ld16 p' l4) \<and> bswap16 (ld16 p' l4) \<le> mp_port_block_end m \<and>
      ld16 p' (l4 + 2) = ld16 p (l4 + 2) \<and> ip4_protocol p' 0 = ip4_protocol p 0)"

lemma translate_leaves_as:
  assumes l4: "l4_packet b" and t: "cgnat_in2out_translate x now (ip4_protocol (pk_mem b) 0) si s b cm = (b1, cm1)"
    and ok: "session_ok m s" and pr: "fl_proto (ss_i2o s) = ip4_protocol (pk_mem b) 0"
  shows "leaves_as m b (b1\<lparr>pk_tx_fib := f\<rparr>)"
proof -
  have tu: "ip4_protocol (pk_mem b) 0 = IP_PROTOCOL_TCP \<or> ip4_protocol (pk_mem b) 0 = IP_PROTOCOL_UDP"
    "20 \<le> ip4_header_bytes (pk_mem b) 0"
    using l4 by (auto simp: l4_packet_def Let_def)
  have "\<not> cgnat_is_unk_proto (fl_proto (ss_i2o s))" using tu(1) by (auto simp: pr cgnat_is_unk_proto_def)
  then show ?thesis
    using ok in2out_translate_tuple [OF t tu] by (simp add: leaves_as_def Let_def session_ok_def)
qed

text \<open>
  The packet left as the mapping \<open>m\<close> of its own source, in a table that agrees with the packet's in the 16
  bits a session key keeps; when the indices in use fit them, it is the mapping of the packet's table.
\<close>

definition leaves_as_own :: "node_ext \<Rightarrow> cgnat_main_t \<Rightarrow> cgnat_pkt \<Rightarrow> cgnat_pkt \<Rightarrow> cgnat_mapping_t \<Rightarrow> bool" where
  "leaves_as_own x cm b b' m \<longleftrightarrow>
     (let src = ip4_src (pk_mem b) 0; fib = fib_index_by_sw_if_index x (pk_rx_sw_if b) in
      mp_inside_ip m = src \<and> (ucast (mp_inside_fib_index m) :: u16) = ucast fib \<and> leaves_as m b b' \<and>
      (\<exists>mi. pool_at (cm_mappings cm) mi = Some m \<and> (fibs_fit cm \<longrightarrow> cgnat_mapping_lookup cm src fib = Some mi)))"

text \<open>The two ways a packet gets through the in2out nodes onto the arc.\<close>

lemma in2out_one_leaves:
  assumes inv: "cg_inv cm" and l4: "l4_packet b"
    and r: "cgnat_in2out_one x now b cm = (NEXT_FEATURE, b', cm')"
  shows "(b' = b \<and> (cgnat_bypass_check x cm (ip4_src (pk_mem b) 0) (fib_index_by_sw_if_index x (pk_rx_sw_if b)) \<or>
        cgnat_is_local_receive x (fib_index_by_sw_if_index x (pk_rx_sw_if b)) (ip4_dst (pk_mem b) 0))) \<or>
     (\<exists>m. leaves_as_own x cm b b' m)"
proof -
  let ?src = "ip4_src (pk_mem b) 0" and ?dst = "ip4_dst (pk_mem b) 0" and ?pr = "ip4_protocol (pk_mem b) 0"
  let ?l4 = "ip4_header_bytes (pk_mem b) 0" and ?fib = "fib_index_by_sw_if_index x (pk_rx_sw_if b)"
  note r1 = r [unfolded cgnat_in2out_one_def Let_def l4_packet_ports [OF l4] sum.case prod.case]
  show ?thesis
  proof (cases "cgnat_bypass_check x cm ?src ?fib \<or> cgnat_is_local_receive x ?fib ?dst")
    case True
    with r1 show ?thesis by (auto split: if_splits)
  next
    case False
    then have F: "\<not> cgnat_bypass_check x cm ?src ?fib" "\<not> cgnat_is_local_receive x ?fib ?dst" by simp_all
    note r2 = r1 [unfolded eq_False [THEN iffD2, OF F(1)] eq_False [THEN iffD2, OF F(2)] if_False]
    from r2 obtain mi where m1: "cgnat_mapping_lookup cm ?src ?fib = Some mi" by (auto split: option.splits)
    with cg_invD(7) [OF inv, of "(?src, ?fib)" mi] obtain m where m: "cgnat_mapping_lookup cm ?src ?fib = Some mi"
      "pool_at (cm_mappings cm) mi = Some m" by (auto simp: cgnat_mapping_lookup_def)
    note r3 = r2 [unfolded m option.case]
    from r3 obtain pool where pool: "pool_at (cm_pools cm) (mp_pool_index m) = Some pool" "pl_outside_fib_valid pool"
      by (auto split: option.splits if_splits)
    from r3 pool obtain i where s1: "cgnat_session_lookup_in2out cm ?src ?dst (ld16 (pk_mem b) ?l4) (ld16 (pk_mem b) (?l4 + 2)) ?pr ?fib = Some i"
      by (auto split: option.splits)
    from r3 [unfolded s1 option.case] pool obtain s where s: "cgnat_session_lookup_in2out cm ?src ?dst (ld16 (pk_mem b) ?l4) (ld16 (pk_mem b) (?l4 + 2)) ?pr ?fib = Some i"
        "pool_at (cm_sessions cm) i = Some s" using s1 by (auto split: option.splits)
    obtain b1 cm1 where t1: "cgnat_in2out_translate x now ?pr i s b cm = (b1, cm1)"
      by (cases "cgnat_in2out_translate x now ?pr i s b cm")
    from r3 [unfolded s option.case t1 prod.case] pool t1
    have t: "cgnat_in2out_translate x now ?pr i s b cm = (b1, cm')" "b' = b1\<lparr>pk_tx_fib := pl_outside_fib_index pool\<rparr>"
      by auto
    obtain n where n: "pool_at (cm_mappings cm) (ss_mapping_index s) = Some n" "session_ok n s"
      "mp_inside_ip n = ?src" "(ucast (mp_inside_fib_index n) :: u16) = ucast ?fib" "fl_proto (ss_i2o s) = ?pr"
      by (rule in2out_session_owner [OF inv s])
    have "fibs_fit cm \<longrightarrow> cgnat_mapping_lookup cm ?src ?fib = Some (ss_mapping_index s)"
      using owner_found [OF inv m(1) [unfolded cgnat_mapping_lookup_def] n(1,3,4)] m(1) by blast
    then have "leaves_as_own x cm b b' n"
      using n translate_leaves_as [OF l4 t(1) n(2,5)] t(2) unfolding leaves_as_own_def Let_def by blast
    then show ?thesis by blast
  qed
qed

lemma l4_packet_not_icmp: "l4_packet b \<Longrightarrow> ip4_protocol (pk_mem b) 0 \<noteq> IP_PROTOCOL_ICMP"
  by (auto simp: l4_packet_def Let_def proto_defs)

lemma slow_session_inv:
  assumes "cg_inv cm" "pool_at (cm_mappings cm) mi = Some m" "pool_fresh (cm_sessions cm) si" "l4_packet b"
    and "in2out_slow_session x now si fi mi m dst sp dp (ip4_protocol (pk_mem b) 0) cm = (res, cm')"
    and "cgnat_session_lookup_in2out cm (mp_inside_ip m) dst sp dp (ip4_protocol (pk_mem b) 0) (mp_inside_fib_index m) = None"
  shows "cg_inv cm'"
  using cg_inv_slow_session [OF assms(1-3,5,6)] l4_packet_not_icmp [OF assms(4)] by blast

text \<open>The slow path on such a packet: it finds a session or makes one.\<close>

lemma slowpath_cases:
  assumes inv: "cg_inv cm" and l4: "l4_packet b" and f: "pool_fresh (cm_sessions cm) si"
    and r: "cgnat_in2out_slowpath_one x now si fi b cm = Some (NEXT_FEATURE, b', cm')"
  defines "src \<equiv> ip4_src (pk_mem b) 0" and "dst \<equiv> ip4_dst (pk_mem b) 0" and "pr \<equiv> ip4_protocol (pk_mem b) 0"
    and "sp \<equiv> ld16 (pk_mem b) (ip4_header_bytes (pk_mem b) 0)"
    and "dp \<equiv> ld16 (pk_mem b) (ip4_header_bytes (pk_mem b) 0 + 2)"
    and "fib \<equiv> fib_index_by_sw_if_index x (pk_rx_sw_if b)"
  obtains mi m pool cm1 i s b1 where
    "cgnat_mapping_lookup cm src fib = Some mi" "pool_at (cm_mappings cm) mi = Some m"
    "mp_inside_ip m = src" "mp_inside_fib_index m = fib"
    "pool_at (cm_pools cm) (mp_pool_index m) = Some pool" "pl_outside_fib_valid pool"
    "case cgnat_session_lookup_in2out cm src dst sp dp pr fib of
       Some j \<Rightarrow> i = j \<and> cm1 = cm
     | None \<Rightarrow> in2out_slow_session x now si fi mi m dst sp dp pr cm = (Some (Inr i), cm1)"
    "pool_at (cm_sessions cm1) i = Some s" "cgnat_in2out_translate x now pr i s b cm1 = (b1, cm')"
    "b' = b1\<lparr>pk_tx_fib := pl_outside_fib_index pool\<rparr>"
proof -
  have nf: "\<not> pk_reass_non_first b" "\<not> (pr = IP_PROTOCOL_ICMP \<and> icmp_type_is_error_message (pk_reass_icmp_or_flags b))"
    using l4 l4_packet_not_icmp [OF l4] by (auto simp: l4_packet_def Let_def pr_def)
  note r1 = r [unfolded cgnat_in2out_slowpath_one_def Let_def l4_packet_ports [OF l4] sum.case prod.case,
      folded src_def dst_def pr_def fib_def, folded sp_def dp_def, simplified nf if_False]
  from r1 obtain mi where mi: "cgnat_mapping_lookup cm src fib = Some mi" by (auto split: option.splits)
  obtain m where m: "pool_at (cm_mappings cm) mi = Some m" "mp_inside_ip m = src" "mp_inside_fib_index m = fib"
    using cg_invD(7) [OF inv, of "(src, fib)" mi] mi by (auto simp: cgnat_mapping_lookup_def)
  note r2 = r1 [unfolded mi option.case m(1)]
  from r2 obtain pool where pool: "pool_at (cm_pools cm) (mp_pool_index m) = Some pool" "pl_outside_fib_valid pool"
    by (auto split: option.splits if_splits)
  let ?res = "case cgnat_session_lookup_in2out cm src dst sp dp pr fib of
      None \<Rightarrow> in2out_slow_session x now si fi mi m dst sp dp pr cm | Some i \<Rightarrow> (Some (Inr i), cm)"
  obtain found cm1 where res: "?res = (found, cm1)" by (cases ?res)
  from r2 pool res obtain i s b1 where i: "found = Some (Inr i)" "pool_at (cm_sessions cm1) i = Some s"
    "cgnat_in2out_translate x now pr i s b cm1 = (b1, cm')" "b' = b1\<lparr>pk_tx_fib := pl_outside_fib_index pool\<rparr>"
    by (auto split: option.splits sum.splits prod.splits)
  show thesis
    by (rule that [OF mi m pool _ i(2,3,4)]) (use res i(1) in \<open>auto split: option.splits\<close>)
qed

lemma slowpath_leaves:
  assumes inv: "cg_inv cm" and l4: "l4_packet b" and f: "pool_fresh (cm_sessions cm) si"
    and r: "cgnat_in2out_slowpath_one x now si fi b cm = Some (NEXT_FEATURE, b', cm')"
  shows "\<exists>m. leaves_as_own x cm b b' m"
  using inv l4 f r
proof (cases rule: slowpath_cases)
  case (1 mi m pool cm1 i s b1)
  let ?src = "ip4_src (pk_mem b) 0" and ?fib = "fib_index_by_sw_if_index x (pk_rx_sw_if b)"
  let ?own = "\<lambda>n. session_ok n s \<and> mp_inside_ip n = ?src \<and> (ucast (mp_inside_fib_index n) :: u16) = ucast ?fib \<and>
      (\<exists>ni. pool_at (cm_mappings cm) ni = Some n \<and> (fibs_fit cm \<longrightarrow> cgnat_mapping_lookup cm ?src ?fib = Some ni))"
  have "\<exists>n. ?own n \<and> fl_proto (ss_i2o s) = ip4_protocol (pk_mem b) 0"
  proof (cases "cgnat_session_lookup_in2out cm (ip4_src (pk_mem b) 0) (ip4_dst (pk_mem b) 0)
      (ld16 (pk_mem b) (ip4_header_bytes (pk_mem b) 0)) (ld16 (pk_mem b) (ip4_header_bytes (pk_mem b) 0 + 2))
      (ip4_protocol (pk_mem b) 0) (fib_index_by_sw_if_index x (pk_rx_sw_if b))")
    case (Some j)
    with 1 have "pool_at (cm_sessions cm) j = Some s" by simp
    with Some show ?thesis
    proof (rule in2out_session_owner [OF inv])
      fix n assume n: "pool_at (cm_mappings cm) (ss_mapping_index s) = Some n" "session_ok n s" "mp_inside_ip n = ?src"
        "(ucast (mp_inside_fib_index n) :: u16) = ucast ?fib" "fl_proto (ss_i2o s) = ip4_protocol (pk_mem b) 0"
      have "fibs_fit cm \<longrightarrow> cgnat_mapping_lookup cm ?src ?fib = Some (ss_mapping_index s)"
        using owner_found [OF inv 1(1) [unfolded cgnat_mapping_lookup_def] n(1,3,4)] 1(1) by blast
      with n show ?thesis by blast
    qed
  next
    case None
    with 1 have "in2out_slow_session x now si fi mi m (ip4_dst (pk_mem b) 0)
      (ld16 (pk_mem b) (ip4_header_bytes (pk_mem b) 0)) (ld16 (pk_mem b) (ip4_header_bytes (pk_mem b) 0 + 2))
      (ip4_protocol (pk_mem b) 0) cm = (Some (Inr i), cm1)" by simp
    from inv 1(2) f this show ?thesis
    proof (cases rule: slow_session_made)
      case made: (1 port fri pool' m1 s')
      have bs: "bare s = bare s'" using 1(8) made(1,9) by (simp add: sess_view_def)
      have "ss_i2o s' = ss_i2o s" "ss_o2i s' = ss_o2i s" "ss_pool_index s' = ss_pool_index s"
        using arg_cong [OF bs, of ss_i2o] arg_cong [OF bs, of ss_o2i] arg_cong [OF bs, of ss_pool_index] by simp_all
      moreover have "session_ok m s'" using made(3,5-8) unfolding made(4)
        by (auto simp: session_ok_def session_made_def session_i2o_def session_o2i_def cgnat_flow_csum_calc_def Let_def)
      moreover have "fl_proto (ss_i2o s') = ip4_protocol (pk_mem b) 0"
        by (simp add: made(4) session_made_def session_i2o_def cgnat_flow_csum_calc_def Let_def)
      ultimately have "session_ok m s" "fl_proto (ss_i2o s) = ip4_protocol (pk_mem b) 0" by (simp_all add: session_ok_def)
      moreover have "\<exists>ni. pool_at (cm_mappings cm) ni = Some m \<and> (fibs_fit cm \<longrightarrow> cgnat_mapping_lookup cm ?src ?fib = Some ni)"
        using 1(1,2) by (intro exI [of _ mi]) simp
      moreover have "mp_inside_ip m = ?src" "(ucast (mp_inside_fib_index m) :: u16) = ucast ?fib" using 1(3,4) by simp_all
      ultimately show ?thesis by (intro exI [of _ m]) simp
    qed
  qed
  then obtain n where n: "?own n" "fl_proto (ss_i2o s) = ip4_protocol (pk_mem b) 0" by blast
  then have "leaves_as_own x cm b b' n"
    using translate_leaves_as [OF l4 1(9)] 1(10) unfolding leaves_as_own_def Let_def by blast
  then show ?thesis by blast
qed

section \<open>The reply\<close>

text \<open>A packet \<open>r\<close> from outside that answers the packet \<open>b\<close>, which left as \<open>b'\<close>.\<close>

definition answers :: "node_ext \<Rightarrow> cgnat_pkt \<Rightarrow> cgnat_pkt \<Rightarrow> cgnat_pkt \<Rightarrow> bool" where
  "answers x b b' r \<longleftrightarrow>
     (let p = pk_mem b; p' = pk_mem b'; q = pk_mem r; l4 = ip4_header_bytes p 0; m4 = ip4_header_bytes q 0 in
      20 \<le> m4 \<and> ip4_get_fragment_offset q 0 = 0 \<and> m4 + 8 \<le> ip4_length q 0 \<and>
      ip4_protocol q 0 = ip4_protocol p 0 \<and> ip4_src q 0 = ip4_dst p 0 \<and> ip4_dst q 0 = ip4_src p' 0 \<and>
      ld16 q m4 = ld16 p (l4 + 2) \<and> ld16 q (m4 + 2) = ld16 p' l4 \<and>
      fib_index_by_sw_if_index x (pk_rx_sw_if r) = pk_tx_fib b')"

lemma translate_tables:
  "cgnat_in2out_translate x now pr si s b cm = (b', cm') \<Longrightarrow>
     cm_session_table_out2in cm' = cm_session_table_out2in cm \<and>
     (\<forall>j t. pool_at (cm_sessions cm) j = Some t \<longrightarrow> (\<exists>t'. pool_at (cm_sessions cm') j = Some t' \<and> ss_o2i t' = ss_o2i t))"
  by (auto simp: cgnat_in2out_translate_def Let_def pool_simps)

lemma reply_translated:
  assumes inv: "cg_inv cm" and l4: "l4_packet b" and f: "pool_fresh (cm_sessions cm) si"
    and new: "cgnat_session_lookup_in2out cm (ip4_src (pk_mem b) 0) (ip4_dst (pk_mem b) 0)
        (ld16 (pk_mem b) (ip4_header_bytes (pk_mem b) 0)) (ld16 (pk_mem b) (ip4_header_bytes (pk_mem b) 0 + 2))
        (ip4_protocol (pk_mem b) 0) (fib_index_by_sw_if_index x (pk_rx_sw_if b)) = None"
    and slow: "cgnat_in2out_slowpath_one x now si fi b cm = Some (NEXT_FEATURE, b', cm')"
    and a: "answers x' b b' r"
  shows "\<exists>r' cm''. cgnat_out2in_one x' now' r cm' = (NEXT_LOOKUP, r', cm'') \<and>
     ip4_dst (pk_mem r') 0 = ip4_src (pk_mem b) 0 \<and>
     ld16 (pk_mem r') (ip4_header_bytes (pk_mem r) 0 + 2) = ld16 (pk_mem b) (ip4_header_bytes (pk_mem b) 0) \<and>
     ip4_src (pk_mem r') 0 = ip4_src (pk_mem r) 0 \<and>
     ld16 (pk_mem r') (ip4_header_bytes (pk_mem r) 0) = ld16 (pk_mem r) (ip4_header_bytes (pk_mem r) 0) \<and>
     pk_tx_fib r' = fib_index_by_sw_if_index x (pk_rx_sw_if b)"
  using inv l4 f slow
proof (cases rule: slowpath_cases)
  case c: (1 mi m pool cm1 i s b1)
  let ?p = "pk_mem b" and ?q = "pk_mem r"
  let ?pr = "ip4_protocol ?p 0" and ?l4 = "ip4_header_bytes ?p 0" and ?m4 = "ip4_header_bytes ?q 0"
  let ?fib = "fib_index_by_sw_if_index x (pk_rx_sw_if b)"
  have tu: "?pr = IP_PROTOCOL_TCP \<or> ?pr = IP_PROTOCOL_UDP" "20 \<le> ?l4"
    using l4 by (auto simp: l4_packet_def Let_def)
  note ni = tcp_udp_not_icmp [OF tu(1)]
  from c(7) new have "in2out_slow_session x now si fi mi m (ip4_dst ?p 0) (ld16 ?p ?l4) (ld16 ?p (?l4 + 2)) ?pr cm =
      (Some (Inr i), cm1)" by simp
  from inv c(2) f this show ?thesis
  proof (cases rule: slow_session_made)
    case made: (1 port fri pool' m1 s')
    have pl: "pool' = pool" using made(2) c(5) by simp
    have bs: "bare s = bare s'" using c(8) made(1,9) by (simp add: sess_view_def)
    have so: "ss_i2o s = ss_i2o s'" "ss_o2i s = ss_o2i s'"
      using arg_cong [OF bs, of ss_i2o] arg_cong [OF bs, of ss_o2i] by simp_all
    have o2i: "fl_saddr (ss_o2i s') = mp_outside_ip m" "fl_daddr (ss_o2i s') = ip4_dst ?p 0"
      "fl_sport (ss_o2i s') = bswap16 port" "fl_dport (ss_o2i s') = ld16 ?p (?l4 + 2)" "fl_proto (ss_o2i s') = ?pr"
      "fl_fib_index (ss_o2i s') = pl_outside_fib_index pool" "fl_rewrite_daddr (ss_o2i s') = ip4_src ?p 0"
      "fl_rewrite_dport (ss_o2i s') = ld16 ?p ?l4" "fl_rewrite_fib_index (ss_o2i s') = ?fib"
      "fl_rewrite_saddr (ss_i2o s') = mp_outside_ip m" "fl_rewrite_sport (ss_i2o s') = bswap16 port"
      using c(3,4,6) made(5-8) ni unfolding made(4) pl
      by (simp_all add: session_made_def session_o2i_def session_i2o_def cgnat_flow_csum_calc_def Let_def)
    note tr = in2out_translate_tuple [OF c(9) tu]
    have b': "ip4_src (pk_mem b') 0 = mp_outside_ip m" "ld16 (pk_mem b') ?l4 = bswap16 port"
      "pk_tx_fib b' = pl_outside_fib_index pool"
      using tr(1,5) c(10) by (simp_all add: so o2i)
    have A: "20 \<le> ?m4" "ip4_get_fragment_offset ?q 0 = 0" "?m4 + 8 \<le> ip4_length ?q 0" "ip4_protocol ?q 0 = ?pr"
      "ip4_src ?q 0 = ip4_dst ?p 0" "ip4_dst ?q 0 = mp_outside_ip m" "ld16 ?q ?m4 = ld16 ?p (?l4 + 2)"
      "ld16 ?q (?m4 + 2) = bswap16 port" "fib_index_by_sw_if_index x' (pk_rx_sw_if r) = pl_outside_fib_index pool"
      using a by (simp_all add: answers_def Let_def b')
    have cl: "cgnat_out2in_classify ?q ?pr = Inr (ld16 ?q ?m4, ld16 ?q (?m4 + 2))"
      using tu(1) A(2,3) by (auto simp: cgnat_out2in_classify_def Let_def)
    have lk: "cgnat_session_lookup_out2in cm' (mp_outside_ip m) (ip4_dst ?p 0) (bswap16 port) (ld16 ?p (?l4 + 2)) ?pr
        (pl_outside_fib_index pool) = Some si"
      using made(10) translate_tables [OF c(9)]
      by (simp add: cgnat_session_lookup_out2in_def flow_key_def o2i)
    obtain t where t: "pool_at (cm_sessions cm') si = Some t" "ss_o2i t = ss_o2i s'"
      using translate_tables [OF c(9)] c(8) so(2) made(1) by metis
    obtain r1 cm2 where r1: "cgnat_out2in_translate x' now' ?pr si t r cm' = (r1, cm2)"
      by (cases "cgnat_out2in_translate x' now' ?pr si t r cm'")
    have out: "cgnat_out2in_one x' now' r cm' = (NEXT_LOOKUP, r1\<lparr>pk_tx_fib := ?fib\<rparr>, cm2)"
      using lk t r1 by (simp add: cgnat_out2in_one_def Let_def A cl [unfolded A(7,8)] o2i)
    note o = out2in_translate_tuple [OF r1 tu(1) A(1)]
    show ?thesis using out o by (simp add: t(2) o2i)
  qed
qed

section \<open>Checksums\<close>

text \<open>vnet's routines compute in one's complement, that is modulo 65535.  They work on the checksum, the
  complement of the sum it protects: adding a value to the sum subtracts it from the checksum, and
  subtracting one adds it.\<close>

definition csum_laws :: "csum_ext \<Rightarrow> bool" where
  "csum_laws x \<longleftrightarrow>
     (\<forall>a b. uint (ip_csum_add_even x a b) mod 65535 = (uint a - uint b) mod 65535) \<and>
     (\<forall>a b. uint (ip_csum_sub_even x a b) mod 65535 = (uint a + uint b) mod 65535) \<and>
     (\<forall>a. uint (ip_csum_fold x a) mod 65535 = uint a mod 65535)"

text \<open>The sum of \<open>n\<close> 16-bit words; of the IP header; and of the words a TCP or UDP checksum covers that a
  translation can touch (the addresses of the pseudo-header and the segment).\<close>

definition word_sum :: "mem \<Rightarrow> nat \<Rightarrow> nat \<Rightarrow> int" where
  "word_sum p a n = (\<Sum>i<n. uint (ld16 p (a + 2 * i)))"

definition ip_header_sum :: "mem \<Rightarrow> int" where
  "ip_header_sum p = word_sum p 0 (ip4_header_bytes p 0 div 2) mod 65535"

definition l4_sum :: "mem \<Rightarrow> nat \<Rightarrow> int" where
  "l4_sum p n = (word_sum p (ip4_header_bytes p 0) n + uint (ip4_src p 0) + uint (ip4_dst p 0)) mod 65535"

lemma word_sum_cong: "(\<And>i. i < n \<Longrightarrow> ld16 p (a + 2 * i) = ld16 q (a + 2 * i)) \<Longrightarrow> word_sum p a n = word_sum q a n"
  by (simp add: word_sum_def)

lemma word_sum_st16:
  assumes "k < n"
  shows "word_sum (st16 (a + 2 * k) v p) a n = word_sum p a n - uint (ld16 p (a + 2 * k)) + uint v"
proof -
  have k: "k \<in> {..<n}" using assms by simp
  have "ld16 (st16 (a + 2 * k) v p) (a + 2 * i) = ld16 p (a + 2 * i)" if "i \<noteq> k" for i
    using that by (intro ld16_st16_other) linarith
  then have "(\<Sum>i\<in>{..<n} - {k}. uint (ld16 (st16 (a + 2 * k) v p) (a + 2 * i))) = (\<Sum>i\<in>{..<n} - {k}. uint (ld16 p (a + 2 * i)))"
    by (intro sum.cong) auto
  then show ?thesis
    unfolding word_sum_def sum.remove [OF finite_lessThan k] by simp
qed

lemma uint_halves: "uint (v :: u32) = uint (ucast v :: u16) + 65536 * uint (ucast (drop_bit 16 v) :: u16)"
proof -
  have "uint (ucast v :: u16) = uint v mod 65536" by (simp add: uint_ucast_mod)
  moreover have "uint (ucast (drop_bit 16 v) :: u16) = uint v div 65536"
  proof -
    have "uint (drop_bit 16 v) = uint v div 65536" by (simp add: drop_bit_eq_div uint_div)
    moreover have "uint v div 65536 < 65536" using uint_u32_less [of v] by linarith
    moreover have "0 \<le> uint v div 65536" by (intro pos_imp_zdiv_nonneg_iff [THEN iffD2]) simp_all
    ultimately show ?thesis by (simp add: uint_ucast_mod)
  qed
  ultimately show ?thesis by simp
qed

lemma ld32_halves: "uint (ld32 p a) = uint (ld16 p a) + 65536 * uint (ld16 p (a + 2))"
proof -
  have "(ucast (ld32 p a) :: u16) = ld16 p a"
    by (rule bit_word_eqI) (auto simp: ld32_def bit_simps)
  moreover have "(ucast (drop_bit 16 (ld32 p a)) :: u16) = ld16 p (a + 2)"
  proof (rule bit_word_eqI)
    fix n assume "n < LENGTH(16)"
    moreover have "\<not> bit (ld16 p a) (16 + n)" using bit_imp_le_length [of "ld16 p a" "16 + n"] by auto
    ultimately show "bit (ucast (drop_bit 16 (ld32 p a)) :: u16) n = bit (ld16 p (a + 2)) n"
      by (auto simp: ld32_def bit_simps)
  qed
  ultimately show ?thesis using uint_halves [of "ld32 p a"] by simp
qed

lemma word_sum_st32:
  assumes "Suc k < n"
  shows "\<exists>j. word_sum (st32 (a + 2 * k) v p) a n = word_sum p a n - uint (ld32 p (a + 2 * k)) + uint v + 65535 * j"
proof -
  have e: "a + 2 * Suc k = a + 2 * k + 2" by simp
  have "ld16 (st16 (a + 2 * k) (ucast v) p) (a + 2 * k + 2) = ld16 p (a + 2 * k + 2)" by simp
  then have "word_sum (st32 (a + 2 * k) v p) a n =
      word_sum p a n - uint (ld16 p (a + 2 * k)) + uint (ucast v :: u16)
        - uint (ld16 p (a + 2 * k + 2)) + uint (ucast (drop_bit 16 v) :: u16)"
    using word_sum_st16 [OF assms, of a "ucast (drop_bit 16 v)" "st16 (a + 2 * k) (ucast v) p"]
      word_sum_st16 [OF Suc_lessD [OF assms], of a "ucast v" p]
    unfolding st32_def e by simp
  then have "word_sum (st32 (a + 2 * k) v p) a n = word_sum p a n - uint (ld32 p (a + 2 * k)) + uint v +
      65535 * (uint (ld16 p (a + 2 * k + 2)) - uint (ucast (drop_bit 16 v) :: u16))"
    unfolding ld32_halves uint_halves [of v] by (simp add: algebra_simps)
  then show ?thesis by blast
qed

lemma mod_ex: "(a :: int) mod 65535 = b mod 65535 \<longleftrightarrow> (\<exists>j. a = b + 65535 * j)"
  by (metis mod_eqE mod_mult_self2 mult.commute)

lemma csum_apply_ex:
  assumes "csum_laws (nx_csum x)"
  shows "\<exists>j. uint (csum_apply x d c) = uint c - uint d + 65535 * j"
proof -
  have "uint (csum_apply x d c) mod 65535 = (uint (ucast c :: u64) - uint d) mod 65535"
    using assms by (simp add: csum_laws_def csum_apply_def)
  then show ?thesis by (simp add: mod_ex uint_ucast_up)
qed

lemma udp_csum_ex:
  assumes "csum_laws (nx_csum x)" and "c \<noteq> 0"
  shows "\<exists>j. uint (cgnat_udp_csum_update x d c) = uint c - uint d + 65535 * j"
proof -
  obtain j where j: "uint (csum_apply x d c) = uint c - uint d + 65535 * j" using csum_apply_ex [OF assms(1)] by blast
  show ?thesis
  proof (cases "csum_apply x d c = 0")
    case True
    with j assms(2) have "uint (cgnat_udp_csum_update x d c) = uint c - uint d + 65535 * (j + 1)"
      by (simp add: cgnat_udp_csum_update_def Let_def)
    then show ?thesis by blast
  next
    case False
    with j assms(2) show ?thesis by (auto simp: cgnat_udp_csum_update_def Let_def)
  qed
qed

lemma csum_step:
  fixes u v :: "'b::len word"
  assumes "csum_laws x" and "LENGTH('b) \<le> 64"
  shows "\<exists>j. uint (ip_csum_add_even x (ip_csum_sub_even x l (ucast u)) (ucast v)) = uint l + uint u - uint v + 65535 * j"
proof -
  let ?s = "ip_csum_sub_even x l (ucast u)"
  obtain i where i: "uint ?s = uint l + uint (ucast u :: u64) + 65535 * i"
    using assms(1) unfolding csum_laws_def mod_ex by blast
  obtain j where j: "uint (ip_csum_add_even x ?s (ucast v)) = uint ?s - uint (ucast v :: u64) + 65535 * j"
    using assms(1) unfolding csum_laws_def mod_ex by blast
  have "uint (ip_csum_add_even x ?s (ucast v)) = uint l + uint u - uint v + 65535 * (i + j)"
    unfolding j i using assms(2) by (simp add: uint_ucast_up algebra_simps)
  then show ?thesis by blast
qed

lemma deltas_ex:
  assumes "csum_laws x" and "f' = cgnat_flow_csum_calc x oa na op np True f"
  shows "\<exists>j. uint (fl_l3_csum_delta f') = uint na - uint oa + 65535 * j"
    and "\<exists>j. uint (fl_l4_csum_delta f') = uint na - uint oa + uint np - uint op + 65535 * j"
proof -
  let ?s = "ip_csum_sub_even x" and ?a = "ip_csum_add_even x"
  have f: "fl_l3_csum_delta f' = ?a (?s 0 (ucast na)) (ucast oa)"
    "fl_l4_csum_delta f' = ?a (?s (fl_l3_csum_delta f') (ucast np)) (ucast op)"
    by (simp_all add: assms(2) cgnat_flow_csum_calc_def Let_def)
  obtain i where i: "uint (fl_l3_csum_delta f') = uint na - uint oa + 65535 * i"
    using csum_step [OF assms(1), of 0 na oa] unfolding f(1) by (auto simp: algebra_simps)
  then show "\<exists>j. uint (fl_l3_csum_delta f') = uint na - uint oa + 65535 * j" by blast
  obtain j where "uint (fl_l4_csum_delta f') = uint (fl_l3_csum_delta f') + uint np - uint op + 65535 * j"
    using csum_step [OF assms(1), of "fl_l3_csum_delta f'" np op] unfolding f(2) by auto
  then have "uint (fl_l4_csum_delta f') = uint na - uint oa + uint np - uint op + 65535 * (i + j)"
    by (simp add: i algebra_simps)
  then show "\<exists>j. uint (fl_l4_csum_delta f') = uint na - uint oa + uint np - uint op + 65535 * j" by blast
qed

text \<open>The rewrite of an address at \<open>ao\<close> and a port at \<open>off\<close> keeps both sums.\<close>

lemma rewrite_sums:
  assumes laws: "csum_laws (nx_csum x)" and f: "f' = cgnat_flow_csum_calc (nx_csum x) oa na op np True f"
    and ao: "ao = 12 \<or> ao = 16" and off: "off = 0 \<or> off = 2"
    and hl: "ip4_header_bytes p 0 = l4" "20 \<le> l4"
    and old: "ld32 p ao = oa" "ld16 p (l4 + off) = op"
    and pr: "pr = IP_PROTOCOL_TCP \<and> 9 \<le> n \<or> pr = IP_PROTOCOL_UDP \<and> 4 \<le> n \<and> ld16 p (l4 + 6) \<noteq> 0"
    and p': "p' = l4_rewrite x pr l4 off np (fl_l4_csum_delta f') (upd16 10 (csum_apply x (fl_l3_csum_delta f')) (st32 ao na p))"
  shows "ip_header_sum p' = ip_header_sum p" and "l4_sum p' n = l4_sum p n"
proof -
  define p1 where "p1 = upd16 10 (csum_apply x (fl_l3_csum_delta f')) (st32 ao na p)"
  define co :: nat where "co = (if pr = IP_PROTOCOL_TCP then 16 else 6)"
  define g where "g = (if pr = IP_PROTOCOL_TCP then csum_apply x (fl_l4_csum_delta f') else cgnat_udp_csum_update x (fl_l4_csum_delta f'))"
  have rw: "p' = st16 (l4 + co) (g (ld16 p (l4 + co))) (st16 (l4 + off) np p1)"
    using pr off ao hl(2) unfolding p' p1_def [symmetric]
    by (auto simp: l4_rewrite_def co_def g_def upd16_def proto_defs p1_def)
  have h: "ip4_header_bytes p' 0 = l4"
    using hl ao off unfolding rw p1_def by (subst header_bytes_cong [of _ _ p]) (auto simp: co_def)
  obtain j3 where d3: "uint (fl_l3_csum_delta f') = uint na - uint oa + 65535 * j3" using deltas_ex(1) [OF laws f] by blast
  obtain j4 where d4: "uint (fl_l4_csum_delta f') = uint na - uint oa + uint np - uint op + 65535 * j4"
    using deltas_ex(2) [OF laws f] by blast
  show "ip_header_sum p' = ip_header_sum p"
  proof -
    let ?n = "l4 div 2"
    have "ld16 p' (2 * i) = ld16 p1 (2 * i)" if "i < ?n" for i
    proof -
      have "2 * i + 2 \<le> l4" using that by linarith
      then show ?thesis using off unfolding rw by (auto simp: co_def)
    qed
    then have 1: "word_sum p' 0 ?n = word_sum p1 0 ?n" by (intro word_sum_cong) simp
    have n: "5 < ?n" "7 < ?n" "9 < ?n" using hl(2) by linarith+
    obtain j where j: "word_sum (st32 ao na p) 0 ?n = word_sum p 0 ?n - uint oa + uint na + 65535 * j"
      using word_sum_st32 [of 6 ?n 0 na p] word_sum_st32 [of 8 ?n 0 na p] ao n old(1) by auto
    have c: "ld16 (st32 ao na p) 10 = ld16 p 10" using ao by auto
    obtain i where i: "uint (csum_apply x (fl_l3_csum_delta f') (ld16 p 10)) = uint (ld16 p 10) - uint (fl_l3_csum_delta f') + 65535 * i"
      using csum_apply_ex [OF laws] by blast
    have "word_sum p1 0 ?n = word_sum (st32 ao na p) 0 ?n - uint (ld16 p 10) + uint (csum_apply x (fl_l3_csum_delta f') (ld16 p 10))"
      using word_sum_st16 [of 5 ?n 0 _ "st32 ao na p"] n c by (simp add: p1_def upd16_def)
    then have "word_sum p' 0 ?n = word_sum p 0 ?n + 65535 * (j + i - j3)" by (simp add: 1 j i d3)
    then show ?thesis unfolding ip_header_sum_def h hl(1) mod_ex by blast
  qed
  show "l4_sum p' n = l4_sum p n"
  proof -
    have "ld16 p1 (l4 + 2 * i) = ld16 p (l4 + 2 * i)" for i
      using hl(2) ao by (auto simp: p1_def)
    then have 1: "word_sum p1 l4 n = word_sum p l4 n" by (intro word_sum_cong)
    have o1: "ld16 p1 (l4 + off) = op" using hl(2) ao old(2) by (auto simp: p1_def)
    obtain ko kc where k: "off = 2 * ko" "ko < n" "co = 2 * kc" "kc < n" "ko \<noteq> kc"
    proof (rule that)
      show "off = 2 * (off div 2)" "co = 2 * (co div 2)" using off by (auto simp: co_def)
      show "off div 2 < n" "co div 2 < n" "off div 2 \<noteq> co div 2" using off pr by (auto simp: co_def proto_defs)
    qed
    have 2: "word_sum (st16 (l4 + off) np p1) l4 n = word_sum p l4 n - uint op + uint np"
      using word_sum_st16 [OF k(2), of l4 np p1] o1 by (simp add: k(1) 1)
    have c1: "ld16 (st16 (l4 + off) np p1) (l4 + co) = ld16 p (l4 + co)"
      using hl(2) ao off by (auto simp: p1_def co_def)
    have "\<exists>i. uint (g (ld16 p (l4 + co))) = uint (ld16 p (l4 + co)) - uint (fl_l4_csum_delta f') + 65535 * i"
      using csum_apply_ex [OF laws] udp_csum_ex [OF laws] pr by (auto simp: g_def co_def proto_defs)
    then obtain i where i: "uint (g (ld16 p (l4 + co))) = uint (ld16 p (l4 + co)) - uint (fl_l4_csum_delta f') + 65535 * i" by blast
    have "word_sum p' l4 n = word_sum p l4 n - uint op + uint np - uint (ld16 p (l4 + co)) + uint (g (ld16 p (l4 + co)))"
      using word_sum_st16 [OF k(4), of l4 "g (ld16 p (l4 + co))" "st16 (l4 + off) np p1"] c1 2 by (simp add: rw k(3))
    then have s: "word_sum p' l4 n = word_sum p l4 n + uint oa - uint na + 65535 * (i - j4)" by (simp add: i d4)
    have "uint (ip4_src p' 0) + uint (ip4_dst p' 0) = uint (ip4_src p 0) + uint (ip4_dst p 0) - uint oa + uint na"
      using ao off hl(2) old(1) unfolding rw p1_def by (auto simp: ip4_src_def ip4_dst_def co_def)
    with s have "word_sum p' l4 n + uint (ip4_src p' 0) + uint (ip4_dst p' 0) =
        word_sum p l4 n + uint (ip4_src p 0) + uint (ip4_dst p 0) + 65535 * (i - j4)" by simp
    then show ?thesis unfolding l4_sum_def h hl(1) mod_ex by blast
  qed
qed

end
