(* ===== verification/Cgnat_Props.thy ===== *)
theory Cgnat_Props
  imports Cgnat_Reach
begin

text \<open>
  The properties of the NAT plugin, over the states \<open>cgnat_reach\<close> admits, and a run of it on a
  concrete pool, mapping and packet that their witnesses use.
\<close>

section \<open>A run\<close>

text \<open>
  One's complement arithmetic on 64-bit words, as vnet documents its routines: to add a value to the sum is
  to subtract it from the checksum with the borrow folded in, to subtract one is to add it with the carry
  folded in, and the fold adds the halves until 16 bits are left.
\<close>

definition demo_csum :: csum_ext where
  "demo_csum = \<lparr>ip_csum_add_even = (\<lambda>c x. let d = c - x in d - (if c < d then 1 else 0)),
     ip_csum_sub_even = (\<lambda>c x. let t = c + x in t + (if t < x then 1 else 0)),
     ip_csum_fold = (\<lambda>c. let c1 = (c AND 0xFFFFFFFF) + drop_bit 32 c;
         c2 = (c1 AND 0xFFFF) + drop_bit 16 c1; c3 = (c2 AND 0xFFFF) + drop_bit 16 c2;
         c4 = (c3 AND 0xFFFF) + drop_bit 16 c3 in ucast c4)\<rparr>"

definition demo_cx :: cfg_ext where
  "demo_cx = \<lparr>fib_table_find = (\<lambda>vrf. vrf), fib_table_entry_special_dpo_add = (\<lambda>_ _. 7),
     fib_table_entry_special_add = (\<lambda>_ _. 8), ip4_sv_reass_enable = (\<lambda>_. 0)\<rparr>"

definition demo_x :: node_ext where
  "demo_x = \<lparr>nx_csum = demo_csum, ip_csum_update = (\<lambda>s _ _. s), ip_incremental_checksum_buffer = (\<lambda>_ _ _. 0),
     fib_index_by_sw_if_index = (\<lambda>sw. sw), fib_table_lookup = (\<lambda>_ _. nil32), fib_entry_is_bypass_sourced = (\<lambda>_. False),
     ip4_fib_forwarding_lookup = (\<lambda>_ _. 0), load_balance_bucket0_is_receive = (\<lambda>_. False)\<rparr>"

text \<open>A pool, its outside table 10, and a subscriber of table 5 with the ports 1024 to 1031.\<close>

definition demo_pool :: cgnat_pool_t where
  "demo_pool = \<lparr>pl_pool_id = 1, pl_mode = CGNAT_POOL_MODE_PBA, pl_address_pooling = CGNAT_ADDRESS_POOLING_PAIRED,
     pl_filtering = CGNAT_FILTERING_ENDPOINT_INDEPENDENT, pl_block_size = 8, pl_max_blocks_per_sub = 1,
     pl_max_sessions_per_sub = 4, pl_port_range_start = 1024, pl_port_range_end = 65535, pl_port_reuse_timeout = 120,
     pl_alg_bitmask = 0, pl_timeouts = [7440, 240, 300, 60, 240], pl_outside_vrf_table_id = 0, pl_outside_fib_index = nil32,
     pl_outside_fib_valid = False, pl_outside_prefixes = [], pl_outside_fib_entries = [], pl_dpo_valid = False,
     pl_outside_sw_if_indexes = [], pl_inside_prefixes = [], pl_det_params = []\<rparr>"

definition demo_inside :: u32 where "demo_inside = bswap32 0x64400001"
definition demo_outside :: u32 where "demo_outside = bswap32 0xC0000201"

definition demo1 :: cgnat_main_t where
  "demo1 = snd (snd (api_pool_add_del_v2 0 0 demo_pool True cgnat_init))"

definition demo2 :: cgnat_main_t where
  "demo2 = snd (snd (cgnat_set_outside_fib demo_cx 1 10 demo1))"

definition demo3 :: cgnat_main_t where
  "demo3 = snd (snd (the (cgnat_add_del_subscriber_mapping demo_cx 0 0 1 3 demo_inside 5 demo_outside 1024 1031 True True demo2)))"

text \<open>A UDP packet of the subscriber from port 5000 to port 53 of 8.8.8.8, and the answer to it.\<close>

definition demo_bytes :: "u8 list \<Rightarrow> mem" where
  "demo_bytes bs = (\<lambda>i. if i < length bs then bs ! i else 0)"

definition demo_pkt :: cgnat_pkt where
  "demo_pkt = \<lparr>pk_mem = demo_bytes [0x45, 0, 0, 28, 0, 0, 0, 0, 64, 17, 0x10, 0x20, 0x64, 0x40, 0, 1, 8, 8, 8, 8,
       0x13, 0x88, 0, 53, 0, 8, 0x30, 0x40],
     pk_chain_len = 28, pk_rx_sw_if = 5, pk_tx_fib = 0, pk_reass_ip_proto = 17, pk_reass_truncated = False,
     pk_reass_non_first = False, pk_reass_l4_src = bswap16 5000, pk_reass_l4_dst = bswap16 53,
     pk_reass_icmp_or_flags = 0\<rparr>"

definition demo_reply :: cgnat_pkt where
  "demo_reply = \<lparr>pk_mem = demo_bytes [0x45, 0, 0, 28, 0, 0, 0, 0, 64, 17, 0x10, 0x20, 8, 8, 8, 8, 0xC0, 0, 2, 1,
       0, 53, 4, 0, 0, 8, 0x30, 0x40],
     pk_chain_len = 28, pk_rx_sw_if = 10, pk_tx_fib = 0, pk_reass_ip_proto = 0, pk_reass_truncated = False,
     pk_reass_non_first = False, pk_reass_l4_src = 0, pk_reass_l4_dst = 0, pk_reass_icmp_or_flags = 0\<rparr>"

lemma prod_parts: "x = (fst x, fst (snd x), snd (snd x))"
  by simp

text \<open>These routines obey the laws the checksum property asks of vnet's: 2 to the 64 is 1 modulo 65535.\<close>

lemma uint_u64: "0 \<le> uint (a :: u64)" "uint (a :: u64) < 18446744073709551616"
  using uint_lt2p [of a] by simp_all

lemma add_even_residue:
  fixes c x :: u64
  shows "uint (let d = c - x in d - (if c < d then 1 else 0)) mod 65535 = (uint c - uint x) mod 65535"
proof (cases "x \<le> c")
  case True
  then have le: "uint x \<le> uint c" by (simp add: word_le_def)
  have d: "uint (c - x) = uint c - uint x"
    using le by (simp add: uint_sub_if')
  then have "\<not> c < c - x" using uint_u64 [of x] by (simp add: word_less_def)
  with d show ?thesis by simp
next
  case False
  then have lt: "uint c < uint x" by (simp add: word_le_def)
  have d: "uint (c - x) = uint c - uint x + 18446744073709551616"
    using lt by (simp add: uint_sub_if')
  then have "c < c - x" using uint_u64 [of x] by (simp add: word_less_def)
  moreover have "uint (c - x - 1) = uint c - uint x + 18446744073709551615"
  proof -
    have "1 \<le> uint (c - x)" using d uint_u64 [of c] uint_u64 [of x] by linarith
    then show ?thesis using d by (simp add: uint_sub_if' [of "c - x" 1])
  qed
  moreover have "(uint c - uint x + 18446744073709551615) mod 65535 = (uint c - uint x) mod 65535"
    using mod_mult_self1 [of "uint c - uint x" 281479271743489 65535] by simp
  ultimately show ?thesis by (simp add: Let_def)
qed

lemma sub_even_residue:
  fixes c x :: u64
  shows "uint (let t = c + x in t + (if t < x then 1 else 0)) mod 65535 = (uint c + uint x) mod 65535"
proof (cases "uint c + uint x < 18446744073709551616")
  case True
  then have d: "uint (c + x) = uint c + uint x"
    using True by (simp add: uint_plus_if')
  then have "\<not> c + x < x" using uint_u64 [of c] by (simp add: word_less_def)
  with d show ?thesis by simp
next
  case False
  have d: "uint (c + x) = uint c + uint x - 18446744073709551616"
    using False by (simp add: uint_plus_if')
  then have "c + x < x" using uint_u64 [of c] by (simp add: word_less_def)
  moreover have "uint (c + x + 1) = uint c + uint x - 18446744073709551615"
  proof -
    have "uint (c + x) + 1 < 18446744073709551616" using d uint_u64 [of c] uint_u64 [of x] by linarith
    then show ?thesis using d by (simp add: uint_plus_if' [of "c + x" 1])
  qed
  moreover have "(uint c + uint x - 18446744073709551615) mod 65535 = (uint c + uint x) mod 65535"
    using mod_mult_self1 [of "uint c + uint x - 18446744073709551615" 281479271743489 65535] by simp
  ultimately show ?thesis by (simp add: Let_def)
qed

text \<open>One step of the fold: the halves of a number are added.\<close>

lemma fold_step16:
  fixes c :: u64
  shows "uint ((c AND 0xFFFF) + drop_bit 16 c) = uint c mod 65536 + uint c div 65536"
proof -
  have "uint (c AND 0xFFFF) = uint c mod 65536"
    using arg_cong [OF take_bit_eq_mask [of 16 c], of uint]  by (simp add: mask_eq_exp_minus_1 take_bit_eq_mod uint_mod)
  moreover have "uint (drop_bit 16 c) = uint c div 65536" by (simp add: drop_bit_eq_div uint_div)
  moreover have "uint c div 65536 < 281474976710656" using uint_u64 [of c] by linarith
  moreover have "0 \<le> uint c div 65536" using uint_u64 [of c] by (simp add: pos_imp_zdiv_nonneg_iff)
  moreover have "0 \<le> uint c mod 65536" "uint c mod 65536 < 65536" by simp_all
  ultimately show ?thesis by (simp add: uint_plus_if')
qed

lemma fold_step32:
  fixes c :: u64
  shows "uint ((c AND 0xFFFFFFFF) + drop_bit 32 c) = uint c mod 4294967296 + uint c div 4294967296"
proof -
  have "uint (c AND 0xFFFFFFFF) = uint c mod 4294967296"
    using arg_cong [OF take_bit_eq_mask [of 32 c], of uint] by (simp add: mask_eq_exp_minus_1 take_bit_eq_mod uint_mod)
  moreover have "uint (drop_bit 32 c) = uint c div 4294967296" by (simp add: drop_bit_eq_div uint_div)
  moreover have "uint c div 4294967296 < 4294967296" using uint_u64 [of c] by linarith
  moreover have "0 \<le> uint c div 4294967296" using uint_u64 [of c] by (simp add: pos_imp_zdiv_nonneg_iff)
  moreover have "0 \<le> uint c mod 4294967296" "uint c mod 4294967296 < 4294967296" by simp_all
  ultimately show ?thesis by (simp add: uint_plus_if')
qed

lemma halves_residue:
  "((k :: int) mod 65536 + k div 65536) mod 65535 = k mod 65535"
  "((k :: int) mod 4294967296 + k div 4294967296) mod 65535 = k mod 65535"
proof -
  have "k = k mod 65536 + k div 65536 + 65535 * (k div 65536)" using mod_mult_div_eq [of k 65536] by linarith
  then show "(k mod 65536 + k div 65536) mod 65535 = k mod 65535" by (metis mod_mult_self2)
  have "k = k mod 4294967296 + k div 4294967296 + 65535 * (65537 * (k div 4294967296))"
    using mod_mult_div_eq [of k 4294967296] by linarith
  then show "(k mod 4294967296 + k div 4294967296) mod 65535 = k mod 65535" by (metis mod_mult_self2)
qed

lemma fold_last:
  assumes "0 \<le> (k :: int)" "k < 65539" shows "k mod 65536 + k div 65536 < 65536"
proof (cases "k < 65536")
  case True
  with assms show ?thesis by simp
next
  case False
  define r where "r = k - 65536"
  have "k = r + 65536 * 1" "0 \<le> r" "r < 3" using False assms by (simp_all add: r_def)
  then have "k div 65536 = 1" "k mod 65536 = r" by (simp_all only: mod_mult_self2 div_mult_self2) simp_all
  with \<open>r < 3\<close> show ?thesis by simp
qed

lemma fold_residue: "uint (ip_csum_fold demo_csum c) mod 65535 = uint c mod 65535"
proof -
  define c1 where "c1 = (c AND 0xFFFFFFFF) + drop_bit 32 c"
  define c2 where "c2 = (c1 AND 0xFFFF) + drop_bit 16 c1"
  define c3 where "c3 = (c2 AND 0xFFFF) + drop_bit 16 c2"
  define c4 where "c4 = (c3 AND 0xFFFF) + drop_bit 16 c3"
  have e: "uint c1 = uint c mod 4294967296 + uint c div 4294967296" "uint c2 = uint c1 mod 65536 + uint c1 div 65536"
    "uint c3 = uint c2 mod 65536 + uint c2 div 65536" "uint c4 = uint c3 mod 65536 + uint c3 div 65536"
    unfolding c1_def c2_def c3_def c4_def by (rule fold_step32 fold_step16)+
  have "uint c1 < 8589934592" using e(1) uint_u64 [of c] by linarith
  then have "uint c2 < 262144" using e(2) uint_u64 [of c1] by linarith
  then have "uint c3 < 65539" using e(3) uint_u64 [of c2] by linarith
  then have "uint c4 < 65536" using e(4) uint_u64(1) [of c3] fold_last by simp
  then have "uint (ucast c4 :: u16) = uint c4" using uint_u64 [of c4] by (simp add: uint_ucast_mod)
  moreover have "ip_csum_fold demo_csum c = ucast c4"
    by (simp add: demo_csum_def Let_def c1_def c2_def c3_def c4_def)
  moreover have "uint c4 mod 65535 = uint c mod 65535"
    unfolding e(4) halves_residue(1) unfolding e(3) halves_residue(1) unfolding e(2) halves_residue(1)
    unfolding e(1) halves_residue(2) by simp
  ultimately show ?thesis by simp
qed

lemma demo_csum_laws: "csum_laws demo_csum"
proof -
  have "uint (ip_csum_add_even demo_csum a b) mod 65535 = (uint a - uint b) mod 65535" for a b
    using add_even_residue by (simp add: demo_csum_def)
  moreover have "uint (ip_csum_sub_even demo_csum a b) mod 65535 = (uint a + uint b) mod 65535" for a b
    using sub_even_residue by (simp add: demo_csum_def)
  ultimately show ?thesis by (simp add: csum_laws_def fold_residue)
qed

lemma demo_reach1: "cgnat_reach demo1"
proof -
  have "pool_fresh (cm_pools cgnat_init) 0" by (simp add: pool_fresh_def pool_at_def cgnat_init_def)
  from cgnat_reach.pool [OF cgnat_reach.init this prod_parts] show ?thesis unfolding demo1_def .
qed

lemma demo_reach2: "cgnat_reach demo2"
  using cgnat_reach.outside_fib [OF demo_reach1 prod_parts] unfolding demo2_def .

lemma demo1_value: "demo1 = cgnat_init\<lparr>cm_pools := [Some demo_pool], cm_pool_by_id := [1 \<mapsto> 0]\<rparr>"
  by (simp add: demo1_def api_pool_add_del_v2_def cgnat_pool_add_del_def cgnat_pool_add_def pool_msg_defaults_def
      pool_new_def demo_pool_def cgnat_init_def pool_get_put_def or_default_def)

definition demo_pool2 :: cgnat_pool_t where
  "demo_pool2 = demo_pool\<lparr>pl_outside_vrf_table_id := 10, pl_outside_fib_index := 10, pl_outside_fib_valid := True,
     pl_dpo_valid := True\<rparr>"

lemma demo2_value: "demo2 = cgnat_init\<lparr>cm_pools := [Some demo_pool2], cm_pool_by_id := [1 \<mapsto> 0]\<rparr>"
  by (simp add: demo2_def demo1_value cgnat_set_outside_fib_def demo_cx_def pool_at_def pool_upd_def
      demo_pool_def demo_pool2_def cgnat_init_def pool_elts_def)

definition demo_mapping :: cgnat_mapping_t where
  "demo_mapping = \<lparr>mp_inside_ip = demo_inside, mp_outside_ip = demo_outside, mp_inside_vrf_id = 5, mp_inside_fib_index = 5,
     mp_port_block_start = 1024, mp_port_block_end = 1031, mp_pool_index = 0, mp_sw_if_index = 3, mp_next_port = 1024,
     mp_session_count = 0, mp_sessions_head = nil32, mp_port_reuse_timestamps = [0, 0, 0, 0, 0, 0, 0, 0]\<rparr>"

lemma replicate_8: "replicate 8 x = [x, x, x, x, x, x, x, x]" "replicate 7 x = [x, x, x, x, x, x, x]"
  by (simp_all add: numeral_eq_Suc)

lemma demo_map:
  "cgnat_add_del_subscriber_mapping demo_cx 0 0 1 3 demo_inside 5 demo_outside 1024 1031 True True demo2 =
     Some (RV_OK, [Reass 3 True, Feature 3 True],
       demo2\<lparr>cm_mappings := [Some demo_mapping], cm_inside_lookup := [(demo_inside, 5) \<mapsto> 0]\<rparr>)"
  by (simp add: demo2_value cgnat_add_del_subscriber_mapping_def demo_cx_def pool_at_def mapping_target_def
      demo_pool2_def demo_pool_def mapping_add_def mapping_new_def demo_mapping_def cgnat_init_def pool_get_put_def
      replicate_8)

lemma demo3_value: "demo3 = demo2\<lparr>cm_mappings := [Some demo_mapping], cm_inside_lookup := [(demo_inside, 5) \<mapsto> 0]\<rparr>"
  by (simp add: demo3_def demo_map)

lemma demo_reach3: "cgnat_reach demo3"
  unfolding demo3_value
proof (rule cgnat_reach.mapping [OF demo_reach2 _ _ demo_map])
  show "pool_fresh (cm_mappings demo2) 0" by (simp add: pool_fresh_def pool_at_def demo2_value cgnat_init_def)
  show "target_ok demo_cx 1 demo_inside demo_outside 1024 1031 demo2"
    by (simp add: target_ok_def demo2_value pool_at_def mapping_target_def demo_pool2_def demo_pool_def)
qed


lemma demo_pkt_fields:
  "ip4_protocol (pk_mem demo_pkt) 0 = IP_PROTOCOL_UDP" "ip4_header_bytes (pk_mem demo_pkt) 0 = 20"
  "ip4_src (pk_mem demo_pkt) 0 = demo_inside" "ip4_dst (pk_mem demo_pkt) 0 = 0x08080808"
  "ld16 (pk_mem demo_pkt) 20 = 0x8813" "ld16 (pk_mem demo_pkt) 22 = 0x3500" "pk_rx_sw_if demo_pkt = 5"
  "l4_packet demo_pkt"
  by (simp_all add: demo_pkt_def ip4_protocol_def ip4_header_bytes_def ip4_src_def ip4_dst_def ld32_def ld16_def
      demo_bytes_def demo_inside_def bswap32_def bswap16_def proto_defs l4_packet_def)

lemma port_alloc_loop_8:
  "\<not> port_cooling m now (mp_next_port m) \<Longrightarrow>
     port_alloc_loop 8 now m = (mp_next_port m, m\<lparr>mp_next_port := port_next m (mp_next_port m)\<rparr>)"
  by (simp add: numeral_eq_Suc Let_def)

lemma demo_alloc: "cgnat_port_alloc demo_mapping now = (1024, demo_mapping\<lparr>mp_next_port := 1025\<rparr>)"
proof -
  have "unat (block_size demo_mapping) = 8" by (simp add: block_size_def demo_mapping_def)
  moreover have "\<not> port_cooling demo_mapping now (mp_next_port demo_mapping)"
    by (simp add: port_cooling_def port_offset_def demo_mapping_def)
  ultimately show ?thesis by (simp add: cgnat_port_alloc_def port_alloc_loop_8) (simp add: port_next_def demo_mapping_def)
qed

lemma demo_mapping_fields:
  "mp_inside_ip demo_mapping = demo_inside" "mp_outside_ip demo_mapping = demo_outside" "mp_inside_fib_index demo_mapping = 5"
  "mp_pool_index demo_mapping = 0" "mp_session_count demo_mapping = 0" "mp_sessions_head demo_mapping = nil32"
  "mp_port_block_start demo_mapping = 1024" "mp_port_block_end demo_mapping = 1031"
  by (simp_all add: demo_mapping_def)

lemma demo_pool_fields:
  "pl_outside_fib_valid demo_pool2" "pl_outside_fib_index demo_pool2 = 10" "pl_max_sessions_per_sub demo_pool2 = 4"
  "pl_pool_id demo_pool2 = 1" "pl_timeouts demo_pool2 = [7440, 240, 300, 60, 240]"
  by (simp_all add: demo_pool2_def demo_pool_def)

definition demo_session :: cgnat_session_t where
  "demo_session = (session_made demo_csum demo_mapping demo_pool2 0 0 0x08080808 0x3500 IP_PROTOCOL_UDP 1024 0x8813 1)
     \<lparr>ss_mapping_next := nil32, ss_mapping_prev := nil32\<rparr>"

definition demo4 :: cgnat_main_t where
  "demo4 = demo3\<lparr>cm_mappings := [Some (demo_mapping\<lparr>mp_next_port := 1025, mp_session_count := 1, mp_sessions_head := 0\<rparr>)],
     cm_sessions := [Some demo_session], cm_session_table_in2out := [flow_key (ss_i2o demo_session) \<mapsto> 0],
     cm_session_table_out2in := [flow_key (ss_o2i demo_session) \<mapsto> 0],
     cm_frag_rewrite_pool := [Some (frag_record demo_csum demo_inside demo_outside 5 10)],
     cm_frag_aux := [cgnat_frag_make_key demo_inside 0x08080808 IP_PROTOCOL_UDP 5 \<mapsto> 0,
       cgnat_frag_make_key 0x08080808 demo_outside IP_PROTOCOL_UDP 10 \<mapsto> 0]\<rparr>"

lemma flows_next_port:
  "session_i2o x (m\<lparr>mp_next_port := p\<rparr>) = session_i2o x m" "session_o2i x (m\<lparr>mp_next_port := p\<rparr>) = session_o2i x m"
  by (simp_all add: session_i2o_def session_o2i_def fun_eq_iff)

lemma demo_create:
  "in2out_slow_session demo_x 1 0 0 0 demo_mapping 0x08080808 0x8813 0x3500 IP_PROTOCOL_UDP demo3 = (Some (Inr 0), demo4)"
  by (simp add: in2out_slow_session_def demo_alloc cgnat_is_unk_proto_def)
    (simp add: cgnat_session_create_def demo3_value demo2_value cgnat_init_def pool_upd_def pool_at_def demo_pool_fields
    demo_mapping_fields pool_elts_def CGNAT_MAX_SESSIONS_def cgnat_frag_rewrite_acquire_def cgnat_frag_rewrite_lookup_def
    CGNAT_MAX_FRAG_REWRITES_def session_install_def session_link_def pool_get_put_def Let_def demo4_def demo_session_def
    session_made_def flows_next_port demo_x_def)

definition demo_out :: cgnat_pkt where
  "demo_out = (fst (cgnat_in2out_translate demo_x 1 IP_PROTOCOL_UDP 0 demo_session demo_pkt demo4))\<lparr>pk_tx_fib := 10\<rparr>"

definition demo5 :: cgnat_main_t where
  "demo5 = snd (cgnat_in2out_translate demo_x 1 IP_PROTOCOL_UDP 0 demo_session demo_pkt demo4)"

lemma demo_new_flow:
  "cgnat_session_lookup_in2out demo3 (ip4_src (pk_mem demo_pkt) 0) (ip4_dst (pk_mem demo_pkt) 0)
     (ld16 (pk_mem demo_pkt) (ip4_header_bytes (pk_mem demo_pkt) 0)) (ld16 (pk_mem demo_pkt) (ip4_header_bytes (pk_mem demo_pkt) 0 + 2))
     (ip4_protocol (pk_mem demo_pkt) 0) (fib_index_by_sw_if_index demo_x (pk_rx_sw_if demo_pkt)) = None"
  by (simp add: cgnat_session_lookup_in2out_def demo3_value demo2_value cgnat_init_def)

lemma demo_slowpath:
  "cgnat_in2out_slowpath_one demo_x 1 0 0 demo_pkt demo3 = Some (NEXT_FEATURE, demo_out, demo5)"
proof -
  have n: "\<not> pk_reass_non_first demo_pkt" by (simp add: demo_pkt_def)
  have f: "fib_index_by_sw_if_index demo_x 5 = 5" by (simp add: demo_x_def)
  have m: "cgnat_mapping_lookup demo3 demo_inside 5 = Some 0" "pool_at (cm_mappings demo3) 0 = Some demo_mapping"
    "pool_at (cm_pools demo3) 0 = Some demo_pool2" "pool_at (cm_sessions demo4) 0 = Some demo_session"
    by (simp_all add: cgnat_mapping_lookup_def demo3_value demo2_value pool_at_def demo4_def)
  show ?thesis
    using l4_packet_ports [OF demo_pkt_fields(8)] demo_new_flow l4_packet_not_icmp [OF demo_pkt_fields(8)] n
    unfolding cgnat_in2out_slowpath_one_def Let_def demo_pkt_fields
    by (simp add: demo_pkt_fields f m demo_mapping_fields demo_pool_fields demo_create demo_out_def demo5_def
        split: prod.split)
qed

lemma demo_reach5: "cgnat_reach demo5"
  using cgnat_reach.in2out_slow [OF demo_reach3 _ _ demo_slowpath]
  by (simp add: pool_fresh_def pool_at_def demo3_value demo2_value cgnat_init_def)

lemma demo_fresh: "pool_fresh (cm_sessions demo3) 0"
  by (simp add: pool_fresh_def pool_at_def demo3_value demo2_value cgnat_init_def)

lemma demo_fits: "fibs_fit demo3"
  by (simp add: fibs_fit_def demo3_value pool_at_def demo_mapping_fields)

lemma demo_answers: "answers demo_x demo_pkt demo_out demo_reply"
proof -
  have "ip4_protocol (pk_mem demo_reply) 0 = IP_PROTOCOL_UDP" "ip4_header_bytes (pk_mem demo_reply) 0 = 20"
    "ip4_src (pk_mem demo_reply) 0 = 0x08080808" "ip4_dst (pk_mem demo_reply) 0 = demo_outside"
    "ld16 (pk_mem demo_reply) 20 = 0x3500" "ld16 (pk_mem demo_reply) 22 = 4" "pk_rx_sw_if demo_reply = 10"
    "ip4_get_fragment_offset (pk_mem demo_reply) 0 = 0" "ip4_length (pk_mem demo_reply) 0 = 28"
    by (simp_all add: demo_reply_def ip4_protocol_def ip4_header_bytes_def ip4_src_def ip4_dst_def ld32_def ld16_def
        demo_bytes_def demo_outside_def bswap32_def bswap16_def proto_defs ip4_get_fragment_offset_def ip4_length_def)
  moreover have "ip4_src (pk_mem demo_out) 0 = demo_outside" "ld16 (pk_mem demo_out) 20 = 4" "pk_tx_fib demo_out = 10"
    by (simp_all add: demo_out_def cgnat_in2out_translate_def Let_def demo_pkt_fields l4_rewrite_def ip4_src_def
        proto_defs demo_session_def session_made_def session_i2o_def cgnat_flow_csum_calc_def demo_mapping_fields bswap16_def)
  ultimately show ?thesis
    by (simp add: answers_def Let_def demo_pkt_fields demo_x_def)
qed

section \<open>Sessions\<close>

text \<open>
  C5: In every reachable state the count of a mapping is the number of its sessions, every session
  belongs to a live mapping of a live pool, has that mapping's addresses and a port of its block, and
  is found under its own in2out key; and the in2out table names nothing else.
\<close>

theorem sessions_accounted:
  assumes "cgnat_reach cm"
  shows "(\<forall>mi m. pool_at (cm_mappings cm) mi = Some m \<longrightarrow>
        unat (mp_session_count m) = card {si. \<exists>s. pool_at (cm_sessions cm) si = Some s \<and> ss_mapping_index s = mi}) \<and>
     (\<forall>si s. pool_at (cm_sessions cm) si = Some s \<longrightarrow>
        cm_session_table_in2out cm (flow_key (ss_i2o s)) = Some si \<and>
        (\<exists>m. pool_at (cm_mappings cm) (ss_mapping_index s) = Some m \<and> session_ok m s \<and>
           pool_at (cm_pools cm) (mp_pool_index m) \<noteq> None \<and>
           cm_inside_lookup cm (mp_inside_ip m, mp_inside_fib_index m) = Some (ss_mapping_index s))) \<and>
     (\<forall>k si. cm_session_table_in2out cm k = Some si \<longrightarrow>
        (\<exists>s. pool_at (cm_sessions cm) si = Some s \<and> flow_key (ss_i2o s) = k))"
proof -
  note D = cg_invD [OF cgnat_reach_inv [OF assms]]
  have ow: "owns (cm_sessions cm) mi = {si. \<exists>s. pool_at (cm_sessions cm) si = Some s \<and> ss_mapping_index s = mi}" for mi
    by (auto simp: owns_def sess_view_Some)
  have b: "session_ok m (bare s) = session_ok m s" for m s by (simp add: session_ok_def)
  show ?thesis
  proof (intro conjI allI impI)
    fix mi m assume "pool_at (cm_mappings cm) mi = Some m"
    with D(4) have "list_ok (cm_sessions cm) mi (mp_sessions_head m) (mp_session_count m)" by (simp add: mapping_ok_def)
    from list_ok_card [OF this]
    show "unat (mp_session_count m) = card {si. \<exists>s. pool_at (cm_sessions cm) si = Some s \<and> ss_mapping_index s = mi}"
      by (simp add: ow)
  next
    fix si s assume "pool_at (cm_sessions cm) si = Some s"
    then have v: "sess_view (cm_sessions cm) si = Some (bare s)" by (auto simp: sess_view_Some)
    then show "cm_session_table_in2out cm (flow_key (ss_i2o s)) = Some si" by (auto simp: D(6))
    from D(5) [OF v] obtain m where m: "pool_at (cm_mappings cm) (ss_mapping_index s) = Some m" "session_ok m s" by (auto simp: b)
    with D(4) [OF m(1)]
    show "\<exists>m. pool_at (cm_mappings cm) (ss_mapping_index s) = Some m \<and> session_ok m s \<and>
        pool_at (cm_pools cm) (mp_pool_index m) \<noteq> None \<and>
        cm_inside_lookup cm (mp_inside_ip m, mp_inside_fib_index m) = Some (ss_mapping_index s)"
      by (auto simp: D(7) mapping_ok_def)
  next
    fix k si assume "cm_session_table_in2out cm k = Some si"
    then show "\<exists>s. pool_at (cm_sessions cm) si = Some s \<and> flow_key (ss_i2o s) = k" by (auto simp: D(6) sess_view_Some)
  qed
qed

lemma sessions_accounted_witness:
  "cgnat_reach demo5 \<and> (\<exists>s. pool_at (cm_sessions demo5) 0 = Some s \<and> cm_session_table_in2out demo5 (flow_key (ss_i2o s)) = Some 0)"
proof -
  obtain s where "pool_at (cm_sessions demo5) 0 = Some s"
    by (auto simp: demo5_def cgnat_in2out_translate_def Let_def demo4_def pool_at_def pool_upd_def)
  with sessions_accounted [OF demo_reach5] demo_reach5 show ?thesis by blast
qed

text \<open>
  C6: A TCP or UDP packet that leaves the in2out nodes on the feature arc, and is not bypassed (a
  bypass prefix, or a destination the router itself receives), carries the outside address and a port
  of the block of a mapping of its own source address, with destination, port and protocol kept.  The
  mapping's inside table agrees with the packet's in the low 16 bits of their FIB indices, which is all
  a session key holds of them: it is the very mapping of the packet's source and table when all the
  inside FIB indices in use are below 65536, and otherwise it may be that of a subscriber with the same
  address in a table whose index differs by a multiple of 65536.
\<close>

theorem subscriber_identity:
  assumes "cgnat_reach cm" and "l4_packet b" and "pool_fresh (cm_sessions cm) si"
    and "cgnat_in2out_one x now b cm = (NEXT_FEATURE, b', cm') \<and>
         \<not> cgnat_bypass_check x cm (ip4_src (pk_mem b) 0) (fib_index_by_sw_if_index x (pk_rx_sw_if b)) \<and>
         \<not> cgnat_is_local_receive x (fib_index_by_sw_if_index x (pk_rx_sw_if b)) (ip4_dst (pk_mem b) 0) \<or>
       cgnat_in2out_slowpath_one x now si fi b cm = Some (NEXT_FEATURE, b', cm')"
  shows "\<exists>mi m. pool_at (cm_mappings cm) mi = Some m \<and> leaves_as m b b' \<and>
     mp_inside_ip m = ip4_src (pk_mem b) 0 \<and>
     (ucast (mp_inside_fib_index m) :: u16) = ucast (fib_index_by_sw_if_index x (pk_rx_sw_if b)) \<and>
     (fibs_fit cm \<longrightarrow>
        cgnat_mapping_lookup cm (ip4_src (pk_mem b) 0) (fib_index_by_sw_if_index x (pk_rx_sw_if b)) = Some mi)"
proof -
  have "\<exists>m. leaves_as_own x cm b b' m"
    using in2out_one_leaves [OF cgnat_reach_inv [OF assms(1)] assms(2), of x now b' cm']
      slowpath_leaves [OF cgnat_reach_inv [OF assms(1)] assms(2,3), of x now fi b' cm'] assms(4) by blast
  then show ?thesis unfolding leaves_as_own_def Let_def by blast
qed

lemma subscriber_identity_witness:
  "cgnat_reach demo3 \<and> (\<exists>mi m. cgnat_mapping_lookup demo3 demo_inside 5 = Some mi \<and>
     pool_at (cm_mappings demo3) mi = Some m \<and> leaves_as m demo_pkt demo_out)"
  using subscriber_identity [OF demo_reach3 demo_pkt_fields(8) demo_fresh disjI2 [OF demo_slowpath]] demo_reach3 demo_fits
  unfolding demo_pkt_fields demo_x_def by auto

text \<open>The keys of two tables whose FIB indices differ by 65536 are the same.\<close>

lemma session_keys_cross_tables:
  "cgnat_session_make_key src dst sp dp pr (fib + 65536) = cgnat_session_make_key src dst sp dp pr fib"
proof -
  have "(ucast (fib + 65536) :: u16) = ucast fib"
    by (simp add: word_unat_eq_iff unat_ucast_mod unat_word_ariths mod_mod_cancel)
  then show ?thesis by (simp add: cgnat_session_make_key_def)
qed

text \<open>
  C7: A packet that answers the first packet of a new flow is translated back: it leaves towards the
  subscriber's address and port, in the subscriber's table, with its source kept.
\<close>

theorem reply_reaches_subscriber:
  assumes "cgnat_reach cm" and "l4_packet b" and "pool_fresh (cm_sessions cm) si"
    and "cgnat_session_lookup_in2out cm (ip4_src (pk_mem b) 0) (ip4_dst (pk_mem b) 0)
        (ld16 (pk_mem b) (ip4_header_bytes (pk_mem b) 0)) (ld16 (pk_mem b) (ip4_header_bytes (pk_mem b) 0 + 2))
        (ip4_protocol (pk_mem b) 0) (fib_index_by_sw_if_index x (pk_rx_sw_if b)) = None"
    and "cgnat_in2out_slowpath_one x now si fi b cm = Some (NEXT_FEATURE, b', cm')"
    and "answers x' b b' r"
  shows "\<exists>r' cm''. cgnat_out2in_one x' now' r cm' = (NEXT_LOOKUP, r', cm'') \<and>
     ip4_dst (pk_mem r') 0 = ip4_src (pk_mem b) 0 \<and>
     ld16 (pk_mem r') (ip4_header_bytes (pk_mem r) 0 + 2) = ld16 (pk_mem b) (ip4_header_bytes (pk_mem b) 0) \<and>
     ip4_src (pk_mem r') 0 = ip4_src (pk_mem r) 0 \<and>
     ld16 (pk_mem r') (ip4_header_bytes (pk_mem r) 0) = ld16 (pk_mem r) (ip4_header_bytes (pk_mem r) 0) \<and>
     pk_tx_fib r' = fib_index_by_sw_if_index x (pk_rx_sw_if b)"
  by (rule reply_translated [OF cgnat_reach_inv [OF assms(1)] assms(2-6)])

lemma reply_reaches_subscriber_witness:
  "\<exists>r' cm''. cgnat_out2in_one demo_x 2 demo_reply demo5 = (NEXT_LOOKUP, r', cm'') \<and>
     ip4_dst (pk_mem r') 0 = demo_inside \<and> pk_tx_fib r' = 5"
  using reply_reaches_subscriber [OF demo_reach3 demo_pkt_fields(8) demo_fresh demo_new_flow demo_slowpath demo_answers, of 2]
  unfolding demo_pkt_fields demo_x_def by auto

lemma link_view_self:
  assumes "pool_fresh ss si"
  shows "sess_view (link_sessions si h (pool_get_put si s ss)) si = Some (bare s)"
  using assms by (auto simp: link_sessions_def sess_view_def pool_simps Let_def bare_def)

text \<open>The two flows of a new session: one mapping gives the addresses, one port the ports, to both.\<close>

lemma made_session_flows:
  assumes made: "cgnat_session_create (nx_csum x) si fi mi remote rport proto oport iport now0 cm0 = Some (Some si, cm1)"
      "pool_fresh (cm_sessions cm0) si" "pool_at (cm_sessions cm1) si = Some s"
    and tu: "(proto = IP_PROTOCOL_TCP \<or> proto = IP_PROTOCOL_UDP) = True"
  obtains m :: cgnat_mapping_t and f g where
    "ss_i2o s = cgnat_flow_csum_calc (nx_csum x) (mp_inside_ip m) (mp_outside_ip m) iport (bswap16 oport) True f"
      "fl_saddr (ss_i2o s) = mp_inside_ip m" "fl_sport (ss_i2o s) = iport"
      "fl_rewrite_saddr (ss_i2o s) = mp_outside_ip m" "fl_rewrite_sport (ss_i2o s) = bswap16 oport"
    and "ss_o2i s = cgnat_flow_csum_calc (nx_csum x) (mp_outside_ip m) (mp_inside_ip m) (bswap16 oport) iport True g"
      "fl_saddr (ss_o2i s) = mp_outside_ip m" "fl_sport (ss_o2i s) = bswap16 oport"
      "fl_rewrite_daddr (ss_o2i s) = mp_inside_ip m" "fl_rewrite_dport (ss_o2i s) = iport"
proof -
  from made(1) obtain m pool fri s0 where c: "s0 = session_made (nx_csum x) m pool mi fri remote rport proto oport iport now0"
    "cm_sessions cm1 = link_sessions si (mp_sessions_head m) (pool_get_put si s0 (cm_sessions cm0))"
    by (cases rule: session_create_cases) auto
  have "sess_view (cm_sessions cm1) si = Some (bare s0)"
    by (simp add: c(2) link_view_self [OF made(2)])
  with made(3) have e: "bare s = bare s0" by (auto simp: sess_view_Some)
  have "ss_i2o s = ss_i2o s0" "ss_o2i s = ss_o2i s0"
    using arg_cong [OF e, of ss_i2o] arg_cong [OF e, of ss_o2i] by simp_all
  then have s: "ss_i2o s = session_i2o (nx_csum x) m (if pl_outside_fib_valid pool then pl_outside_fib_index pool else 0)
        remote rport proto (bswap16 oport) iport"
      "ss_o2i s = session_o2i (nx_csum x) m (if pl_outside_fib_valid pool then pl_outside_fib_index pool else 0)
        remote rport proto (bswap16 oport) iport" by (simp_all add: c(1) session_made_def Let_def)
  obtain f where f: "ss_i2o s = cgnat_flow_csum_calc (nx_csum x) (mp_inside_ip m) (mp_outside_ip m) iport (bswap16 oport) True f"
    using s(1) unfolding session_i2o_def Let_def tu by blast
  obtain g where g: "ss_o2i s = cgnat_flow_csum_calc (nx_csum x) (mp_outside_ip m) (mp_inside_ip m) (bswap16 oport) iport True g"
    using s(2) unfolding session_o2i_def Let_def tu by blast
  show thesis
    by (rule that [OF f _ _ _ _ g]) (simp_all add: s session_i2o_def session_o2i_def Let_def cgnat_flow_csum_calc_def)
qed

text \<open>
  C8: The translation of a session keeps checksums valid, in both directions: the sum of the words of
  the IP header and the sum a TCP or UDP checksum covers are the same modulo 65535 before and after, for
  every packet of the session's tuple with a header of at least 20 bytes (a UDP packet without checksum
  aside).  The laws of vnet's
  routines are a hypothesis: on the checksum, which is the complement of the sum, \<open>ip_csum_add_even\<close>
  subtracts, \<open>ip_csum_sub_even\<close> adds, and \<open>ip_csum_fold\<close> keeps the residue modulo 65535.
\<close>

theorem translated_checksums_valid:
  assumes laws: "csum_laws (nx_csum x)"
    and made: "cgnat_session_create (nx_csum x) si fi mi remote rport proto oport iport now0 cm0 = Some (Some si, cm1)"
      "pool_fresh (cm_sessions cm0) si" "pool_at (cm_sessions cm1) si = Some s"
    and hl: "20 \<le> ip4_header_bytes (pk_mem b) 0"
    and pr: "proto = IP_PROTOCOL_TCP \<and> 9 \<le> n \<or>
      proto = IP_PROTOCOL_UDP \<and> 4 \<le> n \<and> ld16 (pk_mem b) (ip4_header_bytes (pk_mem b) 0 + 6) \<noteq> 0"
    and dir: "ip4_src (pk_mem b) 0 = fl_saddr (ss_i2o s) \<and>
        ld16 (pk_mem b) (ip4_header_bytes (pk_mem b) 0) = fl_sport (ss_i2o s) \<and>
        cgnat_in2out_translate x now proto si s b cm = (b', cm') \<or>
      ip4_dst (pk_mem b) 0 = fl_saddr (ss_o2i s) \<and>
        ld16 (pk_mem b) (ip4_header_bytes (pk_mem b) 0 + 2) = fl_sport (ss_o2i s) \<and>
        cgnat_out2in_translate x now proto si s b cm = (b', cm')"
  shows "ip_header_sum (pk_mem b') = ip_header_sum (pk_mem b) \<and> l4_sum (pk_mem b') n = l4_sum (pk_mem b) n"
proof -
  have tu: "(proto = IP_PROTOCOL_TCP \<or> proto = IP_PROTOCOL_UDP) = True" using pr by auto
  obtain m :: cgnat_mapping_t and f g where f: "ss_i2o s = cgnat_flow_csum_calc (nx_csum x) (mp_inside_ip m) (mp_outside_ip m) iport (bswap16 oport) True f"
      "fl_saddr (ss_i2o s) = mp_inside_ip m" "fl_sport (ss_i2o s) = iport"
      "fl_rewrite_saddr (ss_i2o s) = mp_outside_ip m" "fl_rewrite_sport (ss_i2o s) = bswap16 oport"
    and g: "ss_o2i s = cgnat_flow_csum_calc (nx_csum x) (mp_outside_ip m) (mp_inside_ip m) (bswap16 oport) iport True g"
      "fl_saddr (ss_o2i s) = mp_outside_ip m" "fl_sport (ss_o2i s) = bswap16 oport"
      "fl_rewrite_daddr (ss_o2i s) = mp_inside_ip m" "fl_rewrite_dport (ss_o2i s) = iport"
    by (rule made_session_flows [OF made tu], rule that)
  from dir show ?thesis
  proof (elim disjE conjE)
    assume p: "ip4_src (pk_mem b) 0 = fl_saddr (ss_i2o s)" "ld16 (pk_mem b) (ip4_header_bytes (pk_mem b) 0) = fl_sport (ss_i2o s)"
      "cgnat_in2out_translate x now proto si s b cm = (b', cm')"
    have "pk_mem b' = l4_rewrite x proto (ip4_header_bytes (pk_mem b) 0) 0 (bswap16 oport) (fl_l4_csum_delta (ss_i2o s))
        (upd16 10 (csum_apply x (fl_l3_csum_delta (ss_i2o s))) (st32 12 (mp_outside_ip m) (pk_mem b)))"
      using p(3) by (auto simp: cgnat_in2out_translate_def Let_def f(4,5))
    with rewrite_sums [OF laws f(1), of 12 0 "pk_mem b" "ip4_header_bytes (pk_mem b) 0" proto n "pk_mem b'"] p(1,2) f(2,3) hl pr
    show ?thesis by (simp add: ip4_src_def)
  next
    assume p: "ip4_dst (pk_mem b) 0 = fl_saddr (ss_o2i s)" "ld16 (pk_mem b) (ip4_header_bytes (pk_mem b) 0 + 2) = fl_sport (ss_o2i s)"
      "cgnat_out2in_translate x now proto si s b cm = (b', cm')"
    have "pk_mem b' = l4_rewrite x proto (ip4_header_bytes (pk_mem b) 0) 2 iport (fl_l4_csum_delta (ss_o2i s))
        (upd16 10 (csum_apply x (fl_l3_csum_delta (ss_o2i s))) (st32 16 (mp_inside_ip m) (pk_mem b)))"
      using p(3) by (auto simp: cgnat_out2in_translate_def Let_def g(4,5))
    with rewrite_sums [OF laws g(1), of 16 2 "pk_mem b" "ip4_header_bytes (pk_mem b) 0" proto n "pk_mem b'"] p(1,2) g(2,3) hl pr
    show ?thesis by (simp add: ip4_dst_def)
  qed
qed

lemma demo_session_create:
  "cgnat_session_create demo_csum 0 0 0 0x08080808 0x3500 IP_PROTOCOL_UDP 1024 0x8813 1
     (demo3\<lparr>cm_mappings := [Some (demo_mapping\<lparr>mp_next_port := 1025\<rparr>)]\<rparr>) = Some (Some 0, demo4)"
  by (simp add: cgnat_session_create_def demo3_value demo2_value cgnat_init_def pool_upd_def pool_at_def demo_pool_fields
    demo_mapping_fields pool_elts_def CGNAT_MAX_SESSIONS_def cgnat_frag_rewrite_acquire_def cgnat_frag_rewrite_lookup_def
    CGNAT_MAX_FRAG_REWRITES_def session_install_def session_link_def pool_get_put_def Let_def demo4_def demo_session_def
    session_made_def flows_next_port)

lemma translated_checksums_valid_witness:
  "ip_header_sum (pk_mem demo_out) = ip_header_sum (pk_mem demo_pkt) \<and> l4_sum (pk_mem demo_out) 4 = l4_sum (pk_mem demo_pkt) 4"
proof -
  have x: "nx_csum demo_x = demo_csum" by (simp add: demo_x_def)
  have s: "pool_at (cm_sessions demo4) 0 = Some demo_session" by (simp add: demo4_def pool_at_def)
  have f: "pool_fresh (cm_sessions (demo3\<lparr>cm_mappings := [Some (demo_mapping\<lparr>mp_next_port := 1025\<rparr>)]\<rparr>)) 0"
    using demo_fresh by simp
  have d: "ip4_src (pk_mem demo_pkt) 0 = fl_saddr (ss_i2o demo_session) \<and>
      ld16 (pk_mem demo_pkt) (ip4_header_bytes (pk_mem demo_pkt) 0) = fl_sport (ss_i2o demo_session)"
    by (simp add: demo_pkt_fields demo_session_def session_made_def session_i2o_def cgnat_flow_csum_calc_def Let_def demo_mapping_fields)
  have c: "ld16 (pk_mem demo_pkt) 26 \<noteq> 0" by (simp add: demo_pkt_def demo_bytes_def ld16_def)
  obtain b' cm' where t: "cgnat_in2out_translate demo_x 1 IP_PROTOCOL_UDP 0 demo_session demo_pkt demo4 = (b', cm')"
    by fastforce
  have "pk_mem demo_out = pk_mem b'" by (simp add: demo_out_def t)
  with translated_checksums_valid [OF demo_csum_laws [folded x] demo_session_create [folded x] f s, of demo_pkt 4, OF _ _ disjI1]
    d t c show ?thesis by (simp add: demo_pkt_fields)
qed

section \<open>The TCP state machine\<close>

text \<open>A run of segments: direction, flags and time of each.\<close>

definition tcp_run :: "cgnat_pool_t \<Rightarrow> (cgnat_dir \<times> u8 \<times> real) list \<Rightarrow> cgnat_session_t \<Rightarrow> cgnat_session_t" where
  "tcp_run pool segs s = foldl (\<lambda>s (dir, flags, now). cgnat_set_tcp_session_state pool flags dir now s) s segs"

definition seen :: "(cgnat_dir \<times> u8 \<times> real) list \<Rightarrow> cgnat_dir \<Rightarrow> u8 \<Rightarrow> bool" where
  "seen segs dir f \<longleftrightarrow> (\<exists>(d, flags, now) \<in> set segs. d = dir \<and> flags AND f \<noteq> 0)"

text \<open>Every flag a session remembers was seen in its direction.\<close>

definition tcp_ok :: "cgnat_pool_t \<Rightarrow> (cgnat_dir \<times> u8 \<times> real) list \<Rightarrow> cgnat_session_t \<Rightarrow> bool" where
  "tcp_ok pool segs s \<longleftrightarrow>
     ss_timeout s = real (unat (cgnat_session_timeout_for_tcp pool (ss_tcp_state s))) \<and>
     (\<forall>dir. \<forall>f \<in> {TCP_FLAG_SYN, TCP_FLAG_ACK}. ss_flags dir s AND f \<noteq> 0 \<longrightarrow> seen segs dir f) \<and>
     (ss_tcp_state s = CGNAT_TCP_STATE_ESTABLISHED \<longrightarrow>
        (\<forall>dir. \<forall>f \<in> {TCP_FLAG_SYN, TCP_FLAG_ACK}. seen segs dir f))"

lemma seen_snoc: "seen (segs @ [(d, fl, now)]) dir f \<longleftrightarrow> seen segs dir f \<or> d = dir \<and> fl AND f \<noteq> 0"
  by (auto simp: seen_def)

lemma and_or_nonzero: "(a OR b) AND (f :: u8) \<noteq> 0 \<longleftrightarrow> a AND f \<noteq> 0 \<or> b AND f \<noteq> 0"
  by (auto simp: bit_eq_iff bit_simps)

lemma and_and_nonzero: "(a AND b) AND (f :: u8) \<noteq> 0 \<Longrightarrow> a AND f \<noteq> 0 \<and> b AND f \<noteq> 0"
  by (auto simp: bit_eq_iff bit_simps)

lemma both_syn_ack_flags:
  assumes "tcp_both_syn_ack s" and "f \<in> {TCP_FLAG_SYN, TCP_FLAG_ACK}"
  shows "ss_flags dir s AND f \<noteq> 0"
proof -
  have "(ss_flags_i2o s AND ss_flags_o2i s) AND f \<noteq> 0"
    using assms by (auto simp: tcp_both_syn_ack_def tcp_flag_defs)
  from and_and_nonzero [OF this]
  show ?thesis by (cases dir) (simp_all add: ss_flags_def)
qed

lemma tcp_step:
  assumes ok: "tcp_ok pool segs s"
  shows "tcp_ok pool (segs @ [(dir, fl, now)]) (cgnat_set_tcp_session_state pool fl dir now s)"
proof -
  let ?segs = "segs @ [(dir, fl, now)]" and ?m = "TCP_FLAG_FIN OR TCP_FLAG_SYN OR TCP_FLAG_RST OR TCP_FLAG_ACK"
  define s1 where "s1 = ss_flags_or dir (fl AND ?m) s"
  have s1: "ss_tcp_state s1 = ss_tcp_state s" "ss_timeout s1 = ss_timeout s"
    by (simp_all add: s1_def ss_flags_or_def split: cgnat_dir.split)
  have m: "?m AND f = f" if "f \<in> {TCP_FLAG_SYN, TCP_FLAG_ACK}" for f using that by (auto simp: tcp_flag_defs)
  have fl1: "ss_flags d s1 = (if d = dir then ss_flags d s OR (fl AND ?m) else ss_flags d s)" for d
    by (cases d; cases dir) (simp_all add: s1_def ss_flags_def ss_flags_or_def)
  have F: "seen ?segs d f" if "ss_flags d s1 AND f \<noteq> 0" "f \<in> {TCP_FLAG_SYN, TCP_FLAG_ACK}" for d f
  proof -
    have "ss_flags d s AND f \<noteq> 0 \<or> d = dir \<and> fl AND f \<noteq> 0"
      using that m [OF that(2)] by (auto simp: fl1 and_or_nonzero and.assoc split: if_splits)
    then show ?thesis using ok that(2) by (auto simp: tcp_ok_def seen_snoc)
  qed
  have old: "\<forall>d. \<forall>f \<in> {TCP_FLAG_SYN, TCP_FLAG_ACK}. seen ?segs d f" if "ss_tcp_state s = CGNAT_TCP_STATE_ESTABLISHED"
    using ok that by (auto simp: tcp_ok_def seen_snoc)
  have ok1: "tcp_ok pool ?segs s1" using ok F old by (simp add: tcp_ok_def s1)
  have ok2: "tcp_ok pool ?segs
      (s2\<lparr>ss_timeout := real (unat (cgnat_session_timeout_for_tcp pool (ss_tcp_state s2)))\<rparr>)"
    if s2: "s2 = tcp_next_state dir now s1" and ne: "ss_tcp_state s2 \<noteq> ss_tcp_state s" for s2
  proof (cases "ss_tcp_state s2 = CGNAT_TCP_STATE_ESTABLISHED")
    case True
    then have b: "tcp_both_syn_ack s1" "ss_flags d s2 = ss_flags d s1" for d
      using ne unfolding s2 tcp_next_state_def s1
      by (auto simp: s1 ss_flags_def split: cgnat_tcp_state_e.splits if_splits cgnat_dir.split)
    have "\<forall>d. \<forall>f \<in> {TCP_FLAG_SYN, TCP_FLAG_ACK}. seen ?segs d f"
      using both_syn_ack_flags [OF b(1)] F by blast
    then show ?thesis by (simp add: tcp_ok_def)
  next
    case False
    then have "ss_flags_i2o s2 = 0" "ss_flags_o2i s2 = 0"
      using ne unfolding s2 tcp_next_state_def s1
      by (auto simp: s1 ss_flags_def split: cgnat_tcp_state_e.splits if_splits cgnat_dir.split)
    with False show ?thesis by (simp add: tcp_ok_def ss_flags_def split: cgnat_dir.split)
  qed
  have same: "tcp_ok pool ?segs s2" if "s2 = tcp_next_state dir now s1" and "ss_tcp_state s2 = ss_tcp_state s" for s2
  proof -
    have "s2 = s1" using that unfolding tcp_next_state_def s1
      by (auto simp: s1 split: cgnat_tcp_state_e.splits if_splits)
    with ok1 show ?thesis by simp
  qed
  show ?thesis
    using ok1 ok2 same unfolding cgnat_set_tcp_session_state_def Let_def s1_def by auto
qed

lemma tcp_run_ok: "tcp_ok pool segs0 s \<Longrightarrow> tcp_ok pool (segs0 @ segs) (tcp_run pool segs s)"
proof (induction segs arbitrary: segs0 s)
  case (Cons a segs)
  obtain d fl now where a: "a = (d, fl, now)" by (cases a)
  from Cons.IH [OF tcp_step [OF Cons.prems, of d fl now]] show ?case by (simp add: tcp_run_def a)
qed (simp add: tcp_run_def)

text \<open>
  C14: A TCP session gets the long timeout only when SYN and ACK have been seen in both directions: from
  a new session, after any run of segments, the timeout is the one of the state, and the state is
  established only if a SYN and an ACK of either direction were among the segments.
\<close>

theorem tcp_long_timeout_needs_handshake:
  assumes "ss_tcp_state s = CGNAT_TCP_STATE_CLOSED" and "ss_flags_i2o s = 0" and "ss_flags_o2i s = 0"
    and "ss_timeout s = real (unat (new_session_timeout pool IP_PROTOCOL_TCP))"
  shows "ss_timeout (tcp_run pool segs s) = real (unat (cgnat_session_timeout_for_tcp pool (ss_tcp_state (tcp_run pool segs s)))) \<and>
     (ss_tcp_state (tcp_run pool segs s) = CGNAT_TCP_STATE_ESTABLISHED \<longrightarrow>
        (\<forall>dir. seen segs dir TCP_FLAG_SYN \<and> seen segs dir TCP_FLAG_ACK))"
proof -
  have "tcp_ok pool [] s" using assms by (auto simp: tcp_ok_def ss_flags_def new_session_timeout_def split: cgnat_dir.split)
  from tcp_run_ok [OF this, of segs] show ?thesis by (simp add: tcp_ok_def)
qed

definition demo_tcp :: cgnat_session_t where
  "demo_tcp = demo_session\<lparr>ss_timeout := 240\<rparr>"

lemma tcp_long_timeout_needs_handshake_witness:
  "ss_timeout (tcp_run demo_pool [(CGNAT_TCP_DIR_I2O, 2, 1), (CGNAT_TCP_DIR_O2I, 18, 2), (CGNAT_TCP_DIR_I2O, 16, 3)] demo_tcp) = 7440"
proof -
  let ?segs = "[(CGNAT_TCP_DIR_I2O, 2, 1), (CGNAT_TCP_DIR_O2I, 18, 2), (CGNAT_TCP_DIR_I2O, 16, 3)] :: (cgnat_dir \<times> u8 \<times> real) list"
  have f: "ss_tcp_state demo_tcp = CGNAT_TCP_STATE_CLOSED" "ss_flags_i2o demo_tcp = 0" "ss_flags_o2i demo_tcp = 0"
    "ss_timeout demo_tcp = real (unat (new_session_timeout demo_pool IP_PROTOCOL_TCP))"
    by (simp_all add: demo_tcp_def demo_session_def session_made_def Let_def new_session_timeout_def
        cgnat_session_timeout_for_tcp_def demo_pool_def proto_slot_defs)
  have "ss_tcp_state (tcp_run demo_pool ?segs demo_tcp) = CGNAT_TCP_STATE_ESTABLISHED"
    by (simp add: tcp_run_def cgnat_set_tcp_session_state_def Let_def ss_flags_or_def ss_flags_def tcp_next_state_def
        tcp_both_syn_ack_def tcp_flag_defs f)
  with tcp_long_timeout_needs_handshake [OF f, of ?segs]
  show ?thesis by (simp add: cgnat_session_timeout_for_tcp_def demo_pool_def proto_slot_defs)
qed

section \<open>Ports and blocks\<close>

text \<open>
  C22: The port allocator is a cyclic first fit over the block, and a freed port cools down: it returns
  the first port from the cursor on that is not in its cooldown and moves the cursor behind it, or 0
  and no change when every port of the block is; a port freed is not returned for 120 seconds.  The 120
  seconds are fixed: the reuse timeout of the pool, which the API documents as the seconds before a
  port is used again, with 120 as its default, is not read, so a pool with any other timeout cools
  its ports for 120 seconds all the same.
\<close>

theorem port_alloc_first_free:
  assumes "block_wf m" and "cgnat_port_alloc m now = (p, m')"
  shows "block_wf m' \<and>
     ((\<forall>k < unat (block_size m). port_cooling m now (block_port m k)) \<longrightarrow> p = 0 \<and> m' = m) \<and>
     (\<forall>k < unat (block_size m). \<not> port_cooling m now (block_port m k) \<longrightarrow> (\<forall>j < k. port_cooling m now (block_port m j)) \<longrightarrow>
        p = block_port m k \<and> mp_port_block_start m \<le> p \<and> p \<le> mp_port_block_end m \<and>
        m' = m\<lparr>mp_next_port := block_port m (Suc k)\<rparr>) \<and>
     (\<forall>t port. mp_port_block_start m \<le> port \<longrightarrow> port \<le> mp_port_block_end m \<longrightarrow> port \<noteq> 0 \<longrightarrow> 0 < t \<longrightarrow> now - t < 120 \<longrightarrow>
        fst (cgnat_port_alloc (cgnat_port_free t port m) now) \<noteq> port)"
proof (intro conjI allI impI)
  show "block_wf m'" by (rule port_alloc_wf(1) [OF assms])
next
  assume "\<forall>k < unat (block_size m). port_cooling m now (block_port m k)"
  then have "find (\<lambda>k. \<not> port_cooling m now (block_port m k)) [0..<unat (block_size m)] = None"
    by (simp add: find_None_iff)
  then show "p = 0" "m' = m" using assms(2) unfolding port_alloc_first_fit [OF assms(1)] by simp_all
next
  fix k assume k: "k < unat (block_size m)" "\<not> port_cooling m now (block_port m k)"
    "\<forall>j < k. port_cooling m now (block_port m j)"
  then have "find (\<lambda>k. \<not> port_cooling m now (block_port m k)) [0..<unat (block_size m)] = Some k"
    by (auto simp: find_Some_iff)
  then show "p = block_port m k" "m' = m\<lparr>mp_next_port := block_port m (Suc k)\<rparr>"
    using assms(2) unfolding port_alloc_first_fit [OF assms(1)] by simp_all
  then show "mp_port_block_start m \<le> p" "p \<le> mp_port_block_end m"
    using block_port_in [OF assms(1)] by simp_all
next
  fix t :: real and port assume p: "mp_port_block_start m \<le> port" "port \<le> mp_port_block_end m" "port \<noteq> 0" "0 < t" "now - t < 120"
  obtain q m2 where a: "cgnat_port_alloc (cgnat_port_free t port m) now = (q, m2)" by fastforce
  show "fst (cgnat_port_alloc (cgnat_port_free t port m) now) \<noteq> port"
    using port_alloc_wf(3) [OF port_free_wf [OF assms(1)] a] port_free_cools [OF assms(1) p(1,2,4,5)] p(3) a by auto
qed

lemma port_alloc_first_free_witness:
  "cgnat_port_alloc demo_mapping 100 = (1024, demo_mapping\<lparr>mp_next_port := 1025\<rparr>) \<and>
     fst (cgnat_port_alloc (cgnat_port_free 50 1024 demo_mapping) 100) \<noteq> 1024"
proof -
  have wf: "block_wf demo_mapping" by (simp add: block_wf_def demo_mapping_def)
  from port_alloc_first_free [OF wf demo_alloc [of 100], THEN conjunct2, THEN conjunct2, THEN conjunct2, rule_format, of 1024 50]
  show ?thesis by (simp add: demo_alloc demo_mapping_fields)
qed

text \<open>
  C15: Deterministic NAT identifies the subscriber: with the parameters the API builds from an inside
  and an outside prefix, and a port or more for each host, every inside address of the prefix gets a
  block inside the pool's range, every port of it leads back to that address, and two addresses that
  share an outside address have disjoint blocks.
\<close>

theorem det_block_identifies_subscriber:
  assumes "0 < fp_len ipfx" "fp_len ipfx \<le> 32" "0 < fp_len opfx" "fp_len opfx \<le> 32"
    and "pl_port_range_start pool \<le> pl_port_range_end pool"
    and dp: "dp = det_params_outside opfx (det_params_new pool ipfx)" and "dt_ports_per_host dp \<noteq> 0"
    and ip: "bswap32 ip - bswap32 (fp_addr ipfx) < prefix_count (fp_len ipfx)"
  shows "\<exists>outside s e. cgnat_det_forward dp ip = Some (Some (outside, s, e)) \<and>
     pl_port_range_start pool \<le> s \<and> s \<le> e \<and> e \<le> pl_port_range_end pool \<and>
     (\<forall>port. s \<le> port \<longrightarrow> port \<le> e \<longrightarrow> cgnat_det_reverse dp outside port = Some (Some ip)) \<and>
     (\<forall>ip2 s2 e2. ip2 \<noteq> ip \<longrightarrow> cgnat_det_forward dp ip2 = Some (Some (outside, s2, e2)) \<longrightarrow> e < s2 \<or> e2 < s)"
proof -
  have wf: "det_wf dp" by (rule det_params_wf [OF assms(1-7)])
  have f: "dt_inside_base dp = fp_addr ipfx" "dt_inside_count dp = prefix_count (fp_len ipfx)"
    "dt_port_range_start dp = pl_port_range_start pool" "dt_port_range_end dp = pl_port_range_end pool"
    by (simp_all add: dp det_params_outside_def det_params_new_def Let_def)
  obtain o' s e where v: "cgnat_det_forward dp ip = Some (Some (o', s, e))"
    "pl_port_range_start pool \<le> s" "s \<le> e" "e \<le> pl_port_range_end pool"
    using det_forward_value [OF wf _ ip [folded f(1,2)]] unfolding f by blast
  show ?thesis
  proof (intro exI conjI allI impI)
    show "cgnat_det_reverse dp o' port = Some (Some ip)" if "s \<le> port" "port \<le> e" for port
      by (rule det_reverse_forward [OF wf v(1) that])
    show "e < s2 \<or> e2 < s" if "ip2 \<noteq> ip" "cgnat_det_forward dp ip2 = Some (Some (o', s2, e2))" for ip2 s2 e2
      by (rule det_blocks_disjoint [OF wf v(1) that(2) that(1) [symmetric]])
  qed (fact v)+
qed

lemma det_block_identifies_subscriber_witness:
  "\<exists>outside s e. cgnat_det_forward (det_params_outside \<lparr>fp_addr = demo_outside, fp_len = 31\<rparr>
      (det_params_new demo_pool \<lparr>fp_addr = bswap32 0x64400000, fp_len = 24\<rparr>)) demo_inside = Some (Some (outside, s, e)) \<and> s \<le> e"
proof -
  let ?i = "\<lparr>fp_addr = bswap32 0x64400000, fp_len = 24\<rparr>" and ?o = "\<lparr>fp_addr = demo_outside, fp_len = 31\<rparr>"
  have 1: "0 < fp_len ?i" "fp_len ?i \<le> 32" "0 < fp_len ?o" "fp_len ?o \<le> 32"
    "pl_port_range_start demo_pool \<le> pl_port_range_end demo_pool" by (simp_all add: demo_pool_def)
  have 2: "dt_ports_per_host (det_params_outside ?o (det_params_new demo_pool ?i)) \<noteq> 0"
    by (simp add: det_params_outside_def det_params_new_def Let_def prefix_count_def demo_pool_def)
  have 3: "bswap32 demo_inside - bswap32 (fp_addr ?i) < prefix_count (fp_len ?i)"
    by (simp add: demo_inside_def prefix_count_def)
  from det_block_identifies_subscriber [OF 1 HOL.refl 2 3] show ?thesis by (elim exE conjE) (intro exI conjI)
qed

text \<open>
  C11: Deleting a subscriber's mapping returns and reaps exactly its sessions: afterwards its address has
  no mapping, the sessions left are those of the other subscribers, and the pools are as they were.
\<close>

theorem mapping_delete_reaps:
  assumes reach: "cgnat_reach cm" and "cm_pool_by_id cm pool_id \<noteq> None" and "fib_table_find x vrf \<noteq> nil32"
  shows "\<exists>fx cm'. cgnat_add_del_subscriber_mapping x now new pool_id sw ip vrf oip ps pe en False cm = Some (RV_OK, fx, cm') \<and>
     cm_inside_lookup cm' (ip, fib_table_find x vrf) = None \<and> cm_pools cm' = cm_pools cm \<and>
     (\<forall>si. pool_at (cm_sessions cm') si \<noteq> None \<longleftrightarrow>
        (\<exists>s. pool_at (cm_sessions cm) si = Some s \<and>
           \<not> (fl_saddr (ss_i2o s) = ip \<and> fl_fib_index (ss_i2o s) = fib_table_find x vrf)))"
proof -
  note inv = cgnat_reach_inv [OF reach]
  obtain p pool where p: "cm_pool_by_id cm pool_id = Some p" "pool_at (cm_pools cm) p = Some pool"
    using assms(2) cg_invD(8) [OF inv] by blast
  obtain rv fx cm' where d: "mapping_del now ip (fib_table_find x vrf) en cm = Some (rv, fx, cm')" "rv = RV_OK"
    "cm_inside_lookup cm' (ip, fib_table_find x vrf) = None" "cm_pools cm' = cm_pools cm"
    "\<And>si s. sess_view (cm_sessions cm') si = Some s \<longleftrightarrow> sess_view (cm_sessions cm) si = Some s \<and>
        \<not> (fl_saddr (ss_i2o s) = ip \<and> fl_fib_index (ss_i2o s) = fib_table_find x vrf)"
    by (rule mapping_del_inv [OF inv, of now ip "fib_table_find x vrf" en], rule that)
  have "pool_at (cm_sessions cm') si \<noteq> None \<longleftrightarrow> (\<exists>s. pool_at (cm_sessions cm) si = Some s \<and>
      \<not> (fl_saddr (ss_i2o s) = ip \<and> fl_fib_index (ss_i2o s) = fib_table_find x vrf))" for si
  proof -
    have "pool_at (cm_sessions cm') si \<noteq> None \<longleftrightarrow> (\<exists>t. sess_view (cm_sessions cm') si = Some t)" by (auto simp: sess_view_Some)
    then show ?thesis unfolding d(5) by (auto simp: sess_view_Some)
  qed
  with d(1-4) p assms(3) show ?thesis by (simp add: cgnat_add_del_subscriber_mapping_def)
qed

lemma mapping_delete_reaps_witness:
  "\<exists>fx cm'. cgnat_add_del_subscriber_mapping demo_cx 2 0 1 3 demo_inside 5 0 0 0 True False demo5 = Some (RV_OK, fx, cm') \<and>
     pool_at (cm_sessions cm') 0 = None"
proof -
  obtain s where s: "pool_at (cm_sessions demo5) 0 = Some s" "fl_saddr (ss_i2o s) = demo_inside" "fl_fib_index (ss_i2o s) = 5"
    by (auto simp: demo5_def cgnat_in2out_translate_def Let_def demo4_def pool_at_def pool_upd_def demo_session_def
        session_made_def session_i2o_def cgnat_flow_csum_calc_def demo_mapping_fields)
  have p: "cm_pool_by_id demo5 1 \<noteq> None" "fib_table_find demo_cx 5 \<noteq> nil32"
    by (simp_all add: demo5_def cgnat_in2out_translate_def Let_def demo4_def demo3_value demo2_value demo_cx_def)
  have f: "fib_table_find demo_cx 5 = 5" by (simp add: demo_cx_def)
  from mapping_delete_reaps [OF demo_reach5 p, of 2 0 3 demo_inside 0 0 0 True] s f show ?thesis by force
qed

end
