(* ===== verification/Ipoe.thy ===== *)
theory Ipoe
  imports Prelude
begin

text \<open>
  The IPoE plugin (plugins/osvbng_ipoe): one virtual interface per subscriber, found from the encap
  interface, the inner VLAN and the MAC address of a packet; its dual-stack bindings and the routes
  they install; the layer-2 header of transmitted frames; and the input node with its one-entry
  lookup cache and batched interface counters.

  A MAC address is its six bytes.  The hash table is a map; requests to vnet and the FIB are a list
  of effects, in the order the code makes them; the index a pool returns, the interface indices vnet
  hands out and its answers are inputs.  Trace and prefetch are dropped.
\<close>

section \<open>Data\<close>

type_synonym mac = "u8 list"

record ipoe_session_t =
  is_encap_if_index :: u32
  is_client_mac :: mac
  is_local_mac :: mac
  is_outer_vlan :: u16
  is_inner_vlan :: u16
  is_outer_tpid :: u16
  is_client_ipv4 :: u32
  is_ipv4_bound :: bool
  is_client_ipv6 :: u128
  is_ipv6_bound :: bool
  is_delegated_prefix :: u128
  is_delegated_prefix_len :: u8
  is_pd_next_hop :: u128
  is_decap_fib_index :: u32
  is_decap_fib_index_ip6 :: u32
  is_sw_if_index :: u32
  is_hw_if_index :: u32

record ipoe_entry_key_t =
  ik_sw_if_index :: u32
  ik_inner_vlan :: u16
  ik_mac :: mac

record ipoe_entry_result_t =
  ir_sw_if_index :: u32
  ir_session_index :: u32

record ipoe_main_t =
  im_sessions :: "ipoe_session_t pool"
  im_session_table :: "ipoe_entry_key_t \<Rightarrow> ipoe_entry_result_t option"
  im_session_index_by_sw_if_index :: "u32 list"
  im_enabled_by_sw_if_index :: "u32 \<Rightarrow> bool"
  im_ethertypes_registered :: bool

record vnet_ipoe_add_del_session_args_t =
  sa_is_add :: bool
  sa_encap_if_index :: u32
  sa_client_mac :: mac
  sa_local_mac :: mac
  sa_outer_vlan :: u16
  sa_inner_vlan :: u16
  sa_decap_fib_index :: u32

datatype ipoe_rv = IPOE_OK | IPOE_ENTRY_ALREADY_EXISTS | IPOE_NO_SUCH_ENTRY | IPOE_INVALID_SW_IF_INDEX

text \<open>A route through a subscriber interface: FIB, address and length, interface.\<close>

datatype ipoe_route = Route4 u32 u32 u32 | Route6 u32 u128 u8 u32

datatype ipoe_effect =
    Path_Add ipoe_route | Path_Remove ipoe_route
  | Register_Interface u32 | Set_Parent u32 u32 | Link_Up u32 | Admin_Up u32 | Admin_Down u32
  | Tunnel_Output u32 | Reset_Output u32 | Delete_Interface u32
  | Table_Bind u32 u32 | Register_Ethertypes

record ipoe_ext =
  encap_is_dot1ad :: "u32 \<Rightarrow> bool"
  fib_table_get_table_id :: "u32 \<Rightarrow> u32"
  fib_table_find_ip4 :: "u32 \<Rightarrow> u32"
  fib_table_find_ip6 :: "u32 \<Rightarrow> u32"
  sw_interface_is_valid :: "u32 \<Rightarrow> bool"

definition ETHERNET_TYPE_IP4 :: u16 where "ETHERNET_TYPE_IP4 = 0x0800"
definition ETHERNET_TYPE_IP6 :: u16 where "ETHERNET_TYPE_IP6 = 0x86DD"
definition ETHERNET_TYPE_VLAN :: u16 where "ETHERNET_TYPE_VLAN = 0x8100"
definition ETHERNET_TYPE_DOT1AD :: u16 where "ETHERNET_TYPE_DOT1AD = 0x88A8"

lemmas ethertype_defs = ETHERNET_TYPE_IP4_def ETHERNET_TYPE_IP6_def ETHERNET_TYPE_VLAN_def ETHERNET_TYPE_DOT1AD_def

definition ipoe_make_key :: "u32 \<Rightarrow> u16 \<Rightarrow> mac \<Rightarrow> ipoe_entry_key_t" where
  "ipoe_make_key sw_if_index inner_vlan m = \<lparr>ik_sw_if_index = sw_if_index, ik_inner_vlan = inner_vlan, ik_mac = m\<rparr>"

definition ipoe_session_table_add ::
  "u32 \<Rightarrow> u16 \<Rightarrow> mac \<Rightarrow> ipoe_entry_result_t \<Rightarrow> ipoe_main_t \<Rightarrow> ipoe_main_t"
where
  "ipoe_session_table_add sw_if_index inner_vlan m result im =
     im\<lparr>im_session_table := (im_session_table im)(ipoe_make_key sw_if_index inner_vlan m \<mapsto> result)\<rparr>"

definition ipoe_session_table_del :: "u32 \<Rightarrow> u16 \<Rightarrow> mac \<Rightarrow> ipoe_main_t \<Rightarrow> ipoe_main_t" where
  "ipoe_session_table_del sw_if_index inner_vlan m im =
     im\<lparr>im_session_table := (im_session_table im)(ipoe_make_key sw_if_index inner_vlan m := None)\<rparr>"

text \<open>The reverse lookup, with the guards the operations share.\<close>

definition ipoe_session_of :: "ipoe_main_t \<Rightarrow> u32 \<Rightarrow> u32 option" where
  "ipoe_session_of im sw_if_index =
     (if length (im_session_index_by_sw_if_index im) \<le> unat sw_if_index then None
      else let session_index = im_session_index_by_sw_if_index im ! unat sw_if_index in
           if session_index = nil32 then None else Some session_index)"

text \<open>\<^verbatim>\<open>vec_validate_init_empty\<close> and the store after it.\<close>

definition ipoe_index_set :: "u32 \<Rightarrow> u32 \<Rightarrow> u32 list \<Rightarrow> u32 list" where
  "ipoe_index_set sw_if_index session_index v =
     (v @ replicate (unat sw_if_index + 1 - length v) nil32)[unat sw_if_index := session_index]"

section \<open>The layer-2 header\<close>

definition be16 :: "u16 \<Rightarrow> u8 list" where
  "be16 w = [ucast (drop_bit 8 w), ucast w]"

definition vlan_header :: "u16 \<Rightarrow> u16 \<Rightarrow> u8 list" where
  "vlan_header vlan etype = be16 (vlan AND 0xFFF) @ be16 etype"

definition ipoe_rewrite_bytes :: "bool \<Rightarrow> ipoe_session_t \<Rightarrow> u8 list" where
  "ipoe_rewrite_bytes link_ip4 s =
     (let etype = (if link_ip4 then ETHERNET_TYPE_IP4 else ETHERNET_TYPE_IP6) in
      is_client_mac s @ is_local_mac s @
      (if is_outer_vlan s \<noteq> 0 \<and> is_inner_vlan s \<noteq> 0 then
         be16 (is_outer_tpid s) @ vlan_header (is_outer_vlan s) ETHERNET_TYPE_VLAN @ vlan_header (is_inner_vlan s) etype
       else if is_outer_vlan s \<noteq> 0 then
         be16 (is_outer_tpid s) @ vlan_header (is_outer_vlan s) etype
       else if is_inner_vlan s \<noteq> 0 then
         be16 ETHERNET_TYPE_VLAN @ vlan_header (is_inner_vlan s) etype
       else be16 etype))"

definition ipoe_build_rewrite :: "u32 \<Rightarrow> bool \<Rightarrow> ipoe_main_t \<Rightarrow> u8 list option" where
  "ipoe_build_rewrite sw_if_index link_ip4 im =
     (case ipoe_session_of im sw_if_index of None \<Rightarrow> None | Some session_index \<Rightarrow>
        map_option (ipoe_rewrite_bytes link_ip4) (pool_at (im_sessions im) session_index))"

text \<open>
  \<^verbatim>\<open>ipoe_update_adj\<close>: the rewrite of the midchain and the interface it is stacked on.
\<close>

definition ipoe_update_adj :: "u32 \<Rightarrow> bool \<Rightarrow> ipoe_main_t \<Rightarrow> (u8 list option \<times> u32) option" where
  "ipoe_update_adj sw_if_index link_ip4 im =
     (case ipoe_session_of im sw_if_index of None \<Rightarrow> None | Some session_index \<Rightarrow>
        map_option (\<lambda>s. (ipoe_build_rewrite sw_if_index link_ip4 im, is_encap_if_index s))
          (pool_at (im_sessions im) session_index))"

text \<open>A frame is a function of the offset: what lies behind it is readable too.\<close>

definition ld_be16 :: "(nat \<Rightarrow> u8) \<Rightarrow> nat \<Rightarrow> u16" where
  "ld_be16 p a = push_bit 8 (ucast (p a)) OR ucast (p (a + 1))"

definition ipoe_recover_inner_vlan :: "(nat \<Rightarrow> u8) \<Rightarrow> u16" where
  "ipoe_recover_inner_vlan eth =
     (let ethertype = ld_be16 eth 12 in
      if ethertype = ETHERNET_TYPE_DOT1AD \<or> ethertype = ETHERNET_TYPE_VLAN then
        let vlan1_id = ld_be16 eth 14 AND 0xFFF; ethertype1 = ld_be16 eth 16 in
        if ethertype1 = ETHERNET_TYPE_VLAN then ld_be16 eth 18 AND 0xFFF else vlan1_id
      else 0)"

section \<open>Bindings\<close>

type_synonym ipoe_result = "ipoe_rv \<times> ipoe_effect list \<times> ipoe_main_t"

text \<open>A binding operation finds its session by the interface and changes only that session.\<close>

definition ipoe_with_session ::
  "u32 \<Rightarrow> (ipoe_session_t \<Rightarrow> ipoe_effect list \<times> ipoe_session_t) \<Rightarrow> ipoe_main_t \<Rightarrow> ipoe_result"
where
  "ipoe_with_session sw_if_index f im =
     (case ipoe_session_of im sw_if_index of None \<Rightarrow> (IPOE_INVALID_SW_IF_INDEX, [], im) | Some si \<Rightarrow>
      case pool_at (im_sessions im) si of None \<Rightarrow> (IPOE_OK, [], im) | Some s \<Rightarrow>
      case f s of (fx, s') \<Rightarrow> (IPOE_OK, fx, im\<lparr>im_sessions := pool_upd si (\<lambda>_. s') (im_sessions im)\<rparr>))"

definition ipoe_clear_ipv4 :: "u32 \<Rightarrow> u32 \<Rightarrow> ipoe_session_t \<Rightarrow> ipoe_effect list \<times> ipoe_session_t" where
  "ipoe_clear_ipv4 sw addr s =
     (if \<not> is_ipv4_bound s then ([], s)
      else ([Path_Remove (Route4 (is_decap_fib_index s) addr sw)], s\<lparr>is_client_ipv4 := 0, is_ipv4_bound := False\<rparr>))"

definition ipoe_set_ipv4 :: "u32 \<Rightarrow> u32 \<Rightarrow> bool \<Rightarrow> ipoe_session_t \<Rightarrow> ipoe_effect list \<times> ipoe_session_t" where
  "ipoe_set_ipv4 sw addr is_add s =
     (if is_add then
        if is_ipv4_bound s \<and> is_client_ipv4 s = addr then ([], s)
        else case (if is_ipv4_bound s then ipoe_clear_ipv4 sw (is_client_ipv4 s) s else ([], s)) of (fx, s1) \<Rightarrow>
          (fx @ [Path_Add (Route4 (is_decap_fib_index s1) addr sw)], s1\<lparr>is_client_ipv4 := addr, is_ipv4_bound := True\<rparr>)
      else ipoe_clear_ipv4 sw addr s)"

definition vnet_ipoe_set_session_ipv4 :: "u32 \<Rightarrow> u32 \<Rightarrow> bool \<Rightarrow> ipoe_main_t \<Rightarrow> ipoe_result" where
  "vnet_ipoe_set_session_ipv4 sw addr is_add = ipoe_with_session sw (ipoe_set_ipv4 sw addr is_add)"

definition ipoe_clear_ipv6 :: "u32 \<Rightarrow> u128 \<Rightarrow> ipoe_session_t \<Rightarrow> ipoe_effect list \<times> ipoe_session_t" where
  "ipoe_clear_ipv6 sw addr s =
     (if \<not> is_ipv6_bound s then ([], s)
      else ([Path_Remove (Route6 (is_decap_fib_index_ip6 s) addr 128 sw)], s\<lparr>is_client_ipv6 := 0, is_ipv6_bound := False\<rparr>))"

definition ipoe_set_ipv6 :: "u32 \<Rightarrow> u128 \<Rightarrow> bool \<Rightarrow> ipoe_session_t \<Rightarrow> ipoe_effect list \<times> ipoe_session_t" where
  "ipoe_set_ipv6 sw addr is_add s =
     (if is_add then
        if is_ipv6_bound s \<and> is_client_ipv6 s = addr then ([], s)
        else case (if is_ipv6_bound s then ipoe_clear_ipv6 sw (is_client_ipv6 s) s else ([], s)) of (fx, s1) \<Rightarrow>
          (fx @ [Path_Add (Route6 (is_decap_fib_index_ip6 s1) addr 128 sw)], s1\<lparr>is_client_ipv6 := addr, is_ipv6_bound := True\<rparr>)
      else ipoe_clear_ipv6 sw addr s)"

definition vnet_ipoe_set_session_ipv6 :: "u32 \<Rightarrow> u128 \<Rightarrow> bool \<Rightarrow> ipoe_main_t \<Rightarrow> ipoe_result" where
  "vnet_ipoe_set_session_ipv6 sw addr is_add = ipoe_with_session sw (ipoe_set_ipv6 sw addr is_add)"

definition ipoe_clear_pd :: "u32 \<Rightarrow> u128 \<Rightarrow> u8 \<Rightarrow> ipoe_session_t \<Rightarrow> ipoe_effect list \<times> ipoe_session_t" where
  "ipoe_clear_pd sw prefix len s =
     (if is_delegated_prefix_len s = 0 then ([], s)
      else ([Path_Remove (Route6 (is_decap_fib_index_ip6 s) prefix len sw)],
            s\<lparr>is_delegated_prefix := 0, is_delegated_prefix_len := 0, is_pd_next_hop := 0\<rparr>))"

definition ipoe_set_pd ::
  "u32 \<Rightarrow> u128 \<Rightarrow> u8 \<Rightarrow> u128 \<Rightarrow> bool \<Rightarrow> ipoe_session_t \<Rightarrow> ipoe_effect list \<times> ipoe_session_t"
where
  "ipoe_set_pd sw prefix len next_hop is_add s =
     (if is_add then
        if is_delegated_prefix_len s = len \<and> is_delegated_prefix s = prefix then ([], s)
        else case (if is_delegated_prefix_len s \<noteq> 0
                   then ipoe_clear_pd sw (is_delegated_prefix s) (is_delegated_prefix_len s) s else ([], s)) of (fx, s1) \<Rightarrow>
          (fx @ [Path_Add (Route6 (is_decap_fib_index_ip6 s1) prefix len sw)],
           s1\<lparr>is_delegated_prefix := prefix, is_delegated_prefix_len := len, is_pd_next_hop := next_hop\<rparr>)
      else ipoe_clear_pd sw prefix len s)"

definition vnet_ipoe_set_delegated_prefix :: "u32 \<Rightarrow> u128 \<Rightarrow> u8 \<Rightarrow> u128 \<Rightarrow> bool \<Rightarrow> ipoe_main_t \<Rightarrow> ipoe_result" where
  "vnet_ipoe_set_delegated_prefix sw prefix len next_hop is_add =
     ipoe_with_session sw (ipoe_set_pd sw prefix len next_hop is_add)"

section \<open>Sessions\<close>

definition ipoe_key_of :: "ipoe_session_t \<Rightarrow> ipoe_entry_key_t" where
  "ipoe_key_of s = ipoe_make_key (is_encap_if_index s) (is_inner_vlan s) (is_client_mac s)"

definition ipoe_zero_session :: ipoe_session_t where
  "ipoe_zero_session = \<lparr>is_encap_if_index = 0, is_client_mac = replicate 6 0, is_local_mac = replicate 6 0,
     is_outer_vlan = 0, is_inner_vlan = 0, is_outer_tpid = 0, is_client_ipv4 = 0, is_ipv4_bound = False,
     is_client_ipv6 = 0, is_ipv6_bound = False, is_delegated_prefix = 0, is_delegated_prefix_len = 0,
     is_pd_next_hop = 0, is_decap_fib_index = 0, is_decap_fib_index_ip6 = 0, is_sw_if_index = 0, is_hw_if_index = 0\<rparr>"

text \<open>The table a new session is bound to: table 0 for the default FIB, else the table of the FIB.\<close>

definition ipoe_table_id :: "ipoe_ext \<Rightarrow> u32 \<Rightarrow> u32" where
  "ipoe_table_id ext fib = (if fib \<noteq> 0 then fib_table_get_table_id ext fib else 0)"

definition ipoe_new_session ::
  "ipoe_ext \<Rightarrow> vnet_ipoe_add_del_session_args_t \<Rightarrow> u32 \<Rightarrow> u32 \<Rightarrow> ipoe_session_t"
where
  "ipoe_new_session ext a hw_if_index sw_if_index =
     ipoe_zero_session\<lparr>is_encap_if_index := sa_encap_if_index a, is_client_mac := sa_client_mac a,
       is_local_mac := sa_local_mac a, is_outer_vlan := sa_outer_vlan a, is_inner_vlan := sa_inner_vlan a,
       is_decap_fib_index := sa_decap_fib_index a,
       is_outer_tpid := (if encap_is_dot1ad ext (sa_encap_if_index a) then ETHERNET_TYPE_DOT1AD else ETHERNET_TYPE_VLAN),
       is_hw_if_index := hw_if_index, is_sw_if_index := sw_if_index,
       is_decap_fib_index_ip6 := fib_table_find_ip6 ext (ipoe_table_id ext (sa_decap_fib_index a))\<rparr>"

text \<open>A removal the delete path makes when its guard is on, for the session at \<open>si\<close>.\<close>

definition ipoe_unbind ::
  "u32 \<Rightarrow> (ipoe_session_t \<Rightarrow> bool) \<Rightarrow> (ipoe_session_t \<Rightarrow> ipoe_main_t \<Rightarrow> ipoe_result) \<Rightarrow>
   ipoe_effect list \<times> ipoe_main_t \<Rightarrow> ipoe_effect list \<times> ipoe_main_t"
where
  "ipoe_unbind si on f st =
     (case st of (fx, im) \<Rightarrow>
      case pool_at (im_sessions im) si of None \<Rightarrow> (fx, im) | Some s \<Rightarrow>
      if on s then (case f s im of (_, fx', im') \<Rightarrow> (fx @ fx', im')) else (fx, im))"

definition ipoe_unbind_all :: "u32 \<Rightarrow> ipoe_main_t \<Rightarrow> ipoe_effect list \<times> ipoe_main_t" where
  "ipoe_unbind_all si im =
     ipoe_unbind si (\<lambda>s. is_delegated_prefix_len s \<noteq> 0)
       (\<lambda>s. vnet_ipoe_set_delegated_prefix (is_sw_if_index s) (is_delegated_prefix s) (is_delegated_prefix_len s)
              (is_pd_next_hop s) False)
     (ipoe_unbind si is_ipv6_bound
       (\<lambda>s. vnet_ipoe_set_session_ipv6 (is_sw_if_index s) (is_client_ipv6 s) False)
     (ipoe_unbind si is_ipv4_bound
       (\<lambda>s. vnet_ipoe_set_session_ipv4 (is_sw_if_index s) (is_client_ipv4 s) False) ([], im)))"

definition ipoe_session_delete ::
  "vnet_ipoe_add_del_session_args_t \<Rightarrow> u32 \<Rightarrow> ipoe_session_t \<Rightarrow> ipoe_main_t \<Rightarrow> ipoe_effect list \<times> ipoe_main_t"
where
  "ipoe_session_delete a si s im =
     (case ipoe_unbind_all si im of (fx, im1) \<Rightarrow>
      let im2 = ipoe_session_table_del (sa_encap_if_index a) (sa_inner_vlan a) (sa_client_mac a) im1;
          im3 = im2\<lparr>im_session_index_by_sw_if_index :=
                  (im_session_index_by_sw_if_index im2)[unat (is_sw_if_index s) := nil32]\<rparr> in
      (Reset_Output (is_sw_if_index s) # fx @ [Admin_Down (is_sw_if_index s), Delete_Interface (is_hw_if_index s)],
       im3\<lparr>im_sessions := pool_put si (im_sessions im3)\<rparr>))"

definition ipoe_session_create ::
  "ipoe_ext \<Rightarrow> vnet_ipoe_add_del_session_args_t \<Rightarrow> u32 \<Rightarrow> u32 \<Rightarrow> u32 \<Rightarrow> ipoe_main_t \<Rightarrow> ipoe_effect list \<times> ipoe_main_t"
where
  "ipoe_session_create ext a idx hw_if_index sw_if_index im =
     (let table_id = ipoe_table_id ext (sa_decap_fib_index a);
          im1 = im\<lparr>im_sessions := pool_get_put idx (ipoe_new_session ext a hw_if_index sw_if_index) (im_sessions im),
                   im_session_index_by_sw_if_index :=
                     ipoe_index_set sw_if_index idx (im_session_index_by_sw_if_index im)\<rparr> in
      ([Register_Interface idx, Set_Parent sw_if_index (sa_encap_if_index a), Link_Up hw_if_index, Admin_Up sw_if_index,
        Tunnel_Output sw_if_index, Table_Bind sw_if_index table_id],
       ipoe_session_table_add (sa_encap_if_index a) (sa_inner_vlan a) (sa_client_mac a)
         \<lparr>ir_sw_if_index = sw_if_index, ir_session_index = idx\<rparr> im1))"

text \<open>
  The interface index is None where the code leaves the caller's variable alone.  \<open>idx\<close>,
  \<open>hw_if_index\<close> and \<open>sw_if_index\<close> are what the pool and vnet hand out.
\<close>

definition vnet_ipoe_add_del_session ::
  "ipoe_ext \<Rightarrow> vnet_ipoe_add_del_session_args_t \<Rightarrow> u32 \<Rightarrow> u32 \<Rightarrow> u32 \<Rightarrow> ipoe_main_t \<Rightarrow>
   ipoe_rv \<times> u32 option \<times> ipoe_effect list \<times> ipoe_main_t"
where
  "vnet_ipoe_add_del_session ext a idx hw_if_index sw_if_index im =
     (case im_session_table im (ipoe_make_key (sa_encap_if_index a) (sa_inner_vlan a) (sa_client_mac a)) of
        Some result \<Rightarrow>
          (case pool_at (im_sessions im) (ir_session_index result) of
             None \<Rightarrow> (IPOE_OK, None, [], im)
           | Some s \<Rightarrow>
               if sa_is_add a then (IPOE_ENTRY_ALREADY_EXISTS, Some (is_sw_if_index s), [], im)
               else (case ipoe_session_delete a (ir_session_index result) s im of (fx, im') \<Rightarrow>
                       (IPOE_OK, Some (is_sw_if_index s), fx, im')))
      | None \<Rightarrow>
          if \<not> sa_is_add a then (IPOE_NO_SUCH_ENTRY, None, [], im)
          else (case ipoe_session_create ext a idx hw_if_index sw_if_index im of (fx, im') \<Rightarrow>
                  (IPOE_OK, Some sw_if_index, fx, im')))"

definition vnet_ipoe_enable_disable :: "ipoe_ext \<Rightarrow> u32 \<Rightarrow> bool \<Rightarrow> ipoe_main_t \<Rightarrow> ipoe_result" where
  "vnet_ipoe_enable_disable ext sw_if_index enable im =
     (if \<not> sw_interface_is_valid ext sw_if_index then (IPOE_INVALID_SW_IF_INDEX, [], im)
      else (IPOE_OK,
            (if enable \<and> \<not> im_ethertypes_registered im then [Register_Ethertypes] else []),
            im\<lparr>im_ethertypes_registered := im_ethertypes_registered im \<or> enable,
               im_enabled_by_sw_if_index := (im_enabled_by_sw_if_index im)(sw_if_index := enable)\<rparr>))"

definition ipoe_init :: ipoe_main_t where
  "ipoe_init = \<lparr>im_sessions = [], im_session_table = (\<lambda>_. None), im_session_index_by_sw_if_index = [],
     im_enabled_by_sw_if_index = (\<lambda>_. False), im_ethertypes_registered = False\<rparr>"

section \<open>Messages\<close>

definition api_ipoe_add_del_session ::
  "ipoe_ext \<Rightarrow> vnet_ipoe_add_del_session_args_t \<Rightarrow> u32 \<Rightarrow> u32 \<Rightarrow> u32 \<Rightarrow> u32 \<Rightarrow> ipoe_main_t \<Rightarrow>
   (ipoe_rv \<times> u32) \<times> ipoe_effect list \<times> ipoe_main_t"
where
  "api_ipoe_add_del_session ext mp decap_vrf_id idx hw_if_index sw_if_index im =
     (case vnet_ipoe_add_del_session ext (mp\<lparr>sa_decap_fib_index := fib_table_find_ip4 ext decap_vrf_id\<rparr>)
             idx hw_if_index sw_if_index im of
        (rv, out, fx, im') \<Rightarrow> ((rv, case out of None \<Rightarrow> nil32 | Some sw \<Rightarrow> sw), fx, im'))"

definition ipoe_session_dump :: "u32 \<Rightarrow> ipoe_main_t \<Rightarrow> ipoe_session_t list" where
  "ipoe_session_dump sw_if_index im =
     (if sw_if_index = nil32 then List.map_filter (pool_at (im_sessions im)) (pool_indices (im_sessions im))
      else case ipoe_session_of im sw_if_index of None \<Rightarrow> []
           | Some si \<Rightarrow> (case pool_at (im_sessions im) si of None \<Rightarrow> [] | Some s \<Rightarrow> [s]))"

section \<open>The input node\<close>

text \<open>
  A packet: the interface it came in on, its bytes from the Ethernet header on, its bytes from the
  IP header on, and the length of its buffer chain.
\<close>

record ipoe_pkt =
  pk_sw_if_index :: u32
  pk_eth :: "nat \<Rightarrow> u8"
  pk_ip :: "nat \<Rightarrow> u8"
  pk_len :: u32

datatype ipoe_input_next = IPOE_NEXT_DROP | IPOE_NEXT_ETHERNET_INPUT | IPOE_NEXT_IP4_INPUT | IPOE_NEXT_IP6_INPUT

text \<open>The initial all-ones key of the cache equals no key, the last word of a key being padded with zero.\<close>

type_synonym ipoe_cache = "(ipoe_entry_key_t \<times> ipoe_entry_result_t option) option"

definition ipoe_lookup_1 ::
  "(ipoe_entry_key_t \<Rightarrow> ipoe_entry_result_t option) \<Rightarrow> ipoe_cache \<Rightarrow> u32 \<Rightarrow> u16 \<Rightarrow> mac \<Rightarrow>
   ipoe_entry_result_t option \<times> ipoe_cache"
where
  "ipoe_lookup_1 table cached sw_if_index inner_vlan m =
     (let key = ipoe_make_key sw_if_index inner_vlan m in
      if map_option fst cached = Some key then (snd (the cached), cached)
      else (table key, Some (key, table key)))"

record ipoe_stats =
  st_cached :: ipoe_cache
  st_sw_if_index :: u32
  st_n_packets :: u32
  st_n_bytes :: u32
  st_increments :: "(u32 \<times> u32 \<times> u32) list"
  st_processed :: u32
  st_no_session :: u32

definition pk_is_ip4 :: "ipoe_pkt \<Rightarrow> bool" where
  "pk_is_ip4 p \<longleftrightarrow> drop_bit 4 (pk_ip p 0) = 4"

definition pk_src_mac :: "ipoe_pkt \<Rightarrow> mac" where
  "pk_src_mac p = map (pk_eth p) [6..<12]"

text \<open>The limited broadcast of IPv4 and the multicast range of IPv6.\<close>

definition pk_is_group :: "ipoe_pkt \<Rightarrow> bool" where
  "pk_is_group p \<longleftrightarrow>
     (if pk_is_ip4 p then map (pk_ip p) [16..<20] = [0xFF, 0xFF, 0xFF, 0xFF] else pk_ip p 24 = 0xFF)"

definition st_flush :: "ipoe_stats \<Rightarrow> (u32 \<times> u32 \<times> u32) list" where
  "st_flush st = (if st_n_packets st \<noteq> 0 then [(st_sw_if_index st, st_n_packets st, st_n_bytes st)] else [])"

definition st_count :: "u32 \<Rightarrow> u32 \<Rightarrow> ipoe_stats \<Rightarrow> ipoe_stats" where
  "st_count sw len st =
     (if sw = st_sw_if_index st then st\<lparr>st_n_packets := st_n_packets st + 1, st_n_bytes := st_n_bytes st + len\<rparr>
      else st\<lparr>st_increments := st_increments st @ st_flush st,
              st_sw_if_index := sw, st_n_packets := 1, st_n_bytes := len\<rparr>)"

definition ipoe_input_one ::
  "ipoe_main_t \<Rightarrow> ipoe_pkt \<Rightarrow> ipoe_stats \<Rightarrow> (ipoe_input_next \<times> ipoe_pkt) \<times> ipoe_stats"
where
  "ipoe_input_one im p st =
     (let next = (if pk_is_ip4 p then IPOE_NEXT_IP4_INPUT else IPOE_NEXT_IP6_INPUT) in
      if \<not> im_enabled_by_sw_if_index im (pk_sw_if_index p) then ((next, p), st)
      else case ipoe_lookup_1 (im_session_table im) (st_cached st) (pk_sw_if_index p)
                  (ipoe_recover_inner_vlan (pk_eth p)) (pk_src_mac p) of
        (result, cached) \<Rightarrow>
          let st1 = st\<lparr>st_cached := cached\<rparr> in
          case result of
            None \<Rightarrow> ((next, p), st1\<lparr>st_no_session := st_no_session st1 + 1\<rparr>)
          | Some r \<Rightarrow>
              if pk_is_group p then ((next, p), st1)
              else case pool_at (im_sessions im) (ir_session_index r) of
                None \<Rightarrow> ((next, p), st1)
              | Some s \<Rightarrow>
                  ((next, p\<lparr>pk_sw_if_index := is_sw_if_index s\<rparr>),
                   (st_count (is_sw_if_index s) (pk_len p) st1)\<lparr>st_processed := st_processed st1 + 1\<rparr>))"

primrec ipoe_input_loop ::
  "ipoe_main_t \<Rightarrow> ipoe_pkt list \<Rightarrow> ipoe_stats \<Rightarrow> (ipoe_input_next \<times> ipoe_pkt) list \<times> ipoe_stats"
where
  "ipoe_input_loop im [] st = ([], st)"
| "ipoe_input_loop im (p # ps) st =
     (case ipoe_input_one im p st of (o1, st1) \<Rightarrow>
      case ipoe_input_loop im ps st1 of (os, st2) \<Rightarrow> (o1 # os, st2))"

text \<open>The packets in order with their next nodes, the increments of the counters, and the two error counters.\<close>

definition ipoe_input_node ::
  "ipoe_main_t \<Rightarrow> ipoe_pkt list \<Rightarrow>
   (ipoe_input_next \<times> ipoe_pkt) list \<times> (u32 \<times> u32 \<times> u32) list \<times> u32 \<times> u32"
where
  "ipoe_input_node im ps =
     (case ipoe_input_loop im ps \<lparr>st_cached = None, st_sw_if_index = nil32, st_n_packets = 0, st_n_bytes = 0,
              st_increments = [], st_processed = 0, st_no_session = 0\<rparr> of
        (os, st) \<Rightarrow> (os, st_increments st @ st_flush st, st_processed st, st_no_session st))"

end
