(* ===== verification/Ipoe_Inv.thy ===== *)
theory Ipoe_Inv
  imports Ipoe
begin

text \<open>
  The invariant of the IPoE plugin.  The lookup table, the reverse index and the session pool say
  the same, whatever the caller asks for; the routes the plugin has asked the FIB for are those of the
  bindings as long as the caller's removals name what is bound.  The contract of a binding operation is the locale \<open>ipoe_binding\<close>, which the IPv4, the IPv6 and the
  prefix operation satisfy.
\<close>

section \<open>Routes\<close>

fun ipoe_route_if :: "ipoe_route \<Rightarrow> u32" where
  "ipoe_route_if (Route4 fib a sw) = sw"
| "ipoe_route_if (Route6 fib a len sw) = sw"

definition ipoe_session_routes :: "ipoe_session_t \<Rightarrow> ipoe_route set" where
  "ipoe_session_routes s =
     (if is_ipv4_bound s then {Route4 (is_decap_fib_index s) (is_client_ipv4 s) (is_sw_if_index s)} else {})
   \<union> (if is_ipv6_bound s then {Route6 (is_decap_fib_index_ip6 s) (is_client_ipv6 s) 128 (is_sw_if_index s)} else {})
   \<union> (if is_delegated_prefix_len s \<noteq> 0
      then {Route6 (is_decap_fib_index_ip6 s) (is_delegated_prefix s) (is_delegated_prefix_len s) (is_sw_if_index s)} else {})"

definition ipoe_routes :: "ipoe_session_t pool \<Rightarrow> ipoe_route set" where
  "ipoe_routes p = (\<Union>s \<in> {s. \<exists>i. pool_at p i = Some s}. ipoe_session_routes s)"

text \<open>What the FIB holds of the plugin's routes after a list of requests.\<close>

fun ipoe_apply_effect :: "ipoe_effect \<Rightarrow> ipoe_route set \<Rightarrow> ipoe_route set" where
  "ipoe_apply_effect (Path_Add r) R = insert r R"
| "ipoe_apply_effect (Path_Remove r) R = R - {r}"
| "ipoe_apply_effect _ R = R"

definition ipoe_apply :: "ipoe_effect list \<Rightarrow> ipoe_route set \<Rightarrow> ipoe_route set" where
  "ipoe_apply fx R = fold ipoe_apply_effect fx R"

lemma ipoe_apply_simps [simp]:
  "ipoe_apply [] R = R"
  "ipoe_apply (e # fx) R = ipoe_apply fx (ipoe_apply_effect e R)"
  "ipoe_apply (fx @ gx) R = ipoe_apply gx (ipoe_apply fx R)"
  by (simp_all add: ipoe_apply_def)

lemma ipoe_session_routes_if: "r \<in> ipoe_session_routes s \<Longrightarrow> ipoe_route_if r = is_sw_if_index s"
  by (auto simp: ipoe_session_routes_def split: if_splits)

section \<open>The invariant\<close>

definition ipoe_wf :: "ipoe_session_t \<Rightarrow> bool" where
  "ipoe_wf s \<longleftrightarrow> length (is_client_mac s) = 6 \<and> length (is_local_mac s) = 6
   \<and> (is_outer_tpid s = ETHERNET_TYPE_DOT1AD \<or> is_outer_tpid s = ETHERNET_TYPE_VLAN)"

definition ipoe_inv :: "ipoe_main_t \<Rightarrow> bool" where
  "ipoe_inv im \<longleftrightarrow>
     (\<forall>k r. im_session_table im k = Some r \<longleftrightarrow>
        (\<exists>s. pool_at (im_sessions im) (ir_session_index r) = Some s \<and> ipoe_key_of s = k \<and> ir_sw_if_index r = is_sw_if_index s))
   \<and> (\<forall>sw i. ipoe_session_of im sw = Some i \<longleftrightarrow> (\<exists>s. pool_at (im_sessions im) i = Some s \<and> is_sw_if_index s = sw))
   \<and> (\<forall>i s. pool_at (im_sessions im) i = Some s \<longrightarrow> ipoe_wf s)"

text \<open>No delegated prefix is a host route, which could be the route of the bound address.\<close>

definition ipoe_tidy :: "ipoe_session_t \<Rightarrow> bool" where
  "ipoe_tidy s \<longleftrightarrow> is_delegated_prefix_len s < 128"

definition ipoe_all_tidy :: "ipoe_session_t pool \<Rightarrow> bool" where
  "ipoe_all_tidy p \<longleftrightarrow> (\<forall>i s. pool_at p i = Some s \<longrightarrow> ipoe_tidy s)"

text \<open>What identifies a session: the fields no binding changes.\<close>

definition ipoe_same_id :: "ipoe_session_t \<Rightarrow> ipoe_session_t \<Rightarrow> bool" where
  "ipoe_same_id s s' \<longleftrightarrow> ipoe_key_of s' = ipoe_key_of s \<and> is_sw_if_index s' = is_sw_if_index s"

lemma ipoe_inv_table:
  "ipoe_inv im \<Longrightarrow> im_session_table im k = Some r \<longleftrightarrow>
     (\<exists>s. pool_at (im_sessions im) (ir_session_index r) = Some s \<and> ipoe_key_of s = k \<and> ir_sw_if_index r = is_sw_if_index s)"
  by (simp add: ipoe_inv_def)

lemma ipoe_inv_index:
  "ipoe_inv im \<Longrightarrow> ipoe_session_of im sw = Some i \<longleftrightarrow> (\<exists>s. pool_at (im_sessions im) i = Some s \<and> is_sw_if_index s = sw)"
  by (simp add: ipoe_inv_def)

lemma ipoe_inv_wf: "ipoe_inv im \<Longrightarrow> pool_at (im_sessions im) i = Some s \<Longrightarrow> ipoe_wf s"
  by (simp add: ipoe_inv_def)

lemma ipoe_inv_sw_unique:
  assumes "ipoe_inv im" and "pool_at (im_sessions im) i = Some s" and "pool_at (im_sessions im) j = Some t"
    and "is_sw_if_index s = is_sw_if_index t"
  shows "i = j"
proof -
  from assms(1,2) have "ipoe_session_of im (is_sw_if_index s) = Some i" by (auto simp: ipoe_inv_index)
  moreover from assms(1,3) have "ipoe_session_of im (is_sw_if_index t) = Some j" by (auto simp: ipoe_inv_index)
  ultimately show ?thesis using assms(4) by simp
qed

lemma ipoe_inv_key_unique:
  assumes "ipoe_inv im" and "pool_at (im_sessions im) i = Some s" and "pool_at (im_sessions im) j = Some t"
    and "ipoe_key_of s = ipoe_key_of t"
  shows "i = j"
proof -
  from assms(1,2) have "im_session_table im (ipoe_key_of s) = Some \<lparr>ir_sw_if_index = is_sw_if_index s, ir_session_index = i\<rparr>"
    by (auto simp: ipoe_inv_table)
  moreover from assms(1,3)
  have "im_session_table im (ipoe_key_of t) = Some \<lparr>ir_sw_if_index = is_sw_if_index t, ir_session_index = j\<rparr>"
    by (auto simp: ipoe_inv_table)
  ultimately show ?thesis using assms(4) by simp
qed

text \<open>The routes of a pool split into those of one session and those through other interfaces.\<close>

lemma ipoe_routes_split:
  assumes "pool_at p i = Some s"
  shows "ipoe_routes p = ipoe_routes (pool_put i p) \<union> ipoe_session_routes s"
proof -
  have "{s. \<exists>j. pool_at p j = Some s} = insert s {s. \<exists>j. pool_at (pool_put i p) j = Some s}"
    using assms by (auto simp: pool_simps split: if_splits) (metis option.inject)
  then show ?thesis by (auto simp: ipoe_routes_def)
qed

lemma pool_put_upd: "pool_put i (pool_upd i f p) = pool_put i p"
  by (simp add: pool_put_def pool_upd_def)

lemma ipoe_routes_upd:
  "pool_at p i = Some s \<Longrightarrow> ipoe_routes (pool_upd i f p) = ipoe_routes (pool_put i p) \<union> ipoe_session_routes (f s)"
  by (subst ipoe_routes_split [of _ i "f s"]) (simp_all add: pool_simps pool_put_upd)

lemma ipoe_routes_others:
  assumes "ipoe_inv im" and "pool_at (im_sessions im) i = Some s" and "r \<in> ipoe_routes (pool_put i (im_sessions im))"
  shows "ipoe_route_if r \<noteq> is_sw_if_index s"
proof
  assume eq: "ipoe_route_if r = is_sw_if_index s"
  from assms(3) obtain j t where "pool_at (im_sessions im) j = Some t" and "j \<noteq> i" and "r \<in> ipoe_session_routes t"
    by (auto simp: ipoe_routes_def pool_simps split: if_splits)
  with ipoe_inv_sw_unique [OF assms(1,2), of j t] eq ipoe_session_routes_if [of r t] show False by simp
qed

section \<open>The contract of a binding\<close>

text \<open>
  A binding operation on a session keeps what identifies the session; under its guard what it asks of the
  FIB turns the routes of the session as it was into those of the session as it is.
\<close>

locale ipoe_binding =
  fixes sw :: u32
    and bind_op :: "ipoe_session_t \<Rightarrow> ipoe_effect list \<times> ipoe_session_t"
    and guard :: "ipoe_session_t \<Rightarrow> bool"
  assumes same_id: "bind_op s = (fx, s') \<Longrightarrow> ipoe_same_id s s'"
    and keeps_wf: "\<lbrakk>ipoe_wf s; bind_op s = (fx, s')\<rbrakk> \<Longrightarrow> ipoe_wf s'"
    and keeps_tidy: "\<lbrakk>guard s; ipoe_tidy s; bind_op s = (fx, s')\<rbrakk> \<Longrightarrow> ipoe_tidy s'"
    and routes: "\<lbrakk>guard s; ipoe_tidy s; is_sw_if_index s = sw; bind_op s = (fx, s'); \<And>r. r \<in> A \<Longrightarrow> ipoe_route_if r \<noteq> sw\<rbrakk> \<Longrightarrow>
      ipoe_apply fx (A \<union> ipoe_session_routes s) = A \<union> ipoe_session_routes s'"
begin

lemma inv_upd:
  assumes inv: "ipoe_inv im" and s: "pool_at (im_sessions im) i = Some s" and op: "bind_op s = (fx, s')"
  shows "ipoe_inv (im\<lparr>im_sessions := pool_upd i (\<lambda>_. s') (im_sessions im)\<rparr>)"
proof -
  have id: "ipoe_key_of s' = ipoe_key_of s" "is_sw_if_index s' = is_sw_if_index s"
    using same_id [OF op] by (auto simp: ipoe_same_id_def)
  have "(\<exists>t. (if j = i then Some s' else pool_at (im_sessions im) j) = Some t \<and> P (ipoe_key_of t) (is_sw_if_index t)) \<longleftrightarrow>
        (\<exists>t. pool_at (im_sessions im) j = Some t \<and> P (ipoe_key_of t) (is_sw_if_index t))" for j and P :: "_ \<Rightarrow> _ \<Rightarrow> bool"
    using s id by auto
  moreover have "ipoe_wf s'" by (rule keeps_wf [OF ipoe_inv_wf [OF inv s] op])
  ultimately show ?thesis
    using inv s id unfolding ipoe_inv_def ipoe_session_of_def
    by (auto simp: pool_simps split: if_splits)
qed

text \<open>On the session of the interface, when there is one.\<close>

lemma with_session_cases:
  assumes inv: "ipoe_inv im" and run: "ipoe_with_session sw bind_op im = (rv, fx, im')"
  obtains "im' = im" "fx = []"
  | i s s' where "pool_at (im_sessions im) i = Some s" "is_sw_if_index s = sw" "bind_op s = (fx, s')"
      "im' = im\<lparr>im_sessions := pool_upd i (\<lambda>_. s') (im_sessions im)\<rparr>"
proof (cases "ipoe_session_of im sw")
  case None
  with run that(1) show thesis by (auto simp: ipoe_with_session_def)
next
  case (Some i)
  then obtain s where s: "pool_at (im_sessions im) i = Some s" "is_sw_if_index s = sw"
    using inv by (auto simp: ipoe_inv_index)
  obtain fx1 s' where op: "bind_op s = (fx1, s')" by (cases "bind_op s")
  have "im' = im\<lparr>im_sessions := pool_upd i (\<lambda>_. s') (im_sessions im)\<rparr>" "fx = fx1"
    using run Some s op by (auto simp: ipoe_with_session_def)
  with s op show thesis by (intro that(2)) simp_all
qed

lemma with_session_inv:
  assumes inv: "ipoe_inv im" and run: "ipoe_with_session sw bind_op im = (rv, fx, im')"
  shows "ipoe_inv im'"
  using inv run by (cases rule: with_session_cases) (use inv inv_upd in auto)

lemma with_session_routes:
  assumes inv: "ipoe_inv im" and tidy: "ipoe_all_tidy (im_sessions im)"
    and g: "\<And>i s. \<lbrakk>pool_at (im_sessions im) i = Some s; is_sw_if_index s = sw\<rbrakk> \<Longrightarrow> guard s"
    and run: "ipoe_with_session sw bind_op im = (rv, fx, im')"
  shows "ipoe_all_tidy (im_sessions im')" and "ipoe_apply fx (ipoe_routes (im_sessions im)) = ipoe_routes (im_sessions im')"
proof -
  have "ipoe_all_tidy (im_sessions im') \<and> ipoe_apply fx (ipoe_routes (im_sessions im)) = ipoe_routes (im_sessions im')"
    using inv run
  proof (cases rule: with_session_cases)
    case 1
    with tidy show ?thesis by simp
  next
    case (2 i s s')
    have t: "ipoe_tidy s" using tidy 2(1) by (simp add: ipoe_all_tidy_def)
    have "ipoe_all_tidy (im_sessions im')"
      using tidy keeps_tidy [OF g [OF 2(1,2)] t 2(3)] by (auto simp: 2(4) ipoe_all_tidy_def pool_simps)
    moreover have "ipoe_apply fx (ipoe_routes (im_sessions im)) = ipoe_routes (im_sessions im')"
      using routes [OF g [OF 2(1,2)] t 2(2,3), of "ipoe_routes (pool_put i (im_sessions im))"]
        ipoe_routes_others [OF inv 2(1)] 2(2)
      by (simp add: 2(4) ipoe_routes_split [OF 2(1)] ipoe_routes_upd [OF 2(1)])
    ultimately show ?thesis ..
  qed
  then show "ipoe_all_tidy (im_sessions im')" "ipoe_apply fx (ipoe_routes (im_sessions im)) = ipoe_routes (im_sessions im')"
    by simp_all
qed

end

lemmas ipoe_set_defs = ipoe_set_ipv4_def ipoe_clear_ipv4_def ipoe_set_ipv6_def ipoe_clear_ipv6_def
  ipoe_set_pd_def ipoe_clear_pd_def

lemma ipoe_no_route:
  assumes "\<And>r. r \<in> A \<Longrightarrow> ipoe_route_if r \<noteq> sw"
  shows "Route4 fib a sw \<notin> A" and "Route6 fib b len sw \<notin> A"
  using assms [of "Route4 fib a sw"] assms [of "Route6 fib b len sw"] by auto

text \<open>A removal names the bound address: the code takes the caller's word for it.\<close>

interpretation v4: ipoe_binding sw "ipoe_set_ipv4 sw addr is_add"
    "\<lambda>s. is_add \<or> \<not> is_ipv4_bound s \<or> addr = is_client_ipv4 s" for sw addr is_add
proof unfold_locales
  fix s s' fx assume "ipoe_set_ipv4 sw addr is_add s = (fx, s')"
  then show "ipoe_same_id s s'"
    by (auto simp: ipoe_set_defs ipoe_same_id_def ipoe_key_of_def split: if_splits)
next
  fix s s' fx assume "ipoe_wf s" and "ipoe_set_ipv4 sw addr is_add s = (fx, s')"
  then show "ipoe_wf s'" by (auto simp: ipoe_set_defs ipoe_wf_def split: if_splits)
next
  fix s s' fx assume "ipoe_tidy s" and "ipoe_set_ipv4 sw addr is_add s = (fx, s')"
  then show "ipoe_tidy s'" by (auto simp: ipoe_set_defs ipoe_tidy_def split: if_splits)
next
  fix s s' fx and A
  assume g: "is_add \<or> \<not> is_ipv4_bound s \<or> addr = is_client_ipv4 s" and wf: "ipoe_tidy s"
    and sw: "is_sw_if_index s = sw" and op: "ipoe_set_ipv4 sw addr is_add s = (fx, s')"
    and others: "\<And>r. r \<in> A \<Longrightarrow> ipoe_route_if r \<noteq> sw"
  define B where "B = A \<union> ipoe_session_routes (s\<lparr>is_ipv4_bound := False\<rparr>)"
  have "is_delegated_prefix_len s \<noteq> 128" using wf by (auto simp: ipoe_tidy_def)
  then have B: "Route4 fib a sw \<notin> B" for fib a
    using ipoe_no_route [of A sw, OF others] by (simp add: B_def ipoe_session_routes_def)
  have AB: "A \<union> ipoe_session_routes t = B \<union> (if is_ipv4_bound t then {Route4 (is_decap_fib_index t) (is_client_ipv4 t) sw} else {})"
    if "is_ipv6_bound t = is_ipv6_bound s \<and> is_client_ipv6 t = is_client_ipv6 s \<and> is_delegated_prefix t = is_delegated_prefix s \<and>
        is_delegated_prefix_len t = is_delegated_prefix_len s \<and> is_decap_fib_index_ip6 t = is_decap_fib_index_ip6 s \<and> is_decap_fib_index t = is_decap_fib_index s \<and> is_sw_if_index t = is_sw_if_index s" for t
    using that sw unfolding B_def ipoe_session_routes_def by (simp add: Un_ac)
  have s': "is_ipv6_bound s' = is_ipv6_bound s \<and> is_client_ipv6 s' = is_client_ipv6 s \<and> is_delegated_prefix s' = is_delegated_prefix s \<and>
        is_delegated_prefix_len s' = is_delegated_prefix_len s \<and> is_decap_fib_index_ip6 s' = is_decap_fib_index_ip6 s \<and> is_decap_fib_index s' = is_decap_fib_index s \<and> is_sw_if_index s' = is_sw_if_index s"
    using op by (auto simp: ipoe_set_ipv4_def ipoe_clear_ipv4_def split: if_splits)
  show "ipoe_apply fx (A \<union> ipoe_session_routes s) = A \<union> ipoe_session_routes s'"
    unfolding AB [OF s'] AB [of s, simplified]
    using op g B by (auto simp: ipoe_set_ipv4_def ipoe_clear_ipv4_def split: if_splits)
qed

interpretation v6: ipoe_binding sw "ipoe_set_ipv6 sw addr is_add"
    "\<lambda>s. is_add \<or> \<not> is_ipv6_bound s \<or> addr = is_client_ipv6 s" for sw addr is_add
proof unfold_locales
  fix s s' fx assume "ipoe_set_ipv6 sw addr is_add s = (fx, s')"
  then show "ipoe_same_id s s'"
    by (auto simp: ipoe_set_defs ipoe_same_id_def ipoe_key_of_def split: if_splits)
next
  fix s s' fx assume "ipoe_wf s" and "ipoe_set_ipv6 sw addr is_add s = (fx, s')"
  then show "ipoe_wf s'" by (auto simp: ipoe_set_defs ipoe_wf_def split: if_splits)
next
  fix s s' fx assume "ipoe_tidy s" and "ipoe_set_ipv6 sw addr is_add s = (fx, s')"
  then show "ipoe_tidy s'" by (auto simp: ipoe_set_defs ipoe_tidy_def split: if_splits)
next
  fix s s' fx and A
  assume g: "is_add \<or> \<not> is_ipv6_bound s \<or> addr = is_client_ipv6 s" and wf: "ipoe_tidy s"
    and sw: "is_sw_if_index s = sw" and op: "ipoe_set_ipv6 sw addr is_add s = (fx, s')"
    and others: "\<And>r. r \<in> A \<Longrightarrow> ipoe_route_if r \<noteq> sw"
  define B where "B = A \<union> ipoe_session_routes (s\<lparr>is_ipv6_bound := False\<rparr>)"
  have "is_delegated_prefix_len s \<noteq> 128" using wf by (auto simp: ipoe_tidy_def)
  then have B: "Route6 fib a 128 sw \<notin> B" for fib a
    using ipoe_no_route [of A sw, OF others] by (simp add: B_def ipoe_session_routes_def)
  have AB: "A \<union> ipoe_session_routes t = B \<union> (if is_ipv6_bound t then {Route6 (is_decap_fib_index_ip6 t) (is_client_ipv6 t) 128 sw} else {})"
    if "is_ipv4_bound t = is_ipv4_bound s \<and> is_client_ipv4 t = is_client_ipv4 s \<and> is_delegated_prefix t = is_delegated_prefix s \<and>
        is_delegated_prefix_len t = is_delegated_prefix_len s \<and> is_decap_fib_index_ip6 t = is_decap_fib_index_ip6 s \<and> is_decap_fib_index t = is_decap_fib_index s \<and> is_sw_if_index t = is_sw_if_index s" for t
    using that sw unfolding B_def ipoe_session_routes_def by (simp add: Un_ac)
  have s': "is_ipv4_bound s' = is_ipv4_bound s \<and> is_client_ipv4 s' = is_client_ipv4 s \<and> is_delegated_prefix s' = is_delegated_prefix s \<and>
        is_delegated_prefix_len s' = is_delegated_prefix_len s \<and> is_decap_fib_index_ip6 s' = is_decap_fib_index_ip6 s \<and> is_decap_fib_index s' = is_decap_fib_index s \<and> is_sw_if_index s' = is_sw_if_index s"
    using op by (auto simp: ipoe_set_ipv6_def ipoe_clear_ipv6_def split: if_splits)
  show "ipoe_apply fx (A \<union> ipoe_session_routes s) = A \<union> ipoe_session_routes s'"
    unfolding AB [OF s'] AB [of s, simplified]
    using op g B by (auto simp: ipoe_set_ipv6_def ipoe_clear_ipv6_def split: if_splits)
qed

text \<open>A prefix that is added has a length, below 128.\<close>

interpretation pd: ipoe_binding sw "ipoe_set_pd sw prefix len next_hop is_add"
    "\<lambda>s. if is_add then 0 < len \<and> len < 128
         else is_delegated_prefix_len s = 0 \<or> prefix = is_delegated_prefix s \<and> len = is_delegated_prefix_len s"
    for sw prefix len next_hop is_add
proof unfold_locales
  fix s s' fx assume "ipoe_set_pd sw prefix len next_hop is_add s = (fx, s')"
  then show "ipoe_same_id s s'"
    by (auto simp: ipoe_set_defs ipoe_same_id_def ipoe_key_of_def split: if_splits)
next
  fix s s' fx assume "ipoe_wf s" and "ipoe_set_pd sw prefix len next_hop is_add s = (fx, s')"
  then show "ipoe_wf s'" by (auto simp: ipoe_set_defs ipoe_wf_def split: if_splits)
next
  fix s s' fx
  assume "if is_add then 0 < len \<and> len < 128
          else is_delegated_prefix_len s = 0 \<or> prefix = is_delegated_prefix s \<and> len = is_delegated_prefix_len s"
    and "ipoe_tidy s" and "ipoe_set_pd sw prefix len next_hop is_add s = (fx, s')"
  then show "ipoe_tidy s'" by (auto simp: ipoe_set_defs ipoe_tidy_def split: if_splits)
next
  fix s s' fx and A
  assume g: "if is_add then 0 < len \<and> len < 128
          else is_delegated_prefix_len s = 0 \<or> prefix = is_delegated_prefix s \<and> len = is_delegated_prefix_len s"
    and wf: "ipoe_tidy s" and sw: "is_sw_if_index s = sw" and op: "ipoe_set_pd sw prefix len next_hop is_add s = (fx, s')"
    and others: "\<And>r. r \<in> A \<Longrightarrow> ipoe_route_if r \<noteq> sw"
  define B where "B = A \<union> ipoe_session_routes (s\<lparr>is_delegated_prefix_len := 0\<rparr>)"
  have B: "Route6 fib a l sw \<notin> B" if "l < 128" for fib a l
    using that ipoe_no_route [of A sw, OF others] by (auto simp: B_def ipoe_session_routes_def)
  have len: "is_delegated_prefix_len s < 128" using wf by (simp add: ipoe_tidy_def)
  have AB: "A \<union> ipoe_session_routes t = B \<union> (if is_delegated_prefix_len t \<noteq> 0
      then {Route6 (is_decap_fib_index_ip6 t) (is_delegated_prefix t) (is_delegated_prefix_len t) sw} else {})"
    if "is_ipv4_bound t = is_ipv4_bound s \<and> is_client_ipv4 t = is_client_ipv4 s \<and> is_ipv6_bound t = is_ipv6_bound s \<and>
        is_client_ipv6 t = is_client_ipv6 s \<and> is_decap_fib_index t = is_decap_fib_index s \<and> is_decap_fib_index_ip6 t = is_decap_fib_index_ip6 s \<and> is_sw_if_index t = is_sw_if_index s" for t
    using that sw by (simp add: B_def ipoe_session_routes_def Un_assoc)
  have s': "is_ipv4_bound s' = is_ipv4_bound s \<and> is_client_ipv4 s' = is_client_ipv4 s \<and> is_ipv6_bound s' = is_ipv6_bound s \<and>
        is_client_ipv6 s' = is_client_ipv6 s \<and> is_decap_fib_index s' = is_decap_fib_index s \<and> is_decap_fib_index_ip6 s' = is_decap_fib_index_ip6 s \<and> is_sw_if_index s' = is_sw_if_index s"
    using op by (auto simp: ipoe_set_pd_def ipoe_clear_pd_def split: if_splits)
  show "ipoe_apply fx (A \<union> ipoe_session_routes s) = A \<union> ipoe_session_routes s'"
    unfolding AB [OF s'] AB [of s, simplified]
    using op g len B by (auto simp: ipoe_set_pd_def ipoe_clear_pd_def split: if_splits)
qed

end
