(* ===== verification/Ipoe_Props.thy ===== *)
theory Ipoe_Props
  imports Ipoe_Inv
begin

text \<open>
  The properties of the IPoE plugin: session creation and deletion keep the invariant, the states
  reachable by its operations, the input node against a direct lookup with per-packet counters, and
  the frames of a subscriber.
\<close>

section \<open>Session deletion\<close>

text \<open>A state between the removals: the session at \<open>si\<close> is \<open>s\<close>, and the requests so far turn the routes of the
  state \<open>im0\<close> the deletion began in, when that was tidy, into its own.\<close>

definition ipoe_mid ::
  "ipoe_main_t \<Rightarrow> u32 \<Rightarrow> ipoe_session_t \<Rightarrow> ipoe_effect list \<times> ipoe_main_t \<Rightarrow> bool"
where
  "ipoe_mid im0 si s st \<longleftrightarrow>
     ipoe_inv (snd st) \<and> pool_at (im_sessions (snd st)) si = Some s
   \<and> (ipoe_all_tidy (im_sessions im0) \<longrightarrow> ipoe_all_tidy (im_sessions (snd st)) \<and>
        ipoe_apply (fst st) (ipoe_routes (im_sessions im0)) = ipoe_routes (im_sessions (snd st)))
   \<and> pool_put si (im_sessions (snd st)) = pool_put si (im_sessions im0)
   \<and> im_session_table (snd st) = im_session_table im0
   \<and> im_session_index_by_sw_if_index (snd st) = im_session_index_by_sw_if_index im0"

lemma ipoe_unbind_step:
  assumes mid: "ipoe_mid im0 si s st"
    and b: "on s \<Longrightarrow> ipoe_binding (is_sw_if_index s) f guard" and g: "on s \<Longrightarrow> guard s"
    and op: "on s \<Longrightarrow> f s = (gx, s')"
  shows "ipoe_mid im0 si (if on s then s' else s)
           (ipoe_unbind si on (\<lambda>_. ipoe_with_session (is_sw_if_index s) f) st)"
proof (cases "on s")
  case False
  with mid show ?thesis by (cases st) (simp add: ipoe_mid_def ipoe_unbind_def)
next
  case True
  obtain fx im where st: "st = (fx, im)" by (cases st)
  have inv: "ipoe_inv im" and s: "pool_at (im_sessions im) si = Some s" using mid by (simp_all add: ipoe_mid_def st)
  have so: "ipoe_session_of im (is_sw_if_index s) = Some si" using inv s by (auto simp: ipoe_inv_index)
  let ?im = "im\<lparr>im_sessions := pool_upd si (\<lambda>_. s') (im_sessions im)\<rparr>"
  have run: "ipoe_with_session (is_sw_if_index s) f im = (IPOE_OK, gx, ?im)"
    using so s op [OF True] by (simp add: ipoe_with_session_def)
  have "guard t" if "pool_at (im_sessions im) j = Some t" and "is_sw_if_index t = is_sw_if_index s" for j t
    using ipoe_inv_sw_unique [OF inv that(1) s that(2)] that(1) s g [OF True] by simp
  note rt = ipoe_binding.with_session_routes [OF b [OF True] inv _ this run]
  show ?thesis
    using mid s True rt ipoe_binding.with_session_inv [OF b [OF True] inv run]
    by (auto simp: ipoe_mid_def ipoe_unbind_def st run pool_simps pool_put_upd)
qed

definition ipoe_unbound :: "ipoe_session_t \<Rightarrow> ipoe_session_t" where
  "ipoe_unbound s =
     (let s1 = (if is_ipv4_bound s then s\<lparr>is_client_ipv4 := 0, is_ipv4_bound := False\<rparr> else s);
          s2 = (if is_ipv6_bound s1 then s1\<lparr>is_client_ipv6 := 0, is_ipv6_bound := False\<rparr> else s1) in
      if is_delegated_prefix_len s2 \<noteq> 0
      then s2\<lparr>is_delegated_prefix := 0, is_delegated_prefix_len := 0, is_pd_next_hop := 0\<rparr> else s2)"

lemma ipoe_unbound_sel [simp]:
  "is_sw_if_index (ipoe_unbound s) = is_sw_if_index s" "ipoe_key_of (ipoe_unbound s) = ipoe_key_of s"
  "ipoe_session_routes (ipoe_unbound s) = {}"
  by (simp_all add: ipoe_unbound_def ipoe_key_of_def ipoe_session_routes_def Let_def)

lemma ipoe_unbind_cong:
  "pool_at (im_sessions (snd st)) si = Some s \<Longrightarrow> ipoe_unbind si on f st = ipoe_unbind si on (\<lambda>_. f s) st"
  by (cases st) (simp add: ipoe_unbind_def)

lemma ipoe_unbind_all_mid:
  assumes "ipoe_inv im" and "pool_at (im_sessions im) si = Some s"
  shows "ipoe_mid im si (ipoe_unbound s) (ipoe_unbind_all si im)"
proof -
  let ?c4 = "if is_ipv4_bound s then s\<lparr>is_client_ipv4 := 0, is_ipv4_bound := False\<rparr> else s"
  let ?c6 = "if is_ipv6_bound ?c4 then ?c4\<lparr>is_client_ipv6 := 0, is_ipv6_bound := False\<rparr> else ?c4"
  let ?st1 = "ipoe_unbind si is_ipv4_bound
       (\<lambda>s. vnet_ipoe_set_session_ipv4 (is_sw_if_index s) (is_client_ipv4 s) False) ([], im)"
  let ?st2 = "ipoe_unbind si is_ipv6_bound
       (\<lambda>s. vnet_ipoe_set_session_ipv6 (is_sw_if_index s) (is_client_ipv6 s) False) ?st1"
  have at: "ipoe_mid im si t st \<Longrightarrow> pool_at (im_sessions (snd st)) si = Some t" for t st
    by (simp add: ipoe_mid_def)
  have m0: "ipoe_mid im si s ([], im)" using assms by (simp add: ipoe_mid_def)
  have m1: "ipoe_mid im si ?c4 ?st1"
    by (subst ipoe_unbind_cong [OF at [OF m0]], unfold vnet_ipoe_set_session_ipv4_def, rule ipoe_unbind_step [OF m0 v4.ipoe_binding_axioms]) (auto simp: ipoe_set_ipv4_def ipoe_clear_ipv4_def)
  have m2: "ipoe_mid im si ?c6 ?st2"
    by (subst ipoe_unbind_cong [OF at [OF m1]], unfold vnet_ipoe_set_session_ipv6_def, rule ipoe_unbind_step [OF m1 v6.ipoe_binding_axioms]) (auto simp: ipoe_set_ipv6_def ipoe_clear_ipv6_def)
  show ?thesis
    unfolding ipoe_unbind_all_def ipoe_unbound_def Let_def
    by (subst ipoe_unbind_cong [OF at [OF m2]], unfold vnet_ipoe_set_delegated_prefix_def, rule ipoe_unbind_step [OF m2 pd.ipoe_binding_axioms]) (auto simp: ipoe_set_pd_def ipoe_clear_pd_def)
qed

lemma ipoe_session_of_upd [simp]:
  "ipoe_session_of (im\<lparr>im_sessions := p\<rparr>) = ipoe_session_of im"
  "ipoe_session_of (im\<lparr>im_session_table := t\<rparr>) = ipoe_session_of im"
  "ipoe_session_of (im\<lparr>im_enabled_by_sw_if_index := e\<rparr>) = ipoe_session_of im"
  "ipoe_session_of (im\<lparr>im_ethertypes_registered := b\<rparr>) = ipoe_session_of im"
  by (simp_all add: ipoe_session_of_def fun_eq_iff)

lemma ipoe_inv_remove:
  assumes inv: "ipoe_inv im" and s: "pool_at (im_sessions im) si = Some s"
    and im': "im' = im\<lparr>im_sessions := pool_put si (im_sessions im),
          im_session_table := (im_session_table im)(ipoe_key_of s := None),
          im_session_index_by_sw_if_index := (im_session_index_by_sw_if_index im)[unat (is_sw_if_index s) := nil32]\<rparr>"
  shows "ipoe_inv im'"
proof -
  have so: "ipoe_session_of im (is_sw_if_index s) = Some si" using inv s by (auto simp: ipoe_inv_index)
  then have len: "unat (is_sw_if_index s) < length (im_session_index_by_sw_if_index im)"
    by (auto simp: ipoe_session_of_def split: if_splits)
  have so': "ipoe_session_of im' sw = (if sw = is_sw_if_index s then None else ipoe_session_of im sw)" for sw
    using len by (simp add: im' ipoe_session_of_def Let_def nth_list_update word_unat_eq_iff)
  have tab: "im_session_table im' k = (if k = ipoe_key_of s then None else im_session_table im k)" for k
    by (simp add: im')
  have pool: "pool_at (im_sessions im') j = (if j = si then None else pool_at (im_sessions im) j)" for j
    by (simp add: im' pool_simps)
  have key: "ipoe_key_of t = ipoe_key_of s \<longleftrightarrow> j = si" if "pool_at (im_sessions im) j = Some t" for j t
    using ipoe_inv_key_unique [OF inv that s] that s by auto
  have ifx: "is_sw_if_index t = is_sw_if_index s \<longleftrightarrow> j = si" if "pool_at (im_sessions im) j = Some t" for j t
    using ipoe_inv_sw_unique [OF inv that s] that s by auto
  show ?thesis
    unfolding ipoe_inv_def so' tab pool
  proof (intro conjI allI)
    fix k r
    show "((if k = ipoe_key_of s then None else im_session_table im k) = Some r) \<longleftrightarrow>
        (\<exists>t. (if ir_session_index r = si then None else pool_at (im_sessions im) (ir_session_index r)) = Some t \<and>
             ipoe_key_of t = k \<and> ir_sw_if_index r = is_sw_if_index t)"
      using key [of "ir_session_index r"] by (auto simp: ipoe_inv_table [OF inv])
  next
    fix sw i
    show "((if sw = is_sw_if_index s then None else ipoe_session_of im sw) = Some i) \<longleftrightarrow>
        (\<exists>t. (if i = si then None else pool_at (im_sessions im) i) = Some t \<and> is_sw_if_index t = sw)"
      using ifx [of i] by (auto simp: ipoe_inv_index [OF inv])
  next
    fix i t
    show "(if i = si then None else pool_at (im_sessions im) i) = Some t \<longrightarrow> ipoe_wf t"
      using ipoe_inv_wf [OF inv, of i t] by simp
  qed
qed

lemma ipoe_session_delete_inv:
  assumes inv: "ipoe_inv im" and s: "pool_at (im_sessions im) si = Some s"
    and key: "ipoe_make_key (sa_encap_if_index a) (sa_inner_vlan a) (sa_client_mac a) = ipoe_key_of s"
    and run: "ipoe_session_delete a si s im = (fx, im')"
  shows "ipoe_inv im' \<and> (ipoe_all_tidy (im_sessions im) \<longrightarrow> ipoe_all_tidy (im_sessions im') \<and>
     ipoe_apply fx (ipoe_routes (im_sessions im)) = ipoe_routes (im_sessions im'))"
proof -
  obtain gx im1 where u: "ipoe_unbind_all si im = (gx, im1)" by (cases "ipoe_unbind_all si im")
  from ipoe_unbind_all_mid [OF inv s]
  have inv1: "ipoe_inv im1" and s1: "pool_at (im_sessions im1) si = Some (ipoe_unbound s)"
    and R1: "ipoe_all_tidy (im_sessions im) \<longrightarrow> ipoe_all_tidy (im_sessions im1) \<and>
      ipoe_apply gx (ipoe_routes (im_sessions im)) = ipoe_routes (im_sessions im1)"
    by (simp_all add: ipoe_mid_def u)
  have im': "im' = im1\<lparr>im_sessions := pool_put si (im_sessions im1),
          im_session_table := (im_session_table im1)(ipoe_key_of (ipoe_unbound s) := None),
          im_session_index_by_sw_if_index :=
            (im_session_index_by_sw_if_index im1)[unat (is_sw_if_index (ipoe_unbound s)) := nil32]\<rparr>"
    using run by (auto simp: ipoe_session_delete_def u ipoe_session_table_del_def key Let_def)
  have fx: "fx = Reset_Output (is_sw_if_index s) # gx @ [Admin_Down (is_sw_if_index s), Delete_Interface (is_hw_if_index s)]"
    using run by (simp add: ipoe_session_delete_def u Let_def)
  have "ipoe_inv im'" by (rule ipoe_inv_remove [OF inv1 s1 im'])
  moreover have "ipoe_apply fx (ipoe_routes (im_sessions im)) = ipoe_apply gx (ipoe_routes (im_sessions im))"
    by (simp add: fx)
  moreover have "ipoe_all_tidy (im_sessions im1) \<longrightarrow> ipoe_all_tidy (im_sessions im')"
    by (auto simp: im' ipoe_all_tidy_def pool_simps)
  moreover have "ipoe_routes (im_sessions im1) = ipoe_routes (im_sessions im')"
    using ipoe_routes_split [OF s1] by (simp add: im')
  ultimately show ?thesis using R1 by simp
qed

section \<open>Session creation\<close>

lemma ipoe_index_set_nth:
  "length (ipoe_index_set sw x v) = max (length v) (unat sw + 1)"
  "n < max (length v) (unat sw + 1) \<Longrightarrow>
     ipoe_index_set sw x v ! n = (if n = unat sw then x else if n < length v then v ! n else nil32)"
  by (auto simp: ipoe_index_set_def nth_list_update nth_append max_def split: if_splits)

lemma ipoe_session_of_cong:
  "im_session_index_by_sw_if_index im = im_session_index_by_sw_if_index im' \<Longrightarrow> ipoe_session_of im sw = ipoe_session_of im' sw"
  by (simp add: ipoe_session_of_def)

lemma ipoe_session_of_set:
  assumes "idx \<noteq> nil32"
  shows "ipoe_session_of (im\<lparr>im_session_index_by_sw_if_index := ipoe_index_set a idx (im_session_index_by_sw_if_index im)\<rparr>) sw =
         (if sw = a then Some idx else ipoe_session_of im sw)"
proof -
  have "unat sw = unat a \<longleftrightarrow> sw = a" by (simp add: word_unat_eq_iff)
  moreover have "unat sw < max (length v) (unat a + 1) \<longleftrightarrow> unat sw < length v \<or> unat sw \<le> unat a" for v :: "u32 list"
    by auto
  ultimately show ?thesis
    using assms by (simp add: ipoe_session_of_def Let_def ipoe_index_set_nth not_less [symmetric])
qed

lemma ipoe_inv_create:
  assumes inv: "ipoe_inv im" and fresh: "pool_fresh (im_sessions im) idx"
    and unused: "\<And>i t. pool_at (im_sessions im) i = Some t \<Longrightarrow> is_sw_if_index t \<noteq> is_sw_if_index s"
    and new: "im_session_table im (ipoe_key_of s) = None" and wf: "ipoe_wf s"
    and im': "im' = im\<lparr>im_sessions := pool_get_put idx s (im_sessions im),
          im_session_table := (im_session_table im)(ipoe_key_of s \<mapsto> \<lparr>ir_sw_if_index = is_sw_if_index s, ir_session_index = idx\<rparr>),
          im_session_index_by_sw_if_index := ipoe_index_set (is_sw_if_index s) idx (im_session_index_by_sw_if_index im)\<rparr>"
  shows "ipoe_inv im'"
proof -
  have "idx \<noteq> nil32" using fresh by (auto simp: pool_fresh_def)
  then have so': "ipoe_session_of im' sw = (if sw = is_sw_if_index s then Some idx else ipoe_session_of im sw)" for sw
    by (subst ipoe_session_of_set [symmetric], assumption, intro ipoe_session_of_cong) (simp add: im')
  have tab: "im_session_table im' k = (if k = ipoe_key_of s then Some \<lparr>ir_sw_if_index = is_sw_if_index s, ir_session_index = idx\<rparr>
      else im_session_table im k)" for k
    by (simp add: im')
  have pool: "pool_at (im_sessions im') j = (if j = idx then Some s else pool_at (im_sessions im) j)" for j
    using fresh by (simp add: im' pool_simps)
  have free: "pool_at (im_sessions im) idx = None" by (rule pool_fresh_at [OF fresh])
  have key: "ipoe_key_of t \<noteq> ipoe_key_of s" if "pool_at (im_sessions im) j = Some t" for j t
  proof
    assume "ipoe_key_of t = ipoe_key_of s"
    with that have "im_session_table im (ipoe_key_of s) = Some \<lparr>ir_sw_if_index = is_sw_if_index t, ir_session_index = j\<rparr>"
      by (auto simp: ipoe_inv_table [OF inv])
    with new show False by simp
  qed
  show ?thesis
    unfolding ipoe_inv_def so' tab pool
  proof (intro conjI allI)
    fix k r
    show "((if k = ipoe_key_of s then Some \<lparr>ir_sw_if_index = is_sw_if_index s, ir_session_index = idx\<rparr>
            else im_session_table im k) = Some r) \<longleftrightarrow>
        (\<exists>t. (if ir_session_index r = idx then Some s else pool_at (im_sessions im) (ir_session_index r)) = Some t \<and>
             ipoe_key_of t = k \<and> ir_sw_if_index r = is_sw_if_index t)"
      using key [of "ir_session_index r"] free by (cases r) (auto simp: ipoe_inv_table [OF inv])
  next
    fix sw i
    show "((if sw = is_sw_if_index s then Some idx else ipoe_session_of im sw) = Some i) \<longleftrightarrow>
        (\<exists>t. (if i = idx then Some s else pool_at (im_sessions im) i) = Some t \<and> is_sw_if_index t = sw)"
      using unused [of i] free by (auto simp: ipoe_inv_index [OF inv])
  next
    fix i t
    show "(if i = idx then Some s else pool_at (im_sessions im) i) = Some t \<longrightarrow> ipoe_wf t"
      using ipoe_inv_wf [OF inv, of i t] wf by auto
  qed
qed

lemma ipoe_new_session_sel [simp]:
  "ipoe_key_of (ipoe_new_session ext a hw sw) = ipoe_make_key (sa_encap_if_index a) (sa_inner_vlan a) (sa_client_mac a)"
  "is_sw_if_index (ipoe_new_session ext a hw sw) = sw" "is_client_mac (ipoe_new_session ext a hw sw) = sa_client_mac a"
  "is_local_mac (ipoe_new_session ext a hw sw) = sa_local_mac a" "is_delegated_prefix_len (ipoe_new_session ext a hw sw) = 0"
  "is_outer_tpid (ipoe_new_session ext a hw sw) =
     (if encap_is_dot1ad ext (sa_encap_if_index a) then ETHERNET_TYPE_DOT1AD else ETHERNET_TYPE_VLAN)"
  "ipoe_session_routes (ipoe_new_session ext a hw sw) = {}"
  by (simp_all add: ipoe_new_session_def ipoe_key_of_def ipoe_zero_session_def ipoe_session_routes_def)

text \<open>What vnet promises of a new interface, and the sizes of the two addresses.\<close>

definition ipoe_session_ok :: "vnet_ipoe_add_del_session_args_t \<Rightarrow> u32 \<Rightarrow> u32 \<Rightarrow> ipoe_main_t \<Rightarrow> bool" where
  "ipoe_session_ok a idx sw im \<longleftrightarrow>
     length (sa_client_mac a) = 6 \<and> length (sa_local_mac a) = 6 \<and> pool_fresh (im_sessions im) idx
   \<and> (\<forall>i s. pool_at (im_sessions im) i = Some s \<longrightarrow> is_sw_if_index s \<noteq> sw)"

lemma ipoe_routes_new:
  assumes "pool_fresh p idx" and "ipoe_session_routes s = {}"
  shows "ipoe_routes (pool_get_put idx s p) = ipoe_routes p"
proof -
  have "{t. \<exists>i. pool_at (pool_get_put idx s p) i = Some t} = insert s {t. \<exists>i. pool_at p i = Some t}"
    using assms(1) pool_fresh_at [OF assms(1)] by (auto simp: pool_simps split: if_splits) (metis option.distinct(1))
  with assms(2) show ?thesis by (simp add: ipoe_routes_def)
qed

lemma ipoe_add_del_session_inv:
  assumes inv: "ipoe_inv im" and ok: "ipoe_session_ok a idx sw im"
    and run: "vnet_ipoe_add_del_session ext a idx hw sw im = (rv, out, fx, im')"
  shows "ipoe_inv im' \<and> (ipoe_all_tidy (im_sessions im) \<longrightarrow> ipoe_all_tidy (im_sessions im') \<and>
     ipoe_apply fx (ipoe_routes (im_sessions im)) = ipoe_routes (im_sessions im'))"
proof (cases "im_session_table im (ipoe_make_key (sa_encap_if_index a) (sa_inner_vlan a) (sa_client_mac a))")
  case (Some r)
  then obtain s where s: "pool_at (im_sessions im) (ir_session_index r) = Some s"
    and key: "ipoe_key_of s = ipoe_make_key (sa_encap_if_index a) (sa_inner_vlan a) (sa_client_mac a)"
    using inv by (auto simp: ipoe_inv_table)
  show ?thesis
  proof (cases "sa_is_add a")
    case True
    with Some s run inv show ?thesis by (auto simp: vnet_ipoe_add_del_session_def)
  next
    case False
    with Some s run have "ipoe_session_delete a (ir_session_index r) s im = (fx, im')"
      by (auto simp: vnet_ipoe_add_del_session_def split: prod.splits)
    from ipoe_session_delete_inv [OF inv s key [symmetric] this] show ?thesis .
  qed
next
  case None
  show ?thesis
  proof (cases "sa_is_add a")
    case False
    with None run inv show ?thesis by (auto simp: vnet_ipoe_add_del_session_def)
  next
    case True
    let ?s = "ipoe_new_session ext a hw sw"
    from True None run have run': "ipoe_session_create ext a idx hw sw im = (fx, im')"
      by (auto simp: vnet_ipoe_add_del_session_def split: prod.splits)
    then have im': "im' = im\<lparr>im_sessions := pool_get_put idx ?s (im_sessions im),
          im_session_table := (im_session_table im)(ipoe_key_of ?s \<mapsto> \<lparr>ir_sw_if_index = is_sw_if_index ?s, ir_session_index = idx\<rparr>),
          im_session_index_by_sw_if_index := ipoe_index_set (is_sw_if_index ?s) idx (im_session_index_by_sw_if_index im)\<rparr>"
      by (auto simp: ipoe_session_create_def ipoe_session_table_add_def Let_def)
    have fresh: "pool_fresh (im_sessions im) idx" using ok by (simp add: ipoe_session_ok_def)
    have "ipoe_inv im'"
      using ok None by (intro ipoe_inv_create [OF inv fresh _ _ _ im']) (auto simp: ipoe_session_ok_def ipoe_wf_def)
    moreover have "ipoe_routes (im_sessions im') = ipoe_routes (im_sessions im)"
      using ipoe_routes_new [OF fresh, of ?s] by (simp add: im')
    moreover have "ipoe_apply fx R = R" for R
      using run' by (auto simp: ipoe_session_create_def Let_def)
    moreover have "ipoe_tidy ?s" by (simp add: ipoe_tidy_def)
    then have "ipoe_all_tidy (im_sessions im) \<Longrightarrow> ipoe_all_tidy (im_sessions im')"
      using fresh by (auto simp: im' ipoe_all_tidy_def pool_simps)
    ultimately show ?thesis by simp
  qed
qed

section \<open>Reachable states\<close>

text \<open>
  The calls whose routes match the bindings: a removal names the address or the prefix that is bound, and
  a prefix that is added has a length, which is not that of a host route.  The code checks none of it.
\<close>

definition ipv4_call_ok :: "u32 \<Rightarrow> u32 \<Rightarrow> bool \<Rightarrow> ipoe_main_t \<Rightarrow> bool" where
  "ipv4_call_ok sw addr is_add im \<longleftrightarrow>
     (\<forall>i s. pool_at (im_sessions im) i = Some s \<and> is_sw_if_index s = sw \<longrightarrow>
        is_add \<or> \<not> is_ipv4_bound s \<or> addr = is_client_ipv4 s)"

definition ipv6_call_ok :: "u32 \<Rightarrow> u128 \<Rightarrow> bool \<Rightarrow> ipoe_main_t \<Rightarrow> bool" where
  "ipv6_call_ok sw addr is_add im \<longleftrightarrow>
     (\<forall>i s. pool_at (im_sessions im) i = Some s \<and> is_sw_if_index s = sw \<longrightarrow>
        is_add \<or> \<not> is_ipv6_bound s \<or> addr = is_client_ipv6 s)"

definition prefix_call_ok :: "u32 \<Rightarrow> u128 \<Rightarrow> u8 \<Rightarrow> bool \<Rightarrow> ipoe_main_t \<Rightarrow> bool" where
  "prefix_call_ok sw prefix len is_add im \<longleftrightarrow>
     (\<forall>i s. pool_at (im_sessions im) i = Some s \<and> is_sw_if_index s = sw \<longrightarrow>
        (if is_add then 0 < len \<and> len < 128
         else is_delegated_prefix_len s = 0 \<or> prefix = is_delegated_prefix s \<and> len = is_delegated_prefix_len s))"

text \<open>
  The configuration calls in any order and with any arguments, the routes they have asked the FIB for, and
  whether every call so far was of the kind above.  vnet and the pool hand out unused indices.
\<close>

inductive ipoe_reach :: "ipoe_ext \<Rightarrow> ipoe_main_t \<Rightarrow> ipoe_route set \<Rightarrow> bool \<Rightarrow> bool" for ext where
  init: "ipoe_reach ext ipoe_init {} True"
| session: "\<lbrakk>ipoe_reach ext im R ok; ipoe_session_ok a idx sw im;
    vnet_ipoe_add_del_session ext a idx hw sw im = (rv, out, fx, im')\<rbrakk> \<Longrightarrow> ipoe_reach ext im' (ipoe_apply fx R) ok"
| ipv4: "\<lbrakk>ipoe_reach ext im R ok; vnet_ipoe_set_session_ipv4 sw addr is_add im = (rv, fx, im')\<rbrakk> \<Longrightarrow>
    ipoe_reach ext im' (ipoe_apply fx R) (ok \<and> ipv4_call_ok sw addr is_add im)"
| ipv6: "\<lbrakk>ipoe_reach ext im R ok; vnet_ipoe_set_session_ipv6 sw addr is_add im = (rv, fx, im')\<rbrakk> \<Longrightarrow>
    ipoe_reach ext im' (ipoe_apply fx R) (ok \<and> ipv6_call_ok sw addr is_add im)"
| prefix: "\<lbrakk>ipoe_reach ext im R ok; vnet_ipoe_set_delegated_prefix sw prefix len next_hop is_add im = (rv, fx, im')\<rbrakk> \<Longrightarrow>
    ipoe_reach ext im' (ipoe_apply fx R) (ok \<and> prefix_call_ok sw prefix len is_add im)"
| enable: "\<lbrakk>ipoe_reach ext im R ok; vnet_ipoe_enable_disable ext sw en im = (rv, fx, im')\<rbrakk> \<Longrightarrow>
    ipoe_reach ext im' (ipoe_apply fx R) ok"

lemma ipoe_inv_init: "ipoe_inv ipoe_init" "ipoe_routes (im_sessions ipoe_init) = {}"
  by (simp_all add: ipoe_inv_def ipoe_init_def ipoe_session_of_def pool_at_def ipoe_routes_def)

lemma ipoe_enable_inv:
  "\<lbrakk>ipoe_inv im; vnet_ipoe_enable_disable ext sw en im = (rv, fx, im')\<rbrakk> \<Longrightarrow>
   ipoe_inv im' \<and> im_sessions im' = im_sessions im \<and> ipoe_apply fx R = R"
  by (auto simp: vnet_ipoe_enable_disable_def ipoe_inv_def split: if_splits)

lemma ipoe_reach_inv:
  "ipoe_reach ext im R ok \<Longrightarrow> ipoe_inv im \<and> (ok \<longrightarrow> ipoe_all_tidy (im_sessions im) \<and> R = ipoe_routes (im_sessions im))"
proof (induction rule: ipoe_reach.induct)
  case init
  show ?case using ipoe_inv_init by (simp add: ipoe_all_tidy_def ipoe_init_def pool_at_def)
next
  case (session im R ok a idx sw hw rv out fx im')
  then show ?case using ipoe_add_del_session_inv [of im a idx sw ext hw rv out fx im'] by auto
next
  case (ipv4 im R ok sw addr is_add rv fx im')
  have run: "ipoe_with_session sw (ipoe_set_ipv4 sw addr is_add) im = (rv, fx, im')"
    using ipv4(2) by (simp add: vnet_ipoe_set_session_ipv4_def)
  have inv: "ipoe_inv im" using ipv4.IH by simp
  show ?case
    using v4.with_session_inv [OF inv run] v4.with_session_routes [OF inv _ _ run] ipv4.IH
    by (auto simp: ipv4_call_ok_def)
next
  case (ipv6 im R ok sw addr is_add rv fx im')
  have run: "ipoe_with_session sw (ipoe_set_ipv6 sw addr is_add) im = (rv, fx, im')"
    using ipv6(2) by (simp add: vnet_ipoe_set_session_ipv6_def)
  have inv: "ipoe_inv im" using ipv6.IH by simp
  show ?case
    using v6.with_session_inv [OF inv run] v6.with_session_routes [OF inv _ _ run] ipv6.IH
    by (auto simp: ipv6_call_ok_def)
next
  case (prefix im R ok sw "prefix" len next_hop is_add rv fx im')
  have run: "ipoe_with_session sw (ipoe_set_pd sw prefix len next_hop is_add) im = (rv, fx, im')"
    using prefix(2) by (simp add: vnet_ipoe_set_delegated_prefix_def)
  have inv: "ipoe_inv im" using prefix.IH by simp
  show ?case
  proof (intro conjI impI)
    show "ipoe_inv im'" by (rule pd.with_session_inv [OF inv run])
  next
    assume c: "ok \<and> prefix_call_ok sw prefix len is_add im"
    then have t: "ipoe_all_tidy (im_sessions im)" "R = ipoe_routes (im_sessions im)" using prefix.IH by simp_all
    have g: "if is_add then 0 < len \<and> len < 128
         else is_delegated_prefix_len s = 0 \<or> prefix = is_delegated_prefix s \<and> len = is_delegated_prefix_len s"
      if "pool_at (im_sessions im) i = Some s" "is_sw_if_index s = sw" for i s
      using c that unfolding prefix_call_ok_def by blast
    show "ipoe_all_tidy (im_sessions im')" by (rule pd.with_session_routes(1) [OF inv t(1) g run])
    show "ipoe_apply fx R = ipoe_routes (im_sessions im')"
      unfolding t(2) by (rule pd.with_session_routes(2) [OF inv t(1) g run])
  qed
next
  case (enable im R ok sw en rv fx im')
  then show ?case using ipoe_enable_inv [of im ext sw en rv fx im'] by simp
qed

section \<open>The input node\<close>

text \<open>The reference: a packet is looked up on its own, and counted on its own.\<close>

definition ipoe_pkt_key :: "ipoe_pkt \<Rightarrow> ipoe_entry_key_t" where
  "ipoe_pkt_key p = ipoe_make_key (pk_sw_if_index p) (ipoe_recover_inner_vlan (pk_eth p)) (pk_src_mac p)"

definition ipoe_takes :: "ipoe_main_t \<Rightarrow> ipoe_pkt \<Rightarrow> u32 option" where
  "ipoe_takes im p =
     (if \<not> im_enabled_by_sw_if_index im (pk_sw_if_index p) \<or> pk_is_group p then None
      else case im_session_table im (ipoe_pkt_key p) of None \<Rightarrow> None
           | Some r \<Rightarrow> map_option is_sw_if_index (pool_at (im_sessions im) (ir_session_index r)))"

definition ipoe_misses :: "ipoe_main_t \<Rightarrow> ipoe_pkt \<Rightarrow> bool" where
  "ipoe_misses im p \<longleftrightarrow>
     im_enabled_by_sw_if_index im (pk_sw_if_index p) \<and> im_session_table im (ipoe_pkt_key p) = None"

definition ipoe_pkt_out :: "ipoe_main_t \<Rightarrow> ipoe_pkt \<Rightarrow> ipoe_input_next \<times> ipoe_pkt" where
  "ipoe_pkt_out im p =
     (if pk_is_ip4 p then IPOE_NEXT_IP4_INPUT else IPOE_NEXT_IP6_INPUT,
      case ipoe_takes im p of None \<Rightarrow> p | Some sw \<Rightarrow> p\<lparr>pk_sw_if_index := sw\<rparr>)"

definition rx_packets :: "u32 \<Rightarrow> (u32 \<times> u32 \<times> u32) list \<Rightarrow> nat" where
  "rx_packets sw incs = (\<Sum>(i, n, b)\<leftarrow>incs. if i = sw then unat n else 0)"

definition rx_bytes :: "u32 \<Rightarrow> (u32 \<times> u32 \<times> u32) list \<Rightarrow> nat" where
  "rx_bytes sw incs = (\<Sum>(i, n, b)\<leftarrow>incs. if i = sw then unat b else 0)"

lemma rx_simps [simp]:
  "rx_packets sw [] = 0" "rx_packets sw ((i, n, b) # xs) = (if i = sw then unat n else 0) + rx_packets sw xs"
  "rx_packets sw (xs @ ys) = rx_packets sw xs + rx_packets sw ys"
  "rx_bytes sw [] = 0" "rx_bytes sw ((i, n, b) # xs) = (if i = sw then unat b else 0) + rx_bytes sw xs"
  "rx_bytes sw (xs @ ys) = rx_bytes sw xs + rx_bytes sw ys"
  by (simp_all add: rx_packets_def rx_bytes_def)

definition st_all :: "ipoe_stats \<Rightarrow> (u32 \<times> u32 \<times> u32) list" where
  "st_all st = st_increments st @ st_flush st"

text \<open>The state of the loop: the cache tells the truth and \<open>n\<close> packets of \<open>b\<close> bytes still fit the counters.\<close>

definition st_ok :: "ipoe_main_t \<Rightarrow> nat \<Rightarrow> nat \<Rightarrow> ipoe_stats \<Rightarrow> bool" where
  "st_ok im n b st \<longleftrightarrow>
     (\<forall>k r. st_cached st = Some (k, r) \<longrightarrow> r = im_session_table im k)
   \<and> (st_n_packets st = 0 \<longrightarrow> st_n_bytes st = 0)
   \<and> unat (st_n_packets st) + n < 2 ^ 32 \<and> unat (st_n_bytes st) + b < 2 ^ 32"

lemma ipoe_lookup_1_exact:
  assumes "\<forall>k r. cached = Some (k, r) \<longrightarrow> r = table k" and "ipoe_lookup_1 table cached sw vlan m = (r, cached')"
  shows "r = table (ipoe_make_key sw vlan m) \<and> (\<forall>k r. cached' = Some (k, r) \<longrightarrow> r = table k)"
  using assms by (cases cached) (auto simp: ipoe_lookup_1_def Let_def split: if_splits)

lemma unat_add_u32: "unat (x :: u32) + unat y < 2 ^ 32 \<Longrightarrow> unat (x + y) = unat x + unat y"
  by (simp add: unat_word_ariths)

lemma st_count_exact:
  assumes "st_ok im (Suc n) (unat len + b) st"
  shows "st_ok im n b (st_count sw len st)"
    and "rx_packets i (st_all (st_count sw len st)) = rx_packets i (st_all st) + (if i = sw then 1 else 0)"
    and "rx_bytes i (st_all (st_count sw len st)) = rx_bytes i (st_all st) + (if i = sw then unat len else 0)"
proof -
  have n: "unat (st_n_packets st + 1) = unat (st_n_packets st) + 1"
    using assms unat_add_u32 [of "st_n_packets st" 1] by (simp add: st_ok_def)
  have b: "unat (st_n_bytes st + len) = unat (st_n_bytes st) + unat len"
    using assms unat_add_u32 [of "st_n_bytes st" len] by (simp add: st_ok_def)
  have nz: "st_n_packets st + 1 \<noteq> 0" using n by auto
  show "st_ok im n b (st_count sw len st)"
    using assms n b nz by (auto simp: st_ok_def st_count_def)
  show "rx_packets i (st_all (st_count sw len st)) = rx_packets i (st_all st) + (if i = sw then 1 else 0)"
    using n nz by (auto simp: st_all_def st_flush_def st_count_def)
  show "rx_bytes i (st_all (st_count sw len st)) = rx_bytes i (st_all st) + (if i = sw then unat len else 0)"
    using assms b nz by (auto simp: st_all_def st_flush_def st_count_def st_ok_def)
qed

definition ipoe_took :: "ipoe_main_t \<Rightarrow> u32 \<Rightarrow> ipoe_pkt list \<Rightarrow> ipoe_pkt list" where
  "ipoe_took im sw ps = filter (\<lambda>p. ipoe_takes im p = Some sw) ps"

definition pk_bytes :: "ipoe_pkt list \<Rightarrow> nat" where
  "pk_bytes ps = (\<Sum>p\<leftarrow>ps. unat (pk_len p))"

lemma pk_bytes_simps [simp]: "pk_bytes [] = 0" "pk_bytes (p # ps) = unat (pk_len p) + pk_bytes ps"
  by (simp_all add: pk_bytes_def)

lemma st_all_upd [simp]:
  "st_all (st\<lparr>st_cached := c\<rparr>) = st_all st" "st_all (st\<lparr>st_no_session := x\<rparr>) = st_all st"
  "st_all (st\<lparr>st_processed := x\<rparr>) = st_all st"
  by (simp_all add: st_all_def st_flush_def)

lemma st_ok_upd [simp]:
  "st_ok im n b (st\<lparr>st_no_session := x\<rparr>) = st_ok im n b st" "st_ok im n b (st\<lparr>st_processed := x\<rparr>) = st_ok im n b st"
  by (simp_all add: st_ok_def)

lemma st_ok_cached:
  "st_ok im n b st \<Longrightarrow> (\<forall>k r. c = Some (k, r) \<longrightarrow> r = im_session_table im k) \<Longrightarrow> st_ok im n b (st\<lparr>st_cached := c\<rparr>)"
  by (simp add: st_ok_def)

lemma st_ok_less: "st_ok im (Suc n) (b' + b) st \<Longrightarrow> st_ok im n b st"
  by (simp add: st_ok_def)

lemma st_count_sel [simp]:
  "st_processed (st_count sw len st) = st_processed st" "st_no_session (st_count sw len st) = st_no_session st"
  by (simp_all add: st_count_def)

lemma ipoe_input_one_exact:
  assumes ok: "st_ok im (Suc n) (unat (pk_len p) + b) st" and run: "ipoe_input_one im p st = (o1, st')"
  shows "o1 = ipoe_pkt_out im p \<and> st_ok im n b st'
    \<and> rx_packets i (st_all st') = rx_packets i (st_all st) + (if ipoe_takes im p = Some i then 1 else 0)
    \<and> rx_bytes i (st_all st') = rx_bytes i (st_all st) + (if ipoe_takes im p = Some i then unat (pk_len p) else 0)
    \<and> st_processed st' = st_processed st + (if ipoe_takes im p \<noteq> None then 1 else 0)
    \<and> st_no_session st' = st_no_session st + (if ipoe_misses im p then 1 else 0)"
proof (cases "im_enabled_by_sw_if_index im (pk_sw_if_index p)")
  case False
  with run st_ok_less [OF ok] show ?thesis
    by (auto simp: ipoe_input_one_def ipoe_pkt_out_def ipoe_takes_def ipoe_misses_def)
next
  case en: True
  obtain r c where l: "ipoe_lookup_1 (im_session_table im) (st_cached st) (pk_sw_if_index p)
      (ipoe_recover_inner_vlan (pk_eth p)) (pk_src_mac p) = (r, c)" by fastforce
  have "\<forall>k r. st_cached st = Some (k, r) \<longrightarrow> r = im_session_table im k" using ok unfolding st_ok_def by blast
  note lk = ipoe_lookup_1_exact [OF this l]
  have r: "r = im_session_table im (ipoe_pkt_key p)" using conjunct1 [OF lk] by (simp only: ipoe_pkt_key_def)
  note c = conjunct2 [OF lk]
  have ok1: "st_ok im (Suc n) (unat (pk_len p) + b) (st\<lparr>st_cached := c\<rparr>)" by (rule st_ok_cached [OF ok c])
  note ok2 = st_ok_less [OF ok1]
  show ?thesis
  proof (cases "ipoe_takes im p")
    case None
    have o1: "o1 = ipoe_pkt_out im p"
      using run en r l None
      by (cases "im_session_table im (ipoe_pkt_key p)")
        (auto simp: ipoe_input_one_def ipoe_pkt_out_def ipoe_takes_def Let_def split: option.splits if_splits)
    have "st' = (if ipoe_misses im p then st\<lparr>st_cached := c, st_no_session := st_no_session st + 1\<rparr> else st\<lparr>st_cached := c\<rparr>)"
      using run en r l None
      by (cases "im_session_table im (ipoe_pkt_key p)")
        (auto simp: ipoe_input_one_def ipoe_takes_def ipoe_misses_def Let_def split: option.splits if_splits)
    with o1 None ok2 show ?thesis by simp
  next
    case (Some sw)
    with en r obtain r1 s where t: "im_session_table im (ipoe_pkt_key p) = Some r1" "\<not> pk_is_group p"
      "pool_at (im_sessions im) (ir_session_index r1) = Some s" "is_sw_if_index s = sw"
      by (auto simp: ipoe_takes_def split: option.splits if_splits)
    have st': "st' = (st_count sw (pk_len p) (st\<lparr>st_cached := c\<rparr>))\<lparr>st_processed := st_processed st + 1\<rparr>"
      and o1: "o1 = ipoe_pkt_out im p"
      using run en r l t Some by (auto simp: ipoe_input_one_def ipoe_pkt_out_def)
    show ?thesis
      using Some t by (auto simp: st' o1 ipoe_misses_def st_count_exact [OF ok1])
  qed
qed

lemma ipoe_input_loop_exact:
  "\<lbrakk>st_ok im (length ps) (pk_bytes ps) st; ipoe_input_loop im ps st = (os, st')\<rbrakk> \<Longrightarrow>
   os = map (ipoe_pkt_out im) ps
   \<and> rx_packets i (st_all st') = rx_packets i (st_all st) + length (ipoe_took im i ps)
   \<and> rx_bytes i (st_all st') = rx_bytes i (st_all st) + pk_bytes (ipoe_took im i ps)
   \<and> st_processed st' = st_processed st + word_of_nat (length (filter (\<lambda>p. ipoe_takes im p \<noteq> None) ps))
   \<and> st_no_session st' = st_no_session st + word_of_nat (length (filter (ipoe_misses im) ps))"
proof (induction ps arbitrary: st os st')
  case Nil
  then show ?case by (simp add: ipoe_took_def)
next
  case (Cons p ps)
  obtain o1 st1 where one: "ipoe_input_one im p st = (o1, st1)" by (cases "ipoe_input_one im p st")
  obtain os1 st2 where rest: "ipoe_input_loop im ps st1 = (os1, st2)" by (cases "ipoe_input_loop im ps st1")
  have e: "os = o1 # os1" "st' = st2" using Cons.prems(2) one rest by auto
  from ipoe_input_one_exact [OF _ one, of "length ps" "pk_bytes ps" i] Cons.prems(1)
  have o: "o1 = ipoe_pkt_out im p" "st_ok im (length ps) (pk_bytes ps) st1"
    "rx_packets i (st_all st1) = rx_packets i (st_all st) + (if ipoe_takes im p = Some i then 1 else 0)"
    "rx_bytes i (st_all st1) = rx_bytes i (st_all st) + (if ipoe_takes im p = Some i then unat (pk_len p) else 0)"
    "st_processed st1 = st_processed st + (if ipoe_takes im p \<noteq> None then 1 else 0)"
    "st_no_session st1 = st_no_session st + (if ipoe_misses im p then 1 else 0)"
    by simp_all
  from Cons.IH [OF o(2) rest] o show ?case by (simp add: e ipoe_took_def)
qed

lemma ipoe_input_node_single: "fst (ipoe_input_node im [p]) = [ipoe_pkt_out im p]"
proof -
  let ?st = "\<lparr>st_cached = None, st_sw_if_index = nil32, st_n_packets = 0, st_n_bytes = 0,
              st_increments = [], st_processed = 0, st_no_session = 0\<rparr>"
  obtain os st where run: "ipoe_input_loop im [p] ?st = (os, st)" by (cases "ipoe_input_loop im [p] ?st")
  have "st_ok im (length [p]) (pk_bytes [p]) ?st" by (simp add: st_ok_def)
  from ipoe_input_loop_exact [OF this run] have "os = [ipoe_pkt_out im p]" by simp
  with run show ?thesis by (simp only: ipoe_input_node_def prod.case fst_conv)
qed

section \<open>Frames of a subscriber\<close>

lemma ld_be16_be16:
  assumes "p a = ucast (drop_bit 8 w :: u16)" and "p (a + 1) = ucast w"
  shows "ld_be16 p a = w"
proof (rule bit_eqI)
  fix n assume "possible_bit TYPE(16 word) n"
  then have "n < 16" by simp
  then show "bit (ld_be16 p a) n = bit w n"
    by (cases "n < 8") (use assms in \<open>auto simp: ld_be16_def bit_simps\<close>)
qed

lemma ld_be16_at:
  "p a = ucast (drop_bit 8 w :: u16) \<Longrightarrow> p b = ucast w \<Longrightarrow> b = a + 1 \<Longrightarrow> ld_be16 p a = w"
  by (simp add: ld_be16_be16)

text \<open>The VLAN the input node recovers from tags that mirror those the rewrite of a session carries.\<close>

lemma recover_rewrite:
  assumes wf: "ipoe_wf s"
    and tags: "map eth [12..<length (ipoe_rewrite_bytes ip4 s)] = drop 12 (ipoe_rewrite_bytes ip4 s)"
  shows "ipoe_recover_inner_vlan eth =
    (if is_inner_vlan s \<noteq> 0 then is_inner_vlan s AND 0xFFF else is_outer_vlan s AND 0xFFF)"
proof -
  let ?ty = "if ip4 then ETHERNET_TYPE_IP4 else ETHERNET_TYPE_IP6"
  have len: "length (is_client_mac s) = 6" "length (is_local_mac s) = 6"
    and tp: "is_outer_tpid s = ETHERNET_TYPE_DOT1AD \<or> is_outer_tpid s = ETHERNET_TYPE_VLAN"
    using wf by (auto simp: ipoe_wf_def)
  have ty: "?ty \<noteq> ETHERNET_TYPE_DOT1AD" "?ty \<noteq> ETHERNET_TYPE_VLAN" by (simp_all add: ethertype_defs)
  note unf = ipoe_rewrite_bytes_def be16_def vlan_header_def Let_def
  consider (qinq) "is_outer_vlan s \<noteq> 0" "is_inner_vlan s \<noteq> 0" | (outer) "is_outer_vlan s \<noteq> 0" "is_inner_vlan s = 0"
    | (inner) "is_outer_vlan s = 0" "is_inner_vlan s \<noteq> 0" | (none) "is_outer_vlan s = 0" "is_inner_vlan s = 0"
    by blast
  then show ?thesis
  proof cases
    case qinq
    then have "ld_be16 eth 12 = is_outer_tpid s" "ld_be16 eth 16 = ETHERNET_TYPE_VLAN" "ld_be16 eth 18 = is_inner_vlan s AND 0xFFF"
      using tags len by (auto simp: unf upt_rec_numeral intro!: ld_be16_at)
    with tp qinq show ?thesis by (auto simp: ipoe_recover_inner_vlan_def Let_def)
  next
    case outer
    then have "ld_be16 eth 12 = is_outer_tpid s" "ld_be16 eth 14 = is_outer_vlan s AND 0xFFF" "ld_be16 eth 16 = ?ty"
      using tags len by (auto simp: unf upt_rec_numeral intro!: ld_be16_at)
    with tp outer ty show ?thesis by (auto simp: ipoe_recover_inner_vlan_def Let_def)
  next
    case inner
    then have "ld_be16 eth 12 = ETHERNET_TYPE_VLAN" "ld_be16 eth 14 = is_inner_vlan s AND 0xFFF" "ld_be16 eth 16 = ?ty"
      using tags len by (auto simp: unf upt_rec_numeral intro!: ld_be16_at)
    with inner ty show ?thesis by (auto simp: ipoe_recover_inner_vlan_def Let_def)
  next
    case none
    then have "ld_be16 eth 12 = ?ty"
      using tags len by (auto simp: unf upt_rec_numeral intro!: ld_be16_at)
    with none ty show ?thesis by (auto simp: ipoe_recover_inner_vlan_def Let_def)
  qed
qed

section \<open>A run\<close>

text \<open>
  A Q-in-Q session is created behind interface 1, the interface is enabled, an address and a
  prefix are bound, and a frame of the subscriber comes in, twice.
\<close>

definition idemo_ext :: ipoe_ext where
  "idemo_ext = \<lparr>encap_is_dot1ad = (\<lambda>_. True), fib_table_get_table_id = (\<lambda>f. f), fib_table_find_ip4 = (\<lambda>t. t),
     fib_table_find_ip6 = (\<lambda>t. t), sw_interface_is_valid = (\<lambda>_. True)\<rparr>"

definition idemo_args :: vnet_ipoe_add_del_session_args_t where
  "idemo_args = \<lparr>sa_is_add = True, sa_encap_if_index = 1, sa_client_mac = [2, 0, 0, 0, 0, 1],
     sa_local_mac = [2, 0, 0, 0, 0, 2], sa_outer_vlan = 100, sa_inner_vlan = 7, sa_decap_fib_index = 3\<rparr>"

definition idemo_sess :: ipoe_session_t where
  "idemo_sess = \<lparr>is_encap_if_index = 1, is_client_mac = [2, 0, 0, 0, 0, 1], is_local_mac = [2, 0, 0, 0, 0, 2],
     is_outer_vlan = 100, is_inner_vlan = 7, is_outer_tpid = 0x88A8, is_client_ipv4 = 0, is_ipv4_bound = False,
     is_client_ipv6 = 0, is_ipv6_bound = False, is_delegated_prefix = 0, is_delegated_prefix_len = 0,
     is_pd_next_hop = 0, is_decap_fib_index = 3, is_decap_fib_index_ip6 = 3, is_sw_if_index = 5, is_hw_if_index = 4\<rparr>"

definition idemo_im :: "ipoe_session_t \<Rightarrow> bool \<Rightarrow> ipoe_main_t" where
  "idemo_im s en = \<lparr>im_sessions = [Some s],
     im_session_table = (\<lambda>_. None)(ipoe_key_of idemo_sess \<mapsto> \<lparr>ir_sw_if_index = 5, ir_session_index = 0\<rparr>),
     im_session_index_by_sw_if_index = [nil32, nil32, nil32, nil32, nil32, 0],
     im_enabled_by_sw_if_index = (\<lambda>i. i = 1 \<and> en), im_ethertypes_registered = en\<rparr>"

definition idemo_bound :: ipoe_session_t where
  "idemo_bound = idemo_sess\<lparr>is_client_ipv4 := 0x0A000001, is_ipv4_bound := True,
     is_delegated_prefix := 0x20010DB8, is_delegated_prefix_len := 56, is_pd_next_hop := 1\<rparr>"

definition idemo_routes :: "ipoe_route set" where
  "idemo_routes = {Route4 3 0x0A000001 5, Route6 3 0x20010DB8 56 5}"

definition idemo_frame :: "u8 list" where
  "idemo_frame = [2, 0, 0, 0, 0, 2, 2, 0, 0, 0, 0, 1, 0x88, 0xA8, 0, 100, 0x81, 0, 0, 7, 8, 0, 0x45]"

definition idemo_ipoe_pkt :: ipoe_pkt where
  "idemo_ipoe_pkt = \<lparr>pk_sw_if_index = 1, pk_eth = (\<lambda>n. if n < 23 then idemo_frame ! n else 0),
     pk_ip = (\<lambda>n. if n = 0 then 0x45 else 0), pk_len = 100\<rparr>"

lemmas idemo_defs = idemo_ext_def idemo_args_def idemo_sess_def idemo_im_def idemo_bound_def ipoe_key_of_def ipoe_make_key_def

lemma replicate_6: "replicate 6 x = [x, x, x, x, x, x]"
  by (simp add: eval_nat_numeral)

lemma idemo_created:
  "vnet_ipoe_add_del_session idemo_ext idemo_args 0 4 5 ipoe_init =
     (IPOE_OK, Some 5, [Register_Interface 0, Set_Parent 5 1, Link_Up 4, Admin_Up 5, Tunnel_Output 5, Table_Bind 5 3],
      idemo_im idemo_sess False)"
proof -
  have v: "ipoe_index_set 5 0 [] = [nil32, nil32, nil32, nil32, nil32, 0]"
    by (simp add: ipoe_index_set_def replicate_6)
  show ?thesis
    by (simp add: vnet_ipoe_add_del_session_def ipoe_session_create_def ipoe_init_def ipoe_session_table_add_def Let_def v
      ipoe_new_session_def ipoe_zero_session_def ipoe_table_id_def pool_get_put_def idemo_defs ethertype_defs)
qed

lemma idemo_session_of: "ipoe_session_of (idemo_im s en) 5 = Some 0"
  by (simp add: ipoe_session_of_def idemo_im_def)

lemma idemo_reach: "ipoe_reach idemo_ext (idemo_im idemo_bound True) idemo_routes True"
proof -
  have "ipoe_session_ok idemo_args 0 5 ipoe_init"
    by (simp add: ipoe_session_ok_def idemo_args_def ipoe_init_def pool_fresh_def pool_at_def)
  from ipoe_reach.session [OF ipoe_reach.init this idemo_created]
  have r1: "ipoe_reach idemo_ext (idemo_im idemo_sess False) {} True" by simp
  have "vnet_ipoe_enable_disable idemo_ext 1 True (idemo_im idemo_sess False) =
      (IPOE_OK, [Register_Ethertypes], idemo_im idemo_sess True)"
    by (simp add: vnet_ipoe_enable_disable_def idemo_defs fun_eq_iff)
  from ipoe_reach.enable [OF r1 this] have r2: "ipoe_reach idemo_ext (idemo_im idemo_sess True) {} True" by simp
  let ?s1 = "idemo_sess\<lparr>is_client_ipv4 := 0x0A000001, is_ipv4_bound := True\<rparr>"
  have "vnet_ipoe_set_session_ipv4 5 0x0A000001 True (idemo_im idemo_sess True) =
      (IPOE_OK, [Path_Add (Route4 3 0x0A000001 5)], idemo_im ?s1 True)"
    unfolding vnet_ipoe_set_session_ipv4_def ipoe_with_session_def idemo_session_of
    by (simp add: pool_at_def pool_upd_def ipoe_set_ipv4_def idemo_defs)
  from ipoe_reach.ipv4 [OF r2 this] have r3: "ipoe_reach idemo_ext (idemo_im ?s1 True) {Route4 3 0x0A000001 5} True"
    by (simp add: ipv4_call_ok_def)
  have "vnet_ipoe_set_delegated_prefix 5 0x20010DB8 56 1 True (idemo_im ?s1 True) =
      (IPOE_OK, [Path_Add (Route6 3 0x20010DB8 56 5)], idemo_im idemo_bound True)"
    unfolding vnet_ipoe_set_delegated_prefix_def ipoe_with_session_def idemo_session_of
    by (simp add: pool_at_def pool_upd_def ipoe_set_pd_def idemo_defs)
  from ipoe_reach.prefix [OF r3 this] show ?thesis by (simp add: idemo_routes_def insert_commute prefix_call_ok_def)
qed

lemma idemo_at: "pool_at (im_sessions (idemo_im s en)) i = (if i = 0 then Some s else None)"
  by (simp add: idemo_im_def pool_at_def word_unat_eq_iff)

text \<open>A removal that names another address: the binding is gone, its route stays.\<close>

lemma stray_removal_leaves_route:
  "\<exists>R im. ipoe_reach idemo_ext im R False \<and> Route4 3 0x0A000001 5 \<in> R \<and>
     (\<forall>i s. pool_at (im_sessions im) i = Some s \<longrightarrow> \<not> is_ipv4_bound s)"
proof -
  let ?s = "idemo_bound\<lparr>is_client_ipv4 := 0, is_ipv4_bound := False\<rparr>"
  have b: "is_ipv4_bound idemo_bound" "is_sw_if_index idemo_bound = 5" "is_client_ipv4 idemo_bound = 0x0A000001"
    by (simp_all add: idemo_bound_def idemo_sess_def)
  have run: "vnet_ipoe_set_session_ipv4 5 1 False (idemo_im idemo_bound True) =
      (IPOE_OK, [Path_Remove (Route4 (is_decap_fib_index idemo_bound) 1 5)], idemo_im ?s True)"
    unfolding vnet_ipoe_set_session_ipv4_def ipoe_with_session_def idemo_session_of
    by (simp add: pool_at_def pool_upd_def ipoe_set_ipv4_def ipoe_clear_ipv4_def b idemo_im_def)
  have "\<not> ipv4_call_ok 5 1 False (idemo_im idemo_bound True)"
    using b by (auto simp: ipv4_call_ok_def idemo_at)
  with ipoe_reach.ipv4 [OF idemo_reach run]
  have "ipoe_reach idemo_ext (idemo_im ?s True) (idemo_routes - {Route4 (is_decap_fib_index idemo_bound) 1 5}) False" by simp
  moreover have "Route4 3 0x0A000001 5 \<in> idemo_routes - {Route4 (is_decap_fib_index idemo_bound) 1 5}"
    by (simp add: idemo_routes_def)
  moreover have "\<not> is_ipv4_bound s" if "pool_at (im_sessions (idemo_im ?s True)) i = Some s" for i s
    using that by (auto simp: idemo_at split: if_splits)
  ultimately show ?thesis by blast
qed

lemma idemo_table:
  "im_session_table (idemo_im s en) =
     (\<lambda>_. None)(ipoe_key_of idemo_sess \<mapsto> \<lparr>ir_sw_if_index = 5, ir_session_index = 0\<rparr>)"
  by (simp add: idemo_im_def)

lemma idemo_enabled:
  "im_enabled_by_sw_if_index (idemo_im s True) (pk_sw_if_index idemo_ipoe_pkt)" "is_sw_if_index idemo_bound = 5"
  by (simp_all add: idemo_im_def idemo_ipoe_pkt_def idemo_bound_def idemo_sess_def)

lemma idemo_ip4: "pk_is_ip4 idemo_ipoe_pkt"
  by (simp add: pk_is_ip4_def idemo_ipoe_pkt_def)

lemma idemo_takes: "ipoe_takes (idemo_im idemo_bound True) idemo_ipoe_pkt = Some 5"
proof -
  have "ipoe_pkt_key idemo_ipoe_pkt = ipoe_key_of idemo_sess"
    by (simp add: ipoe_pkt_key_def idemo_ipoe_pkt_def idemo_frame_def ipoe_recover_inner_vlan_def ld_be16_def Let_def
      ethertype_defs pk_src_mac_def upt_rec_numeral idemo_sess_def ipoe_key_of_def)
  moreover have "\<not> pk_is_group idemo_ipoe_pkt" by (simp add: pk_is_group_def pk_is_ip4_def idemo_ipoe_pkt_def upt_rec_numeral)
  ultimately show ?thesis
    by (simp add: ipoe_takes_def idemo_at idemo_table idemo_enabled)
qed

section \<open>Properties\<close>

text \<open>
  C9: In every state the calls reach, with whatever arguments, the lookup table, the reverse index and the
  pool of sessions agree, each session being found by its key and by its interface (vnet and the pool hand
  out unused indices).  The routes the plugin has asked the FIB for are exactly those of the bindings of
  its sessions as long as every call so far was of this kind: a removal names the address or the prefix that
  is bound, and a prefix that is added has a length from 1 to 127.  The code checks neither.
\<close>

theorem sessions_and_routes_agree:
  assumes "ipoe_reach ext im R ok"
  shows "(\<forall>k r. im_session_table im k = Some r \<longleftrightarrow>
      (\<exists>s. pool_at (im_sessions im) (ir_session_index r) = Some s \<and> ipoe_key_of s = k \<and> ir_sw_if_index r = is_sw_if_index s))
    \<and> (\<forall>sw i. ipoe_session_of im sw = Some i \<longleftrightarrow> (\<exists>s. pool_at (im_sessions im) i = Some s \<and> is_sw_if_index s = sw))
    \<and> (ok \<longrightarrow> R = {r. \<exists>i s. pool_at (im_sessions im) i = Some s \<and> r \<in> ipoe_session_routes s})"
  using ipoe_reach_inv [OF assms] by (auto simp: ipoe_inv_def ipoe_routes_def)

theorem sessions_and_routes_agree_witness:
  "{Route4 3 0x0A000001 5, Route6 3 0x20010DB8 56 5} =
     {r. \<exists>i s. pool_at (im_sessions (idemo_im idemo_bound True)) i = Some s \<and> r \<in> ipoe_session_routes s}"
  using sessions_and_routes_agree [OF idemo_reach] by (simp add: idemo_routes_def)

text \<open>
  C16: In every reachable state a frame that comes in on the encapsulating interface of a session with
  its MAC address and the tags the plugin itself puts on frames to the session is attributed to
  that session, unless the session has an outer VLAN and no inner one: then the single tag is taken
  for the inner VLAN and the frame is not.
\<close>

theorem subscriber_frames_attributed:
  assumes "ipoe_reach ext im R ok" and "pool_at (im_sessions im) i = Some s"
    and "is_inner_vlan s < 4096" and "is_outer_vlan s < 4096"
    and "im_enabled_by_sw_if_index im (is_encap_if_index s)" and "pk_sw_if_index p = is_encap_if_index s"
    and "pk_src_mac p = is_client_mac s" and "\<not> pk_is_group p"
    and "ipoe_build_rewrite (is_sw_if_index s) (pk_is_ip4 p) im = Some rw"
    and "map (pk_eth p) [12..<length rw] = drop 12 rw" and "is_sw_if_index s \<noteq> is_encap_if_index s"
  shows "map (\<lambda>(_, q). pk_sw_if_index q) (fst (ipoe_input_node im [p])) = [is_sw_if_index s] \<longleftrightarrow>
    is_inner_vlan s \<noteq> 0 \<or> is_outer_vlan s = 0"
proof -
  have inv: "ipoe_inv im" using ipoe_reach_inv [OF assms(1)] by simp
  have "ipoe_session_of im (is_sw_if_index s) = Some i" using inv assms(2) by (auto simp: ipoe_inv_index)
  then have rw: "rw = ipoe_rewrite_bytes (pk_is_ip4 p) s" using assms(2,9) by (simp add: ipoe_build_rewrite_def)
  have "w AND 0xFFF = w" if "w < 4096" for w :: u16
    using that less_mask_eq [of w 12] by (simp add: mask_eq_exp_minus_1)
  then have v: "ipoe_recover_inner_vlan (pk_eth p) = (if is_inner_vlan s \<noteq> 0 then is_inner_vlan s else is_outer_vlan s)"
    using recover_rewrite [OF ipoe_inv_wf [OF inv assms(2)] assms(10) [unfolded rw]] assms(3,4) by simp
  have key: "ipoe_pkt_key p = ipoe_key_of s \<longleftrightarrow> is_inner_vlan s \<noteq> 0 \<or> is_outer_vlan s = 0"
    using v assms(6,7) by (auto simp: ipoe_pkt_key_def ipoe_key_of_def ipoe_make_key_def)
  have "ipoe_takes im p = Some (is_sw_if_index s) \<longleftrightarrow> ipoe_pkt_key p = ipoe_key_of s"
  proof
    assume "ipoe_takes im p = Some (is_sw_if_index s)"
    then obtain r t where t: "im_session_table im (ipoe_pkt_key p) = Some r"
      "pool_at (im_sessions im) (ir_session_index r) = Some t" "is_sw_if_index t = is_sw_if_index s"
      by (auto simp: ipoe_takes_def split: if_splits option.splits)
    with ipoe_inv_sw_unique [OF inv t(2) assms(2)] assms(2) show "ipoe_pkt_key p = ipoe_key_of s"
      by (auto simp: ipoe_inv_table [OF inv])
  next
    assume "ipoe_pkt_key p = ipoe_key_of s"
    moreover have "im_session_table im (ipoe_key_of s) = Some \<lparr>ir_sw_if_index = is_sw_if_index s, ir_session_index = i\<rparr>"
      using assms(2) by (auto simp: ipoe_inv_table [OF inv])
    ultimately show "ipoe_takes im p = Some (is_sw_if_index s)"
      using assms(2,5,6,8) by (simp add: ipoe_takes_def)
  qed
  moreover have "map (\<lambda>(_, q). pk_sw_if_index q) (fst (ipoe_input_node im [p])) = [is_sw_if_index s] \<longleftrightarrow>
      ipoe_takes im p = Some (is_sw_if_index s)"
    using assms(6,11) by (auto simp: ipoe_input_node_single ipoe_pkt_out_def split: option.splits)
  ultimately show ?thesis using key by simp
qed

theorem subscriber_frames_attributed_witness:
  "map (\<lambda>(_, q). pk_sw_if_index q) (fst (ipoe_input_node (idemo_im idemo_bound True) [idemo_ipoe_pkt])) = [5]"
proof -
  have ip: "pk_is_ip4 idemo_ipoe_pkt" by (simp add: pk_is_ip4_def idemo_ipoe_pkt_def)
  have rw: "ipoe_build_rewrite 5 True (idemo_im idemo_bound True) =
      Some [2, 0, 0, 0, 0, 1, 2, 0, 0, 0, 0, 2, 0x88, 0xA8, 0, 100, 0x81, 0, 0, 7, 8, 0]"
    unfolding ipoe_build_rewrite_def idemo_session_of
    by (simp add: idemo_at ipoe_rewrite_bytes_def be16_def vlan_header_def idemo_bound_def idemo_sess_def ethertype_defs)
  have s: "is_sw_if_index idemo_bound = 5" "is_inner_vlan idemo_bound = 7" "is_outer_vlan idemo_bound = 100"
    "is_encap_if_index idemo_bound = 1" "is_client_mac idemo_bound = [2, 0, 0, 0, 0, 1]"
    by (simp_all add: idemo_bound_def idemo_sess_def)
  show ?thesis
    using subscriber_frames_attributed [OF idemo_reach, of 0 idemo_bound idemo_ipoe_pkt] rw
    by (simp add: s ip idemo_at) (simp add: idemo_im_def idemo_ipoe_pkt_def pk_src_mac_def pk_is_group_def pk_is_ip4_def
      idemo_frame_def upt_rec_numeral)
qed

text \<open>
  C17: The input node, with its one-entry lookup cache and its batched interface counters, does to
  every packet of a frame what a lookup of that packet alone does, counts for every interface
  exactly the packets and bytes it attributes to it, and counts the attributed and the unknown
  packets.  A frame has fewer than \<open>2 ^ 32\<close> bytes.
\<close>

theorem input_node_is_direct_lookup:
  assumes "length ps < 2 ^ 32" and "pk_bytes ps < 2 ^ 32"
  shows "\<exists>incs. ipoe_input_node im ps =
      (map (ipoe_pkt_out im) ps, incs,
       word_of_nat (length (filter (\<lambda>p. ipoe_takes im p \<noteq> None) ps)), word_of_nat (length (filter (ipoe_misses im) ps)))
    \<and> (\<forall>sw. rx_packets sw incs = length (ipoe_took im sw ps) \<and> rx_bytes sw incs = pk_bytes (ipoe_took im sw ps))"
proof -
  let ?st = "\<lparr>st_cached = None, st_sw_if_index = nil32, st_n_packets = 0, st_n_bytes = 0,
              st_increments = [], st_processed = 0, st_no_session = 0\<rparr>"
  obtain os st where run: "ipoe_input_loop im ps ?st = (os, st)" by (cases "ipoe_input_loop im ps ?st")
  have "st_ok im (length ps) (pk_bytes ps) ?st" using assms by (simp add: st_ok_def)
  note l = ipoe_input_loop_exact [OF this run]
  have "st_all ?st = []" by (simp add: st_all_def st_flush_def)
  with l show ?thesis by (simp add: ipoe_input_node_def run st_all_def [symmetric])
qed

theorem input_node_is_direct_lookup_witness:
  "\<exists>incs. ipoe_input_node (idemo_im idemo_bound True) [idemo_ipoe_pkt, idemo_ipoe_pkt] =
      ([(IPOE_NEXT_IP4_INPUT, idemo_ipoe_pkt\<lparr>pk_sw_if_index := 5\<rparr>),
        (IPOE_NEXT_IP4_INPUT, idemo_ipoe_pkt\<lparr>pk_sw_if_index := 5\<rparr>)], incs, 2, 0)
    \<and> rx_packets 5 incs = 2 \<and> rx_bytes 5 incs = 200"
proof -
  let ?ps = "[idemo_ipoe_pkt, idemo_ipoe_pkt]" and ?im = "idemo_im idemo_bound True"
  have b: "pk_bytes ?ps = 200" by (simp add: idemo_ipoe_pkt_def)
  have t: "ipoe_took ?im 5 ?ps = ?ps" "\<not> ipoe_misses ?im idemo_ipoe_pkt"
    "ipoe_pkt_out ?im idemo_ipoe_pkt = (IPOE_NEXT_IP4_INPUT, idemo_ipoe_pkt\<lparr>pk_sw_if_index := 5\<rparr>)"
    using idemo_takes by (auto simp: ipoe_took_def ipoe_misses_def ipoe_takes_def ipoe_pkt_out_def idemo_takes idemo_ip4
      split: if_splits option.splits)
  from input_node_is_direct_lookup [of ?ps ?im]
  obtain incs where "ipoe_input_node ?im ?ps = (map (ipoe_pkt_out ?im) ?ps, incs,
       word_of_nat (length (filter (\<lambda>p. ipoe_takes ?im p \<noteq> None) ?ps)), word_of_nat (length (filter (ipoe_misses ?im) ?ps)))"
    and "rx_packets 5 incs = length (ipoe_took ?im 5 ?ps)" "rx_bytes 5 incs = pk_bytes (ipoe_took ?im 5 ?ps)"
    unfolding b by auto
  with t b idemo_takes show ?thesis by (intro exI [of _ incs]) simp
qed

end
