(* ===== verification/Punt.thy ===== *)
theory Punt
  imports Prelude
begin

text \<open>
  The punt plugin (plugins/osvbng_punt): control packets of the subscribers go to the control plane
  through shared memory, one single-producer ring per VPP thread, and frames of the control plane
  come back through one egress ring.  This theory holds the layout of the shared region, the
  policer and the punt path.

  An address in the region is its offset.  The bytes of the data slots are one memory; the ring
  headers and descriptors are records, which is faithful because the regions do not overlap (a
  property below).  The control plane is the other end of the rings: it moves the tail of a
  punt ring, the head of the egress ring, and clears the interrupt flag.  Floating point is real.
\<close>

section \<open>Shared memory\<close>

definition OSVBNG_PUNT_N_PROTO :: nat where "OSVBNG_PUNT_N_PROTO = 8"
definition OSVBNG_PUNT_PROTO_DHCPV4 :: nat where "OSVBNG_PUNT_PROTO_DHCPV4 = 0"
definition OSVBNG_PUNT_PROTO_DHCPV6 :: nat where "OSVBNG_PUNT_PROTO_DHCPV6 = 1"
definition OSVBNG_PUNT_PROTO_ARP :: nat where "OSVBNG_PUNT_PROTO_ARP = 2"
definition OSVBNG_PUNT_PROTO_PPPOE_DISCOVERY :: nat where "OSVBNG_PUNT_PROTO_PPPOE_DISCOVERY = 3"
definition OSVBNG_PUNT_PROTO_IPV6_ND :: nat where "OSVBNG_PUNT_PROTO_IPV6_ND = 5"
definition OSVBNG_PUNT_PROTO_L2TP :: nat where "OSVBNG_PUNT_PROTO_L2TP = 6"

lemmas punt_proto_defs = OSVBNG_PUNT_N_PROTO_def OSVBNG_PUNT_PROTO_DHCPV4_def OSVBNG_PUNT_PROTO_DHCPV6_def
  OSVBNG_PUNT_PROTO_ARP_def OSVBNG_PUNT_PROTO_PPPOE_DISCOVERY_def OSVBNG_PUNT_PROTO_IPV6_ND_def OSVBNG_PUNT_PROTO_L2TP_def

record osvbng_punt_desc_t =
  pd_data_offset :: u32
  pd_sw_if_index :: u32
  pd_data_length :: u16
  pd_protocol :: u8
  pd_flags :: u8
  pd_outer_vlan :: u16
  pd_inner_vlan :: u16
  pd_timestamp :: u64

record osvbng_egress_desc_t =
  ed_data_offset :: u32
  ed_sw_if_index :: u32
  ed_data_length :: u16

record osvbng_ring_header_t =
  rh_head :: u64
  rh_tail :: u64
  rh_interrupt_pending :: bool

record osvbng_punt_per_thread_t =
  pt_ring :: osvbng_ring_header_t
  pt_ring_offset :: nat
  pt_descs :: "nat \<Rightarrow> osvbng_punt_desc_t"
  pt_data :: nat
  pt_rate :: "nat \<Rightarrow> real"
  pt_burst :: "nat \<Rightarrow> real"
  pt_tokens :: "nat \<Rightarrow> real"
  pt_last_update :: "nat \<Rightarrow> real"
  pt_punted :: "nat \<Rightarrow> u64"
  pt_dropped :: "nat \<Rightarrow> u64"
  pt_policed :: "nat \<Rightarrow> u64"
  pt_ring_full :: u64
  pt_truncated :: u64

record osvbng_punt_main_t =
  pm_enabled :: "nat \<Rightarrow> u32 set"
  pm_dhcp_bcast_refs :: "u32 \<Rightarrow> u64 option"
  pm_mem :: "nat \<Rightarrow> u8"
  pm_shm_size :: u32
  pm_shm_initialized :: bool
  pm_punt_ring_size :: u32
  pm_egress_ring_size :: u32
  pm_slot_size :: u32
  pm_n_punt_rings :: u32
  pm_punt_ring_stride :: u32
  pm_punt_data_offset :: u32
  pm_egress_data_offset :: u32
  pm_egress_ring_offset :: u32
  pm_per_thread :: "osvbng_punt_per_thread_t list"
  pm_egress_ring :: osvbng_ring_header_t
  pm_egress_descs :: "nat \<Rightarrow> osvbng_egress_desc_t"
  pm_egress_tail :: u64
  pm_egress_transmitted :: u64
  pm_egress_alloc_fail :: u64
  pm_l2tpv2_input_next_arc :: u32
  pm_policer_rate :: "nat \<Rightarrow> real"
  pm_policer_burst :: "nat \<Rightarrow> u32"
  pm_events :: nat

definition OSVBNG_SHM_DEFAULT_PUNT_RING_SIZE :: u32 where "OSVBNG_SHM_DEFAULT_PUNT_RING_SIZE = 4096"
definition OSVBNG_SHM_DEFAULT_EGRESS_RING_SIZE :: u32 where "OSVBNG_SHM_DEFAULT_EGRESS_RING_SIZE = 4096"
definition OSVBNG_SHM_DEFAULT_SLOT_SIZE :: u32 where "OSVBNG_SHM_DEFAULT_SLOT_SIZE = 2048"

text \<open>The sizes of the records in the region, which the code asserts or takes with \<^verbatim>\<open>sizeof\<close>.\<close>

definition SIZEOF_SHM_HEADER :: u32 where "SIZEOF_SHM_HEADER = 64"
definition SIZEOF_RING_HEADER :: u32 where "SIZEOF_RING_HEADER = 64"
definition SIZEOF_PUNT_DESC :: u32 where "SIZEOF_PUNT_DESC = 24"
definition SIZEOF_EGRESS_DESC :: u32 where "SIZEOF_EGRESS_DESC = 12"

lemmas punt_sizeof_defs = SIZEOF_SHM_HEADER_def SIZEOF_RING_HEADER_def SIZEOF_PUNT_DESC_def SIZEOF_EGRESS_DESC_def

definition osvbng_punt_ring_stride :: "u32 \<Rightarrow> u32" where
  "osvbng_punt_ring_stride punt_ring_size = SIZEOF_RING_HEADER + punt_ring_size * SIZEOF_PUNT_DESC"

definition osvbng_shm_calc_size :: "u32 \<Rightarrow> u32 \<Rightarrow> u32 \<Rightarrow> u32 \<Rightarrow> u32" where
  "osvbng_shm_calc_size n_punt_rings punt_ring_size egress_ring_size slot_size =
     SIZEOF_SHM_HEADER + n_punt_rings * osvbng_punt_ring_stride punt_ring_size
   + SIZEOF_RING_HEADER + egress_ring_size * SIZEOF_EGRESS_DESC
   + n_punt_rings * punt_ring_size * slot_size + egress_ring_size * slot_size"

definition ring_zero :: osvbng_ring_header_t where
  "ring_zero = \<lparr>rh_head = 0, rh_tail = 0, rh_interrupt_pending = False\<rparr>"

definition punt_desc_zero :: osvbng_punt_desc_t where
  "punt_desc_zero = \<lparr>pd_data_offset = 0, pd_sw_if_index = 0, pd_data_length = 0, pd_protocol = 0, pd_flags = 0,
     pd_outer_vlan = 0, pd_inner_vlan = 0, pd_timestamp = 0\<rparr>"

text \<open>The state of a thread as \<^verbatim>\<open>osvbng_punt_shm_init\<close> leaves it; \<open>t\<close> is its index.\<close>

definition per_thread_init :: "osvbng_punt_main_t \<Rightarrow> u32 \<Rightarrow> u32 \<Rightarrow> osvbng_punt_per_thread_t" where
  "per_thread_init pm punt_ring_offset t =
     \<lparr>pt_ring = ring_zero,
      pt_ring_offset = unat punt_ring_offset + unat (t * pm_punt_ring_stride pm),
      pt_descs = (\<lambda>_. punt_desc_zero),
      pt_data = unat (pm_punt_data_offset pm)
        + unat (ucast t * ucast (pm_punt_ring_size pm) * ucast (pm_slot_size pm) :: u64),
      pt_rate = (\<lambda>_. 0), pt_burst = (\<lambda>_. 0), pt_tokens = (\<lambda>_. 0), pt_last_update = (\<lambda>_. 0),
      pt_punted = (\<lambda>_. 0), pt_dropped = (\<lambda>_. 0), pt_policed = (\<lambda>_. 0), pt_ring_full = 0, pt_truncated = 0\<rparr>"

definition or_default32 :: "u32 \<Rightarrow> u32 \<Rightarrow> u32" where
  "or_default32 d x = (if x = 0 then d else x)"

text \<open>
  The region and the pointers into it.  Whether the operating system gives the file, its size, the
  mapping and the two eventfds is \<open>os\<close>; on a refusal the function returns -1.
\<close>

definition osvbng_punt_shm_init :: "bool list \<Rightarrow> u32 \<Rightarrow> osvbng_punt_main_t \<Rightarrow> bool \<times> osvbng_punt_main_t" where
  "osvbng_punt_shm_init os n_threads pm0 =
     (let ps = or_default32 OSVBNG_SHM_DEFAULT_PUNT_RING_SIZE (pm_punt_ring_size pm0);
          es = or_default32 OSVBNG_SHM_DEFAULT_EGRESS_RING_SIZE (pm_egress_ring_size pm0);
          ss = or_default32 OSVBNG_SHM_DEFAULT_SLOT_SIZE (pm_slot_size pm0);
          pm1 = pm0\<lparr>pm_punt_ring_size := ps, pm_egress_ring_size := es, pm_slot_size := ss,
                    pm_n_punt_rings := n_threads, pm_punt_ring_stride := osvbng_punt_ring_stride ps\<rparr> in
      if False \<in> set (take 3 os) then (False, pm1)
      else
        let punt_ring_offset = SIZEOF_SHM_HEADER;
            egress_ring_offset = punt_ring_offset + n_threads * pm_punt_ring_stride pm1;
            punt_data_offset = egress_ring_offset + SIZEOF_RING_HEADER + es * SIZEOF_EGRESS_DESC;
            pm2 = pm1\<lparr>pm_shm_size := osvbng_shm_calc_size n_threads ps es ss, pm_mem := (\<lambda>_. 0),
                      pm_egress_ring_offset := egress_ring_offset, pm_egress_ring := ring_zero,
                      pm_egress_descs := (\<lambda>_. \<lparr>ed_data_offset = 0, ed_sw_if_index = 0, ed_data_length = 0\<rparr>),
                      pm_punt_data_offset := punt_data_offset,
                      pm_egress_data_offset := punt_data_offset + n_threads * ps * ss\<rparr>;
            pm3 = pm2\<lparr>pm_per_thread := map (\<lambda>t. per_thread_init pm2 punt_ring_offset (word_of_nat t)) [0..<unat n_threads]\<rparr> in
        if False \<in> set (drop 3 os) then (False, pm3) else (True, pm3\<lparr>pm_shm_initialized := True\<rparr>))"

section \<open>The policer\<close>

definition punt_default_rates :: "real list" where
  "punt_default_rates = [1000, 1000, 500, 1000, 1000, 500, 500, 1000]"

definition punt_default_bursts :: "u32 list" where
  "punt_default_bursts = [100, 100, 50, 100, 100, 50, 50, 100]"

definition osvbng_punt_policer_init :: "osvbng_punt_main_t \<Rightarrow> osvbng_punt_main_t" where
  "osvbng_punt_policer_init pm =
     pm\<lparr>pm_policer_rate := (\<lambda>i. if i < OSVBNG_PUNT_N_PROTO then punt_default_rates ! i else pm_policer_rate pm i),
        pm_policer_burst := (\<lambda>i. if i < OSVBNG_PUNT_N_PROTO then punt_default_bursts ! i else pm_policer_burst pm i)\<rparr>"

definition policer_share :: "osvbng_punt_main_t \<Rightarrow> real \<Rightarrow> osvbng_punt_per_thread_t \<Rightarrow> osvbng_punt_per_thread_t" where
  "policer_share pm now pt =
     (let burst = (\<lambda>i. if real (unat (pm_policer_burst pm i)) < 1 then 1 else real (unat (pm_policer_burst pm i)));
          set = (\<lambda>f g i. if i < OSVBNG_PUNT_N_PROTO then f i else g i) in
      pt\<lparr>pt_rate := set (\<lambda>i. pm_policer_rate pm i / real (length (pm_per_thread pm))) (pt_rate pt),
         pt_burst := set burst (pt_burst pt), pt_tokens := set burst (pt_tokens pt),
         pt_last_update := set (\<lambda>_. now) (pt_last_update pt)\<rparr>)"

text \<open>The clock is read for every bucket; within one call it is taken to stand still.\<close>

definition osvbng_punt_policer_apply :: "real \<Rightarrow> osvbng_punt_main_t \<Rightarrow> osvbng_punt_main_t" where
  "osvbng_punt_policer_apply now pm = pm\<lparr>pm_per_thread := map (policer_share pm now) (pm_per_thread pm)\<rparr>"

definition osvbng_punt_policer_configure ::
  "real \<Rightarrow> nat \<Rightarrow> real \<Rightarrow> u32 \<Rightarrow> osvbng_punt_main_t \<Rightarrow> bool \<times> osvbng_punt_main_t"
where
  "osvbng_punt_policer_configure now protocol rate burst pm =
     (if OSVBNG_PUNT_N_PROTO \<le> protocol then (False, pm)
      else
        let pm1 = pm\<lparr>pm_policer_rate := (pm_policer_rate pm)(protocol := rate)\<rparr>;
            pm2 = (if burst > 0 then pm1\<lparr>pm_policer_burst := (pm_policer_burst pm1)(protocol := burst)\<rparr> else pm1) in
        (True, osvbng_punt_policer_apply now pm2))"

definition osvbng_punt_policer_allow ::
  "osvbng_punt_per_thread_t \<Rightarrow> real \<Rightarrow> nat \<Rightarrow> bool \<times> osvbng_punt_per_thread_t"
where
  "osvbng_punt_policer_allow pt now protocol =
     (if pt_rate pt protocol = 0 then (True, pt)
      else
        let elapsed = now - pt_last_update pt protocol;
            filled = pt_tokens pt protocol + elapsed * pt_rate pt protocol;
            tokens = (if filled > pt_burst pt protocol then pt_burst pt protocol else filled);
            pt1 = pt\<lparr>pt_last_update := (pt_last_update pt)(protocol := now)\<rparr> in
        if tokens \<ge> 1 then (True, pt1\<lparr>pt_tokens := (pt_tokens pt)(protocol := tokens - 1)\<rparr>)
        else (False, pt1\<lparr>pt_tokens := (pt_tokens pt)(protocol := tokens),
                         pt_policed := (pt_policed pt)(protocol := pt_policed pt protocol + 1)\<rparr>))"

section \<open>The punt path\<close>

definition mem_write :: "nat \<Rightarrow> u8 list \<Rightarrow> (nat \<Rightarrow> u8) \<Rightarrow> nat \<Rightarrow> u8" where
  "mem_write a bs mem = (\<lambda>i. if a \<le> i \<and> i < a + length bs then bs ! (i - a) else mem i)"

definition osvbng_ring_has_space :: "osvbng_ring_header_t \<Rightarrow> u32 \<Rightarrow> u32 \<Rightarrow> bool" where
  "osvbng_ring_has_space ring ring_size n \<longleftrightarrow> rh_head ring - rh_tail ring + ucast n \<le> ucast ring_size"

definition osvbng_ring_has_data :: "osvbng_ring_header_t \<Rightarrow> u32 \<Rightarrow> bool" where
  "osvbng_ring_has_data ring n \<longleftrightarrow> rh_head ring - rh_tail ring \<ge> ucast n"

definition osvbng_ring_count :: "osvbng_ring_header_t \<Rightarrow> u64" where
  "osvbng_ring_count ring = rh_head ring - rh_tail ring"

text \<open>The slot of a position: \<^verbatim>\<open>position & (size - 1)\<close>, the mask computed in 32 bits.\<close>

definition punt_slot :: "u32 \<Rightarrow> u64 \<Rightarrow> nat" where
  "punt_slot ring_size pos = unat (ucast (pos AND ucast (ring_size - 1)) :: u32)"

text \<open>The part of the punt path behind the policer, for one thread: the ring is full, or the frame is queued.\<close>

definition punt_publish ::
  "osvbng_punt_main_t \<Rightarrow> real \<Rightarrow> u8 list \<Rightarrow> u32 \<Rightarrow> nat \<Rightarrow> u16 \<Rightarrow> u16 \<Rightarrow> osvbng_punt_per_thread_t \<Rightarrow>
   bool \<times> (nat \<Rightarrow> u8) \<times> bool \<times> osvbng_punt_per_thread_t"
where
  "punt_publish pm now frame sw_if_index protocol outer_vlan inner_vlan pt =
     (let head = rh_head (pt_ring pt); tail = rh_tail (pt_ring pt) in
      if head - tail \<ge> ucast (pm_punt_ring_size pm) then
        (False, pm_mem pm, False,
         pt\<lparr>pt_ring_full := pt_ring_full pt + 1, pt_dropped := (pt_dropped pt)(protocol := pt_dropped pt protocol + 1)\<rparr>)
      else
        let slot = punt_slot (pm_punt_ring_size pm) head;
            truncate = (length frame > unat (pm_slot_size pm));
            len = (if truncate then unat (pm_slot_size pm) else length frame);
            a = pt_data pt + slot * unat (pm_slot_size pm);
            desc = \<lparr>pd_data_offset = word_of_nat a, pd_sw_if_index = sw_if_index, pd_data_length = word_of_nat len,
                    pd_protocol = word_of_nat protocol, pd_flags = 0, pd_outer_vlan = outer_vlan,
                    pd_inner_vlan = inner_vlan, pd_timestamp = word_of_int \<lfloor>now * 1000000000\<rfloor>\<rparr> in
        (True, mem_write a (take len frame) (pm_mem pm), \<not> rh_interrupt_pending (pt_ring pt),
         pt\<lparr>pt_truncated := (if truncate then pt_truncated pt + 1 else pt_truncated pt),
            pt_descs := (pt_descs pt)(slot := desc),
            pt_ring := (pt_ring pt)\<lparr>rh_head := head + 1, rh_interrupt_pending := True\<rparr>,
            pt_punted := (pt_punted pt)(protocol := pt_punted pt protocol + 1)\<rparr>))"

text \<open>
  \<open>thread\<close> is the calling thread and \<open>frame\<close> the bytes of the first buffer from its current
  position; True is the return value 0.
\<close>

definition osvbng_punt_to_shm ::
  "nat \<Rightarrow> real \<Rightarrow> u8 list \<Rightarrow> u32 \<Rightarrow> nat \<Rightarrow> u16 \<Rightarrow> u16 \<Rightarrow> osvbng_punt_main_t \<Rightarrow> bool \<times> osvbng_punt_main_t"
where
  "osvbng_punt_to_shm thread now frame sw_if_index protocol outer_vlan inner_vlan pm =
     (if \<not> pm_shm_initialized pm \<or> length (pm_per_thread pm) \<le> thread then (False, pm)
      else case osvbng_punt_policer_allow (pm_per_thread pm ! thread) now protocol of (allowed, pt) \<Rightarrow>
        if \<not> allowed then (False, pm\<lparr>pm_per_thread := (pm_per_thread pm)[thread := pt]\<rparr>)
        else case punt_publish pm now frame sw_if_index protocol outer_vlan inner_vlan pt of (ok, mem, signal, pt') \<Rightarrow>
          (ok, pm\<lparr>pm_per_thread := (pm_per_thread pm)[thread := pt'], pm_mem := mem,
                  pm_events := (if signal then Suc (pm_events pm) else pm_events pm)\<rparr>))"

definition osvbng_punt_send_packet ::
  "nat \<Rightarrow> real \<Rightarrow> u8 list \<Rightarrow> u32 \<Rightarrow> nat \<Rightarrow> osvbng_punt_main_t \<Rightarrow> bool \<times> osvbng_punt_main_t"
where
  "osvbng_punt_send_packet thread now frame sw_if_index protocol pm =
     osvbng_punt_to_shm thread now frame sw_if_index protocol 0 0 pm"

end
