(* ===== verification/Punt_Nodes.thy ===== *)
theory Punt_Nodes
  imports Punt
begin

text \<open>
  The punt plugin's configuration (which interface punts which protocol), its classifier nodes and
  the egress node.  What vnet knows of interfaces and FIBs is a parameter; requests to VPP are
  effects.  The worker barriers around the changes make each of them one step.
\<close>

section \<open>Enabling\<close>

datatype punt_effect =
    Udp_Register nat bool | Udp_Unregister nat bool | Icmp6_Register nat
  | Bcast_Add u32 | Bcast_Remove u32

record punt_ext =
  px_fib_of :: "u32 \<Rightarrow> u32"
  px_sup :: "u32 \<Rightarrow> u32 option"
  px_l2tpv2_arc :: "u32 option"

datatype punt_rv = PUNT_OK | PUNT_INVALID_VALUE | PUNT_INVALID_SW_IF_INDEX | PUNT_INIT_FAILED

type_synonym punt_op = "punt_effect list \<times> osvbng_punt_main_t"

definition osvbng_punt_dhcp_bcast_route :: "punt_ext \<Rightarrow> u32 \<Rightarrow> bool \<Rightarrow> osvbng_punt_main_t \<Rightarrow> punt_op" where
  "osvbng_punt_dhcp_bcast_route x sw_if_index enable pm =
     (let fib_index = px_fib_of x sw_if_index; refs = pm_dhcp_bcast_refs pm in
      if enable then
        (case refs fib_index of
           None \<Rightarrow> ([Bcast_Add fib_index], pm\<lparr>pm_dhcp_bcast_refs := refs(fib_index \<mapsto> 1)\<rparr>)
         | Some count \<Rightarrow> ([], pm\<lparr>pm_dhcp_bcast_refs := refs(fib_index \<mapsto> count + 1)\<rparr>))
      else
        (case refs fib_index of
           None \<Rightarrow> ([], pm)
         | Some count \<Rightarrow>
             if count \<le> 1 then ([Bcast_Remove fib_index], pm\<lparr>pm_dhcp_bcast_refs := refs(fib_index := None)\<rparr>)
             else ([], pm\<lparr>pm_dhcp_bcast_refs := refs(fib_index \<mapsto> count - 1)\<rparr>)))"

definition punt_set_enabled :: "nat \<Rightarrow> u32 \<Rightarrow> osvbng_punt_main_t \<Rightarrow> osvbng_punt_main_t" where
  "punt_set_enabled protocol sw pm = pm\<lparr>pm_enabled := (pm_enabled pm)(protocol := insert sw (pm_enabled pm protocol))\<rparr>"

definition punt_unset_enabled :: "nat \<Rightarrow> u32 \<Rightarrow> osvbng_punt_main_t \<Rightarrow> osvbng_punt_main_t" where
  "punt_unset_enabled protocol sw pm = pm\<lparr>pm_enabled := (pm_enabled pm)(protocol := pm_enabled pm protocol - {sw})\<rparr>"

text \<open>The port registrations go when the last interface does.\<close>

definition punt_last_gone :: "nat \<Rightarrow> punt_effect list \<Rightarrow> osvbng_punt_main_t \<Rightarrow> punt_effect list" where
  "punt_last_gone protocol fx pm = (if pm_enabled pm protocol = {} then fx else [])"

definition osvbng_punt_enable_dhcpv4 :: "punt_ext \<Rightarrow> u32 \<Rightarrow> osvbng_punt_main_t \<Rightarrow> punt_op" where
  "osvbng_punt_enable_dhcpv4 x sw pm =
     (case osvbng_punt_dhcp_bcast_route x sw True (punt_set_enabled OSVBNG_PUNT_PROTO_DHCPV4 sw pm) of
        (fx, pm') \<Rightarrow> ([Udp_Register 67 True, Udp_Register 68 True] @ fx, pm'))"

definition osvbng_punt_disable_dhcpv4 :: "punt_ext \<Rightarrow> u32 \<Rightarrow> osvbng_punt_main_t \<Rightarrow> punt_op" where
  "osvbng_punt_disable_dhcpv4 x sw pm =
     (case osvbng_punt_dhcp_bcast_route x sw False (punt_unset_enabled OSVBNG_PUNT_PROTO_DHCPV4 sw pm) of
        (fx, pm') \<Rightarrow> (fx @ punt_last_gone OSVBNG_PUNT_PROTO_DHCPV4 [Udp_Unregister 67 True, Udp_Unregister 68 True] pm', pm'))"

definition osvbng_punt_enable_dhcpv6 :: "u32 \<Rightarrow> osvbng_punt_main_t \<Rightarrow> punt_op" where
  "osvbng_punt_enable_dhcpv6 sw pm =
     ([Udp_Register 546 False, Udp_Register 547 False], punt_set_enabled OSVBNG_PUNT_PROTO_DHCPV6 sw pm)"

definition osvbng_punt_disable_dhcpv6 :: "u32 \<Rightarrow> osvbng_punt_main_t \<Rightarrow> punt_op" where
  "osvbng_punt_disable_dhcpv6 sw pm =
     (let pm' = punt_unset_enabled OSVBNG_PUNT_PROTO_DHCPV6 sw pm in
      (punt_last_gone OSVBNG_PUNT_PROTO_DHCPV6 [Udp_Unregister 546 False, Udp_Unregister 547 False] pm', pm'))"

definition osvbng_punt_l2tp_resolve_next_arc :: "punt_ext \<Rightarrow> osvbng_punt_main_t \<Rightarrow> osvbng_punt_main_t" where
  "osvbng_punt_l2tp_resolve_next_arc x pm =
     (if pm_l2tpv2_input_next_arc pm \<noteq> nil32 then pm
      else case px_l2tpv2_arc x of None \<Rightarrow> pm | Some arc \<Rightarrow> pm\<lparr>pm_l2tpv2_input_next_arc := arc\<rparr>)"

definition osvbng_punt_enable_l2tp :: "punt_ext \<Rightarrow> u32 \<Rightarrow> osvbng_punt_main_t \<Rightarrow> punt_op" where
  "osvbng_punt_enable_l2tp x sw pm =
     ([Udp_Register 1701 True], punt_set_enabled OSVBNG_PUNT_PROTO_L2TP sw (osvbng_punt_l2tp_resolve_next_arc x pm))"

definition osvbng_punt_disable_l2tp :: "u32 \<Rightarrow> osvbng_punt_main_t \<Rightarrow> punt_op" where
  "osvbng_punt_disable_l2tp sw pm =
     (let pm' = punt_unset_enabled OSVBNG_PUNT_PROTO_L2TP sw pm in
      (punt_last_gone OSVBNG_PUNT_PROTO_L2TP [Udp_Unregister 1701 True] pm', pm'))"

definition ICMP6_router_solicitation :: nat where "ICMP6_router_solicitation = 133"
definition ICMP6_neighbor_solicitation :: nat where "ICMP6_neighbor_solicitation = 135"

definition osvbng_punt_enable_ipv6_nd :: "u32 \<Rightarrow> osvbng_punt_main_t \<Rightarrow> punt_op" where
  "osvbng_punt_enable_ipv6_nd sw pm =
     ([Icmp6_Register ICMP6_router_solicitation, Icmp6_Register ICMP6_neighbor_solicitation],
      punt_set_enabled OSVBNG_PUNT_PROTO_IPV6_ND sw pm)"

definition osvbng_punt_disable_ipv6_nd :: "u32 \<Rightarrow> osvbng_punt_main_t \<Rightarrow> punt_op" where
  "osvbng_punt_disable_ipv6_nd sw pm = ([], punt_unset_enabled OSVBNG_PUNT_PROTO_IPV6_ND sw pm)"

definition osvbng_punt_enable_disable ::
  "(u32 \<Rightarrow> bool) \<Rightarrow> u32 \<Rightarrow> nat \<Rightarrow> bool \<Rightarrow> osvbng_punt_main_t \<Rightarrow> punt_rv \<times> osvbng_punt_main_t"
where
  "osvbng_punt_enable_disable sw_if_live sw protocol enable pm =
     (if OSVBNG_PUNT_N_PROTO \<le> protocol then (PUNT_INVALID_VALUE, pm)
      else if \<not> sw_if_live sw then (PUNT_INVALID_SW_IF_INDEX, pm)
      else if \<not> pm_shm_initialized pm then (PUNT_INIT_FAILED, pm)
      else (PUNT_OK, if enable then punt_set_enabled protocol sw pm else punt_unset_enabled protocol sw pm))"

definition api_punt_enable_disable ::
  "punt_ext \<Rightarrow> (u32 \<Rightarrow> bool) \<Rightarrow> u32 \<Rightarrow> nat \<Rightarrow> bool \<Rightarrow> osvbng_punt_main_t \<Rightarrow> punt_rv \<times> punt_effect list \<times> osvbng_punt_main_t"
where
  "api_punt_enable_disable x sw_if_live sw protocol enable pm =
     (if \<not> sw_if_live sw then (PUNT_INVALID_SW_IF_INDEX, [], pm)
      else if protocol = OSVBNG_PUNT_PROTO_DHCPV4 then
        (PUNT_OK, if enable then osvbng_punt_enable_dhcpv4 x sw pm else osvbng_punt_disable_dhcpv4 x sw pm)
      else if protocol = OSVBNG_PUNT_PROTO_DHCPV6 then
        (PUNT_OK, if enable then osvbng_punt_enable_dhcpv6 sw pm else osvbng_punt_disable_dhcpv6 sw pm)
      else if protocol = OSVBNG_PUNT_PROTO_L2TP then
        (PUNT_OK, if enable then osvbng_punt_enable_l2tp x sw pm else osvbng_punt_disable_l2tp sw pm)
      else if protocol = OSVBNG_PUNT_PROTO_IPV6_ND then
        (PUNT_OK, if enable then osvbng_punt_enable_ipv6_nd sw pm else osvbng_punt_disable_ipv6_nd sw pm)
      else case osvbng_punt_enable_disable sw_if_live sw protocol enable pm of (rv, pm') \<Rightarrow> (rv, [], pm'))"

definition punt_stats_dump :: "osvbng_punt_main_t \<Rightarrow> (u64 \<times> u64 \<times> u64 \<times> real \<times> u32) list" where
  "punt_stats_dump pm =
     map (\<lambda>i. (\<Sum>pt\<leftarrow>pm_per_thread pm. pt_punted pt i, \<Sum>pt\<leftarrow>pm_per_thread pm. pt_dropped pt i,
              \<Sum>pt\<leftarrow>pm_per_thread pm. pt_policed pt i, pm_policer_rate pm i, pm_policer_burst pm i))
       [0..<OSVBNG_PUNT_N_PROTO]"

section \<open>Classifier nodes\<close>

record punt_buf =
  bf_sw_if_index :: u32
  bf_data :: "int \<Rightarrow> u8"
  bf_current_data :: int
  bf_current_length :: u16
  bf_vlan_1_deep :: bool
  bf_vlan_2_deep :: bool
  bf_l2_hdr_offset_valid :: bool
  bf_l2_hdr_offset :: int
  bf_punt_protocol :: u32

text \<open>VPP's two moves of a buffer's current position, as VPP documents them.\<close>

definition vlib_buffer_advance :: "int \<Rightarrow> 'a punt_buf_scheme \<Rightarrow> 'a punt_buf_scheme" where
  "vlib_buffer_advance l b =
     b\<lparr>bf_current_data := bf_current_data b + l, bf_current_length := bf_current_length b - word_of_int l\<rparr>"

definition vlib_buffer_reset :: "'a punt_buf_scheme \<Rightarrow> 'a punt_buf_scheme" where
  "vlib_buffer_reset b =
     b\<lparr>bf_current_length := bf_current_length b + word_of_int (max (bf_current_data b) 0), bf_current_data := 0\<rparr>"

definition bf_frame :: "'a punt_buf_scheme \<Rightarrow> u8 list" where
  "bf_frame b = map (\<lambda>i. bf_data b (bf_current_data b + int i)) [0..<unat (bf_current_length b)]"

text \<open>The rewind over the Ethernet header and the tags, from a position \<open>base\<close> bytes behind them.\<close>

definition punt_rewind :: "int \<Rightarrow> 'a punt_buf_scheme \<Rightarrow> 'a punt_buf_scheme" where
  "punt_rewind base b =
     vlib_buffer_advance (- (base + 14 + (if bf_vlan_2_deep b then 8 else if bf_vlan_1_deep b then 4 else 0))) b"

definition punt_to_l2 :: "'a punt_buf_scheme \<Rightarrow> 'a punt_buf_scheme" where
  "punt_to_l2 b =
     (if bf_l2_hdr_offset_valid b then vlib_buffer_advance (bf_l2_hdr_offset b - bf_current_data b) b
      else vlib_buffer_reset b)"

datatype punt_next = PUNT_DROP | PUNT_ARP_INPUT | PUNT_PASSTHROUGH_RS | PUNT_PASSTHROUGH_NS | PUNT_PPPOE_INPUT | PUNT_ARC u32

type_synonym punt_node = "punt_buf \<Rightarrow> osvbng_punt_main_t \<Rightarrow> punt_next \<times> punt_buf \<times> osvbng_punt_main_t"

text \<open>Thread and clock of the call.\<close>

definition punt_send :: "nat \<Rightarrow> real \<Rightarrow> nat \<Rightarrow> punt_buf \<Rightarrow> osvbng_punt_main_t \<Rightarrow> osvbng_punt_main_t" where
  "punt_send thread now protocol b pm =
     snd (osvbng_punt_send_packet thread now (bf_frame b) (bf_sw_if_index b) protocol pm)"

text \<open>Enabled on the interface, or on the one it is parented to.\<close>

definition punt_enabled_or_sup :: "punt_ext \<Rightarrow> nat \<Rightarrow> u32 \<Rightarrow> osvbng_punt_main_t \<Rightarrow> bool" where
  "punt_enabled_or_sup x protocol sw pm \<longleftrightarrow>
     sw \<in> pm_enabled pm protocol
   \<or> (case px_sup x sw of None \<Rightarrow> False | Some parent \<Rightarrow> parent \<noteq> sw \<and> parent \<in> pm_enabled pm protocol)"

definition osvbng_punt_dhcp_one :: "punt_ext \<Rightarrow> nat \<Rightarrow> real \<Rightarrow> punt_node" where
  "osvbng_punt_dhcp_one x thread now b pm =
     (if \<not> punt_enabled_or_sup x OSVBNG_PUNT_PROTO_DHCPV4 (bf_sw_if_index b) pm then (PUNT_DROP, b, pm)
      else let b1 = punt_rewind 28 b in (PUNT_DROP, b1, punt_send thread now OSVBNG_PUNT_PROTO_DHCPV4 b1 pm))"

definition osvbng_punt_dhcp6_one :: "punt_ext \<Rightarrow> nat \<Rightarrow> real \<Rightarrow> punt_node" where
  "osvbng_punt_dhcp6_one x thread now b pm =
     (if \<not> punt_enabled_or_sup x OSVBNG_PUNT_PROTO_DHCPV6 (bf_sw_if_index b) pm then (PUNT_DROP, b, pm)
      else let b1 = punt_rewind 48 b in (PUNT_DROP, b1, punt_send thread now OSVBNG_PUNT_PROTO_DHCPV6 b1 pm))"

definition osvbng_punt_arp_one :: "nat \<Rightarrow> real \<Rightarrow> punt_node" where
  "osvbng_punt_arp_one thread now b pm =
     (if bf_sw_if_index b \<in> pm_enabled pm OSVBNG_PUNT_PROTO_ARP then
        let b1 = punt_to_l2 b in (PUNT_DROP, b1, punt_send thread now OSVBNG_PUNT_PROTO_ARP b1 pm)
      else (PUNT_ARP_INPUT, b, pm))"

definition osvbng_punt_pppoe_disc_one :: "nat \<Rightarrow> real \<Rightarrow> punt_node" where
  "osvbng_punt_pppoe_disc_one thread now b pm =
     (if bf_sw_if_index b \<in> pm_enabled pm OSVBNG_PUNT_PROTO_PPPOE_DISCOVERY then
        let b1 = punt_to_l2 b in (PUNT_DROP, b1, punt_send thread now OSVBNG_PUNT_PROTO_PPPOE_DISCOVERY b1 pm)
      else (PUNT_DROP, b, pm))"

definition osvbng_punt_ipv6_nd_one :: "nat \<Rightarrow> real \<Rightarrow> punt_node" where
  "osvbng_punt_ipv6_nd_one thread now b pm =
     (if bf_sw_if_index b \<in> pm_enabled pm OSVBNG_PUNT_PROTO_IPV6_ND then
        let b1 = punt_rewind 0 b in (PUNT_DROP, b1, punt_send thread now OSVBNG_PUNT_PROTO_IPV6_ND b1 pm)
      else if unat (bf_data b (bf_current_data b + 40)) = ICMP6_neighbor_solicitation
      then (PUNT_PASSTHROUGH_NS, b, pm) else (PUNT_PASSTHROUGH_RS, b, pm))"

definition L2TPV2_FLAG_T_MASK :: u8 where "L2TPV2_FLAG_T_MASK = 0x80"

definition osvbng_punt_l2tp_one :: "nat \<Rightarrow> real \<Rightarrow> punt_node" where
  "osvbng_punt_l2tp_one thread now b pm =
     (let is_control = bf_data b (bf_current_data b) AND L2TPV2_FLAG_T_MASK \<noteq> 0 in
      if is_control \<and> bf_sw_if_index b \<notin> pm_enabled pm OSVBNG_PUNT_PROTO_L2TP then (PUNT_DROP, b, pm)
      else if is_control then
        let b1 = punt_rewind 28 b in (PUNT_DROP, b1, punt_send thread now OSVBNG_PUNT_PROTO_L2TP b1 pm)
      else if pm_l2tpv2_input_next_arc pm \<noteq> nil32 then (PUNT_ARC (pm_l2tpv2_input_next_arc pm), b, pm)
      else (PUNT_DROP, b, pm))"

definition osvbng_punt_pppoe_sess_one :: punt_node where
  "osvbng_punt_pppoe_sess_one b pm = (PUNT_PPPOE_INPUT, b, pm)"

definition osvbng_punt_shm_tx_one :: "nat \<Rightarrow> real \<Rightarrow> punt_node" where
  "osvbng_punt_shm_tx_one thread now b pm = (PUNT_DROP, b, punt_send thread now (unat (bf_punt_protocol b)) b pm)"

text \<open>A frame of packets through a node, in order; the doubled loop of one node does the same.\<close>

fun punt_node_frame ::
  "punt_node \<Rightarrow> punt_buf list \<Rightarrow> osvbng_punt_main_t \<Rightarrow> (punt_next \<times> punt_buf) list \<times> osvbng_punt_main_t"
where
  "punt_node_frame one [] pm = ([], pm)"
| "punt_node_frame one (b # bs) pm =
     (case one b pm of (next, b', pm1) \<Rightarrow>
      case punt_node_frame one bs pm1 of (os, pm2) \<Rightarrow> ((next, b') # os, pm2))"

section \<open>Egress\<close>

definition OSVBNG_EGRESS_MAX_BATCH :: nat where "OSVBNG_EGRESS_MAX_BATCH = 256"
definition OSVBNG_EGRESS_MAX_IFS :: nat where "OSVBNG_EGRESS_MAX_IFS = 8"
definition VLIB_FRAME_SIZE :: nat where "VLIB_FRAME_SIZE = 256"

text \<open>
  Of an interface: None when its index is free, else whether it is up and hidden.  The output node
  of its hardware interface; the default buffer size; whether the n-th buffer can be had.
\<close>

record egress_ext =
  ex_interface :: "u32 \<Rightarrow> (bool \<times> bool) option"
  ex_output_node :: "u32 \<Rightarrow> u32 option"
  ex_max_len :: nat
  ex_alloc :: "nat \<Rightarrow> bool"

type_synonym egress_frame = "u32 \<times> u8 list"

text \<open>The node and the frame of a descriptor, when its interface can send.\<close>

definition egress_target :: "egress_ext \<Rightarrow> osvbng_egress_desc_t \<Rightarrow> u32 option" where
  "egress_target x d =
     (case ex_interface x (ed_sw_if_index d) of
        None \<Rightarrow> None
      | Some (up, hidden) \<Rightarrow> if \<not> up \<or> hidden then None else ex_output_node x (ed_sw_if_index d))"

definition egress_bytes :: "egress_ext \<Rightarrow> (nat \<Rightarrow> u8) \<Rightarrow> osvbng_egress_desc_t \<Rightarrow> egress_frame" where
  "egress_bytes x mem d =
     (let len = (if unat (ed_data_length d) > ex_max_len x then ex_max_len x else unat (ed_data_length d)) in
      (ed_sw_if_index d, map mem [unat (ed_data_offset d)..<unat (ed_data_offset d) + len]))"

type_synonym egress_batch = "(u32 \<times> egress_frame list) list"

text \<open>\<^verbatim>\<open>*p = pending[--n_pending]\<close>\<close>

definition egress_swap_out :: "nat \<Rightarrow> 'a list \<Rightarrow> 'a list" where
  "egress_swap_out i pending = (if i = length pending - 1 then butlast pending else (butlast pending)[i := last pending])"

definition egress_find :: "u32 \<Rightarrow> egress_batch \<Rightarrow> nat option" where
  "egress_find node pending = List.find (\<lambda>i. fst (pending ! i) = node) [0..<length pending]"

text \<open>A buffer joins the frame of its node; \<open>puts\<close> are the frames handed over so far.\<close>

definition egress_join ::
  "u32 \<Rightarrow> egress_frame \<Rightarrow> egress_batch \<Rightarrow> egress_batch \<Rightarrow> egress_batch \<times> egress_batch"
where
  "egress_join node f pending puts =
     (case egress_find node pending of
        None \<Rightarrow>
          if OSVBNG_EGRESS_MAX_IFS \<le> length pending then (pending, puts @ [(node, [f])])
          else (pending @ [(node, [f])], puts)
      | Some i \<Rightarrow>
          let fs = snd (pending ! i) @ [f] in
          if VLIB_FRAME_SIZE \<le> length fs then (egress_swap_out i pending, puts @ [(node, fs)])
          else (pending[i := (node, fs)], puts))"

record egress_run =
  er_tail :: u64
  er_n_tx :: nat
  er_pending :: egress_batch
  er_puts :: egress_batch
  er_alloc_fail :: bool

lemma egress_measure: "tail \<noteq> head \<Longrightarrow> unat (head - (tail + 1)) < unat (head - tail :: u64)"
  using unat_minus_one [of "head - tail"] by (simp add: diff_diff_eq unat_gt_0)

function egress_loop :: "egress_ext \<Rightarrow> osvbng_punt_main_t \<Rightarrow> u64 \<Rightarrow> egress_run \<Rightarrow> egress_run" where
  "egress_loop x pm head r =
     (if er_tail r \<noteq> head \<and> er_n_tx r < OSVBNG_EGRESS_MAX_BATCH then
        let d = pm_egress_descs pm (punt_slot (pm_egress_ring_size pm) (er_tail r)) in
        case egress_target x d of
          None \<Rightarrow> egress_loop x pm head (r\<lparr>er_tail := er_tail r + 1\<rparr>)
        | Some node \<Rightarrow>
            if \<not> ex_alloc x (er_n_tx r) then r\<lparr>er_alloc_fail := True\<rparr>
            else case egress_join node (egress_bytes x (pm_mem pm) d) (er_pending r) (er_puts r) of (pending, puts) \<Rightarrow>
              egress_loop x pm head
                (r\<lparr>er_tail := er_tail r + 1, er_n_tx := Suc (er_n_tx r), er_pending := pending, er_puts := puts\<rparr>)
      else r)"
  by pat_completeness auto
termination
  by (relation "measure (\<lambda>(x, pm, head, r). unat (head - er_tail r))") (simp_all add: egress_measure)

declare egress_loop.simps [simp del]

text \<open>
  The number of frames sent, the frames handed to each node in order, whether the node interrupts
  itself, and the state.  \<open>head'\<close> is the head the node reads again at its end.
\<close>

definition osvbng_egress_node ::
  "egress_ext \<Rightarrow> u64 \<Rightarrow> osvbng_punt_main_t \<Rightarrow> nat \<times> egress_batch \<times> bool \<times> osvbng_punt_main_t"
where
  "osvbng_egress_node x head' pm =
     (if \<not> pm_shm_initialized pm then (0, [], False, pm)
      else
        let r = egress_loop x pm (rh_head (pm_egress_ring pm))
                  \<lparr>er_tail = pm_egress_tail pm, er_n_tx = 0, er_pending = [], er_puts = [], er_alloc_fail = False\<rparr> in
        (er_n_tx r, er_puts r @ er_pending r, head' \<noteq> er_tail r,
         pm\<lparr>pm_egress_tail := er_tail r,
            pm_egress_ring := (pm_egress_ring pm)\<lparr>rh_head := head', rh_tail := er_tail r, rh_interrupt_pending := False\<rparr>,
            pm_egress_transmitted := pm_egress_transmitted pm + word_of_nat (er_n_tx r),
            pm_egress_alloc_fail := pm_egress_alloc_fail pm + (if er_alloc_fail r then 1 else 0)\<rparr>))"

definition osvbng_punt_egress_init :: "bool \<Rightarrow> osvbng_punt_main_t \<Rightarrow> bool \<times> osvbng_punt_main_t" where
  "osvbng_punt_egress_init eventfd_ok pm =
     (if \<not> pm_shm_initialized pm \<or> \<not> eventfd_ok then (False, pm)
      else (True, pm\<lparr>pm_egress_tail := 0, pm_egress_transmitted := 0, pm_egress_alloc_fail := 0\<rparr>))"

end
