(* ===== verification/Punt_Ring.thy ===== *)
theory Punt_Ring
  imports Punt_Nodes
begin

text \<open>
  The shared region of the punt plugin: its parts tile it, and every punt ring is a first-in
  first-out queue of frames between the thread that owns it and the control plane.
\<close>

section \<open>The layout\<close>

text \<open>A list of regions, each a start and a length, that covers \<open>a\<close> to \<open>e\<close> without gap or overlap.\<close>

fun tiles :: "nat \<Rightarrow> (nat \<times> nat) list \<Rightarrow> nat \<Rightarrow> bool" where
  "tiles a [] e \<longleftrightarrow> a = e"
| "tiles a ((s, l) # rs) e \<longleftrightarrow> s = a \<and> tiles (a + l) rs e"

definition punt_regions :: "osvbng_punt_main_t \<Rightarrow> (nat \<times> nat) list" where
  "punt_regions pm =
     [(0, 64)]
   @ map (\<lambda>pt. (pt_ring_offset pt, 64 + 24 * unat (pm_punt_ring_size pm))) (pm_per_thread pm)
   @ [(unat (pm_egress_ring_offset pm), 64 + 12 * unat (pm_egress_ring_size pm))]
   @ concat (map (\<lambda>pt. map (\<lambda>i. (pt_data pt + i * unat (pm_slot_size pm), unat (pm_slot_size pm)))
        [0..<unat (pm_punt_ring_size pm)]) (pm_per_thread pm))
   @ map (\<lambda>i. (unat (pm_egress_data_offset pm) + i * unat (pm_slot_size pm), unat (pm_slot_size pm)))
        [0..<unat (pm_egress_ring_size pm)]"

text \<open>The size of the region over the naturals.\<close>

definition punt_total :: "nat \<Rightarrow> nat \<Rightarrow> nat \<Rightarrow> nat \<Rightarrow> nat" where
  "punt_total n ps es ss = 64 + n * (64 + 24 * ps) + 64 + 12 * es + n * ps * ss + es * ss"

definition punt_fits :: "osvbng_punt_main_t \<Rightarrow> bool" where
  "punt_fits pm \<longleftrightarrow>
     punt_total (unat (pm_n_punt_rings pm)) (unat (pm_punt_ring_size pm)) (unat (pm_egress_ring_size pm))
       (unat (pm_slot_size pm)) < 2 ^ 32"

lemma tiles_append: "tiles a (xs @ ys) e \<longleftrightarrow> (\<exists>m. tiles a xs m \<and> tiles m ys e)"
  by (induction xs arbitrary: a) auto

lemma tiles_appendI: "tiles a xs m \<Longrightarrow> tiles m ys e \<Longrightarrow> tiles a (xs @ ys) e"
  by (auto simp: tiles_append)

lemma tiles_stride: "tiles a (map (\<lambda>i. (a + i * l, l)) [0..<n]) (a + n * l)"
  by (induction n) (auto simp: tiles_append)

lemma tiles_concat:
  "(\<And>t. t < n \<Longrightarrow> tiles (a + t * l) (f t) (a + Suc t * l)) \<Longrightarrow> tiles a (concat (map f [0..<n])) (a + n * l)"
  by (induction n) (auto simp: tiles_append)

lemma unat_of_nat_u32: "n < 2 ^ 32 \<Longrightarrow> unat (word_of_nat n :: u32) = n"
  by (simp add: unat_of_nat)

lemma unat_of_nat_u64: "n < 2 ^ 64 \<Longrightarrow> unat (word_of_nat n :: u64) = n"
  by (simp add: unat_of_nat)

lemma unat_mult3_u64:
  fixes a b c :: u32
  assumes "unat a * unat b * unat c < 2 ^ 32"
  shows "unat (ucast a * ucast b * ucast c :: u64) = unat a * unat b * unat c"
proof -
  have u: "unat (ucast x :: u64) = unat x" for x :: u32 by (simp add: unat_ucast_up)
  have "unat a * unat b < 2 ^ 32 * 2 ^ 32" by (rule mult_strict_mono) simp_all
  then have ab: "unat (ucast a * ucast b :: u64) = unat a * unat b"
    by (subst unat_mult_exact) (simp_all add: u)
  have "unat (ucast a * ucast b :: u64) * unat (ucast c :: u64) < 2 ^ LENGTH(64)"
    unfolding ab u by (rule less_trans [OF assms]) simp
  then show ?thesis by (subst unat_mult_exact) (simp_all only: ab u)
qed

text \<open>Where \<^verbatim>\<open>osvbng_punt_shm_init\<close> puts everything, over the naturals.\<close>

lemma shm_init_layout:
  fixes n :: u32
  assumes run: "osvbng_punt_shm_init os n pm0 = (True, pm)" and fits: "punt_fits pm"
  defines "N \<equiv> unat n" and "P \<equiv> unat (pm_punt_ring_size pm)" and "E \<equiv> unat (pm_egress_ring_size pm)"
    and "S \<equiv> unat (pm_slot_size pm)"
  shows "length (pm_per_thread pm) = N" and "pm_n_punt_rings pm = n" and "pm_shm_initialized pm"
    and "unat (pm_shm_size pm) = punt_total N P E S"
    and "unat (pm_egress_ring_offset pm) = 64 + N * (64 + 24 * P)"
    and "unat (pm_punt_data_offset pm) = 64 + N * (64 + 24 * P) + 64 + 12 * E"
    and "unat (pm_egress_data_offset pm) = 64 + N * (64 + 24 * P) + 64 + 12 * E + N * P * S"
    and "t < N \<Longrightarrow> pt_ring_offset (pm_per_thread pm ! t) = 64 + t * (64 + 24 * P)"
    and "t < N \<Longrightarrow> pt_data (pm_per_thread pm ! t) = unat (pm_punt_data_offset pm) + t * (P * S)"
    and "t < N \<Longrightarrow> pt_ring (pm_per_thread pm ! t) = ring_zero"
proof -
  let ?ps = "or_default32 OSVBNG_SHM_DEFAULT_PUNT_RING_SIZE (pm_punt_ring_size pm0)"
  let ?es = "or_default32 OSVBNG_SHM_DEFAULT_EGRESS_RING_SIZE (pm_egress_ring_size pm0)"
  let ?ss = "or_default32 OSVBNG_SHM_DEFAULT_SLOT_SIZE (pm_slot_size pm0)"
  have os: "False \<notin> set (take 3 os)" "False \<notin> set (drop 3 os)"
    using run by (auto simp: osvbng_punt_shm_init_def Let_def split: if_splits)
  note d = run [unfolded osvbng_punt_shm_init_def Let_def if_not_P [OF os(1)] if_not_P [OF os(2)] prod.inject, THEN conjunct2, symmetric]
  have sz: "pm_punt_ring_size pm = ?ps" "pm_egress_ring_size pm = ?es" "pm_slot_size pm = ?ss" by (simp_all add: d)
  have w: "?ps = word_of_nat P" "?es = word_of_nat E" "?ss = word_of_nat S" "n = word_of_nat N"
    by (simp_all add: P_def E_def S_def N_def sz)
  show nn: "length (pm_per_thread pm) = N" "pm_n_punt_rings pm = n" "pm_shm_initialized pm" by (simp_all add: d N_def)
  have tot: "punt_total N P E S < 2 ^ 32" using fits by (simp add: punt_fits_def nn(2) N_def P_def E_def S_def)
  have val: "unat x = v" if "x = word_of_nat v" and "v \<le> punt_total N P E S" for x :: u32 and v
    using that tot by (simp add: unat_of_nat_u32)
  have sh: "pm_shm_size pm = word_of_nat (punt_total N P E S)"
    by (simp add: d w osvbng_shm_calc_size_def osvbng_punt_ring_stride_def punt_sizeof_defs punt_total_def algebra_simps)
  have eo: "pm_egress_ring_offset pm = word_of_nat (64 + N * (64 + 24 * P))"
    by (simp add: d w osvbng_punt_ring_stride_def punt_sizeof_defs algebra_simps)
  have po: "pm_punt_data_offset pm = word_of_nat (64 + N * (64 + 24 * P) + 64 + 12 * E)"
    by (simp add: d w osvbng_punt_ring_stride_def punt_sizeof_defs algebra_simps)
  have ed: "pm_egress_data_offset pm = word_of_nat (64 + N * (64 + 24 * P) + 64 + 12 * E + N * P * S)"
    by (simp add: d w osvbng_punt_ring_stride_def punt_sizeof_defs algebra_simps)
  show "unat (pm_shm_size pm) = punt_total N P E S" by (rule val [OF sh]) simp
  show "unat (pm_egress_ring_offset pm) = 64 + N * (64 + 24 * P)" by (rule val [OF eo]) (simp add: punt_total_def)
  show "unat (pm_punt_data_offset pm) = 64 + N * (64 + 24 * P) + 64 + 12 * E" by (rule val [OF po]) (simp add: punt_total_def)
  show "unat (pm_egress_data_offset pm) = 64 + N * (64 + 24 * P) + 64 + 12 * E + N * P * S"
    by (rule val [OF ed]) (simp add: punt_total_def)
  assume t: "t < N"
  have tn: "word_of_nat t * (word_of_nat (64 + 24 * P) :: u32) = word_of_nat (t * (64 + 24 * P))" by simp
  have "t * (64 + 24 * P) \<le> N * (64 + 24 * P)" using t by (intro mult_le_mono1) simp
  also have "\<dots> \<le> punt_total N P E S" by (simp add: punt_total_def)
  finally have "unat (word_of_nat t * (word_of_nat (64 + 24 * P) :: u32)) = t * (64 + 24 * P)"
    by (rule val [OF tn])
  moreover have "pt_ring_offset (pm_per_thread pm ! t) = unat SIZEOF_SHM_HEADER + unat (word_of_nat t * osvbng_punt_ring_stride ?ps)"
    using t [unfolded N_def] by (simp add: d per_thread_init_def)
  moreover have "osvbng_punt_ring_stride ?ps = word_of_nat (64 + 24 * P)"
    by (simp add: w(1) osvbng_punt_ring_stride_def punt_sizeof_defs)
  ultimately show "pt_ring_offset (pm_per_thread pm ! t) = 64 + t * (64 + 24 * P)"
    by (simp add: SIZEOF_SHM_HEADER_def)
  have "t * P * S \<le> N * P * S" using t by (intro mult_le_mono1) simp
  also have "\<dots> \<le> punt_total N P E S" by (simp add: punt_total_def)
  finally have tps: "t * P * S < 2 ^ 32" using tot by simp
  have "t < 2 ^ 32" using less_trans [OF t [unfolded N_def] unat_u32_less] by simp
  then have "unat (word_of_nat t :: u32) = t" by (rule unat_of_nat_u32)
  then have "unat (ucast (word_of_nat t :: u32) * ucast (pm_punt_ring_size pm) * ucast (pm_slot_size pm) :: u64) = t * P * S"
    using unat_mult3_u64 [of "word_of_nat t" "pm_punt_ring_size pm" "pm_slot_size pm"] tps by (simp only: P_def S_def)
  then show "pt_data (pm_per_thread pm ! t) = unat (pm_punt_data_offset pm) + t * (P * S)"
    using t by (simp add: d per_thread_init_def N_def mult.assoc)
  show "pt_ring (pm_per_thread pm ! t) = ring_zero" using t by (simp add: d per_thread_init_def N_def)
qed

lemma map_as_upt: "map f xs = map (\<lambda>i. f (xs ! i)) [0..<length xs]"
  by (rule nth_equalityI) simp_all

lemma punt_regions_tile:
  assumes "osvbng_punt_shm_init os n pm0 = (True, pm)" and "punt_fits pm"
  shows "tiles 0 (punt_regions pm) (unat (pm_shm_size pm))"
proof -
  let ?N = "unat n" and ?P = "unat (pm_punt_ring_size pm)" and ?E = "unat (pm_egress_ring_size pm)" and ?S = "unat (pm_slot_size pm)"
  note l = shm_init_layout [OF assms]
  have rings: "map (\<lambda>pt. (pt_ring_offset pt, 64 + 24 * ?P)) (pm_per_thread pm) = map (\<lambda>i. (64 + i * (64 + 24 * ?P), 64 + 24 * ?P)) [0..<?N]"
    by (subst map_as_upt [where xs = "pm_per_thread pm"]) (simp add: l(1,8))
  have data: "concat (map (\<lambda>pt. map (\<lambda>i. (pt_data pt + i * ?S, ?S)) [0..<?P]) (pm_per_thread pm)) =
      concat (map (\<lambda>t. map (\<lambda>i. (unat (pm_punt_data_offset pm) + t * (?P * ?S) + i * ?S, ?S)) [0..<?P]) [0..<?N])"
    by (subst map_as_upt [where xs = "pm_per_thread pm"]) (intro arg_cong [where f = concat] map_cong, simp_all add: l(1,9))
  have t2: "tiles (unat (pm_punt_data_offset pm)) (concat (map (\<lambda>t. map (\<lambda>i. (unat (pm_punt_data_offset pm) + t * (?P * ?S) + i * ?S, ?S)) [0..<?P]) [0..<?N]))
      (unat (pm_punt_data_offset pm) + ?N * (?P * ?S))"
  proof (rule tiles_concat)
    fix t
    show "tiles (unat (pm_punt_data_offset pm) + t * (?P * ?S))
        (map (\<lambda>i. (unat (pm_punt_data_offset pm) + t * (?P * ?S) + i * ?S, ?S)) [0..<?P])
        (unat (pm_punt_data_offset pm) + Suc t * (?P * ?S))"
      using tiles_stride [of "unat (pm_punt_data_offset pm) + t * (?P * ?S)" ?S ?P] by (simp add: ac_simps)
  qed
  have t3: "tiles (unat (pm_egress_data_offset pm)) (map (\<lambda>i. (unat (pm_egress_data_offset pm) + i * ?S, ?S)) [0..<?E])
      (unat (pm_egress_data_offset pm) + ?E * ?S)"
    by (rule tiles_stride)
  have t1: "tiles 64 (map (\<lambda>i. (64 + i * (64 + 24 * ?P), 64 + 24 * ?P)) [0..<?N]) (64 + ?N * (64 + 24 * ?P))"
    by (rule tiles_stride)
  have e: "unat (pm_egress_data_offset pm) = unat (pm_punt_data_offset pm) + ?N * (?P * ?S)"
    "unat (pm_shm_size pm) = unat (pm_egress_data_offset pm) + ?E * ?S"
    by (simp_all add: l(4,6,7) punt_total_def)
  have t0: "tiles (64 + ?N * (64 + 24 * ?P)) [(unat (pm_egress_ring_offset pm), 64 + 12 * ?E)] (unat (pm_punt_data_offset pm))"
    by (simp add: l(5,6))
  have t: "tiles 0 [(0, 64)] 64" by simp
  show ?thesis
    unfolding punt_regions_def rings data e(2)
    by (intro tiles_appendI [OF t] tiles_appendI [OF t1] tiles_appendI [OF t0] tiles_appendI [OF t2 [folded e(1)]] t3)
qed

section \<open>The rings\<close>

lemma punt_slot_mod:
  assumes "unat rs = 2 ^ k" and "k < 32"
  shows "punt_slot rs pos = unat pos mod 2 ^ k"
proof -
  have "rs = word_of_nat (unat rs)" by simp
  then have "rs = word_of_nat (2 ^ k)" by (simp only: assms(1))
  then have m: "rs - 1 = mask k" by (simp add: mask_eq_exp_minus_1)
  have "pos AND ucast (rs - 1) = take_bit k pos"
    unfolding m take_bit_eq_mask by (rule bit_eqI) (use assms(2) in \<open>auto simp: bit_simps\<close>)
  moreover have "unat (ucast (take_bit k pos) :: u32) = unat pos mod 2 ^ k"
  proof -
    have "unat (take_bit k pos) = take_bit k (unat pos)" by (simp only: unsigned_take_bit_eq)
    then have "unat (take_bit k pos) = unat pos mod 2 ^ k" by (simp only: take_bit_eq_mod)
    moreover have "unat pos mod 2 ^ k < 2 ^ 32"
      using assms(2) by (intro less_le_trans [OF mod_less_divisor] power_increasing) simp_all
    ultimately show ?thesis by (simp add: unat_ucast_mod)
  qed
  ultimately show ?thesis by (simp add: punt_slot_def)
qed

lemma punt_slot_add:
  assumes "unat rs = 2 ^ k" and "k < 32"
  shows "punt_slot rs (pos + word_of_nat j) = (unat pos + j) mod 2 ^ k"
proof -
  have d: "(2 :: nat) ^ k dvd 2 ^ 64" using assms(2) by (intro le_imp_power_dvd) simp
  have "unat (pos + word_of_nat j) = (unat pos + j) mod 2 ^ 64"
    by (simp add: unat_word_ariths unat_of_nat mod_add_right_eq)
  then show ?thesis by (simp only: punt_slot_mod [OF assms] mod_mod_cancel [OF d])
qed

lemma mod_window:
  fixes a i j m :: nat
  assumes "(a + i) mod m = (a + j) mod m" and "i < m" and "j < m"
  shows "i = j"
proof -
  have le: "x = y" if "x \<le> y" "y < m" "(a + y) mod m = (a + x) mod m" for x y
  proof -
    have "m dvd (a + y) - (a + x)" using that mod_eq_dvd_iff_nat [of "a + x" "a + y" m] by simp
    with that show ?thesis by (auto dest: dvd_imp_le)
  qed
  show ?thesis using le [of i j] le [of j i] assms by (cases "i \<le> j") auto
qed

text \<open>A frame as the control plane reads it: interface, protocol, VLANs and bytes.\<close>

type_synonym punt_msg = "u32 \<times> u8 \<times> u16 \<times> u16 \<times> u8 list"

definition punt_entry :: "(nat \<Rightarrow> u8) \<Rightarrow> osvbng_punt_desc_t \<Rightarrow> punt_msg" where
  "punt_entry mem d = (pd_sw_if_index d, pd_protocol d, pd_outer_vlan d, pd_inner_vlan d,
     map mem [unat (pd_data_offset d)..<unat (pd_data_offset d) + unat (pd_data_length d)])"

definition punt_count :: "osvbng_punt_per_thread_t \<Rightarrow> nat" where
  "punt_count pt = unat (osvbng_ring_count (pt_ring pt))"

definition punt_at :: "u32 \<Rightarrow> osvbng_punt_per_thread_t \<Rightarrow> nat \<Rightarrow> osvbng_punt_desc_t" where
  "punt_at rs pt j = pt_descs pt (punt_slot rs (rh_tail (pt_ring pt) + word_of_nat j))"

definition punt_view :: "u32 \<Rightarrow> (nat \<Rightarrow> u8) \<Rightarrow> osvbng_punt_per_thread_t \<Rightarrow> punt_msg list" where
  "punt_view rs mem pt = map (\<lambda>j. punt_entry mem (punt_at rs pt j)) [0..<punt_count pt]"

definition punt_ring_ok :: "u32 \<Rightarrow> nat \<Rightarrow> osvbng_punt_per_thread_t \<Rightarrow> bool" where
  "punt_ring_ok rs S pt \<longleftrightarrow>
     punt_count pt \<le> unat rs
   \<and> (\<forall>j < punt_count pt.
        unat (pd_data_offset (punt_at rs pt j)) = pt_data pt + punt_slot rs (rh_tail (pt_ring pt) + word_of_nat j) * S
      \<and> unat (pd_data_length (punt_at rs pt j)) \<le> S)"

definition pow2_size :: "u32 \<Rightarrow> bool" where
  "pow2_size rs \<longleftrightarrow> (\<exists>k < 32. unat rs = 2 ^ k)"

lemma punt_slot_window:
  assumes "pow2_size rs" and "i < unat rs" and "j < unat rs"
    and "punt_slot rs (pos + word_of_nat i) = punt_slot rs (pos + word_of_nat j)"
  shows "i = j"
proof -
  from assms(1) obtain k where k: "unat rs = 2 ^ k" "k < 32" by (auto simp: pow2_size_def)
  from assms(4) have "(unat pos + i) mod unat rs = (unat pos + j) mod unat rs"
    by (simp only: punt_slot_add [OF k] k(1))
  from this assms(2,3) show ?thesis by (rule mod_window)
qed

lemma punt_slot_less:
  assumes "pow2_size rs"
  shows "punt_slot rs pos < unat rs"
proof -
  from assms obtain k where k: "unat rs = 2 ^ k" "k < 32" by (auto simp: pow2_size_def)
  show ?thesis by (simp add: punt_slot_mod [OF k] k(1))
qed

lemma slot_apart:
  fixes S :: nat
  assumes "i \<noteq> j" and "a + i * S \<le> x" and "x < a + i * S + l" and "l \<le> S"
  shows "\<not> (a + j * S \<le> x \<and> x < a + j * S + S)"
proof -
  have "Suc i * S \<le> j * S \<or> Suc j * S \<le> i * S"
    using assms(1) by (meson linorder_neqE_nat mult_le_mono1 Suc_leI)
  with assms(2-4) show ?thesis by auto
qed

lemma punt_entry_cong:
  "(\<And>x. \<lbrakk>unat (pd_data_offset d) \<le> x; x < unat (pd_data_offset d) + unat (pd_data_length d)\<rbrakk> \<Longrightarrow> mem' x = mem x) \<Longrightarrow>
   punt_entry mem' d = punt_entry mem d"
  by (simp add: punt_entry_def)

lemma mem_write_frame:
  "map (mem_write a bs mem) [a..<a + length bs] = bs"
  by (rule nth_equalityI) (simp_all add: mem_write_def)

lemma mem_write_other: "\<not> (a \<le> x \<and> x < a + length bs) \<Longrightarrow> mem_write a bs mem x = mem x"
  by (auto simp: mem_write_def)

definition punt_msg_of :: "osvbng_punt_main_t \<Rightarrow> u8 list \<Rightarrow> u32 \<Rightarrow> nat \<Rightarrow> u16 \<Rightarrow> u16 \<Rightarrow> punt_msg" where
  "punt_msg_of pm frame sw_if_index protocol outer_vlan inner_vlan =
     (sw_if_index, word_of_nat protocol, outer_vlan, inner_vlan, take (unat (pm_slot_size pm)) frame)"

lemma publish_full:
  assumes "pow2_size (pm_punt_ring_size pm)" and "unat (pm_punt_ring_size pm) \<le> punt_count pt"
    and "punt_publish pm now frame sw proto ov iv pt = (ok, mem, signal, pt')"
  shows "\<not> ok \<and> mem = pm_mem pm \<and> pt_ring pt' = pt_ring pt \<and> pt_descs pt' = pt_descs pt \<and> pt_data pt' = pt_data pt"
  using assms(2,3)
  by (auto simp: punt_publish_def Let_def punt_count_def osvbng_ring_count_def word_le_nat_alt unat_ucast_up split: if_splits)

lemma publish_queues:
  assumes p2: "pow2_size (pm_punt_ring_size pm)" and ok: "punt_ring_ok (pm_punt_ring_size pm) S pt"
    and S: "S = unat (pm_slot_size pm)" and room: "punt_count pt < unat (pm_punt_ring_size pm)"
    and fits: "pt_data pt + unat (pm_punt_ring_size pm) * S < 2 ^ 32" and len: "length frame < 2 ^ 16"
    and run: "punt_publish pm now frame sw proto ov iv pt = (acc, mem, signal, pt')"
  shows "acc" and "punt_ring_ok (pm_punt_ring_size pm) S pt'" and "pt_data pt' = pt_data pt"
    and "punt_view (pm_punt_ring_size pm) mem pt' =
      punt_view (pm_punt_ring_size pm) (pm_mem pm) pt @ [punt_msg_of pm frame sw proto ov iv]"
    and "\<not> (pt_data pt \<le> x \<and> x < pt_data pt + unat (pm_punt_ring_size pm) * S) \<Longrightarrow> mem x = pm_mem pm x"
proof -
  let ?rs = "pm_punt_ring_size pm" and ?c = "punt_count pt" and ?tail = "rh_tail (pt_ring pt)" and ?head = "rh_head (pt_ring pt)"
  let ?slot = "punt_slot ?rs ?head" and ?len = "min (length frame) S"
  let ?a = "pt_data pt + ?slot * S"
  have hd: "?head = ?tail + word_of_nat ?c"
    by (simp add: punt_count_def osvbng_ring_count_def)
  have nfull: "\<not> ?head - ?tail \<ge> ucast ?rs"
    using room by (simp add: punt_count_def osvbng_ring_count_def word_le_nat_alt unat_ucast_up)
  have sl: "?slot < unat ?rs" by (rule punt_slot_less [OF p2])
  have "Suc ?slot * S \<le> unat ?rs * S" using sl by (intro mult_le_mono1) simp
  then have in_region: "?a + S \<le> pt_data pt + unat ?rs * S" by simp
  have tk: "take (if S < length frame then S else length frame) frame = take S frame"
    and ln: "(if S < length frame then S else length frame) = ?len" by (auto simp: min_def)
  note r = run [unfolded punt_publish_def Let_def if_not_P [OF nfull] S [symmetric] ln tk prod.inject]
  show acc using r by simp
  define desc where "desc = pt_descs pt' ?slot"
  have pt': "pt_data pt' = pt_data pt" "pt_ring pt' = (pt_ring pt)\<lparr>rh_head := ?head + 1, rh_interrupt_pending := True\<rparr>"
    "pt_descs pt' = (pt_descs pt)(?slot := desc)"
    using r by (auto simp: desc_def)
  show "pt_data pt' = pt_data pt" by (rule pt')
  have "?a < 2 ^ 32" using in_region fits by simp
  moreover have f: "pd_data_offset desc = word_of_nat ?a" "pd_data_length desc = word_of_nat ?len" "pd_sw_if_index desc = sw"
    "pd_protocol desc = word_of_nat proto" "pd_outer_vlan desc = ov" "pd_inner_vlan desc = iv"
    using r by (auto simp: desc_def)
  moreover have "unat (word_of_nat ?len :: u16) = ?len" using len by (simp add: unat_of_nat min_def)
  ultimately have d: "unat (pd_data_offset desc) = ?a" "unat (pd_data_length desc) = ?len"
    by (simp_all only: f unat_of_nat_u32)
  have mem: "mem = mem_write ?a (take S frame) (pm_mem pm)" using r by (auto simp: min_def)
  have "unat (?head - ?tail) + unat (1 :: u64) < 2 ^ LENGTH(64)"
    using less_trans [OF room unat_u32_less] by (simp add: punt_count_def osvbng_ring_count_def)
  from unat_add_exact [OF this] have "unat (?head - ?tail + 1) = Suc ?c"
    by (simp add: punt_count_def osvbng_ring_count_def)
  moreover have "?head + 1 - ?tail = ?head - ?tail + 1" by simp
  moreover have "rh_head (pt_ring pt') = ?head + 1" "rh_tail (pt_ring pt') = ?tail" by (simp_all add: pt'(2))
  ultimately have cnt: "punt_count pt' = Suc ?c"
    by (simp only: punt_count_def [of pt'] osvbng_ring_count_def)
  have at: "punt_at ?rs pt' j = (if j = ?c then desc else punt_at ?rs pt j)" if "j \<le> ?c" for j
  proof (cases "j = ?c")
    case True
    then show ?thesis by (simp add: punt_at_def pt' hd [symmetric])
  next
    case False
    then have "punt_slot ?rs (?tail + word_of_nat j) \<noteq> ?slot"
      using punt_slot_window [OF p2, of j ?c ?tail] that room by (auto simp: hd [symmetric])
    with False show ?thesis by (simp add: punt_at_def pt')
  qed
  have tl: "rh_tail (pt_ring pt') = ?tail" by (simp add: pt')
  show "punt_ring_ok ?rs S pt'"
    unfolding punt_ring_ok_def cnt tl pt'(1)
  proof (intro conjI allI impI)
    show "Suc ?c \<le> unat ?rs" using room by simp
    fix j assume j: "j < Suc ?c"
    show "unat (pd_data_offset (punt_at ?rs pt' j)) = pt_data pt + punt_slot ?rs (?tail + word_of_nat j) * S"
      and "unat (pd_data_length (punt_at ?rs pt' j)) \<le> S"
      using j ok d at [of j] by (auto simp: punt_ring_ok_def hd [symmetric] less_Suc_eq)
  qed
  have old: "punt_entry mem (punt_at ?rs pt j) = punt_entry (pm_mem pm) (punt_at ?rs pt j)" if j: "j < ?c" for j
  proof (rule punt_entry_cong)
    fix x
    assume x: "unat (pd_data_offset (punt_at ?rs pt j)) \<le> x"
      "x < unat (pd_data_offset (punt_at ?rs pt j)) + unat (pd_data_length (punt_at ?rs pt j))"
    have "punt_slot ?rs (?tail + word_of_nat j) \<noteq> ?slot"
      using punt_slot_window [OF p2, of j ?c ?tail] j room by (auto simp: hd [symmetric])
    from slot_apart [OF this, of "pt_data pt" S x "unat (pd_data_length (punt_at ?rs pt j))"] x j ok
    have "\<not> (?a \<le> x \<and> x < ?a + S)" by (simp add: punt_ring_ok_def)
    then show "mem x = pm_mem pm x" unfolding mem by (intro mem_write_other) auto
  qed
  have new: "punt_entry mem desc = punt_msg_of pm frame sw proto ov iv"
  proof -
    have "length (take S frame) = ?len" by simp
    with mem_write_frame [of ?a "take S frame" "pm_mem pm"]
    have "map mem [?a..<?a + ?len] = take S frame" by (simp only: mem)
    then show ?thesis by (simp only: punt_entry_def punt_msg_of_def d f(3-6) S [symmetric])
  qed
  show "punt_view ?rs mem pt' = punt_view ?rs (pm_mem pm) pt @ [punt_msg_of pm frame sw proto ov iv]"
    using at old new by (simp add: punt_view_def cnt)
  assume "\<not> (pt_data pt \<le> x \<and> x < pt_data pt + unat ?rs * S)"
  with in_region show "mem x = pm_mem pm x" unfolding mem by (intro mem_write_other) auto
qed

section \<open>Steps\<close>

text \<open>The rings hold \<open>Q\<close>, one list of frames per thread, and lie in their own parts of the region.\<close>

definition punt_agrees :: "osvbng_punt_main_t \<Rightarrow> (nat \<Rightarrow> punt_msg list) \<Rightarrow> bool" where
  "punt_agrees pm Q \<longleftrightarrow>
     pow2_size (pm_punt_ring_size pm)
   \<and> unat (pm_punt_data_offset pm) + length (pm_per_thread pm) * (unat (pm_punt_ring_size pm) * unat (pm_slot_size pm))
       \<le> unat (pm_egress_data_offset pm)
   \<and> (\<forall>t < length (pm_per_thread pm).
        pt_data (pm_per_thread pm ! t) =
          unat (pm_punt_data_offset pm) + t * (unat (pm_punt_ring_size pm) * unat (pm_slot_size pm))
      \<and> punt_ring_ok (pm_punt_ring_size pm) (unat (pm_slot_size pm)) (pm_per_thread pm ! t)
      \<and> punt_view (pm_punt_ring_size pm) (pm_mem pm) (pm_per_thread pm ! t) = Q t)"

text \<open>What a step of something else keeps of a thread's ring.\<close>

definition same_ring :: "osvbng_punt_per_thread_t \<Rightarrow> osvbng_punt_per_thread_t \<Rightarrow> bool" where
  "same_ring pt pt' \<longleftrightarrow>
     rh_head (pt_ring pt') = rh_head (pt_ring pt) \<and> rh_tail (pt_ring pt') = rh_tail (pt_ring pt)
   \<and> pt_descs pt' = pt_descs pt \<and> pt_data pt' = pt_data pt"

definition same_region :: "osvbng_punt_main_t \<Rightarrow> osvbng_punt_main_t \<Rightarrow> bool" where
  "same_region pm pm' \<longleftrightarrow>
     pm_punt_ring_size pm' = pm_punt_ring_size pm \<and> pm_slot_size pm' = pm_slot_size pm
   \<and> pm_punt_data_offset pm' = pm_punt_data_offset pm \<and> pm_egress_data_offset pm' = pm_egress_data_offset pm
   \<and> length (pm_per_thread pm') = length (pm_per_thread pm)"

lemma same_ring_refl [simp]: "same_ring pt pt"
  by (simp add: same_ring_def)

lemma same_ring_view:
  assumes "same_ring pt pt'"
  shows "punt_count pt' = punt_count pt" and "punt_at rs pt' = punt_at rs pt" and "punt_ring_ok rs S pt' = punt_ring_ok rs S pt"
    and "punt_view rs mem pt' = punt_view rs mem pt" and "pt_data pt' = pt_data pt"
proof -
  show c: "punt_count pt' = punt_count pt" using assms by (simp add: punt_count_def osvbng_ring_count_def same_ring_def)
  show a: "punt_at rs pt' = punt_at rs pt" using assms by (simp add: punt_at_def fun_eq_iff same_ring_def)
  show "punt_ring_ok rs S pt' = punt_ring_ok rs S pt" using assms by (simp add: punt_ring_ok_def c a same_ring_def)
  show "punt_view rs mem pt' = punt_view rs mem pt" by (simp add: punt_view_def c a)
  show "pt_data pt' = pt_data pt" using assms by (simp add: same_ring_def)
qed

lemma punt_view_mem:
  assumes ok: "punt_ring_ok rs S pt" and p2: "pow2_size rs"
    and mem: "\<And>x. pt_data pt \<le> x \<Longrightarrow> x < pt_data pt + unat rs * S \<Longrightarrow> mem' x = mem x"
  shows "punt_view rs mem' pt = punt_view rs mem pt"
proof -
  have "punt_entry mem' (punt_at rs pt j) = punt_entry mem (punt_at rs pt j)" if j: "j < punt_count pt" for j
  proof (rule punt_entry_cong)
    fix x
    assume x: "unat (pd_data_offset (punt_at rs pt j)) \<le> x"
      "x < unat (pd_data_offset (punt_at rs pt j)) + unat (pd_data_length (punt_at rs pt j))"
    let ?i = "punt_slot rs (rh_tail (pt_ring pt) + word_of_nat j)"
    have "Suc ?i * S \<le> unat rs * S" using punt_slot_less [OF p2] by (intro mult_le_mono1) (simp add: Suc_le_eq)
    then show "mem' x = mem x" using ok j x by (intro mem) (auto simp: punt_ring_ok_def)
  qed
  then show ?thesis by (simp add: punt_view_def)
qed

lemma agrees_thread:
  assumes "punt_agrees pm Q" and "t < length (pm_per_thread pm)"
  shows "punt_ring_ok (pm_punt_ring_size pm) (unat (pm_slot_size pm)) (pm_per_thread pm ! t)"
    and "punt_view (pm_punt_ring_size pm) (pm_mem pm) (pm_per_thread pm ! t) = Q t"
    and "pt_data (pm_per_thread pm ! t) =
      unat (pm_punt_data_offset pm) + t * (unat (pm_punt_ring_size pm) * unat (pm_slot_size pm))"
    and "pt_data (pm_per_thread pm ! t) + unat (pm_punt_ring_size pm) * unat (pm_slot_size pm)
      \<le> unat (pm_egress_data_offset pm)"
proof -
  let ?B = "unat (pm_punt_ring_size pm) * unat (pm_slot_size pm)"
  show ok: "punt_ring_ok (pm_punt_ring_size pm) (unat (pm_slot_size pm)) (pm_per_thread pm ! t)"
    "punt_view (pm_punt_ring_size pm) (pm_mem pm) (pm_per_thread pm ! t) = Q t"
    and d: "pt_data (pm_per_thread pm ! t) = unat (pm_punt_data_offset pm) + t * ?B"
    using assms by (simp_all add: punt_agrees_def)
  have "Suc t * ?B \<le> length (pm_per_thread pm) * ?B" using assms(2) by (intro mult_le_mono1) simp
  with assms(1) d show "pt_data (pm_per_thread pm ! t) + ?B \<le> unat (pm_egress_data_offset pm)"
    by (simp add: punt_agrees_def)
qed

text \<open>A step that changes at most the ring of thread \<open>t\<close> and the data slots of that ring.\<close>

lemma agrees_update:
  assumes ag: "punt_agrees pm Q" and reg: "same_region pm pm'" and t: "t < length (pm_per_thread pm)"
    and others: "\<And>u. u < length (pm_per_thread pm) \<Longrightarrow> u \<noteq> t \<Longrightarrow> same_ring (pm_per_thread pm ! u) (pm_per_thread pm' ! u)"
    and data: "pt_data (pm_per_thread pm' ! t) = pt_data (pm_per_thread pm ! t)"
    and ok: "punt_ring_ok (pm_punt_ring_size pm) (unat (pm_slot_size pm)) (pm_per_thread pm' ! t)"
    and view: "punt_view (pm_punt_ring_size pm) (pm_mem pm') (pm_per_thread pm' ! t) = q"
    and mem: "\<And>x. \<not> (pt_data (pm_per_thread pm ! t) \<le> x \<and>
        x < pt_data (pm_per_thread pm ! t) + unat (pm_punt_ring_size pm) * unat (pm_slot_size pm)) \<Longrightarrow>
      pm_mem pm' x = pm_mem pm x"
  shows "punt_agrees pm' (Q(t := q))"
proof -
  let ?B = "unat (pm_punt_ring_size pm) * unat (pm_slot_size pm)"
  have "punt_view (pm_punt_ring_size pm) (pm_mem pm') (pm_per_thread pm' ! u) = Q u"
    if u: "u < length (pm_per_thread pm)" "u \<noteq> t" for u
  proof -
    note a = agrees_thread [OF ag u(1)] and s = same_ring_view [OF others [OF u]]
    have "punt_view (pm_punt_ring_size pm) (pm_mem pm') (pm_per_thread pm ! u) = Q u"
      unfolding a(2) [symmetric]
    proof (rule punt_view_mem [OF a(1)])
      show "pow2_size (pm_punt_ring_size pm)" using ag by (simp add: punt_agrees_def)
      fix x assume x: "pt_data (pm_per_thread pm ! u) \<le> x" "x < pt_data (pm_per_thread pm ! u) + ?B"
      from slot_apart [OF u(2), of "unat (pm_punt_data_offset pm)" ?B x ?B] x
      show "pm_mem pm' x = pm_mem pm x" by (intro mem) (simp add: a(3) agrees_thread(3) [OF ag t])
    qed
    then show ?thesis by (simp add: s)
  qed
  then show ?thesis
    using ag reg data ok view same_ring_view(3,5) [OF others] unfolding punt_agrees_def same_region_def
    by (metis fun_upd_apply)
qed

lemma agrees_frame:
  assumes ag: "punt_agrees pm Q" and reg: "same_region pm pm'"
    and same: "\<And>u. u < length (pm_per_thread pm) \<Longrightarrow> same_ring (pm_per_thread pm ! u) (pm_per_thread pm' ! u)"
    and mem: "\<And>x. x < unat (pm_egress_data_offset pm) \<Longrightarrow> pm_mem pm' x = pm_mem pm x"
  shows "punt_agrees pm' Q"
proof -
  have "punt_view (pm_punt_ring_size pm) (pm_mem pm') (pm_per_thread pm' ! u) = Q u"
    if u: "u < length (pm_per_thread pm)" for u
  proof -
    note a = agrees_thread [OF ag u] and s = same_ring_view [OF same [OF u]]
    have "punt_view (pm_punt_ring_size pm) (pm_mem pm') (pm_per_thread pm ! u) = Q u"
      unfolding a(2) [symmetric]
      by (rule punt_view_mem [OF a(1)]) (use ag a(4) mem in \<open>auto simp: punt_agrees_def\<close>)
    then show ?thesis by (simp add: s)
  qed
  then show ?thesis
    using ag reg same_ring_view(3,5) [OF same] unfolding punt_agrees_def same_region_def by metis
qed

lemma policer_allow_ring:
  "osvbng_punt_policer_allow pt now proto = (b, pt') \<Longrightarrow> same_ring pt pt' \<and> pt_ring pt' = pt_ring pt"
  by (auto simp: osvbng_punt_policer_allow_def same_ring_def Let_def split: if_splits)

lemma agrees_len: "punt_agrees pm Q \<Longrightarrow> t < length (pm_per_thread pm) \<Longrightarrow> punt_count (pm_per_thread pm ! t) = length (Q t)"
  using agrees_thread(2) [of pm Q t] by (auto simp: punt_view_def dest: arg_cong [where f = length])

lemma to_shm_agrees:
  assumes ag: "punt_agrees pm Q" and len: "length frame < 2 ^ 16"
    and run: "osvbng_punt_to_shm t now frame sw proto ov iv pm = (ok, pm')"
  shows "punt_agrees pm' (if ok then Q(t := Q t @ [punt_msg_of pm frame sw proto ov iv]) else Q)"
    and "ok \<longleftrightarrow> pm_shm_initialized pm \<and> t < length (pm_per_thread pm)
       \<and> fst (osvbng_punt_policer_allow (pm_per_thread pm ! t) now proto) \<and> length (Q t) < unat (pm_punt_ring_size pm)"
    and "same_region pm pm'" and "pm_shm_initialized pm' = pm_shm_initialized pm"
    and "pm_slot_size pm' = pm_slot_size pm" and "pm_enabled pm' = pm_enabled pm"
proof -
  let ?G = "punt_agrees pm' (if ok then Q(t := Q t @ [punt_msg_of pm frame sw proto ov iv]) else Q) \<and>
    (ok \<longleftrightarrow> pm_shm_initialized pm \<and> t < length (pm_per_thread pm)
       \<and> fst (osvbng_punt_policer_allow (pm_per_thread pm ! t) now proto) \<and> length (Q t) < unat (pm_punt_ring_size pm)) \<and>
    same_region pm pm' \<and> pm_shm_initialized pm' = pm_shm_initialized pm \<and> pm_slot_size pm' = pm_slot_size pm
      \<and> pm_enabled pm' = pm_enabled pm"
  have ?G
  proof (cases "pm_shm_initialized pm \<and> t < length (pm_per_thread pm)")
    case False
    with run ag show ?thesis by (auto simp: osvbng_punt_to_shm_def same_region_def split: if_splits)
  next
    case True
    then have t: "t < length (pm_per_thread pm)" and ini: "pm_shm_initialized pm" by simp_all
    obtain allowed pt where al: "osvbng_punt_policer_allow (pm_per_thread pm ! t) now proto = (allowed, pt)" by fastforce
    note pr = policer_allow_ring [OF al, THEN conjunct1]
    note a = agrees_thread [OF ag t] and v = same_ring_view [OF pr]
    have p2: "pow2_size (pm_punt_ring_size pm)" using ag by (simp add: punt_agrees_def)
    show ?thesis
    proof (cases allowed)
      case False
      with run True al have pm': "pm' = pm\<lparr>pm_per_thread := (pm_per_thread pm)[t := pt]\<rparr>" and ok: "\<not> ok"
        by (auto simp: osvbng_punt_to_shm_def)
      have "punt_agrees pm' Q"
      proof (rule agrees_frame [OF ag])
        fix u assume "u < length (pm_per_thread pm)"
        then show "same_ring (pm_per_thread pm ! u) (pm_per_thread pm' ! u)"
          using pr by (cases "u = t") (simp_all add: pm')
      qed (simp_all add: pm' same_region_def)
      with False ok al show ?thesis by (simp add: pm' same_region_def)
    next
      case alw: True
      obtain acc mem signal pt' where pb: "punt_publish pm now frame sw proto ov iv pt = (acc, mem, signal, pt')"
        by (metis prod_cases4)
      have pm': "pm' = pm\<lparr>pm_per_thread := (pm_per_thread pm)[t := pt'], pm_mem := mem,
                  pm_events := (if signal then Suc (pm_events pm) else pm_events pm)\<rparr>" and ok: "ok = acc"
        using run True al alw pb by (auto simp: osvbng_punt_to_shm_def)
      have reg: "same_region pm pm'" by (simp add: pm' same_region_def)
      have th: "pm_per_thread pm' ! u = (if u = t then pt' else pm_per_thread pm ! u)" if "u < length (pm_per_thread pm)" for u
        using that by (simp add: pm' nth_list_update)
      show ?thesis
      proof (cases "punt_count pt < unat (pm_punt_ring_size pm)")
        case True
        have fits: "pt_data pt + unat (pm_punt_ring_size pm) * unat (pm_slot_size pm) < 2 ^ 32"
          using le_less_trans [OF a(4) unat_u32_less] by (simp add: v(5))
        note q = publish_queues [OF p2 a(1) [folded v(3)] HOL.refl True fits len pb]
        have "punt_agrees pm' (Q(t := Q t @ [punt_msg_of pm frame sw proto ov iv]))"
        proof (rule agrees_update [OF ag reg t])
          show "same_ring (pm_per_thread pm ! u) (pm_per_thread pm' ! u)" if "u < length (pm_per_thread pm)" "u \<noteq> t" for u
            using that by (simp add: th)
        qed (use q v a t in \<open>auto simp: th pm'\<close>)
        with q(1) True show ?thesis
          using ini t al alw reg agrees_len [OF ag t] v(1) by (simp add: ok pm')
      next
        case False
        then have "unat (pm_punt_ring_size pm) \<le> punt_count pt" by simp
        from publish_full [OF p2 this pb]
        have f: "\<not> acc" "mem = pm_mem pm" "same_ring pt pt'" by (simp_all add: same_ring_def)
        have "same_ring (pm_per_thread pm ! t) pt'" using pr f(3) by (simp add: same_ring_def)
        then have "punt_agrees pm' Q"
          by (intro agrees_frame [OF ag reg]) (simp_all add: th, simp add: pm' f(2))
        with f(1) False show ?thesis
          using reg agrees_len [OF ag t] v(1) by (simp add: ok pm')
      qed
    qed
  qed
  then show "punt_agrees pm' (if ok then Q(t := Q t @ [punt_msg_of pm frame sw proto ov iv]) else Q)"
    and "ok \<longleftrightarrow> pm_shm_initialized pm \<and> t < length (pm_per_thread pm)
       \<and> fst (osvbng_punt_policer_allow (pm_per_thread pm ! t) now proto) \<and> length (Q t) < unat (pm_punt_ring_size pm)"
    and "same_region pm pm'" and "pm_shm_initialized pm' = pm_shm_initialized pm"
    and "pm_slot_size pm' = pm_slot_size pm" and "pm_enabled pm' = pm_enabled pm" by blast+
qed

text \<open>The control plane takes \<open>m\<close> frames from the ring of thread \<open>t\<close>; it clears the interrupt flag.\<close>

definition punt_daemon_read :: "nat \<Rightarrow> nat \<Rightarrow> osvbng_punt_main_t \<Rightarrow> osvbng_punt_main_t" where
  "punt_daemon_read t m pm =
     (let pt = pm_per_thread pm ! t in
      pm\<lparr>pm_per_thread := (pm_per_thread pm)
        [t := pt\<lparr>pt_ring := (pt_ring pt)\<lparr>rh_tail := rh_tail (pt_ring pt) + word_of_nat m\<rparr>\<rparr>]\<rparr>)"

definition punt_daemon_clear :: "nat \<Rightarrow> osvbng_punt_main_t \<Rightarrow> osvbng_punt_main_t" where
  "punt_daemon_clear t pm =
     (let pt = pm_per_thread pm ! t in
      pm\<lparr>pm_per_thread := (pm_per_thread pm)[t := pt\<lparr>pt_ring := (pt_ring pt)\<lparr>rh_interrupt_pending := False\<rparr>\<rparr>]\<rparr>)"

lemma read_agrees:
  assumes ag: "punt_agrees pm Q" and t: "t < length (pm_per_thread pm)" and m: "m \<le> length (Q t)"
  shows "punt_agrees (punt_daemon_read t m pm) (Q(t := drop m (Q t)))"
proof -
  let ?pt = "pm_per_thread pm ! t"
  let ?pt' = "?pt\<lparr>pt_ring := (pt_ring ?pt)\<lparr>rh_tail := rh_tail (pt_ring ?pt) + word_of_nat m\<rparr>\<rparr>"
  note a = agrees_thread [OF ag t] and len = agrees_len [OF ag t]
  have c: "unat (rh_head (pt_ring ?pt) - rh_tail (pt_ring ?pt)) = length (Q t)"
    using len by (simp add: punt_count_def osvbng_ring_count_def)
  have "m < 2 ^ 64" using m c unat_u64_less [of "rh_head (pt_ring ?pt) - rh_tail (pt_ring ?pt)"] by simp
  then have um: "unat (word_of_nat m :: u64) = m" by (rule unat_of_nat_u64)
  have "unat (rh_head (pt_ring ?pt) - rh_tail (pt_ring ?pt) - word_of_nat m) = length (Q t) - m"
    using m by (subst unat_sub_exact) (simp_all add: word_le_nat_alt um c)
  then have cnt: "punt_count ?pt' = length (Q t) - m"
    by (simp add: punt_count_def osvbng_ring_count_def diff_diff_eq)
  have at: "punt_at rs ?pt' j = punt_at rs ?pt (m + j)" for rs j
    by (simp add: punt_at_def add.assoc)
  have "punt_view (pm_punt_ring_size pm) (pm_mem pm) ?pt' = drop m (punt_view (pm_punt_ring_size pm) (pm_mem pm) ?pt)"
  proof (rule nth_equalityI)
    fix i assume "i < length (punt_view (pm_punt_ring_size pm) (pm_mem pm) ?pt')"
    then have "i < length (Q t) - m" and "m + i < length (Q t)" by (simp_all add: punt_view_def cnt)
    then show "punt_view (pm_punt_ring_size pm) (pm_mem pm) ?pt' ! i =
        drop m (punt_view (pm_punt_ring_size pm) (pm_mem pm) ?pt) ! i"
      by (simp add: punt_view_def cnt len at)
  qed (simp add: punt_view_def cnt len)
  moreover have "punt_ring_ok (pm_punt_ring_size pm) (unat (pm_slot_size pm)) ?pt'"
    using a(1) m unfolding punt_ring_ok_def cnt len at by (auto simp: add.assoc)
  ultimately show ?thesis
    by (intro agrees_update [OF ag _ t]) (use t a(2) in \<open>auto simp: punt_daemon_read_def same_region_def Let_def\<close>)
qed

section \<open>Reachable states\<close>

text \<open>
  The punt plugin from the creation of the region on, with the frames that wait in each ring: punts
  of any thread, the control plane's reads, the interrupt flag, writes to the egress slots
  and injections, the egress node, and configuration, interleaved in any order.
\<close>

inductive punt_reach :: "osvbng_punt_main_t \<Rightarrow> (nat \<Rightarrow> punt_msg list) \<Rightarrow> bool" where
  start: "\<lbrakk>osvbng_punt_shm_init os n pm0 = (True, pm); punt_fits pm; pow2_size (pm_punt_ring_size pm)\<rbrakk> \<Longrightarrow>
    punt_reach pm (\<lambda>_. [])"
| punt: "\<lbrakk>punt_reach pm Q; length frame < 2 ^ 16;
    osvbng_punt_to_shm t now frame sw proto ov iv pm = (ok, pm')\<rbrakk> \<Longrightarrow>
    punt_reach pm' (if ok then Q(t := Q t @ [punt_msg_of pm frame sw proto ov iv]) else Q)"
| read: "\<lbrakk>punt_reach pm Q; t < length (pm_per_thread pm); m \<le> length (Q t)\<rbrakk> \<Longrightarrow>
    punt_reach (punt_daemon_read t m pm) (Q(t := drop m (Q t)))"
| clear: "\<lbrakk>punt_reach pm Q; t < length (pm_per_thread pm)\<rbrakk> \<Longrightarrow> punt_reach (punt_daemon_clear t pm) Q"
| daemon_write: "\<lbrakk>punt_reach pm Q; unat (pm_egress_data_offset pm) \<le> a\<rbrakk> \<Longrightarrow>
    punt_reach (pm\<lparr>pm_mem := mem_write a bs (pm_mem pm)\<rparr>) Q"
| inject: "punt_reach pm Q \<Longrightarrow> punt_reach (pm\<lparr>pm_egress_ring := ring, pm_egress_descs := descs\<rparr>) Q"
| egress: "\<lbrakk>punt_reach pm Q; osvbng_egress_node x head' pm = (n, puts, again, pm')\<rbrakk> \<Longrightarrow> punt_reach pm' Q"
| policer: "\<lbrakk>punt_reach pm Q; osvbng_punt_policer_configure now proto rate burst pm = (ok, pm')\<rbrakk> \<Longrightarrow> punt_reach pm' Q"
| policer_apply: "punt_reach pm Q \<Longrightarrow> punt_reach (osvbng_punt_policer_apply now pm) Q"
| enable: "\<lbrakk>punt_reach pm Q; api_punt_enable_disable px live sw proto en pm = (rv, fx, pm')\<rbrakk> \<Longrightarrow> punt_reach pm' Q"

lemma init_agrees:
  assumes "osvbng_punt_shm_init os n pm0 = (True, pm)" and "punt_fits pm" and "pow2_size (pm_punt_ring_size pm)"
  shows "punt_agrees pm (\<lambda>_. [])"
proof -
  note l = shm_init_layout [OF assms(1,2)]
  have "punt_count (pm_per_thread pm ! t) = 0" if "t < unat n" for t
    using l(10) [OF that] by (simp add: punt_count_def osvbng_ring_count_def ring_zero_def)
  then show ?thesis
    using assms(3) by (simp add: punt_agrees_def l(1,6,7,9) punt_ring_ok_def punt_view_def)
qed

lemma policer_share_ring: "same_ring pt (policer_share pm now pt)"
  by (simp add: policer_share_def same_ring_def Let_def)

lemma policer_apply_frame:
  "same_region pm (osvbng_punt_policer_apply now pm)" "pm_mem (osvbng_punt_policer_apply now pm) = pm_mem pm"
  "u < length (pm_per_thread pm) \<Longrightarrow> same_ring (pm_per_thread pm ! u) (pm_per_thread (osvbng_punt_policer_apply now pm) ! u)"
  by (simp_all add: osvbng_punt_policer_apply_def same_region_def policer_share_ring)

lemma punt_set_frame:
  "pm_per_thread (punt_set_enabled p sw pm) = pm_per_thread pm \<and> pm_mem (punt_set_enabled p sw pm) = pm_mem pm \<and>
   same_region pm (punt_set_enabled p sw pm)"
  "pm_per_thread (punt_unset_enabled p sw pm) = pm_per_thread pm \<and> pm_mem (punt_unset_enabled p sw pm) = pm_mem pm \<and>
   same_region pm (punt_unset_enabled p sw pm)"
  by (simp_all add: punt_set_enabled_def punt_unset_enabled_def same_region_def)

lemma bcast_frame:
  "osvbng_punt_dhcp_bcast_route x sw en pm = (fx, pm') \<Longrightarrow>
   pm_per_thread pm' = pm_per_thread pm \<and> pm_mem pm' = pm_mem pm \<and> same_region pm pm' \<and> pm_enabled pm' = pm_enabled pm"
  by (auto simp: osvbng_punt_dhcp_bcast_route_def Let_def same_region_def split: if_splits option.splits)

lemmas punt_enable_defs = osvbng_punt_enable_dhcpv4_def osvbng_punt_disable_dhcpv4_def osvbng_punt_enable_dhcpv6_def
  osvbng_punt_disable_dhcpv6_def osvbng_punt_enable_l2tp_def osvbng_punt_disable_l2tp_def osvbng_punt_enable_ipv6_nd_def
  osvbng_punt_disable_ipv6_nd_def osvbng_punt_enable_disable_def Let_def

lemma api_enable_frame:
  assumes "api_punt_enable_disable px live sw proto en pm = (rv, fx, pm')"
  shows "pm_per_thread pm' = pm_per_thread pm \<and> pm_mem pm' = pm_mem pm \<and> same_region pm pm'"
proof -
  have "pm_per_thread pm' = pm_per_thread pm \<and> pm_mem pm' = pm_mem pm \<and> same_region pm pm'"
    if "osvbng_punt_dhcp_bcast_route px sw b pm1 = (gx, pm')" and "pm_per_thread pm1 = pm_per_thread pm \<and> pm_mem pm1 = pm_mem pm \<and> same_region pm pm1"
    for b pm1 gx
    using bcast_frame [OF that(1)] that(2) by (simp add: same_region_def)
  moreover have "pm_per_thread (osvbng_punt_l2tp_resolve_next_arc px pm) = pm_per_thread pm \<and>
      pm_mem (osvbng_punt_l2tp_resolve_next_arc px pm) = pm_mem pm \<and> same_region pm (osvbng_punt_l2tp_resolve_next_arc px pm)"
    by (simp add: osvbng_punt_l2tp_resolve_next_arc_def same_region_def split: option.split)
  ultimately show ?thesis
    using assms punt_set_frame
    by (auto simp: api_punt_enable_disable_def punt_enable_defs same_region_def punt_set_enabled_def punt_unset_enabled_def
      split: if_splits prod.splits)
qed

lemma punt_reach_agrees: "punt_reach pm Q \<Longrightarrow> punt_agrees pm Q \<and> pm_shm_initialized pm"
proof (induction rule: punt_reach.induct)
  case (start os n pm0 pm)
  then show ?case using init_agrees shm_init_layout(3) by blast
next
  case (punt pm Q frame t now sw proto ov iv ok pm')
  then show ?case using to_shm_agrees [of pm Q frame t now sw proto ov iv ok pm'] by simp
next
  case (read pm Q t m)
  then show ?case using read_agrees [of pm Q t m] by (simp add: punt_daemon_read_def Let_def fun_upd_def)
next
  case (clear pm Q t)
  have "same_ring (pm_per_thread pm ! u) (pm_per_thread (punt_daemon_clear t pm) ! u)" for u
    using clear.hyps(2) by (cases "u = t") (simp_all add: punt_daemon_clear_def Let_def same_ring_def)
  with clear.IH show ?case
    by (auto intro!: agrees_frame [of pm Q] simp: punt_daemon_clear_def same_region_def Let_def)
next
  case (daemon_write pm Q a bs)
  then show ?case by (auto intro!: agrees_frame [of pm Q] simp: same_region_def mem_write_def)
next
  case (inject pm Q ring descs)
  then show ?case by (auto intro!: agrees_frame [of pm Q] simp: same_region_def)
next
  case (egress pm Q x head' n puts again pm')
  then show ?case
    by (auto intro!: agrees_frame [of pm Q] simp: same_region_def osvbng_egress_node_def Let_def)
next
  case (policer pm Q now proto rate burst ok pm')
  have "same_region pm pm' \<and> pm_mem pm' = pm_mem pm \<and> pm_shm_initialized pm' = pm_shm_initialized pm \<and>
      (\<forall>u < length (pm_per_thread pm). same_ring (pm_per_thread pm ! u) (pm_per_thread pm' ! u))"
    using policer.hyps(2) by (auto simp: osvbng_punt_policer_configure_def osvbng_punt_policer_apply_def Let_def
      same_region_def policer_share_ring split: if_splits)
  with policer.IH show ?case by (auto intro!: agrees_frame [of pm Q])
next
  case (policer_apply pm Q now)
  then show ?case
    using policer_apply_frame by (auto intro!: agrees_frame [of pm Q]) (simp add: osvbng_punt_policer_apply_def)
next
  case (enable pm Q px live sw proto en rv fx pm')
  have "pm_shm_initialized pm' = pm_shm_initialized pm"
    using enable.hyps(2)
    by (auto simp: api_punt_enable_disable_def punt_enable_defs punt_set_enabled_def punt_unset_enabled_def
      osvbng_punt_dhcp_bcast_route_def osvbng_punt_l2tp_resolve_next_arc_def split: if_splits prod.splits option.splits)
  with api_enable_frame [OF enable.hyps(2)] enable.IH show ?case by (auto intro!: agrees_frame [of pm Q])
qed

end
