(* ===== verification/Punt_Props.thy ===== *)
theory Punt_Props
  imports Punt_Ring
begin

text \<open>
  The properties of the punt plugin: the layout, the rings, the policer, the broadcast route of
  DHCP, and the egress node.
\<close>

section \<open>The policer\<close>

text \<open>Packets of one protocol at the threads, in order of time, and how many of them pass.\<close>

fun policer_run :: "nat \<Rightarrow> (nat \<times> real) list \<Rightarrow> osvbng_punt_per_thread_t list \<Rightarrow> nat" where
  "policer_run proto [] pts = 0"
| "policer_run proto ((t, now) # as) pts =
     (case osvbng_punt_policer_allow (pts ! t) now proto of (allowed, pt) \<Rightarrow>
      (if allowed then 1 else 0) + policer_run proto as (pts[t := pt]))"

text \<open>What a bucket can still let through until \<open>T\<close>.\<close>

definition policer_credit :: "nat \<Rightarrow> real \<Rightarrow> osvbng_punt_per_thread_t \<Rightarrow> real" where
  "policer_credit proto T pt = pt_tokens pt proto + pt_rate pt proto * (T - pt_last_update pt proto)"

definition policer_ok :: "nat \<Rightarrow> real \<Rightarrow> osvbng_punt_per_thread_t \<Rightarrow> bool" where
  "policer_ok proto now pt \<longleftrightarrow> 0 < pt_rate pt proto \<and> 0 \<le> pt_tokens pt proto \<and> 1 \<le> pt_burst pt proto \<and> pt_last_update pt proto \<le> now"

lemma policer_step:
  assumes "policer_ok proto now pt" and "osvbng_punt_policer_allow pt now proto = (allowed, pt')"
  shows "policer_ok proto now pt'" and "policer_credit proto T pt' + (if allowed then 1 else 0) \<le> policer_credit proto T pt"
proof -
  have "0 \<le> (now - pt_last_update pt proto) * pt_rate pt proto" using assms(1) by (simp add: policer_ok_def)
  then show "policer_ok proto now pt'" using assms by (auto simp: osvbng_punt_policer_allow_def policer_ok_def Let_def split: if_splits)
  show "policer_credit proto T pt' + (if allowed then 1 else 0) \<le> policer_credit proto T pt"
    using assms by (auto simp: osvbng_punt_policer_allow_def policer_ok_def policer_credit_def Let_def algebra_simps split: if_splits)
qed

lemma policer_ok_later: "policer_ok proto now pt \<Longrightarrow> now \<le> now' \<Longrightarrow> policer_ok proto now' pt"
  by (simp add: policer_ok_def)

lemma policer_credit_nonneg: "policer_ok proto now pt \<Longrightarrow> now \<le> T \<Longrightarrow> 0 \<le> policer_credit proto T pt"
  by (simp add: policer_ok_def policer_credit_def)

lemma sum_list_update_real:
  "t < length xs \<Longrightarrow> sum_list (map f (xs[t := x])) = sum_list (map f xs) - f (xs ! t) + (f x :: real)"
  by (induction xs arbitrary: t) (auto split: nat.split)

lemma policer_run_credit:
  assumes "\<forall>pt \<in> set pts. policer_ok proto t0 pt" and "\<forall>(t, now) \<in> set as. t < length pts"
    and "sorted (t0 # map snd as)" and "\<forall>(t, now) \<in> set as. now \<le> T" and "t0 \<le> T"
  shows "real (policer_run proto as pts) \<le> sum_list (map (policer_credit proto T) pts)"
  using assms
proof (induction as arbitrary: pts t0)
  case Nil
  have "0 \<le> policer_credit proto T pt" if "pt \<in> set pts" for pt
    using Nil.prems that by (intro policer_credit_nonneg [of proto t0]) auto
  then show ?case by (auto intro!: sum_list_nonneg)
next
  case (Cons a as)
  obtain t now where a: "a = (t, now)" by (cases a)
  have t: "t < length pts" and le: "t0 \<le> now" "now \<le> T" using Cons.prems by (auto simp: a)
  obtain allowed pt where al: "osvbng_punt_policer_allow (pts ! t) now proto = (allowed, pt)" by fastforce
  have ok: "policer_ok proto now (pts ! t)" using Cons.prems(1) t le by (auto intro: policer_ok_later)
  note s = policer_step [OF ok al]
  have "real (policer_run proto as (pts[t := pt])) \<le> sum_list (map (policer_credit proto T) (pts[t := pt]))"
  proof (rule Cons.IH)
    show "\<forall>pt' \<in> set (pts[t := pt]). policer_ok proto now pt'"
      using Cons.prems(1) s(1) le by (auto dest!: set_update_subset_insert [THEN subsetD] intro: policer_ok_later)
  qed (use Cons.prems le in \<open>auto simp: a\<close>)
  with s(2) [of T] show ?case by (cases allowed) (simp_all add: a al sum_list_update_real [OF t])
qed

section \<open>The broadcast route of DHCP\<close>

text \<open>The FIBs that hold the route after a list of requests.\<close>

fun bcast_apply_effect :: "punt_effect \<Rightarrow> u32 set \<Rightarrow> u32 set" where
  "bcast_apply_effect (Bcast_Add fib) R = insert fib R"
| "bcast_apply_effect (Bcast_Remove fib) R = R - {fib}"
| "bcast_apply_effect _ R = R"

definition bcast_apply :: "punt_effect list \<Rightarrow> u32 set \<Rightarrow> u32 set" where
  "bcast_apply fx R = fold bcast_apply_effect fx R"

text \<open>
  A call that enables or disables DHCPv4 on an interface, with the FIB the interface is in at that time.
  A history of calls, the latest first, has for every FIB a count that does not go below 0; for every
  enabled interface the FIB it was in when it was enabled; and is clean when interfaces are enabled only while they
  are not, and disabled only while they are and are still in that FIB.
\<close>

type_synonym bcast_call = "bool \<times> u32 \<times> u32"

fun bcast_count :: "bcast_call list \<Rightarrow> u32 \<Rightarrow> nat" where
  "bcast_count [] fib = 0"
| "bcast_count ((enable, sw, f) # cs) fib =
     (if f \<noteq> fib then bcast_count cs fib else if enable then Suc (bcast_count cs fib) else bcast_count cs fib - 1)"

fun bcast_at :: "bcast_call list \<Rightarrow> u32 \<Rightarrow> u32 option" where
  "bcast_at [] = (\<lambda>_. None)"
| "bcast_at ((enable, sw, f) # cs) = (bcast_at cs)(sw := (if enable then Some f else None))"

fun bcast_clean :: "bcast_call list \<Rightarrow> bool" where
  "bcast_clean [] \<longleftrightarrow> True"
| "bcast_clean ((enable, sw, f) # cs) \<longleftrightarrow> bcast_clean cs \<and> bcast_at cs sw = (if enable then None else Some f)"

text \<open>Any calls in any order; whatever else happens keeps the two tables.\<close>

inductive bcast_reach :: "osvbng_punt_main_t \<Rightarrow> u32 set \<Rightarrow> bcast_call list \<Rightarrow> bool" where
  start: "\<lbrakk>pm_enabled pm OSVBNG_PUNT_PROTO_DHCPV4 = {}; pm_dhcp_bcast_refs pm = (\<lambda>_. None)\<rbrakk> \<Longrightarrow> bcast_reach pm {} []"
| enable: "\<lbrakk>bcast_reach pm R cs; osvbng_punt_enable_dhcpv4 x sw pm = (fx, pm')\<rbrakk> \<Longrightarrow>
    bcast_reach pm' (bcast_apply fx R) ((True, sw, px_fib_of x sw) # cs)"
| disable: "\<lbrakk>bcast_reach pm R cs; osvbng_punt_disable_dhcpv4 x sw pm = (fx, pm')\<rbrakk> \<Longrightarrow>
    bcast_reach pm' (bcast_apply fx R) ((False, sw, px_fib_of x sw) # cs)"
| other: "\<lbrakk>bcast_reach pm R cs; pm_enabled pm' OSVBNG_PUNT_PROTO_DHCPV4 = pm_enabled pm OSVBNG_PUNT_PROTO_DHCPV4;
    pm_dhcp_bcast_refs pm' = pm_dhcp_bcast_refs pm\<rbrakk> \<Longrightarrow> bcast_reach pm' R cs"

lemma bcast_count_le: "bcast_count cs fib \<le> length cs"
  by (induction cs fib rule: bcast_count.induct) (auto split: if_splits)

text \<open>In a clean history the count of a FIB is the number of interfaces enabled in it.\<close>

lemma card_map_upd:
  fixes m :: "u32 \<Rightarrow> u32 option"
  shows "m sw = None \<Longrightarrow> card {s. (m(sw \<mapsto> f)) s = Some fib} = card {s. m s = Some fib} + (if f = fib then 1 else 0)"
    and "m sw = Some f \<Longrightarrow> card {s. (m(sw := None)) s = Some fib} = card {s. m s = Some fib} - (if f = fib then 1 else 0)"
proof -
  assume n: "m sw = None"
  have "{s. (m(sw \<mapsto> f)) s = Some fib} = (if f = fib then insert sw {s. m s = Some fib} else {s. m s = Some fib})"
    using n by (auto split: if_splits)
  with n show "card {s. (m(sw \<mapsto> f)) s = Some fib} = card {s. m s = Some fib} + (if f = fib then 1 else 0)" by simp
next
  assume n: "m sw = Some f"
  have "{s. (m(sw := None)) s = Some fib} = {s. m s = Some fib} - (if f = fib then {sw} else {})"
    using n by (auto split: if_splits)
  with n show "card {s. (m(sw := None)) s = Some fib} = card {s. m s = Some fib} - (if f = fib then 1 else 0)" by simp
qed

lemma bcast_count_clean: "bcast_clean cs \<Longrightarrow> bcast_count cs fib = card {sw. bcast_at cs sw = Some fib}"
proof (induction cs)
  case (Cons a cs)
  obtain enable sw f where "a = (enable, sw, f)" by (cases a)
  with Cons show ?case using card_map_upd [of "bcast_at cs" sw f fib] by (cases enable) auto
qed simp

text \<open>The table of references and the routes hold what the history says.\<close>

definition bcast_refs :: "(u32 \<Rightarrow> nat) \<Rightarrow> u32 \<Rightarrow> u64 option" where
  "bcast_refs c = (\<lambda>fib. if c fib = 0 then None else Some (word_of_nat (c fib)))"

lemma bcast_reach_inv:
  "\<lbrakk>bcast_reach pm R cs; length cs < 2 ^ 64\<rbrakk> \<Longrightarrow>
     pm_dhcp_bcast_refs pm = bcast_refs (bcast_count cs) \<and> R = {fib. bcast_count cs fib \<noteq> 0}
   \<and> pm_enabled pm OSVBNG_PUNT_PROTO_DHCPV4 = dom (bcast_at cs)"
proof (induction rule: bcast_reach.induct)
  case (start pm)
  then show ?case by (simp add: bcast_refs_def)
next
  case (enable pm R cs x sw fx pm')
  have IH: "pm_dhcp_bcast_refs pm = bcast_refs (bcast_count cs)" "R = {fib. bcast_count cs fib \<noteq> 0}"
    "pm_enabled pm OSVBNG_PUNT_PROTO_DHCPV4 = dom (bcast_at cs)" using enable by simp_all
  have "pm_dhcp_bcast_refs pm' = bcast_refs (bcast_count ((True, sw, px_fib_of x sw) # cs))"
    using enable.hyps(2) IH(1)
    by (auto simp: osvbng_punt_enable_dhcpv4_def osvbng_punt_dhcp_bcast_route_def punt_set_enabled_def Let_def
      bcast_refs_def fun_eq_iff add.commute split: option.splits if_splits)
  moreover have "bcast_apply fx R = insert (px_fib_of x sw) R"
    using enable.hyps(2) IH(1,2)
    by (auto simp: osvbng_punt_enable_dhcpv4_def osvbng_punt_dhcp_bcast_route_def punt_set_enabled_def Let_def
      bcast_refs_def bcast_apply_def split: option.splits if_splits)
  moreover have "pm_enabled pm' OSVBNG_PUNT_PROTO_DHCPV4 = insert sw (pm_enabled pm OSVBNG_PUNT_PROTO_DHCPV4)"
    using enable.hyps(2)
    by (auto simp: osvbng_punt_enable_dhcpv4_def osvbng_punt_dhcp_bcast_route_def punt_set_enabled_def Let_def
      split: option.splits)
  ultimately show ?case using IH(2,3) by (intro conjI) (simp only:, auto split: if_splits)
next
  case (disable pm R cs x sw fx pm')
  let ?f = "px_fib_of x sw"
  have IH: "pm_dhcp_bcast_refs pm = bcast_refs (bcast_count cs)" "R = {fib. bcast_count cs fib \<noteq> 0}"
    "pm_enabled pm OSVBNG_PUNT_PROTO_DHCPV4 = dom (bcast_at cs)" using disable by simp_all
  have small: "bcast_count cs ?f < 2 ^ 64" using bcast_count_le [of cs ?f] disable.prems by simp
  then have le: "(word_of_nat (bcast_count cs ?f) :: u64) \<le> 1 \<longleftrightarrow> bcast_count cs ?f \<le> 1"
    using unat_of_nat_u64 [of "bcast_count cs ?f"] by (simp add: word_le_nat_alt)
  have dec: "(word_of_nat (bcast_count cs ?f) :: u64) - 1 = word_of_nat (bcast_count cs ?f - 1)" if "bcast_count cs ?f \<noteq> 0"
    using that by (cases "bcast_count cs ?f") simp_all
  have "pm_dhcp_bcast_refs pm' = bcast_refs (bcast_count ((False, sw, ?f) # cs))"
    using disable.hyps(2) le dec
    by (auto simp: osvbng_punt_disable_dhcpv4_def osvbng_punt_dhcp_bcast_route_def punt_unset_enabled_def Let_def
      IH(1) bcast_refs_def fun_eq_iff split: option.splits if_splits)
  moreover have "bcast_apply fx R = (if bcast_count cs ?f \<le> 1 then R - {?f} else R)"
    using disable.hyps(2) IH(1,2) le
    by (auto simp: osvbng_punt_disable_dhcpv4_def osvbng_punt_dhcp_bcast_route_def punt_unset_enabled_def Let_def
      bcast_refs_def bcast_apply_def punt_last_gone_def split: option.splits if_splits)
  moreover have "pm_enabled pm' OSVBNG_PUNT_PROTO_DHCPV4 = pm_enabled pm OSVBNG_PUNT_PROTO_DHCPV4 - {sw}"
    using disable.hyps(2)
    by (auto simp: osvbng_punt_disable_dhcpv4_def osvbng_punt_dhcp_bcast_route_def punt_unset_enabled_def Let_def
      split: option.splits if_splits)
  ultimately show ?case using IH(2,3) by (intro conjI) (simp only:, auto split: if_splits)
next
  case (other pm R cs pm')
  then show ?case by simp
qed

section \<open>The egress node\<close>

lemma swap_out:
  assumes "distinct xs" and "i < length xs"
  shows "set (egress_swap_out i xs) = set xs - {xs ! i}" and "distinct (egress_swap_out i xs)"
    and "length (egress_swap_out i xs) = length xs - 1"
proof -
  obtain ys y where xs: "xs = ys @ [y]" using assms(2) by (cases xs rule: rev_cases) auto
  have d: "distinct ys" "y \<notin> set ys" using assms(1) by (auto simp: xs)
  have "set (ys[i := y]) = insert y (set ys - {ys ! i})" if "i < length ys"
    using d(1) that by (simp add: set_update_distinct)
  then show "set (egress_swap_out i xs) = set xs - {xs ! i}"
    using assms d by (auto simp: egress_swap_out_def xs nth_append)
  show "distinct (egress_swap_out i xs)"
    using assms d by (auto simp: egress_swap_out_def xs intro!: distinct_list_update)
  show "length (egress_swap_out i xs) = length xs - 1" by (simp add: egress_swap_out_def xs)
qed

lemma distinct_of_map: "distinct (map f xs) \<Longrightarrow> distinct xs"
  by (simp add: distinct_map)

lemma map_swap_out: "xs \<noteq> [] \<Longrightarrow> map f (egress_swap_out i xs) = egress_swap_out i (map f xs)"
  by (simp add: egress_swap_out_def map_update map_butlast last_map)

text \<open>The frames a batch holds for a node, and what the node has handed over and still holds.\<close>

definition batch_of :: "u32 \<Rightarrow> egress_batch \<Rightarrow> egress_frame list" where
  "batch_of node b = concat (map snd (filter (\<lambda>p. fst p = node) b))"

lemma batch_of_simps [simp]:
  "batch_of node [] = []" "batch_of node (p # b) = (if fst p = node then snd p else []) @ batch_of node b"
  "batch_of node (b @ c) = batch_of node b @ batch_of node c"
  by (simp_all add: batch_of_def)

lemma batch_of_none: "node \<notin> fst ` set b \<Longrightarrow> batch_of node b = []"
  by (induction b) auto

lemma batch_of_unique: "distinct (map fst b) \<Longrightarrow> (node, fs) \<in> set b \<Longrightarrow> batch_of node b = fs"
  by (induction b) (auto simp: batch_of_none image_iff)

definition pending_ok :: "egress_batch \<Rightarrow> bool" where
  "pending_ok b \<longleftrightarrow> distinct (map fst b) \<and> length b \<le> OSVBNG_EGRESS_MAX_IFS \<and>
     (\<forall>(node, fs) \<in> set b. fs \<noteq> [] \<and> length fs < VLIB_FRAME_SIZE)"

definition puts_ok :: "egress_batch \<Rightarrow> bool" where
  "puts_ok b \<longleftrightarrow> (\<forall>(node, fs) \<in> set b. fs \<noteq> [] \<and> length fs \<le> VLIB_FRAME_SIZE)"

lemma egress_find_Some:
  assumes "egress_find node b = Some i"
  shows "i < length b" and "fst (b ! i) = node"
  using assms by (auto simp: egress_find_def find_Some_iff)

lemma egress_find_None: "egress_find node b = None \<Longrightarrow> node \<notin> fst ` set b"
  by (force simp: egress_find_def find_None_iff in_set_conv_nth)

lemma batch_of_update:
  assumes "distinct (map fst b)" and "i < length b" and "fst (b ! i) = node"
  shows "batch_of n (b[i := (node, fs)]) = (if n = node then fs else batch_of n b)"
proof (cases "n = node")
  case True
  have "map fst (b[i := (node, fs)]) = map fst b"
    using assms(2,3) by (metis fst_conv list_update_id map_update)
  with assms show ?thesis
    by (simp add: True batch_of_unique set_update_memI)
next
  case False
  show ?thesis
  proof (cases "n \<in> fst ` set b")
    case True
    then obtain gs where g: "(n, gs) \<in> set b" by auto
    then obtain j where j: "j < length b" "b ! j = (n, gs)" by (auto simp: in_set_conv_nth)
    have "j \<noteq> i" using j(2) assms(3) False by auto
    then have "b[i := (node, fs)] ! j = (n, gs)" using j by simp
    then have "(n, gs) \<in> set (b[i := (node, fs)])" using j(1) by (metis length_list_update nth_mem)
    moreover have "map fst (b[i := (node, fs)]) = map fst b"
      using assms(2,3) by (metis fst_conv list_update_id map_update)
    ultimately show ?thesis using g assms(1) False by (simp add: batch_of_unique)
  next
    case no: False
    then have "n \<notin> fst ` set (b[i := (node, fs)])"
      using False by (auto dest!: set_update_subset_insert [THEN subsetD])
    with no False show ?thesis by (simp add: batch_of_none)
  qed
qed

lemma batch_of_swap_out:
  assumes "distinct (map fst b)" and "i < length b"
  shows "batch_of n (egress_swap_out i b) = (if n = fst (b ! i) then [] else batch_of n b)"
    and "distinct (map fst (egress_swap_out i b))"
proof -
  have ne: "b \<noteq> []" using assms(2) by auto
  have d: "distinct b" using assms(1) by (rule distinct_of_map)
  have m: "map fst (egress_swap_out i b) = egress_swap_out i (map fst b)" by (rule map_swap_out [OF ne])
  show d': "distinct (map fst (egress_swap_out i b))"
    unfolding m by (rule swap_out(2)) (use assms in simp_all)
  have s: "fst ` set (egress_swap_out i b) = fst ` set b - {fst (b ! i)}"
    using swap_out(1) [OF assms(1), of i] assms(2) m by (metis length_map nth_map set_map)
  show "batch_of n (egress_swap_out i b) = (if n = fst (b ! i) then [] else batch_of n b)"
  proof (cases "n = fst (b ! i) \<or> n \<notin> fst ` set b")
    case True
    with s show ?thesis by (auto simp: batch_of_none)
  next
    case False
    then obtain gs where g: "(n, gs) \<in> set b" by auto
    have "(n, gs) \<noteq> b ! i" using False by (metis fst_conv)
    then have "(n, gs) \<in> set (egress_swap_out i b)" using g by (simp add: swap_out(1) [OF d assms(2)])
    with g False assms(1) d' show ?thesis by (simp add: batch_of_unique)
  qed
qed

lemma egress_join_step:
  assumes ok: "pending_ok pending" "puts_ok puts" and run: "egress_join node f pending puts = (pending', puts')"
  shows "pending_ok pending'" and "puts_ok puts'"
    and "batch_of n (puts' @ pending') = batch_of n (puts @ pending) @ (if n = node then [f] else [])"
proof -
  have "pending_ok pending' \<and> puts_ok puts' \<and>
    batch_of n (puts' @ pending') = batch_of n (puts @ pending) @ (if n = node then [f] else [])"
  proof (cases "egress_find node pending")
    case None
    note nn = egress_find_None [OF None]
    with None run ok show ?thesis
      by (auto simp: egress_join_def pending_ok_def puts_ok_def VLIB_FRAME_SIZE_def batch_of_none split: if_splits)
  next
    case (Some i)
    note i = egress_find_Some [OF Some]
    have d: "distinct (map fst pending)" using ok by (simp add: pending_ok_def)
    obtain fs where fs: "pending ! i = (node, fs)" using i(2) by (metis prod.collapse)
    then have mem: "(node, fs) \<in> set pending" using i(1) by (metis nth_mem)
    have len: "length fs < VLIB_FRAME_SIZE" "fs \<noteq> []" using ok mem by (auto simp: pending_ok_def)
    have b: "batch_of node pending = fs" by (rule batch_of_unique [OF d mem])
    show ?thesis
    proof (cases "VLIB_FRAME_SIZE \<le> length (fs @ [f])")
      case True
      with run Some fs have r: "pending' = egress_swap_out i pending" "puts' = puts @ [(node, fs @ [f])]"
        by (auto simp: egress_join_def Let_def)
      note so = batch_of_swap_out [OF d i(1)]
      have "set pending' \<subseteq> set pending" using swap_out(1) [OF distinct_of_map [OF d] i(1)] by (auto simp: r)
      moreover have "length pending' \<le> length pending" using swap_out(3) [OF distinct_of_map [OF d] i(1)] by (simp add: r)
      ultimately have "pending_ok pending'" using ok so(2) by (auto simp: pending_ok_def r)
      moreover have "puts_ok puts'" using ok len by (simp add: puts_ok_def r)
      moreover have "batch_of n (puts' @ pending') = batch_of n (puts @ pending) @ (if n = node then [f] else [])"
        using so(1) [of n] fs b by (simp add: r)
      ultimately show ?thesis by simp
    next
      case False
      with run Some fs have r: "pending' = pending[i := (node, fs @ [f])]" "puts' = puts"
        by (auto simp: egress_join_def Let_def)
      have "map fst pending' = map fst pending" using i fs unfolding r by (metis fst_conv list_update_id map_update)
      moreover have "\<forall>(node, fs) \<in> set pending'. fs \<noteq> [] \<and> length fs < VLIB_FRAME_SIZE"
        using ok False by (auto simp: r pending_ok_def dest!: set_update_subset_insert [THEN subsetD])
      moreover have "length pending' = length pending" by (simp add: r)
      ultimately have "pending_ok pending'" using ok d by (simp add: pending_ok_def)
      with ok batch_of_update [OF d i, of n "fs @ [f]"] b show ?thesis by (simp add: r)
    qed
  qed
  then show "pending_ok pending'" and "puts_ok puts'"
    and "batch_of n (puts' @ pending') = batch_of n (puts @ pending) @ (if n = node then [f] else [])" by simp_all
qed

text \<open>The descriptors from the tail on, and what is sent for them.\<close>

definition egress_descs :: "osvbng_punt_main_t \<Rightarrow> u64 \<Rightarrow> nat \<Rightarrow> osvbng_egress_desc_t list" where
  "egress_descs pm tail k =
     map (\<lambda>j. pm_egress_descs pm (punt_slot (pm_egress_ring_size pm) (tail + word_of_nat j))) [0..<k]"

definition egress_sends ::
  "egress_ext \<Rightarrow> osvbng_punt_main_t \<Rightarrow> osvbng_egress_desc_t list \<Rightarrow> (u32 \<times> egress_frame) list"
where
  "egress_sends x pm ds =
     List.map_filter (\<lambda>d. map_option (\<lambda>node. (node, egress_bytes x (pm_mem pm) d)) (egress_target x d)) ds"

lemma egress_descs_Suc:
  "egress_descs pm tail (Suc k) =
     pm_egress_descs pm (punt_slot (pm_egress_ring_size pm) tail) # egress_descs pm (tail + 1) k"
  by (simp add: egress_descs_def map_upt_Suc add.assoc del: upt_Suc)

lemma egress_sends_simps:
  "egress_sends x pm [] = []"
  "egress_sends x pm (d # ds) =
     (case egress_target x d of None \<Rightarrow> [] | Some node \<Rightarrow> [(node, egress_bytes x (pm_mem pm) d)]) @ egress_sends x pm ds"
  by (simp_all add: egress_sends_def map_filter_simps split: option.split)

text \<open>The outcome of the loop from a state \<open>r\<close>: it takes \<open>k\<close> descriptors.\<close>

definition egress_took ::
  "egress_ext \<Rightarrow> osvbng_punt_main_t \<Rightarrow> u64 \<Rightarrow> egress_run \<Rightarrow> egress_run \<Rightarrow> nat \<Rightarrow> bool"
where
  "egress_took x pm head r r' k \<longleftrightarrow>
     k \<le> unat (head - er_tail r) \<and> er_tail r' = er_tail r + word_of_nat k
   \<and> er_n_tx r' = er_n_tx r + length (egress_sends x pm (egress_descs pm (er_tail r) k))
   \<and> (\<forall>n. batch_of n (er_puts r' @ er_pending r') = batch_of n (er_puts r @ er_pending r)
        @ map snd (filter (\<lambda>s. fst s = n) (egress_sends x pm (egress_descs pm (er_tail r) k))))
   \<and> pending_ok (er_pending r') \<and> puts_ok (er_puts r') \<and> er_n_tx r' \<le> OSVBNG_EGRESS_MAX_BATCH
   \<and> (er_tail r' = head \<or> er_n_tx r' = OSVBNG_EGRESS_MAX_BATCH \<or> er_alloc_fail r')"

lemma egress_took_none:
  assumes "pending_ok (er_pending r)" and "puts_ok (er_puts r)" and "er_n_tx r \<le> OSVBNG_EGRESS_MAX_BATCH"
    and "er_tail r = head \<or> er_n_tx r = OSVBNG_EGRESS_MAX_BATCH \<or> b"
  shows "egress_took x pm head r (r\<lparr>er_alloc_fail := er_alloc_fail r \<or> b\<rparr>) 0"
  using assms by (auto simp: egress_took_def egress_descs_def egress_sends_simps)

lemma egress_took_Suc:
  assumes took: "egress_took x pm head r1 r' k" and tail: "er_tail r1 = er_tail r + 1" and more: "er_tail r \<noteq> head"
    and one: "er_n_tx r1 = er_n_tx r + length (egress_sends x pm [pm_egress_descs pm (punt_slot (pm_egress_ring_size pm) (er_tail r))])"
      "\<And>n. batch_of n (er_puts r1 @ er_pending r1) = batch_of n (er_puts r @ er_pending r) @ map snd (filter (\<lambda>s. fst s = n)
        (egress_sends x pm [pm_egress_descs pm (punt_slot (pm_egress_ring_size pm) (er_tail r))]))"
  shows "egress_took x pm head r r' (Suc k)"
proof -
  let ?d = "pm_egress_descs pm (punt_slot (pm_egress_ring_size pm) (er_tail r))"
  have "k \<le> unat (head - (er_tail r + 1))" using took by (simp add: egress_took_def tail)
  with egress_measure [OF more] have k: "Suc k \<le> unat (head - er_tail r)" by simp
  have s: "egress_sends x pm (egress_descs pm (er_tail r) (Suc k)) =
      egress_sends x pm [?d] @ egress_sends x pm (egress_descs pm (er_tail r1) k)"
    by (simp add: egress_descs_Suc tail egress_sends_simps)
  have "er_tail r + word_of_nat (Suc k) = er_tail r1 + word_of_nat k" by (simp add: tail)
  with took k one show ?thesis unfolding egress_took_def s by (auto simp: tail)
qed

lemma egress_loop_takes:
  "\<lbrakk>pending_ok (er_pending r); puts_ok (er_puts r); er_n_tx r \<le> OSVBNG_EGRESS_MAX_BATCH\<rbrakk> \<Longrightarrow>
   \<exists>k. egress_took x pm head r (egress_loop x pm head r) k"
proof (induction x pm head r rule: egress_loop.induct)
  case (1 x pm head r)
  let ?d = "pm_egress_descs pm (punt_slot (pm_egress_ring_size pm) (er_tail r))"
  show ?case
  proof (cases "er_tail r \<noteq> head \<and> er_n_tx r < OSVBNG_EGRESS_MAX_BATCH")
    case False
    then have "er_tail r = head \<or> er_n_tx r = OSVBNG_EGRESS_MAX_BATCH \<or> False" using 1(5) by auto
    from egress_took_none [OF 1(3,4,5) this] have "egress_took x pm head r r 0" by simp
    with False show ?thesis by (subst egress_loop.simps) auto
  next
    case go: True
    show ?thesis
    proof (cases "egress_target x ?d")
      case None
      let ?r = "r\<lparr>er_tail := er_tail r + 1\<rparr>"
      obtain k where k: "egress_took x pm head ?r (egress_loop x pm head ?r) k"
        using 1(1) [OF go HOL.refl None] 1(3-5) by auto
      have "egress_took x pm head r (egress_loop x pm head ?r) (Suc k)"
        by (rule egress_took_Suc [OF k]) (use go None in \<open>auto simp: egress_sends_simps\<close>)
      moreover have "egress_loop x pm head r = egress_loop x pm head ?r"
        using go None by (subst egress_loop.simps) (simp add: Let_def)
      ultimately show ?thesis by auto
    next
      case (Some node)
      show ?thesis
      proof (cases "ex_alloc x (er_n_tx r)")
        case False
        have "egress_loop x pm head r = r\<lparr>er_alloc_fail := True\<rparr>"
          using go Some False by (subst egress_loop.simps) (simp add: Let_def)
        then show ?thesis using egress_took_none [OF 1(3,4,5), of head True x pm] by (intro exI [of _ 0]) simp
      next
        case True
        obtain pending puts where j: "egress_join node (egress_bytes x (pm_mem pm) ?d) (er_pending r) (er_puts r) = (pending, puts)"
          by fastforce
        let ?r = "r\<lparr>er_tail := er_tail r + 1, er_n_tx := Suc (er_n_tx r), er_pending := pending, er_puts := puts\<rparr>"
        note st = egress_join_step [OF 1(3,4) j]
        obtain k where k: "egress_took x pm head ?r (egress_loop x pm head ?r) k"
          using 1(2) [OF go HOL.refl Some _ j [symmetric]] True st(1,2) go by auto
        have "egress_took x pm head r (egress_loop x pm head ?r) (Suc k)"
        proof (rule egress_took_Suc [OF k])
          fix n
          show "batch_of n (er_puts ?r @ er_pending ?r) = batch_of n (er_puts r @ er_pending r) @
              map snd (filter (\<lambda>s. fst s = n) (egress_sends x pm [?d]))"
            using st(3) [of n] Some by (simp add: egress_sends_simps)
        qed (use go Some in \<open>simp_all add: egress_sends_simps\<close>)
        moreover have "egress_loop x pm head r = egress_loop x pm head ?r"
          using go Some True j by (subst egress_loop.simps) (simp add: Let_def)
        ultimately show ?thesis by auto
      qed
    qed
  qed
qed

section \<open>A run\<close>

text \<open>
  Two threads, rings of two descriptors, slots of four bytes; one frame is punted by thread 1, one
  is injected and sent, and two interfaces of one FIB get DHCPv4.
\<close>

definition pdemo0 :: osvbng_punt_main_t where
  "pdemo0 = \<lparr>pm_enabled = (\<lambda>_. {}), pm_dhcp_bcast_refs = (\<lambda>_. None), pm_mem = (\<lambda>_. 0), pm_shm_size = 0,
     pm_shm_initialized = False, pm_punt_ring_size = 2, pm_egress_ring_size = 2, pm_slot_size = 4,
     pm_n_punt_rings = 0, pm_punt_ring_stride = 0, pm_punt_data_offset = 0, pm_egress_data_offset = 0,
     pm_egress_ring_offset = 0, pm_per_thread = [], pm_egress_ring = ring_zero,
     pm_egress_descs = (\<lambda>_. \<lparr>ed_data_offset = 0, ed_sw_if_index = 0, ed_data_length = 0\<rparr>), pm_egress_tail = 0,
     pm_egress_transmitted = 0, pm_egress_alloc_fail = 0, pm_l2tpv2_input_next_arc = nil32,
     pm_policer_rate = (\<lambda>_. 1000), pm_policer_burst = (\<lambda>_. 1), pm_events = 0\<rparr>"

definition pdemo1 :: osvbng_punt_main_t where
  "pdemo1 = snd (osvbng_punt_shm_init [True, True, True, True, True] 2 pdemo0)"

definition pdemo2 :: osvbng_punt_main_t where
  "pdemo2 = snd (osvbng_punt_to_shm 1 1 [1, 2, 3, 4, 5] 7 2 0 0 pdemo1)"

lemma upt_2: "[0..<2] = [0, 1 :: nat]"
  by (simp add: upt_rec)

lemma pdemo1_facts:
  "osvbng_punt_shm_init [True, True, True, True, True] 2 pdemo0 = (True, pdemo1)"
  "punt_fits pdemo1" "pm_punt_ring_size pdemo1 = 2" "pm_slot_size pdemo1 = 4" "pm_shm_initialized pdemo1"
  "length (pm_per_thread pdemo1) = 2" "pm_shm_size pdemo1 = 400"
  by (simp_all add: pdemo1_def osvbng_punt_shm_init_def Let_def pdemo0_def or_default32_def punt_fits_def punt_total_def
    osvbng_shm_calc_size_def osvbng_punt_ring_stride_def punt_sizeof_defs)

lemma pdemo1_pow2: "pow2_size (pm_punt_ring_size pdemo1)"
  unfolding pow2_size_def by (rule exI [of _ 1]) (simp add: pdemo1_facts)

lemma pdemo1_reach: "punt_reach pdemo1 (\<lambda>_. [])"
  by (rule punt_reach.start [OF pdemo1_facts(1,2) pdemo1_pow2])

lemma pdemo1_rate: "pt_rate (pm_per_thread pdemo1 ! 1) proto = 0"
  by (simp add: pdemo1_def osvbng_punt_shm_init_def Let_def pdemo0_def or_default32_def per_thread_init_def upt_2)

lemma pdemo2_reach: "punt_reach pdemo2 ((\<lambda>_. [])(1 := [(7, 2, 0, 0, [1, 2, 3, 4])]))"
proof -
  obtain ok where run: "osvbng_punt_to_shm 1 1 [1, 2, 3, 4, 5] 7 2 0 0 pdemo1 = (ok, pdemo2)"
    unfolding pdemo2_def by (metis prod.collapse)
  have "punt_agrees pdemo1 (\<lambda>_. [])" using punt_reach_agrees [OF pdemo1_reach] by simp
  from to_shm_agrees(2) [OF this _ run] have ok
    by (simp add: pdemo1_facts osvbng_punt_policer_allow_def pdemo1_rate [simplified])
  with punt_reach.punt [OF pdemo1_reach _ run] show ?thesis
    by (simp add: punt_msg_of_def pdemo1_facts fun_upd_def)
qed

section \<open>Properties\<close>

text \<open>
  C34: When its size fits 32 bits, the parts of the shared region (the header, the ring of every thread,
  the egress ring, every data slot of every punt ring, every egress slot) tile it exactly: none
  overlaps another, none lies outside the mapping.  Nothing is said of a size that does not fit.
\<close>

theorem shm_regions_disjoint:
  assumes "osvbng_punt_shm_init os n pm0 = (True, pm)" and "punt_fits pm"
  shows "tiles 0 (punt_regions pm) (unat (pm_shm_size pm))"
  by (rule punt_regions_tile [OF assms])

theorem shm_regions_disjoint_witness: "tiles 0 (punt_regions pdemo1) 400"
  using shm_regions_disjoint [OF pdemo1_facts(1,2)] by (simp add: pdemo1_facts)

text \<open>
  C24: However the packets of a protocol spread over the threads, from the moment the policer is
  configured at most the burst on every thread and the configured rate over the time that has
  passed get through; the default of at least one packet of burst included.
\<close>

theorem policer_aggregate_bound:
  assumes "0 < pm_policer_rate pm proto" and "proto < OSVBNG_PUNT_N_PROTO" and "pm_per_thread pm \<noteq> []"
    and "\<forall>(t, now) \<in> set as. t < length (pm_per_thread pm) \<and> now \<le> T" and "sorted (t0 # map snd as)" and "t0 \<le> T"
  shows "real (policer_run proto as (pm_per_thread (osvbng_punt_policer_apply t0 pm)))
    \<le> real (length (pm_per_thread pm)) * max 1 (real (unat (pm_policer_burst pm proto))) + pm_policer_rate pm proto * (T - t0)"
proof -
  let ?pts = "pm_per_thread (osvbng_punt_policer_apply t0 pm)" and ?n = "length (pm_per_thread pm)"
  let ?c = "max 1 (real (unat (pm_policer_burst pm proto))) + pm_policer_rate pm proto / real ?n * (T - t0)"
  have ok: "\<forall>pt \<in> set ?pts. policer_ok proto t0 pt"
    using assms(1-3) by (auto simp: osvbng_punt_policer_apply_def policer_share_def policer_ok_def Let_def)
  have "real (policer_run proto as ?pts) \<le> sum_list (map (policer_credit proto T) ?pts)"
    by (rule policer_run_credit [OF ok]) (use assms in \<open>auto simp: osvbng_punt_policer_apply_def\<close>)
  also have "map (policer_credit proto T) ?pts = replicate ?n ?c"
    using assms(2) by (auto intro!: nth_equalityI simp: osvbng_punt_policer_apply_def policer_share_def policer_credit_def Let_def max_def)
  also have "sum_list (replicate ?n ?c) = real ?n * ?c" by (simp add: sum_list_replicate)
  also have "\<dots> = real ?n * max 1 (real (unat (pm_policer_burst pm proto))) + pm_policer_rate pm proto * (T - t0)"
    using assms(3) by (simp add: distrib_left)
  finally show ?thesis .
qed

definition pdemo3 :: osvbng_punt_main_t where
  "pdemo3 = pdemo0\<lparr>pm_policer_rate := (\<lambda>_. 1), pm_policer_burst := (\<lambda>_. 3),
     pm_per_thread := [per_thread_init pdemo0 0 0, per_thread_init pdemo0 0 1]\<rparr>"

theorem policer_aggregate_bound_witness:
  "real (policer_run 0 [(0, 1), (1, 2), (0, 3)] (pm_per_thread (osvbng_punt_policer_apply 0 pdemo3))) \<le> 9"
  using policer_aggregate_bound [of pdemo3 0 "[(0, 1), (1, 2), (0, 3)]" 3 0]
  by (simp add: pdemo3_def pdemo0_def per_thread_init_def OSVBNG_PUNT_N_PROTO_def)

text \<open>
  C23: In every reachable state each thread's ring is a first-in first-out queue of whole frames, cut
  at the slot size: what the control plane reads from tail to head, through the descriptors and
  the data slots, is what was punted and not yet read, whatever the other threads, the
  control plane and the configuration do; and a frame is taken exactly when the policer lets it
  pass and the ring is not full.
\<close>

theorem punt_rings_are_fifo:
  assumes "punt_reach pm Q" and "t < length (pm_per_thread pm)" and "length frame < 2 ^ 16"
  shows "punt_view (pm_punt_ring_size pm) (pm_mem pm) (pm_per_thread pm ! t) = Q t
    \<and> length (Q t) \<le> unat (pm_punt_ring_size pm)
    \<and> (fst (osvbng_punt_to_shm t now frame sw proto ov iv pm) \<longleftrightarrow>
        fst (osvbng_punt_policer_allow (pm_per_thread pm ! t) now proto) \<and> length (Q t) < unat (pm_punt_ring_size pm))"
proof -
  have ag: "punt_agrees pm Q" and ini: "pm_shm_initialized pm" using punt_reach_agrees [OF assms(1)] by simp_all
  obtain ok pm' where run: "osvbng_punt_to_shm t now frame sw proto ov iv pm = (ok, pm')" by fastforce
  have "punt_count (pm_per_thread pm ! t) \<le> unat (pm_punt_ring_size pm)"
    using agrees_thread(1) [OF ag assms(2)] by (simp add: punt_ring_ok_def)
  then show ?thesis
    using agrees_thread(2) [OF ag assms(2)] agrees_len [OF ag assms(2)] to_shm_agrees(2) [OF ag assms(3) run] ini assms(2)
    by (simp add: run)
qed

theorem punt_rings_are_fifo_witness:
  "punt_view 2 (pm_mem pdemo2) (pm_per_thread pdemo2 ! 1) = [(7, 2, 0, 0, [1, 2, 3, 4])]"
proof -
  obtain ok where run: "osvbng_punt_to_shm 1 1 [1, 2, 3, 4, 5] 7 2 0 0 pdemo1 = (ok, pdemo2)"
    unfolding pdemo2_def by (metis prod.collapse)
  have "punt_agrees pdemo1 (\<lambda>_. [])" using punt_reach_agrees [OF pdemo1_reach] by simp
  from to_shm_agrees(3) [OF this _ run] have "pm_punt_ring_size pdemo2 = 2" "length (pm_per_thread pdemo2) = 2"
    by (simp_all add: same_region_def pdemo1_facts)
  with punt_rings_are_fifo [OF pdemo2_reach, of 1 "[]"] show ?thesis by simp
qed

text \<open>
  C31: After any calls that enable or disable DHCPv4 on interfaces, fewer than 2 to the 64 of them, the reference count of a FIB is the
  number of its enabling calls less its disabling ones, not going below 0, and the all-ones route is
  installed in exactly the FIBs whose count is not 0.  When interfaces are enabled only while they
  are not and disabled only while they are and are still in the same FIB, which the code does not check,
  that count is the number of enabled interfaces of the FIB, so the route is in exactly their FIBs.
\<close>

theorem bcast_route_refcounted:
  assumes "bcast_reach pm R cs" and "length cs < 2 ^ 64"
  shows "pm_dhcp_bcast_refs pm fib =
      (if bcast_count cs fib = 0 then None else Some (word_of_nat (bcast_count cs fib)))
    \<and> (fib \<in> R \<longleftrightarrow> bcast_count cs fib \<noteq> 0)
    \<and> pm_enabled pm OSVBNG_PUNT_PROTO_DHCPV4 = {sw. bcast_at cs sw \<noteq> None}
    \<and> (bcast_clean cs \<longrightarrow>
        bcast_count cs fib = card {sw \<in> pm_enabled pm OSVBNG_PUNT_PROTO_DHCPV4. bcast_at cs sw = Some fib} \<and>
        (fib \<in> R \<longleftrightarrow> (\<exists>sw \<in> pm_enabled pm OSVBNG_PUNT_PROTO_DHCPV4. bcast_at cs sw = Some fib)))"
proof -
  note inv = bcast_reach_inv [OF assms]
  have en: "pm_enabled pm OSVBNG_PUNT_PROTO_DHCPV4 = {sw. bcast_at cs sw \<noteq> None}" using inv by (simp add: dom_def)
  have e: "{sw \<in> pm_enabled pm OSVBNG_PUNT_PROTO_DHCPV4. bcast_at cs sw = Some fib} = {sw. bcast_at cs sw = Some fib}"
    using en by auto
  have pos: "bcast_count cs fib \<noteq> 0 \<longleftrightarrow> (\<exists>sw \<in> pm_enabled pm OSVBNG_PUNT_PROTO_DHCPV4. bcast_at cs sw = Some fib)"
    if "bcast_clean cs"
    unfolding bcast_count_clean [OF that] e [symmetric] by (auto simp: card_eq_0_iff)
  show ?thesis
    unfolding e using inv en pos bcast_count_clean [of cs fib] by (intro conjI impI) (simp_all add: bcast_refs_def card_gt_0_iff)
qed

definition pdemo_x :: punt_ext where
  "pdemo_x = \<lparr>px_fib_of = (\<lambda>_. 9), px_sup = (\<lambda>_. None), px_l2tpv2_arc = None\<rparr>"

text \<open>An interface that is enabled twice and disabled once leaves the route behind it.\<close>

lemma repeated_enable_leaks_route:
  "\<exists>pm R. bcast_reach pm R [(False, 5, 9), (True, 5, 9), (True, 5, 9)] \<and>
     pm_enabled pm OSVBNG_PUNT_PROTO_DHCPV4 = {} \<and> 9 \<in> R"
proof -
  obtain f1 p1 where r1: "osvbng_punt_enable_dhcpv4 pdemo_x 5 pdemo0 = (f1, p1)" by fastforce
  obtain f2 p2 where r2: "osvbng_punt_enable_dhcpv4 pdemo_x 5 p1 = (f2, p2)" by fastforce
  obtain f3 p3 where r3: "osvbng_punt_disable_dhcpv4 pdemo_x 5 p2 = (f3, p3)" by fastforce
  have "bcast_reach pdemo0 {} []" by (rule bcast_reach.start) (simp_all add: pdemo0_def)
  from bcast_reach.disable [OF bcast_reach.enable [OF bcast_reach.enable [OF this r1] r2] r3]
  obtain R where r: "bcast_reach p3 R [(False, 5, 9), (True, 5, 9), (True, 5, 9)]" by (auto simp: pdemo_x_def)
  with bcast_reach_inv [OF r] show ?thesis by (intro exI [of _ p3] exI [of _ R]) (auto split: if_splits)
qed

text \<open>Two interfaces of one FIB are enabled and the first is disabled: the route stays, with one reference.\<close>

theorem bcast_route_refcounted_witness:
  "pm_dhcp_bcast_refs (snd (osvbng_punt_disable_dhcpv4 pdemo_x 5 (snd (osvbng_punt_enable_dhcpv4 pdemo_x 6
     (snd (osvbng_punt_enable_dhcpv4 pdemo_x 5 pdemo0)))))) 9 = Some 1"
proof -
  obtain f1 p1 where r1: "osvbng_punt_enable_dhcpv4 pdemo_x 5 pdemo0 = (f1, p1)" by fastforce
  obtain f2 p2 where r2: "osvbng_punt_enable_dhcpv4 pdemo_x 6 p1 = (f2, p2)" by fastforce
  obtain f3 p3 where r3: "osvbng_punt_disable_dhcpv4 pdemo_x 5 p2 = (f3, p3)" by fastforce
  have "bcast_reach pdemo0 {} []" by (rule bcast_reach.start) (simp_all add: pdemo0_def)
  from bcast_reach.disable [OF bcast_reach.enable [OF bcast_reach.enable [OF this r1] r2] r3]
  obtain R where r: "bcast_reach p3 R [(False, 5, 9), (True, 6, 9), (True, 5, 9)]" by (auto simp: pdemo_x_def)
  have "bcast_clean [(False, 5, 9), (True, 6, 9), (True, 5, 9)]" by simp
  with bcast_route_refcounted [OF r, of 9] show ?thesis by (simp add: r1 r2 r3)
qed

text \<open>
  C27: One run of the egress node takes descriptors in order from its tail and hands every output node
  exactly the frames of the taken descriptors that go to it, in their order, however they
  were batched; it stops only at the head, after a batch of 256, or without a buffer, and interrupts
  itself whenever the ring is not empty behind it.
\<close>

theorem egress_delivers_in_order:
  assumes "pm_shm_initialized pm" and "osvbng_egress_node x head' pm = (n, puts, again, pm')"
  shows "\<exists>k \<le> unat (rh_head (pm_egress_ring pm) - pm_egress_tail pm).
    pm_egress_tail pm' = pm_egress_tail pm + word_of_nat k
  \<and> n = length (egress_sends x pm (egress_descs pm (pm_egress_tail pm) k)) \<and> n \<le> 256
  \<and> (\<forall>node. concat (map snd (filter (\<lambda>p. fst p = node) puts)) =
        map snd (filter (\<lambda>s. fst s = node) (egress_sends x pm (egress_descs pm (pm_egress_tail pm) k))))
  \<and> (\<forall>(node, fs) \<in> set puts. fs \<noteq> [] \<and> length fs \<le> 256)
  \<and> (pm_egress_tail pm' = rh_head (pm_egress_ring pm) \<or> n = 256 \<or>
      pm_egress_alloc_fail pm' = pm_egress_alloc_fail pm + 1)
  \<and> (again \<longleftrightarrow> head' \<noteq> pm_egress_tail pm')"
proof -
  let ?r = "\<lparr>er_tail = pm_egress_tail pm, er_n_tx = 0, er_pending = [], er_puts = [], er_alloc_fail = False\<rparr>"
  let ?r' = "egress_loop x pm (rh_head (pm_egress_ring pm)) ?r"
  obtain k where k: "egress_took x pm (rh_head (pm_egress_ring pm)) ?r ?r' k"
    using egress_loop_takes [of ?r x pm "rh_head (pm_egress_ring pm)"] by (auto simp: pending_ok_def puts_ok_def)
  have e: "n = er_n_tx ?r'" "puts = er_puts ?r' @ er_pending ?r'" "again \<longleftrightarrow> head' \<noteq> er_tail ?r'" "pm_egress_tail pm' = er_tail ?r'"
    "pm_egress_alloc_fail pm' = pm_egress_alloc_fail pm + (if er_alloc_fail ?r' then 1 else 0)"
    using assms by (auto simp: osvbng_egress_node_def Let_def)
  have "\<forall>(node, fs) \<in> set puts. fs \<noteq> [] \<and> length fs \<le> 256"
    using k by (auto simp: e(2) egress_took_def pending_ok_def puts_ok_def VLIB_FRAME_SIZE_def)
  moreover have "concat (map snd (filter (\<lambda>p. fst p = node) puts)) =
        map snd (filter (\<lambda>s. fst s = node) (egress_sends x pm (egress_descs pm (pm_egress_tail pm) k)))" for node
    using k by (simp add: e(2) egress_took_def batch_of_def)
  ultimately show ?thesis
    using k by (intro exI [of _ k]) (auto simp: e egress_took_def OSVBNG_EGRESS_MAX_BATCH_def)
qed

definition pdemo_ex :: egress_ext where
  "pdemo_ex = \<lparr>ex_interface = (\<lambda>_. Some (True, False)), ex_output_node = (\<lambda>_. Some 3), ex_max_len = 2048, ex_alloc = (\<lambda>_. True)\<rparr>"

theorem egress_delivers_in_order_witness:
  "\<exists>k \<le> 1. pm_egress_tail (snd (snd (snd (osvbng_egress_node pdemo_ex 1
      (pdemo1\<lparr>pm_egress_ring := ring_zero\<lparr>rh_head := 1\<rparr>\<rparr>))))) = word_of_nat k"
proof -
  let ?pm = "pdemo1\<lparr>pm_egress_ring := ring_zero\<lparr>rh_head := 1\<rparr>\<rparr>"
  have i: "pm_shm_initialized ?pm" and t: "pm_egress_tail ?pm = 0"
    by (simp_all add: pdemo1_facts) (simp add: pdemo1_def osvbng_punt_shm_init_def Let_def pdemo0_def)
  obtain n puts again pm' where r: "osvbng_egress_node pdemo_ex 1 ?pm = (n, puts, again, pm')" by (metis prod_cases4)
  have b: "unat (rh_head (pm_egress_ring ?pm) - pm_egress_tail ?pm) = 1" using t by (simp add: ring_zero_def)
  obtain k where "k \<le> 1" "pm_egress_tail pm' = word_of_nat k"
    using egress_delivers_in_order [OF i r] unfolding b t by auto
  then show ?thesis by (subst r) auto
qed

end
