(* ===== verification/Spec2Isabelle.thy ===== *)
theory Spec2Isabelle
  imports Prelude Cake_Drr Cake_Shaper Cake_Types Cake_Cobalt Cake_Agg Cake_Config
    Intrusive_List Cake_Flow Cake_Sched Cake_Tin Cake_Queue Cake_Dispatch Cake_System
    Cake_Reach Cake_Props Cgnat_Props Ipoe_Props Punt_Props
begin

text \<open>
  A verification development of the osvbng VPP plugins (\<^verbatim>\<open>src/plugins\<close>), the data plane of a
  broadband network gateway.  Paths below are relative to that directory.

  \<^bold>\<open>The program and its parts.\<close>  Every plugin adds nodes to VPP's packet graph and messages to its binary
  API.  A subscriber's frame enters through a session plugin (\<^verbatim>\<open>osvbng_ipoe\<close>, which finds the virtual
  interface of the subscriber), control packets leave for the control plane through shared memory
  (\<^verbatim>\<open>osvbng_punt\<close>), the rest is translated (\<^verbatim>\<open>osvbng_cgnat\<close>), routed, and queued on the way to the
  subscriber (\<^verbatim>\<open>osvbng_qos_sched\<close>, a CAKE scheduler per subscriber interface under S-VLAN and port
  aggregates).  The plugins share no state; each is modelled as a record of its global state, one definition
  per function or handler, and a relation that closes its initial state under its entry points in any order.

  \<^bold>\<open>Prelude.\<close>  C integers are words of their width.  A vppinfra pool is a list of options; the index
  \<^verbatim>\<open>pool_get\<close> returns is an input assumed fresh.  Index fields keep ~0 for none.  A hash table is a map, a
  double is a real, a compare-and-swap loop (\<open>cas_loop\<close>) retries against a list of interfering values.
  What the code asks of VPP is a list of effects, what VPP answers (interfaces, FIBs, checksum routines,
  hashes, the clock, random numbers) is a parameter record of the operation.  None as the outermost result
  means that the C function traps, aborts or does not return; the properties show where it is not None.

  \<^bold>\<open>The scheduler\<close> (\<^verbatim>\<open>osvbng_qos_sched\<close>).
  \<^item> \<^verbatim>\<open>Cake_Drr\<close>: deficit round robin of one child, owner-local and shared by compare-and-swap
    (\<^verbatim>\<open>cake_drr.h\<close>).  The accounting and the progress of both are proved once in the locales \<open>drr_account\<close>
    and \<open>drr_rounds\<close>, interpreted on both.  Shown: a share over a window of rounds is bounded, the shared
    reservation refines the local one, quanta are exact, debt is not forgiven, every child makes progress.
  \<^item> \<^verbatim>\<open>Cake_Shaper\<close>: the rate gate and the occupancy counter (\<^verbatim>\<open>cake_shaper.h\<close>), the latter also as a
    step relation of concurrent workers.  Shown: conformance of what passes, the occupancy limit.
  \<^item> \<^verbatim>\<open>Cake_Types\<close>, \<^verbatim>\<open>Cake_Cobalt\<close>: the records of \<^verbatim>\<open>osvbng_qos_sched.h\<close>, and CoDel and BLUE
    (also \<^verbatim>\<open>cake_cobalt.c\<close>).  Shown: the accuracy of the start-up table, every decision.
  \<^item> \<^verbatim>\<open>Cake_Agg\<close>: charge, discharge, admission and gates along the chain of aggregates.  Shown: all tiers
    or none are charged, a refused packet is unwound, lazy round bytes are equivalent to eager ones.
  \<^item> \<^verbatim>\<open>Cake_Config\<close>: attachment, reparenting, creation, deletion and update of aggregates
    (\<^verbatim>\<open>osvbng_qos_sched.c\<close>).  Shown: attachment to the nearest interface, termination, refused calls
    change nothing.
  \<^item> \<^verbatim>\<open>Intrusive_List\<close>, \<^verbatim>\<open>Cake_Flow\<close>: linked lists threaded through a table (locale \<open>linked_table\<close>,
    interpreted on the flows) and the flows of a tin: classification (\<^verbatim>\<open>cake_enqueue.c\<close>), overhead
    (\<^verbatim>\<open>cake_overhead.c\<close>), lookup, rings, lists.
  \<^item> \<^verbatim>\<open>Cake_Sched\<close>: enqueue (\<^verbatim>\<open>cake_enqueue.c\<close>), dequeue (\<^verbatim>\<open>cake_dequeue.c\<close>), enabling, disabling and
    rates of a scheduler (\<^verbatim>\<open>osvbng_qos_sched.c\<close>).
  \<^item> \<^verbatim>\<open>Cake_Tin\<close>, \<^verbatim>\<open>Cake_Queue\<close>, \<^verbatim>\<open>Cake_Dispatch\<close>, \<^verbatim>\<open>Cake_System\<close>, \<^verbatim>\<open>Cake_Reach\<close>, \<^verbatim>\<open>Cake_Props\<close>: the invariant of a
    tin, of the accounts and of the whole plugin, kept by every entry point, and the properties of the
    states \<open>cake_reach\<close> admits: buffers are conserved, occupancy is exact, no packet is stranded, a dispatch
    returns, shares sum to at most a round.

  \<^bold>\<open>Carrier-grade NAT\<close> (\<^verbatim>\<open>osvbng_cgnat\<close>).
  \<^item> \<^verbatim>\<open>Cgnat_Types\<close> (\<^verbatim>\<open>osvbng_cgnat.h\<close>): pools, mappings, sessions, fragment records, timeouts, the TCP
    state machine.
  \<^item> \<^verbatim>\<open>Cgnat_Det\<close>: deterministic NAT by arithmetic on prefix parameters.
  \<^item> \<^verbatim>\<open>Cgnat_Session\<close> (\<^verbatim>\<open>osvbng_cgnat_session.c\<close>): keys, the port allocator, creation, deletion, expiry.
  \<^item> \<^verbatim>\<open>Cgnat_Config\<close> (\<^verbatim>\<open>osvbng_cgnat.c\<close>, \<^verbatim>\<open>osvbng_cgnat_api.c\<close>): the configuration messages.
  \<^item> \<^verbatim>\<open>Cgnat_Nodes\<close> (\<^verbatim>\<open>osvbng_cgnat_in2out.c\<close>, \<^verbatim>\<open>osvbng_cgnat_out2in.c\<close>): the four packet nodes on the bytes
    of a packet.
  \<^item> \<^verbatim>\<open>Cgnat_Inv\<close>, \<^verbatim>\<open>Cgnat_Reach\<close>, \<^verbatim>\<open>Cgnat_Props\<close>: the invariant that ties sessions, mappings, pools and tables, the
    reachable states, and the properties: accounting, the identity of a subscriber outside, the way back of
    an answer, checksums (under the documented laws of VPP's one's complement routines), TCP timeouts, port
    allocation, deterministic blocks, reaping.  A session key keeps 16 bits of a FIB index: that a packet
    gets the mapping of its own table rests on the indices in use fitting them (\<open>fibs_fit\<close>).

  \<^bold>\<open>IPoE\<close> (\<^verbatim>\<open>osvbng_ipoe\<close>).  \<^verbatim>\<open>Ipoe\<close> has the sessions, their bindings and routes (\<^verbatim>\<open>osvbng_ipoe.c\<close>,
  \<^verbatim>\<open>osvbng_ipoe_api.c\<close>) and the input node with its lookup cache (\<^verbatim>\<open>osvbng_ipoe_input.c\<close>); \<^verbatim>\<open>Ipoe_Inv\<close> the invariant,
  with the contract of a binding operation as the locale \<open>ipoe_binding\<close>, interpreted for IPv4, IPv6 and
  delegated prefixes; \<^verbatim>\<open>Ipoe_Props\<close> the states \<open>ipoe_reach\<close> admits, after any calls, and the properties: the tables
  agree, and so do the routes while every removal names what is bound (a flag of the relation), the
  node equals a direct lookup per packet, frames are attributed to the session they are built for.

  \<^bold>\<open>Punt\<close> (\<^verbatim>\<open>osvbng_punt\<close>).  \<^verbatim>\<open>Punt\<close> has the shared region, the policer and the punt path
  (\<^verbatim>\<open>osvbng_punt_shared.h\<close>, \<^verbatim>\<open>osvbng_punt_shm.c\<close>, \<^verbatim>\<open>osvbng_punt.h\<close>, \<^verbatim>\<open>osvbng_punt.c\<close>); \<^verbatim>\<open>Punt_Nodes\<close> the enabling of
  protocols, the classifier nodes (\<^verbatim>\<open>osvbng_punt_dhcp.c\<close> and its siblings) and the egress node
  (\<^verbatim>\<open>osvbng_punt_egress.c\<close>); \<^verbatim>\<open>Punt_Ring\<close> the layout and the refinement of every ring to a queue of frames, over
  the states \<open>punt_reach\<close> admits; \<^verbatim>\<open>Punt_Props\<close> the properties: the regions tile, the rings are queues, the
  policer bounds the aggregate, the broadcast route follows the count that any history of calls gives its FIB (\<open>bcast_reach\<close>), which is the
  number of enabled interfaces when the history is clean, and the egress node keeps the order.

  \<^bold>\<open>Bounds and fuel.\<close>  \<open>pool_small\<close> says a pool has fewer slots than the index type has values, so that ~0 is
  never a slot; with \<^verbatim>\<open>CGNAT_MAX_SESSIONS\<close> the code keeps the sessions below that.  The walk up the
  aggregates has the number of slots as its fuel, which only a cycle uses up, and no cycle is reachable.
  The attachment walk, the dequeue loops of a flow and a scheduler and the reaping of a mapping are partial functions
  with proofs that they return: the hierarchy is well founded, every visit removes a packet or lets go of a flow or
  a scheduler, a dispatch sends at most its budget of one frame, each reaping deletes a session.  The egress loop
  ends by the distance of its tail to the head.  The ring sizes of the punt plugin are powers of two, as
  its masks need, and its region fits the 32-bit offsets (\<open>punt_fits\<close>); the code checks neither.
  A 64-bit deficit is an integer with its bounds proved in \<^verbatim>\<open>Cake_Drr\<close>.

  \<^bold>\<open>Not modelled.\<close>  Text output, traces, node counters and error codes, logging, message encoding, and the
  registration of nodes and features keep no state of the plugins.  Locks, barriers and prefetches are dropped:
  a barrier makes an operation one step, and where workers meet without one (shared children, occupancy, the rate gate,
  the punt rings) the interleaving is explicit.  The hand-off of a frame between workers
  (\<^verbatim>\<open>cake_handoff.c\<close>) is VPP's frame queue; the punt plugin's eventfd socket and the clean-up of its
  region are the operating system's.  The plugins \<^verbatim>\<open>osvbng_pppoe\<close>, \<^verbatim>\<open>l2tpv2\<close>, \<^verbatim>\<open>osvbng_l2gw\<close>, \<^verbatim>\<open>osvbng_srg\<close> and \<^verbatim>\<open>osvbng_tunnel\<close> are not modelled yet.  Rounding of doubles is not modelled: times of the NAT and
  the policer are reals.
\<close>

end
